(* ===== verification/Prelude.thy ===== *)
theory Prelude
  imports
    Main
    "HOL-Library.Word"
    "HOL-Library.Char_ord"
    "HOL-Library.List_Lexorder"
    "HOL-Library.Product_Lexorder"
begin

section \<open>Shared types, standard-library operations and lemmas\<close>

text \<open>
  What the components share.  A Rust \<open>String\<close> is its UTF-8 byte string, an Isabelle
  \<open>string\<close> (a list of 8-bit characters): equality, order, prefixes and splitting at an
  ASCII character then mean the same as in Rust (the theory \<open>Utf8\<close> gives the code points).
  A \<open>BTreeMap\<close> is an association list in strictly ascending key order.  The standard
  library's string and integer functions that the source calls are defined here, each with
  the lemmas the components use.
\<close>

named_theorems utf8_intro \<open>introduction rules for valid UTF-8\<close>
named_theorems sep_free \<open>rules for strings without the unit separator\<close>

type_synonym u8 = "8 word"
type_synonym u32 = "32 word"
type_synonym u64 = "64 word"
type_synonym bytes = "u8 list"

subsection \<open>Characters and bytes\<close>

abbreviation ch :: "char \<Rightarrow> nat" where
  "ch c \<equiv> of_char c"

text \<open>\<open>str::as_bytes\<close> and the unchecked reverse.\<close>

definition as_bytes :: "string \<Rightarrow> bytes" where
  "as_bytes s = map of_char s"

definition chars_of_bytes :: "bytes \<Rightarrow> string" where
  "chars_of_bytes bs = map (\<lambda>b. char_of (unat b)) bs"

lemma unat_of_char_u8 [simp]: "unat (of_char c :: u8) = of_char c"
proof -
  have "(of_char c :: u8) = word_of_nat (of_char c)"
    by (rule of_nat_of_char [symmetric])
  moreover have "(of_char c :: nat) < 256"
    by simp
  ultimately show ?thesis
    by (simp add: unat_of_nat)
qed

lemma chars_of_bytes_as_bytes [simp]: "chars_of_bytes (as_bytes s) = s"
  by (simp add: chars_of_bytes_def as_bytes_def comp_def)

lemma as_bytes_inj [simp]: "as_bytes s = as_bytes t \<longleftrightarrow> s = t"
  by (metis chars_of_bytes_as_bytes)

lemma as_bytes_append [simp]: "as_bytes (s @ t) = as_bytes s @ as_bytes t"
  by (simp add: as_bytes_def)

lemma as_bytes_Nil [simp]: "as_bytes [] = []"
  by (simp add: as_bytes_def)

lemma length_as_bytes [simp]: "length (as_bytes s) = length s"
  by (simp add: as_bytes_def)

lemma ch_less_256 [simp]: "ch c < 256"
  by simp

lemma ch_char_of [simp]: "n < 256 \<Longrightarrow> ch (char_of n) = n"
  by (simp add: of_char_of)

lemma ch_eq_iff: "ch c = ch d \<longleftrightarrow> c = d"
  by (metis char_of_char)

lemma chars_of_bytes_inj_utf8: "as_bytes (chars_of_bytes bs) = bs"
proof -
  have "(of_char (char_of (unat b)) :: u8) = b" for b :: u8
  proof -
    have "(of_char (char_of (unat b)) :: u8) = word_of_nat (of_char (char_of (unat b)))"
      by (rule of_nat_of_char [symmetric])
    also have "(of_char (char_of (unat b)) :: nat) = unat b"
      using unsigned_less [of b, where ?'a = nat] by (simp add: of_char_of)
    finally show ?thesis by simp
  qed
  then show ?thesis
    by (simp add: as_bytes_def chars_of_bytes_def comp_def)
qed

subsection \<open>Results\<close>

text \<open>The \<open>?\<close> operator, \<open>Option::ok_or\<close> and \<open>Result::map_err\<close>.\<close>

fun and_then :: "'e + 'a \<Rightarrow> ('a \<Rightarrow> 'e + 'b) \<Rightarrow> 'e + 'b" where
  "and_then (Inl e) f = Inl e"
| "and_then (Inr x) f = f x"

fun ok_or :: "'e \<Rightarrow> 'a option \<Rightarrow> 'e + 'a" where
  "ok_or e None = Inl e"
| "ok_or e (Some x) = Inr x"

fun map_err :: "('e \<Rightarrow> 'f) \<Rightarrow> 'e + 'a \<Rightarrow> 'f + 'a" where
  "map_err f (Inl e) = Inl (f e)"
| "map_err f (Inr x) = Inr x"

lemma and_then_Inr: "and_then r f = Inr y \<longleftrightarrow> (\<exists>x. r = Inr x \<and> f x = Inr y)"
  by (cases r) auto

lemma ok_or_Inr: "ok_or e r = Inr x \<longleftrightarrow> r = Some x"
  by (cases r) auto

lemma map_err_Inr: "map_err f r = Inr x \<longleftrightarrow> r = Inr x"
  by (cases r) auto

lemmas result_Inr = and_then_Inr ok_or_Inr map_err_Inr

subsection \<open>Ordered maps (\<open>BTreeMap\<close>)\<close>

text \<open>
  Association lists in strictly ascending key order, the order in which a \<open>BTreeMap\<close> is
  iterated.  \<open>map_of\<close> is \<open>BTreeMap::get\<close>.
\<close>

type_synonym ('k, 'v) btree = "('k \<times> 'v) list"

definition bt_ok :: "('k::linorder, 'v) btree \<Rightarrow> bool" where
  "bt_ok m \<longleftrightarrow> sorted_wrt (<) (map fst m)"

fun bt_insert :: "'k::linorder \<Rightarrow> 'v \<Rightarrow> ('k, 'v) btree \<Rightarrow> ('k, 'v) btree" where
  "bt_insert k v [] = [(k, v)]"
| "bt_insert k v ((k', v') # m) =
     (if k < k' then (k, v) # (k', v') # m
      else if k = k' then (k, v) # m
      else (k', v') # bt_insert k v m)"

definition bt_remove :: "'k \<Rightarrow> ('k, 'v) btree \<Rightarrow> ('k, 'v) btree" where
  "bt_remove k m = filter (\<lambda>p. fst p \<noteq> k) m"

text \<open>A map literal: successive insertions into the empty map.\<close>

definition bt_of_list :: "('k::linorder \<times> 'v) list \<Rightarrow> ('k, 'v) btree" where
  "bt_of_list ps = fold (\<lambda>(k, v). bt_insert k v) ps []"

lemma bt_ok_Nil [simp]: "bt_ok []"
  by (simp add: bt_ok_def)

lemma bt_ok_Cons: "bt_ok ((k, v) # m) \<longleftrightarrow> (\<forall>k'\<in>fst ` set m. k < k') \<and> bt_ok m"
  by (auto simp: bt_ok_def)

lemma bt_ok_distinct: "bt_ok m \<Longrightarrow> distinct (map fst m)"
  by (simp add: bt_ok_def strict_sorted_iff)

lemma fst_set_bt_insert [simp]: "fst ` set (bt_insert k v m) = insert k (fst ` set m)"
  by (induction k v m rule: bt_insert.induct) auto

lemma set_bt_insert: "p \<in> set (bt_insert k v m) \<Longrightarrow> p = (k, v) \<or> p \<in> set m"
  by (induction k v m rule: bt_insert.induct) (auto split: if_splits)

lemma bt_ok_insert [simp, intro]: "bt_ok m \<Longrightarrow> bt_ok (bt_insert k v m)"
  by (induction k v m rule: bt_insert.induct) (auto simp: bt_ok_Cons)

lemma map_of_bt_insert [simp]: "map_of (bt_insert k v m) = (map_of m)(k \<mapsto> v)"
  by (induction k v m rule: bt_insert.induct) auto

lemma bt_ok_remove [simp, intro]: "bt_ok m \<Longrightarrow> bt_ok (bt_remove k m)"
  by (induction m) (auto simp: bt_remove_def bt_ok_Cons)

lemma map_of_bt_remove [simp]: "map_of (bt_remove k m) = (map_of m)(k := None)"
  by (induction m) (auto simp: bt_remove_def)

lemma fst_set_bt_remove [simp]: "fst ` set (bt_remove k m) = fst ` set m - {k}"
  by (auto simp: bt_remove_def image_iff)

lemma bt_insert_greater:
  "(\<forall>k'\<in>fst ` set m. k' < k) \<Longrightarrow> bt_insert k v m = m @ [(k, v)]"
  by (induction k v m rule: bt_insert.induct) auto

lemma bt_ok_fold: "bt_ok m \<Longrightarrow> bt_ok (fold (\<lambda>(k, v). bt_insert k v) ps m)"
  by (induction ps arbitrary: m) auto

lemma bt_ok_of_list [simp, intro]: "bt_ok (bt_of_list ps)"
  by (simp add: bt_of_list_def bt_ok_fold)

lemma map_of_fold_insert:
  "map_of (fold (\<lambda>(k, v). bt_insert k v) ps m) k = (case map_of (rev ps) k of None \<Rightarrow> map_of m k | Some v \<Rightarrow> Some v)"
  by (induction ps arbitrary: m) (auto simp: map_add_def split: option.splits)

lemma map_of_bt_of_list: "map_of (bt_of_list ps) = map_of (rev ps)"
  by (rule ext) (simp add: bt_of_list_def map_of_fold_insert split: option.splits)

text \<open>An ordered map is determined by its lookup function.\<close>

lemma map_of_keys: "distinct (map fst m) \<Longrightarrow> map (\<lambda>k. (k, the (map_of m k))) (map fst m) = m"
  by (auto intro!: map_idI simp: comp_def)

lemma bt_ext:
  assumes "bt_ok m" "bt_ok n" "map_of m = map_of n"
  shows "m = n"
proof -
  have "fst ` set m = fst ` set n"
    using assms(3) by (metis dom_map_of_conv_image_fst)
  then have "map fst m = map fst n"
    using assms(1,2) by (intro strict_sorted_equal) (auto simp: bt_ok_def)
  then show ?thesis
    using assms by (metis bt_ok_distinct map_of_keys)
qed


subsection \<open>String operations of the standard library\<close>

text \<open>The unit separator \<open>'\u{1f}'\<close> that delimits composite keys and audit fields.\<close>

definition SEP :: char where
  "SEP = CHR 0x1F"

fun strip_prefix :: "string \<Rightarrow> string \<Rightarrow> string option" where
  "strip_prefix [] s = Some s"
| "strip_prefix (p # ps) [] = None"
| "strip_prefix (p # ps) (c # cs) = (if p = c then strip_prefix ps cs else None)"

definition starts_with :: "string \<Rightarrow> string \<Rightarrow> bool" where
  "starts_with s p \<longleftrightarrow> strip_prefix p s \<noteq> None"

text \<open>\<open>str::split_once\<close> at a character, and \<open>str::split\<close> at a character.\<close>

fun split_once :: "char \<Rightarrow> string \<Rightarrow> (string \<times> string) option" where
  "split_once d [] = None"
| "split_once d (c # cs) =
     (if c = d then Some ([], cs) else map_option (\<lambda>(a, b). (c # a, b)) (split_once d cs))"

fun split_on :: "char \<Rightarrow> string \<Rightarrow> string list" where
  "split_on d [] = [[]]"
| "split_on d (c # cs) =
     (if c = d then [] # split_on d cs
      else (case split_on d cs of [] \<Rightarrow> [[c]] | w # ws \<Rightarrow> (c # w) # ws))"

text \<open>\<open>str::contains\<close> with a string needle; \<open>after_first\<close> is \<open>&s[s.find(key)? + key.len()..]\<close>.\<close>

fun after_first :: "string \<Rightarrow> string \<Rightarrow> string option" where
  "after_first key [] = strip_prefix key []"
| "after_first key (c # cs) =
     (case strip_prefix key (c # cs) of Some rest \<Rightarrow> Some rest | None \<Rightarrow> after_first key cs)"

definition str_contains :: "string \<Rightarrow> string \<Rightarrow> bool" where
  "str_contains s needle \<longleftrightarrow> after_first needle s \<noteq> None"

text \<open>The first part of \<open>s.split(sep)\<close> for a string separator.\<close>

fun before_first :: "string \<Rightarrow> string \<Rightarrow> string" where
  "before_first key [] = []"
| "before_first key (c # cs) = (if starts_with (c # cs) key then [] else c # before_first key cs)"

fun str_join :: "string \<Rightarrow> string list \<Rightarrow> string" where
  "str_join sep [] = []"
| "str_join sep [w] = w"
| "str_join sep (w # ws) = w @ sep @ str_join sep ws"

lemma strip_prefix_Some: "strip_prefix p s = Some r \<longleftrightarrow> s = p @ r"
  by (induction p s rule: strip_prefix.induct) auto

lemma strip_prefix_append [simp]: "strip_prefix p (p @ r) = Some r"
  by (simp add: strip_prefix_Some)

lemma starts_with_iff: "starts_with s p \<longleftrightarrow> (\<exists>r. s = p @ r)"
  unfolding starts_with_def by (metis not_Some_eq strip_prefix_Some)

lemma split_once_append [simp]: "d \<notin> set a \<Longrightarrow> split_once d (a @ d # b) = Some (a, b)"
  by (induction a) auto

lemma split_once_SomeD: "split_once d s = Some (a, b) \<Longrightarrow> s = a @ d # b \<and> d \<notin> set a"
  by (induction s arbitrary: a) (auto split: if_splits)

lemma split_once_Some: "split_once d s = Some (a, b) \<longleftrightarrow> s = a @ d # b \<and> d \<notin> set a"
  using split_once_SomeD [of d s a b] split_once_append [of d a b] by blast

lemma split_once_None: "split_once d s = None \<longleftrightarrow> d \<notin> set s"
  by (induction s) auto

lemma split_on_not_Nil [simp]: "split_on d s \<noteq> []"
  by (induction s) (auto split: list.splits)

lemma split_on_append [simp]: "d \<notin> set a \<Longrightarrow> split_on d (a @ d # b) = a # split_on d b"
  by (induction a) auto

lemma split_on_last: "d \<notin> set a \<Longrightarrow> split_on d a = [a]"
  by (induction a) auto

lemma append_eq_append_sep:
  "(d :: char) \<notin> set a \<Longrightarrow> d \<notin> set a' \<Longrightarrow> a @ d # b = a' @ d # b' \<longleftrightarrow> a = a' \<and> b = b'"
  using split_once_append [of d a b] split_once_append [of d a' b']
  by (metis option.inject prod.inject)

subsection \<open>Decimal numbers\<close>

definition digit :: "nat \<Rightarrow> char" where
  "digit n = char_of (48 + n)"

definition digit_val :: "char \<Rightarrow> nat option" where
  "digit_val c = (if 48 \<le> ch c \<and> ch c < 58 then Some (ch c - 48) else None)"

text \<open>\<open>to_string\<close> of an unsigned integer.\<close>

fun dec :: "nat \<Rightarrow> string" where
  "dec n = (if n < 10 then [digit n] else dec (n div 10) @ [digit (n mod 10)])"

declare dec.simps [simp del]

text \<open>The digits of a number with exactly \<open>w\<close> places; \<open>{:020}\<close> for values below \<open>10 ^ 20\<close>.\<close>

fun dec_fixed :: "nat \<Rightarrow> nat \<Rightarrow> string" where
  "dec_fixed 0 n = []"
| "dec_fixed (Suc w) n = dec_fixed w (n div 10) @ [digit (n mod 10)]"

definition dec_pad :: "nat \<Rightarrow> nat \<Rightarrow> string" where
  "dec_pad w n = replicate (w - length (dec n)) (CHR ''0'') @ dec n"

fun dec_value :: "nat \<Rightarrow> string \<Rightarrow> nat option" where
  "dec_value acc [] = Some acc"
| "dec_value acc (c # cs) =
     (case digit_val c of None \<Rightarrow> None | Some d \<Rightarrow> dec_value (acc * 10 + d) cs)"

text \<open>
  \<open>str::parse\<close> for an unsigned integer with greatest value \<open>m\<close>: an optional \<open>+\<close>, then at
  least one digit, and no overflow.
\<close>

definition parse_uint :: "nat \<Rightarrow> string \<Rightarrow> nat option" where
  "parse_uint m s =
     (let ds = (case s of c # cs \<Rightarrow> if c = CHR ''+'' then cs else s | [] \<Rightarrow> s) in
      if ds = [] then None
      else (case dec_value 0 ds of
              None \<Rightarrow> None
            | Some n \<Rightarrow> if n \<le> m then Some n else None))"

lemma digit_val_digit [simp]: "n < 10 \<Longrightarrow> digit_val (digit n) = Some n"
  by (simp add: digit_val_def digit_def)

lemma dec_value_append: "dec_value acc (s @ t) = Option.bind (dec_value acc s) (\<lambda>a. dec_value a t)"
  by (induction s arbitrary: acc) (auto split: option.splits)

lemma dec_value_dec: "dec_value acc (dec n) = Some (acc * 10 ^ length (dec n) + n)"
proof (induction n arbitrary: acc rule: dec.induct)
  case (1 n)
  show ?case
  proof (cases "n < 10")
    case True
    then show ?thesis by (simp add: dec.simps [of n])
  next
    case False
    then have "dec_value acc (dec n) =
        Some ((acc * 10 ^ length (dec (n div 10)) + n div 10) * 10 + n mod 10)"
      using 1 by (simp add: dec.simps [of n] dec_value_append)
    then show ?thesis
      using False by (simp add: dec.simps [of n] algebra_simps)
  qed
qed

lemma dec_not_Nil [simp]: "dec n \<noteq> []"
  by (subst dec.simps) simp

lemma dec_digits: "c \<in> set (dec n) \<Longrightarrow> 48 \<le> ch c \<and> ch c < 58"
proof (induction n rule: dec.induct)
  case (1 n)
  then show ?case
    by (cases "n < 10") (auto simp: dec.simps [of n] digit_def)
qed

lemma digit_char_eq: "ch c = n \<Longrightarrow> c = char_of n"
  by auto

lemma hd_dec_not_plus: "dec n = c # cs \<Longrightarrow> c \<noteq> CHR ''+''"
proof
  assume "dec n = c # cs" and "c = CHR ''+''"
  then have "48 \<le> ch (CHR ''+'')"
    using dec_digits [of c n] by simp
  then show False by simp
qed

lemma parse_uint_dec [simp]: "n \<le> m \<Longrightarrow> parse_uint m (dec n) = Some n"
  using hd_dec_not_plus [of n] dec_value_dec [of 0 n]
  by (auto simp: parse_uint_def Let_def simp del: dec_value.simps split: list.splits)

lemma dec_inj: "dec m = dec n \<Longrightarrow> m = n"
proof -
  assume "dec m = dec n"
  moreover have "dec_value 0 (dec k) = Some k" for k by (simp add: dec_value_dec)
  ultimately show ?thesis by (metis option.inject)
qed

lemma SEP_not_in_dec [simp, sep_free]: "SEP \<notin> set (dec n)"
  using dec_digits [of SEP n] by (auto simp: SEP_def)


text \<open>Zero-padded sequence numbers sort lexicographically as the numbers do.\<close>

lemma length_dec_fixed [simp]: "length (dec_fixed w n) = w"
  by (induction w arbitrary: n) auto

lemma list_less_append_same_length:
  "length (a :: string) = length b \<Longrightarrow> a < b \<Longrightarrow> a @ s < b @ t"
  by (induction a b rule: list_induct2) auto

lemma list_less_append_left [simp]: "(a :: string) @ s < a @ t \<longleftrightarrow> s < t"
  by (induction a) auto

lemma digit_less: "m < n \<Longrightarrow> n < 10 \<Longrightarrow> digit m < digit n"
  by (simp add: digit_def less_char_def)

lemma dec_fixed_less: "m < n \<Longrightarrow> n < 10 ^ w \<Longrightarrow> dec_fixed w m < dec_fixed w n"
proof (induction w arbitrary: m n)
  case 0
  then show ?case by simp
next
  case (Suc w)
  show ?case
  proof (cases "m div 10 < n div 10")
    case True
    moreover have "n div 10 < 10 ^ w"
      using Suc.prems(2) by (simp add: less_mult_imp_div_less mult.commute)
    ultimately show ?thesis
      by (auto intro: list_less_append_same_length Suc.IH)
  next
    case False
    then have "m div 10 = n div 10"
      using Suc.prems(1) by (simp add: div_le_mono order.antisym)
    moreover from this have "m mod 10 < n mod 10"
      using Suc.prems(1) div_mult_mod_eq [of m 10] div_mult_mod_eq [of n 10] by linarith
    ultimately show ?thesis
      by (simp add: digit_less)
  qed
qed

lemma dec_fixed_0: "dec_fixed w 0 = replicate w (CHR ''0'')"
proof (induction w)
  case (Suc w)
  have "digit 0 = CHR ''0''" by (simp add: digit_def char_of_def bit_0)
  with Suc show ?case by (simp add: replicate_append_same)
qed simp

lemma length_dec_bound: "n < 10 ^ w \<Longrightarrow> 0 < w \<Longrightarrow> length (dec n) \<le> w"
proof (induction n arbitrary: w rule: dec.induct)
  case (1 n)
  show ?case
  proof (cases "n < 10")
    case True
    with 1 show ?thesis by (simp add: dec.simps [of n])
  next
    case False
    obtain v where w: "w = Suc v" using "1.prems" by (cases w) auto
    moreover have "0 < v" using "1.prems" False w by (cases v) auto
    ultimately have "n div 10 < 10 ^ v"
      using "1.prems" by (simp add: less_mult_imp_div_less mult.commute)
    with "1.IH" [OF False this \<open>0 < v\<close>] w False show ?thesis by (simp add: dec.simps [of n])
  qed
qed

lemma dec_pad_eq_fixed: "n < 10 ^ w \<Longrightarrow> 0 < w \<Longrightarrow> dec_pad w n = dec_fixed w n"
proof (induction n arbitrary: w rule: dec.induct)
  case (1 n)
  obtain v where w: "w = Suc v" using "1.prems" by (cases w) auto
  show ?case
  proof (cases "n < 10")
    case True
    then show ?thesis
      by (simp add: dec_pad_def dec.simps [of n] w dec_fixed_0)
  next
    case False
    have "0 < v" using "1.prems" False w by (cases v) auto
    moreover have "n div 10 < 10 ^ v"
      using "1.prems" w by (simp add: less_mult_imp_div_less mult.commute)
    ultimately have v: "0 < v" "n div 10 < 10 ^ v" by simp_all
    from "1.IH" [OF False v(2,1)] show ?thesis
      using False w length_dec_bound [OF v(2,1)]
      by (simp add: dec_pad_def dec.simps [of n] Suc_diff_le)
  qed
qed

lemma dec_pad_less: "m < n \<Longrightarrow> n < 10 ^ w \<Longrightarrow> 0 < w \<Longrightarrow> dec_pad w m < dec_pad w n"
  by (simp add: dec_pad_eq_fixed dec_fixed_less)

subsection \<open>Fixed-width integers as bytes\<close>

text \<open>\<open>to_le_bytes\<close> and \<open>from_le_bytes\<close>, for a number of bytes \<open>k\<close>.\<close>

fun le_bytes :: "nat \<Rightarrow> nat \<Rightarrow> bytes" where
  "le_bytes 0 n = []"
| "le_bytes (Suc k) n = word_of_nat (n mod 256) # le_bytes k (n div 256)"

fun le_value :: "bytes \<Rightarrow> nat" where
  "le_value [] = 0"
| "le_value (b # bs) = unat b + 256 * le_value bs"

definition be_bytes :: "nat \<Rightarrow> nat \<Rightarrow> bytes" where
  "be_bytes k n = rev (le_bytes k n)"

definition be_value :: "bytes \<Rightarrow> nat" where
  "be_value bs = le_value (rev bs)"

lemma length_le_bytes [simp]: "length (le_bytes k n) = k"
  by (induction k arbitrary: n) auto

lemma le_value_le_bytes: "n < 256 ^ k \<Longrightarrow> le_value (le_bytes k n) = n"
proof (induction k arbitrary: n)
  case (Suc k)
  have "n div 256 < 256 ^ k"
    using Suc.prems by (simp add: less_mult_imp_div_less mult.commute)
  with Suc.IH show ?case by (simp add: unat_of_nat)
qed simp

lemma le_value_less: "le_value bs < 256 ^ length bs"
proof (induction bs)
  case (Cons b bs)
  have "unat b < 256" using unsigned_less [of b, where ?'a = nat] by simp
  with Cons show ?case by simp
qed simp

lemma le_bytes_inj: "m < 256 ^ k \<Longrightarrow> n < 256 ^ k \<Longrightarrow> le_bytes k m = le_bytes k n \<Longrightarrow> m = n"
  by (metis le_value_le_bytes)

lemma le_bytes_le_value: "le_bytes (length bs) (le_value bs) = bs"
proof (induction bs)
  case (Cons b bs)
  have "unat b < 256" using unsigned_less [of b, where ?'a = nat] by simp
  with Cons show ?case by simp
qed simp

end
