(* ===== verification/F64.thy ===== *)
theory F64
  imports Complex_Main Prelude
begin

section \<open>Double-precision numbers (the \<open>f64\<close> of the JSON reader and writer)\<close>

text \<open>
  The JSON value holds numbers as \<open>f64\<close>.  A finite double is its rational value (the two zeros
  are one value, which the code never tells apart).  Conversions from integers and from decimal
  text round to the nearest double, ties to even, with overflow to infinity, as IEEE 754 and
  the standard library prescribe; \<open>Display\<close> prints the shortest decimal that reads back as
  the same double.  The lemma \<open>f64_of_ratio_exact\<close> says that representable values are kept.
\<close>

datatype f64 = Finite rat | Infinite bool | NaN

subsection \<open>Rounding\<close>

fun ilog2 :: "nat \<Rightarrow> nat" where
  "ilog2 n = (if n < 2 then 0 else Suc (ilog2 (n div 2)))"

declare ilog2.simps [simp del]

text \<open>The binary exponent of \<open>p / q\<close>: the greatest \<open>e\<close> with \<open>2 powi e \<le> p / q\<close>.\<close>

definition ratio_log2 :: "nat \<Rightarrow> nat \<Rightarrow> int" where
  "ratio_log2 p q =
     (if ilog2 q \<le> ilog2 p
      then (let d = ilog2 p - ilog2 q in if q * 2 ^ d \<le> p then int d else int d - 1)
      else (let d = ilog2 q - ilog2 p in if q \<le> p * 2 ^ d then - int d else - int d - 1))"

definition div_half_even :: "nat \<Rightarrow> nat \<Rightarrow> nat" where
  "div_half_even n d =
     (let k = n div d; r = n mod d in
      if 2 * r < d \<or> (2 * r = d \<and> even k) then k else Suc k)"

text \<open>The double nearest to \<open>p / q\<close>, negated if \<open>neg\<close>.\<close>

definition f64_of_ratio :: "bool \<Rightarrow> nat \<Rightarrow> nat \<Rightarrow> f64" where
  "f64_of_ratio neg p q =
     (if p = 0 then Finite 0
      else let k = max (- 1074) (ratio_log2 p q - 52);
               m = (if 0 \<le> k then div_half_even p (q * 2 ^ nat k)
                    else div_half_even (p * 2 ^ nat (- k)) q);
               v = of_nat m * 2 powi k
           in if 2 ^ 1024 \<le> v then Infinite neg else Finite (if neg then - v else v))"

definition f64_of_nat :: "nat \<Rightarrow> f64" where
  "f64_of_nat n = f64_of_ratio False n 1"

subsection \<open>Operations\<close>

definition f64_is_finite :: "f64 \<Rightarrow> bool" where
  "f64_is_finite x = (case x of Finite _ \<Rightarrow> True | _ \<Rightarrow> False)"

text \<open>\<open>n.fract() == 0.0\<close>; the fractional part of an infinity is NaN.\<close>

definition f64_fract_zero :: "f64 \<Rightarrow> bool" where
  "f64_fract_zero x = (case x of Finite q \<Rightarrow> of_int \<lfloor>q\<rfloor> = q | _ \<Rightarrow> False)"

fun f64_le :: "f64 \<Rightarrow> f64 \<Rightarrow> bool" where
  "f64_le (Finite p) (Finite q) = (p \<le> q)"
| "f64_le (Infinite True) (Finite _) = True"
| "f64_le (Infinite False) (Finite _) = False"
| "f64_le (Finite _) (Infinite neg) = (\<not> neg)"
| "f64_le (Infinite a) (Infinite b) = (a \<or> \<not> b)"
| "f64_le _ _ = False"

text \<open>\<open>as\<close> casts to an integer between \<open>lo\<close> and \<open>hi\<close>: truncate and saturate; NaN is 0.\<close>

definition f64_cast :: "int \<Rightarrow> int \<Rightarrow> f64 \<Rightarrow> int" where
  "f64_cast lo hi x =
     (case x of
        Finite q \<Rightarrow> max lo (min hi (if q < 0 then \<lceil>q\<rceil> else \<lfloor>q\<rfloor>))
      | Infinite neg \<Rightarrow> if neg then lo else hi
      | NaN \<Rightarrow> 0)"

subsection \<open>Decimal text\<close>

text \<open>
  \<open>str::parse::<f64>\<close> on text made of digits, signs, points and exponent letters (the only text
  the JSON reader hands over, so never \<open>inf\<close> or \<open>nan\<close>): an optional sign, digits with at most
  one point and at least one digit, and an optional exponent with at least one digit.
\<close>

fun take_digits :: "string \<Rightarrow> nat list \<times> string" where
  "take_digits [] = ([], [])"
| "take_digits (c # cs) =
     (case digit_val c of
        None \<Rightarrow> ([], c # cs)
      | Some d \<Rightarrow> (let (ds, rest) = take_digits cs in (d # ds, rest)))"

definition digits_value :: "nat list \<Rightarrow> nat" where
  "digits_value ds = foldl (\<lambda>acc d. acc * 10 + d) 0 ds"

definition take_sign :: "string \<Rightarrow> bool \<times> string" where
  "take_sign s =
     (case s of
        c # cs \<Rightarrow> if c = CHR ''-'' then (True, cs) else if c = CHR ''+'' then (False, cs) else (False, s)
      | [] \<Rightarrow> (False, []))"

definition parse_exponent :: "string \<Rightarrow> int option" where
  "parse_exponent s =
     (case s of
        [] \<Rightarrow> Some 0
      | c # cs \<Rightarrow>
          if c = CHR ''e'' \<or> c = CHR ''E'' then
            (let (neg, r) = take_sign cs; (ds, rest) = take_digits r in
             if ds = [] \<or> rest \<noteq> [] then None
             else Some (if neg then - int (digits_value ds) else int (digits_value ds)))
          else None)"

definition f64_of_decimal :: "bool \<Rightarrow> nat \<Rightarrow> int \<Rightarrow> f64" where
  "f64_of_decimal neg n e =
     (if 0 \<le> e then f64_of_ratio neg (n * 10 ^ nat e) 1 else f64_of_ratio neg n (10 ^ nat (- e)))"

definition f64_parse :: "string \<Rightarrow> f64 option" where
  "f64_parse s =
     (let (neg, r) = take_sign s;
          (ip, r1) = take_digits r;
          (fp, r2) = (case r1 of c # cs \<Rightarrow> if c = CHR ''.'' then take_digits cs else ([], r1) | [] \<Rightarrow> ([], []))
      in if ip = [] \<and> fp = [] then None
         else (case parse_exponent r2 of
                 None \<Rightarrow> None
               | Some e \<Rightarrow> Some (f64_of_decimal neg (digits_value (ip @ fp)) (e - int (length fp)))))"

text \<open>
  \<open>Display\<close>: for a growing number of digits, the decimal neighbours of the value that read back
  as the value, the closer one first; the decimal \<open>n * 10 powi e\<close> is laid out without an
  exponent.  If no candidate with up to 17 digits reads back (this does not occur for a
  double), the exact expansion is printed.
\<close>

definition decimal_layout :: "nat \<Rightarrow> int \<Rightarrow> string" where
  "decimal_layout n e =
     (let ds = dec n in
      if 0 \<le> e then ds @ replicate (nat e) (CHR ''0'')
      else let k = nat (- e) in
           if k < length ds then take (length ds - k) ds @ ''.'' @ drop (length ds - k) ds
           else ''0.'' @ replicate (k - length ds) (CHR ''0'') @ ds)"

definition decimal_value :: "nat \<Rightarrow> int \<Rightarrow> rat" where
  "decimal_value n e = of_nat n * 10 powi e"

text \<open>The decimal exponent of \<open>a > 0\<close> is searched upwards from the least one of a double.\<close>

definition decimal_exponent :: "rat \<Rightarrow> int" where
  "decimal_exponent a =
     (case find (\<lambda>e. a < 10 powi (e + 1)) [- 324 .. 309] of Some e \<Rightarrow> e | None \<Rightarrow> 309)"

text \<open>Trailing zeros of the digits move into the exponent.\<close>

fun strip_zeros :: "nat \<Rightarrow> int \<Rightarrow> nat \<times> int" where
  "strip_zeros n e = (if n \<noteq> 0 \<and> n mod 10 = 0 then strip_zeros (n div 10) (e + 1) else (n, e))"

declare strip_zeros.simps [simp del]

definition shortest_candidates :: "rat \<Rightarrow> nat \<Rightarrow> (nat \<times> int) list" where
  "shortest_candidates a digits =
     (let e = decimal_exponent a - int digits + 1;
          lo = nat \<lfloor>a / 10 powi e\<rfloor>;
          hi = Suc lo
      in if a - decimal_value lo e \<le> decimal_value hi e - a 
         then [strip_zeros lo e, strip_zeros hi e] else [strip_zeros hi e, strip_zeros lo e])"

text \<open>Every double is a multiple of \<open>2 powi (- 1074)\<close>, so it has at most 1074 decimal places.\<close>

definition decimal_places :: nat where
  "decimal_places = 1074"

definition exact_decimal :: "rat \<Rightarrow> nat \<times> int" where
  "exact_decimal a = (nat \<lfloor>a * 10 ^ decimal_places\<rfloor>, - int decimal_places)"

definition shortest_decimal :: "rat \<Rightarrow> nat \<times> int" where
  "shortest_decimal a =
     (case find (\<lambda>(n, e). f64_of_decimal False n e = Finite a)
             (concat (map (shortest_candidates a) [1..<18])) of
        Some c \<Rightarrow> c
      | None \<Rightarrow> exact_decimal a)"

definition f64_display :: "f64 \<Rightarrow> string" where
  "f64_display x =
     (case x of
        Finite q \<Rightarrow>
          if q = 0 then ''0''
          else (if q < 0 then ''-'' else []) @ (let (n, e) = shortest_decimal \<bar>q\<bar> in decimal_layout n e)
      | Infinite neg \<Rightarrow> if neg then ''-inf'' else ''inf''
      | NaN \<Rightarrow> ''NaN'')"

definition int_display :: "int \<Rightarrow> string" where
  "int_display i = (if i < 0 then ''-'' @ dec (nat (- i)) else dec (nat i))"


subsection \<open>Representable values\<close>

definition representable :: "rat \<Rightarrow> bool" where
  "representable x \<longleftrightarrow>
     (\<exists>m k. x = of_int m * 2 powi k \<and> \<bar>m\<bar> < 2 ^ 53 \<and> - 1074 \<le> k) \<and> \<bar>x\<bar> < 2 ^ 1024"

lemma ilog2_bounds: "0 < n \<Longrightarrow> 2 ^ ilog2 n \<le> n \<and> n < 2 ^ Suc (ilog2 n)"
proof (induction n rule: ilog2.induct)
  case (1 n)
  show ?case
  proof (cases "n < 2")
    case True
    with 1 show ?thesis by (simp add: ilog2.simps [of n])
  next
    case False
    then have "2 ^ ilog2 (n div 2) \<le> n div 2 \<and> n div 2 < 2 ^ Suc (ilog2 (n div 2))"
      using 1 by simp
    with False show ?thesis by (simp add: ilog2.simps [of n]) linarith
  qed
qed

lemma powi_2_pos [simp]: "0 < (2 :: rat) powi k"
  by (simp add: zero_less_power_int)

lemma powi_diff: "(2 :: rat) powi (int a - int b) = 2 ^ a / 2 ^ b"
  by (simp add: power_int_diff)

lemma ratio_log2_alt:
  assumes "0 < p" "0 < q"
  shows "ratio_log2 p q =
    (let e = int (ilog2 p) - int (ilog2 q) in if 2 powi e \<le> (of_nat p / of_nat q :: rat) then e else e - 1)"
proof (cases "ilog2 q \<le> ilog2 p")
  case True
  define d where "d = ilog2 p - ilog2 q"
  have e: "int (ilog2 p) - int (ilog2 q) = int d"
    using True by (simp add: d_def)
  have r: "ratio_log2 p q = (if q * 2 ^ d \<le> p then int d else int d - 1)"
    using True by (simp add: ratio_log2_def d_def Let_def)
  have "(2 ^ d \<le> (of_nat p / of_nat q :: rat)) = (of_nat (q * 2 ^ d) \<le> (of_nat p :: rat))"
    using assms by (simp add: field_simps)
  also have "\<dots> = (q * 2 ^ d \<le> p)" by (rule of_nat_le_iff)
  finally show ?thesis
    unfolding e r Let_def by simp
next
  case False
  define d where "d = ilog2 q - ilog2 p"
  have e: "int (ilog2 p) - int (ilog2 q) = - int d"
    using False by (simp add: d_def)
  have r: "ratio_log2 p q = (if q \<le> p * 2 ^ d then - int d else - int d - 1)"
    using False by (simp add: ratio_log2_def d_def Let_def)
  have "(1 / 2 ^ d \<le> (of_nat p / of_nat q :: rat)) = (of_nat q \<le> (of_nat (p * 2 ^ d) :: rat))"
    using assms by (simp add: field_simps)
  also have "\<dots> = (q \<le> p * 2 ^ d)" by (rule of_nat_le_iff)
  finally show ?thesis
    unfolding e r Let_def by (simp add: power_int_minus inverse_eq_divide)
qed

lemma ilog2_bounds_rat:
  assumes "0 < n"
  shows "2 ^ ilog2 n \<le> (of_nat n :: rat)" "(of_nat n :: rat) < 2 * 2 ^ ilog2 n"
proof -
  have "(of_nat (2 ^ ilog2 n) :: rat) \<le> of_nat n" "(of_nat n :: rat) < of_nat (2 * 2 ^ ilog2 n)"
    using ilog2_bounds [OF assms] by (simp_all only: of_nat_le_iff of_nat_less_iff) simp_all
  then show "2 ^ ilog2 n \<le> (of_nat n :: rat)" "(of_nat n :: rat) < 2 * 2 ^ ilog2 n" by simp_all
qed

lemma ratio_log2_bounds:
  assumes "0 < p" "0 < q"
  shows "2 powi ratio_log2 p q \<le> (of_nat p / of_nat q :: rat)"
    and "(of_nat p / of_nat q :: rat) < 2 powi (ratio_log2 p q + 1)"
proof -
  define x where "x = (of_nat p / of_nat q :: rat)"
  define A B where "A = (2 ^ ilog2 p :: rat)" and "B = (2 ^ ilog2 q :: rat)"
  have AB: "0 < A" "0 < B" by (simp_all add: A_def B_def)
  note b = ilog2_bounds_rat [OF assms(1), folded A_def] ilog2_bounds_rat [OF assms(2), folded B_def]
  have "A / (2 * B) < x" 
  proof -
    have "A / (2 * B) < A / of_nat q" using b AB assms by (intro divide_strict_left_mono) auto
    also have "\<dots> \<le> x" using b assms by (simp add: x_def divide_right_mono)
    finally show ?thesis .
  qed
  moreover have "x < 2 * A / B"
  proof -
    have "x < 2 * A / of_nat q" using b assms by (simp add: x_def divide_strict_right_mono)
    also have "\<dots> \<le> 2 * A / B" using b AB by (intro divide_left_mono) auto
    finally show ?thesis .
  qed
  ultimately have "2 powi ratio_log2 p q \<le> x \<and> x < 2 powi (ratio_log2 p q + 1)"
    using ratio_log2_alt [OF assms, folded x_def]
    by (auto simp: Let_def powi_diff power_int_add power_int_diff A_def B_def field_simps)
  then show "2 powi ratio_log2 p q \<le> (of_nat p / of_nat q :: rat)"
    and "(of_nat p / of_nat q :: rat) < 2 powi (ratio_log2 p q + 1)" by (auto simp: x_def)
qed


lemma div_half_even_exact [simp]: "0 < d \<Longrightarrow> div_half_even (n * d) d = n"
  by (simp add: div_half_even_def Let_def)

lemma div_half_even_le: "0 < d \<Longrightarrow> n \<le> m * d \<Longrightarrow> div_half_even n d \<le> m"
proof -
  assume d: "0 < d" and n: "n \<le> m * d"
  then have k: "n div d \<le> m"
    by (metis div_le_mono div_mult_self_is_m)
  have "n mod d = 0" if "n div d = m"
    using n div_mult_mod_eq [of n d] that by simp
  then have "Suc (n div d) \<le> m" if "n mod d \<noteq> 0"
    using k that by (meson Suc_leI le_neq_implies_less)
  then show ?thesis
    using k d by (auto simp: div_half_even_def Let_def)
qed

lemma powi_split: "k \<le> k0 \<Longrightarrow> (2 :: rat) powi k0 = 2 ^ nat (k0 - k) * 2 powi k"
  using power_int_add [of "2 :: rat" "int (nat (k0 - k))" k] unfolding power_int_of_nat by simp

text \<open>A positive representable value is a multiple of the unit in its last place.\<close>

lemma representable_ulp:
  assumes "representable x" "0 < x" "2 powi e \<le> x"
  shows "\<exists>n. x = of_nat n * 2 powi (max (- 1074) (e - 52))"
proof -
  define k where "k = max (- 1074) (e - 52)"
  obtain m k0 where m: "x = of_int m * 2 powi k0" "\<bar>m\<bar> < 2 ^ 53" "- 1074 \<le> k0"
    using assms(1) by (auto simp: representable_def)
  have "0 < m" using m(1) assms(2) powi_2_pos [of k0] by (auto simp: zero_less_mult_iff dest: less_asym)
  show ?thesis
  proof (cases "k \<le> k0")
    case True
    have "x = of_nat (nat m * 2 ^ nat (k0 - k)) * 2 powi k"
      using m(1) powi_split [OF True] \<open>0 < m\<close> by simp
    then show ?thesis unfolding k_def [symmetric] by blast
  next
    case False
    then have le: "k0 + 53 \<le> e" using m(3) by (auto simp: k_def)
    have "2 powi (k0 + 53) \<le> (2 :: rat) powi e"
      using le by (simp add: power_int_increasing)
    also have "\<dots> \<le> of_int m * 2 powi k0" using assms(3) m(1) by simp
    finally have "2 ^ 53 \<le> (of_int m :: rat)"
      by (simp add: power_int_add)
    then have "(of_int (2 ^ 53) :: rat) \<le> of_int m" by simp
    then have "2 ^ 53 \<le> m" by (simp only: of_int_le_iff)
    with m(2) show ?thesis by simp
  qed
qed

definition ulp_exponent :: "nat \<Rightarrow> nat \<Rightarrow> int" where
  "ulp_exponent p q = max (- 1074) (ratio_log2 p q - 52)"

definition ulp_count :: "nat \<Rightarrow> nat \<Rightarrow> nat" where
  "ulp_count p q =
     (let k = ulp_exponent p q in
      if 0 \<le> k then div_half_even p (q * 2 ^ nat k) else div_half_even (p * 2 ^ nat (- k)) q)"

lemma f64_of_ratio_alt:
  "f64_of_ratio neg p q =
     (if p = 0 then Finite 0
      else let v = of_nat (ulp_count p q) * 2 powi ulp_exponent p q
           in if 2 ^ 1024 \<le> v then Infinite neg else Finite (if neg then - v else v))"
  by (simp add: f64_of_ratio_def ulp_count_def ulp_exponent_def Let_def)

lemma ulp_count_exact:
  assumes "0 < q" "(of_nat p / of_nat q :: rat) = of_nat n * 2 powi ulp_exponent p q"
  shows "ulp_count p q = n"
proof (cases "0 \<le> ulp_exponent p q")
  case True
  define k where "k = nat (ulp_exponent p q)"
  have "(of_nat p :: rat) = of_nat (n * (q * 2 ^ k))"
    using assms True by (simp add: k_def power_int_def field_simps)
  then have "p = n * (q * 2 ^ k)" by (simp only: of_nat_eq_iff)
  then show ?thesis
    using True assms(1) div_half_even_exact [of "q * 2 ^ k" n] by (simp add: ulp_count_def k_def Let_def)
next
  case False
  define k where "k = nat (- ulp_exponent p q)"
  have "(of_nat (p * 2 ^ k) :: rat) = of_nat (n * q)"
    using assms False by (simp add: k_def power_int_def field_simps)
  then have "p * 2 ^ k = n * q" by (simp only: of_nat_eq_iff)
  then show ?thesis
    using False assms(1) div_half_even_exact [of q n] by (simp add: ulp_count_def k_def Let_def)
qed

theorem f64_of_ratio_exact:
  assumes "0 < q" "representable (of_nat p / of_nat q)"
  shows "f64_of_ratio neg p q = Finite (if neg then - (of_nat p / of_nat q) else of_nat p / of_nat q)"
proof (cases "p = 0")
  case False
  let ?x = "of_nat p / of_nat q :: rat"
  have "0 < ?x" using False assms(1) by simp
  then obtain n where n: "?x = of_nat n * 2 powi ulp_exponent p q"
    using representable_ulp [OF assms(2)] ratio_log2_bounds(1) [of p q] False assms(1)
    by (auto simp: ulp_exponent_def)
  have "?x < 2 ^ 1024" using assms(2) \<open>0 < ?x\<close> by (simp add: representable_def)
  with ulp_count_exact [OF assms(1) n] n False show ?thesis
    by (simp add: f64_of_ratio_alt Let_def)
qed (simp add: f64_of_ratio_def)

lemma ulp_count_le:
  assumes "0 < p" "0 < q"
  shows "ulp_count p q \<le> 2 ^ 53"
proof -
  let ?x = "of_nat p / of_nat q :: rat" and ?k = "ulp_exponent p q"
  have "?x \<le> 2 powi (ratio_log2 p q + 1)"
    using ratio_log2_bounds(2) [OF assms] by simp
  also have "\<dots> \<le> 2 powi (53 + ?k)"
    by (rule power_int_increasing) (simp_all add: ulp_exponent_def)
  finally have x: "?x \<le> 2 ^ 53 * 2 powi ?k" by (simp add: power_int_add)
  show ?thesis
  proof (cases "0 \<le> ?k")
    case True
    have "(of_nat p :: rat) \<le> of_nat (2 ^ 53 * (q * 2 ^ nat ?k))"
      using x assms True by (simp add: power_int_def field_simps)
    then have "p \<le> 2 ^ 53 * (q * 2 ^ nat ?k)" by (simp only: of_nat_le_iff)
    with True assms show ?thesis by (simp add: ulp_count_def Let_def div_half_even_le)
  next
    case False
    have "(of_nat (p * 2 ^ nat (- ?k)) :: rat) \<le> of_nat (2 ^ 53 * q)"
      using x assms False by (simp add: power_int_def field_simps)
    then have "p * 2 ^ nat (- ?k) \<le> 2 ^ 53 * q" by (simp only: of_nat_le_iff)
    with False assms show ?thesis by (simp add: ulp_count_def Let_def div_half_even_le)
  qed
qed

lemma representable_minus [simp]: "representable (- x) = representable x"
proof -
  have "representable (- x)" if "representable x" for x
  proof -
    from that obtain m k where "x = of_int m * 2 powi k" "\<bar>m\<bar> < 2 ^ 53" "- 1074 \<le> k" "\<bar>x\<bar> < 2 ^ 1024"
      by (auto simp: representable_def)
    then have "- x = of_int (- m) * 2 powi k \<and> \<bar>- m\<bar> < 2 ^ 53 \<and> - 1074 \<le> k" by simp
    then have "\<exists>m k. - x = of_int m * 2 powi k \<and> \<bar>m\<bar> < 2 ^ 53 \<and> - 1074 \<le> k" by blast
    with \<open>\<bar>x\<bar> < 2 ^ 1024\<close> show ?thesis unfolding representable_def abs_minus_cancel by blast
  qed
  from this [of x] this [of "- x"] show ?thesis by auto
qed

theorem f64_of_ratio_representable:
  assumes "0 < q" "f64_of_ratio neg p q = Finite y"
  shows "representable y"
proof (cases "p = 0")
  case True
  with assms show ?thesis by (auto simp: f64_of_ratio_def representable_def intro!: exI [of _ "0 :: int"])
next
  case False
  let ?m = "ulp_count p q" and ?k = "ulp_exponent p q"
  let ?v = "of_nat ?m * 2 powi ?k :: rat"
  from assms(2) False have v: "?v < 2 ^ 1024" "y = (if neg then - ?v else ?v)"
    by (auto simp: f64_of_ratio_alt Let_def split: if_splits)
  have "\<exists>m k. ?v = of_int m * 2 powi k \<and> \<bar>m\<bar> < 2 ^ 53 \<and> - 1074 \<le> k"
  proof (cases "?m < 2 ^ 53")
    case True
    then have "?v = of_int (int ?m) * 2 powi ?k \<and> \<bar>int ?m\<bar> < 2 ^ 53 \<and> - 1074 \<le> ?k"
      by (auto simp: ulp_exponent_def)
    then show ?thesis by blast
  next
    case False
    then have "?m = 2 ^ 53"
      using ulp_count_le [of p q] assms(1) \<open>p \<noteq> 0\<close> by simp
    then have "?v = of_int (2 ^ 52) * 2 powi (?k + 1) \<and> \<bar>2 ^ 52 :: int\<bar> < 2 ^ 53 \<and> - 1074 \<le> ?k + 1"
      by (auto simp: ulp_exponent_def power_int_add)
    then show ?thesis by blast
  qed
  moreover have "\<bar>?v\<bar> < 2 ^ 1024" using v(1) by (simp add: less_imp_le)
  ultimately have "representable ?v" unfolding representable_def by blast
  with v(2) show ?thesis by simp
qed

lemma representable_int: "\<bar>i\<bar> < 2 ^ 53 \<Longrightarrow> representable (of_int i)"
proof -
  assume i: "\<bar>i\<bar> < 2 ^ 53"
  have "\<bar>of_int i :: rat\<bar> < 2 ^ 1024"
  proof -
    have "(of_int \<bar>i\<bar> :: rat) < of_int (2 ^ 53)" using i by (simp only: of_int_less_iff)
    also have "\<dots> \<le> 2 ^ 1024" by simp
    finally show ?thesis by simp
  qed
  moreover have "(of_int i :: rat) = of_int i * 2 powi 0 \<and> \<bar>i\<bar> < 2 ^ 53 \<and> (- 1074 :: int) \<le> 0"
    using i by simp
  ultimately show ?thesis unfolding representable_def by blast
qed


text \<open>Values from \<open>2 ^ 1024\<close> on overflow.\<close>

theorem f64_of_ratio_overflow:
  assumes "0 < q" "q * 2 ^ 1024 \<le> p"
  shows "f64_of_ratio neg p q = Infinite neg"
proof -
  define K :: nat where "K = 1024"
  have p: "0 < p" "q * 2 ^ K \<le> p"
    using assms unfolding K_def by (auto intro: Nat.gr0I)
  let ?e = "ratio_log2 p q" and ?k = "ulp_exponent p q"
  have "(of_nat (q * 2 ^ K) :: rat) \<le> of_nat p"
    using p(2) by (simp only: of_nat_le_iff)
  then have "2 powi (int K) \<le> (of_nat p / of_nat q :: rat)"
    using assms(1) by (simp add: field_simps)
  also have "\<dots> < 2 powi (?e + 1)"
    by (rule ratio_log2_bounds(2) [OF p(1) assms(1)])
  finally have "(2 :: rat) powi (int K) < 2 powi (?e + 1)" .
  then have e: "int K \<le> ?e"
    by (meson not_less power_int_increasing one_le_numeral add1_zle_eq linorder_not_le)
  then have k: "?k = ?e - 52" "0 \<le> ?k" by (simp_all add: ulp_exponent_def K_def)
  have "2 powi ?e \<le> (of_nat p / of_nat q :: rat)"
    by (rule ratio_log2_bounds(1) [OF p(1) assms(1)])
  moreover have "(2 :: rat) powi ?e = 2 ^ 52 * 2 ^ nat ?k"
  proof -
    have "?e = int (52 + nat ?k)" using k by simp
    then have "(2 :: rat) powi ?e = 2 powi (int (52 + nat ?k))" by (rule arg_cong)
    then show ?thesis by (simp only: power_int_of_nat power_add)
  qed
  ultimately have "of_nat (2 ^ 52 * (q * 2 ^ nat ?k)) \<le> (of_nat p :: rat)"
    using assms(1) by (simp add: field_simps)
  then have "2 ^ 52 * (q * 2 ^ nat ?k) \<le> p" by (simp only: of_nat_le_iff)
  then have "2 ^ 52 \<le> p div (q * 2 ^ nat ?k)"
    using assms(1) by (simp add: less_eq_div_iff_mult_less_eq)
  then have "2 ^ 52 \<le> ulp_count p q"
    using k(2) by (auto simp: ulp_count_def Let_def div_half_even_def)
  then have "of_nat (2 ^ 52) * 2 powi ?k \<le> (of_nat (ulp_count p q) * 2 powi ?k :: rat)"
    by (intro mult_right_mono) (simp_all only: of_nat_le_iff, simp)
  moreover have "2 ^ K \<le> (2 :: rat) powi ?e"
    using power_int_increasing [OF e, of "2 :: rat"] by simp
  moreover have "(2 :: rat) powi ?e = of_nat (2 ^ 52) * 2 powi ?k"
    using \<open>(2 :: rat) powi ?e = 2 ^ 52 * 2 ^ nat ?k\<close> k(2) by (simp add: power_int_def)
  ultimately have "2 ^ K \<le> (of_nat (ulp_count p q) * 2 powi ?k :: rat)" by linarith
  then show ?thesis using p(1) unfolding f64_of_ratio_alt K_def Let_def by simp
qed

subsection \<open>Reading back what is printed\<close>

definition all_digits :: "string \<Rightarrow> bool" where
  "all_digits s \<longleftrightarrow> (\<forall>c\<in>set s. digit_val c \<noteq> None)"

definition digit_list :: "string \<Rightarrow> nat list" where
  "digit_list s = map (\<lambda>c. the (digit_val c)) s"

lemma all_digits_simps [simp]:
  "all_digits []" "all_digits (s @ t) \<longleftrightarrow> all_digits s \<and> all_digits t"
  "all_digits (c # s) \<longleftrightarrow> digit_val c \<noteq> None \<and> all_digits s"
  by (auto simp: all_digits_def)

lemma digit_list_simps [simp]:
  "digit_list [] = []" "digit_list (s @ t) = digit_list s @ digit_list t"
  "digit_list (c # s) = the (digit_val c) # digit_list s" "length (digit_list s) = length s"
  "digit_list s = [] \<longleftrightarrow> s = []"
  by (simp_all add: digit_list_def)

lemma digit_val_0 [simp]: "digit_val (CHR ''0'') = Some 0"
  by (simp add: digit_val_def)

lemma digit_val_other [simp]:
  "digit_val (CHR ''.'') = None" "digit_val (CHR ''-'') = None" "digit_val (CHR ''+'') = None"
  "digit_val (CHR ''e'') = None" "digit_val (CHR ''E'') = None"
  by (simp_all add: digit_val_def)

lemma all_digits_dec [simp]: "all_digits (dec n)"
  using dec_digits [of _ n] by (auto simp: all_digits_def digit_val_def)

lemma all_digits_replicate [simp]: "all_digits (replicate k (CHR ''0''))"
  by (simp add: all_digits_def)

lemma all_digits_take_drop: "all_digits s \<Longrightarrow> all_digits (take k s) \<and> all_digits (drop k s)"
  by (auto simp: all_digits_def dest: in_set_takeD in_set_dropD)

lemma take_digits_append:
  "all_digits s \<Longrightarrow> (case r of [] \<Rightarrow> True | c # _ \<Rightarrow> digit_val c = None) \<Longrightarrow>
   take_digits (s @ r) = (digit_list s, r)"
  by (induction s) (auto split: list.splits)

lemma take_digits_all: "all_digits s \<Longrightarrow> take_digits s = (digit_list s, [])"
  using take_digits_append [of s "[]"] by simp

lemma digits_value_append:
  "digits_value (xs @ ys) = digits_value xs * 10 ^ length ys + digits_value ys"
proof -
  let ?f = "\<lambda>acc d. acc * 10 + d :: nat"
  have "foldl ?f a ys = a * 10 ^ length ys + foldl ?f 0 ys" for a
  proof (induction ys arbitrary: a)
    case (Cons y ys)
    have "foldl ?f (a * 10 + y) ys = (a * 10 + y) * 10 ^ length ys + foldl ?f 0 ys"
      by (rule Cons)
    moreover have "foldl ?f y ys = y * 10 ^ length ys + foldl ?f 0 ys"
      by (rule Cons)
    ultimately show ?case by (simp add: distrib_right)
  qed simp
  then show ?thesis unfolding digits_value_def foldl_append by blast
qed

lemma digits_value_zeros [simp]: "digits_value (digit_list (replicate k (CHR ''0''))) = 0"
proof (induction k)
  case (Suc k)
  then show ?case
    using digits_value_append [of "[0]" "digit_list (replicate k (CHR ''0''))"] by (simp add: digits_value_def)
qed (simp add: digits_value_def)

lemma digits_value_dec [simp]: "digits_value (digit_list (dec n)) = n"
proof (induction n rule: dec.induct)
  case (1 n)
  show ?case
  proof (cases "n < 10")
    case True
    then show ?thesis by (simp add: dec.simps [of n] digits_value_def)
  next
    case False
    with 1 show ?thesis
      using digits_value_append [of "digit_list (dec (n div 10))" "[n mod 10]"]
      by (simp add: dec.simps [of n] digits_value_def)
  qed
qed

lemma take_sign_cases:
  assumes "all_digits s" "s \<noteq> []"
  shows "take_sign ((if neg then ''-'' else []) @ s @ r) = (neg, s @ r)"
proof -
  obtain c cs where "s = c # cs" using assms(2) by (cases s) auto
  with assms(1) show ?thesis by (auto simp: take_sign_def)
qed

lemma f64_parse_decimal:
  assumes "all_digits ip" "ip \<noteq> []" "all_digits fp"
  shows "f64_parse ((if neg then ''-'' else []) @ ip @ (if fp = [] then [] else CHR ''.'' # fp)) =
    Some (f64_of_decimal neg (digits_value (digit_list (ip @ fp))) (- int (length fp)))"
proof (cases "fp = []")
  case True
  then show ?thesis
    using take_sign_cases [OF assms(1,2), of neg "[]"] assms
    by (simp add: f64_parse_def take_digits_all parse_exponent_def)
next
  case False
  then show ?thesis
    using take_sign_cases [OF assms(1,2), of neg "CHR ''.'' # fp"] assms
      take_digits_append [OF assms(1), of "CHR ''.'' # fp"]
    by (simp add: f64_parse_def take_digits_all parse_exponent_def)
qed

lemma f64_of_decimal_scale: "0 \<le> e \<Longrightarrow> f64_of_decimal neg (n * 10 ^ nat e) 0 = f64_of_decimal neg n e"
  by (simp add: f64_of_decimal_def)

lemma f64_parse_layout:
  "f64_parse ((if neg then ''-'' else []) @ decimal_layout n e) = Some (f64_of_decimal neg n e)"
proof (cases "0 \<le> e")
  case True
  then show ?thesis
    using f64_parse_decimal [of "dec n @ replicate (nat e) (CHR ''0'')" "[]" neg]
    by (simp add: decimal_layout_def Let_def digits_value_append f64_of_decimal_scale)
next
  case False
  define k where "k = nat (- e)"
  have k: "0 < k" "e = - int k" using False by (simp_all add: k_def)
  show ?thesis
  proof (cases "k < length (dec n)")
    case True
    let ?ip = "take (length (dec n) - k) (dec n)" and ?fp = "drop (length (dec n) - k) (dec n)"
    have ne: "?fp \<noteq> []" using k True by simp
    have "f64_parse ((if neg then ''-'' else []) @ ?ip @ (if ?fp = [] then [] else CHR ''.'' # ?fp)) =
      Some (f64_of_decimal neg (digits_value (digit_list (?ip @ ?fp))) (- int (length ?fp)))"
      using True all_digits_take_drop [of "dec n"] by (intro f64_parse_decimal) auto
    with ne k True False show ?thesis
      by (simp add: decimal_layout_def Let_def del: digit_list_simps(2))
  next
    case False': False
    let ?fp = "replicate (k - length (dec n)) (CHR ''0'') @ dec n"
    have "f64_parse ((if neg then ''-'' else []) @ ''0'' @ (if ?fp = [] then [] else CHR ''.'' # ?fp)) =
      Some (f64_of_decimal neg (digits_value (digit_list (''0'' @ ?fp))) (- int (length ?fp)))"
      by (rule f64_parse_decimal) simp_all
    moreover have "digits_value (digit_list (''0'' @ ?fp)) = n"
      using digits_value_append [of "digit_list (''0'')" "digit_list ?fp"]
      by (simp add: digits_value_append digits_value_def [of "[0]"])
    ultimately show ?thesis
      using k False False' by (simp add: decimal_layout_def Let_def)
  qed
qed


lemma f64_of_int_decimal:
  assumes "\<bar>i\<bar> < 2 ^ 53"
  shows "f64_of_ratio (i < 0) (nat \<bar>i\<bar>) 1 = Finite (of_int i)"
proof -
  have "representable (of_nat (nat \<bar>i\<bar>) / of_nat 1)"
    using representable_int [of "\<bar>i\<bar>"] assms by simp
  from f64_of_ratio_exact [OF _ this] show ?thesis by simp
qed

theorem f64_parse_int_display: "\<bar>i\<bar> < 2 ^ 53 \<Longrightarrow> f64_parse (int_display i) = Some (Finite (of_int i))"
  using f64_parse_layout [of "i < 0" "nat \<bar>i\<bar>" 0] f64_of_int_decimal [of i]
  by (auto simp: decimal_layout_def int_display_def f64_of_decimal_def)

lemma f64_of_ratio_neg: "f64_of_ratio False p q = Finite a \<Longrightarrow> f64_of_ratio True p q = Finite (- a)"
  by (auto simp: f64_of_ratio_alt Let_def split: if_splits)

lemma f64_of_decimal_neg: "f64_of_decimal False n e = Finite a \<Longrightarrow> f64_of_decimal neg n e = Finite (if neg then - a else a)"
  by (cases neg) (auto simp: f64_of_decimal_def f64_of_ratio_neg split: if_splits)

lemma dyadic_decimal:
  assumes "- int K \<le> k"
  shows "\<exists>i. of_int m * 2 powi k * 10 ^ K = (of_int i :: rat)"
proof -
  have "2 powi k * 2 ^ K = (2 :: rat) powi (k + int K)"
    by (simp add: power_int_add)
  also have "\<dots> = of_int (2 ^ nat (k + int K))"
    using assms by (simp add: power_int_def)
  finally have "of_int m * 2 powi k * 10 ^ K = (of_int (m * 2 ^ nat (k + int K) * 5 ^ K) :: rat)"
    using power_mult_distrib [of "2 :: rat" 5 K] by (simp add: algebra_simps)
  then show ?thesis by blast
qed

lemma exact_decimal_value:
  assumes "representable a" "0 < a"
  shows "case exact_decimal a of (n, e) \<Rightarrow> f64_of_decimal False n e = Finite a"
proof -
  define K where "K = decimal_places"
  obtain m k where m: "a = of_int m * 2 powi k" "- int K \<le> k"
    using assms(1) by (auto simp: representable_def K_def decimal_places_def)
  then obtain i where i: "a * 10 ^ K = of_int i"
    using dyadic_decimal [OF m(2), of m] by auto
  have "0 < (of_int i :: rat)"
    unfolding i [symmetric] using assms(2) by simp
  then have "0 < i" by simp
  then have v: "of_nat (nat i) / of_nat (10 ^ K) = a"
    using i by (simp add: field_simps)
  have "f64_of_ratio False (nat i) (10 ^ K) = Finite a"
    using f64_of_ratio_exact [of "10 ^ K" "nat i" False] assms(1) unfolding v by simp
  then show ?thesis
    unfolding exact_decimal_def K_def [symmetric] i by (auto simp: f64_of_decimal_def)
qed

lemma shortest_decimal_value:
  assumes "representable a" "0 < a"
  shows "case shortest_decimal a of (n, e) \<Rightarrow> f64_of_decimal False n e = Finite a"
proof (cases "find (\<lambda>(n, e). f64_of_decimal False n e = Finite a)
    (concat (map (shortest_candidates a) [1..<18]))")
  case None
  then show ?thesis using exact_decimal_value [OF assms] by (simp add: shortest_decimal_def)
next
  case (Some c)
  then have "case c of (n, e) \<Rightarrow> f64_of_decimal False n e = Finite a"
    by (auto simp: find_Some_iff)
  with Some show ?thesis by (simp add: shortest_decimal_def)
qed

text \<open>Printing a double and parsing the text gives the double back.\<close>

theorem f64_parse_display:
  assumes "representable q"
  shows "f64_parse (f64_display (Finite q)) = Some (Finite q)"
proof (cases "q = 0")
  case True
  then show ?thesis
    using f64_parse_int_display [of 0] by (simp add: f64_display_def int_display_def dec.simps [of 0] digit_def char_of_def bit_0)
next
  case False
  obtain n e where ne: "shortest_decimal \<bar>q\<bar> = (n, e)" by (cases "shortest_decimal \<bar>q\<bar>")
  have "representable \<bar>q\<bar>" using assms by (cases "0 \<le> q") auto
  with shortest_decimal_value [of "\<bar>q\<bar>"] False ne have "f64_of_decimal False n e = Finite \<bar>q\<bar>"
    by simp
  from f64_of_decimal_neg [OF this, of "q < 0"] show ?thesis
    using f64_parse_layout [of "q < 0" n e] False ne by (auto simp: f64_display_def)
qed

text \<open>The characters of a printed number.\<close>

definition number_char :: "char \<Rightarrow> bool" where
  "number_char c \<longleftrightarrow> (48 \<le> ch c \<and> ch c < 58) \<or> c \<in> {CHR ''-'', CHR ''+'', CHR ''.'', CHR ''e'', CHR ''E''}"

lemma number_char_dec: "c \<in> set (dec n) \<Longrightarrow> number_char c"
  using dec_digits [of c n] by (simp add: number_char_def)

lemma number_char_layout: "c \<in> set (decimal_layout n e) \<Longrightarrow> number_char c"
  by (auto simp: decimal_layout_def Let_def number_char_dec number_char_def [of "CHR ''0''"]
      number_char_def [of "CHR ''.''"] split: if_splits dest!: in_set_takeD in_set_dropD)

lemma number_char_display: "c \<in> set (f64_display (Finite q)) \<Longrightarrow> number_char c"
  by (auto simp: f64_display_def number_char_def [of "CHR ''0''"] number_char_def [of "CHR ''-''"]
      dest: number_char_layout split: if_splits prod.splits)

lemma number_char_int_display: "c \<in> set (int_display i) \<Longrightarrow> number_char c"
  by (auto simp: int_display_def number_char_dec number_char_def [of "CHR ''-''"] split: if_splits)

end
