(* ===== verification/Utf8.thy ===== *)
theory Utf8
  imports Prelude
begin

section \<open>UTF-8: code points of a string\<close>

text \<open>
  \<open>utf8_decode\<close> gives the code points of a string (\<open>str::chars\<close>), \<open>utf8_encode\<close> the bytes of
  one (\<open>String::push\<close>), and \<open>utf8_valid\<close> is the invariant of Rust's string type.  The lemmas
  show that decoding and encoding are inverse to each other and that validity is closed under
  appending.
\<close>

subsection \<open>Encoding and decoding\<close>

text \<open>Unicode scalar values (Rust's \<open>char\<close>): code points outside the surrogate range.\<close>

definition scalar :: "nat \<Rightarrow> bool" where
  "scalar c \<longleftrightarrow> c < 55296 \<or> (57344 \<le> c \<and> c < 1114112)"

text \<open>\<open>String::push\<close>: the UTF-8 bytes of one scalar value.\<close>

definition utf8_encode :: "nat \<Rightarrow> string" where
  "utf8_encode c =
     (if c < 128 then [char_of c]
      else if c < 2048 then [char_of (192 + c div 64), char_of (128 + c mod 64)]
      else if c < 65536 then
        [char_of (224 + c div 4096), char_of (128 + c div 64 mod 64), char_of (128 + c mod 64)]
      else
        [char_of (240 + c div 262144), char_of (128 + c div 4096 mod 64),
         char_of (128 + c div 64 mod 64), char_of (128 + c mod 64)])"

definition utf8_string :: "nat list \<Rightarrow> string" where
  "utf8_string cs = concat (map utf8_encode cs)"

definition cont :: "nat \<Rightarrow> bool" where
  "cont b \<longleftrightarrow> 128 \<le> b \<and> b < 192"

text \<open>The strict decoder of the standard library (\<open>str::from_utf8\<close>, \<open>str::chars\<close>).\<close>

fun utf8_decode :: "string \<Rightarrow> nat list option" where
  "utf8_decode [] = Some []"
| "utf8_decode (c # cs) =
     (if ch c < 128 then map_option ((#) (ch c)) (utf8_decode cs)
      else if 194 \<le> ch c \<and> ch c < 224 then
        (case cs of
           c1 # cs1 \<Rightarrow>
             if cont (ch c1)
             then map_option ((#) ((ch c - 192) * 64 + (ch c1 - 128))) (utf8_decode cs1)
             else None
         | _ \<Rightarrow> None)
      else if 224 \<le> ch c \<and> ch c < 240 then
        (case cs of
           c1 # c2 # cs2 \<Rightarrow>
             let v = (ch c - 224) * 4096 + (ch c1 - 128) * 64 + (ch c2 - 128) in
             if cont (ch c1) \<and> cont (ch c2) \<and> 2048 \<le> v \<and> scalar v
             then map_option ((#) v) (utf8_decode cs2)
             else None
         | _ \<Rightarrow> None)
      else if 240 \<le> ch c \<and> ch c < 245 then
        (case cs of
           c1 # c2 # c3 # cs3 \<Rightarrow>
             let v = (ch c - 240) * 262144 + (ch c1 - 128) * 4096 + (ch c2 - 128) * 64
                       + (ch c3 - 128) in
             if cont (ch c1) \<and> cont (ch c2) \<and> cont (ch c3) \<and> 65536 \<le> v \<and> scalar v
             then map_option ((#) v) (utf8_decode cs3)
             else None
         | _ \<Rightarrow> None)
      else None)"

definition utf8_valid :: "string \<Rightarrow> bool" where
  "utf8_valid s \<longleftrightarrow> utf8_decode s \<noteq> None"

text \<open>\<open>str::chars\<close>: on a valid string the decoder always succeeds.\<close>

definition str_chars :: "string \<Rightarrow> nat list" where
  "str_chars s = (case utf8_decode s of Some cs \<Rightarrow> cs | None \<Rightarrow> [])"

text \<open>\<open>String::from_utf8\<close>.\<close>

definition from_utf8 :: "bytes \<Rightarrow> string option" where
  "from_utf8 bs = (let s = chars_of_bytes bs in if utf8_valid s then Some s else None)"

text \<open>\<open>char::is_whitespace\<close>: space, tab to carriage return, and the code points beyond ASCII.\<close>

definition is_whitespace :: "nat \<Rightarrow> bool" where
  "is_whitespace c \<longleftrightarrow>
     c = 32 \<or> (9 \<le> c \<and> c \<le> 13) \<or> c = 0x85 \<or> c = 0xA0 \<or> c = 0x1680 \<or> (0x2000 \<le> c \<and> c \<le> 0x200A) \<or>
     c = 0x2028 \<or> c = 0x2029 \<or> c = 0x202F \<or> c = 0x205F \<or> c = 0x3000"

text \<open>\<open>str::trim_start\<close>, \<open>str::trim_end\<close> and \<open>str::trim\<close>.\<close>

definition trim_start :: "string \<Rightarrow> string" where
  "trim_start s = utf8_string (dropWhile is_whitespace (str_chars s))"

definition trim_end :: "string \<Rightarrow> string" where
  "trim_end s = utf8_string (rev (dropWhile is_whitespace (rev (str_chars s))))"

definition trim :: "string \<Rightarrow> string" where
  "trim s = trim_end (trim_start s)"

text \<open>\<open>s.get(..n)\<close>: the first \<open>n\<close> bytes, if they end at a character boundary.\<close>

definition str_get_to :: "nat \<Rightarrow> string \<Rightarrow> string option" where
  "str_get_to n s =
     (if length s < n then None
      else if n < length s \<and> cont (ch (s ! n)) then None
      else Some (take n s))"

definition ascii_lower :: "char \<Rightarrow> char" where
  "ascii_lower c = (if 65 \<le> ch c \<and> ch c \<le> 90 then char_of (ch c + 32) else c)"

definition eq_ignore_ascii_case :: "string \<Rightarrow> string \<Rightarrow> bool" where
  "eq_ignore_ascii_case a b \<longleftrightarrow> map ascii_lower a = map ascii_lower b"

text \<open>The three multi-byte shapes, with the digits of the code point in base 64 named.\<close>

lemma utf8_decode_2:
  "2 \<le> q \<Longrightarrow> q < 32 \<Longrightarrow> r < 64 \<Longrightarrow>
   utf8_decode (char_of (192 + q) # char_of (128 + r) # s) =
     map_option ((#) (q * 64 + r)) (utf8_decode s)"
  by (simp add: cont_def)

lemma utf8_decode_3:
  "p < 16 \<Longrightarrow> q < 64 \<Longrightarrow> r < 64 \<Longrightarrow> v = p * 4096 + q * 64 + r \<Longrightarrow> 2048 \<le> v \<Longrightarrow> scalar v \<Longrightarrow>
   utf8_decode (char_of (224 + p) # char_of (128 + q) # char_of (128 + r) # s) =
     map_option ((#) v) (utf8_decode s)"
  by (simp add: cont_def Let_def)

lemma utf8_decode_4:
  "p < 5 \<Longrightarrow> q < 64 \<Longrightarrow> r < 64 \<Longrightarrow> t < 64 \<Longrightarrow>
   v = p * 262144 + q * 4096 + r * 64 + t \<Longrightarrow> 65536 \<le> v \<Longrightarrow> scalar v \<Longrightarrow>
   utf8_decode (char_of (240 + p) # char_of (128 + q) # char_of (128 + r) # char_of (128 + t) # s) =
     map_option ((#) v) (utf8_decode s)"
  by (simp add: cont_def Let_def)

lemma base64_digits:
  fixes c :: nat
  shows "c div 64 * 64 + c mod 64 = c"
    and "c div 4096 * 4096 + c div 64 mod 64 * 64 + c mod 64 = c"
    and "c div 262144 * 262144 + c div 4096 mod 64 * 4096 + c div 64 mod 64 * 64 + c mod 64 = c"
proof -
  have 1: "c div 64 * 64 + c mod 64 = c" by simp
  have "c div 4096 = c div 64 div 64" by (simp add: div_mult2_eq [symmetric])
  then have 2: "c div 4096 * 64 + c div 64 mod 64 = c div 64" by simp
  have "c div 262144 = c div 4096 div 64" by (simp add: div_mult2_eq [symmetric])
  then have 3: "c div 262144 * 64 + c div 4096 mod 64 = c div 4096" by simp
  show "c div 64 * 64 + c mod 64 = c" by (rule 1)
  show "c div 4096 * 4096 + c div 64 mod 64 * 64 + c mod 64 = c"
    using 1 2 by linarith
  show "c div 262144 * 262144 + c div 4096 mod 64 * 4096 + c div 64 mod 64 * 64 + c mod 64 = c"
    using 1 2 3 by linarith
qed

lemma utf8_decode_encode:
  assumes "scalar c"
  shows "utf8_decode (utf8_encode c @ s) = map_option ((#) c) (utf8_decode s)"
proof -
  consider "c < 128" | "128 \<le> c" "c < 2048" | "2048 \<le> c" "c < 65536" | "65536 \<le> c" "c < 1114112"
    using assms unfolding scalar_def by linarith
  then show ?thesis
  proof cases
    case 1
    then show ?thesis by (simp add: utf8_encode_def)
  next
    case 2
    then have "2 \<le> c div 64" "c div 64 < 32" "c mod 64 < 64" by auto
    from utf8_decode_2 [OF this, of s] 2 show ?thesis
      by (simp add: utf8_encode_def base64_digits del: utf8_decode.simps)
  next
    case 3
    then have "c div 4096 < 16" "c div 64 mod 64 < 64" "c mod 64 < 64" by auto
    from utf8_decode_3 [OF this base64_digits(2) [symmetric] 3(1) assms, of s] 3 show ?thesis
      by (simp add: utf8_encode_def del: utf8_decode.simps)
  next
    case 4
    then have "c div 262144 < 5" "c div 4096 mod 64 < 64" "c div 64 mod 64 < 64" "c mod 64 < 64"
      by auto
    from utf8_decode_4 [OF this base64_digits(3) [symmetric] 4(1) assms, of s] 4 show ?thesis
      by (simp add: utf8_encode_def del: utf8_decode.simps)
  qed
qed

lemma utf8_decode_string:
  "(\<And>c. c \<in> set cs \<Longrightarrow> scalar c) \<Longrightarrow> utf8_decode (utf8_string cs @ s) = map_option ((@) cs) (utf8_decode s)"
proof (induction cs)
  case Nil
  then show ?case by (simp add: utf8_string_def option.map_ident)
next
  case (Cons c cs)
  have "utf8_decode (utf8_string (c # cs) @ s) = utf8_decode (utf8_encode c @ (utf8_string cs @ s))"
    by (simp add: utf8_string_def)
  also have "\<dots> = map_option ((#) c) (map_option ((@) cs) (utf8_decode s))"
    using Cons by (simp add: utf8_decode_encode)
  finally show ?case by (simp add: option.map_comp comp_def)
qed

lemma str_chars_utf8_string:
  "(\<And>c. c \<in> set cs \<Longrightarrow> scalar c) \<Longrightarrow> str_chars (utf8_string cs) = cs"
  using utf8_decode_string [of cs "[]"] by (simp add: str_chars_def)

lemma utf8_string_append: "utf8_string (cs @ ds) = utf8_string cs @ utf8_string ds"
  by (simp add: utf8_string_def)


lemma split_64: "(b :: nat) < 64 \<Longrightarrow> v = a * 64 + b \<Longrightarrow> v div 64 = a \<and> v mod 64 = b"
  by simp

text \<open>Conversely, a decoded string is the encoding of its code points.\<close>

lemma utf8_encode_1: "ch c < 128 \<Longrightarrow> utf8_encode (ch c) = [c]"
  by (simp add: utf8_encode_def)

lemma utf8_encode_2:
  assumes "194 \<le> ch c" "ch c < 224" "cont (ch c1)"
  shows "utf8_encode ((ch c - 192) * 64 + (ch c1 - 128)) = [c, c1]"
proof -
  define q r where "q = ch c - 192" and "r = ch c1 - 128"
  have "2 \<le> q" "q < 32" "r < 64" "ch c = 192 + q" "ch c1 = 128 + r"
    using assms by (auto simp: q_def r_def cont_def)
  moreover from this have "c = char_of (192 + q)" "c1 = char_of (128 + r)"
    by (metis char_of_char)+
  ultimately show ?thesis
    by (simp add: utf8_encode_def)
qed

lemma utf8_encode_3:
  assumes "224 \<le> ch c" "ch c < 240" "cont (ch c1)" "cont (ch c2)"
    and v: "v = (ch c - 224) * 4096 + (ch c1 - 128) * 64 + (ch c2 - 128)" and "2048 \<le> v"
  shows "utf8_encode v = [c, c1, c2]"
proof -
  define p q r where "p = ch c - 224" and "q = ch c1 - 128" and "r = ch c2 - 128"
  have b: "p < 16" "q < 64" "r < 64" "ch c = 224 + p" "ch c1 = 128 + q" "ch c2 = 128 + r"
    using assms by (auto simp: p_def q_def r_def cont_def)
  then have cs: "c = char_of (224 + p)" "c1 = char_of (128 + q)" "c2 = char_of (128 + r)"
    by (metis char_of_char)+
  have vv: "v = (p * 64 + q) * 64 + r"
    using v by (simp add: p_def q_def r_def algebra_simps)
  have d: "v div 64 = p * 64 + q" "v mod 64 = r"
    using split_64 [OF b(3) vv] by simp_all
  have "v div 4096 = v div 64 div 64"
    by (simp add: div_mult2_eq [symmetric])
  then have "v div 4096 = p" "v div 64 mod 64 = q"
    using split_64 [OF b(2) d(1)] by simp_all
  moreover have "v < 65536"
    using b by (simp add: vv)
  ultimately show ?thesis
    using assms(6) d cs by (simp add: utf8_encode_def)
qed

lemma utf8_encode_4:
  assumes "240 \<le> ch c" "ch c < 245" "cont (ch c1)" "cont (ch c2)" "cont (ch c3)"
    and v: "v = (ch c - 240) * 262144 + (ch c1 - 128) * 4096 + (ch c2 - 128) * 64 + (ch c3 - 128)"
    and "65536 \<le> v"
  shows "utf8_encode v = [c, c1, c2, c3]"
proof -
  define p q r t where "p = ch c - 240" and "q = ch c1 - 128" and "r = ch c2 - 128"
    and "t = ch c3 - 128"
  have b: "q < 64" "r < 64" "t < 64"
    "ch c = 240 + p" "ch c1 = 128 + q" "ch c2 = 128 + r" "ch c3 = 128 + t"
    using assms by (auto simp: p_def q_def r_def t_def cont_def)
  then have cs: "c = char_of (240 + p)" "c1 = char_of (128 + q)" "c2 = char_of (128 + r)"
    "c3 = char_of (128 + t)"
    by (metis char_of_char)+
  have vv: "v = ((p * 64 + q) * 64 + r) * 64 + t"
    using v by (simp add: p_def q_def r_def t_def algebra_simps)
  have d1: "v div 64 = (p * 64 + q) * 64 + r" "v mod 64 = t"
    using split_64 [OF b(3) vv] by simp_all
  have "v div 4096 = v div 64 div 64"
    by (simp add: div_mult2_eq [symmetric])
  then have d2: "v div 4096 = p * 64 + q" "v div 64 mod 64 = r"
    using split_64 [OF b(2) d1(1)] by simp_all
  have "v div 262144 = v div 4096 div 64"
    by (simp add: div_mult2_eq [symmetric])
  then have "v div 262144 = p" "v div 4096 mod 64 = q"
    using split_64 [OF b(1) d2(1)] by simp_all
  then show ?thesis
    using assms(7) d1 d2 cs by (simp add: utf8_encode_def)
qed

lemma utf8_decode_SomeD:
  "utf8_decode s = Some cs \<Longrightarrow> s = utf8_string cs \<and> (\<forall>c\<in>set cs. scalar c)"
proof (induction s arbitrary: cs rule: utf8_decode.induct)
  case 1
  then show ?case by (simp add: utf8_string_def)
next
  case (2 c s)
  note IH = "2.IH" and dec = "2.prems"
  consider (a) "ch c < 128" | (b) "\<not> ch c < 128" "194 \<le> ch c" "ch c < 224"
    | (c) "224 \<le> ch c" "ch c < 240" | (d) "240 \<le> ch c" "ch c < 245"
    using dec by (auto simp: Let_def split: if_splits)
  then show ?case
  proof cases
    case a
    then obtain ds where "utf8_decode s = Some ds" "cs = ch c # ds"
      using dec by auto
    with IH(1) [OF a] a show ?thesis
      by (auto simp: utf8_string_def utf8_encode_1 scalar_def)
  next
    case b
    then obtain c1 s1 ds where s: "s = c1 # s1" "cont (ch c1)" "utf8_decode s1 = Some ds"
      "cs = ((ch c - 192) * 64 + (ch c1 - 128)) # ds"
      using dec by (auto split: list.splits if_splits)
    have "(ch c - 192) * 64 + (ch c1 - 128) < 55296"
      using b s(2) by (auto simp: cont_def)
    with IH(2) [OF b(1) _ s(1,2,3)] b s show ?thesis
      by (auto simp: utf8_string_def utf8_encode_2 scalar_def)
  next
    case c
    define v where "v = (ch c - 224) * 4096 + (ch (s ! 0) - 128) * 64 + (ch (s ! 1) - 128)"
    from c obtain c1 c2 s1 ds where s: "s = c1 # c2 # s1" "cont (ch c1)" "cont (ch c2)"
      "2048 \<le> v" "scalar v" "utf8_decode s1 = Some ds" "cs = v # ds"
      using dec by (auto simp: Let_def v_def split: list.splits if_splits)
    have "utf8_encode v = [c, c1, c2]"
      using c s by (intro utf8_encode_3) (auto simp: v_def)
    moreover have "s1 = utf8_string ds \<and> (\<forall>c\<in>set ds. scalar c)"
      using c s by (intro IH(3) [OF _ _ _ s(1) refl refl]) (auto simp: v_def)
    ultimately show ?thesis
      using s by (auto simp: utf8_string_def)
  next
    case d
    define v where "v = (ch c - 240) * 262144 + (ch (s ! 0) - 128) * 4096 + (ch (s ! 1) - 128) * 64
      + (ch (s ! 2) - 128)"
    from d obtain c1 c2 c3 s1 ds where s: "s = c1 # c2 # c3 # s1" "cont (ch c1)" "cont (ch c2)"
      "cont (ch c3)" "65536 \<le> v" "scalar v" "utf8_decode s1 = Some ds" "cs = v # ds"
      using dec by (auto simp: Let_def v_def split: list.splits if_splits)
    have "utf8_encode v = [c, c1, c2, c3]"
      using d s by (intro utf8_encode_4) (auto simp: v_def)
    moreover have "s1 = utf8_string ds \<and> (\<forall>c\<in>set ds. scalar c)"
      using d s by (intro IH(4) [OF _ _ _ _ s(1) refl refl refl]) (auto simp: v_def)
    ultimately show ?thesis
      using s by (auto simp: utf8_string_def)
  qed
qed

declare utf8_decode.simps(2) [simp del]


lemma utf8_valid_Nil [simp, utf8_intro]: "utf8_valid []"
  by (simp add: utf8_valid_def)

lemma utf8_valid_iff: "utf8_valid s \<longleftrightarrow> (\<exists>cs. s = utf8_string cs \<and> (\<forall>c\<in>set cs. scalar c))"
proof
  assume "utf8_valid s"
  then show "\<exists>cs. s = utf8_string cs \<and> (\<forall>c\<in>set cs. scalar c)"
    by (auto simp: utf8_valid_def dest: utf8_decode_SomeD)
next
  assume "\<exists>cs. s = utf8_string cs \<and> (\<forall>c\<in>set cs. scalar c)"
  then obtain cs where "s = utf8_string cs" "\<And>c. c \<in> set cs \<Longrightarrow> scalar c"
    by blast
  then show "utf8_valid s"
    using utf8_decode_string [of cs "[]"] by (simp add: utf8_valid_def)
qed

lemma utf8_string_str_chars: "utf8_valid s \<Longrightarrow> utf8_string (str_chars s) = s"
  by (auto simp: utf8_valid_def str_chars_def dest: utf8_decode_SomeD)

lemma scalar_str_chars: "c \<in> set (str_chars s) \<Longrightarrow> scalar c"
  by (cases "utf8_decode s") (auto simp: str_chars_def dest: utf8_decode_SomeD)

lemma utf8_decode_append:
  "utf8_valid a \<Longrightarrow> utf8_decode (a @ b) = map_option ((@) (str_chars a)) (utf8_decode b)"
  using utf8_decode_string [of "str_chars a" b] scalar_str_chars [of _ a]
  by (simp add: utf8_string_str_chars)

lemma utf8_valid_append [utf8_intro]: "utf8_valid a \<Longrightarrow> utf8_valid b \<Longrightarrow> utf8_valid (a @ b)"
  by (simp add: utf8_valid_def utf8_decode_append)

lemma str_chars_append: "utf8_valid a \<Longrightarrow> utf8_valid b \<Longrightarrow> str_chars (a @ b) = str_chars a @ str_chars b"
  by (auto simp: utf8_valid_def str_chars_def utf8_decode_append split: option.splits)

lemma utf8_valid_Cons_ascii: "ch c < 128 \<Longrightarrow> utf8_valid (c # s) \<longleftrightarrow> utf8_valid s"
  by (simp add: utf8_valid_def utf8_decode.simps(2))

lemma str_chars_Cons_ascii: "ch c < 128 \<Longrightarrow> str_chars (c # s) = (if utf8_valid s then ch c # str_chars s else [])"
  by (auto simp: utf8_valid_def str_chars_def utf8_decode.simps(2))

lemma str_chars_Nil [simp]: "str_chars [] = []"
  by (simp add: str_chars_def)

definition ascii :: "string \<Rightarrow> bool" where
  "ascii s \<longleftrightarrow> (\<forall>c\<in>set s. ch c < 128)"

lemma ascii_utf8_valid: "ascii s \<Longrightarrow> utf8_valid s"
  by (induction s) (simp_all add: ascii_def utf8_valid_Cons_ascii)

lemma str_chars_ascii: "ascii s \<Longrightarrow> str_chars s = map of_char s"
  by (induction s) (simp_all add: ascii_def str_chars_Cons_ascii ascii_utf8_valid)

lemma ascii_simps [simp]:
  "ascii []"
  "ascii (c # s) \<longleftrightarrow> ch c < 128 \<and> ascii s"
  "ascii (s @ t) \<longleftrightarrow> ascii s \<and> ascii t"
  by (auto simp: ascii_def)

lemma utf8_valid_encode: "scalar c \<Longrightarrow> utf8_valid (utf8_encode c)"
  unfolding utf8_valid_iff by (intro exI [of _ "[c]"]) (simp add: utf8_string_def)

lemma utf8_valid_string: "(\<And>c. c \<in> set cs \<Longrightarrow> scalar c) \<Longrightarrow> utf8_valid (utf8_string cs)"
  unfolding utf8_valid_iff by blast

lemma from_utf8_as_bytes [simp]: "from_utf8 (as_bytes s) = (if utf8_valid s then Some s else None)"
  by (simp add: from_utf8_def Let_def)

lemma from_utf8_valid: "from_utf8 bs = Some s \<Longrightarrow> utf8_valid s"
  by (auto simp: from_utf8_def Let_def split: if_splits)

text \<open>A valid string never contains the byte \<open>0xFF\<close>, which the standard hasher appends.\<close>

lemma utf8_encode_bytes: "scalar c \<Longrightarrow> b \<in> set (utf8_encode c) \<Longrightarrow> ch b < 248"
proof -
  assume c: "scalar c" and b: "b \<in> set (utf8_encode c)"
  have "c < 1114112"
    using c by (auto simp: scalar_def)
  moreover have "x mod 64 < 64" for x :: nat
    by simp
  ultimately show ?thesis
    using b by (auto simp: utf8_encode_def split: if_splits)
qed

lemma utf8_valid_bytes: "utf8_valid s \<Longrightarrow> b \<in> set s \<Longrightarrow> ch b < 248"
  using utf8_encode_bytes by (fastforce simp: utf8_valid_iff utf8_string_def)


text \<open>Splitting a valid string at an ASCII character leaves valid strings.\<close>

lemma utf8_encode_ascii_iff:
  "scalar d \<Longrightarrow> ch c < 128 \<Longrightarrow> c \<in> set (utf8_encode d) \<longleftrightarrow> utf8_encode d = [c]"
proof -
  assume d: "scalar d" and c: "ch c < 128"
  have "d < 1114112" using d by (auto simp: scalar_def)
  then have hi: "128 \<le> ch b" if "b \<in> set (utf8_encode d)" "\<not> d < 128" for b
  proof -
    have "192 + d div 64 < 256" if "d < 2048" using that by simp
    moreover have "224 + d div 4096 < 256" if "d < 65536" using that by simp
    moreover have "240 + d div 262144 < 256" using \<open>d < 1114112\<close> by simp
    moreover have "128 + x mod 64 < 256" for x :: nat
      using mod_less_divisor [of 64 x] by linarith
    ultimately show ?thesis
      using that by (auto simp: utf8_encode_def of_char_of split: if_splits)
  qed
  show ?thesis
  proof (cases "d < 128")
    case True
    then show ?thesis by (auto simp: utf8_encode_def)
  next
    case False
    then show ?thesis
      using hi c by (metis leD list.set_intros(1))
  qed
qed

lemma utf8_valid_split: "utf8_valid (a @ c # b) \<Longrightarrow> ch c < 128 \<Longrightarrow> utf8_valid a \<and> utf8_valid b"
proof -
  assume "utf8_valid (a @ c # b)" and c: "ch c < 128"
  then obtain cs where cs: "a @ c # b = utf8_string cs" "\<forall>d\<in>set cs. scalar d"
    by (auto simp: utf8_valid_iff)
  then show ?thesis
  proof (induction cs arbitrary: a)
    case Nil
    then show ?case by (simp add: utf8_string_def)
  next
    case (Cons d cs)
    have eq: "a @ c # b = utf8_encode d @ utf8_string cs"
      using Cons.prems(1) by (simp add: utf8_string_def)
    have d: "scalar d" and valid: "utf8_valid (utf8_string cs)"
      using Cons.prems(2) by (auto intro: utf8_valid_string)
    from eq consider (1) us where "a = utf8_encode d @ us" "us @ c # b = utf8_string cs"
      | (2) us where "utf8_encode d = a @ us" "us \<noteq> []" "us @ utf8_string cs = c # b"
      by (auto simp: append_eq_append_conv2) (metis append_Nil2)
    then show ?case
    proof cases
      case 1
      with Cons show ?thesis
        using utf8_valid_append utf8_valid_encode [OF d] by simp
    next
      case 2
      then obtain us' where us: "us = c # us'" "us' @ utf8_string cs = b"
        by (cases us) auto
      then have "c \<in> set (utf8_encode d)" using 2 by simp
      then have "utf8_encode d = [c]"
        using utf8_encode_ascii_iff [OF d c] by simp
      then have "a = []" "us' = []" using 2 us by (cases a; auto)+
      with us valid show ?thesis by simp
    qed
  qed
qed

lemma utf8_valid_split_on: "utf8_valid s \<Longrightarrow> ch d < 128 \<Longrightarrow> w \<in> set (split_on d s) \<Longrightarrow> utf8_valid w"
proof (induction "length s" arbitrary: s rule: less_induct)
  case less
  show ?case
  proof (cases "d \<in> set s")
    case False
    with less.prems show ?thesis by (simp add: split_on_last)
  next
    case True
    then obtain a b where s: "s = a @ d # b" "d \<notin> set a"
      by (meson split_list_first)
    with less.prems have "utf8_valid a" "utf8_valid b"
      using utf8_valid_split by blast+
    moreover have "w = a \<or> w \<in> set (split_on d b)"
      using less.prems(3) s by auto
    ultimately show ?thesis
      using less.hyps [of b] less.prems(2) s(1) by auto
  qed
qed

text \<open>Trimming does nothing to a string that has no white space at its ends.\<close>

lemma trim_start_id: "utf8_valid s \<Longrightarrow> (str_chars s = [] \<or> \<not> is_whitespace (hd (str_chars s))) \<Longrightarrow> trim_start s = s"
  by (cases "str_chars s") (auto simp: trim_start_def dest: utf8_string_str_chars)

lemma trim_end_id: "utf8_valid s \<Longrightarrow> (str_chars s = [] \<or> \<not> is_whitespace (last (str_chars s))) \<Longrightarrow> trim_end s = s"
  by (cases "str_chars s" rule: rev_cases) (auto simp: trim_end_def dest: utf8_string_str_chars)

lemma trim_id:
  "utf8_valid s \<Longrightarrow> str_chars s = [] \<or> (\<not> is_whitespace (hd (str_chars s)) \<and> \<not> is_whitespace (last (str_chars s))) \<Longrightarrow> trim s = s"
  by (auto simp: trim_def trim_start_id trim_end_id)

end
