(* ===== verification/Json.thy ===== *)
theory Json
  imports F64 Utf8
begin

section \<open>The JSON value, parser and serializer (gm-api, json.rs)\<close>

text \<open>
  A string is its UTF-8 bytes and an object an ordered map.  The parser's array of characters
  and index are the index and the code points from there on; after an error the code returns
  at once, so a failing function has no parser state to give back.  Main results: parsing
  terminates, a parsed value is well-formed and nests no deeper than the limit, and parsing
  the serialization of a well-formed value gives the value back.
\<close>

datatype json =
    JNull
  | JBool bool
  | JNumber f64
  | JString string
  | JArray "json list"
  | JObject "(string \<times> json) list"

datatype json_error =
    UnexpectedEof
  | UnexpectedChar nat
  | InvalidNumber nat
  | InvalidEscape nat
  | TrailingData nat
  | DepthExceeded

definition MAX_DEPTH :: nat where
  "MAX_DEPTH = 128"

subsection \<open>Accessors\<close>

fun as_bool :: "json \<Rightarrow> bool option" where
  "as_bool (JBool b) = Some b"
| "as_bool _ = None"

fun as_f64 :: "json \<Rightarrow> f64 option" where
  "as_f64 (JNumber n) = Some n"
| "as_f64 _ = None"

text \<open>\<open>u64::MAX as f64\<close> and \<open>i64::MAX as f64\<close> round up to \<open>2 ^ 64\<close> and \<open>2 ^ 63\<close>.\<close>

fun as_u64 :: "json \<Rightarrow> u64 option" where
  "as_u64 (JNumber n) =
     (if f64_fract_zero n \<and> f64_le (Finite 0) n \<and> f64_le n (f64_of_nat (2 ^ 64 - 1))
      then Some (word_of_int (f64_cast 0 (2 ^ 64 - 1) n)) else None)"
| "as_u64 _ = None"

fun as_i64 :: "json \<Rightarrow> int option" where
  "as_i64 (JNumber n) =
     (if f64_fract_zero n \<and> f64_le (f64_of_ratio True (2 ^ 63) 1) n \<and> f64_le n (f64_of_nat (2 ^ 63 - 1))
      then Some (f64_cast (- (2 ^ 63)) (2 ^ 63 - 1) n) else None)"
| "as_i64 _ = None"

fun as_str :: "json \<Rightarrow> string option" where
  "as_str (JString s) = Some s"
| "as_str _ = None"

fun as_array :: "json \<Rightarrow> json list option" where
  "as_array (JArray v) = Some v"
| "as_array _ = None"

fun as_object :: "json \<Rightarrow> (string, json) btree option" where
  "as_object (JObject m) = Some m"
| "as_object _ = None"

definition json_get :: "json \<Rightarrow> string \<Rightarrow> json option" where
  "json_get v key = (case as_object v of Some m \<Rightarrow> map_of m key | None \<Rightarrow> None)"

subsection \<open>Serialization\<close>

definition format_number :: "f64 \<Rightarrow> string" where
  "format_number n =
     (case n of
        Finite q \<Rightarrow>
          if f64_fract_zero n \<and> \<bar>q\<bar> < 9007199254740992
          then int_display (f64_cast (- (2 ^ 63)) (2 ^ 63 - 1) n) else f64_display n
      | _ \<Rightarrow> ''0'')"

definition hex_digit :: "nat \<Rightarrow> char" where
  "hex_digit d = (if d < 10 then digit d else char_of (87 + d))"

text \<open>\<open>\u{:04x}\<close>\<close>

definition hex4 :: "nat \<Rightarrow> string" where
  "hex4 n = [hex_digit (n div 4096 mod 16), hex_digit (n div 256 mod 16), hex_digit (n div 16 mod 16),
     hex_digit (n mod 16)]"

definition escape_char :: "nat \<Rightarrow> string" where
  "escape_char c =
     (if c = 34 then [CHR 0x5C, CHR 0x22]
      else if c = 92 then [CHR 0x5C, CHR 0x5C]
      else if c = 10 then [CHR 0x5C, CHR ''n'']
      else if c = 13 then [CHR 0x5C, CHR ''r'']
      else if c = 9 then [CHR 0x5C, CHR ''t'']
      else if c = 8 then [CHR 0x5C, CHR ''b'']
      else if c = 12 then [CHR 0x5C, CHR ''f'']
      else if c < 32 then [CHR 0x5C, CHR ''u''] @ hex4 c
      else utf8_encode c)"

definition write_json_string :: "string \<Rightarrow> string" where
  "write_json_string s = [CHR 0x22] @ concat (map escape_char (str_chars s)) @ [CHR 0x22]"

function (sequential) json_write :: "json \<Rightarrow> string" where
  "json_write JNull = ''null''"
| "json_write (JBool b) = (if b then ''true'' else ''false'')"
| "json_write (JNumber n) = format_number n"
| "json_write (JString s) = write_json_string s"
| "json_write (JArray items) = ''['' @ str_join '','' (map json_write items) @ '']''"
| "json_write (JObject m) =
     ''{'' @ str_join '','' (map (\<lambda>(k, v). write_json_string k @ '':'' @ json_write v) m) @ ''}''"
  by pat_completeness auto

lemma size_json_object: "(k, v) \<in> set m \<Longrightarrow> size v < Suc (size_list (size_prod (\<lambda>_. 0) size) m)"
  by (induction m) auto

termination json_write
  by (relation "measure size") (auto simp: size_json_object less_Suc_eq_le size_list_estimation')

subsection \<open>The parser\<close>

type_synonym parser = "nat \<times> nat list"

definition peek :: "parser \<Rightarrow> nat option" where
  "peek p = (case snd p of [] \<Rightarrow> None | c # _ \<Rightarrow> Some c)"

definition advance :: "parser \<Rightarrow> parser" where
  "advance p = (Suc (fst p), tl (snd p))"

definition bump :: "parser \<Rightarrow> nat option \<times> parser" where
  "bump p = (case peek p of None \<Rightarrow> (None, p) | Some c \<Rightarrow> (Some c, advance p))"

definition is_ws :: "nat \<Rightarrow> bool" where
  "is_ws c \<longleftrightarrow> c = 32 \<or> c = 9 \<or> c = 10 \<or> c = 13"

fun skip_ws_from :: "nat \<Rightarrow> nat list \<Rightarrow> parser" where
  "skip_ws_from pos [] = (pos, [])"
| "skip_ws_from pos (c # cs) = (if is_ws c then skip_ws_from (Suc pos) cs else (pos, c # cs))"

definition skip_ws :: "parser \<Rightarrow> parser" where
  "skip_ws p = skip_ws_from (fst p) (snd p)"

text \<open>\<open>char::to_digit(16)\<close>\<close>

definition hex_val :: "nat \<Rightarrow> nat option" where
  "hex_val c =
     (if 48 \<le> c \<and> c < 58 then Some (c - 48)
      else if 97 \<le> c \<and> c < 103 then Some (c - 87)
      else if 65 \<le> c \<and> c < 71 then Some (c - 55)
      else None)"

fun parse_hex :: "nat \<Rightarrow> nat \<Rightarrow> nat \<Rightarrow> parser \<Rightarrow> json_error + nat \<times> parser" where
  "parse_hex 0 v esc_pos p = Inr (v, p)"
| "parse_hex (Suc k) v esc_pos p =
     (case bump p of
        (None, _) \<Rightarrow> Inl UnexpectedEof
      | (Some c, p) \<Rightarrow>
          (case hex_val c of
             None \<Rightarrow> Inl (InvalidEscape esc_pos)
           | Some d \<Rightarrow> parse_hex k (v * 16 + d) esc_pos p))"

definition parse_hex4 :: "nat \<Rightarrow> parser \<Rightarrow> json_error + nat \<times> parser" where
  "parse_hex4 esc_pos p = parse_hex 4 0 esc_pos p"

definition parse_unicode_escape :: "nat \<Rightarrow> parser \<Rightarrow> json_error + nat \<times> parser" where
  "parse_unicode_escape esc_pos p =
     (case parse_hex4 esc_pos p of
        Inl e \<Rightarrow> Inl e
      | Inr (cp, p) \<Rightarrow>
          if 0xD800 \<le> cp \<and> cp \<le> 0xDBFF then
            (let (a, p) = bump p in
             if a \<noteq> Some 92 then Inl (InvalidEscape esc_pos)
             else (let (b, p) = bump p in
                   if b \<noteq> Some (ch (CHR ''u'')) then Inl (InvalidEscape esc_pos)
                   else (case parse_hex4 esc_pos p of
                           Inl e \<Rightarrow> Inl e
                         | Inr (low, p) \<Rightarrow>
                             if \<not> (0xDC00 \<le> low \<and> low \<le> 0xDFFF) then Inl (InvalidEscape esc_pos)
                             else (let s = 0x10000 + (cp - 0xD800) * 1024 + (low - 0xDC00) in
                                   if scalar s then Inr (s, p) else Inl (InvalidEscape esc_pos)))))
          else if 0xDC00 \<le> cp \<and> cp \<le> 0xDFFF then Inl (InvalidEscape esc_pos)
          else if scalar cp then Inr (cp, p) else Inl (InvalidEscape esc_pos))"

text \<open>One step of the loop of \<open>parse_string\<close>: \<open>None\<close> at the closing quote, else a character.\<close>

definition parse_string_char :: "parser \<Rightarrow> json_error + nat option \<times> parser" where
  "parse_string_char p =
     (case bump p of
        (None, _) \<Rightarrow> Inl UnexpectedEof
      | (Some c, p) \<Rightarrow>
          if c = 34 then Inr (None, p)
          else if c = 92 then
            (let esc_pos = fst p - 1 in
             case bump p of
               (None, _) \<Rightarrow> Inl UnexpectedEof
             | (Some e, p) \<Rightarrow>
                 if e = 34 then Inr (Some 34, p)
                 else if e = 92 then Inr (Some 92, p)
                 else if e = ch (CHR ''/'') then Inr (Some 47, p)
                 else if e = ch (CHR ''b'') then Inr (Some 8, p)
                 else if e = ch (CHR ''f'') then Inr (Some 12, p)
                 else if e = ch (CHR ''n'') then Inr (Some 10, p)
                 else if e = ch (CHR ''r'') then Inr (Some 13, p)
                 else if e = ch (CHR ''t'') then Inr (Some 9, p)
                 else if e = ch (CHR ''u'') then
                   (case parse_unicode_escape esc_pos p of
                      Inl err \<Rightarrow> Inl err
                    | Inr (u, p) \<Rightarrow> Inr (Some u, p))
                 else Inl (InvalidEscape esc_pos))
          else if c < 32 then Inl (UnexpectedChar (fst p - 1))
          else Inr (Some c, p))"


text \<open>Every step of the parser that succeeds consumes input.\<close>

abbreviation left :: "parser \<Rightarrow> nat" where
  "left p \<equiv> length (snd p)"

lemma bump_left: "bump p = (Some c, p') \<Longrightarrow> left p' < left p"
  by (auto simp: bump_def peek_def advance_def split: list.splits)

lemma bump_None: "bump p = (None, p') \<longleftrightarrow> snd p = [] \<and> p' = p"
  by (auto simp: bump_def peek_def split: list.splits)

lemma bump_le: "left (snd (bump p)) \<le> left p"
  by (auto simp: bump_def peek_def advance_def split: list.splits)

lemma skip_ws_le: "left (skip_ws p) \<le> left p"
proof -
  have "left (skip_ws_from pos cs) \<le> length cs" for pos cs
    by (induction pos cs rule: skip_ws_from.induct) (auto simp: le_SucI)
  then show ?thesis by (simp add: skip_ws_def)
qed

lemma advance_le: "left (advance p) \<le> left p"
  by (simp add: advance_def)

lemma bump_leD: "bump p = (x, p') \<Longrightarrow> left p' \<le> left p"
  using bump_le [of p] by simp

lemma parse_hex_le: "parse_hex k v esc_pos p = Inr (w, p') \<Longrightarrow> left p' \<le> left p"
proof (induction k arbitrary: v p)
  case (Suc k)
  then obtain c q d where q: "bump p = (Some c, q)" "parse_hex k (v * 16 + d) esc_pos q = Inr (w, p')"
    by (auto split: prod.splits option.splits)
  from bump_left [OF q(1)] Suc.IH [OF q(2)] show ?case by simp
qed simp

lemma parse_unicode_escape_le: "parse_unicode_escape esc_pos p = Inr (w, p') \<Longrightarrow> left p' \<le> left p"
  by (auto simp: parse_unicode_escape_def parse_hex4_def Let_def
      split: sum.splits prod.splits if_splits dest!: parse_hex_le bump_leD)

lemma parse_string_char_left: "parse_string_char p = Inr (x, p') \<Longrightarrow> left p' < left p"
  by (auto simp: parse_string_char_def Let_def
      split: sum.splits prod.splits if_splits option.splits dest!: bump_left parse_unicode_escape_le)

function parse_string_loop :: "string \<Rightarrow> parser \<Rightarrow> json_error + string \<times> parser" where
  "parse_string_loop s p =
     (case parse_string_char p of
        Inl e \<Rightarrow> Inl e
      | Inr (None, p) \<Rightarrow> Inr (s, p)
      | Inr (Some c, p) \<Rightarrow> parse_string_loop (s @ utf8_encode c) p)"
  by pat_completeness auto

termination
  by (relation "measure (\<lambda>(_, p). left p)") (auto dest: parse_string_char_left)

declare parse_string_loop.simps [simp del]

definition parse_string :: "parser \<Rightarrow> json_error + string \<times> parser" where
  "parse_string p = parse_string_loop [] (advance p)"

definition is_number_char :: "nat \<Rightarrow> bool" where
  "is_number_char c \<longleftrightarrow> (48 \<le> c \<and> c < 58) \<or> c = 45 \<or> c = 43 \<or> c = 46 \<or> c = 101 \<or> c = 69"

definition parse_number :: "parser \<Rightarrow> json_error + json \<times> parser" where
  "parse_number p =
     (let text = takeWhile is_number_char (snd p) in
      case f64_parse (utf8_string text) of
        None \<Rightarrow> Inl (InvalidNumber (fst p))
      | Some n \<Rightarrow> Inr (JNumber n, (fst p + length text, dropWhile is_number_char (snd p))))"

definition consume_literal :: "string \<Rightarrow> parser \<Rightarrow> parser option" where
  "consume_literal literal p =
     (if take (length literal) (snd p) = str_chars literal
      then Some (fst p + length literal, drop (length literal) (snd p)) else None)"

definition parse_bool :: "parser \<Rightarrow> json_error + json \<times> parser" where
  "parse_bool p =
     (case consume_literal ''true'' p of
        Some p' \<Rightarrow> Inr (JBool True, p')
      | None \<Rightarrow>
          (case consume_literal ''false'' p of
             Some p' \<Rightarrow> Inr (JBool False, p')
           | None \<Rightarrow> Inl (UnexpectedChar (fst p))))"

definition parse_null :: "parser \<Rightarrow> json_error + json \<times> parser" where
  "parse_null p =
     (case consume_literal ''null'' p of
        Some p' \<Rightarrow> Inr (JNull, p')
      | None \<Rightarrow> Inl (UnexpectedChar (fst p)))"

text \<open>
  The mutual recursion of \<open>parse_value\<close>, \<open>parse_object\<close> and \<open>parse_array\<close> with their loops.  The
  step over the opening bracket is done at the call, where the bracket has been seen.
\<close>

function parse_value :: "nat \<Rightarrow> parser \<Rightarrow> json_error + json \<times> parser"
  and parse_object :: "nat \<Rightarrow> parser \<Rightarrow> json_error + json \<times> parser"
  and object_loop :: "nat \<Rightarrow> (string, json) btree \<Rightarrow> parser \<Rightarrow> json_error + json \<times> parser"
  and parse_array :: "nat \<Rightarrow> parser \<Rightarrow> json_error + json \<times> parser"
  and array_loop :: "nat \<Rightarrow> json list \<Rightarrow> parser \<Rightarrow> json_error + json \<times> parser"
where
  "parse_value depth p =
     (if MAX_DEPTH < depth then Inl DepthExceeded
      else (case peek p of
              None \<Rightarrow> Inl UnexpectedEof
            | Some c \<Rightarrow>
                if c = 123 then parse_object depth (advance p)
                else if c = 91 then parse_array depth (advance p)
                else if c = 34 then
                  (case parse_string p of Inl e \<Rightarrow> Inl e | Inr (s, p) \<Rightarrow> Inr (JString s, p))
                else if c = ch (CHR ''t'') \<or> c = ch (CHR ''f'') then parse_bool p
                else if c = ch (CHR ''n'') then parse_null p
                else if c = 45 \<or> (48 \<le> c \<and> c < 58) then parse_number p
                else Inl (UnexpectedChar (fst p))))"
| "parse_object depth p =
     (let p = skip_ws p in
      if peek p = Some 125 then Inr (JObject [], advance p) else object_loop depth [] p)"
| "object_loop depth m p =
     (let p = skip_ws p in
      if peek p \<noteq> Some 34 then Inl (UnexpectedChar (fst p))
      else (case parse_string p of
              Inl e \<Rightarrow> Inl e
            | Inr (key, p) \<Rightarrow>
                (let (c, p) = bump (skip_ws p) in
                 if c \<noteq> Some 58 then Inl (UnexpectedChar (fst p - 1))
                 else (case parse_value (depth + 1) (skip_ws p) of
                         Inl e \<Rightarrow> Inl e
                       | Inr (v, p) \<Rightarrow>
                           (let (c, p) = bump (skip_ws p) in
                            if c = Some 44 then object_loop depth (bt_insert key v m) p
                            else if c = Some 125 then Inr (JObject (bt_insert key v m), p)
                            else Inl (UnexpectedChar (fst p - 1)))))))"
| "parse_array depth p =
     (let p = skip_ws p in
      if peek p = Some 93 then Inr (JArray [], advance p) else array_loop depth [] p)"
| "array_loop depth items p =
     (case parse_value (depth + 1) (skip_ws p) of
        Inl e \<Rightarrow> Inl e
      | Inr (v, p) \<Rightarrow>
          (let (c, p) = bump (skip_ws p) in
           if c = Some 44 then array_loop depth (items @ [v]) p
           else if c = Some 93 then Inr (JArray (items @ [v]), p)
           else Inl (UnexpectedChar (fst p - 1))))"
  by pat_completeness auto

lemma parse_string_loop_left: "parse_string_loop s p = Inr (t, p') \<Longrightarrow> left p' < left p"
proof (induction s p rule: parse_string_loop.induct)
  case (1 s p)
  from "1.prems" obtain x q where x: "parse_string_char p = Inr (x, q)"
    by (subst (asm) parse_string_loop.simps) (auto split: sum.splits prod.splits option.splits)
  note q = parse_string_char_left [OF x]
  show ?case
  proof (cases x)
    case None
    with x q "1.prems" show ?thesis by (simp add: parse_string_loop.simps [of s p])
  next
    case (Some c)
    with x "1.prems" have "parse_string_loop (s @ utf8_encode c) q = Inr (t, p')"
      by (simp add: parse_string_loop.simps [of s p])
    with "1.IH" [OF x refl Some] q show ?thesis by simp
  qed
qed

lemma parse_string_left: "parse_string p = Inr (t, p') \<Longrightarrow> left p' < left p"
  unfolding parse_string_def using parse_string_loop_left order_less_le_trans advance_le by blast

lemma consume_literal_left:
  assumes "consume_literal lit p = Some p'" "lit \<noteq> []" "str_chars lit \<noteq> []"
  shows "left p' < left p"
proof -
  from assms have "take (length lit) (snd p) \<noteq> []" "p' = (fst p + length lit, drop (length lit) (snd p))"
    by (auto simp: consume_literal_def split: if_splits)
  with assms(2) show ?thesis by (cases "snd p") auto
qed

lemma parse_leaf_left:
  "parse_bool p = Inr (v, p') \<Longrightarrow> left p' < left p"
  "parse_null p = Inr (v, p') \<Longrightarrow> left p' < left p"
  "parse_number p = Inr (v, p') \<Longrightarrow> peek p = Some c \<Longrightarrow> is_number_char c \<Longrightarrow> left p' < left p"
proof -
  show "parse_bool p = Inr (v, p') \<Longrightarrow> left p' < left p" "parse_null p = Inr (v, p') \<Longrightarrow> left p' < left p"
    by (auto simp: parse_bool_def parse_null_def str_chars_ascii split: option.splits dest!: consume_literal_left)
  assume n: "parse_number p = Inr (v, p')" "peek p = Some c" "is_number_char c"
  then obtain cs where "snd p = c # cs" by (auto simp: peek_def split: list.splits)
  with n show "left p' < left p"
    by (auto simp: parse_number_def Let_def length_dropWhile_le le_imp_less_Suc split: option.splits)
qed

lemma advance_left: "peek p = Some c \<Longrightarrow> left (advance p) < left p"
  by (auto simp: peek_def advance_def split: list.splits)

lemma skip_bump_left: "bump (skip_ws p) = (Some c, q) \<Longrightarrow> left q < left p"
  using bump_left skip_ws_le order_less_le_trans by blast

lemma skip_string_left: "parse_string (skip_ws p) = Inr (s, q) \<Longrightarrow> left q < left p"
  using parse_string_left skip_ws_le order_less_le_trans by blast

abbreviation "parse_dom \<equiv> parse_value_parse_object_object_loop_parse_array_array_loop_dom"

lemma parse_dom_left:
  "parse_dom (Inl (Inl (depth, p))) \<Longrightarrow> \<forall>v p'. parse_value depth p = Inr (v, p') \<longrightarrow> left p' < left p"
  "parse_dom (Inl (Inr (depth, p))) \<Longrightarrow> \<forall>v p'. parse_object depth p = Inr (v, p') \<longrightarrow> left p' \<le> left p"
  "parse_dom (Inr (Inl (depth, m, p))) \<Longrightarrow> \<forall>v p'. object_loop depth m p = Inr (v, p') \<longrightarrow> left p' \<le> left p"
  "parse_dom (Inr (Inr (Inl (depth, p)))) \<Longrightarrow> \<forall>v p'. parse_array depth p = Inr (v, p') \<longrightarrow> left p' \<le> left p"
  "parse_dom (Inr (Inr (Inr (depth, items, p)))) \<Longrightarrow> \<forall>v p'. array_loop depth items p = Inr (v, p') \<longrightarrow> left p' \<le> left p"
proof (induction depth p and depth p and depth m p and depth p and depth items p
    rule: parse_value_parse_object_object_loop_parse_array_array_loop.pinduct)
  case (1 depth p)
  have "left p' < left p" if v: "parse_value depth p = Inr (v, p')" for v p'
  proof -
    from v obtain c where c: "\<not> MAX_DEPTH < depth" "peek p = Some c"
      by (auto simp: parse_value.psimps [OF 1(1)] split: if_splits option.splits)
    consider "c = 123" | "c = 91" | "c = 34" | "c \<notin> {123, 91, 34}" by auto
    then show ?thesis
    proof cases
      case o: 1
      have "parse_object depth (advance p) = Inr (v, p')"
        using v c o by (simp add: parse_value.psimps [OF 1(1)])
      then have "left p' \<le> left (advance p)"
        using "1.IH"(1) [OF c o] by blast
      with advance_left [OF c(2)] show ?thesis by simp
    next
      case 2
      have "parse_array depth (advance p) = Inr (v, p')"
        using v c 2 by (simp add: parse_value.psimps [OF 1(1)])
      then have "left p' \<le> left (advance p)"
        using "1.IH"(2) [OF c _ 2] 2 by (cases p') simp
      with advance_left [OF c(2)] show ?thesis by simp
    next
      case 3
      with v c show ?thesis
        by (auto simp: parse_value.psimps [OF 1(1)] split: sum.splits dest: parse_string_left)
    next
      case 4
      with v c show ?thesis
        by (auto simp: parse_value.psimps [OF 1(1)] is_number_char_def split: if_splits
            dest: parse_leaf_left parse_leaf_left(3) [OF _ c(2)])
    qed
  qed
  then show ?case by blast
next
  case (2 depth p)
  have "left p' \<le> left p" if v: "parse_object depth p = Inr (v, p')" for v p'
  proof (cases "peek (skip_ws p) = Some 125")
    case True
    with v have "p' = advance (skip_ws p)" by (simp add: parse_object.psimps [OF 2(1)] Let_def)
    then show ?thesis using advance_le [of "skip_ws p"] skip_ws_le [of p] by simp
  next
    case False
    with v have "object_loop depth [] (skip_ws p) = Inr (v, p')"
      by (simp add: parse_object.psimps [OF 2(1)] Let_def)
    with "2.IH" [OF refl False] have "left p' \<le> left (skip_ws p)" by blast
    then show ?thesis using skip_ws_le [of p] by simp
  qed
  then show ?case by blast
next
  case (3 depth m p)
  have "left p' \<le> left p" if v: "object_loop depth m p = Inr (v, p')" for v p'
  proof -
    from v obtain key q q1 w q2 c q3 where
      k: "peek (skip_ws p) = Some 34" "parse_string (skip_ws p) = Inr (key, q)"
      and q1: "bump (skip_ws q) = (Some 58, q1)" "parse_value (depth + 1) (skip_ws q1) = Inr (w, q2)"
      and q3: "bump (skip_ws q2) = (Some c, q3)"
      and r: "(c = 44 \<and> object_loop depth (bt_insert key w m) q3 = Inr (v, p')) \<or> p' = q3"
      by (auto simp: object_loop.psimps [OF 3(1)] Let_def split: if_splits sum.splits prod.splits)
    have "left q2 < left (skip_ws q1)"
      using "3.IH"(1) [OF refl _ k(2) refl q1(1) [symmetric] _ ] k q1 by (simp del: split_paired_All)
    then have l: "left q3 < left p"
      using skip_string_left [OF k(2)] skip_bump_left [OF q1(1)] skip_bump_left [OF q3] skip_ws_le [of q1] by simp
    from r show ?thesis
    proof
      assume r: "c = 44 \<and> object_loop depth (bt_insert key w m) q3 = Inr (v, p')"
      have "left p' \<le> left q3"
        using "3.IH"(2) [OF refl _ k(2) refl refl q1(1) [symmetric] _ q1(2) refl refl q3 [symmetric]] k r
        by (simp del: split_paired_All)
      with l show ?thesis by simp
    qed (use l in simp)
  qed
  then show ?case by blast
next
  case (4 depth p)
  have "left p' \<le> left p" if v: "parse_array depth p = Inr (v, p')" for v p'
  proof (cases "peek (skip_ws p) = Some 93")
    case True
    with v have "p' = advance (skip_ws p)" by (simp add: parse_array.psimps [OF 4(1)] Let_def)
    then show ?thesis using advance_le [of "skip_ws p"] skip_ws_le [of p] by simp
  next
    case False
    with v have "array_loop depth [] (skip_ws p) = Inr (v, p')"
      by (simp add: parse_array.psimps [OF 4(1)] Let_def)
    with "4.IH" [OF refl False] have "left p' \<le> left (skip_ws p)" by blast
    then show ?thesis using skip_ws_le [of p] by simp
  qed
  then show ?case by blast
next
  case (5 depth items p)
  have "left p' \<le> left p" if v: "array_loop depth items p = Inr (v, p')" for v p'
  proof -
    from v obtain w q c q3 where
      q: "parse_value (depth + 1) (skip_ws p) = Inr (w, q)"
      and q3: "bump (skip_ws q) = (Some c, q3)"
      and r: "(c = 44 \<and> array_loop depth (items @ [w]) q3 = Inr (v, p')) \<or> p' = q3"
      by (auto simp: array_loop.psimps [OF 5(1)] Let_def split: if_splits sum.splits prod.splits)
    have "left q < left (skip_ws p)"
      using "5.IH"(1) q by (simp del: split_paired_All)
    then have l: "left q3 < left p"
      using skip_bump_left [OF q3] skip_ws_le [of p] by simp
    from r show ?thesis
    proof
      assume r: "c = 44 \<and> array_loop depth (items @ [w]) q3 = Inr (v, p')"
      have "left p' \<le> left q3"
        using "5.IH"(2) [OF q refl refl q3 [symmetric]] r by (simp del: split_paired_All)
      with l show ?thesis by simp
    qed (use l in simp)
  qed
  then show ?case by blast
qed

lemma key_left: "parse_string (skip_ws p) = Inr (k, q) \<Longrightarrow> (c, q1) = bump (skip_ws q) \<Longrightarrow> left (skip_ws q1) < left p"
  using skip_string_left [of p k q] bump_leD [of "skip_ws q" c q1] skip_ws_le [of q] skip_ws_le [of q1] by simp

lemma comma_left: "(Some c, q1) = bump (skip_ws q) \<Longrightarrow> left q1 < left q"
  using skip_bump_left [of q c q1] by simp


termination parse_value
  apply (relation "measure (\<lambda>x. case x of
      Inl (Inl (d, p)) \<Rightarrow> 3 * left p + 2
    | Inl (Inr (d, p)) \<Rightarrow> 3 * left p + 4
    | Inr (Inl (d, m, p)) \<Rightarrow> 3 * left p + 3
    | Inr (Inr (Inl (d, p))) \<Rightarrow> 3 * left p + 4
    | Inr (Inr (Inr (d, items, p))) \<Rightarrow> 3 * left p + 3)")
  subgoal by simp
  subgoal for d p using advance_left [of p] by simp
  subgoal for d p using advance_left [of p] by simp
  subgoal for d p using skip_ws_le [of p] by simp
  subgoal for d m p q b k r x c s using key_left [of p k r c s] by auto
  subgoal for d m p q b k r x c s w v t y a u
    using key_left [of p k r c s] comma_left [of 44 u t] parse_dom_left(1) [of "d + 1" "skip_ws s"]
    by (auto simp del: split_paired_All)
  subgoal for d p using skip_ws_le [of p] by simp
  subgoal for d items p using skip_ws_le [of p] by simp
  subgoal for d items p w v q x c r
    using comma_left [of 44 r q] parse_dom_left(1) [of "d + 1" "skip_ws p"] skip_ws_le [of p]
    by (auto simp del: split_paired_All)
  done

lemmas parse_simps = parse_value.simps parse_object.simps object_loop.simps parse_array.simps array_loop.simps

declare parse_simps [simp del]

text \<open>\<open>Json::parse\<close>: one value, surrounded by white space.\<close>

definition json_parse :: "string \<Rightarrow> json_error + json" where
  "json_parse input =
     (case parse_value 0 (skip_ws (0, str_chars input)) of
        Inl e \<Rightarrow> Inl e
      | Inr (value, p) \<Rightarrow>
          (let p = skip_ws p in
           if snd p \<noteq> [] then Inl (TrailingData (fst p)) else Inr value))"

text \<open>\<open>Json::parse(s).ok()\<close>\<close>

definition json_parse_ok :: "string \<Rightarrow> json option" where
  "json_parse_ok s = (case json_parse s of Inl _ \<Rightarrow> None | Inr v \<Rightarrow> Some v)"

subsection \<open>Parsed values are well-formed\<close>

text \<open>
  What the parser can return: numbers are doubles, strings valid UTF-8, objects ordered maps,
  and arrays and objects nest at most \<open>n\<close> levels below the outermost.
\<close>

definition f64_ok :: "f64 \<Rightarrow> bool" where
  "f64_ok x = (case x of Finite q \<Rightarrow> representable q | Infinite _ \<Rightarrow> True | NaN \<Rightarrow> False)"

function (sequential) json_ok :: "nat \<Rightarrow> json \<Rightarrow> bool" where
  "json_ok n JNull = True"
| "json_ok n (JBool b) = True"
| "json_ok n (JNumber x) = f64_ok x"
| "json_ok n (JString s) = utf8_valid s"
| "json_ok n (JArray items) = (\<forall>v\<in>set items. 0 < n \<and> json_ok (n - 1) v)"
| "json_ok n (JObject m) = (bt_ok m \<and> (\<forall>(k, v)\<in>set m. utf8_valid k \<and> 0 < n \<and> json_ok (n - 1) v))"
  by pat_completeness auto

termination
  by (relation "measure (\<lambda>(_, v). size v)") (auto simp: size_json_object less_Suc_eq_le size_list_estimation')

lemma f64_ok_of_ratio: "0 < q \<Longrightarrow> f64_ok (f64_of_ratio neg p q)"
  using f64_of_ratio_representable [of q neg p]
  by (cases "f64_of_ratio neg p q") (auto simp: f64_ok_def f64_of_ratio_alt Let_def split: if_splits)

lemma f64_ok_parse: "f64_parse s = Some x \<Longrightarrow> f64_ok x"
  by (auto simp: f64_parse_def Let_def f64_of_decimal_def f64_ok_of_ratio split: prod.splits option.splits if_splits)

text \<open>The unread input is always a suffix of the input, so its characters stay scalar values.\<close>

abbreviation scalars :: "parser \<Rightarrow> bool" where
  "scalars p \<equiv> \<forall>c\<in>set (snd p). scalar c"

lemma scalars_advance: "scalars p \<Longrightarrow> scalars (advance p)"
  by (cases "snd p") (auto simp: advance_def)

lemma scalars_bump: "bump p = (x, q) \<Longrightarrow> scalars p \<Longrightarrow> scalars q \<and> (case x of None \<Rightarrow> True | Some c \<Rightarrow> scalar c)"
  by (cases "snd p") (auto simp: bump_def peek_def advance_def)

lemma scalars_skip_ws: "scalars p \<Longrightarrow> scalars (skip_ws p)"
proof -
  have "set (snd (skip_ws_from pos cs)) \<subseteq> set cs" for pos cs
    by (induction pos cs rule: skip_ws_from.induct) auto
  then show "scalars p \<Longrightarrow> scalars (skip_ws p)"
    unfolding skip_ws_def by blast
qed

lemma scalars_hex: "parse_hex k v e p = Inr (w, q) \<Longrightarrow> scalars p \<Longrightarrow> scalars q"
proof (induction k arbitrary: v p)
  case (Suc k)
  then obtain c r d where r: "bump p = (Some c, r)" "parse_hex k (v * 16 + d) e r = Inr (w, q)"
    by (auto split: prod.splits option.splits)
  from Suc.IH [OF r(2)] scalars_bump [OF r(1) Suc.prems(2)] show ?case by blast
qed simp

lemma scalars_unicode: "parse_unicode_escape e p = Inr (w, q) \<Longrightarrow> scalars p \<Longrightarrow> scalars q \<and> scalar w"
  by (auto simp: parse_unicode_escape_def parse_hex4_def Let_def
      split: sum.splits prod.splits if_splits dest!: scalars_hex scalars_bump)

lemma scalars_string_char:
  assumes "parse_string_char p = Inr (x, q)" "scalars p"
  shows "scalars q \<and> (case x of None \<Rightarrow> True | Some c \<Rightarrow> scalar c)"
proof -
  from assms(1) obtain c r where r: "bump p = (Some c, r)"
    by (auto simp: parse_string_char_def split: prod.splits option.splits)
  note s = scalars_bump [OF this assms(2)]
  show ?thesis
  proof (cases "c = 92")
    case False
    with assms(1) r s show ?thesis by (auto simp: parse_string_char_def split: if_splits)
  next
    case True
    with assms(1) r obtain d t where d: "bump r = (Some d, t)"
      by (auto simp: parse_string_char_def Let_def split: prod.splits option.splits)
    with scalars_bump [OF this] s have "scalars t" by blast
    with assms(1) r d True show ?thesis
      by (auto simp: parse_string_char_def Let_def scalar_def [of 34] scalar_def [of 92] scalar_def [of 47]
          scalar_def [of 8] scalar_def [of 12] scalar_def [of 10] scalar_def [of 13] scalar_def [of 9]
          split: if_splits sum.splits dest!: scalars_unicode)
  qed
qed

lemma scalars_string_loop:
  "parse_string_loop s p = Inr (t, q) \<Longrightarrow> scalars p \<Longrightarrow> utf8_valid s \<Longrightarrow> scalars q \<and> utf8_valid t"
proof (induction s p rule: parse_string_loop.induct)
  case (1 s p)
  from "1.prems"(1) obtain x r where x: "parse_string_char p = Inr (x, r)"
    by (subst (asm) parse_string_loop.simps) (auto split: sum.splits prod.splits option.splits)
  note r = scalars_string_char [OF x "1.prems"(2)]
  show ?case
  proof (cases x)
    case None
    with x r "1.prems" show ?thesis by (simp add: parse_string_loop.simps [of s p])
  next
    case (Some c)
    with x "1.prems" have "parse_string_loop (s @ utf8_encode c) r = Inr (t, q)"
      by (simp add: parse_string_loop.simps [of s p])
    with "1.IH" [OF x refl Some] r Some "1.prems"(3) show ?thesis
      by (simp add: utf8_valid_append utf8_valid_encode)
  qed
qed

lemma scalars_string: "parse_string p = Inr (t, q) \<Longrightarrow> scalars p \<Longrightarrow> scalars q \<and> utf8_valid t"
  unfolding parse_string_def using scalars_string_loop scalars_advance by (meson utf8_valid_Nil)

lemma scalars_literal: "consume_literal lit p = Some q \<Longrightarrow> scalars p \<Longrightarrow> scalars q"
  by (auto simp: consume_literal_def split: if_splits dest!: in_set_dropD)

lemma scalars_leaf:
  assumes "parse_bool p = Inr (v, q) \<or> parse_null p = Inr (v, q) \<or> parse_number p = Inr (v, q)" "scalars p"
  shows "scalars q \<and> json_ok n v"
  using assms(1)
proof (elim disjE)
  assume "parse_bool p = Inr (v, q)"
  then have "(consume_literal ''true'' p = Some q \<or> consume_literal ''false'' p = Some q) \<and> (\<exists>b. v = JBool b)"
    by (auto simp: parse_bool_def split: option.splits)
  moreover from this have "scalars q" using scalars_literal [OF _ assms(2)] by blast
  ultimately show ?thesis by auto
next
  assume "parse_null p = Inr (v, q)"
  then have "consume_literal ''null'' p = Some q" "v = JNull"
    by (auto simp: parse_null_def split: option.splits)
  with scalars_literal [OF _ assms(2)] show ?thesis by auto
next
  assume "parse_number p = Inr (v, q)"
  then obtain x where x: "f64_parse (utf8_string (takeWhile is_number_char (snd p))) = Some x" "v = JNumber x"
    and q: "snd q = dropWhile is_number_char (snd p)"
    by (auto simp: parse_number_def Let_def split: option.splits)
  have "set (snd q) \<subseteq> set (snd p)" unfolding q by (blast dest: set_dropWhileD)
  with x assms(2) show ?thesis by (auto simp: f64_ok_parse)
qed

lemma parse_ok:
  "scalars p \<Longrightarrow> parse_value depth p = Inr (v, q) \<Longrightarrow> scalars q \<and> depth \<le> MAX_DEPTH \<and> json_ok (MAX_DEPTH - depth) v"
  "scalars p \<Longrightarrow> parse_object depth p = Inr (v, q) \<Longrightarrow> scalars q \<and> json_ok (MAX_DEPTH - depth) v"
  "scalars p \<Longrightarrow> object_loop depth m p = Inr (v, q) \<Longrightarrow> json_ok (MAX_DEPTH - depth) (JObject m) \<Longrightarrow>
     scalars q \<and> json_ok (MAX_DEPTH - depth) v"
  "scalars p \<Longrightarrow> parse_array depth p = Inr (v, q) \<Longrightarrow> scalars q \<and> json_ok (MAX_DEPTH - depth) v"
  "scalars p \<Longrightarrow> array_loop depth items p = Inr (v, q) \<Longrightarrow> json_ok (MAX_DEPTH - depth) (JArray items) \<Longrightarrow>
     scalars q \<and> json_ok (MAX_DEPTH - depth) v"
proof (induction depth p and depth p and depth m p and depth p and depth items p
    arbitrary: v q and v q and v q and v q and v q
    rule: parse_value_parse_object_object_loop_parse_array_array_loop.induct)
  case (1 depth p)
  from "1.prems" obtain c where c: "\<not> MAX_DEPTH < depth" "peek p = Some c"
    by (auto simp: parse_value.simps [of depth p] split: if_splits option.splits)
  consider "c = 123" | "c = 91" | "c = 34" | "c \<notin> {123, 91, 34}" by auto
  then show ?case
  proof cases
    case o: 1
    have "parse_object depth (advance p) = Inr (v, q)"
      using "1.prems" c o by (simp add: parse_value.simps [of depth p])
    with "1.IH"(1) [OF c o] scalars_advance [OF "1.prems"(1)] c show ?thesis by simp
  next
    case 2
    have "parse_array depth (advance p) = Inr (v, q)"
      using "1.prems" c 2 by (simp add: parse_value.simps [of depth p])
    with "1.IH"(2) [OF c _ 2] scalars_advance [OF "1.prems"(1)] c 2 show ?thesis by simp
  next
    case 3
    with "1.prems" c show ?thesis
      by (auto simp: parse_value.simps [of depth p] split: sum.splits dest!: scalars_string)
  next
    case 4
    with "1.prems" c have "parse_bool p = Inr (v, q) \<or> parse_null p = Inr (v, q) \<or> parse_number p = Inr (v, q)"
      by (auto simp: parse_value.simps [of depth p] split: if_splits)
    from scalars_leaf [OF this "1.prems"(1)] c(1) show ?thesis by simp
  qed
next
  case (2 depth p)
  show ?case
  proof (cases "peek (skip_ws p) = Some 125")
    case True
    with "2.prems" scalars_advance [OF scalars_skip_ws [OF "2.prems"(1)]] show ?thesis
      by (auto simp: parse_object.simps [of depth p] Let_def)
  next
    case False
    with "2.prems" have "object_loop depth [] (skip_ws p) = Inr (v, q)"
      by (simp add: parse_object.simps [of depth p] Let_def)
    with "2.IH" [OF refl False scalars_skip_ws [OF "2.prems"(1)]] show ?thesis by simp
  qed
next
  case (3 depth m p)
  from "3.prems" obtain key r r1 w r2 c r3 where
    k: "peek (skip_ws p) = Some 34" "parse_string (skip_ws p) = Inr (key, r)"
    and r1: "bump (skip_ws r) = (Some 58, r1)" "parse_value (depth + 1) (skip_ws r1) = Inr (w, r2)"
    and r3: "bump (skip_ws r2) = (Some c, r3)"
    and r: "(c = 44 \<and> object_loop depth (bt_insert key w m) r3 = Inr (v, q)) \<or>
      v = JObject (bt_insert key w m) \<and> q = r3"
    by (auto simp: object_loop.simps [of depth m p] Let_def split: if_splits sum.splits prod.splits)
  from scalars_string [OF k(2)] scalars_skip_ws "3.prems"(1)
  have s: "scalars r" "utf8_valid key" by blast+
  from scalars_bump [OF r1(1)] s scalars_skip_ws have s1: "scalars (skip_ws r1)" by blast
  have w: "scalars r2" "depth + 1 \<le> MAX_DEPTH" "json_ok (MAX_DEPTH - (depth + 1)) w"
    using "3.IH"(1) [OF refl _ k(2) refl refl r1(1) [symmetric] _ s1 r1(2)] k(1) by simp_all
  from scalars_bump [OF r3] w(1) scalars_skip_ws have s3: "scalars r3" by blast
  have "json_ok (MAX_DEPTH - depth) (JObject (bt_insert key w m))"
    using "3.prems"(3) w s(2) by (auto dest!: set_bt_insert)
  then show ?case
    using "3.IH"(2) [OF refl _ k(2) refl refl r1(1) [symmetric] _ r1(2) refl refl r3 [symmetric] _ s3] k r s3
    by (cases q) auto
next
  case (4 depth p)
  show ?case
  proof (cases "peek (skip_ws p) = Some 93")
    case True
    with "4.prems" scalars_advance [OF scalars_skip_ws [OF "4.prems"(1)]] show ?thesis
      by (auto simp: parse_array.simps [of depth p] Let_def)
  next
    case False
    with "4.prems" have "array_loop depth [] (skip_ws p) = Inr (v, q)"
      by (simp add: parse_array.simps [of depth p] Let_def)
    with "4.IH" [OF refl False scalars_skip_ws [OF "4.prems"(1)]] show ?thesis by simp
  qed
next
  case (5 depth items p)
  from "5.prems" obtain w r c r3 where
    r: "parse_value (depth + 1) (skip_ws p) = Inr (w, r)" and r3: "bump (skip_ws r) = (Some c, r3)"
    and c: "(c = 44 \<and> array_loop depth (items @ [w]) r3 = Inr (v, q)) \<or> v = JArray (items @ [w]) \<and> q = r3"
    by (auto simp: array_loop.simps [of depth items p] Let_def split: if_splits sum.splits prod.splits)
  have w: "scalars r" "depth + 1 \<le> MAX_DEPTH" "json_ok (MAX_DEPTH - (depth + 1)) w"
    using "5.IH"(1) [OF scalars_skip_ws [OF "5.prems"(1)] r] by simp_all
  from scalars_bump [OF r3] w(1) scalars_skip_ws have s3: "scalars r3" by blast
  have "json_ok (MAX_DEPTH - depth) (JArray (items @ [w]))"
    using "5.prems"(3) w by auto
  then show ?case
    using "5.IH"(2) [OF r refl refl r3 [symmetric] _ s3] c s3 by (cases q) auto
qed

subsection \<open>Parsing what is written\<close>

fun json_finite :: "json \<Rightarrow> bool" where
  "json_finite (JNumber x) = f64_is_finite x"
| "json_finite (JArray items) = (\<forall>v\<in>set items. json_finite v)"
| "json_finite (JObject m) = (\<forall>p\<in>set m. json_finite (snd p))"
| "json_finite _ = True"

lemma hex_val_digit: "d < 16 \<Longrightarrow> hex_val (ch (hex_digit d)) = Some d"
  by (auto simp: hex_val_def hex_digit_def digit_def)

lemma ch_hex_digit: "d < 16 \<Longrightarrow> ch (hex_digit d) < 128"
  by (auto simp: hex_digit_def digit_def)

lemma ascii_hex4 [simp]: "ascii (hex4 n)"
  by (simp add: hex4_def ch_hex_digit)

lemma ascii_escape: "c < 128 \<Longrightarrow> ascii (escape_char c)"
  by (simp add: escape_char_def utf8_encode_def)

lemma utf8_valid_escape: "scalar c \<Longrightarrow> utf8_valid (escape_char c)"
proof (cases "c < 128")
  case True
  then show ?thesis by (intro ascii_utf8_valid ascii_escape)
next
  case False
  then show "scalar c \<Longrightarrow> utf8_valid (escape_char c)" by (simp add: escape_char_def utf8_valid_encode)
qed

lemma bump_Cons [simp]: "bump (pos, c # cs) = (Some c, (Suc pos, cs))"
  by (simp add: bump_def peek_def advance_def)

lemma peek_Cons [simp]: "peek (pos, c # cs) = Some c" "peek (pos, []) = None"
  by (simp_all add: peek_def)

lemma advance_Cons [simp]: "advance (pos, c # cs) = (Suc pos, cs)"
  by (simp add: advance_def)

lemma skip_ws_Cons [simp]: "\<not> is_ws c \<Longrightarrow> skip_ws (pos, c # cs) = (pos, c # cs)"
  by (simp add: skip_ws_def)

lemma skip_ws_Nil [simp]: "skip_ws (pos, []) = (pos, [])"
  by (simp add: skip_ws_def)

lemma parse_hex4_low:
  assumes "c < 32"
  shows "parse_hex4 e (pos, map ch (hex4 c) @ cs) = Inr (c, (pos + 4, cs))"
proof -
  have h: "hex4 c = [hex_digit 0, hex_digit 0, hex_digit (c div 16), hex_digit (c mod 16)]"
    using assms by (simp add: hex4_def)
  have four: "(4 :: nat) = Suc (Suc (Suc (Suc 0)))" by simp
  have "hex_val (ch (hex_digit (c div 16))) = Some (c div 16)" "hex_val (ch (hex_digit (c mod 16))) = Some (c mod 16)"
    "hex_val (ch (hex_digit 0)) = Some 0"
    using assms by (simp_all add: hex_val_digit)
  then show ?thesis
    unfolding parse_hex4_def four h by simp
qed

lemma parse_string_char_escape:
  assumes "scalar c"
  shows "\<exists>pos'. parse_string_char (pos, str_chars (escape_char c) @ cs) = Inr (Some c, (pos', cs))"
proof (cases "c < 32 \<and> c \<notin> {8, 9, 10, 12, 13}")
  case True
  then have "escape_char c = CHR 0x5C # CHR ''u'' # hex4 c" "ascii (escape_char c)"
    by (auto simp: escape_char_def)
  then show ?thesis
    using True parse_hex4_low [of c "pos" "Suc (Suc pos)" cs] assms
    by (simp add: parse_string_char_def str_chars_ascii parse_unicode_escape_def)
next
  case False
  show ?thesis
  proof (cases "c \<in> {8, 9, 10, 12, 13, 34, 92}")
    case True
    then show ?thesis
      by (auto simp: escape_char_def parse_string_char_def str_chars_ascii)
  next
    case False': False
    then have "escape_char c = utf8_encode c" "str_chars (utf8_encode c) = [c]"
      using False str_chars_utf8_string [of "[c]"] assms by (auto simp: escape_char_def utf8_string_def)
    then show ?thesis
      using False False' by (auto simp: parse_string_char_def)
  qed
qed

lemma parse_string_loop_escape:
  assumes "\<forall>c\<in>set cs. scalar c"
  shows "\<exists>pos'. parse_string_loop s (pos, concat (map (\<lambda>c. str_chars (escape_char c)) cs) @ 34 # r) =
    Inr (s @ utf8_string cs, (pos', r))"
  using assms
proof (induction cs arbitrary: s pos)
  case Nil
  have "parse_string_char (pos, 34 # r) = Inr (None, (Suc pos, r))"
    by (simp add: parse_string_char_def)
  then show ?case by (simp add: parse_string_loop.simps [of s] utf8_string_def)
next
  case (Cons c cs)
  obtain pos' where "parse_string_char (pos, str_chars (escape_char c) @
      concat (map (\<lambda>c. str_chars (escape_char c)) cs) @ 34 # r) =
      Inr (Some c, (pos', concat (map (\<lambda>c. str_chars (escape_char c)) cs) @ 34 # r))"
    using parse_string_char_escape [of c] Cons.prems by (meson list.set_intros(1))
  then show ?case
    using Cons.IH [of "s @ utf8_encode c" pos'] Cons.prems
    by (simp add: parse_string_loop.simps [of s] utf8_string_def)
qed

lemma str_chars_concat:
  "(\<And>w. w \<in> set ws \<Longrightarrow> utf8_valid w) \<Longrightarrow> utf8_valid (concat ws) \<and> str_chars (concat ws) = concat (map str_chars ws)"
  by (induction ws) (auto simp: str_chars_append utf8_valid_append)

lemma write_string_chars:
  assumes "utf8_valid s"
  shows "utf8_valid (write_json_string s)"
    and "str_chars (write_json_string s) = 34 # concat (map (\<lambda>c. str_chars (escape_char c)) (str_chars s)) @ [34]"
proof -
  have "utf8_valid (concat (map escape_char (str_chars s))) \<and>
    str_chars (concat (map escape_char (str_chars s))) = concat (map str_chars (map escape_char (str_chars s)))"
    by (rule str_chars_concat) (auto dest: scalar_str_chars intro: utf8_valid_escape)
  then show "utf8_valid (write_json_string s)"
    and "str_chars (write_json_string s) = 34 # concat (map (\<lambda>c. str_chars (escape_char c)) (str_chars s)) @ [34]"
    by (simp_all add: write_json_string_def utf8_valid_Cons_ascii utf8_valid_append ascii_utf8_valid
        str_chars_Cons_ascii str_chars_append str_chars_ascii comp_def)
qed

lemma parse_string_write:
  assumes "utf8_valid s"
  shows "\<exists>pos'. parse_string (pos, str_chars (write_json_string s) @ r) = Inr (s, (pos', r))"
  using parse_string_loop_escape [of "str_chars s" "[]" "Suc pos" r] scalar_str_chars [of _ s]
  by (auto simp: parse_string_def write_string_chars [OF assms] utf8_string_str_chars [OF assms])


text \<open>Numbers.\<close>

lemma number_char_ascii: "number_char c \<Longrightarrow> ch c < 128 \<and> is_number_char (ch c)"
  by (auto simp: number_char_def is_number_char_def)

lemma decimal_layout_first: "\<exists>c cs. decimal_layout n e = c # cs \<and> 48 \<le> ch c \<and> ch c < 58"
proof -
  obtain d ds where d: "dec n = d # ds" using dec_not_Nil by (cases "dec n") auto
  then have "48 \<le> ch d \<and> ch d < 58" using dec_digits [of d n] by simp
  with d show ?thesis
    by (auto simp: decimal_layout_def Let_def take_Cons split: nat.splits)
qed

lemma dec_first: "\<exists>c cs. dec n = c # cs \<and> 48 \<le> ch c \<and> ch c < 58"
  using decimal_layout_first [of n 0] by (simp add: decimal_layout_def)

lemma f64_display_first: "\<exists>c cs. f64_display (Finite q) = c # cs \<and> (ch c = 45 \<or> (48 \<le> ch c \<and> ch c < 58))"
proof (cases "shortest_decimal \<bar>q\<bar>")
  case (Pair n e)
  with decimal_layout_first [of n e] show ?thesis by (auto simp: f64_display_def)
qed

definition number_start :: "nat \<Rightarrow> bool" where
  "number_start c \<longleftrightarrow> c = 45 \<or> (48 \<le> c \<and> c < 58)"

lemma format_number_text:
  assumes "representable q"
  shows "f64_parse (format_number (Finite q)) = Some (Finite q) \<and> (\<forall>c\<in>set (format_number (Finite q)). number_char c)
    \<and> (\<exists>c cs. format_number (Finite q) = c # cs \<and> number_start (ch c))"
proof (cases "f64_fract_zero (Finite q) \<and> \<bar>q\<bar> < 9007199254740992")
  case True
  define i where "i = \<lfloor>q\<rfloor>"
  have q: "of_int i = q" using True by (simp add: f64_fract_zero_def i_def)
  have i: "\<bar>i\<bar> < 2 ^ 53"
  proof -
    have "of_int \<bar>i\<bar> < (of_int (2 ^ 53) :: rat)" using True q by simp
    then show ?thesis by (simp only: of_int_less_iff)
  qed
  have "f64_cast (- (2 ^ 63)) (2 ^ 63 - 1) (Finite q) = i"
    using i q [symmetric] by (auto simp: f64_cast_def)
  with True have f: "format_number (Finite q) = int_display i" by (simp add: format_number_def)
  show ?thesis
    unfolding f using f64_parse_int_display [OF i] q number_char_int_display [of _ i] dec_first [of "nat i"]
    by (auto simp: int_display_def number_start_def)
next
  case False
  then have f: "format_number (Finite q) = f64_display (Finite q)" by (auto simp: format_number_def)
  show ?thesis
    unfolding f using f64_parse_display [OF assms] number_char_display [of _ q] f64_display_first [of q]
    by (auto simp: number_start_def)
qed

lemma utf8_string_ascii: "ascii s \<Longrightarrow> utf8_string (map ch s) = s"
  using utf8_string_str_chars [of s] by (simp add: str_chars_ascii ascii_utf8_valid)

lemma takeWhile_text:
  "\<forall>c\<in>set cs. P c \<Longrightarrow> (case r of [] \<Rightarrow> True | c # _ \<Rightarrow> \<not> P c) \<Longrightarrow>
   takeWhile P (cs @ r) = cs \<and> dropWhile P (cs @ r) = r"
  by (cases r) (auto simp: takeWhile_append2 dropWhile_append2)

definition value_end :: "nat list \<Rightarrow> bool" where
  "value_end r \<longleftrightarrow> (case r of [] \<Rightarrow> True | c # _ \<Rightarrow> c \<in> {44, 93, 125})"

lemma value_end_simps [simp]: "value_end []" "value_end (c # r) \<longleftrightarrow> c \<in> {44, 93, 125}"
  by (simp_all add: value_end_def)

lemma parse_number_format:
  assumes "representable q" "value_end r"
  shows "ascii (format_number (Finite q)) \<and> (\<exists>c cs. str_chars (format_number (Finite q)) = c # cs \<and> number_start c)
    \<and> parse_number (pos, str_chars (format_number (Finite q)) @ r) =
      Inr (JNumber (Finite q), (pos + length (format_number (Finite q)), r))"
proof -
  define s where "s = format_number (Finite q)"
  from format_number_text [OF assms(1), folded s_def] obtain c cs where
    s: "f64_parse s = Some (Finite q)" "\<forall>c\<in>set s. number_char c" "s = c # cs" "number_start (ch c)" by blast
  then have a: "ascii s" by (auto simp: ascii_def dest: number_char_ascii)
  then have m: "str_chars s = map ch s" by (rule str_chars_ascii)
  have "takeWhile is_number_char (map ch s @ r) = map ch s \<and> dropWhile is_number_char (map ch s @ r) = r"
    using s(2) assms(2) by (intro takeWhile_text)
      (auto simp: is_number_char_def [of 44] is_number_char_def [of 93] is_number_char_def [of 125]
        dest: number_char_ascii split: list.splits)
  then have "parse_number (pos, map ch s @ r) = Inr (JNumber (Finite q), (pos + length s, r))"
    using s(1) by (simp add: parse_number_def Let_def utf8_string_ascii [OF a])
  with a m s(3,4) show ?thesis unfolding s_def [symmetric] by simp
qed

text \<open>The text of a value starts with a character that is neither white space nor a closing bracket.\<close>

definition value_start :: "nat \<Rightarrow> bool" where
  "value_start c \<longleftrightarrow> \<not> is_ws c \<and> c \<noteq> 93 \<and> c \<noteq> 125"

lemma str_join_chars:
  assumes "\<And>w. w \<in> set ws \<Longrightarrow> utf8_valid w" "ascii sep"
  shows "utf8_valid (str_join sep ws)"
    and "str_chars (str_join sep (w # w' # ws')) = (if utf8_valid w \<and> utf8_valid (str_join sep (w' # ws'))
      then str_chars w @ map ch sep @ str_chars (str_join sep (w' # ws')) else str_chars (str_join sep (w # w' # ws')))"
proof -
  show "utf8_valid (str_join sep ws)"
    using assms by (induction sep ws rule: str_join.induct) (auto simp: utf8_valid_append ascii_utf8_valid)
  show "str_chars (str_join sep (w # w' # ws')) = (if utf8_valid w \<and> utf8_valid (str_join sep (w' # ws'))
      then str_chars w @ map ch sep @ str_chars (str_join sep (w' # ws')) else str_chars (str_join sep (w # w' # ws')))"
    using assms(2) by (simp add: str_chars_append utf8_valid_append ascii_utf8_valid str_chars_ascii)
qed

lemma json_write_valid: "json_ok n v \<Longrightarrow> json_finite v \<Longrightarrow> utf8_valid (json_write v)"
proof (induction n v rule: json_ok.induct)
  case (3 n x)
  then obtain q where "x = Finite q" "representable q"
    by (auto simp: f64_is_finite_def f64_ok_def split: f64.splits)
  with parse_number_format [of q "[]"] show ?case by (simp add: ascii_utf8_valid)
next
  case (5 n items)
  then have "utf8_valid (str_join '','' (map json_write items))"
    by (intro str_join_chars(1)) auto
  then show ?case by (simp add: utf8_valid_Cons_ascii utf8_valid_append ascii_utf8_valid)
next
  case (6 n m)
  have "utf8_valid (str_join '','' (map (\<lambda>(k, v). write_json_string k @ '':'' @ json_write v) m))"
  proof (intro str_join_chars(1))
    fix w assume "w \<in> set (map (\<lambda>(k, v). write_json_string k @ '':'' @ json_write v) m)"
    then obtain k v where kv: "(k, v) \<in> set m" "w = write_json_string k @ '':'' @ json_write v" by auto
    with 6 show "utf8_valid w"
      by (fastforce simp: utf8_valid_append utf8_valid_Cons_ascii write_string_chars)
  qed simp
  then show ?case by (simp add: utf8_valid_Cons_ascii utf8_valid_append ascii_utf8_valid)
qed (auto simp: ascii_utf8_valid write_string_chars)

lemma json_write_start: "json_ok n v \<Longrightarrow> json_finite v \<Longrightarrow> \<exists>c cs. str_chars (json_write v) = c # cs \<and> value_start c"
proof (induction n v rule: json_ok.induct)
  case (3 n x)
  then obtain q where "x = Finite q" "representable q"
    by (auto simp: f64_is_finite_def f64_ok_def split: f64.splits)
  with parse_number_format [of q "[]" 0] obtain c cs where
    "str_chars (json_write (JNumber x)) = c # cs" "number_start c" by auto
  then show ?case
    by (auto simp: number_start_def value_start_def is_ws_def)
next
  case (5 n items)
  then have "utf8_valid (json_write (JArray items))" by (intro json_write_valid)
  then show ?case
    by (simp add: str_chars_Cons_ascii utf8_valid_Cons_ascii value_start_def is_ws_def)
next
  case (6 n m)
  then have "utf8_valid (json_write (JObject m))" by (intro json_write_valid)
  then show ?case
    by (simp add: str_chars_Cons_ascii utf8_valid_Cons_ascii value_start_def is_ws_def)
qed (auto simp: str_chars_ascii write_string_chars value_start_def is_ws_def)


lemma skip_ws_value_start: "value_start c \<Longrightarrow> skip_ws (pos, c # cs) = (pos, c # cs)"
  by (simp add: value_start_def)

definition reads_back :: "json \<Rightarrow> bool" where
  "reads_back v \<longleftrightarrow> (\<forall>depth pos r. json_ok (MAX_DEPTH - depth) v \<longrightarrow> depth \<le> MAX_DEPTH \<longrightarrow> value_end r \<longrightarrow>
     (\<exists>pos'. parse_value depth (pos, str_chars (json_write v) @ r) = Inr (v, (pos', r))))"

lemma skip_ws_write:
  assumes "json_ok n v" "json_finite v"
  shows "skip_ws (pos, str_chars (json_write v) @ r) = (pos, str_chars (json_write v) @ r)"
  using json_write_start [OF assms] by (auto simp: value_start_def)

lemma is_ws_simps [simp]: "\<not> is_ws 44" "\<not> is_ws 93" "\<not> is_ws 125" "\<not> is_ws 58" "\<not> is_ws 34"
  by (simp_all add: is_ws_def)

text \<open>One round of each loop: an element and the character after it.\<close>

lemma array_step:
  assumes "json_finite v" "depth < MAX_DEPTH" "json_ok (MAX_DEPTH - Suc depth) v" "reads_back v" "c \<in> {44, 93}"
  shows "\<exists>pos'. array_loop depth acc (pos, str_chars (json_write v) @ c # r) =
    (if c = 44 then array_loop depth (acc @ [v]) (pos', r) else Inr (JArray (acc @ [v]), (pos', r)))"
proof -
  have "value_end (c # r)" using assms(5) by auto
  with assms obtain pos' where "parse_value (Suc depth) (pos, str_chars (json_write v) @ c # r) = Inr (v, (pos', c # r))"
    unfolding reads_back_def by (metis Suc_leI)
  then show ?thesis
    using skip_ws_write [OF assms(3,1)] assms(5) by (auto simp: array_loop.simps [of depth acc])
qed

lemma array_loop_write:
  assumes "items \<noteq> []" "\<forall>v\<in>set items. json_finite v \<and> depth < MAX_DEPTH \<and> json_ok (MAX_DEPTH - Suc depth) v \<and> reads_back v"
  shows "\<exists>pos'. array_loop depth acc (pos, str_chars (str_join '','' (map json_write items)) @ 93 # r) =
    Inr (JArray (acc @ items), (pos', r))"
  using assms
proof (induction items arbitrary: acc pos)
  case Nil
  then show ?case by simp
next
  case (Cons v vs)
  then have v: "json_finite v" "depth < MAX_DEPTH" "json_ok (MAX_DEPTH - Suc depth) v" "reads_back v" by auto
  show ?case
  proof (cases vs)
    case Nil
    with array_step [OF v, of 93 acc pos r] show ?thesis by auto
  next
    case (Cons w ws)
    have valid: "\<And>x. x \<in> set (map json_write (v # vs)) \<Longrightarrow> utf8_valid x"
      using Cons.prems(2) json_write_valid by auto
    then have "str_chars (str_join '','' (map json_write (v # vs))) =
        str_chars (json_write v) @ 44 # str_chars (str_join '','' (map json_write vs))"
      using str_join_chars(1) [of "map json_write vs" "'',''"]
        str_join_chars(2) [of "map json_write vs" "'',''" "json_write v" "json_write w" "map json_write ws"] Cons
      by auto
    then show ?thesis
      using array_step [OF v, of 44 acc pos "str_chars (str_join '','' (map json_write vs)) @ 93 # r"]
        Cons.IH [of "acc @ [v]"] Cons.prems(2) Cons by auto
  qed
qed

abbreviation write_entry :: "string \<times> json \<Rightarrow> string" where
  "write_entry \<equiv> \<lambda>(k, v). write_json_string k @ '':'' @ json_write v"

lemma write_entry_chars:
  assumes "utf8_valid k" "json_ok n v" "json_finite v"
  shows "utf8_valid (write_entry (k, v))"
    and "str_chars (write_entry (k, v)) = str_chars (write_json_string k) @ 58 # str_chars (json_write v)"
  using assms json_write_valid [OF assms(2,3)]
  by (simp_all add: utf8_valid_append utf8_valid_Cons_ascii write_string_chars(1) str_chars_append str_chars_Cons_ascii)

lemma object_step:
  assumes "utf8_valid k" "json_finite v" "depth < MAX_DEPTH" "json_ok (MAX_DEPTH - Suc depth) v" "reads_back v"
    and c: "c \<in> {44, 125}"
  shows "\<exists>pos'. object_loop depth acc (pos, str_chars (write_entry (k, v)) @ c # r) =
    (if c = 44 then object_loop depth (bt_insert k v acc) (pos', r)
     else Inr (JObject (bt_insert k v acc), (pos', r)))"
proof -
  let ?v = "str_chars (json_write v) @ c # r"
  obtain pos1 where k: "parse_string (pos, str_chars (write_json_string k) @ 58 # ?v) = Inr (k, (pos1, 58 # ?v))"
    using parse_string_write [OF assms(1)] by blast
  have "value_end (c # r)" using c by auto
  with assms obtain pos2 where "parse_value (Suc depth) (Suc pos1, ?v) = Inr (v, (pos2, c # r))"
    unfolding reads_back_def by (metis Suc_leI)
  moreover have "skip_ws (pos, str_chars (write_json_string k) @ 58 # ?v) = (pos, str_chars (write_json_string k) @ 58 # ?v)"
    "peek (pos, str_chars (write_json_string k) @ 58 # ?v) = Some 34"
    by (simp_all add: write_string_chars [OF assms(1)])
  ultimately show ?thesis
    using skip_ws_write [OF assms(4,2)] c k
    by (auto simp: object_loop.simps [of depth acc] write_entry_chars(2) [OF assms(1,4,2), simplified] Let_def)
qed

lemma object_loop_write:
  assumes "m \<noteq> []" "bt_ok (acc @ m)"
    "\<forall>(k, v)\<in>set m. utf8_valid k \<and> json_finite v \<and> depth < MAX_DEPTH \<and> json_ok (MAX_DEPTH - Suc depth) v \<and> reads_back v"
  shows "\<exists>pos'. object_loop depth acc (pos, str_chars (str_join '','' (map write_entry m)) @ 125 # r) =
    Inr (JObject (acc @ m), (pos', r))"
  using assms
proof (induction m arbitrary: acc pos)
  case Nil
  then show ?case by simp
next
  case (Cons kv m)
  obtain k v where kv: "kv = (k, v)" by (cases kv)
  with Cons.prems have v: "utf8_valid k" "json_finite v" "depth < MAX_DEPTH"
    "json_ok (MAX_DEPTH - Suc depth) v" "reads_back v" by auto
  have ins: "bt_insert k v acc = acc @ [(k, v)]"
    using Cons.prems(2) kv by (intro bt_insert_greater) (auto simp: bt_ok_def sorted_wrt_append)
  show ?case
  proof (cases m)
    case Nil
    with object_step [OF v, of 125 acc pos r] ins kv show ?thesis by auto
  next
    case (Cons w ws)
    have valid: "\<And>x. x \<in> set (map write_entry (kv # m)) \<Longrightarrow> utf8_valid x"
      using Cons.prems(3) write_entry_chars(1) by fastforce
    then have "str_chars (str_join '','' (map write_entry (kv # m))) =
        str_chars (write_entry kv) @ 44 # str_chars (str_join '','' (map write_entry m))"
      using str_join_chars(1) [of "map write_entry m" "'',''"]
        str_join_chars(2) [of "map write_entry m" "'',''" "write_entry kv" "write_entry w" "map write_entry ws"] Cons
      by auto
    then show ?thesis
      using object_step [OF v, of 44 acc pos "str_chars (str_join '','' (map write_entry m)) @ 125 # r"]
        Cons.IH [of "acc @ [(k, v)]"] Cons.prems(2,3) Cons ins kv by auto
  qed
qed


theorem json_reads_back: "json_finite v \<Longrightarrow> reads_back v"
proof (induction v rule: json_write.induct)
  case (3 x)
  show ?case unfolding reads_back_def
  proof (intro allI impI)
    fix depth pos and r :: "nat list"
    assume ok: "json_ok (MAX_DEPTH - depth) (JNumber x)" "depth \<le> MAX_DEPTH" "value_end r"
    from 3 ok(1) obtain q where q: "x = Finite q" "representable q"
      by (auto simp: f64_is_finite_def f64_ok_def split: f64.splits)
    note n = parse_number_format [OF q(2) ok(3), of pos]
    then obtain c cs where c: "str_chars (format_number (Finite q)) = c # cs" "number_start c" by blast
    then have "parse_value depth (pos, str_chars (json_write (JNumber x)) @ r) =
        parse_number (pos, str_chars (json_write (JNumber x)) @ r)"
      using ok(2) q(1) by (auto simp: parse_value.simps [of depth] number_start_def)
    with n q(1) show "\<exists>pos'. parse_value depth (pos, str_chars (json_write (JNumber x)) @ r) = Inr (JNumber x, (pos', r))"
      by simp
  qed
next
  case (4 s)
  show ?case unfolding reads_back_def
  proof (intro allI impI)
    fix depth pos and r :: "nat list"
    assume ok: "json_ok (MAX_DEPTH - depth) (JString s)" "depth \<le> MAX_DEPTH"
    then have v: "utf8_valid s" by simp
    from parse_string_write [OF v, of pos r] obtain pos' where
      p: "parse_string (pos, str_chars (write_json_string s) @ r) = Inr (s, (pos', r))" by blast
    have "peek (pos, str_chars (write_json_string s) @ r) = Some 34"
      by (simp add: write_string_chars [OF v])
    with p ok(2) show "\<exists>pos'. parse_value depth (pos, str_chars (json_write (JString s)) @ r) = Inr (JString s, (pos', r))"
      by (simp add: parse_value.simps [of depth])
  qed
next
  case (5 items)
  show ?case unfolding reads_back_def
  proof (intro allI impI)
    fix depth pos and r :: "nat list"
    assume ok: "json_ok (MAX_DEPTH - depth) (JArray items)" "depth \<le> MAX_DEPTH"
    have items: "\<forall>v\<in>set items. json_finite v \<and> depth < MAX_DEPTH \<and> json_ok (MAX_DEPTH - Suc depth) v \<and> reads_back v"
      using ok 5 by auto
    then have each: "\<And>u. u \<in> set items \<Longrightarrow> utf8_valid (json_write u)"
      using json_write_valid by blast
    then have valid: "utf8_valid (str_join '','' (map json_write items))"
      by (intro str_join_chars(1)) auto
    have chars: "str_chars (json_write (JArray items)) @ r = 91 # str_chars (str_join '','' (map json_write items)) @ 93 # r"
      using valid by (simp add: str_chars_Cons_ascii utf8_valid_append ascii_utf8_valid str_chars_append str_chars_ascii)
    have "\<exists>pos'. parse_array depth (Suc pos, str_chars (str_join '','' (map json_write items)) @ 93 # r) =
      Inr (JArray items, (pos', r))"
    proof (cases items)
      case Nil
      then show ?thesis by (simp add: parse_array.simps [of depth])
    next
      case (Cons v vs)
      then have v: "json_ok (MAX_DEPTH - Suc depth) v" "json_finite v" using items by auto
      obtain c cs where c: "str_chars (str_join '','' (map json_write items)) = c # cs" "value_start c"
      proof (cases vs)
        case Nil
        with json_write_start [OF v] that Cons show ?thesis by auto
      next
        case (Cons w ws)
        have "utf8_valid (str_join '','' (map json_write vs))" "utf8_valid (json_write v)"
          using each \<open>items = v # vs\<close> by (auto intro!: str_join_chars(1))
        with str_join_chars(2) [of "[]" "'',''" "json_write v" "json_write w" "map json_write ws"]
          json_write_start [OF v] that Cons \<open>items = v # vs\<close> show ?thesis by auto
      qed
      then have "parse_array depth (Suc pos, str_chars (str_join '','' (map json_write items)) @ 93 # r) =
          array_loop depth [] (Suc pos, str_chars (str_join '','' (map json_write items)) @ 93 # r)"
        by (auto simp: parse_array.simps [of depth] value_start_def)
      with array_loop_write [OF _ items, of "[]" "Suc pos" r] Cons show ?thesis by simp
    qed
    with ok(2) show "\<exists>pos'. parse_value depth (pos, str_chars (json_write (JArray items)) @ r) = Inr (JArray items, (pos', r))"
      unfolding chars by (simp add: parse_value.simps [of depth])
  qed
next
  case (6 m)
  show ?case unfolding reads_back_def
  proof (intro allI impI)
    fix depth pos and r :: "nat list"
    assume ok: "json_ok (MAX_DEPTH - depth) (JObject m)" "depth \<le> MAX_DEPTH"
    have m: "\<forall>(k, v)\<in>set m. utf8_valid k \<and> json_finite v \<and> depth < MAX_DEPTH \<and> json_ok (MAX_DEPTH - Suc depth) v \<and> reads_back v"
      using ok 6 by fastforce
    then have valid: "utf8_valid (str_join '','' (map write_entry m))"
      using write_entry_chars(1) by (intro str_join_chars(1)) fastforce+
    have chars: "str_chars (json_write (JObject m)) @ r = 123 # str_chars (str_join '','' (map write_entry m)) @ 125 # r"
      using valid by (simp add: str_chars_Cons_ascii utf8_valid_append ascii_utf8_valid str_chars_append str_chars_ascii)
    have "\<exists>pos'. parse_object depth (Suc pos, str_chars (str_join '','' (map write_entry m)) @ 125 # r) =
      Inr (JObject m, (pos', r))"
    proof (cases m)
      case Nil
      then show ?thesis by (simp add: parse_object.simps [of depth])
    next
      case (Cons kv ms)
      obtain k v where kv: "kv = (k, v)" by (cases kv)
      with m Cons have v: "utf8_valid k" "json_ok (MAX_DEPTH - Suc depth) v" "json_finite v" by auto
      have "\<exists>cs. str_chars (str_join '','' (map write_entry m)) = 34 # cs"
      proof (cases ms)
        case Nil
        with Cons kv write_entry_chars(2) [OF v] show ?thesis by (simp add: write_string_chars [OF v(1)])
      next
        case (Cons w ws)
        have "utf8_valid (str_join '','' (map write_entry ms))"
          using m \<open>m = kv # ms\<close> write_entry_chars(1) by (intro str_join_chars(1)) fastforce+
        with str_join_chars(2) [of "[]" "'',''" "write_entry kv" "write_entry w" "map write_entry ws"]
          write_entry_chars [OF v] Cons \<open>m = kv # ms\<close> kv show ?thesis by (simp add: write_string_chars [OF v(1)])
      qed
      then have "parse_object depth (Suc pos, str_chars (str_join '','' (map write_entry m)) @ 125 # r) =
          object_loop depth [] (Suc pos, str_chars (str_join '','' (map write_entry m)) @ 125 # r)"
        by (auto simp: parse_object.simps [of depth])
      with object_loop_write [OF _ _ m, of "[]" "Suc pos" r] Cons ok(1) show ?thesis by simp
    qed
    with ok(2) show "\<exists>pos'. parse_value depth (pos, str_chars (json_write (JObject m)) @ r) = Inr (JObject m, (pos', r))"
      unfolding chars by (simp add: parse_value.simps [of depth])
  qed
qed (auto simp: reads_back_def str_chars_ascii parse_value.simps parse_null_def parse_bool_def consume_literal_def)


text \<open>The whole text of a document is read back.\<close>

theorem json_parse_write:
  assumes "json_ok MAX_DEPTH v" "json_finite v"
  shows "json_parse (json_write v) = Inr v"
proof -
  obtain pos' where "parse_value 0 (0, str_chars (json_write v)) = Inr (v, (pos', []))"
    using json_reads_back [OF assms(2)] assms(1) unfolding reads_back_def
    by (metis append_Nil2 diff_zero le0 value_end_simps(1))
  then show ?thesis
    using skip_ws_write [OF assms, of 0 "[]"] by (simp add: json_parse_def)
qed

theorem json_parse_sound: "json_parse s = Inr v \<Longrightarrow> json_ok MAX_DEPTH v"
  using parse_ok(1) [of "skip_ws (0, str_chars s)" 0] scalars_skip_ws [of "(0, str_chars s)"] scalar_str_chars [of _ s]
  by (auto simp: json_parse_def Let_def split: sum.splits if_splits)

lemma json_parse_ok_write [simp]: "json_ok MAX_DEPTH v \<Longrightarrow> json_finite v \<Longrightarrow> json_parse_ok (json_write v) = Some v"
  by (simp add: json_parse_ok_def json_parse_write)

subsection \<open>Properties\<close>

text \<open>C17: Serializing a well-formed finite value that nests no deeper than the limit and parsing the
  text gives the value back: key order, escapes, numbers and nesting survive.\<close>

theorem json_write_parse:
  assumes "json_ok MAX_DEPTH v" "json_finite v"
  shows "json_parse (json_write v) = Inr v \<and> utf8_valid (json_write v)"
  using json_parse_write [OF assms] json_write_valid [OF assms] by simp

theorem json_write_parse_witness:
  "json_parse (json_write (JObject [(''ban'', JNumber (Finite 50)), (''users'', JArray [JString [CHR 0x22], JNull])])) =
     Inr (JObject [(''ban'', JNumber (Finite 50)), (''users'', JArray [JString [CHR 0x22], JNull])])"
  by (rule json_write_parse [THEN conjunct1])
    (use representable_int [of 50] in \<open>simp_all add: bt_ok_def MAX_DEPTH_def ascii_utf8_valid f64_ok_def f64_is_finite_def\<close>)

text \<open>C40: Whatever the parser accepts is well-formed: strings are valid UTF-8, objects are ordered maps
  without duplicate keys, numbers are doubles and nesting never exceeds the limit, so that a
  finite parsed value is reproduced by serializing and parsing it.\<close>

theorem json_parse_wellformed:
  assumes "json_parse s = Inr v"
  shows "json_ok MAX_DEPTH v \<and> (json_finite v \<longrightarrow> json_parse (json_write v) = Inr v)"
  using json_parse_sound [OF assms] json_parse_write by blast

theorem json_parse_wellformed_witness:
  "json_ok MAX_DEPTH (JArray [JBool True, JString ''a''])"
proof (rule json_parse_wellformed [THEN conjunct1])
  have "json_write (JArray [JBool True, JString ''a'']) = ''[true,'' @ [CHR 0x22] @ ''a'' @ [CHR 0x22] @ '']''"
    by (simp add: write_json_string_def str_chars_ascii escape_char_def utf8_encode_def char_of_eq_iff)
  then show "json_parse (''[true,'' @ [CHR 0x22] @ ''a'' @ [CHR 0x22] @ '']'') = Inr (JArray [JBool True, JString ''a''])"
    using json_parse_write [of "JArray [JBool True, JString ''a'']"] by (simp add: ascii_utf8_valid MAX_DEPTH_def)
qed

text \<open>A number beyond the range of doubles is accepted as an infinity, and serializing it prints
  zero: \<open>1e999\<close> comes back as \<open>0\<close>.\<close>

theorem json_overflow:
  "json_parse ''1e999'' = Inr (JNumber (Infinite False)) \<and> json_write (JNumber (Infinite False)) = ''0''"
proof -
  have "f64_parse ''1e999'' = Some (f64_of_decimal False 1 999)"
    by (simp add: f64_parse_def take_sign_def digit_val_def parse_exponent_def digits_value_def)
  moreover have "f64_of_decimal False 1 999 = Infinite False"
  proof -
    define M N :: nat where "M = 1024" and "N = 999"
    have "(2 :: nat) ^ M \<le> 2 ^ (3 * N)" by (rule power_increasing) (simp_all add: M_def N_def)
    also have "\<dots> \<le> 10 ^ N" by (simp add: power_mult power_mono)
    finally have "1 * 2 ^ M \<le> 1 * (10 :: nat) ^ N" by simp
    then have "f64_of_ratio False (1 * 10 ^ N) 1 = Infinite False"
      by (rule f64_of_ratio_overflow [OF zero_less_one, folded M_def])
    moreover have "nat 999 = N" by (simp add: N_def)
    moreover have "(0 :: int) \<le> 999" by simp
    ultimately show ?thesis unfolding f64_of_decimal_def by (simp only: if_True)
  qed
  moreover have "str_chars ''1e999'' = map ch ''1e999''"
    by (rule str_chars_ascii) simp
  moreover have "utf8_string (map ch ''1e999'') = ''1e999''"
    by (rule utf8_string_ascii) simp
  ultimately show ?thesis
    by (simp add: json_parse_def parse_value.simps parse_number_def is_number_char_def is_ws_def format_number_def MAX_DEPTH_def)
qed

end
