(* ===== verification/JsonText.thy ===== *)
theory JsonText
  imports Json
begin

section \<open>Texts that denote a JSON value\<close>

text \<open>
  Several components print JSON by hand instead of through the serializer.  \<open>denotes n t v\<close> says
  that wherever a value is expected, at most \<open>n\<close> levels below the limit, the parser reads the text \<open>t\<close>
  as \<open>v\<close>; the lemmas build such texts from string literals, arrays and objects, whatever the
  escaping used, as long as each escaped character is read back (\<open>escapes\<close>).
\<close>

named_theorems denotes_intro \<open>texts that denote a value\<close>

definition escapes :: "(nat \<Rightarrow> string) \<Rightarrow> bool" where
  "escapes esc \<longleftrightarrow> (\<forall>c. scalar c \<longrightarrow> utf8_valid (esc c) \<and>
     (\<forall>pos cs. \<exists>pos'. parse_string_char (pos, str_chars (esc c) @ cs) = Inr (Some c, (pos', cs))))"

definition quoted :: "(nat \<Rightarrow> string) \<Rightarrow> string \<Rightarrow> string" where
  "quoted esc s = [CHR 0x22] @ concat (map esc (str_chars s)) @ [CHR 0x22]"

lemma escapes_escape_char: "escapes escape_char"
  by (simp add: escapes_def utf8_valid_escape parse_string_char_escape)

lemma write_json_string_quoted: "write_json_string s = quoted escape_char s"
  by (simp add: write_json_string_def quoted_def)

lemma quoted_chars:
  assumes "escapes esc" "utf8_valid s"
  shows "utf8_valid (quoted esc s)"
    and "str_chars (quoted esc s) = 34 # concat (map (\<lambda>c. str_chars (esc c)) (str_chars s)) @ [34]"
proof -
  have "utf8_valid (concat (map esc (str_chars s))) \<and>
    str_chars (concat (map esc (str_chars s))) = concat (map str_chars (map esc (str_chars s)))"
    using assms(1) by (intro str_chars_concat) (auto simp: escapes_def dest: scalar_str_chars)
  then show "utf8_valid (quoted esc s)"
    and "str_chars (quoted esc s) = 34 # concat (map (\<lambda>c. str_chars (esc c)) (str_chars s)) @ [34]"
    by (simp_all add: quoted_def utf8_valid_Cons_ascii utf8_valid_append ascii_utf8_valid
        str_chars_Cons_ascii str_chars_append str_chars_ascii comp_def)
qed

lemma parse_escaped:
  assumes "escapes esc" "\<forall>c\<in>set cs. scalar c"
  shows "\<exists>pos'. parse_string_loop s (pos, concat (map (\<lambda>c. str_chars (esc c)) cs) @ 34 # r) =
    Inr (s @ utf8_string cs, (pos', r))"
  using assms(2)
proof (induction cs arbitrary: s pos)
  case Nil
  have "parse_string_char (pos, 34 # r) = Inr (None, (Suc pos, r))"
    by (simp add: parse_string_char_def)
  then show ?case by (simp add: parse_string_loop.simps [of s] utf8_string_def)
next
  case (Cons c cs)
  obtain pos' where "parse_string_char (pos, str_chars (esc c) @ concat (map (\<lambda>c. str_chars (esc c)) cs) @ 34 # r) =
      Inr (Some c, (pos', concat (map (\<lambda>c. str_chars (esc c)) cs) @ 34 # r))"
    using assms(1) Cons.prems unfolding escapes_def by (meson list.set_intros(1))
  then show ?case
    using Cons.IH [of "s @ utf8_encode c" pos'] Cons.prems
    by (simp add: parse_string_loop.simps [of s] utf8_string_def)
qed

lemma parse_quoted:
  assumes "escapes esc" "utf8_valid s"
  shows "\<exists>pos'. parse_string (pos, str_chars (quoted esc s) @ r) = Inr (s, (pos', r))"
  using parse_escaped [OF assms(1), of "str_chars s" "[]" "Suc pos" r] scalar_str_chars [of _ s]
  by (auto simp: parse_string_def quoted_chars [OF assms] utf8_string_str_chars [OF assms(2)])

subsection \<open>Values\<close>

definition denotes :: "nat \<Rightarrow> string \<Rightarrow> json \<Rightarrow> bool" where
  "denotes n t v \<longleftrightarrow> utf8_valid t \<and> (\<exists>c cs. str_chars t = c # cs \<and> value_start c) \<and>
     (\<forall>depth pos r. depth + n \<le> MAX_DEPTH \<longrightarrow> value_end r \<longrightarrow>
        (\<exists>pos'. parse_value depth (pos, str_chars t @ r) = Inr (v, (pos', r))))"

definition denotes_key :: "string \<Rightarrow> string \<Rightarrow> bool" where
  "denotes_key t k \<longleftrightarrow> utf8_valid t \<and> (\<exists>cs. str_chars t = 34 # cs) \<and>
     (\<forall>pos r. \<exists>pos'. parse_string (pos, str_chars t @ r) = Inr (k, (pos', r)))"

lemma denotes_skip: "denotes n t v \<Longrightarrow> skip_ws (pos, str_chars t @ r) = (pos, str_chars t @ r)"
  by (auto simp: denotes_def skip_ws_value_start)

lemma denotes_le: "denotes n t v \<Longrightarrow> n \<le> m \<Longrightarrow> denotes m t v"
  unfolding denotes_def by (meson add_left_mono le_trans)

lemma denotes_key_quoted [denotes_intro]: "escapes esc \<Longrightarrow> utf8_valid s \<Longrightarrow> denotes_key (quoted esc s) s"
  by (simp add: denotes_key_def quoted_chars(1) parse_quoted) (simp add: quoted_chars)

lemma denotes_key_string: "denotes_key t k \<Longrightarrow> denotes n t (JString k)"
  unfolding denotes_key_def denotes_def
proof (elim conjE exE, intro conjI allI impI)
  fix cs depth pos and r :: "nat list"
  assume t: "str_chars t = 34 # cs" and k: "\<forall>pos r. \<exists>pos'. parse_string (pos, str_chars t @ r) = Inr (k, (pos', r))"
    and d: "depth + n \<le> MAX_DEPTH"
  then obtain pos' where "parse_string (pos, str_chars t @ r) = Inr (k, (pos', r))" by blast
  with t d show "\<exists>pos'. parse_value depth (pos, str_chars t @ r) = Inr (JString k, (pos', r))"
    by (simp add: parse_value.simps [of depth])
next
  fix cs assume "str_chars t = 34 # cs"
  then show "\<exists>c cs. str_chars t = c # cs \<and> value_start c" by (simp add: value_start_def is_ws_def)
qed

lemma json_ok_mono: "json_ok n v \<Longrightarrow> n \<le> m \<Longrightarrow> json_ok m v"
proof (induction n v arbitrary: m rule: json_ok.induct)
  case (5 n items)
  then show ?case by (auto simp: diff_le_mono)
next
  case (6 n ob)
  have "0 < m \<and> json_ok (m - 1) v" if "(k, v) \<in> set ob" for k v
  proof -
    have v: "0 < n \<and> json_ok (n - 1) v" using that 6(2) by auto
    with 6(1) [OF that refl, of "m - 1"] 6(3) show ?thesis by (simp add: diff_le_mono)
  qed
  with 6(2) show ?case by fastforce
qed auto

lemma denotes_write [denotes_intro]:
  assumes "json_ok n v" "json_finite v"
  shows "denotes n (json_write v) v"
proof -
  have "\<exists>pos'. parse_value depth (pos, str_chars (json_write v) @ r) = Inr (v, (pos', r))"
    if "depth + n \<le> MAX_DEPTH" "value_end r" for depth pos r
  proof -
    have "json_ok (MAX_DEPTH - depth) v" using json_ok_mono [OF assms(1)] that(1) by simp
    then show ?thesis using json_reads_back [OF assms(2)] that by (simp add: reads_back_def)
  qed
  then show ?thesis
    using json_write_valid [OF assms] json_write_start [OF assms] by (simp add: denotes_def)
qed

theorem json_parse_denotes:
  assumes "denotes n t v" "n \<le> MAX_DEPTH"
  shows "json_parse t = Inr v"
proof -
  obtain pos' where "parse_value 0 (0, str_chars t) = Inr (v, (pos', []))"
    using assms unfolding denotes_def by (metis add_0 append_Nil2 value_end_simps(1))
  then show ?thesis
    using denotes_skip [OF assms(1), of 0 "[]"] by (simp add: json_parse_def)
qed

subsection \<open>Arrays and objects\<close>

definition array_text :: "(string \<times> json) list \<Rightarrow> string" where
  "array_text items = ''['' @ str_join '','' (map fst items) @ '']''"

definition object_text :: "((string \<times> string) \<times> string \<times> json) list \<Rightarrow> string" where
  "object_text es = ''{'' @ str_join '','' (map (\<lambda>((kt, k), vt, v). kt @ '':'' @ vt) es) @ ''}''"

definition object_value :: "((string \<times> string) \<times> string \<times> json) list \<Rightarrow> json" where
  "object_value es = JObject (bt_of_list (map (\<lambda>((kt, k), vt, v). (k, v)) es))"

lemma join_chars:
  assumes "utf8_valid w" "\<And>x. x \<in> set ws \<Longrightarrow> utf8_valid x" "ws \<noteq> []"
  shows "str_chars (str_join '','' (w # ws)) = str_chars w @ 44 # str_chars (str_join '','' ws)"
proof -
  obtain x xs where ws: "ws = x # xs" using assms(3) by (cases ws) auto
  have "utf8_valid (str_join '','' ws)" using assms(2) by (rule str_join_chars(1)) auto
  with assms(1) ws show ?thesis
    using str_join_chars(2) [of ws "'',''" w x xs] assms(2) by (simp add: ws)
qed

lemma text_array_loop:
  assumes "items \<noteq> []" "\<forall>(t, v)\<in>set items. denotes n t v" "Suc depth + n \<le> MAX_DEPTH"
  shows "\<exists>pos'. array_loop depth acc (pos, str_chars (str_join '','' (map fst items)) @ 93 # r) =
    Inr (JArray (acc @ map snd items), (pos', r))"
  using assms(1,2)
proof (induction items arbitrary: acc pos)
  case (Cons x xs)
  obtain t v where x: "x = (t, v)" by (cases x)
  with Cons.prems have d: "denotes n t v" by simp
  have step: "\<exists>pos'. array_loop depth acc (pos, str_chars t @ c # q) =
    (if c = 44 then array_loop depth (acc @ [v]) (pos', q) else Inr (JArray (acc @ [v]), (pos', q)))"
    if "c \<in> {44, 93}" for c q
  proof -
    have "value_end (c # q)" using that by auto
    then obtain pos' where "parse_value (Suc depth) (pos, str_chars t @ c # q) = Inr (v, (pos', c # q))"
      using d assms(3) unfolding denotes_def by blast
    then show ?thesis using that denotes_skip [OF d] by (auto simp: array_loop.simps [of depth acc])
  qed
  show ?case
  proof (cases xs)
    case Nil
    with step [of 93 r] x show ?thesis by auto
  next
    case (Cons y ys)
    have "str_chars (str_join '','' (map fst (x # xs))) = str_chars t @ 44 # str_chars (str_join '','' (map fst xs))"
      unfolding list.map(2) using Cons.prems Cons x by (subst join_chars) (auto simp: denotes_def)
    then show ?thesis
      using step [of 44 "str_chars (str_join '','' (map fst xs)) @ 93 # r"] Cons.IH [of "acc @ [v]"] Cons.prems Cons x
      by auto
  qed
qed simp

lemma text_object_loop:
  assumes "es \<noteq> []" "\<forall>((kt, k), vt, v)\<in>set es. denotes_key kt k \<and> denotes n vt v" "Suc depth + n \<le> MAX_DEPTH"
  shows "\<exists>pos'. object_loop depth acc (pos, str_chars (str_join '','' (map (\<lambda>((kt, k), vt, v). kt @ '':'' @ vt) es)) @ 125 # r) =
    Inr (JObject (fold (\<lambda>(k, v). bt_insert k v) (map (\<lambda>((kt, k), vt, v). (k, v)) es) acc), (pos', r))"
  using assms(1,2)
proof (induction es arbitrary: acc pos)
  case (Cons x xs)
  obtain kt k vt v where x: "x = ((kt, k), vt, v)" by (metis prod.exhaust)
  with Cons.prems have d: "denotes_key kt k" "denotes n vt v" by simp_all
  then have valid: "utf8_valid kt" "utf8_valid vt" by (simp_all add: denotes_key_def denotes_def)
  have chars: "str_chars (kt @ '':'' @ vt) = str_chars kt @ 58 # str_chars vt"
    using valid by (simp add: str_chars_append utf8_valid_Cons_ascii str_chars_Cons_ascii)
  have step: "\<exists>pos'. object_loop depth acc (pos, str_chars (kt @ '':'' @ vt) @ c # q) =
    (if c = 44 then object_loop depth (bt_insert k v acc) (pos', q) else Inr (JObject (bt_insert k v acc), (pos', q)))"
    if c: "c \<in> {44, 125}" for c q
  proof -
    let ?v = "str_chars vt @ c # q"
    obtain pos1 where k: "parse_string (pos, str_chars kt @ 58 # ?v) = Inr (k, (pos1, 58 # ?v))"
      using d(1) unfolding denotes_key_def by blast
    have "value_end (c # q)" using c by auto
    then obtain pos2 where "parse_value (Suc depth) (Suc pos1, ?v) = Inr (v, (pos2, c # q))"
      using d(2) assms(3) unfolding denotes_def by blast
    moreover obtain cs where "str_chars kt = 34 # cs" using d(1) by (auto simp: denotes_key_def)
    then have "skip_ws (pos, str_chars kt @ 58 # ?v) = (pos, str_chars kt @ 58 # ?v)"
      "peek (pos, str_chars kt @ 58 # ?v) = Some 34" by simp_all
    ultimately show ?thesis
      using denotes_skip [OF d(2)] c k by (auto simp: object_loop.simps [of depth acc] chars [simplified] Let_def)
  qed
  show ?case
  proof (cases xs)
    case Nil
    with step [of 125 r] x show ?thesis by auto
  next
    case (Cons y ys)
    have "str_chars (str_join '','' (map (\<lambda>((kt, k), vt, v). kt @ '':'' @ vt) (x # xs))) =
        str_chars (kt @ '':'' @ vt) @ 44 # str_chars (str_join '','' (map (\<lambda>((kt, k), vt, v). kt @ '':'' @ vt) xs))"
      unfolding list.map(2) using Cons.prems Cons x valid
      by (subst join_chars) (auto simp: denotes_def denotes_key_def utf8_valid_append utf8_valid_Cons_ascii)
    then show ?thesis
      using step [of 44 "str_chars (str_join '','' (map (\<lambda>((kt, k), vt, v). kt @ '':'' @ vt) xs)) @ 125 # r"]
        Cons.IH [of "bt_insert k v acc"] Cons.prems Cons x
      by auto
  qed
qed simp

lemma denotes_array [denotes_intro]:
  assumes "\<forall>(t, v)\<in>set items. denotes n t v"
  shows "denotes (Suc n) (array_text items) (JArray (map snd items))"
proof -
  have valid: "utf8_valid (str_join '','' (map fst items))"
    using assms by (intro str_join_chars(1)) (auto simp: denotes_def)
  then have chars: "str_chars (array_text items) = 91 # str_chars (str_join '','' (map fst items)) @ [93]"
    "utf8_valid (array_text items)"
    by (simp_all add: array_text_def str_chars_Cons_ascii utf8_valid_Cons_ascii utf8_valid_append ascii_utf8_valid
        str_chars_append str_chars_ascii)
  have "\<exists>pos'. parse_array depth (pos, str_chars (str_join '','' (map fst items)) @ 93 # r) =
      Inr (JArray (map snd items), (pos', r))" if d: "depth + Suc n \<le> MAX_DEPTH" for depth pos r
  proof (cases items)
    case (Cons x xs)
    obtain t v where x: "x = (t, v)" by (cases x)
    with Cons assms have t: "denotes n t v" by simp
    then obtain c cs where c: "str_chars t = c # cs" "value_start c" by (auto simp: denotes_def)
    have "\<exists>cs. str_chars (str_join '','' (map fst items)) = c # cs"
    proof (cases xs)
      case (Cons y ys)
      have "str_chars (str_join '','' (map fst items)) = str_chars t @ 44 # str_chars (str_join '','' (map fst xs))"
        using assms Cons x unfolding \<open>items = x # xs\<close> list.map(2) by (subst join_chars) (auto simp: denotes_def)
      with c show ?thesis by simp
    qed (use c x Cons in simp)
    then have "parse_array depth (pos, str_chars (str_join '','' (map fst items)) @ 93 # r) =
        array_loop depth [] (pos, str_chars (str_join '','' (map fst items)) @ 93 # r)"
      using c(2) by (auto simp: parse_array.simps [of depth] value_start_def)
    with text_array_loop [OF _ assms, of depth "[]" pos r] Cons d show ?thesis by simp
  qed (simp add: parse_array.simps [of depth])
  then have "\<exists>pos'. parse_value depth (pos, str_chars (array_text items) @ r) = Inr (JArray (map snd items), (pos', r))"
    if "depth + Suc n \<le> MAX_DEPTH" for depth pos r
    using that chars by (simp add: parse_value.simps [of depth])
  with chars show ?thesis by (simp add: denotes_def value_start_def is_ws_def)
qed

lemma denotes_object [denotes_intro]:
  assumes "\<forall>((kt, k), vt, v)\<in>set es. denotes_key kt k \<and> denotes n vt v"
  shows "denotes (Suc n) (object_text es) (object_value es)"
proof -
  let ?es = "map (\<lambda>((kt, k), vt, v). kt @ '':'' @ vt) es"
  have v: "utf8_valid w" if "w \<in> set ?es" for w
    using that assms by (force simp: denotes_def denotes_key_def utf8_valid_append utf8_valid_Cons_ascii)
  then have valid: "utf8_valid (str_join '','' ?es)" by (rule str_join_chars(1)) auto
  then have chars: "str_chars (object_text es) = 123 # str_chars (str_join '','' ?es) @ [125]" "utf8_valid (object_text es)"
    by (simp_all add: object_text_def str_chars_Cons_ascii utf8_valid_Cons_ascii utf8_valid_append ascii_utf8_valid
        str_chars_append str_chars_ascii)
  have "\<exists>pos'. parse_object depth (pos, str_chars (str_join '','' ?es) @ 125 # r) = Inr (object_value es, (pos', r))"
    if d: "depth + Suc n \<le> MAX_DEPTH" for depth pos r
  proof (cases es)
    case (Cons x xs)
    obtain kt k vt v where x: "x = ((kt, k), vt, v)" by (metis prod.exhaust)
    with Cons assms have kt: "denotes_key kt k" "denotes n vt v" by simp_all
    then obtain cs where c: "str_chars (kt @ '':'' @ vt) = 34 # cs"
      by (auto simp: denotes_key_def denotes_def str_chars_append utf8_valid_Cons_ascii)
    have "\<exists>cs. str_chars (str_join '','' ?es) = 34 # cs"
    proof (cases xs)
      case (Cons y ys)
      have "str_chars (str_join '','' ?es) = str_chars (kt @ '':'' @ vt) @ 44 #
          str_chars (str_join '','' (map (\<lambda>((kt, k), vt, v). kt @ '':'' @ vt) xs))"
        using v Cons x unfolding \<open>es = x # xs\<close> list.map(2) by (subst join_chars) auto
      with c show ?thesis by simp
    qed (use c x Cons in simp)
    then have "parse_object depth (pos, str_chars (str_join '','' ?es) @ 125 # r) =
        object_loop depth [] (pos, str_chars (str_join '','' ?es) @ 125 # r)"
      by (auto simp: parse_object.simps [of depth])
    with text_object_loop [OF _ assms, of depth "[]" pos r] Cons d show ?thesis
      by (simp add: object_value_def bt_of_list_def)
  qed (simp add: parse_object.simps [of depth] object_value_def bt_of_list_def)
  then have "\<exists>pos'. parse_value depth (pos, str_chars (object_text es) @ r) = Inr (object_value es, (pos', r))"
    if "depth + Suc n \<le> MAX_DEPTH" for depth pos r
    using that chars by (simp add: parse_value.simps [of depth])
  with chars show ?thesis by (simp add: denotes_def value_start_def is_ws_def)
qed

end
