(* ===== verification/MatrixError.thy ===== *)
theory MatrixError
  imports JsonText
begin

section \<open>The Matrix error body (gm-api, error.rs)\<close>

text \<open>
  The \<open>errcode\<close>/\<open>error\<close> pair of every failed request and its hand-written JSON form, which uses an
  escaping of its own.  The property says a client reads back exactly the pair.
\<close>

record matrix_error =
  errcode :: string
  error :: string

definition matrix_error_new :: "string \<Rightarrow> string \<Rightarrow> matrix_error" where
  "matrix_error_new code msg = \<lparr>errcode = code, error = msg\<rparr>"

definition me_forbidden :: "string \<Rightarrow> matrix_error" where
  "me_forbidden e = matrix_error_new ''M_FORBIDDEN'' e"

definition me_not_found :: "string \<Rightarrow> matrix_error" where
  "me_not_found e = matrix_error_new ''M_NOT_FOUND'' e"

definition me_unknown_token :: "string \<Rightarrow> matrix_error" where
  "me_unknown_token e = matrix_error_new ''M_UNKNOWN_TOKEN'' e"

definition me_missing_token :: "string \<Rightarrow> matrix_error" where
  "me_missing_token e = matrix_error_new ''M_MISSING_TOKEN'' e"

definition me_limit_exceeded :: "string \<Rightarrow> matrix_error" where
  "me_limit_exceeded e = matrix_error_new ''M_LIMIT_EXCEEDED'' e"

definition me_unrecognized :: "string \<Rightarrow> matrix_error" where
  "me_unrecognized e = matrix_error_new ''M_UNRECOGNIZED'' e"

text \<open>The escaping of \<open>json_string\<close>: backspace and form feed take the numeric form.\<close>

definition me_escape :: "nat \<Rightarrow> string" where
  "me_escape c =
     (if c = 34 then [CHR 0x5C, CHR 0x22]
      else if c = 92 then [CHR 0x5C, CHR 0x5C]
      else if c = 10 then [CHR 0x5C, CHR ''n'']
      else if c = 13 then [CHR 0x5C, CHR ''r'']
      else if c = 9 then [CHR 0x5C, CHR ''t'']
      else if c < 32 then [CHR 0x5C, CHR ''u''] @ hex4 c
      else utf8_encode c)"

definition me_json_string :: "string \<Rightarrow> string" where
  "me_json_string s = [CHR 0x22] @ concat (map me_escape (str_chars s)) @ [CHR 0x22]"

definition me_to_json :: "matrix_error \<Rightarrow> string" where
  "me_to_json e =
     ''{'' @ ([CHR 0x22] @ ''errcode'' @ [CHR 0x22]) @ '':'' @ me_json_string (errcode e) @ '','' @
     ([CHR 0x22] @ ''error'' @ [CHR 0x22]) @ '':'' @ me_json_string (error e) @ ''}''"

definition me_display :: "matrix_error \<Rightarrow> string" where
  "me_display e = errcode e @ '': '' @ error e"

subsection \<open>The escaping is read back\<close>

lemma parse_low_escape:
  assumes "c < 32"
  shows "parse_string_char (pos, str_chars ([CHR 0x5C, CHR ''u''] @ hex4 c) @ cs) = Inr (Some c, (pos + 6, cs))"
proof -
  have "ascii ([CHR 0x5C, CHR ''u''] @ hex4 c)" by (simp add: ascii_hex4)
  moreover have "scalar c" using assms by (simp add: scalar_def)
  ultimately show ?thesis
    using assms parse_hex4_low [of c "pos" "Suc (Suc pos)" cs]
    by (simp add: parse_string_char_def str_chars_ascii parse_unicode_escape_def)
qed

lemma escapes_low:
  assumes "\<And>c. scalar c \<Longrightarrow> esc c = escape_char c \<or> (c < 32 \<and> esc c = [CHR 0x5C, CHR ''u''] @ hex4 c)"
  shows "escapes esc"
proof -
  have "utf8_valid (esc c) \<and> (\<exists>pos'. parse_string_char (pos, str_chars (esc c) @ cs) = Inr (Some c, (pos', cs)))"
    if "scalar c" for c pos cs
  proof -
    have "utf8_valid ([CHR 0x5C, CHR ''u''] @ hex4 c)" by (rule ascii_utf8_valid) (simp add: ascii_hex4)
    with assms [OF that] parse_low_escape [of c pos cs] that show ?thesis
      using utf8_valid_escape [OF that] parse_string_char_escape [OF that, of pos cs] by auto
  qed
  then show ?thesis by (auto simp: escapes_def)
qed

lemma escapes_me_escape: "escapes me_escape"
  by (rule escapes_low) (auto simp: me_escape_def escape_char_def)

lemma denotes_key_ascii: "ascii s \<Longrightarrow> (\<And>c. c \<in> set s \<Longrightarrow> 32 \<le> ch c \<and> ch c \<noteq> 34 \<and> ch c \<noteq> 92) \<Longrightarrow>
   denotes_key ([CHR 0x22] @ s @ [CHR 0x22]) s"
proof -
  assume s: "ascii s" "\<And>c. c \<in> set s \<Longrightarrow> 32 \<le> ch c \<and> ch c \<noteq> 34 \<and> ch c \<noteq> 92"
  have "escape_char (ch c) = [c]" if "c \<in> set s" for c
    using s(1) s(2) [OF that] that by (auto simp: escape_char_def ascii_def utf8_encode_1)
  then have "concat (map escape_char (map ch s)) = s"
    by (induction s) auto
  then have "quoted escape_char s = [CHR 0x22] @ s @ [CHR 0x22]"
    by (simp add: quoted_def str_chars_ascii [OF s(1)])
  then show ?thesis
    using denotes_key_quoted [OF escapes_escape_char ascii_utf8_valid [OF s(1)]] by simp
qed

subsection \<open>Properties\<close>

text \<open>The error body a client receives is a JSON object with exactly the error's code and message,
  whatever characters they contain.\<close>

theorem error_body_readable:
  assumes "utf8_valid code" "utf8_valid msg"
  shows "json_parse (me_to_json (matrix_error_new code msg)) =
    Inr (JObject [(''errcode'', JString code), (''error'', JString msg)])"
proof -
  let ?es = "[(([CHR 0x22] @ ''errcode'' @ [CHR 0x22], ''errcode''), (me_json_string code, JString code)),
    (([CHR 0x22] @ ''error'' @ [CHR 0x22], ''error''), (me_json_string msg, JString msg))]"
  have q: "me_json_string s = quoted me_escape s" for s by (simp add: me_json_string_def quoted_def)
  have k: "denotes_key ([CHR 0x22] @ ''errcode'' @ [CHR 0x22]) ''errcode''"
    "denotes_key ([CHR 0x22] @ ''error'' @ [CHR 0x22]) ''error''"
    by (rule denotes_key_ascii; force)+
  have "denotes (Suc 0) (object_text ?es) (object_value ?es)"
    unfolding q using k assms by (intro denotes_object) (simp add: denotes_key_string denotes_key_quoted escapes_me_escape)
  moreover have "object_text ?es = me_to_json (matrix_error_new code msg)"
    by (simp add: object_text_def me_to_json_def matrix_error_new_def)
  moreover have "object_value ?es = JObject [(''errcode'', JString code), (''error'', JString msg)]"
    by (simp add: object_value_def bt_of_list_def)
  ultimately show ?thesis using json_parse_denotes [of "Suc 0"] by (simp add: MAX_DEPTH_def)
qed

theorem error_body_readable_witness:
  "json_parse (me_to_json (me_forbidden [CHR 0x22, CHR 0x08, CHR ''x''])) =
    Inr (JObject [(''errcode'', JString ''M_FORBIDDEN''), (''error'', JString [CHR 0x22, CHR 0x08, CHR ''x''])])"
  unfolding me_forbidden_def by (rule error_body_readable) (simp_all add: ascii_utf8_valid)

end
