(* ===== verification/Ids.thy ===== *)
theory Ids
  imports Prelude
begin

section \<open>Matrix identifiers (gm-util, ids.rs and error.rs) and room versions (gm-api)\<close>

text \<open>
  Validated identifiers as newtypes with a fallible \<open>parse\<close>.  The lemmas characterise what
  \<open>parse\<close> accepts and show that the accessors split an accepted identifier back into its parts.
\<close>

datatype gm_error =
    InvalidUserId string
  | InvalidRoomId string
  | InvalidEventId string

datatype user_id = UserId string
datatype room_id = RoomId string
datatype event_id = EventId string
datatype agent_id = AgentId user_id

definition split_sigil :: "string \<Rightarrow> char \<Rightarrow> (string \<times> string) option" where
  "split_sigil s sigil =
     (case strip_prefix [sigil] s of
        None \<Rightarrow> None
      | Some rest \<Rightarrow>
          (case split_once (CHR '':'') rest of
             None \<Rightarrow> None
           | Some (local, server) \<Rightarrow> if local = [] \<or> server = [] then None else Some (local, server)))"

subsection \<open>User ids\<close>

definition user_id_parse :: "string \<Rightarrow> gm_error + user_id" where
  "user_id_parse s =
     (case split_sigil s (CHR ''@'') of Some _ \<Rightarrow> Inr (UserId s) | None \<Rightarrow> Inl (InvalidUserId s))"

fun user_as_str :: "user_id \<Rightarrow> string" where
  "user_as_str (UserId s) = s"

definition user_server_name :: "user_id \<Rightarrow> string" where
  "user_server_name u = (case split_once (CHR '':'') (user_as_str u) of Some (_, s) \<Rightarrow> s | None \<Rightarrow> [])"

definition user_localpart :: "user_id \<Rightarrow> string" where
  "user_localpart u =
     (case Option.bind (strip_prefix ''@'' (user_as_str u)) (split_once (CHR '':'')) of
        Some (local, _) \<Rightarrow> local
      | None \<Rightarrow> [])"

subsection \<open>Room, event and agent ids\<close>

definition room_id_parse :: "string \<Rightarrow> gm_error + room_id" where
  "room_id_parse s =
     (case split_sigil s (CHR ''!'') of Some _ \<Rightarrow> Inr (RoomId s) | None \<Rightarrow> Inl (InvalidRoomId s))"

fun room_as_str :: "room_id \<Rightarrow> string" where
  "room_as_str (RoomId s) = s"

definition room_server_name :: "room_id \<Rightarrow> string" where
  "room_server_name r = (case split_once (CHR '':'') (room_as_str r) of Some (_, s) \<Rightarrow> s | None \<Rightarrow> [])"

definition event_id_parse :: "string \<Rightarrow> gm_error + event_id" where
  "event_id_parse s =
     (case strip_prefix ''$'' s of
        Some rest \<Rightarrow> if rest \<noteq> [] then Inr (EventId s) else Inl (InvalidEventId s)
      | None \<Rightarrow> Inl (InvalidEventId s))"

fun event_as_str :: "event_id \<Rightarrow> string" where
  "event_as_str (EventId s) = s"

definition agent_id_parse :: "string \<Rightarrow> gm_error + agent_id" where
  "agent_id_parse s = (case user_id_parse s of Inl e \<Rightarrow> Inl e | Inr u \<Rightarrow> Inr (AgentId u))"

fun agent_as_user_id :: "agent_id \<Rightarrow> user_id" where
  "agent_as_user_id (AgentId u) = u"

definition agent_as_str :: "agent_id \<Rightarrow> string" where
  "agent_as_str a = user_as_str (agent_as_user_id a)"

subsection \<open>What parsing accepts\<close>

lemma as_str_inj [simp]:
  "user_as_str u = user_as_str u' \<longleftrightarrow> u = u'" "room_as_str r = room_as_str r' \<longleftrightarrow> r = r'"
  "event_as_str e = event_as_str e' \<longleftrightarrow> e = e'" "agent_as_str a = agent_as_str a' \<longleftrightarrow> a = a'"
proof -
  show u: "user_as_str u = user_as_str u' \<longleftrightarrow> u = u'" for u u' by (cases u; cases u') auto
  show "room_as_str r = room_as_str r' \<longleftrightarrow> r = r'" by (cases r; cases r') auto
  show "event_as_str e = event_as_str e' \<longleftrightarrow> e = e'" by (cases e; cases e') auto
  show "agent_as_str a = agent_as_str a' \<longleftrightarrow> a = a'" by (cases a; cases a') (auto simp: agent_as_str_def u)
qed

lemma split_sigil_Some:
  "split_sigil s sigil = Some (l, d) \<longleftrightarrow>
     s = sigil # l @ CHR '':'' # d \<and> CHR '':'' \<notin> set l \<and> l \<noteq> [] \<and> d \<noteq> []"
proof
  show "split_sigil s sigil = Some (l, d) \<Longrightarrow>
      s = sigil # l @ CHR '':'' # d \<and> CHR '':'' \<notin> set l \<and> l \<noteq> [] \<and> d \<noteq> []"
    by (auto simp: split_sigil_def strip_prefix_Some split_once_Some split: option.splits prod.splits if_splits)
  assume "s = sigil # l @ CHR '':'' # d \<and> CHR '':'' \<notin> set l \<and> l \<noteq> [] \<and> d \<noteq> []"
  then show "split_sigil s sigil = Some (l, d)" by (simp add: split_sigil_def)
qed

lemma user_id_parse_Inr:
  "user_id_parse s = Inr u \<longleftrightarrow>
     u = UserId s \<and> (\<exists>l d. s = CHR ''@'' # l @ CHR '':'' # d \<and> CHR '':'' \<notin> set l \<and> l \<noteq> [] \<and> d \<noteq> [])"
  by (auto simp: user_id_parse_def split_sigil_Some split: option.splits prod.splits)
    (metis option.distinct(1) split_sigil_Some)

lemma room_id_parse_Inr:
  "room_id_parse s = Inr r \<longleftrightarrow>
     r = RoomId s \<and> (\<exists>l d. s = CHR ''!'' # l @ CHR '':'' # d \<and> CHR '':'' \<notin> set l \<and> l \<noteq> [] \<and> d \<noteq> [])"
  by (auto simp: room_id_parse_def split_sigil_Some split: option.splits prod.splits)
    (metis option.distinct(1) split_sigil_Some)

lemma event_id_parse_Inr:
  "event_id_parse s = Inr e \<longleftrightarrow> e = EventId s \<and> (\<exists>r. s = CHR ''$'' # r \<and> r \<noteq> [])"
  by (cases s) (auto simp: event_id_parse_def strip_prefix_Some split: option.splits if_splits)

lemma user_id_parts:
  assumes "user_id_parse s = Inr u"
  shows "s = ''@'' @ user_localpart u @ '':'' @ user_server_name u"
proof -
  from assms obtain l d where s: "u = UserId s" "s = CHR ''@'' # l @ CHR '':'' # d" "CHR '':'' \<notin> set l"
    by (auto simp: user_id_parse_Inr)
  then have "split_once (CHR '':'') s = Some (CHR ''@'' # l, d)"
    by (simp add: split_once_Some)
  with s show ?thesis by (simp add: user_localpart_def user_server_name_def)
qed

text \<open>Well-formed ids are those \<open>parse\<close> returns.\<close>

definition user_ok :: "user_id \<Rightarrow> bool" where
  "user_ok u \<longleftrightarrow> user_id_parse (user_as_str u) = Inr u"

definition room_ok :: "room_id \<Rightarrow> bool" where
  "room_ok r \<longleftrightarrow> room_id_parse (room_as_str r) = Inr r"

definition event_ok :: "event_id \<Rightarrow> bool" where
  "event_ok e \<longleftrightarrow> event_id_parse (event_as_str e) = Inr e"

lemma parse_ok_ids:
  "user_id_parse s = Inr u \<Longrightarrow> user_ok u" "room_id_parse s = Inr r \<Longrightarrow> room_ok r" "event_id_parse s = Inr e \<Longrightarrow> event_ok e"
  by (auto simp: user_ok_def room_ok_def event_ok_def user_id_parse_Inr room_id_parse_Inr event_id_parse_Inr)

lemma parse_as_str:
  "user_id_parse s = Inr u \<Longrightarrow> user_as_str u = s" "room_id_parse s = Inr r \<Longrightarrow> room_as_str r = s"
  "event_id_parse s = Inr e \<Longrightarrow> event_as_str e = s"
  by (auto simp: user_id_parse_Inr room_id_parse_Inr event_id_parse_Inr)

subsection \<open>Room versions (room_version.rs)\<close>

datatype room_version = RoomVersion u8

definition MAX_SUPPORTED :: u8 where
  "MAX_SUPPORTED = 12"

definition room_version_parse :: "string \<Rightarrow> room_version option" where
  "room_version_parse s =
     (case parse_uint 255 s of
        None \<Rightarrow> None
      | Some v \<Rightarrow>
          if 1 \<le> (word_of_nat v :: u8) \<and> (word_of_nat v :: u8) \<le> MAX_SUPPORTED
          then Some (RoomVersion (word_of_nat v)) else None)"

fun room_version_number :: "room_version \<Rightarrow> u8" where
  "room_version_number (RoomVersion v) = v"

definition room_version_as_string :: "room_version \<Rightarrow> string" where
  "room_version_as_string v = dec (unat (room_version_number v))"

definition room_version_is_supported :: "string \<Rightarrow> bool" where
  "room_version_is_supported version \<longleftrightarrow> room_version_parse version \<noteq> None"

lemma room_version_roundtrip:
  assumes "room_version_parse s = Some v"
  shows "room_version_parse (room_version_as_string v) = Some v"
proof -
  have u: "unat (w :: u8) \<le> 255" for w
    using unsigned_less [of w, where ?'a = nat] by simp
  from assms obtain w where "v = RoomVersion w" "1 \<le> w" "w \<le> MAX_SUPPORTED"
    by (auto simp: room_version_parse_def split: option.splits if_splits)
  then show ?thesis
    by (simp add: room_version_parse_def room_version_as_string_def u)
qed

subsection \<open>Event types (events.rs)\<close>

definition ROOM_CREATE :: string where "ROOM_CREATE = ''m.room.create''"
definition ROOM_MEMBER :: string where "ROOM_MEMBER = ''m.room.member''"
definition ROOM_POWER_LEVELS :: string where "ROOM_POWER_LEVELS = ''m.room.power_levels''"
definition ROOM_JOIN_RULES :: string where "ROOM_JOIN_RULES = ''m.room.join_rules''"
definition ROOM_REDACTION :: string where "ROOM_REDACTION = ''m.room.redaction''"
definition ROOM_THIRD_PARTY_INVITE :: string where "ROOM_THIRD_PARTY_INVITE = ''m.room.third_party_invite''"

lemmas event_type_defs = ROOM_CREATE_def ROOM_MEMBER_def ROOM_POWER_LEVELS_def ROOM_JOIN_RULES_def
  ROOM_REDACTION_def ROOM_THIRD_PARTY_INVITE_def

lemma event_types_distinct [simp]:
  "ROOM_CREATE \<noteq> ROOM_MEMBER" "ROOM_CREATE \<noteq> ROOM_POWER_LEVELS" "ROOM_CREATE \<noteq> ROOM_JOIN_RULES"
  "ROOM_CREATE \<noteq> ROOM_REDACTION" "ROOM_CREATE \<noteq> ROOM_THIRD_PARTY_INVITE"
  "ROOM_MEMBER \<noteq> ROOM_CREATE" "ROOM_MEMBER \<noteq> ROOM_POWER_LEVELS" "ROOM_MEMBER \<noteq> ROOM_JOIN_RULES"
  "ROOM_MEMBER \<noteq> ROOM_REDACTION" "ROOM_MEMBER \<noteq> ROOM_THIRD_PARTY_INVITE"
  "ROOM_POWER_LEVELS \<noteq> ROOM_CREATE" "ROOM_POWER_LEVELS \<noteq> ROOM_MEMBER" "ROOM_POWER_LEVELS \<noteq> ROOM_JOIN_RULES"
  "ROOM_POWER_LEVELS \<noteq> ROOM_REDACTION" "ROOM_POWER_LEVELS \<noteq> ROOM_THIRD_PARTY_INVITE"
  "ROOM_JOIN_RULES \<noteq> ROOM_CREATE" "ROOM_JOIN_RULES \<noteq> ROOM_MEMBER" "ROOM_JOIN_RULES \<noteq> ROOM_POWER_LEVELS"
  "ROOM_JOIN_RULES \<noteq> ROOM_REDACTION" "ROOM_JOIN_RULES \<noteq> ROOM_THIRD_PARTY_INVITE"
  "ROOM_REDACTION \<noteq> ROOM_CREATE" "ROOM_REDACTION \<noteq> ROOM_MEMBER" "ROOM_REDACTION \<noteq> ROOM_POWER_LEVELS"
  "ROOM_REDACTION \<noteq> ROOM_JOIN_RULES" "ROOM_REDACTION \<noteq> ROOM_THIRD_PARTY_INVITE"
  "ROOM_THIRD_PARTY_INVITE \<noteq> ROOM_CREATE" "ROOM_THIRD_PARTY_INVITE \<noteq> ROOM_MEMBER"
  "ROOM_THIRD_PARTY_INVITE \<noteq> ROOM_POWER_LEVELS" "ROOM_THIRD_PARTY_INVITE \<noteq> ROOM_JOIN_RULES"
  "ROOM_THIRD_PARTY_INVITE \<noteq> ROOM_REDACTION"
  by (simp_all add: event_type_defs)

end
