(* ===== verification/Redaction.thy ===== *)
theory Redaction
  imports Json Ids
begin

section \<open>Event redaction (gm-api, redaction.rs)\<close>

text \<open>
  Redaction keeps the listed top-level keys of an event object and, of its content, the keys its type
  preserves at the room version.  The copying loops insert into an ordered map, so a redacted
  event is well-formed whatever the order of the key lists; \<open>map_of_keep\<close> says what they keep.
\<close>

definition PRESERVED_TOP_KEYS :: "string list" where
  "PRESERVED_TOP_KEYS =
     [''event_id'', ''type'', ''room_id'', ''sender'', ''state_key'', ''content'', ''hashes'', ''signatures'',
      ''depth'', ''prev_events'', ''prev_state'', ''auth_events'', ''origin'', ''origin_server_ts'', ''membership'']"

text \<open>The loop over a key list: copy the keys that are present.\<close>

definition keep :: "string list \<Rightarrow> (string, json) btree \<Rightarrow> (string, json) btree" where
  "keep ks m = fold (\<lambda>key out. case map_of m key of Some v \<Rightarrow> bt_insert key v out | None \<Rightarrow> out) ks []"

definition allowed_keys :: "string \<Rightarrow> u8 \<Rightarrow> string list" where
  "allowed_keys kind room_version =
     (if kind = ROOM_MEMBER then [''membership'', ''join_authorised_via_users_server'']
      else if kind = ROOM_CREATE then [''creator'']
      else if kind = ROOM_JOIN_RULES \<and> 8 \<le> room_version then [''join_rule'', ''allow'']
      else if kind = ROOM_JOIN_RULES then [''join_rule'']
      else if kind = ROOM_POWER_LEVELS then
        [''ban'', ''events'', ''events_default'', ''kick'', ''redact'', ''state_default'', ''users'', ''users_default'',
         ''invite'', ''notifications'']
      else if kind = ''m.room.history_visibility'' then [''history_visibility'']
      else if kind = ROOM_REDACTION \<and> 11 \<le> room_version then [''redacts'']
      else if kind = ''m.room.aliases'' \<and> room_version < 6 then [''aliases'']
      else [])"

definition redacted_content :: "string \<Rightarrow> json option \<Rightarrow> u8 \<Rightarrow> (string, json) btree" where
  "redacted_content kind content room_version =
     (case Option.bind content as_object of
        None \<Rightarrow> []
      | Some content \<Rightarrow>
          if kind = ROOM_CREATE \<and> 11 \<le> room_version then content
          else keep (allowed_keys kind room_version) content)"

definition event_kind :: "(string, json) btree \<Rightarrow> string" where
  "event_kind obj = (case Option.bind (map_of obj ''type'') as_str of Some kind \<Rightarrow> kind | None \<Rightarrow> [])"

definition redact :: "json \<Rightarrow> u8 \<Rightarrow> json" where
  "redact event room_version =
     (case as_object event of
        None \<Rightarrow> event
      | Some obj \<Rightarrow>
          JObject (bt_insert ''content''
            (JObject (redacted_content (event_kind obj) (map_of obj ''content'') room_version))
            (keep PRESERVED_TOP_KEYS obj)))"

subsection \<open>What is kept\<close>

lemma map_of_keep: "map_of (keep ks m) k = (if k \<in> set ks then map_of m k else None)"
proof -
  have "map_of (fold (\<lambda>key out. case map_of m key of Some v \<Rightarrow> bt_insert key v out | None \<Rightarrow> out) ks out) k =
      (if k \<in> set ks \<and> map_of m k \<noteq> None then map_of m k else map_of out k)" for out
    by (induction ks arbitrary: out) (auto split: option.splits)
  from this [of "[]"] show ?thesis by (auto simp: keep_def)
qed

lemma bt_ok_keep [simp]: "bt_ok (keep ks m)"
proof -
  have "bt_ok out \<Longrightarrow> bt_ok (fold (\<lambda>key out. case map_of m key of Some v \<Rightarrow> bt_insert key v out | None \<Rightarrow> out) ks out)" for out
    by (induction ks arbitrary: out) (auto split: option.splits)
  then show ?thesis by (simp add: keep_def)
qed

lemma set_keep: "(k, v) \<in> set (keep ks m) \<Longrightarrow> k \<in> set ks \<and> map_of m k = Some v"
proof -
  assume "(k, v) \<in> set (keep ks m)"
  then have "map_of (keep ks m) k = Some v"
    using bt_ok_distinct [OF bt_ok_keep, of ks m] by simp
  then show ?thesis by (auto simp: map_of_keep split: if_splits)
qed

lemma keep_keep [simp]: "keep ks (keep ks m) = keep ks m"
  by (rule bt_ext) (auto simp: map_of_keep)

lemma keep_Nil [simp]: "keep ks [] = []"
proof -
  have "map_of (keep ks []) = Map.empty" by (rule ext) (simp add: map_of_keep)
  then show ?thesis by simp
qed

lemma redacted_content_idem:
  "redacted_content kind (Some (JObject (redacted_content kind c v))) v = redacted_content kind c v"
  by (auto simp: redacted_content_def split: option.splits bind_splits)

lemma redact_object:
  "redact (JObject obj) v = JObject (bt_insert ''content'' (JObject (redacted_content (event_kind obj) (map_of obj ''content'') v))
     (keep PRESERVED_TOP_KEYS obj))"
  by (simp add: redact_def)

lemma event_kind_redact:
  "event_kind (bt_insert ''content'' c (keep PRESERVED_TOP_KEYS obj)) = event_kind obj"
  by (simp add: event_kind_def map_of_keep PRESERVED_TOP_KEYS_def)

lemma redact_redact: "redact (redact event v) v = redact event v"
proof (cases event)
  case (JObject obj)
  let ?c = "redacted_content (event_kind obj) (map_of obj ''content'') v"
  let ?r = "bt_insert ''content'' (JObject ?c) (keep PRESERVED_TOP_KEYS obj)"
  have "redact (JObject ?r) v = JObject (bt_insert ''content'' (JObject ?c) (keep PRESERVED_TOP_KEYS ?r))"
    unfolding redact_object event_kind_redact by (simp add: redacted_content_idem)
  also have "bt_insert ''content'' (JObject ?c) (keep PRESERVED_TOP_KEYS ?r) = ?r"
    by (rule bt_ext) (auto simp: map_of_keep)
  finally show ?thesis by (simp add: JObject redact_object)
qed (simp_all add: redact_def)

lemma map_of_redact:
  "as_object (redact (JObject obj) v) = Some r \<Longrightarrow> k \<noteq> ''content'' \<Longrightarrow>
   map_of r k = (if k \<in> set PRESERVED_TOP_KEYS then map_of obj k else None)"
  by (auto simp: redact_object map_of_keep)

subsection \<open>Properties\<close>

text \<open>Redaction is idempotent, keeps the protocol-critical keys of the event unchanged and keeps no
  content key but those its type preserves at the room version (all of them for a create event
  from version 11).\<close>

theorem redaction_keeps_exactly:
  "redact (redact event v) v = redact event v \<and>
   (event = JObject obj \<longrightarrow> (\<exists>r c. redact event v = JObject r \<and> map_of r ''content'' = Some (JObject c) \<and>
      (\<forall>k. k \<noteq> ''content'' \<longrightarrow> map_of r k = (if k \<in> set PRESERVED_TOP_KEYS then map_of obj k else None)) \<and>
      (\<forall>content. map_of obj ''content'' = Some (JObject content) \<longrightarrow>
         map_of c = (if event_kind obj = ROOM_CREATE \<and> 11 \<le> v then map_of content
                     else map_of content |` set (allowed_keys (event_kind obj) v)))))"
  by (auto simp: redact_redact redact_object map_of_keep redacted_content_def restrict_map_def intro!: ext)

theorem redaction_keeps_exactly_witness:
  "redact (redact (JObject [(''content'', JObject [(''body'', JString ''x''), (''membership'', JString ''join'')]), (''type'', JString ROOM_MEMBER)]) 12) 12 =
     JObject [(''content'', JObject [(''membership'', JString ''join'')]), (''type'', JString ROOM_MEMBER)]"
  unfolding redaction_keeps_exactly [THEN conjunct1]
  by (simp add: redact_object keep_def PRESERVED_TOP_KEYS_def redacted_content_def event_kind_def allowed_keys_def)

end
