(* ===== verification/Ed25519.thy ===== *)
theory Ed25519
  imports Hashing Utf8
begin

section \<open>SHA-512, the field and group of Ed25519, signatures and base64 (gm-util, ed25519.rs)\<close>

text \<open>
  Arrays are lists: four little-endian 64-bit limbs for a field element or a scalar, bytes for
  keys and signatures.  The 128-bit intermediates are 128-bit words (signed ones, in the
  subtraction, integers).  The loops over limbs are recursions on the lists.  The lemmas show
  that the limb routines compute what they name on the numbers they stand for, so that no carry
  is lost and no index leaves an array, and that base64 decoding inverts encoding.
\<close>

type_synonym u128 = "128 word"

subsection \<open>SHA-512\<close>

definition SHA512_K :: "u64 list" where
  "SHA512_K = table_rows [
    0x428a2f98d728ae227137449123ef65cdb5c0fbcfec4d3b2fe9b5dba58189dbbc,
    0x3956c25bf348b53859f111f1b605d019923f82a4af194f9bab1c5ed5da6d8118,
    0xd807aa98a303024212835b0145706fbe243185be4ee4b28c550c7dc3d5ffb4e2,
    0x72be5d74f27b896f80deb1fe3b1696b19bdc06a725c71235c19bf174cf692694,
    0xe49b69c19ef14ad2efbe4786384f25e30fc19dc68b8cd5b5240ca1cc77ac9c65,
    0x2de92c6f592b02754a7484aa6ea6e4835cb0a9dcbd41fbd476f988da831153b5,
    0x983e5152ee66dfaba831c66d2db43210b00327c898fb213fbf597fc7beef0ee4,
    0xc6e00bf33da88fc2d5a79147930aa72506ca6351e003826f142929670a0e6e70,
    0x27b70a8546d22ffc2e1b21385c26c9264d2c6dfc5ac42aed53380d139d95b3df,
    0x650a73548baf63de766a0abb3c77b2a881c2c92e47edaee692722c851482353b,
    0xa2bfe8a14cf10364a81a664bbc423001c24b8b70d0f89791c76c51a30654be30,
    0xd192e819d6ef5218d69906245565a910f40e35855771202a106aa07032bbd1b8,
    0x19a4c116b8d2d0c81e376c085141ab532748774cdf8eeb9934b0bcb5e19b48a8,
    0x391c0cb3c5c95a634ed8aa4ae3418acb5b9cca4f7763e373682e6ff3d6b2b8a3,
    0x748f82ee5defb2fc78a5636f43172f6084c87814a1f0ab728cc702081a6439ec,
    0x90befffa23631e28a4506cebde82bde9bef9a3f7b2c67915c67178f2e372532b,
    0xca273eceea26619cd186b8c721c0c207eada7dd6cde0eb1ef57d4f7fee6ed178,
    0x06f067aa72176fba0a637dc5a2c898a6113f9804bef90dae1b710b35131c471b,
    0x28db77f523047d8432caab7b40c724933c9ebe0a15c9bebc431d67c49c100d4c,
    0x4cc5d4becb3e42b6597f299cfc657e2a5fcb6fab3ad6faec6c44198c4a475817]"

definition sha512_init :: "u64 list" where
  "sha512_init = [0x6a09e667f3bcc908, 0xbb67ae8584caa73b, 0x3c6ef372fe94f82b, 0xa54ff53a5f1d36f1,
     0x510e527fade682d1, 0x9b05688c2b3e6c1f, 0x1f83d9abfb41bd6b, 0x5be0cd19137e2179]"

definition sha512_pad :: "bytes \<Rightarrow> bytes" where
  "sha512_pad msg = pad_zeros 128 112 (msg @ [0x80]) @ be_bytes 16 (unat ((word_of_nat (length msg) :: u128) * 8))"

definition sha512_schedule_word :: "u64 list \<Rightarrow> nat \<Rightarrow> u64" where
  "sha512_schedule_word w i =
     (let s0 = word_rotr 1 (w ! (i - 15)) XOR word_rotr 8 (w ! (i - 15)) XOR drop_bit 7 (w ! (i - 15));
          s1 = word_rotr 19 (w ! (i - 2)) XOR word_rotr 61 (w ! (i - 2)) XOR drop_bit 6 (w ! (i - 2))
      in w ! (i - 16) + s0 + w ! (i - 7) + s1)"

definition sha512_schedule :: "bytes \<Rightarrow> u64 list" where
  "sha512_schedule block =
     fold (\<lambda>i w. w @ [sha512_schedule_word w i]) [16..<80]
       (map (\<lambda>b. word_of_nat (be_value b)) (chunks_exact 8 block))"

type_synonym sha512_state = "u64 \<times> u64 \<times> u64 \<times> u64 \<times> u64 \<times> u64 \<times> u64 \<times> u64"

fun sha512_round :: "u64 \<times> u64 \<Rightarrow> sha512_state \<Rightarrow> sha512_state" where
  "sha512_round (k, w) (a, b, c, d, e, f, g, hh) =
     (let s1 = word_rotr 14 e XOR word_rotr 18 e XOR word_rotr 41 e;
          ch = (e AND f) XOR (NOT e AND g);
          t1 = hh + s1 + ch + k + w;
          s0 = word_rotr 28 a XOR word_rotr 34 a XOR word_rotr 39 a;
          maj = (a AND b) XOR (a AND c) XOR (b AND c);
          t2 = s0 + maj
      in (t1 + t2, a, b, c, d + t1, e, f, g))"

definition sha512_block :: "bytes \<Rightarrow> u64 list \<Rightarrow> u64 list" where
  "sha512_block block h =
     (case fold sha512_round (zip SHA512_K (sha512_schedule block))
             (h ! 0, h ! 1, h ! 2, h ! 3, h ! 4, h ! 5, h ! 6, h ! 7) of
        (a, b, c, d, e, f, g, hh) \<Rightarrow> map (\<lambda>(hi, v). hi + v) (zip h [a, b, c, d, e, f, g, hh]))"

definition sha512 :: "bytes \<Rightarrow> bytes" where
  "sha512 msg =
     concat (map (\<lambda>w. be_bytes 8 (unat w)) (fold sha512_block (chunks_exact 128 (sha512_pad msg)) sha512_init))"

subsection \<open>Limb arithmetic\<close>

fun add_loop :: "u64 list \<Rightarrow> u64 list \<Rightarrow> u128 \<Rightarrow> u64 list \<times> u128" where
  "add_loop (a # as) (b # bs) carry =
     (let s = ucast a + ucast b + carry;
          (r, c) = add_loop as bs (drop_bit 64 s)
      in (ucast s # r, c))"
| "add_loop _ _ carry = ([], carry)"

definition add_limbs :: "u64 list \<Rightarrow> u64 list \<Rightarrow> u64 list \<times> u64" where
  "add_limbs a b = (let (r, carry) = add_loop a b 0 in (r, ucast carry))"

definition add_small :: "u64 list \<Rightarrow> u64 \<Rightarrow> u64 list" where
  "add_small a n = fst (add_limbs a [n, 0, 0, 0])"

fun sub_loop :: "u64 list \<Rightarrow> u64 list \<Rightarrow> int \<Rightarrow> u64 list \<times> int" where
  "sub_loop (a # as) (b # bs) borrow =
     (let d = uint a - uint b - borrow in
      if d < 0 then (let (r, c) = sub_loop as bs 1 in (word_of_int (d + 2 ^ 64) # r, c))
      else (let (r, c) = sub_loop as bs 0 in (word_of_int d # r, c)))"
| "sub_loop _ _ borrow = ([], borrow)"

definition sub_limbs :: "u64 list \<Rightarrow> u64 list \<Rightarrow> u64 list \<times> u64" where
  "sub_limbs a b = (let (r, borrow) = sub_loop a b 0 in (r, word_of_int borrow))"

text \<open>
  \<open>mul_wide\<close>: row \<open>i\<close> works on \<open>out[i..]\<close>.  In \<open>carry_loop\<close> an empty rest with a carry left is
  the out-of-bounds index of the \<open>while\<close>; \<open>mul_wide_value\<close> shows that no carry is ever lost.
\<close>

fun carry_loop :: "u64 list \<Rightarrow> u128 \<Rightarrow> u64 list" where
  "carry_loop [] carry = []"
| "carry_loop (w # ws) carry =
     (if carry = 0 then w # ws
      else (let cur = ucast w + carry in ucast cur # carry_loop ws (drop_bit 64 cur)))"

fun mul_row :: "u64 \<Rightarrow> u64 list \<Rightarrow> u64 list \<Rightarrow> u128 \<Rightarrow> u64 list" where
  "mul_row a (b # bs) (w # ws) carry =
     (let cur = ucast w + ucast a * ucast b + carry in ucast cur # mul_row a bs ws (drop_bit 64 cur))"
| "mul_row a _ ws carry = carry_loop ws carry"

fun mul_loop :: "u64 list \<Rightarrow> u64 list \<Rightarrow> u64 list \<Rightarrow> u64 list" where
  "mul_loop [] bs out = out"
| "mul_loop (a # as) bs out =
     (case mul_row a bs out 0 of [] \<Rightarrow> [] | w # ws \<Rightarrow> w # mul_loop as bs ws)"

definition mul_wide :: "u64 list \<Rightarrow> u64 list \<Rightarrow> u64 list" where
  "mul_wide a b = mul_loop a b (replicate 8 0)"

fun mul38_loop :: "u64 list \<Rightarrow> u64 list \<Rightarrow> u128 \<Rightarrow> u64 list \<times> u128" where
  "mul38_loop (h # hs) (b # bs) carry =
     (let cur = ucast b + ucast h * 38 + carry;
          (r, c) = mul38_loop hs bs (drop_bit 64 cur)
      in (ucast cur # r, c))"
| "mul38_loop _ _ carry = ([], carry)"

definition mul38_add :: "u64 list \<Rightarrow> u64 list \<Rightarrow> u64 list \<times> u64" where
  "mul38_add hi base = (let (r, carry) = mul38_loop hi base 0 in (r, ucast carry))"

text \<open>\<open>less_than\<close> compares from the most significant limb down.\<close>

fun less_from_top :: "(u64 \<times> u64) list \<Rightarrow> bool" where
  "less_from_top [] = False"
| "less_from_top ((x, y) # ps) = (if x \<noteq> y then x < y else less_from_top ps)"

definition less_than :: "u64 list \<Rightarrow> u64 list \<Rightarrow> bool" where
  "less_than a b = less_from_top (rev (zip a b))"

definition field_P :: "u64 list" where
  "field_P = [0xffffffffffffffed, 0xffffffffffffffff, 0xffffffffffffffff, 0x7fffffffffffffff]"

definition cond_sub_p :: "u64 list \<Rightarrow> u64 list" where
  "cond_sub_p v = (if less_than v field_P then v else fst (sub_limbs v field_P))"

subsection \<open>The numbers behind the limbs\<close>

fun limbs_value :: "u64 list \<Rightarrow> nat" where
  "limbs_value [] = 0"
| "limbs_value (w # ws) = unat w + 2 ^ 64 * limbs_value ws"

lemma unat_u64_bound: "unat (w :: u64) < 2 ^ 64"
  using unsigned_less [of w, where ?'a = nat] by simp

lemma limbs_value_less: "limbs_value ws < 2 ^ (64 * length ws)"
proof (induction ws)
  case (Cons w ws)
  have "unat w + 2 ^ 64 * limbs_value ws < 2 ^ 64 * Suc (limbs_value ws)"
    using unat_u64_bound [of w] by simp
  also have "\<dots> \<le> 2 ^ 64 * 2 ^ (64 * length ws)"
    using Cons by (intro mult_left_mono) simp_all
  finally show ?case by (simp add: power_add)
qed simp

lemma digits_inj:
  fixes a b x y N :: nat
  assumes "a + N * x = b + N * y" "a < N" "b < N"
  shows "a = b \<and> x = y"
proof -
  have "(a + N * x) mod N = (b + N * y) mod N" "(a + N * x) div N = (b + N * y) div N"
    using assms(1) by simp_all
  with assms(2,3) show ?thesis by simp
qed

lemma limbs_value_inj: "length a = length b \<Longrightarrow> limbs_value a = limbs_value b \<Longrightarrow> a = b"
proof (induction a b rule: list_induct2)
  case (Cons x xs y ys)
  have "unat x = unat y \<and> limbs_value xs = limbs_value ys"
    using Cons.prems by (intro digits_inj [OF _ unat_u64_bound unat_u64_bound]) simp
  with Cons show ?case by (simp add: word_unat_eq_iff)
qed simp

lemma unat_split_128: "unat (ucast x :: u64) + 2 ^ 64 * unat (drop_bit 64 x) = unat (x :: u128)"
proof -
  have "unat (ucast x :: u64) = unat x mod 2 ^ 64"
    by (simp add: unsigned_ucast_eq take_bit_eq_mod)
  moreover have "unat (drop_bit 64 x) = unat x div 2 ^ 64"
    unfolding unat_drop_bit_eq by (rule drop_bit_eq_div)
  ultimately show ?thesis by simp
qed

lemma unat_drop_64: "unat (drop_bit 64 (x :: u128)) < 2 ^ 64"
proof -
  have "unat x < 2 ^ 128" using unsigned_less [of x, where ?'a = nat] by simp
  with unat_split_128 [of x] have "2 ^ 64 * unat (drop_bit 64 x) < 2 ^ 64 * 2 ^ 64" by simp
  then show ?thesis by simp
qed

lemma unat_ucast_128 [simp]: "unat (ucast (w :: u64) :: u128) = unat w"
  by (simp add: unsigned_ucast_eq take_bit_nat_eq_self unat_u64_bound less_trans [OF unat_u64_bound])

lemma unat_ucast_64: "unat (c :: u128) < 2 ^ 64 \<Longrightarrow> unat (ucast c :: u64) = unat c"
  by (simp add: unsigned_ucast_eq take_bit_nat_eq_self)

text \<open>A limb, a 64-bit product and a carry fit in 128 bits.\<close>

lemma unat_muladd:
  assumes "unat carry < 2 ^ 64"
  shows "unat (ucast (w :: u64) + ucast (a :: u64) * ucast (b :: u64) + carry :: u128) = unat w + unat a * unat b + unat carry"
proof -
  let ?N = "2 ^ 64 :: nat"
  have "unat a * unat b \<le> (?N - 1) * (?N - 1)"
    using unat_u64_bound [of a] unat_u64_bound [of b] by (intro mult_le_mono) simp_all
  then have "unat w + unat a * unat b + unat carry < 2 ^ 128"
    using unat_u64_bound [of w] assms by simp
  moreover have "unat (ucast w + ucast a * ucast b + carry :: u128) = (unat w + unat a * unat b + unat carry) mod 2 ^ 128"
    by (simp add: unat_word_ariths mod_simps)
  ultimately show ?thesis by simp
qed

lemma unat_add3:
  assumes "unat carry < 2 ^ 64"
  shows "unat (ucast (a :: u64) + ucast (b :: u64) + carry :: u128) = unat a + unat b + unat carry"
  using unat_muladd [OF assms, of a b 1] by (simp add: mult.commute)

lemma add_loop_value:
  "length a = length b \<Longrightarrow> unat carry < 2 ^ 64 \<Longrightarrow> add_loop a b carry = (r, c) \<Longrightarrow>
   length r = length a \<and> unat c < 2 ^ 64 \<and>
   limbs_value r + 2 ^ (64 * length a) * unat c = limbs_value a + limbs_value b + unat carry"
proof (induction a b arbitrary: carry r c rule: list_induct2)
  case (Cons x xs y ys)
  define s where "s = ucast x + ucast y + carry"
  obtain r' where r': "add_loop xs ys (drop_bit 64 s) = (r', c)" "r = ucast s # r'"
    using Cons.prems(2) by (auto simp: s_def Let_def split: prod.splits)
  from Cons.IH [OF unat_drop_64 r'(1)]
  have "length r' = length xs" "unat c < 2 ^ 64"
    "limbs_value r' + 2 ^ (64 * length xs) * unat c = limbs_value xs + limbs_value ys + unat (drop_bit 64 s)" by auto
  moreover have "unat (ucast s :: u64) + 2 ^ 64 * unat (drop_bit 64 s) = unat x + unat y + unat carry"
    using unat_split_128 [of s] unat_add3 [OF Cons.prems(1)] by (simp add: s_def)
  ultimately show ?case using r'(2) by (simp add: power_add algebra_simps)
qed simp

lemma add_limbs_value:
  assumes "length a = length b" "add_limbs a b = (r, c)"
  shows "length r = length a" "limbs_value r + 2 ^ (64 * length a) * unat c = limbs_value a + limbs_value b"
proof -
  obtain d where d: "add_loop a b 0 = (r, d)" "c = ucast d"
    using assms(2) by (auto simp: add_limbs_def Let_def split: prod.splits)
  from add_loop_value [OF assms(1) _ d(1)] d(2)
  show "length r = length a" "limbs_value r + 2 ^ (64 * length a) * unat c = limbs_value a + limbs_value b"
    by (simp_all add: unat_ucast_64)
qed

lemma sub_loop_value:
  "length a = length b \<Longrightarrow> borrow \<in> {0, 1} \<Longrightarrow> sub_loop a b borrow = (r, c) \<Longrightarrow>
   length r = length a \<and> c \<in> {0, 1} \<and>
   int (limbs_value r) = int (limbs_value a) - int (limbs_value b) - borrow + 2 ^ (64 * length a) * c"
proof (induction a b arbitrary: borrow r c rule: list_induct2)
  case (Cons x xs y ys)
  define d where "d = uint x - uint y - borrow"
  have bounds: "0 \<le> uint x" "uint x < 2 ^ 64" "0 \<le> uint y" "uint y < 2 ^ 64"
    using unsigned_less [of x, where ?'a = int] unsigned_less [of y, where ?'a = int] by simp_all
  then have d: "- (2 ^ 64) \<le> d" "d < 2 ^ 64"
    using Cons.prems(1) unfolding d_def by (elim insertE emptyE; linarith)+
  define w b' where "w = (if d < 0 then d + 2 ^ 64 else d)" and "b' = (if d < 0 then 1 else 0 :: int)"
  obtain r' where r': "sub_loop xs ys b' = (r', c)" "r = word_of_int w # r'"
    using Cons.prems(2) by (auto simp: d_def [symmetric] w_def b'_def Let_def split: prod.splits if_splits)
  have "b' \<in> {0, 1}" by (simp add: b'_def)
  from Cons.IH [OF this r'(1)] have IH: "length r' = length xs" "c \<in> {0, 1}"
    "int (limbs_value r') = int (limbs_value xs) - int (limbs_value ys) - b' + 2 ^ (64 * length xs) * c" by auto
  have "0 \<le> w" "w < 2 ^ 64" using d by (auto simp: w_def)
  then have wv: "int (unat (word_of_int w :: u64)) = w"
    by (simp add: unat_eq_nat_uint uint_word_of_int)
  define N M X Y where "N = (2 :: int) ^ 64" and "M = (2 :: int) ^ (64 * length xs)"
    and "X = int (limbs_value xs)" and "Y = int (limbs_value ys)"
  have "int (limbs_value r) = w + N * int (limbs_value r')"
    using wv r'(2) by (simp add: N_def)
  also have "\<dots> = (uint x - uint y - borrow + N * b') + N * (X - Y - b' + M * c)"
    using IH(3) by (simp add: w_def b'_def d_def N_def M_def X_def Y_def)
  also have "\<dots> = (uint x + N * X) - (uint y + N * Y) - borrow + (N * M) * c"
    by (simp add: algebra_simps)
  also have "uint x + N * X = int (limbs_value (x # xs))"
    by (simp add: N_def X_def)
  also have "uint y + N * Y = int (limbs_value (y # ys))"
    by (simp add: N_def Y_def)
  also have "N * M = 2 ^ (64 * length (x # xs))"
    by (simp add: N_def M_def power_add)
  finally show ?case using IH(1,2) r'(2) by simp
qed simp

lemma sub_limbs_value:
  assumes "length a = length b" "sub_limbs a b = (r, c)"
  shows "length r = length a" "c = 0 \<longleftrightarrow> limbs_value b \<le> limbs_value a"
    and "int (limbs_value r) = int (limbs_value a) - int (limbs_value b) + (if c = 0 then 0 else 2 ^ (64 * length a))"
proof -
  obtain d where d: "sub_loop a b 0 = (r, d)" "c = word_of_int d"
    using assms(2) by (auto simp: sub_limbs_def Let_def split: prod.splits)
  from sub_loop_value [OF assms(1) _ d(1)]
  have l: "length r = length a" "d \<in> {0, 1}"
    "int (limbs_value r) = int (limbs_value a) - int (limbs_value b) + 2 ^ (64 * length a) * d" by auto
  moreover have "int (limbs_value r) < 2 ^ (64 * length a)"
    using limbs_value_less [of r] l(1) by (metis of_nat_less_iff of_nat_numeral of_nat_power)
  moreover have "int (limbs_value a) < 2 ^ (64 * length a)"
    using limbs_value_less [of a] by (metis of_nat_less_iff of_nat_numeral of_nat_power)
  ultimately show "length r = length a" "c = 0 \<longleftrightarrow> limbs_value b \<le> limbs_value a"
    "int (limbs_value r) = int (limbs_value a) - int (limbs_value b) + (if c = 0 then 0 else 2 ^ (64 * length a))"
    using d(2) by auto
qed


text \<open>
  The schoolbook product.  The rows keep the length of the output, and as the result fits the
  output, no carry leaves it.
\<close>

lemma carry_loop_value:
  "unat carry < 2 ^ 64 \<Longrightarrow> limbs_value ws + unat carry < 2 ^ (64 * length ws) \<Longrightarrow>
   length (carry_loop ws carry) = length ws \<and> limbs_value (carry_loop ws carry) = limbs_value ws + unat carry"
proof (induction ws carry rule: carry_loop.induct)
  case (1 carry)
  then show ?case by simp
next
  case (2 w ws carry)
  show ?case
  proof (cases "carry = 0")
    case True
    then show ?thesis by simp
  next
    case False
    define cur where "cur = ucast w + carry"
    have cur: "unat (ucast cur :: u64) + 2 ^ 64 * unat (drop_bit 64 cur) = unat w + unat carry"
      using unat_split_128 [of cur] unat_add3 [OF "2.prems"(1), of w 0] by (simp add: cur_def)
    define N V C where "N = (2 :: nat) ^ 64" and "V = limbs_value ws" and "C = unat (drop_bit 64 cur)"
    have "unat w + N * V + unat carry < N * 2 ^ (64 * length ws)"
      using "2.prems"(2) by (simp add: N_def V_def power_add)
    then have "unat (ucast cur :: u64) + N * (V + C) < N * 2 ^ (64 * length ws)"
      using cur by (simp add: N_def C_def algebra_simps)
    then have "N * (V + C) < N * 2 ^ (64 * length ws)" by linarith
    then have "V + C < 2 ^ (64 * length ws)" by simp
    with "2.IH" [OF False cur_def] unat_drop_64 [of cur] have
      "length (carry_loop ws (drop_bit 64 cur)) = length ws" "limbs_value (carry_loop ws (drop_bit 64 cur)) = V + C"
      by (simp_all add: V_def C_def)
    moreover have "carry_loop (w # ws) carry = ucast cur # carry_loop ws (drop_bit 64 cur)"
      using False by (simp add: cur_def Let_def)
    ultimately show ?thesis
      using cur by (simp add: V_def C_def)
  qed
qed

lemma mul_row_value:
  "unat carry < 2 ^ 64 \<Longrightarrow> length bs \<le> length ws \<Longrightarrow>
   limbs_value ws + unat a * limbs_value bs + unat carry < 2 ^ (64 * length ws) \<Longrightarrow>
   length (mul_row a bs ws carry) = length ws \<and>
   limbs_value (mul_row a bs ws carry) = limbs_value ws + unat a * limbs_value bs + unat carry"
proof (induction a bs ws carry rule: mul_row.induct)
  case (1 a b bs w ws carry)
  define cur where "cur = ucast w + ucast a * ucast b + carry"
  have cur: "unat (ucast cur :: u64) + 2 ^ 64 * unat (drop_bit 64 cur) = unat w + unat a * unat b + unat carry"
    using unat_split_128 [of cur] unat_muladd [OF "1.prems"(1), of w a b] by (simp add: cur_def)
  define N V B C where "N = (2 :: nat) ^ 64" and "V = limbs_value ws" and "B = limbs_value bs"
    and "C = unat (drop_bit 64 cur)"
  have eq: "unat w + N * V + unat a * (unat b + N * B) + unat carry = unat (ucast cur :: u64) + N * (V + unat a * B + C)"
    using cur by (simp add: N_def C_def algebra_simps)
  have "unat w + N * V + unat a * (unat b + N * B) + unat carry < N * 2 ^ (64 * length ws)"
    using "1.prems"(3) by (simp add: N_def V_def B_def power_add)
  then have "N * (V + unat a * B + C) < N * 2 ^ (64 * length ws)" unfolding eq by linarith
  then have "V + unat a * B + C < 2 ^ (64 * length ws)" by simp
  with "1.IH" [OF cur_def] unat_drop_64 [of cur] "1.prems"(2) have
    "length (mul_row a bs ws (drop_bit 64 cur)) = length ws"
    "limbs_value (mul_row a bs ws (drop_bit 64 cur)) = V + unat a * B + C"
    by (simp_all add: V_def B_def C_def)
  with eq show ?case
    by (simp add: cur_def [symmetric] Let_def V_def B_def C_def N_def)
qed (use carry_loop_value in auto)

lemma mul_loop_value:
  "length bs + length as \<le> length out \<Longrightarrow> limbs_value out < 2 ^ (64 * length bs) \<Longrightarrow>
   length (mul_loop as bs out) = length out \<and>
   limbs_value (mul_loop as bs out) = limbs_value out + limbs_value as * limbs_value bs"
proof (induction as arbitrary: out)
  case Nil
  then show ?case by simp
next
  case (Cons a as)
  define row where "row = mul_row a bs out 0"
  define N L B where "N = (2 :: nat) ^ 64" and "L = (2 :: nat) ^ (64 * length bs)" and "B = limbs_value bs"
  have B: "B < L" using limbs_value_less [of bs] by (simp add: B_def L_def)
  have a: "unat a < N" using unat_u64_bound by (simp add: N_def)
  have bound: "limbs_value out + unat a * B < L * N"
  proof -
    have "unat a * B \<le> (N - 1) * B" using a by (intro mult_right_mono) auto
    moreover have "limbs_value out < L" using Cons.prems(2) by (simp add: L_def)
    moreover have "L + (N - 1) * L = L * N" using a by (simp add: algebra_simps)
    moreover have "(N - 1) * B \<le> (N - 1) * L" using B by simp
    ultimately show ?thesis by linarith
  qed
  moreover have "L * N \<le> 2 ^ (64 * length out)"
  proof -
    have "L * N = 2 ^ (64 * length bs + 64)" unfolding L_def N_def by (simp only: power_add)
    also have "\<dots> \<le> 2 ^ (64 * length out)" using Cons.prems(1) by (intro power_increasing) auto
    finally show ?thesis .
  qed
  ultimately have row: "length row = length out" "limbs_value row = limbs_value out + unat a * B"
    using mul_row_value [of 0 bs out a] Cons.prems(1) by (auto simp: row_def B_def)
  have "0 < length out" using Cons.prems(1) by (cases out) auto
  with row(1) obtain w ws where w: "row = w # ws" by (cases row) auto
  have "N * limbs_value ws < N * L"
    using bound row(2) w by (simp add: N_def mult.commute)
  then have "limbs_value ws < 2 ^ (64 * length bs)" by (simp add: L_def)
  moreover have "length ws = length out - 1" using w row(1) by simp
  ultimately have "length (mul_loop as bs ws) = length ws"
    "limbs_value (mul_loop as bs ws) = limbs_value ws + limbs_value as * B"
    using Cons.IH [of ws] Cons.prems(1) by (auto simp: B_def)
  with w row show ?case by (simp add: row_def B_def algebra_simps)
qed

lemma limbs_value_replicate_0 [simp]: "limbs_value (replicate n 0) = 0"
  by (induction n) auto

theorem mul_wide_value:
  assumes "length a = 4" "length b = 4"
  shows "length (mul_wide a b) = 8" "limbs_value (mul_wide a b) = limbs_value a * limbs_value b"
  using mul_loop_value [of b a "replicate 8 0"] assms by (auto simp: mul_wide_def)

lemma mul38_loop_value:
  "length hs = length bs \<Longrightarrow> unat carry < 2 ^ 64 \<Longrightarrow> mul38_loop hs bs carry = (r, c) \<Longrightarrow>
   length r = length bs \<and> unat c < 2 ^ 64 \<and>
   limbs_value r + 2 ^ (64 * length bs) * unat c = limbs_value bs + 38 * limbs_value hs + unat carry"
proof (induction hs bs arbitrary: carry r c rule: list_induct2)
  case (Cons h hs b bs)
  define cur where "cur = ucast b + ucast h * ucast (38 :: u64) + carry"
  have 38: "(ucast (38 :: u64) :: u128) = 38" by simp
  obtain r' where r': "mul38_loop hs bs (drop_bit 64 cur) = (r', c)" "r = ucast cur # r'"
    using Cons.prems(2) by (auto simp: cur_def Let_def split: prod.splits)
  from Cons.IH [OF unat_drop_64 r'(1)]
  have "length r' = length bs" "unat c < 2 ^ 64"
    "limbs_value r' + 2 ^ (64 * length bs) * unat c = limbs_value bs + 38 * limbs_value hs + unat (drop_bit 64 cur)" by auto
  moreover have "unat (ucast cur :: u64) + 2 ^ 64 * unat (drop_bit 64 cur) = unat b + unat h * 38 + unat carry"
    using unat_split_128 [of cur] unat_muladd [OF Cons.prems(1), of b h 38] by (simp add: cur_def)
  ultimately show ?case using r'(2) by (simp add: power_add algebra_simps)
qed simp

lemma mul38_add_value:
  assumes "length hi = length base" "mul38_add hi base = (r, c)"
  shows "length r = length base"
    and "limbs_value r + 2 ^ (64 * length base) * unat c = limbs_value base + 38 * limbs_value hi"
proof -
  obtain d where d: "mul38_loop hi base 0 = (r, d)" "c = ucast d"
    using assms(2) by (auto simp: mul38_add_def Let_def split: prod.splits)
  from mul38_loop_value [OF assms(1) _ d(1)] d(2)
  show "length r = length base"
    "limbs_value r + 2 ^ (64 * length base) * unat c = limbs_value base + 38 * limbs_value hi"
    by (simp_all add: unat_ucast_64)
qed

text \<open>
  \<open>reduce_512\<close> folds the high half until nothing is beyond \<open>2 ^ 256\<close>.  The guard states the array
  lengths, which are part of the type in the source; the loop ends because the value shrinks.
\<close>

function reduce_loop :: "u64 list \<Rightarrow> u64 list \<Rightarrow> u64 list" where
  "reduce_loop lo hi =
     (if length lo = 4 \<and> length hi = 4 then
        (let (acc, over) = mul38_add hi lo in
         if over = 0 then acc else reduce_loop acc [over, 0, 0, 0])
      else lo)"
  by pat_completeness auto

termination
proof (relation "measure (\<lambda>(lo, hi). limbs_value lo + 38 * limbs_value hi)", goal_cases)
  case (2 lo hi acc_over acc over)
  then have "limbs_value acc + 2 ^ 256 * unat over = limbs_value lo + 38 * limbs_value hi"
    using mul38_add_value [of hi lo acc over] by simp
  moreover have "unat over \<noteq> 0" using 2 by (simp add: unat_eq_0)
  ultimately show ?case by simp
qed simp

declare reduce_loop.simps [simp del]

definition reduce_512 :: "u64 list \<Rightarrow> u64 list" where
  "reduce_512 w = cond_sub_p (cond_sub_p (reduce_loop (take 4 w) (drop 4 w)))"

subsection \<open>Field elements\<close>

datatype fe = Fe (fe_limbs: "u64 list")

definition fe_ZERO :: fe where "fe_ZERO = Fe [0, 0, 0, 0]"
definition fe_ONE :: fe where "fe_ONE = Fe [1, 0, 0, 0]"

definition fe_from_u64 :: "u64 \<Rightarrow> fe" where
  "fe_from_u64 n = Fe [n, 0, 0, 0]"

definition fe_canonical :: "fe \<Rightarrow> fe" where
  "fe_canonical x = (let (r, borrow) = sub_limbs (fe_limbs x) field_P in if borrow = 0 then Fe r else x)"

definition fe_add :: "fe \<Rightarrow> fe \<Rightarrow> fe" where
  "fe_add x y =
     (let (r, carry) = add_limbs (fe_limbs x) (fe_limbs y);
          r = (if carry \<noteq> 0 then add_small r 38 else r)
      in fe_canonical (Fe r))"

definition fe_sub :: "fe \<Rightarrow> fe \<Rightarrow> fe" where
  "fe_sub x y =
     (let (r, borrow) = sub_limbs (fe_limbs x) (fe_limbs y) in
      Fe (if borrow \<noteq> 0 then fst (add_limbs r field_P) else r))"

definition fe_mul :: "fe \<Rightarrow> fe \<Rightarrow> fe" where
  "fe_mul x y = fe_canonical (Fe (reduce_512 (mul_wide (fe_limbs x) (fe_limbs y))))"

definition fe_sq :: "fe \<Rightarrow> fe" where
  "fe_sq x = fe_mul x x"

text \<open>The bits of an exponent from the most significant one down.\<close>

definition exp_bits :: "u64 list \<Rightarrow> bool list" where
  "exp_bits exp = concat (map (\<lambda>i. map (\<lambda>b. drop_bit b (exp ! i) AND 1 = 1) (rev [0..<64])) (rev [0..<4]))"

definition fe_pow :: "fe \<Rightarrow> u64 list \<Rightarrow> fe" where
  "fe_pow x exp =
     fold (\<lambda>bit result. let result = fe_sq result in if bit then fe_mul result x else result)
       (exp_bits exp) fe_ONE"

definition fe_invert :: "fe \<Rightarrow> fe" where
  "fe_invert x = fe_pow x [0xffffffffffffffeb, 0xffffffffffffffff, 0xffffffffffffffff, 0x7fffffffffffffff]"

definition fe_is_negative :: "fe \<Rightarrow> bool" where
  "fe_is_negative x \<longleftrightarrow> fe_limbs (fe_canonical x) ! 0 AND 1 = 1"

definition fe_neg :: "fe \<Rightarrow> fe" where
  "fe_neg x = fe_sub fe_ZERO x"

definition limbs_to_le :: "u64 list \<Rightarrow> bytes" where
  "limbs_to_le limbs = concat (map (\<lambda>limb. le_bytes 8 (unat limb)) limbs)"

definition le_to_limbs :: "bytes \<Rightarrow> u64 list" where
  "le_to_limbs b = map (\<lambda>buf. word_of_nat (le_value buf)) (chunks_exact 8 b)"

definition fe_to_bytes :: "fe \<Rightarrow> bytes" where
  "fe_to_bytes x = limbs_to_le (fe_limbs (fe_canonical x))"

definition fe_from_bytes :: "bytes \<Rightarrow> fe" where
  "fe_from_bytes b = (let limbs = le_to_limbs b in Fe (limbs[3 := limbs ! 3 AND 0x7fffffffffffffff]))"

subsection \<open>The group\<close>

record point =
  pt_x :: fe
  pt_y :: fe
  pt_z :: fe
  pt_t :: fe

definition d_const :: fe where
  "d_const = fe_mul (fe_neg (fe_from_u64 121665)) (fe_invert (fe_from_u64 121666))"

definition point_identity :: point where
  "point_identity = \<lparr>pt_x = fe_ZERO, pt_y = fe_ONE, pt_z = fe_ONE, pt_t = fe_ZERO\<rparr>"

definition point_add :: "point \<Rightarrow> point \<Rightarrow> point" where
  "point_add p q =
     (let a = fe_mul (fe_sub (pt_x p) (pt_y p)) (fe_sub (pt_x q) (pt_y q));
          b = fe_mul (fe_add (pt_x p) (pt_y p)) (fe_add (pt_x q) (pt_y q));
          c = fe_mul (fe_mul (fe_mul (pt_t p) (pt_t q)) d_const) (fe_from_u64 2);
          dd = fe_mul (fe_mul (pt_z p) (pt_z q)) (fe_from_u64 2);
          e = fe_sub b a;
          f = fe_sub dd c;
          g = fe_add dd c;
          h = fe_add b a
      in \<lparr>pt_x = fe_mul e f, pt_y = fe_mul g h, pt_z = fe_mul f g, pt_t = fe_mul e h\<rparr>)"

definition point_double :: "point \<Rightarrow> point" where
  "point_double p = point_add p p"

definition scalar_bit :: "bytes \<Rightarrow> nat \<Rightarrow> bool" where
  "scalar_bit bs i \<longleftrightarrow> drop_bit (i mod 8) (bs ! (i div 8)) AND 1 = 1"

definition point_scalar_mul :: "point \<Rightarrow> bytes \<Rightarrow> point" where
  "point_scalar_mul p bs =
     fold (\<lambda>i r. let r = point_double r in if scalar_bit bs i then point_add r p else r)
       (rev [0..<256]) point_identity"

definition point_to_affine :: "point \<Rightarrow> fe \<times> fe" where
  "point_to_affine p = (let zinv = fe_invert (pt_z p) in (fe_mul (pt_x p) zinv, fe_mul (pt_y p) zinv))"

definition encode_y :: "fe \<Rightarrow> bool \<Rightarrow> bytes" where
  "encode_y y x_negative =
     (let out = fe_to_bytes y in if x_negative then out[31 := out ! 31 OR 0x80] else out)"

definition point_encode :: "point \<Rightarrow> bytes" where
  "point_encode p = (let (x, y) = point_to_affine p in encode_y y (fe_is_negative x))"

definition sqrt_m1 :: fe where
  "sqrt_m1 = fe_pow (fe_from_u64 2)
     [0xfffffffffffffffb, 0xffffffffffffffff, 0xffffffffffffffff, 0x1fffffffffffffff]"

definition sqrt_ratio :: "fe \<Rightarrow> fe \<Rightarrow> fe option" where
  "sqrt_ratio u v =
     (let v3 = fe_mul (fe_sq v) v;
          v7 = fe_mul (fe_sq v3) v;
          x = fe_mul (fe_mul (fe_pow (fe_mul u v7)
                [0xfffffffffffffffd, 0xffffffffffffffff, 0xffffffffffffffff, 0x0fffffffffffffff]) u) v3;
          vx2 = fe_mul v (fe_sq x)
      in if fe_canonical (fe_sub vx2 u) = fe_ZERO then Some x
         else if fe_canonical (fe_add vx2 u) = fe_ZERO then Some (fe_mul x sqrt_m1)
         else None)"

definition point_decode :: "bytes \<Rightarrow> point option" where
  "point_decode b =
     (let sign = (drop_bit 7 (b ! 31) AND 1 = 1);
          y = fe_from_bytes b;
          y2 = fe_sq y;
          num = fe_sub y2 fe_ONE;
          den = fe_add (fe_mul d_const y2) fe_ONE
      in case sqrt_ratio num den of
           None \<Rightarrow> None
         | Some x \<Rightarrow>
             (let x = (if fe_is_negative x \<noteq> sign then fe_neg x else x) in
              if x = fe_ZERO \<and> sign then None
              else Some \<lparr>pt_x = x, pt_y = y, pt_z = fe_ONE, pt_t = fe_mul x y\<rparr>))"

text \<open>\<open>Point::base\<close>; the \<open>expect\<close> on the decoded point is \<open>the\<close>.\<close>

definition point_base :: point where
  "point_base = the (point_decode (encode_y (fe_mul (fe_from_u64 4) (fe_invert (fe_from_u64 5))) False))"


subsection \<open>Scalars modulo the group order\<close>

definition scalar_L :: "u64 list" where
  "scalar_L = [0x5812631a5cf5d3ed, 0x14def9dea2f79cd6, 0, 0x1000000000000000]"

fun shl_loop :: "u64 list \<Rightarrow> u64 \<Rightarrow> u64 list \<times> u64" where
  "shl_loop [] carry = ([], carry)"
| "shl_loop (limb # ls) carry =
     (let new_carry = drop_bit 63 limb;
          (r, c) = shl_loop ls new_carry
      in ((push_bit 1 limb OR carry) # r, c))"

definition reduce_step :: "bytes \<Rightarrow> nat \<Rightarrow> u64 list \<Rightarrow> u64 list" where
  "reduce_step bs i r =
     (let (r, carry) = shl_loop r 0;
          bit = drop_bit (i mod 8) (bs ! (i div 8)) AND 1;
          r = r[0 := r ! 0 OR ucast bit]
      in if carry \<noteq> 0 \<or> \<not> less_than r scalar_L then fst (sub_limbs r scalar_L) else r)"

definition reduce_scalar_wide :: "bytes \<Rightarrow> bytes" where
  "reduce_scalar_wide bs = limbs_to_le (fold (reduce_step bs) (rev [0..<512]) [0, 0, 0, 0])"

definition scalar_muladd :: "bytes \<Rightarrow> bytes \<Rightarrow> bytes \<Rightarrow> bytes" where
  "scalar_muladd a b c =
     (let ab = reduce_scalar_wide (limbs_to_le (mul_wide (le_to_limbs a) (le_to_limbs b)));
          (sum, carry) = add_limbs (le_to_limbs ab) (le_to_limbs c)
      in limbs_to_le (if carry \<noteq> 0 \<or> \<not> less_than sum scalar_L then fst (sub_limbs sum scalar_L) else sum))"

definition scalar_is_canonical :: "bytes \<Rightarrow> bool" where
  "scalar_is_canonical s = less_than (le_to_limbs s) scalar_L"

subsection \<open>Signatures\<close>

definition clamp :: "bytes \<Rightarrow> bytes" where
  "clamp a = (let a = a[0 := a ! 0 AND 248]; a = a[31 := a ! 31 AND 127] in a[31 := a ! 31 OR 64])"

definition public_key :: "bytes \<Rightarrow> bytes" where
  "public_key seed = point_encode (point_scalar_mul point_base (clamp (take 32 (sha512 seed))))"

definition sign :: "bytes \<Rightarrow> bytes \<Rightarrow> bytes" where
  "sign seed msg =
     (let h = sha512 seed;
          a = clamp (take 32 h);
          prefix = drop 32 h;
          public = point_encode (point_scalar_mul point_base a);
          r = reduce_scalar_wide (sha512 (prefix @ msg));
          r_point = point_encode (point_scalar_mul point_base r);
          k = reduce_scalar_wide (sha512 (r_point @ public @ msg));
          s = scalar_muladd k a r
      in r_point @ s)"

definition verify :: "bytes \<Rightarrow> bytes \<Rightarrow> bytes \<Rightarrow> bool" where
  "verify public msg sig =
     (let r_enc = take 32 sig; s = drop 32 sig in
      if \<not> scalar_is_canonical s then False
      else (case point_decode public of
              None \<Rightarrow> False
            | Some a_point \<Rightarrow>
                (case point_decode r_enc of
                   None \<Rightarrow> False
                 | Some r_point \<Rightarrow>
                     (let k = reduce_scalar_wide (sha512 (r_enc @ public @ msg));
                          lhs = point_scalar_mul point_base s;
                          rhs = point_add r_point (point_scalar_mul a_point k)
                      in point_encode lhs = point_encode rhs))))"

subsection \<open>Base64 and the string wrappers\<close>

definition B64 :: string where
  "B64 = ''ABCDEFGHIJKLMNOPQRSTUVWXYZabcdefghijklmnopqrstuvwxyz0123456789+/''"

definition base64_encode :: "bytes \<Rightarrow> string" where
  "base64_encode data = concat (map (b64_chunk B64) (chunks 3 data))"

definition b64_val :: "char \<Rightarrow> u32 option" where
  "b64_val c =
     (if 65 \<le> ch c \<and> ch c \<le> 90 then Some (word_of_nat (ch c - 65))
      else if 97 \<le> ch c \<and> ch c \<le> 122 then Some (word_of_nat (ch c - 97 + 26))
      else if 48 \<le> ch c \<and> ch c \<le> 57 then Some (word_of_nat (ch c - 48 + 52))
      else if c = CHR ''+'' then Some 62
      else if c = CHR ''/'' then Some 63
      else None)"

text \<open>The inner loop over one chunk of up to four characters, and the bytes it yields.\<close>

fun b64_collect :: "nat \<Rightarrow> u32 \<Rightarrow> string \<Rightarrow> u32 option" where
  "b64_collect i n [] = Some n"
| "b64_collect i n (c # cs) =
     (case b64_val c of
        None \<Rightarrow> None
      | Some v \<Rightarrow> b64_collect (Suc i) (n OR push_bit (18 - 6 * i) v) cs)"

definition b64_bytes :: "string \<Rightarrow> bytes option" where
  "b64_bytes chunk =
     (case b64_collect 0 0 chunk of
        None \<Rightarrow> None
      | Some n \<Rightarrow>
          Some ([ucast (drop_bit 16 n)] @ (if 2 < length chunk then [ucast (drop_bit 8 n)] else [])
            @ (if 3 < length chunk then [ucast n] else [])))"

fun b64_decode_chunks :: "string list \<Rightarrow> bytes option" where
  "b64_decode_chunks [] = Some []"
| "b64_decode_chunks (c # cs) =
     (case b64_bytes c of
        None \<Rightarrow> None
      | Some bs \<Rightarrow> map_option ((@) bs) (b64_decode_chunks cs))"

definition base64_decode :: "string \<Rightarrow> bytes option" where
  "base64_decode s = b64_decode_chunks (chunks 4 (filter (\<lambda>c. c \<noteq> CHR ''='') s))"

definition b64_to_32 :: "string \<Rightarrow> bytes option" where
  "b64_to_32 s =
     (case base64_decode s of None \<Rightarrow> None | Some v \<Rightarrow> if length v \<noteq> 32 then None else Some v)"

definition seed_from_material :: "string \<Rightarrow> string" where
  "seed_from_material material = base64_encode (take 32 (sha512 (as_bytes material)))"

definition public_key_b64 :: "string \<Rightarrow> string option" where
  "public_key_b64 seed_b64 = map_option (\<lambda>seed. base64_encode (public_key seed)) (b64_to_32 seed_b64)"

definition sign_b64 :: "bytes \<Rightarrow> string \<Rightarrow> string" where
  "sign_b64 msg seed_b64 =
     (case b64_to_32 seed_b64 of Some seed \<Rightarrow> base64_encode (sign seed msg) | None \<Rightarrow> [])"

definition verify_b64 :: "bytes \<Rightarrow> string \<Rightarrow> string \<Rightarrow> bool" where
  "verify_b64 msg sig_b64 public_b64 =
     (case b64_to_32 public_b64 of
        None \<Rightarrow> False
      | Some public \<Rightarrow>
          (case base64_decode sig_b64 of
             None \<Rightarrow> False
           | Some sig_bytes \<Rightarrow> if length sig_bytes \<noteq> 64 then False else verify public msg sig_bytes))"

subsection \<open>The routines compute what they name\<close>

definition prime_P :: nat where
  "prime_P = 2 ^ 255 - 19"

definition order_L :: nat where
  "order_L = 2 ^ 252 + 27742317777372353535851937790883648493"

lemma field_P_value: "length field_P = 4" "limbs_value field_P = prime_P"
  by (simp_all add: field_P_def prime_P_def)

lemma scalar_L_value: "length scalar_L = 4" "limbs_value scalar_L = order_L"
  by (simp_all add: scalar_L_def order_L_def)

lemma limbs_value_snoc: "limbs_value (ws @ [w]) = limbs_value ws + 2 ^ (64 * length ws) * unat w"
  by (induction ws) (simp_all add: power_add algebra_simps)

lemma less_than_value: "length a = length b \<Longrightarrow> less_than a b \<longleftrightarrow> limbs_value a < limbs_value b"
proof (induction a b rule: rev_induct2)
  case (4 x xs y ys)
  then have len: "length xs = length ys" by simp
  define N where "N = (2 :: nat) ^ (64 * length ys)"
  have b: "limbs_value xs < N" "limbs_value ys < N"
    using limbs_value_less [of xs] limbs_value_less [of ys] len by (simp_all add: N_def)
  have l: "less_than (xs @ [x]) (ys @ [y]) = (if x \<noteq> y then x < y else less_than xs ys)"
    using len by (simp add: less_than_def)
  have v: "limbs_value (xs @ [x]) = limbs_value xs + N * unat x" "limbs_value (ys @ [y]) = limbs_value ys + N * unat y"
    using len by (simp_all add: limbs_value_snoc N_def)
  have lt: "limbs_value us + N * unat u < limbs_value vs + N * unat v" if "unat u < unat v" "limbs_value us < N" for u v :: u64 and us vs
  proof -
    have "limbs_value us + N * unat u < N * Suc (unat u)" using that(2) by simp
    also have "\<dots> \<le> N * unat v" using that(1) by (intro mult_le_mono2) simp
    finally show ?thesis by simp
  qed
  show ?case
  proof (cases "x = y")
    case True
    then show ?thesis unfolding l v using 4 len by simp
  next
    case False
    then have "unat x \<noteq> unat y" by (simp add: word_unat_eq_iff)
    then consider "unat x < unat y" | "unat y < unat x" by linarith
    then show ?thesis
    proof cases
      case 1
      with lt [OF 1 b(1), of ys] False show ?thesis unfolding l v by (simp add: word_less_nat_alt)
    next
      case 2
      with lt [OF 2 b(2), of xs] False show ?thesis unfolding l v by (simp add: word_less_nat_alt)
    qed
  qed
qed (simp_all add: less_than_def)

text \<open>Subtraction when it does not borrow.\<close>

lemma sub_limbs_le:
  assumes "length a = length b" "limbs_value b \<le> limbs_value a"
  shows "length (fst (sub_limbs a b)) = length a"
    and "limbs_value (fst (sub_limbs a b)) = limbs_value a - limbs_value b"
    and "snd (sub_limbs a b) = 0"
proof -
  obtain r c where rc: "sub_limbs a b = (r, c)" by (cases "sub_limbs a b")
  from sub_limbs_value [OF assms(1) rc] assms(2) rc
  show "length (fst (sub_limbs a b)) = length a" "limbs_value (fst (sub_limbs a b)) = limbs_value a - limbs_value b"
    "snd (sub_limbs a b) = 0"
    by auto
qed

lemma cond_sub_value:
  assumes "length v = 4"
  shows "length (if less_than v m then v else fst (sub_limbs v m)) = 4 \<or> length m \<noteq> 4"
    and "length m = 4 \<Longrightarrow> limbs_value (if less_than v m then v else fst (sub_limbs v m)) =
      (if limbs_value v < limbs_value m then limbs_value v else limbs_value v - limbs_value m)"
  using sub_limbs_le [of v m] less_than_value [of v m] assms by auto

lemma cond_sub_p_value:
  assumes "length v = 4"
  shows "length (cond_sub_p v) = 4"
    and "limbs_value (cond_sub_p v) = (if limbs_value v < prime_P then limbs_value v else limbs_value v - prime_P)"
  using cond_sub_value [OF assms, of field_P] by (simp_all add: cond_sub_p_def field_P_value)

lemma mod_fold_38: "(a + 38 * b) mod prime_P = (a + 2 ^ 256 * b) mod prime_P"
proof -
  have e: "(2 :: nat) ^ 256 = 38 + 2 * prime_P" by (simp add: prime_P_def)
  have "a + 2 ^ 256 * b = a + 38 * b + prime_P * (2 * b)"
    unfolding e by (simp add: algebra_simps)
  then show ?thesis by (simp only: mod_mult_self2)
qed

lemma reduce_loop_value:
  "length lo = 4 \<Longrightarrow> length hi = 4 \<Longrightarrow>
   length (reduce_loop lo hi) = 4 \<and>
   limbs_value (reduce_loop lo hi) mod prime_P = (limbs_value lo + 2 ^ 256 * limbs_value hi) mod prime_P"
proof (induction lo hi rule: reduce_loop.induct)
  case (1 lo hi)
  obtain acc over where ao: "mul38_add hi lo = (acc, over)" by (cases "mul38_add hi lo")
  from mul38_add_value [OF _ ao] "1.prems" have v: "length acc = 4"
    "limbs_value acc + 2 ^ 256 * unat over = limbs_value lo + 38 * limbs_value hi" by simp_all
  have m: "(limbs_value acc + 2 ^ 256 * unat over) mod prime_P = (limbs_value lo + 2 ^ 256 * limbs_value hi) mod prime_P"
    unfolding v(2) by (rule mod_fold_38)
  show ?case
  proof (cases "over = 0")
    case True
    with m v(1) "1.prems" ao show ?thesis by (simp add: reduce_loop.simps [of lo hi])
  next
    case False
    with "1.IH" [OF _ ao [symmetric] refl False] v(1) "1.prems"
    have "length (reduce_loop acc [over, 0, 0, 0]) = 4"
      "limbs_value (reduce_loop acc [over, 0, 0, 0]) mod prime_P = (limbs_value acc + 2 ^ 256 * unat over) mod prime_P"
      by simp_all
    with m False "1.prems" ao show ?thesis by (simp add: reduce_loop.simps [of lo hi])
  qed
qed

lemma limbs_value_append: "limbs_value (xs @ ys) = limbs_value xs + 2 ^ (64 * length xs) * limbs_value ys"
  by (induction xs) (simp_all add: power_add algebra_simps)

theorem reduce_512_value:
  assumes "length w = 8"
  shows "length (reduce_512 w) = 4" "limbs_value (reduce_512 w) = limbs_value w mod prime_P"
proof -
  define v where "v = reduce_loop (take 4 w) (drop 4 w)"
  from reduce_loop_value [of "take 4 w" "drop 4 w"] assms
  have "length v = 4" "limbs_value v mod prime_P = (limbs_value (take 4 w) + 2 ^ 256 * limbs_value (drop 4 w)) mod prime_P"
    by (simp_all add: v_def)
  moreover have "limbs_value (take 4 w) + 2 ^ 256 * limbs_value (drop 4 w) = limbs_value w"
    using limbs_value_append [of "take 4 w" "drop 4 w"] assms by simp
  ultimately have v: "length v = 4" "limbs_value v mod prime_P = limbs_value w mod prime_P" by simp_all
  have "limbs_value v < 2 * prime_P + 38"
    using limbs_value_less [of v] v(1) by (simp add: prime_P_def)
  moreover have "38 < prime_P" by (simp add: prime_P_def)
  ultimately have "limbs_value (cond_sub_p (cond_sub_p v)) < prime_P \<and>
      limbs_value (cond_sub_p (cond_sub_p v)) mod prime_P = limbs_value v mod prime_P"
    using v(1) by (auto simp: cond_sub_p_value le_mod_geq)
  then have "limbs_value (cond_sub_p (cond_sub_p v)) = limbs_value w mod prime_P"
    using v(2) by (metis mod_less)
  with v show "length (reduce_512 w) = 4" "limbs_value (reduce_512 w) = limbs_value w mod prime_P"
    unfolding reduce_512_def v_def [symmetric] by (simp_all add: cond_sub_p_value(1))
qed

text \<open>A field element is reduced when its number is below the prime.\<close>

definition fe_value :: "fe \<Rightarrow> nat" where
  "fe_value x = limbs_value (fe_limbs x)"

definition fe_ok :: "fe \<Rightarrow> bool" where
  "fe_ok x \<longleftrightarrow> length (fe_limbs x) = 4 \<and> fe_value x < prime_P"

lemma fe_canonical_value:
  assumes "length (fe_limbs x) = 4"
  shows "length (fe_limbs (fe_canonical x)) = 4"
    and "fe_value (fe_canonical x) = (if fe_value x < prime_P then fe_value x else fe_value x - prime_P)"
proof -
  obtain r c where rc: "sub_limbs (fe_limbs x) field_P = (r, c)" by (cases "sub_limbs (fe_limbs x) field_P")
  from sub_limbs_value [OF _ rc] assms rc
  show "length (fe_limbs (fe_canonical x)) = 4"
    "fe_value (fe_canonical x) = (if fe_value x < prime_P then fe_value x else fe_value x - prime_P)"
    by (auto simp: fe_canonical_def fe_value_def field_P_value)
qed

lemma fe_mul_value:
  assumes "length (fe_limbs x) = 4" "length (fe_limbs y) = 4"
  shows "fe_ok (fe_mul x y)" "fe_value (fe_mul x y) = fe_value x * fe_value y mod prime_P"
proof -
  let ?r = "Fe (reduce_512 (mul_wide (fe_limbs x) (fe_limbs y)))"
  have r: "length (fe_limbs ?r) = 4" "fe_value ?r = fe_value x * fe_value y mod prime_P"
    using mul_wide_value [OF assms] by (simp_all add: reduce_512_value fe_value_def)
  moreover have "fe_value ?r < prime_P" unfolding r(2) by (simp add: prime_P_def)
  ultimately show "fe_ok (fe_mul x y)" "fe_value (fe_mul x y) = fe_value x * fe_value y mod prime_P"
    by (simp_all add: fe_mul_def fe_ok_def fe_canonical_value)
qed

lemma fe_add_value:
  assumes "fe_ok x" "fe_ok y"
  shows "fe_ok (fe_add x y)" "fe_value (fe_add x y) = (fe_value x + fe_value y) mod prime_P"
proof -
  obtain r c where rc: "add_limbs (fe_limbs x) (fe_limbs y) = (r, c)" by (cases "add_limbs (fe_limbs x) (fe_limbs y)")
  from add_limbs_value [OF _ rc] assms have v: "length r = 4" "limbs_value r + 2 ^ 256 * unat c = fe_value x + fe_value y"
    by (simp_all add: fe_ok_def fe_value_def)
  moreover have lt: "fe_value x + fe_value y < 2 * prime_P" using assms by (simp add: fe_ok_def)
  ultimately have "2 ^ 256 * unat c < 2 ^ 256" by (simp add: prime_P_def)
  then have "c = 0" by (simp add: unat_eq_0)
  with v have r: "limbs_value r = fe_value x + fe_value y" by simp
  then have "fe_add x y = fe_canonical (Fe r)" using rc \<open>c = 0\<close> by (simp add: fe_add_def)
  with fe_canonical_value [of "Fe r"] v(1) r lt
  show "fe_ok (fe_add x y)" "fe_value (fe_add x y) = (fe_value x + fe_value y) mod prime_P"
    by (auto simp: fe_ok_def fe_value_def le_mod_geq)
qed

lemma fe_sub_value:
  assumes "fe_ok x" "fe_ok y"
  shows "fe_ok (fe_sub x y)" "fe_value (fe_sub x y) = (fe_value x + prime_P - fe_value y) mod prime_P"
proof -
  obtain r c where rc: "sub_limbs (fe_limbs x) (fe_limbs y) = (r, c)" by (cases "sub_limbs (fe_limbs x) (fe_limbs y)")
  from sub_limbs_value [OF _ rc] assms have v: "length r = 4" "c = 0 \<longleftrightarrow> fe_value y \<le> fe_value x"
    "int (limbs_value r) = int (fe_value x) - int (fe_value y) + (if c = 0 then 0 else 2 ^ 256)"
    by (simp_all add: fe_ok_def fe_value_def)
  show "fe_ok (fe_sub x y)" "fe_value (fe_sub x y) = (fe_value x + prime_P - fe_value y) mod prime_P"
  proof -
    have "fe_ok (fe_sub x y) \<and> fe_value (fe_sub x y) = (fe_value x + prime_P - fe_value y) mod prime_P"
    proof (cases "c = 0")
      case True
      then have "limbs_value r = fe_value x - fe_value y" "fe_value y \<le> fe_value x" using v by auto
      moreover from this have "fe_value x + prime_P - fe_value y = (fe_value x - fe_value y) + prime_P" by simp
      ultimately have "(fe_value x + prime_P - fe_value y) mod prime_P = limbs_value r"
        using assms(1) by (simp only: mod_add_self2) (auto simp: fe_ok_def intro!: mod_less less_imp_diff_less)
      with True v(1) rc assms(1) show ?thesis
        using \<open>limbs_value r = _\<close> by (auto simp: fe_sub_def fe_ok_def fe_value_def intro: less_imp_diff_less)
    next
      case False
      then have lt: "fe_value x < fe_value y" using v(2) by simp
      obtain r2 d where rd: "add_limbs r field_P = (r2, d)" by (cases "add_limbs r field_P")
      from add_limbs_value [OF _ rd] v(1) have a: "length r2 = 4"
        "limbs_value r2 + 2 ^ 256 * unat d = limbs_value r + prime_P" by (simp_all add: field_P_value)
      have "int (limbs_value r2) + 2 ^ 256 * int (unat d) = int (fe_value x) + int prime_P - int (fe_value y) + 2 ^ 256"
        using a(2) v(3) False by (simp add: of_nat_eq_iff [symmetric, where ?'a = int] del: of_nat_eq_iff)
      moreover have "int (limbs_value r2) < 2 ^ 256"
        using limbs_value_less [of r2] a(1) by simp
      moreover have "fe_value y < prime_P" "int prime_P < 2 ^ 256" using assms by (simp_all add: fe_ok_def prime_P_def)
      ultimately have "2 ^ 256 * int (unat d) < 2 ^ 256 * 2" "2 ^ 256 * 0 < 2 ^ 256 * int (unat d)"
        using lt by linarith+
      then have "int (unat d) < 2" "0 < int (unat d)" by simp_all
      then have "int (unat d) = 1" by linarith
      with \<open>int (limbs_value r2) + 2 ^ 256 * int (unat d) = _\<close> lt \<open>fe_value y < prime_P\<close>
      have "limbs_value r2 = fe_value x + prime_P - fe_value y" "fe_value x + prime_P - fe_value y < prime_P" by simp_all
      with a(1) rc rd False show ?thesis by (simp add: fe_sub_def fe_ok_def fe_value_def)
    qed
    then show "fe_ok (fe_sub x y)" "fe_value (fe_sub x y) = (fe_value x + prime_P - fe_value y) mod prime_P" by auto
  qed
qed


text \<open>Bytes and limbs stand for the same number.\<close>

lemma le_value_append: "le_value (xs @ ys) = le_value xs + 256 ^ length xs * le_value ys"
  by (induction xs) (simp_all add: algebra_simps)

lemma limbs_to_le_value:
  "length (limbs_to_le ls) = 8 * length ls" "le_value (limbs_to_le ls) = limbs_value ls"
proof -
  have "length (limbs_to_le ls) = 8 * length ls \<and> le_value (limbs_to_le ls) = limbs_value ls"
  proof (induction ls)
    case (Cons w ws)
    have "le_value (le_bytes 8 (unat w)) = unat w"
      using unat_u64_bound [of w] by (intro le_value_le_bytes) simp
    with Cons show ?case by (simp add: limbs_to_le_def le_value_append)
  qed (simp add: limbs_to_le_def)
  then show "length (limbs_to_le ls) = 8 * length ls" "le_value (limbs_to_le ls) = limbs_value ls" by auto
qed

lemma le_to_limbs_value: "length b = 8 * k \<Longrightarrow> length (le_to_limbs b) = k \<and> limbs_value (le_to_limbs b) = le_value b"
proof (induction k arbitrary: b)
  case 0
  then show ?case by (simp add: le_to_limbs_def chunks_exact.simps)
next
  case (Suc k)
  have c: "chunks_exact 8 b = take 8 b # chunks_exact 8 (drop 8 b)"
    using Suc.prems by (simp add: chunks_exact.simps [of 8 b])
  have "le_value (take 8 b) < 256 ^ 8"
    using le_value_less [of "take 8 b"] Suc.prems by simp
  then have "unat (word_of_nat (le_value (take 8 b)) :: u64) = le_value (take 8 b)"
    by (simp add: unat_of_nat)
  moreover have "le_value b = le_value (take 8 b) + 256 ^ 8 * le_value (drop 8 b)"
    using le_value_append [of "take 8 b" "drop 8 b"] Suc.prems by simp
  ultimately show ?case
    using Suc.IH [of "drop 8 b"] Suc.prems by (simp add: le_to_limbs_def c)
qed

text \<open>Shifting left by one bit.\<close>

lemma shl_limb:
  fixes w :: u64
  assumes "carry \<in> {0, 1}"
  shows "unat (push_bit 1 w OR carry) + 2 ^ 64 * unat (drop_bit 63 w) = 2 * unat w + unat carry" "drop_bit 63 w \<in> {0, 1}"
proof -
  have d: "unat (drop_bit 63 w) = unat w div 2 ^ 63"
    unfolding unat_drop_bit_eq by (rule drop_bit_eq_div)
  have lt: "unat w div 2 ^ 63 < 2" using unat_u64_bound [of w] by (intro less_mult_imp_div_less) simp
  then show "drop_bit 63 w \<in> {0, 1}"
    using d by (auto simp: less_2_cases_iff word_unat_eq_iff)
  have "push_bit 1 w OR carry = push_bit 1 w + carry"
  proof (rule disjunctive_add [symmetric])
    fix n
    have "\<not> bit (push_bit 1 w) 0" unfolding bit_push_bit_iff by simp
    moreover have "\<not> bit carry n" if "n \<noteq> 0" using assms that by (auto simp: bit_1_iff)
    ultimately show "\<not> bit (push_bit 1 w) n \<or> \<not> bit carry n" by metis
  qed
  moreover have p: "unat (push_bit 1 w) = 2 * unat w mod 2 ^ 64"
    by (simp add: push_bit_eq_mult unat_word_ariths mult.commute)
  have e: "2 * unat w = 2 * unat w mod 2 ^ 64 + 2 ^ 64 * (unat w div 2 ^ 63)"
  proof -
    have "2 * unat w div (2 * 2 ^ 63) = unat w div 2 ^ 63" by (rule div_mult_mult1) simp
    then show ?thesis using mod_mult_div_eq [of "2 * unat w" "2 ^ 64"] by simp
  qed
  have "2 * unat w mod 2 ^ 64 + unat carry < 2 ^ 64"
  proof -
    have "even (2 * unat w mod 2 ^ 64)" by (simp add: dvd_mod)
    then have "2 * unat w mod 2 ^ 64 \<noteq> 2 ^ 64 - 1" by (auto dest: arg_cong [of _ _ even])
    moreover have "2 * unat w mod 2 ^ 64 < 2 ^ 64" by simp
    ultimately show ?thesis using assms by auto
  qed
  with p have "unat (push_bit 1 w + carry) = 2 * unat w mod 2 ^ 64 + unat carry"
    by (simp add: unat_word_ariths)
  ultimately show "unat (push_bit 1 w OR carry) + 2 ^ 64 * unat (drop_bit 63 w) = 2 * unat w + unat carry"
    using d e by simp
qed

lemma shl_loop_value:
  "carry \<in> {0, 1} \<Longrightarrow> shl_loop ls carry = (r, c) \<Longrightarrow>
   length r = length ls \<and> c \<in> {0, 1} \<and> limbs_value r + 2 ^ (64 * length ls) * unat c = 2 * limbs_value ls + unat carry"
proof (induction ls arbitrary: carry r c)
  case (Cons w ws)
  obtain r' where r': "shl_loop ws (drop_bit 63 w) = (r', c)" "r = (push_bit 1 w OR carry) # r'"
    using Cons.prems(2) by (auto simp: Let_def split: prod.splits)
  note l = shl_limb [OF Cons.prems(1), of w]
  from Cons.IH [OF l(2) r'(1)] have IH: "length r' = length ws" "c \<in> {0, 1}"
    "limbs_value r' + 2 ^ (64 * length ws) * unat c = 2 * limbs_value ws + unat (drop_bit 63 w)" by auto
  define N where "N = (2 :: nat) ^ 64"
  have "limbs_value r + 2 ^ (64 * length (w # ws)) * unat c =
      unat (push_bit 1 w OR carry) + N * (limbs_value r' + 2 ^ (64 * length ws) * unat c)"
    using r'(2) by (simp add: N_def power_add algebra_simps)
  also have "\<dots> = (unat (push_bit 1 w OR carry) + N * unat (drop_bit 63 w)) + N * (2 * limbs_value ws)"
    unfolding IH(3) by (simp add: algebra_simps)
  also have "\<dots> = 2 * limbs_value (w # ws) + unat carry"
    using l(1) by (simp add: N_def)
  finally show ?case using IH r'(2) by simp
qed auto


text \<open>The bits of a little-endian number.\<close>

lemma bit_digit:
  fixes a v i :: nat
  assumes "a < 256"
  shows "bit (a + 256 * v) i = (if i < 8 then bit a i else bit v (i - 8))"
proof (cases "i < 8")
  case True
  then obtain j where j: "8 = i + Suc j" using less_imp_Suc_add by (metis add_Suc_right)
  have "(a + 256 * v) div 2 ^ i = (a + 2 ^ i * (2 * (2 ^ j * v))) div 2 ^ i"
    using j by (simp add: mult.assoc [symmetric] power_Suc [symmetric] power_add [symmetric] del: power_Suc)
  also have "\<dots> = a div 2 ^ i + 2 * (2 ^ j * v)" by simp
  finally show ?thesis using True by (simp add: bit_iff_odd)
next
  case False
  then obtain j where j: "i = 8 + j" using le_Suc_ex by (metis not_less)
  have "(a + 256 * v) div 256 = v" using assms by simp
  then have "(a + 256 * v) div 2 ^ i = v div 2 ^ j"
    unfolding j power_add using div_mult2_eq [of "a + 256 * v" 256 "2 ^ j"] by simp
  with False j show ?thesis by (simp add: bit_iff_odd)
qed

lemma bit_le_value: "i < 8 * length bs \<Longrightarrow> bit (le_value bs) i = bit (bs ! (i div 8)) (i mod 8)"
proof (induction bs arbitrary: i)
  case (Cons b bs)
  have b: "unat b < 256" using unsigned_less [of b, where ?'a = nat] by simp
  show ?case
  proof (cases "i < 8")
    case True
    then show ?thesis using bit_digit [OF b, of "le_value bs" i] by (simp add: bit_unsigned_iff)
  next
    case False
    then obtain j where j: "i = 8 + j" using le_Suc_ex by (metis not_less)
    moreover have "(8 + j) div 8 = Suc (j div 8)" by simp
    ultimately show ?thesis using Cons bit_digit [OF b, of "le_value bs" i] by simp
  qed
qed simp

lemma unat_scalar_bit:
  assumes "i < 8 * length bs"
  shows "unat (ucast (drop_bit (i mod 8) (bs ! (i div 8)) AND 1) :: u64) = le_value bs div 2 ^ i mod 2"
proof -
  let ?x = "drop_bit (i mod 8) (bs ! (i div 8)) AND 1"
  have x: "?x = (if bit (le_value bs) i then 1 else 0)"
    unfolding and_one_eq odd_iff_mod_2_eq_one [symmetric] bit_le_value [OF assms]
    by (simp add: and_one_eq mod2_eq_if bit_iff_odd_drop_bit)
  show ?thesis unfolding x by (auto simp: bit_iff_odd odd_iff_mod_2_eq_one)
qed

lemma or_low_bit:
  fixes w b :: u64
  assumes "even (unat w)" "unat b < 2"
  shows "unat (w OR b) = unat w + unat b"
proof -
  have b: "b = 0 \<or> b = 1" using assms(2) by (auto simp: less_2_cases_iff word_unat_eq_iff)
  have "\<not> bit (unat w) 0" using assms(1) by (simp add: bit_0)
  then have "\<not> bit w 0" by (simp add: bit_unsigned_iff)
  then have "w OR b = w + b"
    using b by (intro disjunctive_add [symmetric]) (auto simp: bit_1_iff)
  moreover have "unat w + unat b < 2 ^ 64"
  proof -
    have "unat w \<noteq> 2 ^ 64 - 1" using assms(1) by (auto dest: arg_cong [of _ _ even])
    with unat_u64_bound [of w] assms(2) show ?thesis by simp
  qed
  ultimately show ?thesis by (simp add: unat_word_ariths)
qed

lemma reduce_step_value:
  assumes "length r = 4" "limbs_value r < order_L" "i < 8 * length bs"
  shows "length (reduce_step bs i r) = 4"
    and "limbs_value (reduce_step bs i r) = (2 * limbs_value r + le_value bs div 2 ^ i mod 2) mod order_L"
proof -
  define b where "b = (ucast (drop_bit (i mod 8) (bs ! (i div 8)) AND 1) :: u64)"
  have b: "unat b = le_value bs div 2 ^ i mod 2" unfolding b_def by (rule unat_scalar_bit [OF assms(3)])
  obtain s c where sc: "shl_loop r 0 = (s, c)" by (cases "shl_loop r 0")
  from shl_loop_value [OF _ sc] assms(1) have s: "length s = 4" "limbs_value s + 2 ^ 256 * unat c = 2 * limbs_value r" by simp_all
  have "2 * limbs_value r < 2 ^ 256" using assms(2) by (simp add: order_L_def)
  with s(2) have "unat c = 0" by (cases "unat c") auto
  with s(2) have c: "c = 0" and sv: "limbs_value s = 2 * limbs_value r" by (simp_all add: unat_eq_0)
  obtain w ws where w: "s = w # ws" using s(1) by (cases s) auto
  have "even (unat w)"
  proof -
    have "even (limbs_value s)" using sv by simp
    then show ?thesis using w by simp
  qed
  then have "unat (w OR b) = unat w + unat b" using b by (intro or_low_bit) simp_all
  then have v: "length ((w OR b) # ws) = 4" "limbs_value ((w OR b) # ws) = 2 * limbs_value r + unat b"
    using sv w s(1) by simp_all
  have st: "reduce_step bs i r = (if less_than ((w OR b) # ws) scalar_L then (w OR b) # ws
      else fst (sub_limbs ((w OR b) # ws) scalar_L))"
    using sc c w by (simp add: reduce_step_def b_def [symmetric] Let_def)
  have lt: "2 * limbs_value r + unat b < 2 * order_L"
    using assms(2) b by (simp add: order_L_def)
  from cond_sub_value(1) [OF v(1), of scalar_L] show "length (reduce_step bs i r) = 4"
    unfolding st by (simp add: scalar_L_value)
  from cond_sub_value(2) [OF v(1), of scalar_L] lt
  show "limbs_value (reduce_step bs i r) = (2 * limbs_value r + le_value bs div 2 ^ i mod 2) mod order_L"
    unfolding st b [symmetric] v(2) by (simp add: scalar_L_value le_mod_geq)
qed

lemma reduce_fold_value:
  "n \<le> 8 * length bs \<Longrightarrow>
   length (fold (reduce_step bs) (rev [n..<8 * length bs]) [0, 0, 0, 0]) = 4 \<and>
   limbs_value (fold (reduce_step bs) (rev [n..<8 * length bs]) [0, 0, 0, 0]) = le_value bs div 2 ^ n mod order_L"
proof (induction "8 * length bs - n" arbitrary: n)
  case 0
  then have "n = 8 * length bs" by simp
  moreover have "le_value bs div 2 ^ (8 * length bs) = 0"
    using le_value_less [of bs] by (simp add: power_mult)
  ultimately show ?case by simp
next
  case (Suc d)
  then have n: "n < 8 * length bs" by simp
  then have u: "[n..<8 * length bs] = n # [Suc n..<8 * length bs]" by (rule upt_conv_Cons)
  define r where "r = fold (reduce_step bs) (rev [Suc n..<8 * length bs]) [0, 0, 0, 0]"
  have r: "length r = 4" "limbs_value r = le_value bs div 2 ^ Suc n mod order_L"
    using Suc.hyps(1) [of "Suc n"] Suc.hyps(2) n unfolding r_def by simp_all
  have "limbs_value r < order_L" unfolding r(2) by (simp add: order_L_def)
  note st = reduce_step_value [OF r(1) this n]
  have "2 * (le_value bs div 2 ^ Suc n) + le_value bs div 2 ^ n mod 2 = le_value bs div 2 ^ n"
  proof -
    have "le_value bs div 2 ^ Suc n = le_value bs div 2 ^ n div 2" by (simp add: div_mult2_eq [symmetric] mult.commute)
    then show ?thesis using mult_div_mod_eq [of 2 "le_value bs div 2 ^ n"] by simp
  qed
  then have "limbs_value (reduce_step bs n r) = le_value bs div 2 ^ n mod order_L"
    unfolding st(2) r(2) by (metis mod_add_left_eq mod_mult_right_eq)
  with st(1) show ?case unfolding u by (simp add: r_def)
qed

theorem reduce_scalar_wide_value:
  assumes "length bs = 64"
  shows "length (reduce_scalar_wide bs) = 32" "le_value (reduce_scalar_wide bs) = le_value bs mod order_L"
proof -
  have "length (fold (reduce_step bs) (rev [0..<512]) [0, 0, 0, 0]) = 4 \<and>
    limbs_value (fold (reduce_step bs) (rev [0..<512]) [0, 0, 0, 0]) = le_value bs mod order_L"
    using reduce_fold_value [of 0 bs] assms by (simp del: fold_simps upt_rec_numeral)
  then show "length (reduce_scalar_wide bs) = 32" "le_value (reduce_scalar_wide bs) = le_value bs mod order_L"
    unfolding reduce_scalar_wide_def limbs_to_le_value by auto
qed

theorem scalar_muladd_value:
  assumes "length a = 32" "length b = 32" "length c = 32" "le_value c < order_L"
  shows "length (scalar_muladd a b c) = 32"
    and "le_value (scalar_muladd a b c) = (le_value a * le_value b + le_value c) mod order_L"
proof -
  define wide where "wide = limbs_to_le (mul_wide (le_to_limbs a) (le_to_limbs b))"
  have lim: "length (le_to_limbs x) = 4 \<and> limbs_value (le_to_limbs x) = le_value x" if "length x = 32" for x
    using le_to_limbs_value [of x 4] that by simp
  have wide: "length wide = 64" "le_value wide = le_value a * le_value b"
    using mul_wide_value [of "le_to_limbs a" "le_to_limbs b"] lim assms
    by (simp_all add: wide_def limbs_to_le_value)
  define ab where "ab = reduce_scalar_wide wide"
  have ab: "length ab = 32" "le_value ab = le_value a * le_value b mod order_L"
    using reduce_scalar_wide_value [OF wide(1)] wide(2) by (simp_all add: ab_def)
  obtain s d where sd: "add_limbs (le_to_limbs ab) (le_to_limbs c) = (s, d)"
    by (cases "add_limbs (le_to_limbs ab) (le_to_limbs c)")
  from add_limbs_value [OF _ sd] lim ab assms(3) have s: "length s = 4"
    "limbs_value s + 2 ^ 256 * unat d = le_value ab + le_value c" by simp_all
  have "le_value ab < order_L" unfolding ab(2) by (simp add: order_L_def)
  then have lt: "le_value ab + le_value c < 2 * order_L" using assms(4) by simp
  then have "le_value ab + le_value c < 2 ^ 256" by (simp add: order_L_def)
  with s(2) have "unat d = 0" by (cases "unat d") auto
  then have d: "d = 0" and sv: "limbs_value s = le_value ab + le_value c" using s(2) by (simp_all add: unat_eq_0)
  have m: "scalar_muladd a b c = limbs_to_le (if less_than s scalar_L then s else fst (sub_limbs s scalar_L))"
    using sd d by (simp add: scalar_muladd_def wide_def [symmetric] ab_def [symmetric] Let_def)
  from cond_sub_value(1) [OF s(1), of scalar_L] show "length (scalar_muladd a b c) = 32"
    unfolding m limbs_to_le_value by (simp add: scalar_L_value)
  have "(if x < order_L then x else x - order_L) = x mod order_L" if "x < 2 * order_L" for x
    using that by (simp add: le_mod_geq)
  from this [OF lt] show "le_value (scalar_muladd a b c) = (le_value a * le_value b + le_value c) mod order_L"
    using cond_sub_value(2) [OF s(1), of scalar_L]
    unfolding m limbs_to_le_value sv ab(2) scalar_L_value by (simp only: mod_add_left_eq)
qed


subsection \<open>Base64 decoding inverts encoding\<close>

lemma B64_values: "map b64_val B64 = map (\<lambda>i. Some (word_of_nat i)) [0..<64]"
  by (simp add: upt_rec B64_def b64_val_def)

lemma length_B64: "length B64 = 64"
  by (simp add: B64_def)

lemma B64_no_pad: "CHR ''='' \<notin> set B64"
  by (simp add: B64_def)

lemma b64_val_B64: 
  assumes "i < 64" shows "b64_val (B64 ! i) = Some (word_of_nat i) \<and> B64 ! i \<noteq> CHR ''=''"
proof -
  have "b64_val (B64 ! i) = map b64_val B64 ! i" using assms by (simp add: length_B64)
  also have "\<dots> = Some (word_of_nat i)" unfolding B64_values using assms by simp
  finally show ?thesis using B64_no_pad assms by (metis length_B64 nth_mem)
qed

definition chunk_word :: "u8 \<Rightarrow> u8 \<Rightarrow> u8 \<Rightarrow> u32" where
  "chunk_word b0 b1 b2 = push_bit 16 (ucast b0) OR push_bit 8 (ucast b1) OR ucast b2"

lemma and_63_less: "unat (x AND 63 :: u32) < 64"
proof -
  have "x AND 63 \<le> 63" by (rule word_and_le1)
  then show ?thesis by (simp add: word_le_nat_alt)
qed

lemma sextet: "b64_val (B64 ! unat (x AND 63)) = Some (x AND 63)" "B64 ! unat (x AND 63) \<noteq> CHR ''=''" for x :: u32
  using b64_val_B64 [OF and_63_less [of x]] by simp_all

lemma bit_63: "bit (63 :: u32) k \<longleftrightarrow> k < 6"
proof -
  have "bit (mask 6 :: u32) k \<longleftrightarrow> k < 6" unfolding bit_mask_iff by auto
  moreover have "mask 6 = (63 :: u32)" by (simp add: mask_eq_exp_minus_1)
  ultimately show ?thesis by (simp only:)
qed

lemma bit_sextet: "m + 6 \<le> 32 \<Longrightarrow>
    bit (push_bit m (drop_bit m n AND 63) :: u32) k \<longleftrightarrow> m \<le> k \<and> k < m + 6 \<and> bit n k"
  unfolding bit_push_bit_iff bit_and_iff bit_drop_bit_eq bit_63 comp_def
  by (auto dest: bit_imp_le_length)

lemma bit_sextets:
  "bit (push_bit 18 (drop_bit 18 n AND 63) :: u32) k \<longleftrightarrow> 18 \<le> k \<and> k < 24 \<and> bit n k"
  "bit (push_bit 12 (drop_bit 12 n AND 63) :: u32) k \<longleftrightarrow> 12 \<le> k \<and> k < 18 \<and> bit n k"
  "bit (push_bit 6 (drop_bit 6 n AND 63) :: u32) k \<longleftrightarrow> 6 \<le> k \<and> k < 12 \<and> bit n k"
  "bit (n AND 63 :: u32) k \<longleftrightarrow> k < 6 \<and> bit n k"
  by (subst bit_sextet; simp)+ (auto simp only: bit_and_iff bit_63)

lemma bit_u8: "bit (b :: u8) k \<Longrightarrow> k < 8"
  using bit_imp_le_length [of b k] by simp

lemma bit_chunk_word:
  "bit (chunk_word b0 b1 b2) k \<longleftrightarrow> (16 \<le> k \<and> k < 24 \<and> bit b0 (k - 16)) \<or> (8 \<le> k \<and> k < 16 \<and> bit b1 (k - 8)) \<or> (k < 8 \<and> bit b2 k)"
proof -
  have "bit (chunk_word b0 b1 b2) k \<longleftrightarrow> k < 32 \<and> (16 \<le> k \<and> bit b0 (k - 16) \<or> 8 \<le> k \<and> bit b1 (k - 8) \<or> bit b2 k)"
    by (auto simp: chunk_word_def bit_or_iff bit_push_bit_iff bit_ucast_iff dest: bit_imp_le_length)
  then show ?thesis by (auto dest: bit_u8)
qed

lemma chunk_word_sextets:
  "push_bit 18 (drop_bit 18 (chunk_word b0 b1 b2) AND 63) OR push_bit 12 (drop_bit 12 (chunk_word b0 b1 b2) AND 63)
     OR push_bit 6 (drop_bit 6 (chunk_word b0 b1 b2) AND 63) OR (chunk_word b0 b1 b2 AND 63) = chunk_word b0 b1 b2"
  by (rule bit_word_eqI, unfold bit_or_iff bit_sextets bit_chunk_word, auto)

lemma chunk_word_sextets_2:
  "push_bit 18 (drop_bit 18 (chunk_word b0 b1 0) AND 63) OR push_bit 12 (drop_bit 12 (chunk_word b0 b1 0) AND 63)
     OR push_bit 6 (drop_bit 6 (chunk_word b0 b1 0) AND 63) = chunk_word b0 b1 0"
  by (rule bit_word_eqI, unfold bit_or_iff bit_sextets bit_chunk_word, auto)

lemma chunk_word_sextets_1:
  "push_bit 18 (drop_bit 18 (chunk_word b0 0 0) AND 63) OR push_bit 12 (drop_bit 12 (chunk_word b0 0 0) AND 63) = chunk_word b0 0 0"
  by (rule bit_word_eqI, unfold bit_or_iff bit_sextets bit_chunk_word, auto)

lemma chunk_word_bytes:
  "ucast (drop_bit 16 (chunk_word b0 b1 b2)) = b0" "ucast (drop_bit 8 (chunk_word b0 b1 b2)) = b1"
  "ucast (chunk_word b0 b1 b2) = b2"
  by (rule bit_word_eqI, auto simp: bit_ucast_iff bit_drop_bit_eq bit_chunk_word)+

lemma b64_chunk_decode:
  assumes "c \<noteq> []" "length c \<le> 3"
  shows "b64_bytes (b64_chunk B64 c) = Some c \<and> CHR ''='' \<notin> set (b64_chunk B64 c)"
proof -
  consider b0 where "c = [b0]" | b0 b1 where "c = [b0, b1]" | b0 b1 b2 where "c = [b0, b1, b2]"
  proof -
    assume 1: "\<And>b0. c = [b0] \<Longrightarrow> thesis" and 2: "\<And>b0 b1. c = [b0, b1] \<Longrightarrow> thesis"
      and 3: "\<And>b0 b1 b2. c = [b0, b1, b2] \<Longrightarrow> thesis"
    obtain b0 c1 where c: "c = b0 # c1" using assms(1) by (cases c) auto
    show thesis
    proof (cases c1)
      case Nil
      with c 1 show thesis by simp
    next
      case (Cons b1 c2)
      show thesis
      proof (cases c2)
        case Nil
        with c \<open>c1 = _\<close> 2 show thesis by simp
      next
        case (Cons b2 c3)
        with c \<open>c1 = _\<close> 3 assms(2) show thesis by simp
      qed
    qed
  qed
  then show ?thesis
  proof cases
    case 1
    then have "b64_chunk B64 c = [B64 ! unat (drop_bit 18 (chunk_word b0 0 0) AND 63), B64 ! unat (drop_bit 12 (chunk_word b0 0 0) AND 63)]"
      by (simp add: b64_chunk_def chunk_word_def Let_def)
    then show ?thesis
      using 1 chunk_word_sextets_1 [of b0] chunk_word_bytes [of b0 0 0]
      by (simp add: b64_bytes_def sextet sextet(2) [symmetric] or.assoc)
  next
    case 2
    then have "b64_chunk B64 c = [B64 ! unat (drop_bit 18 (chunk_word b0 b1 0) AND 63), B64 ! unat (drop_bit 12 (chunk_word b0 b1 0) AND 63),
      B64 ! unat (drop_bit 6 (chunk_word b0 b1 0) AND 63)]"
      by (simp add: b64_chunk_def chunk_word_def Let_def)
    then show ?thesis
      using 2 chunk_word_sextets_2 [of b0 b1] chunk_word_bytes [of b0 b1 0]
      by (simp add: b64_bytes_def sextet sextet(2) [symmetric] or.assoc)
  next
    case 3
    then have "b64_chunk B64 c = [B64 ! unat (drop_bit 18 (chunk_word b0 b1 b2) AND 63), B64 ! unat (drop_bit 12 (chunk_word b0 b1 b2) AND 63),
      B64 ! unat (drop_bit 6 (chunk_word b0 b1 b2) AND 63), B64 ! unat (chunk_word b0 b1 b2 AND 63)]"
      by (simp add: b64_chunk_def chunk_word_def Let_def or.assoc)
    then show ?thesis
      using 3 chunk_word_sextets [of b0 b1 b2] chunk_word_bytes [of b0 b1 b2]
      by (simp add: b64_bytes_def sextet sextet(2) [symmetric] or.assoc)
  qed
qed

lemma base64_chunks:
  "b64_decode_chunks (chunks 4 (concat (map (b64_chunk B64) (chunks 3 data)))) = Some data
     \<and> CHR ''='' \<notin> set (concat (map (b64_chunk B64) (chunks 3 data)))"
proof (induction "length data" arbitrary: data rule: less_induct)
  case less
  show ?case
  proof (cases "data = []")
    case True
    then show ?thesis by (simp add: chunks.simps)
  next
    case False
    let ?c = "take 3 data" and ?rest = "concat (map (b64_chunk B64) (chunks 3 (drop 3 data)))"
    have c: "?c \<noteq> []" "length ?c \<le> 3" using False by simp_all
    have e: "concat (map (b64_chunk B64) (chunks 3 data)) = b64_chunk B64 ?c @ ?rest"
      using False by (simp add: chunks.simps [of 3 data])
    note d = b64_chunk_decode [OF c]
    have len: "length (b64_chunk B64 ?c) = Suc (length ?c)"
      using length_b64_chunk [of ?c] c by simp
    have "chunks 4 (b64_chunk B64 ?c @ ?rest) = b64_chunk B64 ?c # chunks 4 ?rest"
    proof (cases "length data \<le> 3")
      case True
      then have "?rest = []" by (simp add: chunks.simps)
      with len True False show ?thesis
        by (auto simp: chunks.simps [of 4 "b64_chunk B64 data"] chunks.simps [of 4 "[]"])
    next
      case False
      then have "length (b64_chunk B64 ?c) = 4" using len by simp
      moreover from this have "b64_chunk B64 ?c \<noteq> []" by auto
      ultimately show ?thesis by (simp add: chunks.simps [of 4 "b64_chunk B64 ?c @ ?rest"])
    qed
    moreover have "b64_decode_chunks (chunks 4 ?rest) = Some (drop 3 data) \<and> CHR ''='' \<notin> set ?rest"
      using False by (intro less) simp
    ultimately show ?thesis unfolding e using d by simp
  qed
qed

lemma base64_roundtrip: "base64_decode (base64_encode data) = Some data"
proof -
  have "filter (\<lambda>c. c \<noteq> CHR ''='') (base64_encode data) = base64_encode data"
    using base64_chunks [of data] by (auto simp: filter_id_conv base64_encode_def)
  with base64_chunks [of data] show ?thesis by (simp add: base64_decode_def base64_encode_def)
qed

subsection \<open>Properties\<close>

text \<open>C39: On reduced elements the limb routines for addition and subtraction are those of the integers modulo
  the prime, with reduced results; the product is exact modulo the prime and reduced for any two
  elements of four limbs, reduced or not - it loses no carry and reads no limb out of range; and the
  canonical form keeps the number modulo the prime and is reduced whenever the number is below
  twice the prime.\<close>

theorem field_arithmetic:
  assumes "fe_ok x" "fe_ok y" "length (fe_limbs a) = 4" "length (fe_limbs b) = 4"
  shows "fe_ok (fe_add x y) \<and> fe_value (fe_add x y) = (fe_value x + fe_value y) mod prime_P \<and>
    fe_ok (fe_sub x y) \<and> fe_value (fe_sub x y) = (fe_value x + prime_P - fe_value y) mod prime_P \<and>
    fe_ok (fe_mul a b) \<and> fe_value (fe_mul a b) = fe_value a * fe_value b mod prime_P \<and>
    fe_value (fe_canonical a) mod prime_P = fe_value a mod prime_P \<and>
    (fe_value a < 2 * prime_P \<longrightarrow> fe_ok (fe_canonical a))"
  using fe_add_value [OF assms(1,2)] fe_sub_value [OF assms(1,2)] fe_mul_value [OF assms(3,4)] fe_canonical_value [OF assms(3)]
  by (auto simp: fe_ok_def le_mod_geq)

theorem field_arithmetic_witness:
  "fe_value (fe_sub fe_ZERO fe_ONE) = prime_P - 1 \<and> fe_value (fe_mul (Fe [0, 0, 0, 2 ^ 63]) fe_ONE) = 19"
proof -
  have "fe_ok fe_ZERO" "fe_ok fe_ONE" "fe_value fe_ZERO = 0" "fe_value fe_ONE = 1"
    "length (fe_limbs (Fe [0, 0, 0, 2 ^ 63])) = 4" "length (fe_limbs fe_ONE) = 4" "fe_value (Fe [0, 0, 0, 2 ^ 63]) = 2 ^ 255"
    by (simp_all add: fe_ok_def fe_value_def fe_ZERO_def fe_ONE_def prime_P_def)
  with field_arithmetic [of fe_ZERO fe_ONE "Fe [0, 0, 0, 2 ^ 63]" fe_ONE] show ?thesis by (simp add: prime_P_def)
qed

text \<open>The scalar arithmetic of signing is exact: the wide reduction is the remainder modulo the
  group order and multiply-add is \<open>(a * b + c) mod L\<close>, for any 32-byte factors (also a clamped
  secret, which is not below \<open>L\<close>) and a reduced addend.\<close>

theorem scalar_arithmetic:
  assumes "length wide = 64" "length a = 32" "length b = 32" "length c = 32" "le_value c < order_L"
  shows "le_value (reduce_scalar_wide wide) = le_value wide mod order_L \<and>
    le_value (scalar_muladd a b c) = (le_value a * le_value b + le_value c) mod order_L \<and>
    scalar_is_canonical (scalar_muladd a b c)"
proof -
  note m = scalar_muladd_value [OF assms(2-5)]
  have "le_value (scalar_muladd a b c) < order_L" unfolding m(2) by (simp add: order_L_def)
  moreover have "length (le_to_limbs (scalar_muladd a b c)) = 4 \<and>
      limbs_value (le_to_limbs (scalar_muladd a b c)) = le_value (scalar_muladd a b c)"
    using le_to_limbs_value [of "scalar_muladd a b c" 4] m(1) by simp
  ultimately have "scalar_is_canonical (scalar_muladd a b c)"
    by (simp add: scalar_is_canonical_def less_than_value scalar_L_value)
  with m(2) reduce_scalar_wide_value(2) [OF assms(1)] show ?thesis by blast
qed

theorem scalar_arithmetic_witness:
  "le_value (scalar_muladd (3 # replicate 31 0) (5 # replicate 31 0) (1 # replicate 31 0)) = 16"
proof -
  have z: "le_value (n # replicate 31 0) = unat n" for n
  proof -
    have "le_value (replicate k 0) = 0" for k by (induction k) auto
    then show ?thesis by simp
  qed
  from scalar_arithmetic [of "replicate 64 0" "3 # replicate 31 0" "5 # replicate 31 0" "1 # replicate 31 0"]
  show ?thesis unfolding z by (simp add: order_L_def)
qed

text \<open>Base64 decoding inverts encoding: keys and signatures survive the text form.\<close>

theorem base64_decode_encode: "base64_decode (base64_encode data) = Some data"
  by (rule base64_roundtrip)

text \<open>Decoding a point does not reduce its \<open>y\<close>, and subtraction is wrong on an unreduced operand: for
  the encoding of \<open>p + 1\<close>, zero minus that \<open>y\<close> is 37 instead of \<open>p - 1\<close> modulo \<open>p\<close>.\<close>

theorem unreduced_operand:
  "let y = fe_from_bytes (0xee # replicate 30 0xff @ [0x7f]) in
     fe_value y = prime_P + 1 \<and> fe_value (fe_sub fe_ZERO y) mod prime_P = 37"
proof -
  let ?b = "0xee # replicate 30 0xff @ [0x7f] :: bytes"
  let ?y = "[0xffffffffffffffee, 0xffffffffffffffff, 0xffffffffffffffff, 0x7fffffffffffffff] :: u64 list"
  have ff: "le_value (replicate n 0xff) + 1 = 256 ^ n" for n
    by (induction n) auto
  have b: "le_value ?b = limbs_value ?y"
    using ff [of 30] by (simp add: le_value_append)
  have l: "length (le_to_limbs ?b) = 4 \<and> limbs_value (le_to_limbs ?b) = le_value ?b"
    by (rule le_to_limbs_value) simp
  have "le_to_limbs ?b = ?y"
    using l b by (intro limbs_value_inj) auto
  then have y: "fe_from_bytes ?b = Fe ?y"
    unfolding fe_from_bytes_def by simp
  show ?thesis
    unfolding y by (simp add: fe_value_def prime_P_def fe_sub_def fe_ZERO_def sub_limbs_def add_limbs_def field_P_def)
qed

end
