(* ===== verification/Pdu.thy ===== *)
theory Pdu
  imports Redaction Ed25519 JsonText
begin

section \<open>Room events (gm-api, pdu.rs)\<close>

text \<open>
  The persistent data unit: its JSON form with the content hash, its re-validating reader, and the
  content-addressed reference id.  The lemmas read an event back from its JSON and show that the
  texts the two hashes are computed from determine the event.
\<close>

record pdu =
  event_id :: event_id
  room_id :: room_id
  sender :: user_id
  kind :: string
  state_key :: "string option"
  origin_server_ts :: u64
  depth :: u64
  prev_events :: "event_id list"
  auth_events :: "event_id list"
  content_json :: string

datatype pdu_error =
    MissingField string
  | InvalidField string

definition pdu_is_state :: "pdu \<Rightarrow> bool" where
  "pdu_is_state p \<longleftrightarrow> state_key p \<noteq> None"

definition pdu_state_tuple :: "pdu \<Rightarrow> (string \<times> string) option" where
  "pdu_state_tuple p = map_option (\<lambda>k. (kind p, k)) (state_key p)"

definition event_id_array :: "event_id list \<Rightarrow> json" where
  "event_id_array ids = JArray (map (\<lambda>e. JString (event_as_str e)) ids)"

text \<open>\<open>Json::parse(&self.content_json)\<close>, an empty object if that fails.\<close>

definition pdu_content :: "pdu \<Rightarrow> json" where
  "pdu_content p = (case json_parse_ok (content_json p) of Some c \<Rightarrow> c | None \<Rightarrow> JObject [])"

definition pdu_unhashed :: "pdu \<Rightarrow> (string, json) btree" where
  "pdu_unhashed p =
     (let obj = bt_insert ''room_id'' (JString (room_as_str (room_id p))) [];
          obj = bt_insert ''sender'' (JString (user_as_str (sender p))) obj;
          obj = bt_insert ''type'' (JString (kind p)) obj;
          obj = (case state_key p of Some k \<Rightarrow> bt_insert ''state_key'' (JString k) obj | None \<Rightarrow> obj);
          obj = bt_insert ''origin_server_ts'' (JNumber (f64_of_nat (unat (origin_server_ts p)))) obj;
          obj = bt_insert ''depth'' (JNumber (f64_of_nat (unat (depth p)))) obj;
          obj = bt_insert ''prev_events'' (event_id_array (prev_events p)) obj;
          obj = bt_insert ''auth_events'' (event_id_array (auth_events p)) obj
      in bt_insert ''content'' (pdu_content p) obj)"

text \<open>The canonical text that is hashed, and the content hash.\<close>

definition unhashed_text :: "pdu \<Rightarrow> string" where
  "unhashed_text p = json_write (JObject (pdu_unhashed p))"

definition pdu_content_hash :: "pdu \<Rightarrow> string" where
  "pdu_content_hash p = base64_encode (sha256 (as_bytes (unhashed_text p)))"

definition pdu_object :: "pdu \<Rightarrow> (string, json) btree" where
  "pdu_object p =
     bt_insert ''hashes'' (JObject (bt_insert ''sha256'' (JString (pdu_content_hash p)) []))
       (bt_insert ''event_id'' (JString (event_as_str (event_id p))) (pdu_unhashed p))"

definition pdu_to_json :: "pdu \<Rightarrow> json" where
  "pdu_to_json p = JObject (pdu_object p)"

text \<open>The redacted event without its derived keys, as it is hashed for the reference id.\<close>

definition reference_object :: "pdu \<Rightarrow> u8 \<Rightarrow> (string, json) btree" where
  "reference_object p room_version =
     bt_remove ''unsigned'' (bt_remove ''signatures'' (bt_remove ''event_id''
       (case redact (pdu_to_json p) room_version of JObject m \<Rightarrow> m | _ \<Rightarrow> [])))"

definition reference_text :: "pdu \<Rightarrow> u8 \<Rightarrow> string" where
  "reference_text p room_version = json_write (JObject (reference_object p room_version))"

definition pdu_reference_id :: "pdu \<Rightarrow> u8 \<Rightarrow> string" where
  "pdu_reference_id p room_version = reference_id (as_bytes (reference_text p room_version))"

subsection \<open>Reading an event\<close>

definition str_field :: "json \<Rightarrow> string \<Rightarrow> pdu_error + string" where
  "str_field value key =
     and_then (ok_or (MissingField key) (json_get value key)) (\<lambda>v. ok_or (InvalidField key) (as_str v))"

definition u64_field :: "json \<Rightarrow> string \<Rightarrow> pdu_error + u64" where
  "u64_field value key =
     and_then (ok_or (MissingField key) (json_get value key)) (\<lambda>v. ok_or (InvalidField key) (as_u64 v))"

definition parse_id :: "json \<Rightarrow> string \<Rightarrow> (string \<Rightarrow> 'e + 'a) \<Rightarrow> pdu_error + 'a" where
  "parse_id value key parse =
     and_then (str_field value key) (\<lambda>s. map_err (\<lambda>_. InvalidField key) (parse s))"

fun parse_ids :: "string \<Rightarrow> json list \<Rightarrow> pdu_error + event_id list" where
  "parse_ids key [] = Inr []"
| "parse_ids key (item # items) =
     and_then (ok_or (InvalidField key) (as_str item)) (\<lambda>s.
       and_then (map_err (\<lambda>_. InvalidField key) (event_id_parse s)) (\<lambda>e.
         and_then (parse_ids key items) (\<lambda>es. Inr (e # es))))"

definition parse_id_array :: "json \<Rightarrow> string \<Rightarrow> pdu_error + event_id list" where
  "parse_id_array value key =
     and_then (ok_or (MissingField key) (json_get value key)) (\<lambda>v.
       and_then (ok_or (InvalidField key) (as_array v)) (parse_ids key))"

definition pdu_from_json :: "json \<Rightarrow> pdu_error + pdu" where
  "pdu_from_json value =
     and_then (parse_id value ''event_id'' event_id_parse) (\<lambda>eid.
     and_then (parse_id value ''room_id'' room_id_parse) (\<lambda>rid.
     and_then (parse_id value ''sender'' user_id_parse) (\<lambda>user.
     and_then (str_field value ''type'') (\<lambda>k.
     and_then (case json_get value ''state_key'' of
                 None \<Rightarrow> Inr None
               | Some (JString s) \<Rightarrow> Inr (Some s)
               | Some _ \<Rightarrow> Inl (InvalidField ''state_key'')) (\<lambda>sk.
     and_then (u64_field value ''origin_server_ts'') (\<lambda>ts.
     and_then (u64_field value ''depth'') (\<lambda>d.
     and_then (parse_id_array value ''prev_events'') (\<lambda>prev.
     and_then (parse_id_array value ''auth_events'') (\<lambda>auth.
       (let content = (case json_get value ''content'' of None \<Rightarrow> ''{}'' | Some c \<Rightarrow> json_write c) in
        Inr \<lparr>event_id = eid, room_id = rid, sender = user, kind = k, state_key = sk, origin_server_ts = ts,
             depth = d, prev_events = prev, auth_events = auth, content_json = content\<rparr>))))))))))"

subsection \<open>Numbers and keys\<close>

lemma f64_of_nat_small: "n < 2 ^ 53 \<Longrightarrow> f64_of_nat n = Finite (of_nat n)"
proof -
  assume "n < 2 ^ 53"
  then have "\<bar>int n\<bar> < 2 ^ 53" by simp
  then have "representable (of_nat n / of_nat 1)" using representable_int [of "int n"] by simp
  then show ?thesis unfolding f64_of_nat_def using f64_of_ratio_exact [of 1 n False] by simp
qed

lemma f64_u64_max: "f64_of_nat 18446744073709551615 = Finite 18446744073709551616"
  by (simp add: f64_of_nat_def f64_of_ratio_def ratio_log2_def ilog2.simps div_half_even_def)

lemma as_u64_of_nat:
  assumes "n < 2 ^ 53"
  shows "as_u64 (JNumber (f64_of_nat n)) = Some (word_of_nat n)"
proof -
  have "(of_nat n :: rat) \<le> of_nat (2 ^ 53)" using assms by (simp only: of_nat_le_iff)
  then have "(of_nat n :: rat) \<le> 18446744073709551616" by simp
  moreover have "max 0 (min 18446744073709551615 (int n)) = int n" using assms by simp
  ultimately show ?thesis
    unfolding f64_of_nat_small [OF assms] by (simp add: f64_fract_zero_def f64_u64_max f64_cast_def)
qed

lemma as_u64_nat: "unat w < 2 ^ 53 \<Longrightarrow> as_u64 (JNumber (f64_of_nat (unat w))) = Some w"
  using as_u64_of_nat [of "unat w"] by simp

lemma map_of_unhashed:
  "map_of (pdu_unhashed p) =
     [''room_id'' \<mapsto> JString (room_as_str (room_id p)), ''sender'' \<mapsto> JString (user_as_str (sender p)),
      ''type'' \<mapsto> JString (kind p), ''origin_server_ts'' \<mapsto> JNumber (f64_of_nat (unat (origin_server_ts p))),
      ''depth'' \<mapsto> JNumber (f64_of_nat (unat (depth p))), ''prev_events'' \<mapsto> event_id_array (prev_events p),
      ''auth_events'' \<mapsto> event_id_array (auth_events p), ''content'' \<mapsto> pdu_content p]
     (''state_key'' := map_option JString (state_key p))"
  by (rule ext) (auto simp: pdu_unhashed_def Let_def split: option.splits)

lemma bt_ok_unhashed [simp]: "bt_ok (pdu_unhashed p)"
  by (auto simp: pdu_unhashed_def Let_def bt_ok_def split: option.splits)

lemma bt_ok_object [simp]: "bt_ok (pdu_object p)"
  by (simp add: pdu_object_def)

lemma map_of_object:
  "map_of (pdu_object p) = (map_of (pdu_unhashed p))(''event_id'' \<mapsto> JString (event_as_str (event_id p)),
     ''hashes'' \<mapsto> JObject [(''sha256'', JString (pdu_content_hash p))])"
  by (simp add: pdu_object_def)

lemma json_ok_object:
  assumes "bt_ok m" "\<And>k v. map_of m k = Some v \<Longrightarrow> utf8_valid k \<and> json_ok n v \<and> json_finite v"
  shows "json_ok (Suc n) (JObject m) \<and> json_finite (JObject m)"
proof -
  have "utf8_valid k \<and> json_ok n v \<and> json_finite v" if "(k, v) \<in> set m" for k v
    using that assms by (simp add: bt_ok_distinct)
  with assms(1) show ?thesis by auto
qed

lemma max_depth_pred: "MAX_DEPTH - 1 = Suc 126" and max_depth_Suc: "Suc (MAX_DEPTH - 1) = MAX_DEPTH"
  by (simp_all add: MAX_DEPTH_def)

lemmas json_ok_root = json_ok_object [where n = "MAX_DEPTH - 1", unfolded max_depth_Suc]

subsection \<open>Well-formed events\<close>

text \<open>
  Validated ids, UTF-8 strings, times and depths below \<open>2 ^ 53\<close> (a JSON number is a double), and a
  content that is finite and, being embedded, nests one level less than the parser allows.
\<close>

definition pdu_wf :: "pdu \<Rightarrow> bool" where
  "pdu_wf p \<longleftrightarrow>
     event_ok (event_id p) \<and> room_ok (room_id p) \<and> user_ok (sender p) \<and>
     (\<forall>e\<in>set (prev_events p) \<union> set (auth_events p). event_ok e \<and> utf8_valid (event_as_str e)) \<and>
     utf8_valid (event_as_str (event_id p)) \<and> utf8_valid (room_as_str (room_id p)) \<and>
     utf8_valid (user_as_str (sender p)) \<and> utf8_valid (kind p) \<and>
     (\<forall>k. state_key p = Some k \<longrightarrow> utf8_valid k) \<and>
     unat (origin_server_ts p) < 2 ^ 53 \<and> unat (depth p) < 2 ^ 53 \<and>
     json_ok (MAX_DEPTH - 1) (pdu_content p) \<and> json_finite (pdu_content p)"

lemma json_ok_number_nat: "n < 2 ^ 53 \<Longrightarrow> json_ok k (JNumber (f64_of_nat n)) \<and> json_finite (JNumber (f64_of_nat n))"
  using representable_int [of "int n"]
  by (auto simp: f64_of_nat_small f64_ok_def f64_is_finite_def)

lemma json_ok_ids: "\<forall>e\<in>set ids. utf8_valid (event_as_str e) \<Longrightarrow> json_ok (Suc k) (event_id_array ids) \<and> json_finite (event_id_array ids)"
  by (simp add: event_id_array_def)

lemma unhashed_values:
  assumes "pdu_wf p" "map_of (pdu_unhashed p) k = Some v"
  shows "utf8_valid k \<and> json_ok (MAX_DEPTH - 1) v \<and> json_finite v"
  using assms json_ok_number_nat [of "unat (origin_server_ts p)" "MAX_DEPTH - 1"]
    json_ok_number_nat [of "unat (depth p)" "MAX_DEPTH - 1"] json_ok_ids [of "prev_events p" 126]
    json_ok_ids [of "auth_events p" 126]
  unfolding map_of_unhashed pdu_wf_def max_depth_pred
  by (auto simp: ascii_utf8_valid split: if_splits)

lemma unhashed_ok: "pdu_wf p \<Longrightarrow> json_ok MAX_DEPTH (JObject (pdu_unhashed p)) \<and> json_finite (JObject (pdu_unhashed p))"
  by (rule json_ok_root) (simp_all only: bt_ok_unhashed unhashed_values)

lemma ascii_b64_chunk: "ascii alphabet \<Longrightarrow> length alphabet = 64 \<Longrightarrow> ascii (b64_chunk alphabet c)"
  by (auto simp: b64_chunk_def Let_def ascii_def and_63_less)

lemma ascii_base64 [simp]: "ascii (base64_encode data)"
proof -
  have "ascii B64" by (simp add: B64_def)
  then have "ascii (b64_chunk B64 c)" for c by (rule ascii_b64_chunk) (rule length_B64)
  then show ?thesis by (auto simp: base64_encode_def ascii_def)
qed

lemma ascii_content_hash [simp]: "ascii (pdu_content_hash p)"
  by (simp add: pdu_content_hash_def)

lemma object_values:
  assumes "pdu_wf p" "map_of (pdu_object p) k = Some v"
  shows "utf8_valid k \<and> json_ok (MAX_DEPTH - 1) v \<and> json_finite v"
proof (cases "k \<in> {''event_id'', ''hashes''}")
  case True
  with assms show ?thesis
    unfolding max_depth_pred pdu_wf_def by (auto simp: map_of_object ascii_utf8_valid bt_ok_Cons)
next
  case False
  with assms show ?thesis using unhashed_values [OF assms(1)] by (simp add: map_of_object)
qed

lemma pdu_json_ok: "pdu_wf p \<Longrightarrow> json_ok MAX_DEPTH (pdu_to_json p) \<and> json_finite (pdu_to_json p)"
  unfolding pdu_to_json_def by (rule json_ok_root) (simp_all only: bt_ok_object object_values)

lemma parse_ids_array:
  "\<forall>e\<in>set ids. event_ok e \<Longrightarrow> parse_ids key (map (\<lambda>e. JString (event_as_str e)) ids) = Inr ids"
  by (induction ids) (auto simp: event_ok_def)

lemma pdu_roundtrip:
  assumes "pdu_wf p"
  shows "pdu_from_json (pdu_to_json p) = Inr (p\<lparr>content_json := json_write (pdu_content p)\<rparr>)"
proof -
  have get: "json_get (pdu_to_json p) k = map_of (pdu_object p) k" for k
    by (simp add: json_get_def pdu_to_json_def)
  have ids: "event_id_parse (event_as_str (event_id p)) = Inr (event_id p)"
    "room_id_parse (room_as_str (room_id p)) = Inr (room_id p)"
    "user_id_parse (user_as_str (sender p)) = Inr (sender p)"
    "\<forall>e\<in>set (prev_events p). event_ok e" "\<forall>e\<in>set (auth_events p). event_ok e"
    using assms by (auto simp: pdu_wf_def event_ok_def room_ok_def user_ok_def)
  have nums: "as_u64 (JNumber (f64_of_nat (unat (origin_server_ts p)))) = Some (origin_server_ts p)"
    "as_u64 (JNumber (f64_of_nat (unat (depth p)))) = Some (depth p)"
    using assms by (simp_all only: pdu_wf_def as_u64_nat)
  show ?thesis
    unfolding pdu_from_json_def parse_id_def str_field_def u64_field_def parse_id_array_def get
    by (cases "state_key p")
      (simp_all add: map_of_object map_of_unhashed ids nums parse_ids_array event_id_array_def Let_def
        del: as_u64.simps)
qed

subsection \<open>What the reference id commits to\<close>

text \<open>The two base64 alphabets differ in two characters, so the URL form determines the data.\<close>

definition url_to_std :: "char \<Rightarrow> char" where
  "url_to_std c = (if c = CHR ''-'' then CHR ''+'' else if c = CHR ''_'' then CHR ''/'' else c)"

lemma B64_url: "map url_to_std B64URL = B64"
  by (simp add: B64_def B64URL_def url_to_std_def)

lemma B64_nth: "B64 ! unat (x AND 63) = url_to_std (B64URL ! unat (x AND 63))" for x :: u32
proof -
  have "unat (x AND 63) < length B64URL"
    using and_63_less [of x] B64_url length_B64 by (metis length_map)
  then show ?thesis by (metis B64_url nth_map)
qed

lemma base64url_inj: "base64url_encode a = base64url_encode b \<Longrightarrow> a = b"
proof -
  have "map url_to_std (b64_chunk B64URL c) = b64_chunk B64 c" for c
    by (simp add: b64_chunk_def Let_def B64_nth)
  then have std: "map url_to_std (base64url_encode d) = base64_encode d" for d
    by (simp add: base64url_encode_def base64_encode_def map_concat comp_def)
  assume "base64url_encode a = base64url_encode b"
  then have "base64_encode a = base64_encode b" using std by metis
  then show ?thesis by (metis base64_roundtrip option.inject)
qed

lemma json_write_inj:
  "json_ok MAX_DEPTH a \<and> json_finite a \<Longrightarrow> json_ok MAX_DEPTH b \<and> json_finite b \<Longrightarrow> json_write a = json_write b \<Longrightarrow> a = b"
  by (metis json_parse_write sum.inject(2))

lemma f64_of_nat_inj: "m < 2 ^ 53 \<Longrightarrow> n < 2 ^ 53 \<Longrightarrow> f64_of_nat m = f64_of_nat n \<longleftrightarrow> m = n"
  by (simp add: f64_of_nat_small)

lemma event_kind_object: "event_kind (pdu_object p) = kind p"
  by (simp add: event_kind_def map_of_object map_of_unhashed)

lemma reference_object_alt:
  "reference_object p v = bt_remove ''unsigned'' (bt_remove ''signatures'' (bt_remove ''event_id''
     (bt_insert ''content'' (JObject (redacted_content (kind p) (Some (pdu_content p)) v)) (keep PRESERVED_TOP_KEYS (pdu_object p)))))"
  by (simp add: reference_object_def pdu_to_json_def redact_object event_kind_object map_of_object map_of_unhashed)

lemma map_of_reference_object:
  "map_of (reference_object p v) k =
     (if k \<in> {''unsigned'', ''signatures'', ''event_id''} then None
      else if k = ''content'' then Some (JObject (redacted_content (kind p) (Some (pdu_content p)) v))
      else if k \<in> set PRESERVED_TOP_KEYS then map_of (pdu_object p) k else None)"
  by (auto simp: reference_object_alt map_of_keep)

lemma redacted_content_ok:
  assumes "json_ok (Suc n) c" "json_finite c"
  shows "json_ok (Suc n) (JObject (redacted_content k (Some c) v)) \<and> json_finite (JObject (redacted_content k (Some c) v))"
proof (cases c)
  case (JObject m)
  then have m: "bt_ok m" "\<And>k v. map_of m k = Some v \<Longrightarrow> utf8_valid k \<and> json_ok n v \<and> json_finite v"
    using assms by (auto dest!: map_of_SomeD)
  have "json_ok (Suc n) (JObject (keep ks m)) \<and> json_finite (JObject (keep ks m))" for ks
    using m(2) by (intro json_ok_object) (auto simp: map_of_keep split: if_splits)
  with assms JObject show ?thesis by (auto simp: redacted_content_def simp del: json_ok.simps json_finite.simps)
qed (simp_all add: redacted_content_def)

lemma reference_values:
  assumes "pdu_wf p" "map_of (reference_object p v) k = Some w"
  shows "utf8_valid k \<and> json_ok (MAX_DEPTH - 1) w \<and> json_finite w"
proof (cases "k = ''content''")
  case True
  with assms show ?thesis
    using redacted_content_ok [of 126 "pdu_content p" "kind p" v, folded max_depth_pred]
    by (auto simp: map_of_reference_object pdu_wf_def ascii_utf8_valid simp del: json_ok.simps json_finite.simps)
next
  case False
  with assms object_values [OF assms(1)] show ?thesis by (simp add: map_of_reference_object split: if_splits)
qed

lemma reference_ok: "pdu_wf p \<Longrightarrow> json_ok MAX_DEPTH (JObject (reference_object p v)) \<and> json_finite (JObject (reference_object p v))"
  by (rule json_ok_root) (simp_all only: reference_values, simp add: reference_object_alt)

text \<open>The derived id does not depend on the id the event carries while it is computed.\<close>

lemma reference_text_event_id: "reference_text (p\<lparr>event_id := e\<rparr>) v = reference_text p v"
  and reference_id_event_id: "pdu_reference_id (p\<lparr>event_id := e\<rparr>) v = pdu_reference_id p v"
proof -
  have u: "pdu_unhashed (p\<lparr>event_id := e\<rparr>) = pdu_unhashed p"
    by (simp add: pdu_unhashed_def pdu_content_def)
  then have "pdu_content_hash (p\<lparr>event_id := e\<rparr>) = pdu_content_hash p"
    by (simp add: pdu_content_hash_def unhashed_text_def)
  then have "reference_object (p\<lparr>event_id := e\<rparr>) v = reference_object p v"
    by (intro bt_ext) (auto simp: reference_object_alt map_of_reference_object [unfolded reference_object_alt]
        map_of_keep map_of_object u pdu_content_def)
  then show t: "reference_text (p\<lparr>event_id := e\<rparr>) v = reference_text p v" by (simp add: reference_text_def)
  then show "pdu_reference_id (p\<lparr>event_id := e\<rparr>) v = pdu_reference_id p v" by (simp add: pdu_reference_id_def)
qed

lemma unhashed_inj:
  assumes "pdu_wf p" "pdu_wf q" "pdu_unhashed p = pdu_unhashed q"
  shows "q\<lparr>event_id := event_id p, content_json := content_json p\<rparr> = p \<and> pdu_content p = pdu_content q"
proof -
  have m: "map_of (pdu_unhashed p) k = map_of (pdu_unhashed q) k" for k using assms(3) by simp
  have ids: "ids = ids'" if "event_id_array ids = event_id_array ids'" for ids ids'
    using that by (simp add: event_id_array_def inj_map_eq_map inj_def)
  have "room_id p = room_id q" "sender p = sender q" "kind p = kind q" "pdu_content p = pdu_content q"
    using m [of "''room_id''"] m [of "''sender''"] m [of "''type''"] m [of "''content''"]
    by (simp_all add: map_of_unhashed)
  moreover have "state_key p = state_key q"
    using m [of "''state_key''"] by (cases "state_key p"; cases "state_key q") (simp_all add: map_of_unhashed)
  moreover have "origin_server_ts p = origin_server_ts q" "depth p = depth q"
    using m [of "''origin_server_ts''"] m [of "''depth''"] assms(1,2)
    by (simp_all add: map_of_unhashed f64_of_nat_inj pdu_wf_def word_unat_eq_iff)
  moreover have "prev_events p = prev_events q" "auth_events p = auth_events q"
    using m [of "''prev_events''"] m [of "''auth_events''"] ids by (simp_all add: map_of_unhashed)
  ultimately show ?thesis by (cases p; cases q) simp
qed

lemma reference_id_text:
  assumes "pdu_wf p" "pdu_wf q" "pdu_reference_id p v = pdu_reference_id q v"
  shows "pdu_unhashed p = pdu_unhashed q \<or>
    (reference_text p v \<noteq> reference_text q v \<and>
       sha256 (as_bytes (reference_text p v)) = sha256 (as_bytes (reference_text q v))) \<or>
    (unhashed_text p \<noteq> unhashed_text q \<and>
       sha256 (as_bytes (unhashed_text p)) = sha256 (as_bytes (unhashed_text q)))"
proof -
  have digest: "sha256 (as_bytes (reference_text p v)) = sha256 (as_bytes (reference_text q v))"
    using assms(3) by (auto simp: pdu_reference_id_def reference_id_def dest: base64url_inj)
  have "sha256 (as_bytes (unhashed_text p)) = sha256 (as_bytes (unhashed_text q))"
    if eq: "reference_text p v = reference_text q v"
  proof -
    have "JObject (reference_object p v) = JObject (reference_object q v)"
      using json_write_inj reference_ok [OF assms(1)] reference_ok [OF assms(2)] eq
      unfolding reference_text_def by blast
    then have "map_of (reference_object p v) ''hashes'' = map_of (reference_object q v) ''hashes''" by simp
    then have "pdu_content_hash p = pdu_content_hash q"
      by (simp add: map_of_reference_object PRESERVED_TOP_KEYS_def map_of_object)
    then show ?thesis
      unfolding pdu_content_hash_def by (metis base64_roundtrip option.inject)
  qed
  moreover have "pdu_unhashed p = pdu_unhashed q" if "unhashed_text p = unhashed_text q"
    using json_write_inj [OF unhashed_ok [OF assms(1)] unhashed_ok [OF assms(2)]] that
    by (simp add: unhashed_text_def)
  ultimately show ?thesis using digest by blast
qed

text \<open>The event read back from its redacted JSON.\<close>

lemma redacted_wf:
  assumes "pdu_wf p" "c = JObject (redacted_content (kind p) (Some (pdu_content p)) v)"
  shows "pdu_from_json (redact (pdu_to_json p) v) = Inr (p\<lparr>content_json := json_write c\<rparr>) \<and>
    pdu_wf (p\<lparr>content_json := json_write c\<rparr>) \<and> pdu_content (p\<lparr>content_json := json_write c\<rparr>) = c"
proof -
  have c: "json_ok (MAX_DEPTH - 1) c \<and> json_finite c"
    using redacted_content_ok [of 126 "pdu_content p" "kind p" v, folded max_depth_pred] assms
    by (simp add: pdu_wf_def del: json_ok.simps json_finite.simps)
  then have "json_ok MAX_DEPTH c"
    using json_ok_mono [of "MAX_DEPTH - 1" c MAX_DEPTH] by simp
  with c have content: "pdu_content (p\<lparr>content_json := json_write c\<rparr>) = c"
    by (simp add: pdu_content_def)
  have wf: "pdu_wf (p\<lparr>content_json := json_write c\<rparr>)"
    using assms(1) c content by (simp add: pdu_wf_def)
  let ?q = "p\<lparr>content_json := json_write c\<rparr>"
  have get: "json_get (redact (pdu_to_json p) v) k = json_get (pdu_to_json ?q) k"
    if "k \<noteq> ''hashes''" "k \<in> set PRESERVED_TOP_KEYS" for k
    using that assms(2) content
    by (auto simp: json_get_def pdu_to_json_def redact_object event_kind_object map_of_keep map_of_object map_of_unhashed)
  have "pdu_from_json (redact (pdu_to_json p) v) = pdu_from_json (pdu_to_json ?q)"
    unfolding pdu_from_json_def parse_id_def str_field_def u64_field_def parse_id_array_def
    by (simp add: get PRESERVED_TOP_KEYS_def)
  with pdu_roundtrip [OF wf] content wf show ?thesis by simp
qed

subsection \<open>Properties\<close>

definition sample_pdu :: pdu where
  "sample_pdu = \<lparr>event_id = EventId ''$e'', room_id = RoomId ''!r:s'', sender = UserId ''@u:s'', kind = ''m.room.message'',
     state_key = None, origin_server_ts = 7, depth = 1, prev_events = [], auth_events = [],
     content_json = json_write (JObject [(''body'', JString ''x'')])\<rparr>"

lemma sample_content: "pdu_content (sample_pdu\<lparr>event_id := e\<rparr>) = JObject [(''body'', JString ''x'')]"
proof -
  have "json_ok MAX_DEPTH (JObject [(''body'', JString ''x'')]) \<and> json_finite (JObject [(''body'', JString ''x'')])"
    by (simp add: MAX_DEPTH_def bt_ok_def ascii_utf8_valid)
  then show ?thesis by (simp add: pdu_content_def sample_pdu_def del: json_write.simps)
qed

lemma sample_wf: "event_ok e \<Longrightarrow> utf8_valid (event_as_str e) \<Longrightarrow> pdu_wf (sample_pdu\<lparr>event_id := e\<rparr>)"
  unfolding pdu_wf_def sample_content
  by (simp add: sample_pdu_def room_ok_def user_ok_def room_id_parse_def user_id_parse_def split_sigil_def
      ascii_utf8_valid MAX_DEPTH_def bt_ok_def)

text \<open>A well-formed event survives its JSON form: the serialized text parses, and reading the parsed
  value re-validates to the same event, with its content in canonical form.\<close>

theorem pdu_wire_roundtrip:
  assumes "pdu_wf p"
  shows "json_parse (json_write (pdu_to_json p)) = Inr (pdu_to_json p) \<and>
    pdu_from_json (pdu_to_json p) = Inr (p\<lparr>content_json := json_write (pdu_content p)\<rparr>)"
  using pdu_json_ok [OF assms] json_parse_write pdu_roundtrip [OF assms] by blast

theorem pdu_wire_roundtrip_witness:
  "\<exists>t v. t = json_write (pdu_to_json sample_pdu) \<and> json_parse t = Inr v \<and> pdu_from_json v = Inr sample_pdu"
proof -
  have wf: "pdu_wf sample_pdu" and c: "pdu_content sample_pdu = JObject [(''body'', JString ''x'')]"
    using sample_wf [of "EventId ''$e''"] sample_content [of "EventId ''$e''"]
    by (simp_all add: sample_pdu_def event_ok_def event_id_parse_def ascii_utf8_valid)
  have "sample_pdu\<lparr>content_json := json_write (pdu_content sample_pdu)\<rparr> = sample_pdu"
    unfolding c by (simp add: sample_pdu_def)
  with pdu_wire_roundtrip [OF wf] show ?thesis by auto
qed

text \<open>C18: The reference id commits to the event: two well-formed events with one id agree in everything but
  the id they carry, or one of the two texts hashed (the redacted event, the event without its
  hashes) exhibits a SHA-256 collision.\<close>

theorem reference_id_binds:
  assumes "pdu_wf p" "pdu_wf q" "pdu_reference_id p v = pdu_reference_id q v"
  shows "(q\<lparr>event_id := event_id p, content_json := content_json p\<rparr> = p \<and> pdu_content p = pdu_content q) \<or>
    (reference_text p v \<noteq> reference_text q v \<and>
       sha256 (as_bytes (reference_text p v)) = sha256 (as_bytes (reference_text q v))) \<or>
    (unhashed_text p \<noteq> unhashed_text q \<and>
       sha256 (as_bytes (unhashed_text p)) = sha256 (as_bytes (unhashed_text q)))"
  using reference_id_text [OF assms] unhashed_inj [OF assms(1,2)] by blast

theorem reference_id_binds_witness:
  "pdu_content (sample_pdu\<lparr>event_id := EventId ''$a''\<rparr>) = pdu_content (sample_pdu\<lparr>event_id := EventId ''$b''\<rparr>)"
proof -
  let ?p = "sample_pdu\<lparr>event_id := EventId ''$a''\<rparr>" and ?q = "sample_pdu\<lparr>event_id := EventId ''$b''\<rparr>"
  have "pdu_unhashed ?p = pdu_unhashed ?q" by (simp add: pdu_unhashed_def pdu_content_def)
  then have "unhashed_text ?p = unhashed_text ?q" by (simp add: unhashed_text_def)
  moreover have "reference_text ?p 12 = reference_text ?q 12" by (simp only: reference_text_event_id)
  ultimately show ?thesis
    using reference_id_binds [of ?p ?q 12] reference_id_event_id [where p = sample_pdu and v = 12]
    by (auto simp: sample_wf event_ok_def event_id_parse_def ascii_utf8_valid)
qed

text \<open>The id is not invariant under redaction, since it is computed from a content hash taken of the
  content at hand: when redaction drops part of the content, the event read back from the redacted
  JSON has another id, or SHA-256 collides on the texts hashed.\<close>

theorem reference_id_changes_on_redaction:
  assumes "pdu_wf p" "JObject (redacted_content (kind p) (Some (pdu_content p)) v) \<noteq> pdu_content p"
  shows "\<exists>q. pdu_from_json (redact (pdu_to_json p) v) = Inr q \<and>
    (pdu_reference_id q v \<noteq> pdu_reference_id p v \<or>
     (reference_text q v \<noteq> reference_text p v \<and>
        sha256 (as_bytes (reference_text q v)) = sha256 (as_bytes (reference_text p v))) \<or>
     (unhashed_text q \<noteq> unhashed_text p \<and>
        sha256 (as_bytes (unhashed_text q)) = sha256 (as_bytes (unhashed_text p))))"
proof -
  define q where "q = p\<lparr>content_json := json_write (JObject (redacted_content (kind p) (Some (pdu_content p)) v))\<rparr>"
  note r = redacted_wf [OF assms(1) refl, of v, folded q_def]
  have "pdu_unhashed q \<noteq> pdu_unhashed p"
    using unhashed_inj [of q p] r assms by auto
  with r reference_id_text [of q p v] assms(1) show ?thesis by blast
qed

theorem reference_id_changes_on_redaction_witness:
  "\<exists>q. pdu_from_json (redact (pdu_to_json sample_pdu) 12) = Inr q \<and> content_json q = ''{}''"
proof -
  have wf: "pdu_wf sample_pdu" and c: "pdu_content sample_pdu = JObject [(''body'', JString ''x'')]"
    using sample_wf [of "EventId ''$e''"] sample_content [of "EventId ''$e''"]
    by (simp_all add: sample_pdu_def event_ok_def event_id_parse_def ascii_utf8_valid)
  have "kind sample_pdu = ''m.room.message''" by (simp add: sample_pdu_def)
  then have e: "redacted_content (kind sample_pdu) (Some (pdu_content sample_pdu)) 12 = []"
    unfolding c by (simp add: redacted_content_def allowed_keys_def event_type_defs keep_def)
  then obtain q where "pdu_from_json (redact (pdu_to_json sample_pdu) 12) = Inr q"
    using reference_id_changes_on_redaction [OF wf, of 12] unfolding c e by auto
  with redacted_wf [OF wf refl, of 12] show ?thesis unfolding e by simp
qed

text \<open>A time stamp above \<open>2 ^ 53\<close> is silently changed by the JSON form.\<close>

theorem timestamp_precision_lost:
  "map_of (pdu_object (sample_pdu\<lparr>origin_server_ts := 9007199254740993\<rparr>)) ''origin_server_ts'' =
     Some (JNumber (Finite 9007199254740992))"
  by (simp add: map_of_object map_of_unhashed f64_of_nat_def f64_of_ratio_def ratio_log2_def ilog2.simps
      div_half_even_def)

end
