(* ===== verification/AuthRules.thy ===== *)
theory AuthRules
  imports Pdu
begin

section \<open>Event authorization (gm-stateres, auth.rs)\<close>

text \<open>
  The authorization rules on a room state (a list of state events), the auth chain of an event and
  the check of a federated event against the state its own auth events form.  A map of events is a
  finite association list that is only looked up.  Power levels are unbounded integers holding an
  \<open>i64\<close>, as no rule computes with them.
\<close>

datatype auth_error =
    DuplicateCreate
  | NoCreateEvent
  | SenderNotJoined
  | InsufficientPower
  | MembershipForbidden
  | MissingAuthEvent

definition DEFAULT_STATE_POWER :: int where "DEFAULT_STATE_POWER = 50"
definition DEFAULT_EVENTS_POWER :: int where "DEFAULT_EVENTS_POWER = 0"
definition DEFAULT_INVITE_POWER :: int where "DEFAULT_INVITE_POWER = 0"
definition DEFAULT_KICK_POWER :: int where "DEFAULT_KICK_POWER = 50"
definition DEFAULT_BAN_POWER :: int where "DEFAULT_BAN_POWER = 50"
definition DEFAULT_REDACT_POWER :: int where "DEFAULT_REDACT_POWER = 50"
definition CREATOR_POWER :: int where "CREATOR_POWER = 100"

subsection \<open>Reading a room state\<close>

record auth_view =
  view_create :: "pdu option"
  view_power_levels :: "json option"
  view_join_rules :: "json option"
  view_members :: "(string \<times> string) list"
  view_third_party_invites :: "(string \<times> string) list"

text \<open>\<open>Json::parse(&p.content_json).ok().and_then(|c| c.get(key).and_then(Json::as_str))\<close>\<close>

definition content_str :: "pdu \<Rightarrow> string \<Rightarrow> string option" where
  "content_str p key =
     Option.bind (json_parse_ok (content_json p)) (\<lambda>c. Option.bind (json_get c key) as_str)"

definition view_step :: "auth_view \<Rightarrow> pdu \<Rightarrow> auth_view" where
  "view_step view p =
     (if kind p = ROOM_CREATE then view\<lparr>view_create := Some p\<rparr>
      else if kind p = ROOM_POWER_LEVELS then view\<lparr>view_power_levels := json_parse_ok (content_json p)\<rparr>
      else if kind p = ROOM_JOIN_RULES then view\<lparr>view_join_rules := json_parse_ok (content_json p)\<rparr>
      else if kind p = ROOM_THIRD_PARTY_INVITE then
        (case state_key p of
           Some token \<Rightarrow>
             (let advertised = (case content_str p ''public_key'' of Some k \<Rightarrow> k | None \<Rightarrow> []) in
              view\<lparr>view_third_party_invites := view_third_party_invites view @ [(token, advertised)]\<rparr>)
         | None \<Rightarrow> view)
      else if kind p = ROOM_MEMBER then
        (case state_key p of
           Some user \<Rightarrow>
             (case content_str p ''membership'' of
                Some membership \<Rightarrow> view\<lparr>view_members := view_members view @ [(user, membership)]\<rparr>
              | None \<Rightarrow> view)
         | None \<Rightarrow> view)
      else view)"

definition auth_view_new :: "pdu list \<Rightarrow> auth_view" where
  "auth_view_new state = foldl view_step
     \<lparr>view_create = None, view_power_levels = None, view_join_rules = None, view_members = [],
      view_third_party_invites = []\<rparr> state"

definition third_party_public_key :: "auth_view \<Rightarrow> string \<Rightarrow> string option" where
  "third_party_public_key view token = map_option snd (find (\<lambda>(t, _). t = token) (view_third_party_invites view))"

definition view_membership :: "auth_view \<Rightarrow> string \<Rightarrow> string option" where
  "view_membership view user = map_option snd (find (\<lambda>(u, _). u = user) (view_members view))"

definition view_join_rule :: "auth_view \<Rightarrow> string" where
  "view_join_rule view =
     (case Option.bind (view_join_rules view) (\<lambda>j. Option.bind (json_get j ''join_rule'') as_str) of
        Some r \<Rightarrow> r
      | None \<Rightarrow> ''invite'')"

definition view_level :: "auth_view \<Rightarrow> string \<Rightarrow> int \<Rightarrow> int" where
  "view_level view key dflt =
     (case Option.bind (view_power_levels view) (\<lambda>pl. Option.bind (json_get pl key) as_i64) of
        Some l \<Rightarrow> l
      | None \<Rightarrow> dflt)"

definition invite_level :: "auth_view \<Rightarrow> int" where
  "invite_level view = view_level view ''invite'' DEFAULT_INVITE_POWER"
definition kick_level :: "auth_view \<Rightarrow> int" where
  "kick_level view = view_level view ''kick'' DEFAULT_KICK_POWER"
definition ban_level :: "auth_view \<Rightarrow> int" where
  "ban_level view = view_level view ''ban'' DEFAULT_BAN_POWER"
definition redact_level :: "auth_view \<Rightarrow> int" where
  "redact_level view = view_level view ''redact'' DEFAULT_REDACT_POWER"
definition state_default :: "auth_view \<Rightarrow> int" where
  "state_default view = view_level view ''state_default'' DEFAULT_STATE_POWER"
definition events_default :: "auth_view \<Rightarrow> int" where
  "events_default view = view_level view ''events_default'' DEFAULT_EVENTS_POWER"

definition event_level :: "auth_view \<Rightarrow> string \<Rightarrow> bool \<Rightarrow> int" where
  "event_level view k is_state =
     (case Option.bind (view_power_levels view) (\<lambda>pl.
             Option.bind (json_get pl ''events'') (\<lambda>e. Option.bind (json_get e k) as_i64)) of
        Some level \<Rightarrow> level
      | None \<Rightarrow> if is_state then state_default view else events_default view)"

definition create_room_version :: "pdu \<Rightarrow> u8" where
  "create_room_version create =
     (case Option.bind (content_str create ''room_version'') (parse_uint 255) of
        Some v \<Rightarrow> word_of_nat v
      | None \<Rightarrow> 1)"

text \<open>The room creator, by room version.\<close>

definition room_creator :: "pdu \<Rightarrow> string option" where
  "room_creator create =
     (if 11 \<le> create_room_version create then Some (user_as_str (sender create))
      else content_str create ''creator'')"

definition view_creator :: "auth_view \<Rightarrow> string option" where
  "view_creator view = Option.bind (view_create view) room_creator"

definition view_power_level :: "auth_view \<Rightarrow> string \<Rightarrow> int" where
  "view_power_level view user =
     (case view_power_levels view of
        Some pl \<Rightarrow>
          (case Option.bind (json_get pl ''users'') (\<lambda>u. Option.bind (json_get u user) as_i64) of
             Some l \<Rightarrow> l
           | None \<Rightarrow>
               (case Option.bind (json_get pl ''users_default'') as_i64 of Some l \<Rightarrow> l | None \<Rightarrow> 0))
      | None \<Rightarrow> if view_creator view = Some user then CREATOR_POWER else 0)"

subsection \<open>The rules\<close>

definition redaction_targets_own_domain :: "pdu \<Rightarrow> bool" where
  "redaction_targets_own_domain event =
     (case content_str event ''redacts'' of
        None \<Rightarrow> False
      | Some redacts \<Rightarrow>
          (case split_once (CHR '':'') redacts of
             None \<Rightarrow> False
           | Some (_, target_domain) \<Rightarrow>
               (case split_once (CHR '':'') (user_as_str (sender event)) of
                  None \<Rightarrow> False
                | Some (_, sender_domain) \<Rightarrow> sender_domain = target_domain)))"

definition restricted_join_authorised :: "pdu \<Rightarrow> auth_view \<Rightarrow> bool" where
  "restricted_join_authorised event view =
     (case content_str event ''join_authorised_via_users_server'' of
        None \<Rightarrow> False
      | Some authoriser \<Rightarrow>
          view_membership view authoriser = Some ''join'' \<and> invite_level view \<le> view_power_level view authoriser)"

definition signed_block :: "pdu \<Rightarrow> json option" where
  "signed_block event =
     Option.bind (json_parse_ok (content_json event)) (\<lambda>c.
       Option.bind (json_get c ''third_party_invite'') (\<lambda>t. json_get t ''signed''))"

definition remove_signatures :: "json \<Rightarrow> json" where
  "remove_signatures v = (case v of JObject m \<Rightarrow> JObject (bt_remove ''signatures'' m) | _ \<Rightarrow> v)"

definition third_party_invite_is_valid :: "pdu \<Rightarrow> auth_view \<Rightarrow> bool" where
  "third_party_invite_is_valid event view =
     (case signed_block event of
        None \<Rightarrow> False
      | Some signed_obj \<Rightarrow>
          (case Option.bind (json_get signed_obj ''token'') as_str of
             None \<Rightarrow> False
           | Some token \<Rightarrow>
               (case third_party_public_key view token of
                  None \<Rightarrow> False
                | Some advertised \<Rightarrow>
                    (let bytes = as_bytes (json_write (remove_signatures signed_obj)) in
                     case Option.bind (json_get signed_obj ''signatures'') as_object of
                       None \<Rightarrow> False
                     | Some signatures \<Rightarrow>
                         list_ex (\<lambda>(_, by_key).
                           case as_object by_key of
                             None \<Rightarrow> False
                           | Some keys \<Rightarrow>
                               list_ex (\<lambda>(_, sig).
                                 case as_str sig of Some s \<Rightarrow> verify_b64 bytes s advertised | None \<Rightarrow> False) keys)
                           signatures))))"

definition check_member_auth :: "pdu \<Rightarrow> auth_view \<Rightarrow> auth_error + unit" where
  "check_member_auth event view =
     (let s = user_as_str (sender event) in
      case state_key event of
        None \<Rightarrow> Inl MembershipForbidden
      | Some target \<Rightarrow>
          (let new = (case content_str event ''membership'' of Some m \<Rightarrow> m | None \<Rightarrow> []);
               target_current = view_membership view target in
           if new = ''join'' then
             (if target \<noteq> s then Inl MembershipForbidden
              else if target_current = Some ''ban'' then Inl MembershipForbidden
              else if view_creator view = Some s \<and> target_current = None then Inr ()
              else if target_current = Some ''invite'' then Inr ()
              else if view_join_rule view = ''public'' then Inr ()
              else if view_join_rule view \<in> {''restricted'', ''knock_restricted''} then
                (if restricted_join_authorised event view then Inr () else Inl MembershipForbidden)
              else Inl MembershipForbidden)
           else if new = ''invite'' then
             (if view_membership view s \<noteq> Some ''join'' then Inl SenderNotJoined
              else if target_current \<in> {Some ''join'', Some ''ban''} then Inl MembershipForbidden
              else if third_party_invite_is_valid event view then Inr ()
              else if view_power_level view s < invite_level view then Inl InsufficientPower
              else Inr ())
           else if new = ''leave'' then
             (if target = s then Inr ()
              else if view_membership view s \<noteq> Some ''join'' then Inl SenderNotJoined
              else if view_power_level view s < kick_level view \<or> view_power_level view s \<le> view_power_level view target
              then Inl InsufficientPower
              else Inr ())
           else if new = ''ban'' then
             (if view_membership view s \<noteq> Some ''join'' then Inl SenderNotJoined
              else if view_power_level view s < ban_level view \<or> view_power_level view s \<le> view_power_level view target
              then Inl InsufficientPower
              else Inr ())
           else if new = ''knock'' then
             (if target = s \<and> view_join_rule view \<in> {''knock'', ''knock_restricted''} \<and>
                 target_current \<notin> {Some ''join'', Some ''ban''}
              then Inr () else Inl MembershipForbidden)
           else Inl MembershipForbidden))"

definition check_auth :: "pdu \<Rightarrow> pdu list \<Rightarrow> auth_error + unit" where
  "check_auth event state =
     (let view = auth_view_new state in
      if kind event = ROOM_CREATE then
        (if view_create view \<noteq> None then Inl DuplicateCreate else Inr ())
      else if view_create view = None then Inl NoCreateEvent
      else if kind event = ROOM_MEMBER then check_member_auth event view
      else
        (let s = user_as_str (sender event) in
         if view_membership view s \<noteq> Some ''join'' then Inl SenderNotJoined
         else if kind event = ROOM_REDACTION then
           (if redaction_targets_own_domain event then Inr ()
            else if redact_level view \<le> view_power_level view s then Inr ()
            else Inl InsufficientPower)
         else if view_power_level view s < event_level view (kind event) (pdu_is_state event)
         then Inl InsufficientPower
         else Inr ()))"

subsection \<open>The auth chain\<close>

type_synonym pdus = "(event_id \<times> pdu) list"

text \<open>
  The work list of \<open>auth_chain\<close>: \<open>stack\<close> grows and shrinks at its end.
\<close>

function auth_chain_loop :: "pdus \<Rightarrow> event_id set \<Rightarrow> event_id list \<Rightarrow> event_id set" where
  "auth_chain_loop by_id seen stack =
     (if stack = [] then seen
      else (let i = last stack; stack = butlast stack in
            if i \<in> seen then auth_chain_loop by_id seen stack
            else (let seen = insert i seen in
                  case map_of by_id i of
                    None \<Rightarrow> auth_chain_loop by_id seen stack
                  | Some p \<Rightarrow>
                      auth_chain_loop by_id seen
                        (stack @ filter (\<lambda>parent. parent \<notin> seen) (auth_events p)))))"
  by pat_completeness auto

text \<open>All ids a chain can meet: an id leaves this set when it is seen, or the stack shrinks.\<close>

definition chain_universe :: "pdus \<Rightarrow> event_id list \<Rightarrow> event_id set" where
  "chain_universe by_id stack = set stack \<union> (\<Union>p\<in>snd ` set by_id. set (auth_events p))"

lemma finite_universe [simp]: "finite (chain_universe by_id stack)"
  by (simp add: chain_universe_def)

lemma universe_seen_less:
  assumes "stack \<noteq> []" "last stack \<notin> seen" "chain_universe by_id stack' \<subseteq> chain_universe by_id stack"
  shows "card (chain_universe by_id stack' - insert (last stack) seen) < card (chain_universe by_id stack - seen)"
proof (rule psubset_card_mono)
  have "last stack \<in> chain_universe by_id stack" using assms(1) by (simp add: chain_universe_def)
  then show "chain_universe by_id stack' - insert (last stack) seen \<subset> chain_universe by_id stack - seen"
    using assms(2,3) by blast
qed simp

lemma universe_butlast: "chain_universe by_id (butlast stack) \<subseteq> chain_universe by_id stack"
  by (auto simp: chain_universe_def dest: in_set_butlastD)

lemma universe_parents:
  "map_of by_id i = Some p \<Longrightarrow> chain_universe by_id (butlast stack @ filter P (auth_events p)) \<subseteq> chain_universe by_id stack"
  by (auto simp: chain_universe_def dest: in_set_butlastD map_of_SomeD intro!: bexI)

termination auth_chain_loop
proof (relation "(\<lambda>(by_id, seen, stack). card (chain_universe by_id stack - seen)) <*mlex*> measure (\<lambda>(_, _, stack). length stack)",
    goal_cases)
  case (2 by_id seen stack i rest)
  then show ?case
    using universe_butlast [of by_id stack]
    by (intro mlex_leq) (auto intro!: card_mono)
next
  case (3 by_id seen stack i rest seen')
  then show ?case
    using universe_seen_less [of stack seen by_id "butlast stack"] universe_butlast [of by_id stack]
    by (intro mlex_less) auto
next
  case (4 by_id seen stack i rest seen' p)
  then show ?case
    using universe_seen_less [of stack seen by_id] universe_parents [of by_id i p stack]
    by (intro mlex_less) auto
qed (simp add: wf_mlex)

declare auth_chain_loop.simps [simp del]

definition auth_chain :: "event_id list \<Rightarrow> pdus \<Rightarrow> event_id set" where
  "auth_chain roots by_id = auth_chain_loop by_id {} roots"

definition check_auth_with_chain :: "pdu \<Rightarrow> pdus \<Rightarrow> auth_error + unit" where
  "check_auth_with_chain event by_id =
     (let chain = auth_chain (auth_events event) by_id in
      if \<exists>i\<in>chain. map_of by_id i = None then Inl MissingAuthEvent
      else (let auth_state = List.map_filter (map_of by_id) (auth_events event) in
            if kind event \<noteq> ROOM_CREATE \<and>
               \<not> (\<exists>i\<in>chain. case map_of by_id i of Some p \<Rightarrow> kind p = ROOM_CREATE | None \<Rightarrow> False)
            then Inl NoCreateEvent
            else check_auth event auth_state))"

subsection \<open>The chain is the set of reachable events\<close>

inductive reachable :: "pdus \<Rightarrow> event_id list \<Rightarrow> event_id \<Rightarrow> bool" for by_id roots where
  root: "i \<in> set roots \<Longrightarrow> reachable by_id roots i"
| parent: "reachable by_id roots i \<Longrightarrow> map_of by_id i = Some p \<Longrightarrow> j \<in> set (auth_events p) \<Longrightarrow> reachable by_id roots j"

lemma reachable_trans:
  "reachable by_id roots' i \<Longrightarrow> (\<And>j. j \<in> set roots' \<Longrightarrow> reachable by_id roots j) \<Longrightarrow> reachable by_id roots i"
  by (induction rule: reachable.induct) (auto intro: reachable.intros)

definition pushed :: "pdus \<Rightarrow> event_id set \<Rightarrow> event_id \<Rightarrow> event_id list" where
  "pushed by_id seen i = (case map_of by_id i of None \<Rightarrow> [] | Some p \<Rightarrow> filter (\<lambda>parent. parent \<notin> seen) (auth_events p))"

lemma auth_chain_induct [case_names empty seen unseen]:
  assumes "\<And>by_id seen. P by_id seen []"
    and "\<And>by_id seen stack. stack \<noteq> [] \<Longrightarrow> last stack \<in> seen \<Longrightarrow> P by_id seen (butlast stack) \<Longrightarrow> P by_id seen stack"
    and "\<And>by_id seen stack. stack \<noteq> [] \<Longrightarrow> last stack \<notin> seen \<Longrightarrow>
      P by_id (insert (last stack) seen) (butlast stack @ pushed by_id (insert (last stack) seen) (last stack)) \<Longrightarrow>
      P by_id seen stack"
  shows "P by_id seen stack"
proof (induction by_id seen stack rule: auth_chain_loop.induct)
  case (1 by_id seen stack)
  consider "stack = []" | "stack \<noteq> []" "last stack \<in> seen" | "stack \<noteq> []" "last stack \<notin> seen" by blast
  then show ?case
  proof cases
    case 3
    show ?thesis
    proof (rule assms(3) [OF 3])
      show "P by_id (insert (last stack) seen) (butlast stack @ pushed by_id (insert (last stack) seen) (last stack))"
        using "1.IH"(2,3) [OF 3(1) refl refl 3(2) refl]
        by (cases "map_of by_id (last stack)") (simp_all add: pushed_def)
    qed
  qed (use assms(1,2) 1 in auto)
qed

lemma auth_chain_loop_simps:
  "auth_chain_loop by_id seen [] = seen"
  "stack \<noteq> [] \<Longrightarrow> last stack \<in> seen \<Longrightarrow> auth_chain_loop by_id seen stack = auth_chain_loop by_id seen (butlast stack)"
  "stack \<noteq> [] \<Longrightarrow> last stack \<notin> seen \<Longrightarrow> auth_chain_loop by_id seen stack =
     auth_chain_loop by_id (insert (last stack) seen) (butlast stack @ pushed by_id (insert (last stack) seen) (last stack))"
  by (simp_all add: auth_chain_loop.simps [of by_id seen stack] auth_chain_loop.simps [of by_id seen "[]"] Let_def pushed_def
      split: option.splits)

lemma set_stack: "stack \<noteq> [] \<Longrightarrow> set stack = insert (last stack) (set (butlast stack))"
  by (metis append_butlast_last_id list.set(1,2) set_append Un_insert_right sup_bot_right)

lemma auth_chain_loop_sub: "seen \<union> set stack \<subseteq> auth_chain_loop by_id seen stack"
  by (induction by_id seen stack rule: auth_chain_induct) (auto simp: auth_chain_loop_simps set_stack)

definition parents_in :: "pdus \<Rightarrow> event_id set \<Rightarrow> event_id set \<Rightarrow> bool" where
  "parents_in by_id A B \<longleftrightarrow> (\<forall>i\<in>A. \<forall>p. map_of by_id i = Some p \<longrightarrow> set (auth_events p) \<subseteq> B)"

lemma auth_chain_loop_closed:
  "parents_in by_id seen (seen \<union> set stack) \<Longrightarrow>
   parents_in by_id (auth_chain_loop by_id seen stack) (auth_chain_loop by_id seen stack)"
proof (induction by_id seen stack rule: auth_chain_induct)
  case (seen by_id seen stack)
  then show ?case by (simp add: auth_chain_loop_simps set_stack insert_absorb)
next
  case (unseen by_id seen stack)
  have "parents_in by_id (insert (last stack) seen)
      (insert (last stack) seen \<union> set (butlast stack @ pushed by_id (insert (last stack) seen) (last stack)))"
    using unseen.prems unfolding parents_in_def set_stack [OF unseen.hyps(1)] by (auto simp: pushed_def)
  from unseen.IH [OF this] show ?case using unseen.hyps by (simp add: auth_chain_loop_simps)
qed (simp add: auth_chain_loop_simps)

lemma auth_chain_loop_reachable: "auth_chain_loop by_id seen stack \<subseteq> seen \<union> Collect (reachable by_id stack)"
proof (induction by_id seen stack rule: auth_chain_induct)
  case (seen by_id seen stack)
  have "reachable by_id (butlast stack) i \<Longrightarrow> reachable by_id stack i" for i
    by (erule reachable_trans) (auto intro: reachable.intros dest: in_set_butlastD)
  with seen show ?case by (auto simp: auth_chain_loop_simps)
next
  case (unseen by_id seen stack)
  have l: "reachable by_id stack (last stack)" using unseen.hyps by (intro root) auto
  have "reachable by_id (butlast stack @ pushed by_id (insert (last stack) seen) (last stack)) i \<Longrightarrow> reachable by_id stack i" for i
    by (erule reachable_trans)
      (auto simp: pushed_def intro: root parent [OF l sym] dest: in_set_butlastD split: option.splits)
  with unseen l show ?case by (auto simp: auth_chain_loop_simps)
qed (simp add: auth_chain_loop_simps)

theorem auth_chain_reachable: "auth_chain roots by_id = Collect (reachable by_id roots)"
proof
  show "auth_chain roots by_id \<subseteq> Collect (reachable by_id roots)"
    using auth_chain_loop_reachable [of by_id "{}" roots] by (simp add: auth_chain_def)
  have closed: "parents_in by_id (auth_chain roots by_id) (auth_chain roots by_id)"
    unfolding auth_chain_def by (rule auth_chain_loop_closed) (simp add: parents_in_def)
  have "i \<in> auth_chain roots by_id" if "reachable by_id roots i" for i
    using that
  proof induction
    case (root i)
    then show ?case using auth_chain_loop_sub [of "{}" roots by_id] by (auto simp: auth_chain_def)
  next
    case (parent i p j)
    then show ?case using closed by (auto simp: parents_in_def)
  qed
  then show "Collect (reachable by_id roots) \<subseteq> auth_chain roots by_id" by blast
qed
subsection \<open>The view of a state\<close>

lemma auth_view_snoc: "auth_view_new (state @ [p]) = view_step (auth_view_new state) p"
  by (simp add: auth_view_new_def)

lemma view_create_None: "view_create (auth_view_new state) = None \<longleftrightarrow> (\<forall>p\<in>set state. kind p \<noteq> ROOM_CREATE)"
proof (induction state rule: rev_induct)
  case (snoc p state)
  then show ?case by (auto simp: auth_view_snoc view_step_def Let_def split: option.splits)
qed (simp add: auth_view_new_def)

definition member_entries :: "pdu list \<Rightarrow> (string \<times> string) list" where
  "member_entries state = concat (map (\<lambda>p.
     if kind p = ROOM_MEMBER then
       (case (state_key p, content_str p ''membership'') of (Some u, Some m) \<Rightarrow> [(u, m)] | _ \<Rightarrow> [])
     else []) state)"

definition token_entries :: "pdu list \<Rightarrow> (string \<times> string) list" where
  "token_entries state = concat (map (\<lambda>p.
     if kind p = ROOM_THIRD_PARTY_INVITE then
       (case state_key p of
          Some token \<Rightarrow> [(token, case content_str p ''public_key'' of Some k \<Rightarrow> k | None \<Rightarrow> [])]
        | None \<Rightarrow> [])
     else []) state)"

lemma view_entries:
  "view_members (auth_view_new state) = member_entries state \<and>
   view_third_party_invites (auth_view_new state) = token_entries state"
proof (induction state rule: rev_induct)
  case (snoc p state)
  then show ?case
    by (auto simp: auth_view_snoc view_step_def member_entries_def token_entries_def Let_def split: option.splits)
qed (simp add: auth_view_new_def member_entries_def token_entries_def)

lemma view_membership_entries:
  "view_membership (auth_view_new state) u = map_of (member_entries state) u"
proof -
  have "map_option snd (find (\<lambda>(x, _). x = u) ps) = map_of ps u" for ps :: "(string \<times> string) list"
    by (induction ps) auto
  then show ?thesis by (simp add: view_membership_def view_entries)
qed

lemma third_party_key_entries:
  "third_party_public_key (auth_view_new state) token = map_of (token_entries state) token"
proof -
  have "map_option snd (find (\<lambda>(x, _). x = u) ps) = map_of ps u" for ps :: "(string \<times> string) list" and u
    by (induction ps) auto
  then show ?thesis by (simp add: third_party_public_key_def view_entries)
qed

lemma check_auth_cases:
  assumes "check_auth e state = Inr ()"
  obtains (create) "kind e = ROOM_CREATE" "view_create (auth_view_new state) = None"
  | (member) "kind e = ROOM_MEMBER" "view_create (auth_view_new state) \<noteq> None"
      "check_member_auth e (auth_view_new state) = Inr ()"
  | (other) "kind e \<noteq> ROOM_CREATE" "kind e \<noteq> ROOM_MEMBER" "view_create (auth_view_new state) \<noteq> None"
      "view_membership (auth_view_new state) (user_as_str (sender e)) = Some ''join''"
  using assms by (auto simp: check_auth_def Let_def split: if_splits)

lemma check_member_cases:
  assumes "check_member_auth e view = Inr ()"
  obtains target new where "state_key e = Some target" "content_str e ''membership'' = Some new"
    "(new = ''join'' \<and> target = user_as_str (sender e) \<and> view_membership view target \<noteq> Some ''ban'' \<and>
        (view_creator view = Some target \<and> view_membership view target = None \<or>
         view_membership view target = Some ''invite'' \<or> view_join_rule view = ''public'' \<or>
         view_join_rule view \<in> {''restricted'', ''knock_restricted''} \<and> restricted_join_authorised e view)) \<or>
     (new = ''invite'' \<and> view_membership view (user_as_str (sender e)) = Some ''join'' \<and>
        view_membership view target \<notin> {Some ''join'', Some ''ban''} \<and>
        (third_party_invite_is_valid e view \<or> invite_level view \<le> view_power_level view (user_as_str (sender e)))) \<or>
     (new = ''leave'' \<and> target = user_as_str (sender e)) \<or>
     (new \<in> {''leave'', ''ban''} \<and> view_membership view (user_as_str (sender e)) = Some ''join'' \<and>
        (if new = ''ban'' then ban_level view else kick_level view) \<le> view_power_level view (user_as_str (sender e)) \<and>
        view_power_level view target < view_power_level view (user_as_str (sender e))) \<or>
     (new = ''knock'' \<and> target = user_as_str (sender e) \<and> view_join_rule view \<in> {''knock'', ''knock_restricted''} \<and>
        view_membership view target \<notin> {Some ''join'', Some ''ban''})"
proof -
  obtain target where target: "state_key e = Some target"
    using assms by (auto simp: check_member_auth_def Let_def split: option.splits)
  obtain new where new: "content_str e ''membership'' = Some new"
    using assms target by (cases "content_str e ''membership''") (auto simp: check_member_auth_def Let_def)
  have "new \<in> {''join'', ''invite'', ''leave'', ''ban'', ''knock''}"
    using assms target new by (auto simp: check_member_auth_def Let_def split: if_splits)
  then show thesis
    using assms that [OF target new]
    by (auto simp: check_member_auth_def Let_def target new split: if_splits)
qed

text \<open>The state after an event took its slot, and what a change of member events leaves alone.\<close>

definition replace_slot :: "pdu \<Rightarrow> pdu list \<Rightarrow> pdu list" where
  "replace_slot p state = filter (\<lambda>q. \<not> (kind q = kind p \<and> state_key q = state_key p)) state @ [p]"

lemma view_filter_members:
  assumes "\<And>p. p \<in> set state \<Longrightarrow> kind p \<noteq> ROOM_MEMBER \<Longrightarrow> P p"
  shows "view_create (auth_view_new (filter P state)) = view_create (auth_view_new state) \<and>
    view_power_levels (auth_view_new (filter P state)) = view_power_levels (auth_view_new state) \<and>
    view_join_rules (auth_view_new (filter P state)) = view_join_rules (auth_view_new state)"
  using assms
proof (induction state rule: rev_induct)
  case (snoc p state)
  then have "kind p \<noteq> ROOM_MEMBER \<Longrightarrow> P p" by simp
  with snoc show ?case by (auto simp: auth_view_snoc view_step_def Let_def split: option.splits)
qed simp

lemma view_replace_member:
  assumes "kind p = ROOM_MEMBER"
  shows "view_create (auth_view_new (replace_slot p state)) = view_create (auth_view_new state)"
    and "view_join_rules (auth_view_new (replace_slot p state)) = view_join_rules (auth_view_new state)"
  using view_filter_members [of state "\<lambda>q. \<not> (kind q = kind p \<and> state_key q = state_key p)"] assms
  by (auto simp: replace_slot_def auth_view_snoc view_step_def split: option.splits)

lemma member_entries_append: "member_entries (xs @ ys) = member_entries xs @ member_entries ys"
  by (simp add: member_entries_def)

lemma member_entries_single:
  "kind p = ROOM_MEMBER \<Longrightarrow> state_key p = Some u \<Longrightarrow> content_str p ''membership'' = Some m \<Longrightarrow> member_entries [p] = [(u, m)]"
  by (simp add: member_entries_def)

lemma membership_replace_slot:
  assumes "kind p = ROOM_MEMBER" "state_key p = Some u" "content_str p ''membership'' = Some m"
  shows "view_membership (auth_view_new (replace_slot p state)) u = Some m"
proof -
  have "u \<notin> fst ` set (member_entries (filter (\<lambda>q. \<not> (kind q = kind p \<and> state_key q = state_key p)) state))"
    using assms by (auto simp: member_entries_def split: if_splits option.splits)
  then have "map_of (member_entries (filter (\<lambda>q. \<not> (kind q = kind p \<and> state_key q = state_key p)) state)) u = None"
    by (simp add: map_of_eq_None_iff)
  then show ?thesis
    by (simp add: view_membership_entries replace_slot_def member_entries_append member_entries_single [OF assms] map_add_def)
qed

subsection \<open>Properties\<close>

text \<open>C4: Membership follows a fixed transition system: an accepted member event changes its target's membership
  along one of these edges; a banned user can be neither invited, joined nor made to knock; acting on another
  user needs a joined sender, and kicking or banning needs strictly more power than the target.\<close>

theorem membership_transitions:
  assumes "check_auth e state = Inr ()" "kind e = ROOM_MEMBER"
  shows "\<exists>target new. state_key e = Some target \<and> content_str e ''membership'' = Some new \<and>
    (let view = auth_view_new state; self = user_as_str (sender e); cur = view_membership view target in
     new \<in> {''join'', ''invite'', ''leave'', ''ban'', ''knock''} \<and>
     (cur = Some ''ban'' \<longrightarrow> new \<in> {''leave'', ''ban''}) \<and>
     (cur = Some ''join'' \<longrightarrow> new \<notin> {''invite'', ''knock''}) \<and>
     (new \<in> {''join'', ''knock''} \<longrightarrow> target = self) \<and>
     (target \<noteq> self \<longrightarrow> view_membership view self = Some ''join'') \<and>
     (new = ''ban'' \<or> new = ''leave'' \<and> target \<noteq> self \<longrightarrow>
        view_power_level view target < view_power_level view self \<and>
        (if new = ''ban'' then ban_level view else kick_level view) \<le> view_power_level view self))"
  using assms
proof (cases rule: check_auth_cases)
  case member
  from check_member_cases [OF member(3)] show ?thesis
  proof cases
    case (1 target new)
    then show ?thesis by (intro exI [of _ target] exI [of _ new]) (auto simp: Let_def)
  qed
qed (use assms(2) in auto)

text \<open>An event whose sender is not joined is accepted in three cases only: the create event of a room
  without one, and the sender's own join, knock or leave.\<close>

theorem outsider_events:
  assumes "check_auth e state = Inr ()"
    and "view_membership (auth_view_new state) (user_as_str (sender e)) \<noteq> Some ''join''"
  shows "(kind e = ROOM_CREATE \<and> (\<forall>p\<in>set state. kind p \<noteq> ROOM_CREATE)) \<or>
    (kind e = ROOM_MEMBER \<and> state_key e = Some (user_as_str (sender e)) \<and>
     content_str e ''membership'' \<in> {Some ''join'', Some ''knock'', Some ''leave''})"
  using assms(1)
proof (cases rule: check_auth_cases)
  case create
  then show ?thesis by (simp add: view_create_None)
next
  case member
  from check_member_cases [OF member(3)] show ?thesis
  proof cases
    case (1 target new)
    then show ?thesis using assms(2) member(1) by auto
  qed
qed (use assms(2) in auto)

text \<open>A ban can be shaken off: in a public room the banned user's own leave is accepted, and against the
  state it produces so is their join, which the ban forbade.\<close>

theorem ban_evasion:
  assumes "\<exists>p\<in>set state. kind p = ROOM_CREATE"
    and "view_membership (auth_view_new state) u = Some ''ban''" "view_join_rule (auth_view_new state) = ''public''"
    and "kind leave = ROOM_MEMBER" "state_key leave = Some u" "user_as_str (sender leave) = u"
      "content_str leave ''membership'' = Some ''leave''"
    and "kind join = ROOM_MEMBER" "state_key join = Some u" "user_as_str (sender join) = u"
      "content_str join ''membership'' = Some ''join''"
  shows "check_auth join state = Inl MembershipForbidden \<and> check_auth leave state = Inr () \<and>
    check_auth join (replace_slot leave state) = Inr ()"
proof -
  have c: "view_create (auth_view_new state) \<noteq> None"
    using assms(1) by (auto simp: view_create_None)
  have "view_join_rule (auth_view_new (replace_slot leave state)) = ''public''"
    using view_replace_member(2) [OF assms(4)] assms(3) by (simp add: view_join_rule_def)
  then show ?thesis
    using assms c view_replace_member(1) [OF assms(4)] membership_replace_slot [OF assms(4,5,7)]
    by (simp add: check_auth_def check_member_auth_def Let_def)
qed

text \<open>C16: A federated event is accepted only with a complete chain: every event reachable through its auth
  events is at hand, the events it cites itself include a create event (unless it is one), and it passes
  the rules on the state they form.\<close>

theorem chain_checked_completely:
  assumes "check_auth_with_chain e by_id = Inr ()"
  shows "(\<forall>i. reachable by_id (auth_events e) i \<longrightarrow> map_of by_id i \<noteq> None) \<and>
    check_auth e (List.map_filter (map_of by_id) (auth_events e)) = Inr () \<and>
    (kind e \<noteq> ROOM_CREATE \<longrightarrow> (\<exists>i\<in>set (auth_events e). \<exists>p. map_of by_id i = Some p \<and> kind p = ROOM_CREATE))"
proof -
  have ok: "check_auth e (List.map_filter (map_of by_id) (auth_events e)) = Inr ()"
    and chain: "\<forall>i\<in>auth_chain (auth_events e) by_id. map_of by_id i \<noteq> None"
    using assms by (auto simp: check_auth_with_chain_def Let_def split: if_splits)
  have "\<exists>i\<in>set (auth_events e). \<exists>p. map_of by_id i = Some p \<and> kind p = ROOM_CREATE" if "kind e \<noteq> ROOM_CREATE"
  proof -
    have "view_create (auth_view_new (List.map_filter (map_of by_id) (auth_events e))) \<noteq> None"
      using ok that by (auto elim: check_auth_cases)
    then obtain p where "p \<in> set (List.map_filter (map_of by_id) (auth_events e))" "kind p = ROOM_CREATE"
      by (auto simp: view_create_None)
    then show ?thesis by (force simp: map_filter_def)
  qed
  with ok chain show ?thesis by (auto simp: auth_chain_reachable)
qed

text \<open>An invite from a sender without the invite power is refused unless the room holds a third-party
  invite whose advertised key verifies a signature over the event's signed block.\<close>

theorem unsigned_invite_refused:
  assumes "kind e = ROOM_MEMBER" "content_str e ''membership'' = Some ''invite''"
    and "view_power_level (auth_view_new state) (user_as_str (sender e)) < invite_level (auth_view_new state)"
    and unsigned: "\<And>block p public sig. signed_block e = Some block \<Longrightarrow> p \<in> set state \<Longrightarrow>
      kind p = ROOM_THIRD_PARTY_INVITE \<Longrightarrow> state_key p = Option.bind (json_get block ''token'') as_str \<Longrightarrow>
      (case content_str p ''public_key'' of Some k \<Rightarrow> k | None \<Rightarrow> []) = public \<Longrightarrow>
      \<not> verify_b64 (as_bytes (json_write (remove_signatures block))) sig public"
  shows "check_auth e state \<noteq> Inr ()"
proof
  assume "check_auth e state = Inr ()"
  then have "third_party_invite_is_valid e (auth_view_new state)"
  proof (cases rule: check_auth_cases)
    case member
    from check_member_cases [OF member(3)] show ?thesis
      using assms(2,3) by cases auto
  qed (use assms(1) in auto)
  then obtain block token public sig where b: "signed_block e = Some block"
    "Option.bind (json_get block ''token'') as_str = Some token"
    "third_party_public_key (auth_view_new state) token = Some public"
    "verify_b64 (as_bytes (json_write (remove_signatures block))) sig public"
    by (auto simp: third_party_invite_is_valid_def Let_def list_ex_iff split: option.splits)
  from b(3) have "(token, public) \<in> set (token_entries state)"
    by (auto simp: third_party_key_entries dest: map_of_SomeD)
  then obtain p where p: "p \<in> set state" "kind p = ROOM_THIRD_PARTY_INVITE"
    "(token, public) \<in> set (case state_key p of
      Some token \<Rightarrow> [(token, case content_str p ''public_key'' of Some k \<Rightarrow> k | None \<Rightarrow> [])] | None \<Rightarrow> [])"
    by (auto simp: token_entries_def split: if_splits)
  then have "state_key p = Some token" "(case content_str p ''public_key'' of Some k \<Rightarrow> k | None \<Rightarrow> []) = public"
    by (cases "state_key p"; simp)+
  with unsigned [OF b(1) p(1,2)] b(2,4) show False by simp
qed

subsection \<open>A sample room\<close>

definition sample_event :: "string \<Rightarrow> string option \<Rightarrow> string \<Rightarrow> json \<Rightarrow> pdu" where
  "sample_event k sk user c = \<lparr>event_id = EventId ''$e'', room_id = RoomId ''!r:s'', sender = UserId user, kind = k,
     state_key = sk, origin_server_ts = 0, depth = 0, prev_events = [], auth_events = [], content_json = json_write c\<rparr>"

lemma sample_event_sel [simp]:
  "kind (sample_event k sk user c) = k" "state_key (sample_event k sk user c) = sk"
  "sender (sample_event k sk user c) = UserId user" "auth_events (sample_event k sk user c) = []"
  by (simp_all add: sample_event_def)

lemma sample_event_parse [simp]:
  "json_ok MAX_DEPTH c \<Longrightarrow> json_finite c \<Longrightarrow> json_parse_ok (content_json (sample_event k sk user c)) = Some c"
  by (simp add: sample_event_def)

lemma sample_event_str [simp]:
  "json_ok MAX_DEPTH c \<Longrightarrow> json_finite c \<Longrightarrow> content_str (sample_event k sk user c) f = Option.bind (json_get c f) as_str"
  by (simp add: content_str_def)

definition field :: "string \<Rightarrow> string \<Rightarrow> json" where
  "field k v = JObject [(k, JString v)]"

lemma field_simps [simp]:
  "ascii k \<Longrightarrow> ascii v \<Longrightarrow> json_ok MAX_DEPTH (field k v)" "json_finite (field k v)"
  "json_get (field k v) k' = (if k' = k then Some (JString v) else None)"
  by (auto simp: field_def MAX_DEPTH_def ascii_utf8_valid bt_ok_def json_get_def)

definition sample_room :: "string \<Rightarrow> pdu list" where
  "sample_room membership =
     [sample_event ROOM_CREATE (Some []) ''@a:s'' (field ''creator'' ''@a:s''),
      sample_event ROOM_MEMBER (Some ''@a:s'') ''@a:s'' (field ''membership'' ''join''),
      sample_event ROOM_JOIN_RULES (Some []) ''@a:s'' (field ''join_rule'' ''public''),
      sample_event ROOM_MEMBER (Some ''@u:s'') ''@a:s'' (field ''membership'' membership)]"

lemma sample_room_view:
  "ascii membership \<Longrightarrow> auth_view_new (sample_room membership) =
     \<lparr>view_create = Some (sample_event ROOM_CREATE (Some []) ''@a:s'' (field ''creator'' ''@a:s'')),
      view_power_levels = None, view_join_rules = Some (field ''join_rule'' ''public''),
      view_members = [(''@a:s'', ''join''), (''@u:s'', membership)], view_third_party_invites = []\<rparr>"
  by (simp add: auth_view_new_def sample_room_def view_step_def)

lemmas sample_room_simps = sample_room_view view_membership_def view_power_level_def view_creator_def room_creator_def
  create_room_version_def CREATOR_POWER_def view_join_rule_def invite_level_def kick_level_def ban_level_def view_level_def
  DEFAULT_INVITE_POWER_def DEFAULT_KICK_POWER_def DEFAULT_BAN_POWER_def

theorem membership_transitions_witness:
  "view_power_level (auth_view_new (sample_room ''join'')) ''@u:s'' < view_power_level (auth_view_new (sample_room ''join'')) ''@a:s''"
proof -
  let ?e = "sample_event ROOM_MEMBER (Some ''@u:s'') ''@a:s'' (field ''membership'' ''ban'')"
  have "check_auth ?e (sample_room ''join'') = Inr ()"
    by (simp add: check_auth_def check_member_auth_def sample_room_simps Let_def)
  from membership_transitions [OF this] show ?thesis by (auto simp: Let_def)
qed

theorem outsider_events_witness:
  "check_auth (sample_event ROOM_MEMBER (Some ''@v:s'') ''@v:s'' (field ''membership'' ''join'')) (sample_room ''join'') = Inr () \<and>
   content_str (sample_event ROOM_MEMBER (Some ''@v:s'') ''@v:s'' (field ''membership'' ''join'')) ''membership''
     \<in> {Some ''join'', Some ''knock'', Some ''leave''}"
proof -
  let ?e = "sample_event ROOM_MEMBER (Some ''@v:s'') ''@v:s'' (field ''membership'' ''join'')"
  have "check_auth ?e (sample_room ''join'') = Inr ()"
    "view_membership (auth_view_new (sample_room ''join'')) (user_as_str (sender ?e)) \<noteq> Some ''join''"
    by (simp_all add: check_auth_def check_member_auth_def sample_room_simps)
  from this(1) outsider_events [OF this] show ?thesis by auto
qed

theorem ban_evasion_witness:
  "check_auth (sample_event ROOM_MEMBER (Some ''@u:s'') ''@u:s'' (field ''membership'' ''join'')) (sample_room ''ban'') =
     Inl MembershipForbidden"
  by (rule ban_evasion [where u = "''@u:s''" and
        leave = "sample_event ROOM_MEMBER (Some ''@u:s'') ''@u:s'' (field ''membership'' ''leave'')", THEN conjunct1])
    (simp_all add: sample_room_simps, simp add: sample_room_def)

theorem chain_checked_completely_witness:
  "\<exists>e by_id. check_auth_with_chain e by_id = Inr () \<and> (\<forall>i. reachable by_id (auth_events e) i \<longrightarrow> map_of by_id i \<noteq> None)"
proof -
  let ?e = "(sample_event ROOM_MEMBER (Some ''@v:s'') ''@v:s'' (field ''membership'' ''join''))
    \<lparr>auth_events := [EventId ''$c'', EventId ''$m'', EventId ''$j'']\<rparr>"
  let ?ids = "zip [EventId ''$c'', EventId ''$m'', EventId ''$j''] (sample_room ''join'')"
  have s: "content_str ?e k = (if k = ''membership'' then Some ''join'' else None)" for k
    using sample_event_str [of "field ''membership'' ''join''" ROOM_MEMBER "Some ''@v:s''" "''@v:s''" k]
    by (simp add: content_str_def)
  have "check_auth_with_chain ?e ?ids = Inr ()"
    by (simp add: check_auth_with_chain_def auth_chain_def auth_chain_loop_simps pushed_def map_filter_def s
        sample_room_def check_auth_def check_member_auth_def auth_view_new_def view_step_def view_membership_def
        view_creator_def room_creator_def create_room_version_def view_join_rule_def)
  with chain_checked_completely [OF this] show ?thesis by blast
qed

lemma i64_bounds: "f64_of_nat 9223372036854775807 = Finite 9223372036854775808"
  "f64_of_ratio True 9223372036854775808 (Suc 0) = Finite (- 9223372036854775808)"
  by (simp_all add: f64_of_nat_def f64_of_ratio_def ratio_log2_def ilog2.simps div_half_even_def)

theorem unsigned_invite_refused_witness:
  "check_auth (sample_event ROOM_MEMBER (Some ''@w:s'') ''@u:s'' (field ''membership'' ''invite''))
     (sample_room ''join'' @ [sample_event ROOM_POWER_LEVELS (Some []) ''@a:s'' (JObject [(''invite'', JNumber (Finite 50))])])
     \<noteq> Inr ()"
proof (rule unsigned_invite_refused)
  let ?pl = "JObject [(''invite'', JNumber (Finite 50))]"
  have pl: "json_ok MAX_DEPTH ?pl" "json_finite ?pl"
    using representable_int [of 50] by (simp_all add: bt_ok_def MAX_DEPTH_def ascii_utf8_valid f64_ok_def f64_is_finite_def)
  have lvl: "json_get ?pl ''invite'' = Some (JNumber (Finite 50))" "as_i64 (JNumber (Finite 50)) = Some 50"
    by (simp_all add: json_get_def f64_fract_zero_def i64_bounds f64_cast_def)
  show "view_power_level (auth_view_new (sample_room ''join'' @ [sample_event ROOM_POWER_LEVELS (Some []) ''@a:s'' ?pl]))
      (user_as_str (sender (sample_event ROOM_MEMBER (Some ''@w:s'') ''@u:s'' (field ''membership'' ''invite''))))
    < invite_level (auth_view_new (sample_room ''join'' @ [sample_event ROOM_POWER_LEVELS (Some []) ''@a:s'' ?pl]))"
    using lvl by (simp add: auth_view_snoc sample_room_simps view_step_def sample_event_parse [OF pl] json_get_def
        del: as_i64.simps)
qed (auto simp: sample_room_def)

end
