(* ===== verification/StateRes.thy ===== *)
theory StateRes
  imports AuthRules
begin

section \<open>State resolution (gm-stateres, lib.rs)\<close>

text \<open>
  Room states as ordered maps from slots to events, their separation into unconflicted and
  conflicted slots, the two orderings and the resolution by iterative authorization.  The full
  conflicted set is a \<open>HashSet\<close>: the order in which it is iterated is an argument, an enumeration
  of the set, and the result is proved not to depend on it.  \<open>None\<close> is a computation that does not
  return: the walk along the power-levels events has no bound in the code.
\<close>

type_synonym slot = "string \<times> string"
type_synonym state_map = "(slot, event_id) btree"
type_synonym conflicts = "(slot, event_id list) btree"

subsection \<open>Separation\<close>

definition state_keys :: "state_map list \<Rightarrow> slot list" where
  "state_keys states = sort (remdups (concat (map (map fst) states)))"

definition dedup_push :: "event_id \<Rightarrow> event_id list \<Rightarrow> event_id list" where
  "dedup_push ev distinct_evs =
     (if list_ex (\<lambda>d. event_as_str d = event_as_str ev) distinct_evs then distinct_evs else distinct_evs @ [ev])"

definition present_events :: "state_map list \<Rightarrow> slot \<Rightarrow> event_id list" where
  "present_events states key = List.map_filter (\<lambda>s. map_of s key) states"

definition separate_step :: "state_map list \<Rightarrow> slot \<Rightarrow> state_map \<times> conflicts \<Rightarrow> state_map \<times> conflicts" where
  "separate_step states key acc =
     (let present = present_events states key;
          distinct_evs = fold dedup_push present [] in
      if length present = length states \<and> length distinct_evs = 1
      then (bt_insert key (hd distinct_evs) (fst acc), snd acc)
      else (fst acc, bt_insert key distinct_evs (snd acc)))"

definition separate :: "state_map list \<Rightarrow> state_map \<times> conflicts" where
  "separate states = fold (separate_step states) (state_keys states) ([], [])"

subsection \<open>Events\<close>

definition state_slot :: "pdu \<Rightarrow> slot option" where
  "state_slot event = pdu_state_tuple event"

definition is_power_event :: "pdu \<Rightarrow> bool" where
  "is_power_event event =
     (if kind event \<in> {ROOM_CREATE, ROOM_POWER_LEVELS, ROOM_JOIN_RULES} then True
      else if kind event = ROOM_MEMBER then
        (case content_str event ''membership'' of
           Some m \<Rightarrow>
             if m = ''ban'' then True
             else if m = ''leave'' then state_key event \<noteq> Some (user_as_str (sender event))
             else False
         | None \<Rightarrow> False)
      else False)"

definition auth_context :: "state_map \<Rightarrow> slot \<Rightarrow> pdus \<Rightarrow> pdu list" where
  "auth_context resolved slot pdus =
     List.map_filter (\<lambda>(_, eid). map_of pdus eid) (filter (\<lambda>(k, _). k \<noteq> slot) resolved)"

definition try_apply :: "pdus \<Rightarrow> event_id \<Rightarrow> state_map \<Rightarrow> state_map" where
  "try_apply pdus i resolved =
     (case map_of pdus i of
        None \<Rightarrow> resolved
      | Some event \<Rightarrow>
          (case state_slot event of
             None \<Rightarrow> resolved
           | Some slot \<Rightarrow>
               (case check_auth event (auth_context resolved slot pdus) of
                  Inr _ \<Rightarrow> bt_insert slot i resolved
                | Inl _ \<Rightarrow> resolved)))"

definition auth_difference :: "state_map list \<Rightarrow> pdus \<Rightarrow> event_id set" where
  "auth_difference states pdus =
     (let chains = map (\<lambda>s. auth_chain (map snd s) pdus) states in
      {i \<in> \<Union>(set chains). \<exists>c\<in>set chains. i \<notin> c})"

text \<open>The power of a sender under the base state.\<close>

definition base_event :: "state_map \<Rightarrow> pdus \<Rightarrow> string \<Rightarrow> pdu option" where
  "base_event base pdus k = Option.bind (map_of base (k, [])) (map_of pdus)"

definition sender_power :: "string \<Rightarrow> state_map \<Rightarrow> pdus \<Rightarrow> int" where
  "sender_power user base pdus =
     (case Option.bind (base_event base pdus ROOM_POWER_LEVELS) (\<lambda>p. json_parse_ok (content_json p)) of
        Some pl \<Rightarrow>
          (case Option.bind (json_get pl ''users'') (\<lambda>u. Option.bind (json_get u user) as_i64) of
             Some level \<Rightarrow> level
           | None \<Rightarrow>
               (case Option.bind (json_get pl ''users_default'') as_i64 of Some l \<Rightarrow> l | None \<Rightarrow> 0))
      | None \<Rightarrow>
          if Option.bind (base_event base pdus ROOM_CREATE) room_creator = Some user then 100 else 0)"

subsection \<open>Reverse topological power ordering\<close>

definition topo_parents :: "event_id list \<Rightarrow> pdus \<Rightarrow> event_id \<Rightarrow> event_id list" where
  "topo_parents events pdus e =
     (case map_of pdus e of None \<Rightarrow> [] | Some p \<Rightarrow> filter (\<lambda>a. a \<in> set events) (auth_events p))"

text \<open>\<open>Reverse(power)\<close> as the first component: negation reverses the order of integers.\<close>

definition topo_key :: "pdus \<Rightarrow> state_map \<Rightarrow> event_id \<Rightarrow> int \<times> u64 \<times> string" where
  "topo_key pdus base e =
     (let (ts, user) = (case map_of pdus e of
          Some p \<Rightarrow> (origin_server_ts p, user_as_str (sender p)) | None \<Rightarrow> (0, [])) in
      (- sender_power user base pdus, ts, event_as_str e))"

definition topo_ready :: "event_id list \<Rightarrow> pdus \<Rightarrow> event_id list \<Rightarrow> event_id list" where
  "topo_ready events pdus order =
     (let ready = filter (\<lambda>e. e \<notin> set order \<and> (\<forall>p\<in>set (topo_parents events pdus e). p \<in> set order)) events in
      if ready = [] then filter (\<lambda>e. e \<notin> set order) events else ready)"

text \<open>The loop places one event per round; \<open>None\<close> is the panic of \<open>ready[0]\<close> when nothing is left to place.\<close>

function topo_loop :: "event_id list \<Rightarrow> pdus \<Rightarrow> state_map \<Rightarrow> event_id list \<Rightarrow> event_id list option" where
  "topo_loop events pdus base order =
     (if length order < length events then
        (case sort_key (topo_key pdus base) (topo_ready events pdus order) of
           [] \<Rightarrow> None
         | chosen # _ \<Rightarrow> topo_loop events pdus base (order @ [chosen]))
      else Some order)"
  by pat_completeness auto
termination
  by (relation "measure (\<lambda>(events, pdus, base, order). length events - length order)") auto

declare topo_loop.simps [simp del]

definition reverse_topological_power_sort :: "event_id list \<Rightarrow> pdus \<Rightarrow> state_map \<Rightarrow> event_id list option" where
  "reverse_topological_power_sort events pdus base = topo_loop events pdus base []"

subsection \<open>Mainline ordering\<close>

definition is_power_levels :: "pdus \<Rightarrow> event_id \<Rightarrow> bool" where
  "is_power_levels pdus a = (case map_of pdus a of Some x \<Rightarrow> kind x = ROOM_POWER_LEVELS | None \<Rightarrow> False)"

definition power_levels_ancestor :: "event_id \<Rightarrow> pdus \<Rightarrow> event_id option" where
  "power_levels_ancestor i pdus =
     Option.bind (map_of pdus i) (\<lambda>p. find (is_power_levels pdus) (auth_events p))"

partial_function (option) mainline_from :: "pdus \<Rightarrow> event_id option \<Rightarrow> event_id list option" where
  "mainline_from pdus cursor =
     (case cursor of
        None \<Rightarrow> Some []
      | Some i \<Rightarrow> Option.bind (mainline_from pdus (power_levels_ancestor i pdus)) (\<lambda>rest. Some (i # rest)))"

text \<open>The index of each mainline entry, by its distance from the root; a later insertion replaces an earlier.\<close>

definition mainline_position :: "event_id list \<Rightarrow> event_id \<Rightarrow> nat option" where
  "mainline_position mainline =
     map_of (rev (map (\<lambda>i. (mainline ! i, length mainline - 1 - i)) [0..<length mainline]))"

text \<open>The loop of \<open>depth\<close> looks at up to 10001 events: its guard stops it after the round that exceeds 10000.\<close>

fun depth_loop :: "nat \<Rightarrow> (event_id \<Rightarrow> nat option) \<Rightarrow> pdus \<Rightarrow> event_id option \<Rightarrow> nat" where
  "depth_loop 0 position pdus cursor = 0"
| "depth_loop (Suc rounds) position pdus None = 0"
| "depth_loop (Suc rounds) position pdus (Some i) =
     (case position i of
        Some p \<Rightarrow> p
      | None \<Rightarrow> depth_loop rounds position pdus (power_levels_ancestor i pdus))"

definition mainline_key :: "(event_id \<Rightarrow> nat option) \<Rightarrow> pdus \<Rightarrow> event_id \<Rightarrow> nat \<times> u64 \<times> string" where
  "mainline_key position pdus e =
     (depth_loop 10001 position pdus (Some e),
      (case map_of pdus e of Some p \<Rightarrow> origin_server_ts p | None \<Rightarrow> 0), event_as_str e)"

definition mainline_sort :: "event_id list \<Rightarrow> event_id option \<Rightarrow> pdus \<Rightarrow> event_id list option" where
  "mainline_sort events power_levels pdus =
     Option.bind (mainline_from pdus power_levels) (\<lambda>mainline.
       Some (sort_key (mainline_key (mainline_position mainline) pdus) events))"

subsection \<open>Resolution\<close>

definition full_conflicted :: "state_map list \<Rightarrow> pdus \<Rightarrow> event_id set" where
  "full_conflicted states pdus = set (concat (map snd (snd (separate states)))) \<union> auth_difference states pdus"

definition is_power_id :: "pdus \<Rightarrow> event_id \<Rightarrow> bool" where
  "is_power_id pdus i = (case map_of pdus i of Some p \<Rightarrow> is_power_event p | None \<Rightarrow> False)"

text \<open>\<open>full\<close> enumerates the full conflicted set.\<close>

definition resolve :: "event_id list \<Rightarrow> state_map list \<Rightarrow> pdus \<Rightarrow> state_map option" where
  "resolve full states pdus =
     (let (unconflicted, conflicted) = separate states in
      if conflicted = [] then Some unconflicted
      else
        Option.bind (reverse_topological_power_sort (filter (is_power_id pdus) full) pdus unconflicted) (\<lambda>power.
          (let resolved = fold (try_apply pdus) power unconflicted;
               power_levels = map_of resolved (ROOM_POWER_LEVELS, []) in
           Option.bind (mainline_sort (filter (\<lambda>i. \<not> is_power_id pdus i) full) power_levels pdus) (\<lambda>other.
             (let resolved = fold (try_apply pdus) other resolved in
              Some (fold (\<lambda>(slot, i). bt_insert slot i) unconflicted resolved))))))"

subsection \<open>Separation, as a function of the set of forks\<close>

text \<open>The event every fork has in a slot, if there is one.\<close>

definition agreed :: "state_map list \<Rightarrow> slot \<Rightarrow> event_id \<Rightarrow> bool" where
  "agreed states k e \<longleftrightarrow> states \<noteq> [] \<and> (\<forall>s\<in>set states. map_of s k = Some e)"

definition candidates :: "state_map list \<Rightarrow> slot \<Rightarrow> event_id set" where
  "candidates states k = {e. \<exists>s\<in>set states. map_of s k = Some e}"

definition candidate_list :: "state_map list \<Rightarrow> slot \<Rightarrow> event_id list" where
  "candidate_list states k = fold dedup_push (present_events states k) []"

definition unanimous :: "state_map list \<Rightarrow> slot \<Rightarrow> bool" where
  "unanimous states k \<longleftrightarrow> length (present_events states k) = length states \<and> length (candidate_list states k) = 1"

lemma dedup_fold: "set (fold dedup_push xs acc) = set acc \<union> set xs \<and> (distinct acc \<longrightarrow> distinct (fold dedup_push xs acc))"
  by (induction xs arbitrary: acc) (auto simp: dedup_push_def list_ex_iff)

lemma set_present: "set (present_events states k) = candidates states k"
  by (auto simp: present_events_def map_filter_def candidates_def image_iff) force+

lemma candidate_list: "set (candidate_list states k) = candidates states k" "distinct (candidate_list states k)"
  using dedup_fold [of "present_events states k" "[]"] by (simp_all add: candidate_list_def set_present)

lemma present_length: "length (present_events states k) = length states \<longleftrightarrow> (\<forall>s\<in>set states. map_of s k \<noteq> None)"
proof (induction states)
  case (Cons s states)
  have "length (present_events states k) \<le> length states"
    by (simp add: present_events_def map_filter_def)
  with Cons show ?case by (auto simp: present_events_def split: option.splits)
qed (simp add: present_events_def)

lemma unanimous_agreed: "unanimous states k \<longleftrightarrow> (\<exists>e. agreed states k e)"
  and agreed_hd: "agreed states k e \<Longrightarrow> candidate_list states k = [e]"
proof -
  have one: "candidate_list states k = [e]" if "agreed states k e" for e
  proof -
    have "set (candidate_list states k) = {e}"
      using that by (cases states) (auto simp: candidate_list candidates_def agreed_def)
    with candidate_list(2) [of states k] show ?thesis
      by (metis card_1_singleton_iff distinct_card length_Suc_conv length_0_conv One_nat_def list.set(1,2) singleton_insert_inj_eq)
  qed
  then show "agreed states k e \<Longrightarrow> candidate_list states k = [e]" by blast
  show "unanimous states k \<longleftrightarrow> (\<exists>e. agreed states k e)"
  proof
    assume u: "unanimous states k"
    then obtain e where e: "candidate_list states k = [e]"
      by (auto simp: unanimous_def length_Suc_conv)
    then have "candidates states k = {e}" using candidate_list(1) [of states k] by simp
    then have "states \<noteq> []" by (auto simp: candidates_def)
    moreover have "map_of s k = Some e" if "s \<in> set states" for s
    proof -
      obtain e' where "map_of s k = Some e'" using u \<open>s \<in> set states\<close> by (auto simp: unanimous_def present_length)
      moreover from this have "e' \<in> candidates states k" using that by (auto simp: candidates_def)
      ultimately show ?thesis using \<open>candidates states k = {e}\<close> by simp
    qed
    ultimately show "\<exists>e. agreed states k e" by (auto simp: agreed_def)
  next
    assume "\<exists>e. agreed states k e"
    then obtain e where a: "agreed states k e" by blast
    then show "unanimous states k" using one [OF a] by (auto simp: unanimous_def present_length agreed_def)
  qed
qed

lemma separate_fold:
  "map_of (fst (fold (separate_step states) ks acc)) k =
     (if k \<in> set ks \<and> unanimous states k then Some (hd (candidate_list states k)) else map_of (fst acc) k)"
  "map_of (snd (fold (separate_step states) ks acc)) k =
     (if k \<in> set ks \<and> \<not> unanimous states k then Some (candidate_list states k) else map_of (snd acc) k)"
  "bt_ok (fst acc) \<Longrightarrow> bt_ok (fst (fold (separate_step states) ks acc))"
  "bt_ok (snd acc) \<Longrightarrow> bt_ok (snd (fold (separate_step states) ks acc))"
  by (induction ks arbitrary: acc)
    (auto simp: separate_step_def Let_def unanimous_def candidate_list_def)

lemma set_state_keys: "k \<in> set (state_keys states) \<longleftrightarrow> candidates states k \<noteq> {}"
proof -
  have "k \<in> set (state_keys states) \<longleftrightarrow> (\<exists>s\<in>set states. k \<in> fst ` set s)" by (auto simp: state_keys_def)
  also have "\<dots> \<longleftrightarrow> candidates states k \<noteq> {}"
    by (auto simp: candidates_def dom_map_of_conv_image_fst [symmetric] dom_def)
  finally show ?thesis .
qed

lemma separate_bt_ok [simp]: "bt_ok (fst (separate states))" "bt_ok (snd (separate states))"
  by (simp_all add: separate_def separate_fold)

lemma separate_unconflicted: "map_of (fst (separate states)) k = Some e \<longleftrightarrow> agreed states k e"
proof
  assume "map_of (fst (separate states)) k = Some e"
  then have u: "unanimous states k" "hd (candidate_list states k) = e"
    by (auto simp: separate_def separate_fold split: if_splits)
  then obtain e' where "agreed states k e'" by (auto simp: unanimous_agreed)
  with u(2) agreed_hd [OF this] show "agreed states k e" by simp
next
  assume a: "agreed states k e"
  then have "candidates states k \<noteq> {}"
    using candidate_list(1) [of states k] agreed_hd [OF a] by auto
  with a agreed_hd [OF a] show "map_of (fst (separate states)) k = Some e"
    by (auto simp: separate_def separate_fold set_state_keys unanimous_agreed)
qed

lemma separate_conflicted:
  "map_of (snd (separate states)) k =
     (if candidates states k \<noteq> {} \<and> (\<nexists>e. agreed states k e) then Some (candidate_list states k) else None)"
  by (simp add: separate_def separate_fold set_state_keys unanimous_agreed)

lemma agreed_cong: "set states = set states' \<Longrightarrow> agreed states = agreed states'"
  by (intro ext) (metis agreed_def set_empty)

lemma candidates_cong: "set states = set states' \<Longrightarrow> candidates states = candidates states'"
  by (intro ext) (simp add: candidates_def)

lemma separate_cong:
  assumes "set states = set states'"
  shows "fst (separate states) = fst (separate states')"
    and "snd (separate states) = [] \<longleftrightarrow> snd (separate states') = []"
    and "set (concat (map snd (snd (separate states)))) = set (concat (map snd (snd (separate states'))))"
proof -
  show "fst (separate states) = fst (separate states')"
  proof (rule bt_ext)
    show "map_of (fst (separate states)) = map_of (fst (separate states'))"
    proof
      fix k
      have "map_of (fst (separate states)) k = Some e \<longleftrightarrow> map_of (fst (separate states')) k = Some e" for e
        by (simp add: separate_unconflicted agreed_cong [OF assms])
      then show "map_of (fst (separate states)) k = map_of (fst (separate states')) k"
        by (metis not_Some_eq)
    qed
  qed simp_all
  have "map_of (snd (separate states)) = Map.empty \<longleftrightarrow> map_of (snd (separate states')) = Map.empty"
    by (simp add: fun_eq_iff separate_conflicted agreed_cong [OF assms] candidates_cong [OF assms])
  then show "snd (separate states) = [] \<longleftrightarrow> snd (separate states') = []" by simp
  have sets: "set (concat (map snd (snd (separate st)))) = (\<Union>k\<in>{k. \<nexists>e. agreed st k e}. candidates st k)" for st
  proof -
    have "set (concat (map snd (snd (separate st)))) = (\<Union>p\<in>set (snd (separate st)). set (snd p))" by simp
    also have "\<dots> = {e. \<exists>k es. map_of (snd (separate st)) k = Some es \<and> e \<in> set es}"
      by (force simp: bt_ok_distinct)
    also have "\<dots> = (\<Union>k\<in>{k. \<nexists>e. agreed st k e}. candidates st k)"
      by (auto simp: separate_conflicted candidate_list split: if_splits)
    finally show ?thesis .
  qed
  show "set (concat (map snd (snd (separate states)))) = set (concat (map snd (snd (separate states'))))"
    unfolding sets by (simp add: agreed_cong [OF assms] candidates_cong [OF assms])
qed

lemma full_conflicted_cong: "set states = set states' \<Longrightarrow> full_conflicted states pdus = full_conflicted states' pdus"
  unfolding full_conflicted_def auth_difference_def Let_def
  using separate_cong(3) [of states states'] by simp

subsection \<open>Sorting by a key that tells events apart\<close>

lemma sort_key_unique:
  assumes "distinct xs" "distinct ys" "set xs = set ys" "inj f"
  shows "sort_key f xs = sort_key f ys"
proof (rule map_sorted_distinct_set_unique [where f = f])
  show "inj_on f (set (sort_key f xs) \<union> set (sort_key f ys))" using assms(4) by (rule inj_on_subset) simp
  show "distinct (map f (sort_key f xs))" "distinct (map f (sort_key f ys))"
    using assms by (simp_all add: distinct_map inj_on_subset [OF assms(4)])
qed (simp_all add: assms(3))

lemma inj_topo_key: "inj (topo_key pdus base)"
  by (rule injI) (auto simp: topo_key_def split: option.splits prod.splits)

lemma inj_mainline_key: "inj (mainline_key position pdus)"
  by (rule injI) (simp add: mainline_key_def)

lemma hd_sort_key:
  assumes "xs \<noteq> []"
  obtains x rest where "sort_key f xs = x # rest" "x \<in> set xs" "\<And>y. y \<in> set xs \<Longrightarrow> f x \<le> f y"
proof -
  have "sort_key f xs \<noteq> []" using assms by (metis set_empty set_sort)
  then obtain x rest where s: "sort_key f xs = x # rest" by (cases "sort_key f xs") auto
  have "sorted (map f (x # rest))" unfolding s [symmetric] by simp
  moreover have "set xs = set (x # rest)" unfolding s [symmetric] by simp
  ultimately have "x \<in> set xs" "\<And>y. y \<in> set xs \<Longrightarrow> f x \<le> f y" by auto
  then show ?thesis using that [OF s] by blast
qed

subsection \<open>The topological ordering\<close>

lemma topo_ready_set:
  "set (topo_ready events pdus order) \<subseteq> set events - set order"
  by (auto simp: topo_ready_def Let_def)

lemma unplaced:
  assumes "distinct events" "distinct order" "set order \<subseteq> set events" "length order < length events"
  obtains e where "e \<in> set events" "e \<notin> set order"
proof -
  have "card (set order) < card (set events)" using assms by (simp add: distinct_card)
  then have "\<not> set events \<subseteq> set order" by (meson List.finite_set card_mono not_less)
  then show ?thesis using that by blast
qed

lemma topo_ready_nonempty:
  "distinct events \<Longrightarrow> distinct order \<Longrightarrow> set order \<subseteq> set events \<Longrightarrow> length order < length events \<Longrightarrow>
   topo_ready events pdus order \<noteq> []"
  by (rule unplaced, assumption+) (auto simp: topo_ready_def Let_def filter_empty_conv)

text \<open>What every prefix of the ordering satisfies.\<close>

definition topo_prefix :: "event_id list \<Rightarrow> pdus \<Rightarrow> state_map \<Rightarrow> event_id list \<Rightarrow> bool" where
  "topo_prefix events pdus base order \<longleftrightarrow> (\<forall>i<length order.
     set (topo_parents events pdus (order ! i)) \<subseteq> set (take i order) \<and>
     (\<forall>e\<in>set events - set (take i order). set (topo_parents events pdus e) \<subseteq> set (take i order) \<longrightarrow>
        topo_key pdus base (order ! i) \<le> topo_key pdus base e))"

definition auth_edges :: "event_id list \<Rightarrow> pdus \<Rightarrow> (event_id \<times> event_id) set" where
  "auth_edges events pdus = {(p, e). e \<in> set events \<and> p \<in> set (topo_parents events pdus e)}"

lemma topo_parents_sub: "set (topo_parents events pdus e) \<subseteq> set events"
  by (auto simp: topo_parents_def split: option.splits)

lemma wf_auth_edges:
  assumes "acyclic (auth_edges events pdus)"
  shows "wf (auth_edges events pdus)"
proof (rule finite_acyclic_wf [OF _ assms])
  have "auth_edges events pdus \<subseteq> set events \<times> set events"
    using topo_parents_sub by (fastforce simp: auth_edges_def)
  then show "finite (auth_edges events pdus)" by (rule finite_subset) simp
qed

lemma topo_ready_acyclic:
  assumes "acyclic (auth_edges events pdus)" "e \<in> set events" "e \<notin> set order"
  shows "set (topo_ready events pdus order) =
    {e \<in> set events. e \<notin> set order \<and> set (topo_parents events pdus e) \<subseteq> set order}"
proof -
  obtain m where m: "m \<in> set events - set order" "\<And>y. (y, m) \<in> auth_edges events pdus \<Longrightarrow> y \<notin> set events - set order"
    using wf_auth_edges [OF assms(1)] assms(2,3) by (metis DiffI wfE_min)
  then have "set (topo_parents events pdus m) \<subseteq> set order"
    using topo_parents_sub [of events pdus m] by (auto simp: auth_edges_def)
  with m(1) show ?thesis by (auto simp: topo_ready_def Let_def filter_empty_conv)
qed

lemma topo_loop_result:
  assumes "distinct events" "distinct order" "set order \<subseteq> set events"
  shows "\<exists>out. topo_loop events pdus base order = Some out \<and> distinct out \<and> set out = set events \<and>
    (acyclic (auth_edges events pdus) \<longrightarrow> topo_prefix events pdus base order \<longrightarrow> topo_prefix events pdus base out)"
  using assms
proof (induction events pdus base order rule: topo_loop.induct)
  case (1 events pdus base order)
  show ?case
  proof (cases "length order < length events")
    case False
    then have "card (set events) \<le> card (set order)" using "1.prems" by (simp add: distinct_card)
    then have "set order = set events" using "1.prems" by (simp add: card_seteq)
    with False "1.prems" show ?thesis by (simp add: topo_loop.simps [of events pdus base order])
  next
    case True
    obtain x rest where x: "sort_key (topo_key pdus base) (topo_ready events pdus order) = x # rest"
      "x \<in> set (topo_ready events pdus order)"
      "\<And>y. y \<in> set (topo_ready events pdus order) \<Longrightarrow> topo_key pdus base x \<le> topo_key pdus base y"
      using hd_sort_key [OF topo_ready_nonempty [OF "1.prems" True]] by metis
    have new: "x \<in> set events" "x \<notin> set order" using x(2) topo_ready_set [of events pdus order] by auto
    have "topo_prefix events pdus base (order @ [x])"
      if a: "acyclic (auth_edges events pdus)" "topo_prefix events pdus base order"
    proof -
      note ready = topo_ready_acyclic [OF a(1) new]
      have "set (topo_parents events pdus x) \<subseteq> set order" using x(2) ready by simp
      moreover have "topo_key pdus base x \<le> topo_key pdus base e"
        if "e \<in> set events" "e \<notin> set order" "set (topo_parents events pdus e) \<subseteq> set order" for e
        using x(3) ready that by blast
      ultimately show ?thesis
        using a(2) by (auto simp: topo_prefix_def nth_append less_Suc_eq)
    qed
    moreover have "distinct (order @ [x])" "set (order @ [x]) \<subseteq> set events" using new "1.prems" by auto
    ultimately show ?thesis
      using "1.IH" [OF True x(1)] True x(1) "1.prems"(1) by (auto simp: topo_loop.simps [of events pdus base order])
  qed
qed

lemma topo_sort_result:
  assumes "distinct events"
  obtains out where "reverse_topological_power_sort events pdus base = Some out" "distinct out" "set out = set events"
  using topo_loop_result [OF assms, of "[]" pdus base] that by (auto simp: reverse_topological_power_sort_def)

lemma topo_parents_cong: "set events = set events' \<Longrightarrow> topo_parents events pdus e = topo_parents events' pdus e"
  by (simp add: topo_parents_def split: option.splits)

lemma topo_loop_cong:
  assumes "distinct events" "distinct events'" "set events = set events'"
  shows "topo_loop events pdus base order = topo_loop events' pdus base order"
  using assms
proof (induction events pdus base order rule: topo_loop.induct)
  case (1 events pdus base order)
  have len: "length events = length events'" using "1.prems" by (metis distinct_card)
  have "topo_parents events pdus = topo_parents events' pdus"
    using topo_parents_cong [OF "1.prems"(3)] by auto
  then have "set (topo_ready events pdus order) = set (topo_ready events' pdus order)"
    using "1.prems"(3) by (auto simp: topo_ready_def Let_def filter_empty_conv)
  then have "sort_key (topo_key pdus base) (topo_ready events pdus order) = sort_key (topo_key pdus base) (topo_ready events' pdus order)"
    using "1.prems" by (intro sort_key_unique inj_topo_key) (simp_all add: topo_ready_def Let_def)
  with "1.IH" "1.prems" len show ?case
    by (auto simp: topo_loop.simps [of events pdus base order] topo_loop.simps [of events' pdus base order] split: list.splits)
qed

lemma topo_sort_cong:
  "distinct events \<Longrightarrow> distinct events' \<Longrightarrow> set events = set events' \<Longrightarrow>
   reverse_topological_power_sort events pdus base = reverse_topological_power_sort events' pdus base"
  unfolding reverse_topological_power_sort_def by (rule topo_loop_cong)

lemma mainline_sort_cong:
  "distinct events \<Longrightarrow> distinct events' \<Longrightarrow> set events = set events' \<Longrightarrow>
   mainline_sort events pl pdus = mainline_sort events' pl pdus"
  using sort_key_unique [of events events'] inj_mainline_key by (auto simp: mainline_sort_def split: bind_splits)

subsection \<open>The mainline ends when the power-levels events are ordered\<close>

lemma mainline_from_returns:
  assumes "\<And>i j. power_levels_ancestor i pdus = Some j \<Longrightarrow> rank j < (rank i :: nat)"
  shows "\<exists>l. mainline_from pdus (Some i) = Some l"
proof (induction "rank i" arbitrary: i rule: less_induct)
  case less
  show ?case
  proof (cases "power_levels_ancestor i pdus")
    case None
    then show ?thesis by (simp add: mainline_from.simps [of _ "Some i"] mainline_from.simps [of _ None])
  next
    case (Some j)
    with less [OF assms [OF Some]] show ?thesis by (auto simp: mainline_from.simps [of _ "Some i"])
  qed
qed

lemma mainline_sort_returns:
  assumes "\<And>i j. power_levels_ancestor i pdus = Some j \<Longrightarrow> rank j < (rank i :: nat)"
  shows "\<exists>out. mainline_sort events pl pdus = Some out"
proof (cases pl)
  case (Some i)
  obtain l where "mainline_from pdus (Some i) = Some l"
    using mainline_from_returns [of pdus rank i] assms by blast
  with Some show ?thesis by (simp add: mainline_sort_def)
qed (simp add: mainline_sort_def mainline_from.simps [of _ None])

lemma mainline_diverges: "power_levels_ancestor i pdus = Some i \<Longrightarrow> mainline_from pdus (Some i) = None"
proof -
  assume "power_levels_ancestor i pdus = Some i"
  then have "mainline_from pdus (Some i) = Option.bind (mainline_from pdus (Some i)) (\<lambda>rest. Some (i # rest))"
    by (subst mainline_from.simps) simp
  then show ?thesis by (cases "mainline_from pdus (Some i)") simp_all
qed

subsection \<open>Resolution keeps the unconflicted state and applies authorized events only\<close>

definition authorized :: "pdus \<Rightarrow> slot \<Rightarrow> event_id \<Rightarrow> bool" where
  "authorized pdus k i \<longleftrightarrow> (\<exists>p state. map_of pdus i = Some p \<and> state_slot p = Some k \<and>
     set state \<subseteq> snd ` set pdus \<and> (\<forall>q\<in>set state. state_slot q \<noteq> None) \<and> check_auth p state = Inr ())"

text \<open>Every event of the state is the one its slot names.\<close>

definition slots_ok :: "pdus \<Rightarrow> state_map \<Rightarrow> bool" where
  "slots_ok pdus m \<longleftrightarrow> (\<forall>k i p. map_of m k = Some i \<longrightarrow> map_of pdus i = Some p \<longrightarrow> state_slot p = Some k)"

definition applied :: "pdus \<Rightarrow> event_id set \<Rightarrow> state_map \<Rightarrow> state_map \<Rightarrow> bool" where
  "applied pdus ids base m \<longleftrightarrow> bt_ok m \<and> slots_ok pdus m \<and>
     (\<forall>k i. map_of m k = Some i \<longrightarrow> map_of base k = Some i \<or> (i \<in> ids \<and> authorized pdus k i)) \<and>
     (\<forall>k. map_of base k \<noteq> None \<longrightarrow> map_of m k \<noteq> None)"

lemma try_apply_applied:
  assumes "applied pdus ids base m" "i \<in> ids"
  shows "applied pdus ids base (try_apply pdus i m)"
proof (cases "try_apply pdus i m = m")
  case False
  then obtain p k where p: "map_of pdus i = Some p" "state_slot p = Some k"
    "check_auth p (auth_context m k pdus) = Inr ()" "try_apply pdus i m = bt_insert k i m"
    by (auto simp: try_apply_def split: option.splits sum.splits)
  have "set (auth_context m k pdus) \<subseteq> snd ` set pdus"
    by (force simp: auth_context_def map_filter_def dest: map_of_SomeD)
  moreover have "\<forall>q\<in>set (auth_context m k pdus). state_slot q \<noteq> None"
  proof
    fix q assume "q \<in> set (auth_context m k pdus)"
    then obtain k' e where "(k', e) \<in> set m" "map_of pdus e = Some q"
      by (auto simp: auth_context_def map_filter_def)
    with assms(1) show "state_slot q \<noteq> None"
    proof -
      have "map_of m k' = Some e"
        using assms(1) \<open>(k', e) \<in> set m\<close> by (simp add: applied_def bt_ok_distinct)
      with assms(1) \<open>map_of pdus e = Some q\<close> have "state_slot q = Some k'"
        unfolding applied_def slots_ok_def by blast
      then show ?thesis by simp
    qed
  qed
  ultimately have "authorized pdus k i" using p unfolding authorized_def by blast
  with assms p show ?thesis by (auto simp: applied_def slots_ok_def)
qed (use assms in simp)

lemma fold_applied: "applied pdus ids base m \<Longrightarrow> set is \<subseteq> ids \<Longrightarrow> applied pdus ids base (fold (try_apply pdus) is m)"
  by (induction "is" arbitrary: m) (auto intro: try_apply_applied)

lemma map_of_rev_distinct: "distinct (map fst m) \<Longrightarrow> map_of (rev m) = map_of m"
proof (rule ext)
  fix x show "distinct (map fst m) \<Longrightarrow> map_of (rev m) x = map_of m x"
    by (induction m) (force simp: map_add_def split: option.splits)+
qed

lemma map_of_overlay:
  "bt_ok u \<Longrightarrow> map_of (fold (\<lambda>(slot, i). bt_insert slot i) u m) k = (case map_of u k of None \<Rightarrow> map_of m k | Some i \<Rightarrow> Some i)"
proof -
  assume "bt_ok u"
  then have "map_of (rev u) = map_of u" by (intro map_of_rev_distinct bt_ok_distinct)
  then show ?thesis by (simp add: map_of_fold_insert)
qed

lemma bt_ok_overlay: "bt_ok m \<Longrightarrow> bt_ok (fold (\<lambda>(slot, i). bt_insert slot i) u m)"
  by (rule bt_ok_fold)

lemma resolve_steps:
  assumes "resolve full states pdus = Some r" "distinct full"
  obtains "snd (separate states) = []" "r = fst (separate states)"
  | power other m pl where "snd (separate states) \<noteq> []"
      "reverse_topological_power_sort (filter (is_power_id pdus) full) pdus (fst (separate states)) = Some power"
      "mainline_sort (filter (\<lambda>i. \<not> is_power_id pdus i) full) pl pdus = Some other"
      "set power \<subseteq> set full" "set other \<subseteq> set full"
      "m = fold (try_apply pdus) other (fold (try_apply pdus) power (fst (separate states)))"
      "r = fold (\<lambda>(slot, i). bt_insert slot i) (fst (separate states)) m"
proof (cases "snd (separate states) = []")
  case True
  with assms(1) that(1) show ?thesis by (auto simp: resolve_def Let_def case_prod_unfold)
next
  case False
  with assms(1) obtain power other where
    p: "reverse_topological_power_sort (filter (is_power_id pdus) full) pdus (fst (separate states)) = Some power"
    and o: "mainline_sort (filter (\<lambda>i. \<not> is_power_id pdus i) full)
        (map_of (fold (try_apply pdus) power (fst (separate states))) (ROOM_POWER_LEVELS, [])) pdus = Some other"
    and r: "r = fold (\<lambda>(slot, i). bt_insert slot i) (fst (separate states))
        (fold (try_apply pdus) other (fold (try_apply pdus) power (fst (separate states))))"
    by (auto simp: resolve_def Let_def case_prod_unfold bind_eq_Some_conv)
  have "set power = set (filter (is_power_id pdus) full)"
    by (rule topo_sort_result [of "filter (is_power_id pdus) full" pdus "fst (separate states)"])
      (use p assms(2) in simp_all)
  moreover have "set other = set (filter (\<lambda>i. \<not> is_power_id pdus i) full)"
    using o by (auto simp: mainline_sort_def bind_eq_Some_conv)
  ultimately show ?thesis by (intro that(2) [OF False p o _ _ refl r]) simp_all
qed

lemma resolve_applied:
  assumes "resolve full states pdus = Some r" "distinct full" "slots_ok pdus (fst (separate states))"
  shows "bt_ok r \<and> (\<forall>k i. agreed states k i \<longrightarrow> map_of r k = Some i) \<and>
    (\<forall>k i. map_of r k = Some i \<longrightarrow> agreed states k i \<or> (i \<in> set full \<and> authorized pdus k i))"
  using assms(1,2)
proof (cases rule: resolve_steps)
  case 1
  then show ?thesis by (simp add: separate_unconflicted)
next
  case (2 power other m pl)
  have "applied pdus (set full) (fst (separate states)) (fst (separate states))"
    using assms(3) by (simp add: applied_def)
  then have "applied pdus (set full) (fst (separate states)) m"
    unfolding 2(6) using 2(4,5) by (intro fold_applied)
  then show ?thesis
    unfolding 2(7) applied_def
    by (auto simp: map_of_overlay bt_ok_overlay separate_unconflicted split: option.splits) (auto simp flip: separate_unconflicted)
qed

lemma resolve_cong:
  assumes "distinct full" "distinct full'" "set full = set full'" "set states = set states'"
  shows "resolve full states pdus = resolve full' states' pdus"
proof -
  have "reverse_topological_power_sort (filter (is_power_id pdus) full) pdus u =
      reverse_topological_power_sort (filter (is_power_id pdus) full') pdus u"
    "mainline_sort (filter (\<lambda>i. \<not> is_power_id pdus i) full) pl pdus =
      mainline_sort (filter (\<lambda>i. \<not> is_power_id pdus i) full') pl pdus" for u pl
    using assms(1-3) by (auto intro!: topo_sort_cong mainline_sort_cong)
  then show ?thesis
    using separate_cong(1,2) [OF assms(4)] by (simp add: resolve_def Let_def case_prod_unfold)
qed

lemma resolve_returns:
  assumes "distinct full" "\<And>i j. power_levels_ancestor i pdus = Some j \<Longrightarrow> rank j < (rank i :: nat)"
  shows "\<exists>r. resolve full states pdus = Some r"
proof -
  obtain power where "reverse_topological_power_sort (filter (is_power_id pdus) full) pdus (fst (separate states)) = Some power"
    using topo_sort_result [of "filter (is_power_id pdus) full" pdus] assms(1) by (metis distinct_filter)
  moreover obtain other where "mainline_sort (filter (\<lambda>i. \<not> is_power_id pdus i) full)
      (map_of (fold (try_apply pdus) power (fst (separate states))) (ROOM_POWER_LEVELS, [])) pdus = Some other"
    using mainline_sort_returns [of pdus rank] assms(2) by blast
  ultimately show ?thesis by (simp add: resolve_def Let_def case_prod_unfold)
qed

lemma slots_ok_base: "\<forall>s\<in>set states. slots_ok pdus s \<Longrightarrow> slots_ok pdus (fst (separate states))"
  unfolding slots_ok_def separate_unconflicted agreed_def by (metis list.set_sel(1))

subsection \<open>Properties\<close>

definition enumerates :: "event_id list \<Rightarrow> event_id set \<Rightarrow> bool" where
  "enumerates xs A \<longleftrightarrow> distinct xs \<and> set xs = A"

text \<open>C9: Resolution is a function of the set of forks: neither the order of the forks, nor a fork given
  twice, nor the order in which the hash set of conflicted events is iterated changes the result, so
  that servers resolving the same forks agree.\<close>

theorem resolve_deterministic:
  assumes "set states = set states'"
    and "enumerates full (full_conflicted states pdus)" "enumerates full' (full_conflicted states' pdus)"
  shows "resolve full states pdus = resolve full' states' pdus"
  using assms full_conflicted_cong [OF assms(1)] by (intro resolve_cong) (auto simp: enumerates_def)

text \<open>C5: What resolution returns: an ordered map in which every slot the forks agree on keeps its event, and
  every other slot is filled by an event of the full conflicted set that has this slot and passed the
  authorization rules against a state of known state events.\<close>

theorem resolve_safe:
  assumes "resolve full states pdus = Some r" "enumerates full (full_conflicted states pdus)"
    and "\<forall>s\<in>set states. slots_ok pdus s"
  shows "bt_ok r \<and> (\<forall>k i. agreed states k i \<longrightarrow> map_of r k = Some i) \<and>
    (\<forall>k i. map_of r k = Some i \<longrightarrow>
       agreed states k i \<or> (i \<in> full_conflicted states pdus \<and> authorized pdus k i))"
  using resolve_applied [OF assms(1)] assms(2) slots_ok_base [OF assms(3)] by (simp add: enumerates_def)

text \<open>C15: The power ordering is a permutation of its events; when their auth edges have no cycle, each event
  comes after its auth events among them, and at each place stands, of the events whose auth events are
  all placed, the one with the most powerful sender, the earliest, the least id.\<close>

theorem power_ordering:
  assumes "distinct events"
  shows "\<exists>out. reverse_topological_power_sort events pdus base = Some out \<and> distinct out \<and> set out = set events \<and>
    (acyclic (auth_edges events pdus) \<longrightarrow> topo_prefix events pdus base out)"
  using topo_loop_result [OF assms, of "[]" pdus base]
  by (simp add: reverse_topological_power_sort_def topo_prefix_def)

text \<open>C34: Resolution returns whenever the power-levels events are well-founded, for instance when each has a
  greater depth than the power-levels event it cites.\<close>

theorem resolve_terminates:
  assumes "enumerates full (full_conflicted states pdus)"
    and "\<And>i j. power_levels_ancestor i pdus = Some j \<Longrightarrow> rank j < (rank i :: nat)"
  shows "\<exists>r. resolve full states pdus = Some r"
  using resolve_returns [of full pdus rank] assms by (auto simp: enumerates_def)

subsection \<open>Sample forks\<close>

text \<open>Two forks of a room with its create event and the creator's join that disagree on the topic.\<close>

definition sample_topic :: "string \<Rightarrow> pdu" where
  "sample_topic t = sample_event ''m.room.topic'' (Some []) ''@a:s'' (field ''topic'' t)"

definition sample_pdus :: pdus where
  "sample_pdus = [(EventId ''$c'', sample_event ROOM_CREATE (Some []) ''@a:s'' (field ''creator'' ''@a:s'')),
     (EventId ''$j'', sample_event ROOM_MEMBER (Some ''@a:s'') ''@a:s'' (field ''membership'' ''join'')),
     (EventId ''$x'', sample_topic ''x''), (EventId ''$y'', sample_topic ''y'')]"

definition sample_fork :: "string \<Rightarrow> state_map" where
  "sample_fork topic = [((ROOM_CREATE, []), EventId ''$c''), ((ROOM_MEMBER, ''@a:s''), EventId ''$j''),
     ((''m.room.topic'', []), EventId topic)]"

lemma sample_forks_separate:
  "separate [sample_fork ''$x'', sample_fork ''$y''] =
     ([((ROOM_CREATE, []), EventId ''$c''), ((ROOM_MEMBER, ''@a:s''), EventId ''$j'')],
      [((''m.room.topic'', []), [EventId ''$x'', EventId ''$y''])])"
  by (simp add: separate_def state_keys_def sample_fork_def separate_step_def present_events_def map_filter_def
      dedup_push_def event_type_defs)

lemma sample_forks_full:
  "full_conflicted [sample_fork ''$x'', sample_fork ''$y''] sample_pdus = {EventId ''$x'', EventId ''$y''}"
  unfolding full_conflicted_def sample_forks_separate auth_difference_def Let_def
  by (auto simp: sample_fork_def sample_pdus_def sample_topic_def auth_chain_def auth_chain_loop_simps pushed_def)

lemma sample_enumerates:
  "enumerates [EventId ''$x'', EventId ''$y''] (full_conflicted [sample_fork ''$x'', sample_fork ''$y''] sample_pdus)"
  by (simp add: enumerates_def sample_forks_full)

lemma sample_no_power_levels: "power_levels_ancestor i sample_pdus = None"
  by (auto simp: power_levels_ancestor_def sample_pdus_def sample_topic_def split: bind_splits)

theorem resolve_deterministic_witness:
  "resolve [EventId ''$x'', EventId ''$y''] [sample_fork ''$x'', sample_fork ''$y''] sample_pdus =
   resolve [EventId ''$y'', EventId ''$x''] [sample_fork ''$y'', sample_fork ''$x'', sample_fork ''$y''] sample_pdus"
proof (rule resolve_deterministic)
  show s: "set [sample_fork ''$x'', sample_fork ''$y''] = set [sample_fork ''$y'', sample_fork ''$x'', sample_fork ''$y'']" by auto
  show "enumerates [EventId ''$x'', EventId ''$y''] (full_conflicted [sample_fork ''$x'', sample_fork ''$y''] sample_pdus)"
    by (rule sample_enumerates)
  then show "enumerates [EventId ''$y'', EventId ''$x'']
      (full_conflicted [sample_fork ''$y'', sample_fork ''$x'', sample_fork ''$y''] sample_pdus)"
    using full_conflicted_cong [OF s] by (auto simp: enumerates_def)
qed

theorem resolve_terminates_witness:
  "\<exists>r. resolve [EventId ''$x'', EventId ''$y''] [sample_fork ''$x'', sample_fork ''$y''] sample_pdus = Some r"
  by (rule resolve_terminates [where rank = "\<lambda>_. 0", OF sample_enumerates]) (simp add: sample_no_power_levels)

theorem resolve_safe_witness:
  "\<exists>r. resolve [EventId ''$x'', EventId ''$y''] [sample_fork ''$x'', sample_fork ''$y''] sample_pdus = Some r \<and>
     map_of r (ROOM_CREATE, []) = Some (EventId ''$c'')"
proof -
  obtain r where r: "resolve [EventId ''$x'', EventId ''$y''] [sample_fork ''$x'', sample_fork ''$y''] sample_pdus = Some r"
    using resolve_returns [where rank = "\<lambda>_. 0" and pdus = sample_pdus and full = "[EventId ''$x'', EventId ''$y'']"]
    by (auto simp: sample_no_power_levels)
  have "\<forall>s\<in>set [sample_fork ''$x'', sample_fork ''$y'']. slots_ok sample_pdus s"
    by (auto simp: slots_ok_def sample_fork_def sample_pdus_def sample_topic_def state_slot_def pdu_state_tuple_def
        split: if_splits)
  moreover have "agreed [sample_fork ''$x'', sample_fork ''$y''] (ROOM_CREATE, []) (EventId ''$c'')"
    by (simp add: agreed_def sample_fork_def)
  ultimately show ?thesis using resolve_safe [OF r sample_enumerates] r by blast
qed

theorem power_ordering_witness:
  "\<exists>out. reverse_topological_power_sort [EventId ''$j'', EventId ''$c''] sample_pdus [] = Some out \<and>
     set out = {EventId ''$j'', EventId ''$c''}"
  using power_ordering [of "[EventId ''$j'', EventId ''$c'']" sample_pdus "[]"] by auto

definition looping_pdus :: pdus where
  "looping_pdus = (EventId ''$p'', (sample_event ROOM_POWER_LEVELS (Some []) ''@a:s'' (JObject []))\<lparr>auth_events := [EventId ''$p'']\<rparr>)
     # sample_pdus"

definition looping_fork :: "string \<Rightarrow> state_map" where
  "looping_fork topic = bt_insert (ROOM_POWER_LEVELS, []) (EventId ''$p'') (sample_fork topic)"

text \<open>The walk along the power-levels events has no bound: if the events at hand contain one that cites
  itself (nothing checks that an id is the hash of its event), resolving does not return, although the
  forks disagree only on the topic.\<close>

theorem resolve_diverges:
  "resolve [EventId ''$x'', EventId ''$y''] [looping_fork ''$x'', looping_fork ''$y''] looping_pdus = None \<and>
   enumerates [EventId ''$x'', EventId ''$y''] (full_conflicted [looping_fork ''$x'', looping_fork ''$y''] looping_pdus)"
proof -
  have sep: "separate [looping_fork ''$x'', looping_fork ''$y''] =
     ([((ROOM_CREATE, []), EventId ''$c''), ((ROOM_MEMBER, ''@a:s''), EventId ''$j''), ((ROOM_POWER_LEVELS, []), EventId ''$p'')],
      [((''m.room.topic'', []), [EventId ''$x'', EventId ''$y''])])"
    by (simp add: separate_def state_keys_def looping_fork_def sample_fork_def separate_step_def present_events_def
        map_filter_def dedup_push_def event_type_defs)
  have "power_levels_ancestor (EventId ''$p'') looping_pdus = Some (EventId ''$p'')"
    by (simp add: power_levels_ancestor_def looping_pdus_def is_power_levels_def)
  from mainline_diverges [OF this] have "resolve [EventId ''$x'', EventId ''$y''] [looping_fork ''$x'', looping_fork ''$y''] looping_pdus = None"
    unfolding resolve_def sep
    by (simp add: is_power_id_def is_power_event_def looping_pdus_def sample_pdus_def sample_topic_def
        reverse_topological_power_sort_def topo_loop.simps mainline_sort_def event_type_defs)
  moreover have "full_conflicted [looping_fork ''$x'', looping_fork ''$y''] looping_pdus = {EventId ''$x'', EventId ''$y''}"
    unfolding full_conflicted_def sep auth_difference_def Let_def
    by (auto simp: looping_fork_def looping_pdus_def sample_fork_def sample_pdus_def sample_topic_def event_type_defs
        auth_chain_def auth_chain_loop_simps pushed_def)
  ultimately show ?thesis by (simp add: enumerates_def)
qed

end
