(* ===== verification/ResolverCache.thy ===== *)
theory ResolverCache
  imports StateRes
begin

section \<open>The resolved-state caches (gm-stateres, lib.rs)\<close>

text \<open>
  The cached resolver of one owner and the parallel resolver, whose workers share a counter of the
  next job, a locked cache and one result cell per job.  The workers' interleavings are a step
  relation: each step is one locked or atomic access, or the resolution itself, which may iterate
  its hash set in any order.  Correctness needs that the key determines the resolution, which the
  code does not ensure.
\<close>

subsection \<open>The cached resolver\<close>

definition input_key :: "state_map list \<Rightarrow> string list" where
  "input_key states = remdups_adj (sort (map event_as_str (concat (map (map snd) states))))"

record cached_resolver =
  cache :: "string list \<Rightarrow> state_map option"
  hits :: u64
  misses :: u64

definition cached_resolver_new :: cached_resolver where
  "cached_resolver_new = \<lparr>cache = Map.empty, hits = 0, misses = 0\<rparr>"

definition cached_resolve ::
  "event_id list \<Rightarrow> state_map list \<Rightarrow> pdus \<Rightarrow> cached_resolver \<Rightarrow> (cached_resolver \<times> state_map) option" where
  "cached_resolve full states pdus c =
     (let (unconflicted, conflicted) = separate states in
      if conflicted = [] then Some (c, unconflicted)
      else (let key = input_key states in
            case cache c key of
              Some cached \<Rightarrow> Some (c\<lparr>hits := hits c + 1\<rparr>, cached)
            | None \<Rightarrow>
                Option.bind (resolve full states pdus) (\<lambda>resolved.
                  Some (c\<lparr>misses := misses c + 1, cache := (cache c)(key \<mapsto> resolved)\<rparr>, resolved))))"


definition cached_entries :: "cached_resolver \<Rightarrow> nat" where
  "cached_entries c = card (dom (cache c))"

subsection \<open>The parallel resolver\<close>

record resolve_job =
  job_states :: "state_map list"
  job_pdus :: pdus

text \<open>
  Where a worker is in the loop of \<open>resolve_batch\<close>: about to fetch an index, about to look up its job
  in the cache, resolving it, about to insert the resolution, about to store the result, or stopped.
  The index counter is unbounded (it exceeds the jobs by at most the number of workers).
\<close>

datatype worker =
    Fetching
  | LookingUp nat
  | Resolving nat
  | Inserting nat state_map
  | Storing nat state_map
  | Stopped

record parallel_resolver =
  p_cache :: "string list \<Rightarrow> state_map option"
  p_hits :: u64
  p_misses :: u64
  next_job :: nat
  results :: "state_map option list"
  workers :: "worker list"

text \<open>\<open>new(n)\<close> clamps the pool to at least one worker; a batch starts with all of them fetching.\<close>

definition batch_start :: "nat \<Rightarrow> (string list \<Rightarrow> state_map option) \<Rightarrow> resolve_job list \<Rightarrow> parallel_resolver" where
  "batch_start n shared jobs =
     \<lparr>p_cache = shared, p_hits = 0, p_misses = 0, next_job = 0, results = replicate (length jobs) None,
      workers = replicate (max n 1) Fetching\<rparr>"

definition job_conflicted :: "resolve_job \<Rightarrow> bool" where
  "job_conflicted job \<longleftrightarrow> snd (separate (job_states job)) \<noteq> []"

definition job_key :: "resolve_job \<Rightarrow> string list" where
  "job_key job = input_key (job_states job)"

inductive batch_step :: "resolve_job list \<Rightarrow> parallel_resolver \<Rightarrow> parallel_resolver \<Rightarrow> bool" for jobs where
  fetch: "w < length (workers s) \<Longrightarrow> workers s ! w = Fetching \<Longrightarrow> next_job s < length jobs \<Longrightarrow>
     batch_step jobs s (s\<lparr>workers := (workers s)[w := LookingUp (next_job s)], next_job := next_job s + 1\<rparr>)"
| stop: "w < length (workers s) \<Longrightarrow> workers s ! w = Fetching \<Longrightarrow> length jobs \<le> next_job s \<Longrightarrow>
     batch_step jobs s (s\<lparr>workers := (workers s)[w := Stopped], next_job := next_job s + 1\<rparr>)"
| unconflicted: "w < length (workers s) \<Longrightarrow> workers s ! w = LookingUp i \<Longrightarrow> \<not> job_conflicted (jobs ! i) \<Longrightarrow>
     batch_step jobs s (s\<lparr>workers := (workers s)[w := Storing i (fst (separate (job_states (jobs ! i))))]\<rparr>)"
| hit: "w < length (workers s) \<Longrightarrow> workers s ! w = LookingUp i \<Longrightarrow> job_conflicted (jobs ! i) \<Longrightarrow>
     p_cache s (job_key (jobs ! i)) = Some m \<Longrightarrow>
     batch_step jobs s (s\<lparr>workers := (workers s)[w := Storing i m], p_hits := p_hits s + 1\<rparr>)"
| miss: "w < length (workers s) \<Longrightarrow> workers s ! w = LookingUp i \<Longrightarrow> job_conflicted (jobs ! i) \<Longrightarrow>
     p_cache s (job_key (jobs ! i)) = None \<Longrightarrow>
     batch_step jobs s (s\<lparr>workers := (workers s)[w := Resolving i], p_misses := p_misses s + 1\<rparr>)"
| resolved: "w < length (workers s) \<Longrightarrow> workers s ! w = Resolving i \<Longrightarrow>
     enumerates full (full_conflicted (job_states (jobs ! i)) (job_pdus (jobs ! i))) \<Longrightarrow>
     resolve full (job_states (jobs ! i)) (job_pdus (jobs ! i)) = Some m \<Longrightarrow>
     batch_step jobs s (s\<lparr>workers := (workers s)[w := Inserting i m]\<rparr>)"
| insert: "w < length (workers s) \<Longrightarrow> workers s ! w = Inserting i m \<Longrightarrow>
     batch_step jobs s (s\<lparr>workers := (workers s)[w := Storing i m], p_cache := (p_cache s)(job_key (jobs ! i) \<mapsto> m)\<rparr>)"
| store: "w < length (workers s) \<Longrightarrow> workers s ! w = Storing i m \<Longrightarrow>
     batch_step jobs s (s\<lparr>workers := (workers s)[w := Fetching], results := (results s)[i := Some m]\<rparr>)"

inductive batch_reachable :: "resolve_job list \<Rightarrow> parallel_resolver \<Rightarrow> parallel_resolver \<Rightarrow> bool" for jobs s0 where
  start: "batch_reachable jobs s0 s0"
| step: "batch_reachable jobs s0 s \<Longrightarrow> batch_step jobs s t \<Longrightarrow> batch_reachable jobs s0 t"

subsection \<open>What a cache may hold\<close>

text \<open>The resolution of a job, in whatever order the hash set is iterated.\<close>

definition resolves_to :: "state_map list \<Rightarrow> pdus \<Rightarrow> state_map \<Rightarrow> bool" where
  "resolves_to states pdus m \<longleftrightarrow>
     (\<forall>full. enumerates full (full_conflicted states pdus) \<longrightarrow> resolve full states pdus = Some m)"

lemma resolves_to_resolve:
  "enumerates full (full_conflicted states pdus) \<Longrightarrow> resolve full states pdus = Some m \<Longrightarrow> resolves_to states pdus m"
  unfolding resolves_to_def enumerates_def
proof (intro allI impI, elim conjE)
  fix full' assume "distinct full'" "set full' = full_conflicted states pdus" "distinct full"
    "set full = full_conflicted states pdus" "resolve full states pdus = Some m"
  then show "resolve full' states pdus = Some m"
    using resolve_cong [of full' full states states pdus] by simp
qed

lemma resolves_to_unconflicted: "snd (separate states) = [] \<Longrightarrow> resolves_to states pdus (fst (separate states))"
  by (simp add: resolves_to_def resolve_def Let_def case_prod_unfold)

text \<open>A cache is good for a set of inputs if it holds the resolution of each input with the key.\<close>

definition cache_good :: "(state_map list \<times> pdus) set \<Rightarrow> (string list \<Rightarrow> state_map option) \<Rightarrow> bool" where
  "cache_good inputs c \<longleftrightarrow> (\<forall>states pdus m. (states, pdus) \<in> inputs \<longrightarrow> snd (separate states) \<noteq> [] \<longrightarrow>
     c (input_key states) = Some m \<longrightarrow> resolves_to states pdus m)"

text \<open>The assumption the caches make: equal keys, equal resolutions.\<close>

definition key_determines :: "(state_map list \<times> pdus) set \<Rightarrow> bool" where
  "key_determines inputs \<longleftrightarrow> (\<forall>states pdus states' pdus' m. (states, pdus) \<in> inputs \<longrightarrow> (states', pdus') \<in> inputs \<longrightarrow>
     input_key states = input_key states' \<longrightarrow> resolves_to states pdus m \<longrightarrow> resolves_to states' pdus' m)"

lemma cache_good_update:
  assumes "cache_good inputs c" "key_determines inputs" "(states, pdus) \<in> inputs" "resolves_to states pdus m"
  shows "cache_good inputs (c(input_key states \<mapsto> m))"
  unfolding cache_good_def
proof (intro allI impI)
  fix states' pdus' m'
  assume i: "(states', pdus') \<in> inputs" "snd (separate states') \<noteq> []" "(c(input_key states \<mapsto> m)) (input_key states') = Some m'"
  show "resolves_to states' pdus' m'"
  proof (cases "input_key states' = input_key states")
    case True
    then have "m' = m" using i(3) by simp
    with assms(2-4) i(1) True show ?thesis unfolding key_determines_def by metis
  next
    case False
    with assms(1) i show ?thesis by (auto simp: cache_good_def)
  qed
qed

lemma cached_resolve_good:
  assumes "cache_good inputs (cache c)" "key_determines inputs" "(states, pdus) \<in> inputs"
    and full: "enumerates full (full_conflicted states pdus)" and "cached_resolve full states pdus c = Some (c', r)"
  shows "resolves_to states pdus r \<and> cache_good inputs (cache c')"
proof (cases "snd (separate states) = []")
  case True
  with assms show ?thesis by (auto simp: cached_resolve_def Let_def case_prod_unfold resolves_to_unconflicted)
next
  case False
  show ?thesis
  proof (cases "cache c (input_key states)")
    case None
    with assms(5) False have r: "resolve full states pdus = Some r" "cache c' = (cache c)(input_key states \<mapsto> r)"
      by (auto simp: cached_resolve_def Let_def case_prod_unfold bind_eq_Some_conv)
    from resolves_to_resolve [OF full r(1)] cache_good_update [OF assms(1-3)] r(2) show ?thesis by simp
  next
    case (Some m)
    with assms(5) False have "r = m" "cache c' = cache c"
      by (auto simp: cached_resolve_def Let_def case_prod_unfold)
    with assms(1,3) False Some show ?thesis by (auto simp: cache_good_def)
  qed
qed

subsection \<open>The invariant of a batch\<close>

definition job_input :: "resolve_job \<Rightarrow> state_map list \<times> pdus" where
  "job_input job = (job_states job, job_pdus job)"

definition answers :: "resolve_job list \<Rightarrow> nat \<Rightarrow> state_map \<Rightarrow> bool" where
  "answers jobs i m \<longleftrightarrow> i < length jobs \<and> resolves_to (job_states (jobs ! i)) (job_pdus (jobs ! i)) m"

text \<open>The job a worker holds, and that what it carries answers it.\<close>

fun holds :: "worker \<Rightarrow> nat option" where
  "holds (LookingUp i) = Some i"
| "holds (Resolving i) = Some i"
| "holds (Inserting i m) = Some i"
| "holds (Storing i m) = Some i"
| "holds _ = None"

fun worker_good :: "resolve_job list \<Rightarrow> worker \<Rightarrow> bool" where
  "worker_good jobs (LookingUp i) = (i < length jobs)"
| "worker_good jobs (Resolving i) = (i < length jobs)"
| "worker_good jobs (Inserting i m) = answers jobs i m"
| "worker_good jobs (Storing i m) = answers jobs i m"
| "worker_good jobs _ = True"

definition batch_inv :: "resolve_job list \<Rightarrow> parallel_resolver \<Rightarrow> bool" where
  "batch_inv jobs s \<longleftrightarrow>
     length (results s) = length jobs \<and>
     cache_good (job_input ` set jobs) (p_cache s) \<and>
     (\<forall>w\<in>set (workers s). worker_good jobs w) \<and>
     (\<forall>i m. i < length jobs \<longrightarrow> results s ! i = Some m \<longrightarrow> answers jobs i m) \<and>
     (\<forall>i. i < next_job s \<longrightarrow> i < length jobs \<longrightarrow> results s ! i \<noteq> None \<or> Some i \<in> holds ` set (workers s)) \<and>
     (Stopped \<in> set (workers s) \<longrightarrow> length jobs \<le> next_job s)"

lemma held_kept:
  "Some i \<in> holds ` set ws \<Longrightarrow> w < length ws \<Longrightarrow> holds (ws ! w) \<noteq> Some i \<or> holds x = Some i \<Longrightarrow>
   Some i \<in> holds ` set (ws[w := x])"
proof -
  assume a: "Some i \<in> holds ` set ws" "w < length ws" "holds (ws ! w) \<noteq> Some i \<or> holds x = Some i"
  then obtain j where j: "j < length ws" "holds (ws ! j) = Some i" by (auto simp: in_set_conv_nth)
  show ?thesis
  proof (cases "j = w")
    case True
    with a j show ?thesis by (auto simp: set_update_memI intro!: rev_image_eqI [of x])
  next
    case False
    then have "ws[w := x] ! j = ws ! j" by simp
    with j show ?thesis by (metis imageI length_list_update nth_mem)
  qed
qed

lemma held_new: "w < length ws \<Longrightarrow> holds x = Some i \<Longrightarrow> Some i \<in> holds ` set (ws[w := x])"
  by (auto simp: set_update_memI intro!: rev_image_eqI [of x])

lemma set_updated: "y \<in> set (ws[w := x]) \<Longrightarrow> y = x \<or> y \<in> set ws"
  using set_update_subset_insert [of ws w x] by auto

lemma batch_inv_move:
  assumes "batch_inv jobs s" "w < length (workers s)"
    and t: "workers t = (workers s)[w := x]" "results t = results s" "next_job t = next_job s"
    and x: "worker_good jobs x" "holds x = holds (workers s ! w)" "x \<noteq> Stopped"
    and "cache_good (job_input ` set jobs) (p_cache t)"
  shows "batch_inv jobs t"
proof -
  have "results s ! i \<noteq> None \<or> Some i \<in> holds ` set ((workers s)[w := x])" if "i < next_job s" "i < length jobs" for i
    using assms(1,2) that held_kept [of i "workers s" w x] x(2) unfolding batch_inv_def by metis
  moreover have "\<forall>y\<in>set ((workers s)[w := x]). worker_good jobs y"
    using assms(1) x(1) by (auto simp: batch_inv_def dest!: set_updated)
  moreover have "Stopped \<in> set ((workers s)[w := x]) \<Longrightarrow> length jobs \<le> next_job s"
    using assms(1) x(3) by (auto simp: batch_inv_def dest!: set_updated)
  ultimately show ?thesis
    using assms(1,9) unfolding batch_inv_def t by simp
qed

lemma worker_at: "batch_inv jobs s \<Longrightarrow> w < length (workers s) \<Longrightarrow> worker_good jobs (workers s ! w)"
  by (simp add: batch_inv_def)

lemma batch_step_inv:
  assumes "batch_step jobs s t" "batch_inv jobs s" "key_determines (job_input ` set jobs)"
  shows "batch_inv jobs t"
proof -
  have good: "cache_good (job_input ` set jobs) (p_cache s)" using assms(2) by (simp add: batch_inv_def)
  from assms(1) show ?thesis
  proof (cases rule: batch_step.cases)
  case (fetch w)
  have "results s ! i \<noteq> None \<or> Some i \<in> holds ` set ((workers s)[w := LookingUp (next_job s)])"
    if "i < Suc (next_job s)" for i
  proof (cases "i = next_job s")
    case True
    with fetch(2) held_new [of w "workers s" "LookingUp (next_job s)"] show ?thesis by simp
  next
    case False
    with that fetch(4) assms(2) have "results s ! i \<noteq> None \<or> Some i \<in> holds ` set (workers s)"
      by (simp add: batch_inv_def)
    with fetch(2,3) held_kept [of i "workers s" w "LookingUp (next_job s)"] show ?thesis by auto
  qed
  with assms(2) fetch show ?thesis by (auto simp: batch_inv_def dest!: set_updated)
next
  case (stop w)
  have "results s ! i \<noteq> None \<or> Some i \<in> holds ` set ((workers s)[w := Stopped])" if "i < length jobs" for i
  proof -
    have "i < next_job s" using that stop(4) by simp
    then have "results s ! i \<noteq> None \<or> Some i \<in> holds ` set (workers s)"
      using assms(2) that by (simp add: batch_inv_def)
    with stop(2,3) held_kept [of i "workers s" w Stopped] show ?thesis by auto
  qed
  with assms(2) stop show ?thesis by (auto simp: batch_inv_def dest!: set_updated)
next
  case (unconflicted w i)
  then have "answers jobs i (fst (separate (job_states (jobs ! i))))"
    using worker_at [OF assms(2) unconflicted(2)]
    by (simp add: answers_def job_conflicted_def resolves_to_unconflicted)
  then show ?thesis
    by (intro batch_inv_move [OF assms(2) unconflicted(2), of _ "Storing i (fst (separate (job_states (jobs ! i))))"])
      (simp_all add: unconflicted(1,3) good)
next
  case (hit w i m)
  then have i: "i < length jobs" using worker_at [OF assms(2) hit(2)] by simp
  have "(job_states (jobs ! i), job_pdus (jobs ! i)) \<in> job_input ` set jobs"
    using i by (metis imageI job_input_def nth_mem)
  then have "answers jobs i m"
    using good [unfolded cache_good_def, rule_format, of "job_states (jobs ! i)" "job_pdus (jobs ! i)" m] hit(4,5) i
    by (simp add: answers_def job_conflicted_def job_key_def)
  then show ?thesis
    by (intro batch_inv_move [OF assms(2) hit(2), of _ "Storing i m"])
      (simp_all add: hit(1,3) good)
next
  case (miss w i)
  then have "i < length jobs" using worker_at [OF assms(2) miss(2)] by simp
  then show ?thesis
    by (intro batch_inv_move [OF assms(2) miss(2), of _ "Resolving i"])
      (simp_all add: miss(1,3) good)
next
  case (resolved w i full m)
  then have "answers jobs i m"
    using worker_at [OF assms(2) resolved(2)] resolves_to_resolve [OF resolved(4,5)] by (simp add: answers_def)
  then show ?thesis
    by (intro batch_inv_move [OF assms(2) resolved(2), of _ "Inserting i m"])
      (simp_all add: resolved(1,3) good)
next
  case (insert w i m)
  then have a: "answers jobs i m" using worker_at [OF assms(2) insert(2)] by simp
  have "cache_good (job_input ` set jobs) ((p_cache s)(job_key (jobs ! i) \<mapsto> m))"
    unfolding job_key_def
    by (rule cache_good_update [OF _ assms(3), where pdus = "job_pdus (jobs ! i)"])
      (use assms(2) a in \<open>auto simp: batch_inv_def answers_def job_input_def [symmetric]\<close>)
  with a show ?thesis
    by (intro batch_inv_move [OF assms(2) insert(2), of _ "Storing i m"])
      (simp_all add: insert(1,3))
next
  case (store w i m)
  have "worker_good jobs (Storing i m)" using assms(2) store(2,3) nth_mem by (fastforce simp: batch_inv_def)
  then have a: "answers jobs i m" by simp
  have "(results s)[i := Some m] ! j \<noteq> None \<or> Some j \<in> holds ` set ((workers s)[w := Fetching])"
    if "j < next_job s" "j < length jobs" for j
    using assms(2) that held_kept [of j "workers s" w Fetching] store(2,3)
    by (cases "j = i") (auto simp: batch_inv_def)
  moreover have "answers jobs j m'" if "j < length jobs" "(results s)[i := Some m] ! j = Some m'" for j m'
    using a that assms(2) by (cases "j = i") (auto simp: batch_inv_def)
  ultimately show ?thesis
    using assms(2) store by (auto simp: batch_inv_def dest!: set_updated)
  qed
qed

lemma batch_reachable_inv:
  "batch_reachable jobs s0 s \<Longrightarrow> batch_inv jobs s0 \<Longrightarrow> key_determines (job_input ` set jobs) \<Longrightarrow> batch_inv jobs s"
  by (induction rule: batch_reachable.induct) (auto intro: batch_step_inv)

lemma batch_start_inv: "cache_good (job_input ` set jobs) shared \<Longrightarrow> batch_inv jobs (batch_start n shared jobs)"
  by (auto simp: batch_inv_def batch_start_def)

lemma batch_workers: "batch_reachable jobs s0 s \<Longrightarrow> length (workers s) = length (workers s0)"
  by (induction rule: batch_reachable.induct) (auto elim!: batch_step.cases)

subsection \<open>Properties\<close>

inductive cached_reachable :: "(state_map list \<times> pdus) set \<Rightarrow> cached_resolver \<Rightarrow> bool" for inputs where
  new: "cached_reachable inputs cached_resolver_new"
| call: "cached_reachable inputs c \<Longrightarrow> (states, pdus) \<in> inputs \<Longrightarrow>
     enumerates full (full_conflicted states pdus) \<Longrightarrow> cached_resolve full states pdus c = Some (c', r) \<Longrightarrow>
     cached_reachable inputs c'"

lemma cached_reachable_good:
  "cached_reachable inputs c \<Longrightarrow> key_determines inputs \<Longrightarrow> cache_good inputs (cache c)"
proof (induction rule: cached_reachable.induct)
  case new
  show ?case by (simp add: cache_good_def cached_resolver_new_def)
next
  case (call c states pdus full c' r)
  then show ?case using cached_resolve_good by blast
qed

text \<open>C35: On inputs whose key determines their resolution, a cached resolver refines resolution: after any
  sequence of calls it returns what resolving afresh returns.\<close>

theorem cached_resolver_refines:
  assumes "cached_reachable inputs c" "key_determines inputs" "(states, pdus) \<in> inputs"
    and "enumerates full (full_conflicted states pdus)" "cached_resolve full states pdus c = Some (c', r)"
  shows "resolve full states pdus = Some r"
  using cached_resolve_good [OF cached_reachable_good [OF assms(1,2)] assms(2-5)] assms(4)
  by (simp add: resolves_to_def)

lemma depth_loop_root:
  "position i = None \<Longrightarrow> power_levels_ancestor i pdus = None \<Longrightarrow> depth_loop rounds position pdus (Some i) = 0"
proof (cases rounds)
  case (Suc n)
  moreover have "depth_loop n position pdus None = 0" by (cases n) simp_all
  ultimately show "position i = None \<Longrightarrow> power_levels_ancestor i pdus = None \<Longrightarrow> ?thesis" by simp
qed simp

lemma sample_first: "resolve [EventId ''$x'', EventId ''$y''] [sample_fork ''$x'', sample_fork ''$y''] [] =
    Some (fst (separate [sample_fork ''$x'', sample_fork ''$y'']))"
  by (simp add: resolve_def sample_forks_separate is_power_id_def reverse_topological_power_sort_def topo_loop.simps
      mainline_sort_def mainline_from.simps try_apply_def event_type_defs)

lemma sample_second: "resolve [EventId ''$x'', EventId ''$y''] [sample_fork ''$x'', sample_fork ''$y''] sample_pdus =
    Some (bt_insert (''m.room.topic'', []) (EventId ''$y'') (fst (separate [sample_fork ''$x'', sample_fork ''$y''])))"
proof -
  have "mainline_key pos sample_pdus (EventId ''$x'') \<le> mainline_key pos sample_pdus (EventId ''$y'')"
    if "pos (EventId ''$x'') = None" "pos (EventId ''$y'') = None" for pos
  proof -
    have ts: "(case map_of sample_pdus (EventId i) of Some p \<Rightarrow> origin_server_ts p | None \<Rightarrow> 0) = 0"
      if "i \<in> {''$x'', ''$y''}" for i
      using that by (auto simp: sample_pdus_def sample_topic_def sample_event_def)
    show ?thesis
      using that by (simp add: mainline_key_def depth_loop_root sample_no_power_levels ts)
  qed
  then have order: "mainline_sort [EventId ''$x'', EventId ''$y''] None sample_pdus = Some [EventId ''$x'', EventId ''$y'']"
    by (simp add: mainline_sort_def mainline_from.simps mainline_position_def)
  have applies: "try_apply sample_pdus (EventId i) m = bt_insert (''m.room.topic'', []) (EventId i) m"
    if i: "i \<in> {''$x'', ''$y''}" and m: "filter (\<lambda>(k, _). k \<noteq> (''m.room.topic'', [])) m = fst (separate [sample_fork ''$x'', sample_fork ''$y''])" for i m
  proof -
    have ctx: "auth_context m (''m.room.topic'', []) sample_pdus =
        [sample_event ROOM_CREATE (Some []) ''@a:s'' (field ''creator'' ''@a:s''),
         sample_event ROOM_MEMBER (Some ''@a:s'') ''@a:s'' (field ''membership'' ''join'')]"
      unfolding auth_context_def m sample_forks_separate by (simp add: map_filter_def sample_pdus_def)
    have view: "auth_view_new [sample_event ROOM_CREATE (Some []) ''@a:s'' (field ''creator'' ''@a:s''),
         sample_event ROOM_MEMBER (Some ''@a:s'') ''@a:s'' (field ''membership'' ''join'')] =
       \<lparr>view_create = Some (sample_event ROOM_CREATE (Some []) ''@a:s'' (field ''creator'' ''@a:s'')),
        view_power_levels = None, view_join_rules = None, view_members = [(''@a:s'', ''join'')], view_third_party_invites = []\<rparr>"
      by (simp add: auth_view_new_def view_step_def)
    have "map_of sample_pdus (EventId i) = Some (sample_topic (tl i))" using i by (auto simp: sample_pdus_def)
    moreover have "check_auth (sample_topic (tl i)) (auth_context m (''m.room.topic'', []) sample_pdus) = Inr ()"
      unfolding ctx check_auth_def view
      by (simp add: sample_topic_def sample_room_simps event_level_def state_default_def DEFAULT_STATE_POWER_def Let_def
          pdu_is_state_def event_type_defs)
    ultimately show ?thesis by (simp add: try_apply_def state_slot_def pdu_state_tuple_def sample_topic_def)
  qed
  show ?thesis
    unfolding resolve_def sample_forks_separate
    using order applies
    by (simp add: is_power_id_def is_power_event_def sample_pdus_def sample_topic_def sample_forks_separate
        reverse_topological_power_sort_def topo_loop.simps event_type_defs)
qed

text \<open>Without that assumption the cache is unsound: after resolving forks while an event was still
  missing, the cached resolver keeps returning the old state, without the topic, once the events are
  there and resolution picks one.\<close>

theorem cached_resolver_stale:
  "\<exists>c r. cached_resolve [EventId ''$x'', EventId ''$y''] [sample_fork ''$x'', sample_fork ''$y''] [] cached_resolver_new = Some (c, r) \<and>
     cached_resolve [EventId ''$x'', EventId ''$y''] [sample_fork ''$x'', sample_fork ''$y''] sample_pdus c = Some (c\<lparr>hits := 1\<rparr>, r) \<and>
     map_of r (''m.room.topic'', []) = None \<and>
     (\<exists>r'. resolve [EventId ''$x'', EventId ''$y''] [sample_fork ''$x'', sample_fork ''$y''] sample_pdus = Some r' \<and>
        map_of r' (''m.room.topic'', []) = Some (EventId ''$y''))"
  unfolding sample_second cached_resolve_def sample_forks_separate sample_first
  by (simp add: cached_resolver_new_def event_type_defs)

text \<open>When the workers of a batch have all stopped, whatever their interleaving, every job has its
  result and it is the resolution of that job's forks, provided the keys determine the resolutions and
  the shared cache started out good.\<close>

theorem parallel_batch_correct:
  assumes "batch_reachable jobs (batch_start n shared jobs) s" "\<forall>w\<in>set (workers s). w = Stopped"
    and "key_determines (job_input ` set jobs)" "cache_good (job_input ` set jobs) shared"
    and "i < length jobs"
  shows "\<exists>m. results s ! i = Some m \<and> resolves_to (job_states (jobs ! i)) (job_pdus (jobs ! i)) m"
proof -
  have inv: "batch_inv jobs s"
    using batch_reachable_inv [OF assms(1) batch_start_inv [OF assms(4)] assms(3)] .
  have "workers s \<noteq> []" using batch_workers [OF assms(1)] by (auto simp: batch_start_def)
  then have "Stopped \<in> set (workers s)" using assms(2) by (metis list.set_sel(1))
  with inv assms(5) have "i < next_job s" by (auto simp: batch_inv_def)
  moreover have "Some i \<notin> holds ` set (workers s)" using assms(2) by auto
  ultimately show ?thesis using inv assms(5) by (auto simp: batch_inv_def answers_def)
qed

theorem cached_resolver_refines_witness:
  "\<exists>c r. cached_resolve [EventId ''$x'', EventId ''$y''] [sample_fork ''$x'', sample_fork ''$y''] sample_pdus cached_resolver_new = Some (c, r) \<and>
     resolve [EventId ''$x'', EventId ''$y''] [sample_fork ''$x'', sample_fork ''$y''] sample_pdus = Some r"
proof -
  let ?in = "([sample_fork ''$x'', sample_fork ''$y''], sample_pdus)"
  have k: "key_determines {?in}" by (simp add: key_determines_def)
  obtain c r where c: "cached_resolve [EventId ''$x'', EventId ''$y''] [sample_fork ''$x'', sample_fork ''$y''] sample_pdus cached_resolver_new = Some (c, r)"
    unfolding cached_resolve_def sample_second by (simp add: cached_resolver_new_def sample_forks_separate)
  from cached_resolver_refines [OF cached_reachable.new k _ sample_enumerates c] c show ?thesis by auto
qed

theorem parallel_batch_correct_witness:
  "\<exists>(s :: parallel_resolver) m. results s ! 0 = Some m \<and> resolves_to [sample_fork ''$x'', sample_fork ''$y''] sample_pdus m"
proof -
  define job where "job = \<lparr>job_states = [sample_fork ''$x'', sample_fork ''$y''], job_pdus = sample_pdus\<rparr>"
  let ?s0 = "batch_start 1 Map.empty [job]"
  let ?m = "bt_insert (''m.room.topic'', []) (EventId ''$y'') (fst (separate [sample_fork ''$x'', sample_fork ''$y'']))"
  have job: "job_conflicted job" by (simp add: job_def job_conflicted_def sample_forks_separate)
  have 1: "batch_reachable [job] ?s0 (?s0\<lparr>workers := [LookingUp 0], next_job := 1\<rparr>)"
    using batch_reachable.step [OF batch_reachable.start batch_step.fetch [of 0 ?s0]] by (simp add: batch_start_def)
  have 2: "batch_reachable [job] ?s0 (?s0\<lparr>workers := [Resolving 0], next_job := 1, p_misses := 1\<rparr>)"
    using batch_reachable.step [OF 1 batch_step.miss [of 0]] job by (simp add: batch_start_def)
  have 3: "batch_reachable [job] ?s0 (?s0\<lparr>workers := [Inserting 0 ?m], next_job := 1, p_misses := 1\<rparr>)"
    using batch_reachable.step [OF 2 batch_step.resolved [where w = 0 and i = 0 and full = "[EventId ''$x'', EventId ''$y'']" and m = ?m]]
      sample_enumerates sample_second by (simp add: batch_start_def job_def)
  have 4: "batch_reachable [job] ?s0 (?s0\<lparr>workers := [Storing 0 ?m], next_job := 1, p_misses := 1, p_cache := [job_key job \<mapsto> ?m]\<rparr>)"
    using batch_reachable.step [OF 3 batch_step.insert [where w = 0 and i = 0 and m = ?m]] by (simp add: batch_start_def)
  have 5: "batch_reachable [job] ?s0 (?s0\<lparr>workers := [Fetching], next_job := 1, p_misses := 1, p_cache := [job_key job \<mapsto> ?m], results := [Some ?m]\<rparr>)"
    using batch_reachable.step [OF 4 batch_step.store [where w = 0 and i = 0 and m = ?m]] by (simp add: batch_start_def)
  have 6: "batch_reachable [job] ?s0 (?s0\<lparr>workers := [Stopped], next_job := 2, p_misses := 1, p_cache := [job_key job \<mapsto> ?m], results := [Some ?m]\<rparr>)"
    using batch_reachable.step [OF 5 batch_step.stop [of 0]] by (simp add: batch_start_def numeral_2_eq_2)
  have "key_determines (job_input ` set [job])" "cache_good (job_input ` set [job]) Map.empty"
    by (cases "job_input job", simp_all add: key_determines_def cache_good_def)+
  from parallel_batch_correct [OF 6 _ this, of 0]
  obtain m where "results (?s0\<lparr>workers := [Stopped], next_job := 2, p_misses := 1, p_cache := [job_key job \<mapsto> ?m], results := [Some ?m]\<rparr>) ! 0 = Some m"
      "resolves_to [sample_fork ''$x'', sample_fork ''$y''] sample_pdus m"
    by (auto simp: job_def)
  then show ?thesis by blast
qed

end
