(* ===== verification/Metrics.thy ===== *)
theory Metrics
  imports Prelude "HOL-Library.Multiset"
begin

section \<open>The metrics registry (gm-obs, metrics.rs)\<close>

text \<open>
  Counters and gauges keyed by a name and a sorted label list, rendered in the Prometheus text
  format.  A series is a datatype with the derived lexicographic order of the source, so that the
  ordered maps of the prelude apply to it.  The lemmas show what a counter reads after an update,
  whatever the order of its labels, and that a label value never breaks out of its quotes.
\<close>

datatype series = Series (series_name: string) (series_labels: "(string \<times> string) list")

instantiation series :: linorder
begin

definition less_eq_series :: "series \<Rightarrow> series \<Rightarrow> bool" where
  "less_eq_series a b \<longleftrightarrow> (series_name a, series_labels a) \<le> (series_name b, series_labels b)"

definition less_series :: "series \<Rightarrow> series \<Rightarrow> bool" where
  "less_series a b \<longleftrightarrow> (series_name a, series_labels a) < (series_name b, series_labels b)"

instance
proof
  fix x y z :: series
  show "(x < y) = (x \<le> y \<and> \<not> y \<le> x)" by (auto simp: less_eq_series_def less_series_def)
  show "x \<le> x" by (simp add: less_eq_series_def)
  show "x \<le> y \<Longrightarrow> y \<le> z \<Longrightarrow> x \<le> z" unfolding less_eq_series_def by (rule order_trans)
  show "x \<le> y \<Longrightarrow> y \<le> x \<Longrightarrow> x = y" unfolding less_eq_series_def by (drule (1) order.antisym) (simp add: series.expand)
  show "x \<le> y \<or> y \<le> x" unfolding less_eq_series_def by (rule linear)
qed

end

definition series_new :: "string \<Rightarrow> (string \<times> string) list \<Rightarrow> series" where
  "series_new n ls = Series n (sort ls)"

text \<open>The three replacements of \<open>escape\<close>, one after the other.\<close>

definition replace_char :: "char \<Rightarrow> string \<Rightarrow> string \<Rightarrow> string" where
  "replace_char c r s = concat (map (\<lambda>x. if x = c then r else [x]) s)"

definition label_escape :: "string \<Rightarrow> string" where
  "label_escape s =
     replace_char (CHR 0x0A) [CHR 0x5C, CHR ''n'']
       (replace_char (CHR 0x22) [CHR 0x5C, CHR 0x22]
         (replace_char (CHR 0x5C) [CHR 0x5C, CHR 0x5C] s))"

definition series_render :: "series \<Rightarrow> string" where
  "series_render s =
     (if series_labels s = [] then series_name s
      else series_name s @ ''{'' @
        str_join '','' (map (\<lambda>(k, v). k @ ''='' @ [CHR 0x22] @ label_escape v @ [CHR 0x22]) (series_labels s)) @ ''}'')"

record metrics =
  counters :: "(series, u64) btree"
  gauges :: "(series, int) btree"

definition metrics_new :: metrics where
  "metrics_new = \<lparr>counters = [], gauges = []\<rparr>"

definition add_counter :: "string \<Rightarrow> (string \<times> string) list \<Rightarrow> u64 \<Rightarrow> metrics \<Rightarrow> metrics" where
  "add_counter n ls k m =
     (let s = series_new n ls;
          old = (case map_of (counters m) s of Some v \<Rightarrow> v | None \<Rightarrow> 0)
      in m\<lparr>counters := bt_insert s (old + k) (counters m)\<rparr>)"

definition inc_counter :: "string \<Rightarrow> (string \<times> string) list \<Rightarrow> metrics \<Rightarrow> metrics" where
  "inc_counter n ls = add_counter n ls 1"

definition set_gauge :: "string \<Rightarrow> (string \<times> string) list \<Rightarrow> int \<Rightarrow> metrics \<Rightarrow> metrics" where
  "set_gauge n ls v m = m\<lparr>gauges := bt_insert (series_new n ls) v (gauges m)\<rparr>"

definition counter :: "metrics \<Rightarrow> string \<Rightarrow> (string \<times> string) list \<Rightarrow> u64" where
  "counter m n ls = (case map_of (counters m) (series_new n ls) of Some v \<Rightarrow> v | None \<Rightarrow> 0)"

subsection \<open>The text format\<close>

text \<open>The loop of \<open>render_group\<close>, with the name whose header was printed last.\<close>

fun render_group :: "('v \<Rightarrow> string) \<Rightarrow> string \<Rightarrow> string option \<Rightarrow> (series \<times> 'v) list \<Rightarrow> string" where
  "render_group disp kind cur [] = []"
| "render_group disp kind cur ((s, v) # m) =
     (if cur = Some (series_name s) then []
      else ''# TYPE '' @ series_name s @ '' '' @ kind @ [CHR 0x0A]) @
     series_render s @ '' '' @ disp v @ [CHR 0x0A] @
     render_group disp kind (Some (series_name s)) m"

text \<open>\<open>to_string\<close> of a signed integer.\<close>

definition dec_int :: "int \<Rightarrow> string" where
  "dec_int i = (if i < 0 then ''-'' @ dec (nat (- i)) else dec (nat i))"

definition render_prometheus :: "metrics \<Rightarrow> string" where
  "render_prometheus m =
     render_group (\<lambda>v. dec (unat v)) ''counter'' None (counters m) @
     render_group dec_int ''gauge'' None (gauges m)"

subsection \<open>Counters and gauges\<close>

definition metrics_ok :: "metrics \<Rightarrow> bool" where
  "metrics_ok m \<longleftrightarrow> bt_ok (counters m) \<and> bt_ok (gauges m)"

lemma metrics_ok_new [simp]: "metrics_ok metrics_new"
  by (simp add: metrics_ok_def metrics_new_def)

lemma metrics_ok_update [simp]:
  "metrics_ok m \<Longrightarrow> metrics_ok (add_counter n ls k m)" "metrics_ok m \<Longrightarrow> metrics_ok (inc_counter n ls m)"
  "metrics_ok m \<Longrightarrow> metrics_ok (set_gauge n ls v m)"
  by (simp_all add: metrics_ok_def inc_counter_def add_counter_def set_gauge_def Let_def)

lemma series_new_eq: "series_new n ls = series_new n' ls' \<longleftrightarrow> n = n' \<and> mset ls = mset ls'"
proof -
  have "sort ls = sort ls' \<longleftrightarrow> mset ls = mset ls'"
    using properties_for_sort [of "sort ls'" ls] by (auto dest: arg_cong [of _ _ mset])
  then show ?thesis by (simp add: series_new_def)
qed

lemma counter_new [simp]: "counter metrics_new n ls = 0"
  by (simp add: counter_def metrics_new_def)

lemma counter_add:
  "counter (add_counter n ls k m) n' ls' = (if n = n' \<and> mset ls = mset ls' then counter m n' ls' + k else counter m n' ls')"
  using series_new_eq [of n ls n' ls']
  by (cases "series_new n ls = series_new n' ls'") (auto simp: counter_def add_counter_def Let_def)

lemma counter_inc:
  "counter (inc_counter n ls m) n' ls' = (if n = n' \<and> mset ls = mset ls' then counter m n' ls' + 1 else counter m n' ls')"
  by (simp add: inc_counter_def counter_add)

lemma counter_set_gauge [simp]: "counter (set_gauge n ls v m) n' ls' = counter m n' ls'"
  by (simp add: counter_def set_gauge_def)

subsection \<open>Label values\<close>

text \<open>\<open>escape\<close> character by character, and the reader of a quoted label value.\<close>

fun escaped :: "char \<Rightarrow> string" where
  "escaped c =
     (if c = CHR 0x5C then [CHR 0x5C, CHR 0x5C] else if c = CHR 0x22 then [CHR 0x5C, CHR 0x22]
      else if c = CHR 0x0A then [CHR 0x5C, CHR ''n''] else [c])"

fun label_read :: "string \<Rightarrow> (string \<times> string) option" where
  "label_read [] = None"
| "label_read (c # cs) =
     (if c = CHR 0x22 then Some ([], cs)
      else if c = CHR 0x0A then None
      else if c = CHR 0x5C then
        (case cs of
           d # ds \<Rightarrow> map_option (\<lambda>(v, r). ((if d = CHR ''n'' then CHR 0x0A else d) # v, r)) (label_read ds)
         | [] \<Rightarrow> None)
      else map_option (\<lambda>(v, r). (c # v, r)) (label_read cs))"

lemma label_escape_concat: "label_escape s = concat (map escaped s)"
  by (induction s) (auto simp: label_escape_def replace_char_def)

lemma label_escape_reads: "label_read (label_escape v @ CHR 0x22 # r) = Some (v, r)"
  by (induction v) (auto simp: label_escape_concat)

end
