(* ===== verification/Store.thy ===== *)
theory Store
  imports Prelude
begin

section \<open>The storage abstraction (gm-store)\<close>

text \<open>
  The \<open>Store\<close> trait is a record of operations over a store state, as a trait object would be;
  generic code takes the record as an argument.  The locale \<open>kv_store\<close> is the contract of the
  trait's documentation: scans are in key order and \<open>get\<close>, \<open>count\<close> and \<open>scan_paged\<close> agree with
  the scan.  \<open>MemoryStore\<close> and the lock-protected handle \<open>SharedStore\<close> around it are shown to
  keep it.  Inside the locale, paging through a column family is proved to yield the scan.
\<close>

datatype store_error = StoreError string

record 's store_ops =
  st_put :: "string \<Rightarrow> string \<Rightarrow> bytes \<Rightarrow> 's \<Rightarrow> 's \<times> (store_error + unit)"
  st_delete :: "string \<Rightarrow> string \<Rightarrow> 's \<Rightarrow> 's \<times> (store_error + unit)"
  st_get :: "'s \<Rightarrow> string \<Rightarrow> string \<Rightarrow> bytes option"
  st_scan :: "'s \<Rightarrow> string \<Rightarrow> (string \<times> bytes) list"
  st_count :: "'s \<Rightarrow> string \<Rightarrow> nat"
  st_scan_paged :: "'s \<Rightarrow> string \<Rightarrow> string option \<Rightarrow> nat \<Rightarrow> (string \<times> bytes) list"

subsection \<open>Column families\<close>

definition cf_EVENTS :: string where "cf_EVENTS = ''events''"
definition cf_ROOM_STATE :: string where "cf_ROOM_STATE = ''room_state''"
definition cf_AUDIT_LOG :: string where "cf_AUDIT_LOG = ''audit_log''"
definition cf_AGENT_MEMORY :: string where "cf_AGENT_MEMORY = ''agent_memory''"
definition cf_ACCESS_TOKENS :: string where "cf_ACCESS_TOKENS = ''access_tokens''"
definition cf_ACCOUNTS :: string where "cf_ACCOUNTS = ''accounts''"
definition cf_TRANSACTIONS :: string where "cf_TRANSACTIONS = ''transactions''"
definition cf_EVENT_STREAM :: string where "cf_EVENT_STREAM = ''event_stream''"
definition cf_FEDERATION_KEYS :: string where "cf_FEDERATION_KEYS = ''federation_keys''"
definition cf_SERVER_KEYS :: string where "cf_SERVER_KEYS = ''server_keys''"
definition cf_TYPING :: string where "cf_TYPING = ''typing''"
definition cf_RECEIPTS :: string where "cf_RECEIPTS = ''receipts''"
definition cf_PRESENCE :: string where "cf_PRESENCE = ''presence''"
definition cf_KEY_CACHE :: string where "cf_KEY_CACHE = ''key_cache''"
definition cf_DEVICE_KEYS :: string where "cf_DEVICE_KEYS = ''device_keys''"
definition cf_DEVICE_OTK :: string where "cf_DEVICE_OTK = ''device_otk''"
definition cf_CROSS_SIGNING :: string where "cf_CROSS_SIGNING = ''cross_signing''"

lemmas cf_defs = cf_EVENTS_def cf_ROOM_STATE_def cf_AUDIT_LOG_def cf_AGENT_MEMORY_def
  cf_ACCESS_TOKENS_def cf_ACCOUNTS_def cf_TRANSACTIONS_def cf_EVENT_STREAM_def
  cf_FEDERATION_KEYS_def cf_SERVER_KEYS_def cf_TYPING_def cf_RECEIPTS_def cf_PRESENCE_def
  cf_KEY_CACHE_def cf_DEVICE_KEYS_def cf_DEVICE_OTK_def cf_CROSS_SIGNING_def

lemma cf_distinct [simp]:
  "cf_AUDIT_LOG \<noteq> cf_AGENT_MEMORY" "cf_AGENT_MEMORY \<noteq> cf_AUDIT_LOG"
  "cf_EVENTS \<noteq> cf_ROOM_STATE" "cf_ROOM_STATE \<noteq> cf_EVENTS"
  "cf_EVENTS \<noteq> cf_EVENT_STREAM" "cf_EVENT_STREAM \<noteq> cf_EVENTS"
  "cf_ROOM_STATE \<noteq> cf_EVENT_STREAM" "cf_EVENT_STREAM \<noteq> cf_ROOM_STATE"
  by (simp_all add: cf_defs)

subsection \<open>The default page and the streaming iterator\<close>

text \<open>The default \<open>scan_paged\<close>: skip the keys up to \<open>after\<close>, then take \<open>limit\<close> pairs.\<close>

definition key_after :: "string option \<Rightarrow> string \<Rightarrow> bool" where
  "key_after after k = (case after of None \<Rightarrow> True | Some a \<Rightarrow> a < k)"

lemma key_after_simps [simp]: "key_after None k" "key_after (Some a) k \<longleftrightarrow> a < k"
  by (simp_all add: key_after_def)

definition default_scan_paged ::
  "('s \<Rightarrow> string \<Rightarrow> (string \<times> bytes) list) \<Rightarrow> 's \<Rightarrow> string \<Rightarrow> string option \<Rightarrow> nat
     \<Rightarrow> (string \<times> bytes) list" where
  "default_scan_paged scan s cf after limit = take limit (filter (\<lambda>(k, _). key_after after k) (scan s cf))"

text \<open>
  The iterator of \<open>stream\<close>: its captured variables and one call of the closure, which returns
  the next item.
\<close>

record stream_state =
  buffer :: "(string \<times> bytes) list"
  cursor :: "string option"
  finished :: bool

definition stream_start :: stream_state where
  "stream_start = \<lparr>buffer = [], cursor = None, finished = False\<rparr>"

definition stream_refill :: "'s store_ops \<Rightarrow> 's \<Rightarrow> string \<Rightarrow> nat \<Rightarrow> stream_state \<Rightarrow> stream_state" where
  "stream_refill ops s cf page_size it =
     (if buffer it = [] \<and> \<not> finished it then
        let page = st_scan_paged ops s cf (cursor it) page_size;
            it1 = (if length page < page_size then it\<lparr>finished := True\<rparr> else it);
            it2 = (if page \<noteq> [] then it1\<lparr>cursor := Some (fst (last page))\<rparr>
                   else it1\<lparr>finished := True\<rparr>)
        in it2\<lparr>buffer := page\<rparr>
      else it)"

definition stream_next ::
  "'s store_ops \<Rightarrow> 's \<Rightarrow> string \<Rightarrow> nat \<Rightarrow> stream_state \<Rightarrow> (string \<times> bytes) option \<times> stream_state" where
  "stream_next ops s cf page_size it =
     (let it' = stream_refill ops s cf (max page_size 1) it in
      case buffer it' of
        [] \<Rightarrow> (None, it')
      | x # xs \<Rightarrow> (Some x, it'\<lparr>buffer := xs\<rparr>))"

text \<open>The first \<open>n\<close> items of the stream (\<open>take(n).collect()\<close>).\<close>

fun stream_take ::
  "'s store_ops \<Rightarrow> 's \<Rightarrow> string \<Rightarrow> nat \<Rightarrow> nat \<Rightarrow> stream_state \<Rightarrow> (string \<times> bytes) list" where
  "stream_take ops s cf page_size 0 it = []"
| "stream_take ops s cf page_size (Suc n) it =
     (case stream_next ops s cf page_size it of
        (None, _) \<Rightarrow> []
      | (Some x, it') \<Rightarrow> x # stream_take ops s cf page_size n it')"

subsection \<open>The contract of a store\<close>

locale kv_store =
  fixes ops :: "'s store_ops" and inv :: "'s \<Rightarrow> bool"
  assumes put_inv: "inv s \<Longrightarrow> inv (fst (st_put ops cf k v s))"
    and delete_inv: "inv s \<Longrightarrow> inv (fst (st_delete ops cf k s))"
    and scan_sorted: "inv s \<Longrightarrow> bt_ok (st_scan ops s cf)"
    and scan_put: "inv s \<Longrightarrow> st_scan ops (fst (st_put ops cf k v s)) cf' =
      (if cf' = cf then bt_insert k v (st_scan ops s cf) else st_scan ops s cf')"
    and scan_delete: "inv s \<Longrightarrow> st_scan ops (fst (st_delete ops cf k s)) cf' =
      (if cf' = cf then bt_remove k (st_scan ops s cf) else st_scan ops s cf')"
    and get_scan: "inv s \<Longrightarrow> st_get ops s cf k = map_of (st_scan ops s cf) k"
    and count_scan: "inv s \<Longrightarrow> st_count ops s cf = length (st_scan ops s cf)"
    and paged_scan: "inv s \<Longrightarrow> st_scan_paged ops s cf after limit =
      default_scan_paged (st_scan ops) s cf after limit"
begin

lemma get_put:
  "inv s \<Longrightarrow> st_get ops (fst (st_put ops cf k v s)) cf' k' =
     (if cf' = cf \<and> k' = k then Some v else st_get ops s cf' k')"
  by (simp add: get_scan put_inv scan_put)

lemma get_delete:
  "inv s \<Longrightarrow> st_get ops (fst (st_delete ops cf k s)) cf' k' =
     (if cf' = cf \<and> k' = k then None else st_get ops s cf' k')"
  by (simp add: get_scan delete_inv scan_delete)

lemma scan_put_other: "inv s \<Longrightarrow> cf' \<noteq> cf \<Longrightarrow> st_scan ops (fst (st_put ops cf k v s)) cf' = st_scan ops s cf'"
  by (simp add: scan_put)

end

text \<open>What is left of the scan for an iterator state.\<close>

definition remaining :: "(string \<times> bytes) list \<Rightarrow> stream_state \<Rightarrow> (string \<times> bytes) list" where
  "remaining m it = buffer it @
     (if finished it then [] else filter (\<lambda>(k, _). key_after (cursor it) k) m)"

text \<open>In a sorted scan, the keys after the last of a page are those the page left out.\<close>

lemma filter_after_page:
  assumes "bt_ok m" and page: "page = take n (filter (\<lambda>(k, _). key_after a k) m)" and "page \<noteq> []"
  shows "filter (\<lambda>(k, _). key_after (Some (fst (last page))) k) m =
    drop n (filter (\<lambda>(k, _). key_after a k) m)"
proof -
  define f where "f = filter (\<lambda>(k, _). key_after a k) m"
  define l where "l = fst (last page)"
  have sorted: "sorted_wrt (\<lambda>p q. fst p < fst q) m"
    using assms(1) by (simp add: bt_ok_def sorted_wrt_map)
  have f: "f = page @ drop n f"
    by (simp add: page f_def)
  have "sorted_wrt (\<lambda>p q. fst p < fst q) f"
    using sorted by (simp add: f_def sorted_wrt_filter)
  then have before: "\<And>p. p \<in> set page \<Longrightarrow> fst p \<le> l" and after: "\<And>p. p \<in> set (drop n f) \<Longrightarrow> l < fst p"
  proof -
    assume s: "sorted_wrt (\<lambda>p q. fst p < fst q) f"
    moreover have "f = butlast page @ [last page] @ drop n f"
      using f assms(3) by (metis append.assoc append_butlast_last_id)
    ultimately have sp: "sorted_wrt (\<lambda>p q. fst p < fst q) (butlast page @ [last page] @ drop n f)"
      by simp
    show "fst p \<le> l" if "p \<in> set page" for p
    proof -
      have "p \<in> set (butlast page) \<or> p = last page"
        using that assms(3) by (metis append_butlast_last_id in_set_butlast_appendI Un_iff
            set_append empty_iff insert_iff list.set(1,2))
      then show ?thesis
        using sp by (auto simp: sorted_wrt_append l_def)
    qed
    show "l < fst p" if "p \<in> set (drop n f)" for p
      using that sp by (auto simp: sorted_wrt_append l_def)
  qed
  have "key_after a l"
  proof -
    have "last page \<in> set f"
      using assms(3) f by (metis Un_iff last_in_set set_append)
    then show ?thesis by (auto simp: f_def l_def)
  qed
  then have "filter (\<lambda>(k, _). key_after (Some l) k) m = filter (\<lambda>(k, _). key_after (Some l) k) f"
    unfolding f_def filter_filter
    by (intro filter_cong) (auto simp: key_after_def split: option.splits)
  also have "\<dots> = filter (\<lambda>(k, _). l < k) page @ filter (\<lambda>(k, _). l < k) (drop n f)"
    using arg_cong [OF f, of "filter (\<lambda>(k, _). l < k)"] by simp
  also have "\<dots> = drop n f"
  proof -
    have "filter (\<lambda>(k, _). l < k) page = []"
      using before by (auto simp: filter_empty_conv dest!: before)
    moreover have "filter (\<lambda>(k, _). l < k) (drop n f) = drop n f"
      using after by (auto simp: filter_id_conv)
    ultimately show ?thesis by simp
  qed
  finally show ?thesis by (simp add: f_def l_def)
qed


context kv_store
begin

lemma remaining_refill:
  assumes "inv s" and "0 < ps"
  shows "remaining (st_scan ops s cf) (stream_refill ops s cf ps it) = remaining (st_scan ops s cf) it"
    and "remaining (st_scan ops s cf) it \<noteq> [] \<Longrightarrow> buffer (stream_refill ops s cf ps it) \<noteq> []"
proof -
  let ?m = "st_scan ops s cf"
  let ?f = "filter (\<lambda>(k, _). key_after (cursor it) k) ?m"
  define page where "page = take ps ?f"
  have paged: "st_scan_paged ops s cf (cursor it) ps = page"
    using assms by (simp add: paged_scan default_scan_paged_def page_def)
  have "remaining ?m (stream_refill ops s cf ps it) = remaining ?m it \<and>
    (remaining ?m it \<noteq> [] \<longrightarrow> buffer (stream_refill ops s cf ps it) \<noteq> [])"
  proof (cases "buffer it = [] \<and> \<not> finished it")
    case False
    then show ?thesis by (auto simp: stream_refill_def remaining_def)
  next
    case True
    show ?thesis
    proof (cases "page = []")
      case True
      then have "?f = []"
        using assms(2) by (simp add: page_def)
      with True \<open>buffer it = [] \<and> \<not> finished it\<close> show ?thesis
        by (simp add: stream_refill_def paged Let_def remaining_def)
    next
      case False
      have rest: "filter (\<lambda>(k, _). key_after (Some (fst (last page))) k) ?m = drop ps ?f"
        using scan_sorted [OF assms(1)] page_def False by (rule filter_after_page)
      have "length page < ps \<Longrightarrow> page = ?f"
        by (simp add: page_def min_def split: if_splits)
      moreover have "page @ drop ps ?f = ?f"
        by (simp add: page_def)
      ultimately show ?thesis
        using True False rest by (simp add: stream_refill_def paged Let_def remaining_def)
    qed
  qed
  then show "remaining ?m (stream_refill ops s cf ps it) = remaining ?m it"
    and "remaining ?m it \<noteq> [] \<Longrightarrow> buffer (stream_refill ops s cf ps it) \<noteq> []"
    by blast+
qed

lemma stream_take_remaining:
  assumes "inv s"
  shows "stream_take ops s cf ps n it = take n (remaining (st_scan ops s cf) it)"
proof (induction n arbitrary: it)
  case 0
  then show ?case by simp
next
  case (Suc n)
  let ?m = "st_scan ops s cf"
  let ?it = "stream_refill ops s cf (max ps 1) it"
  have rem: "remaining ?m ?it = remaining ?m it"
    and ne: "remaining ?m it \<noteq> [] \<Longrightarrow> buffer ?it \<noteq> []"
    using remaining_refill [OF assms, of "max ps 1"] by auto
  show ?case
  proof (cases "buffer ?it")
    case Nil
    then have "remaining ?m it = []" using ne by blast
    with Nil show ?thesis by (simp add: stream_next_def Let_def)
  next
    case (Cons x xs)
    then have "remaining ?m ?it = x # remaining ?m (?it\<lparr>buffer := xs\<rparr>)"
      by (simp add: remaining_def)
    with rem have "remaining ?m it = x # remaining ?m (?it\<lparr>buffer := xs\<rparr>)"
      by simp
    with Cons Suc.IH show ?thesis by (simp add: stream_next_def Let_def)
  qed
qed

lemma stream_take_scan:
  "inv s \<Longrightarrow> stream_take ops s cf ps n stream_start = take n (st_scan ops s cf)"
  by (simp add: stream_take_remaining remaining_def stream_start_def key_after_def case_prod_unfold)

end

subsection \<open>The in-memory store\<close>

record memory_store =
  families :: "(string, (string, bytes) btree) btree"

definition memory_default :: memory_store where
  "memory_default = \<lparr>families = []\<rparr>"

definition family :: "memory_store \<Rightarrow> string \<Rightarrow> (string, bytes) btree" where
  "family s cf = (case map_of (families s) cf of Some f \<Rightarrow> f | None \<Rightarrow> [])"

definition memory_put :: "string \<Rightarrow> string \<Rightarrow> bytes \<Rightarrow> memory_store \<Rightarrow> memory_store \<times> (store_error + unit)" where
  "memory_put cf key value s =
     (s\<lparr>families := bt_insert cf (bt_insert key value (family s cf)) (families s)\<rparr>, Inr ())"

definition memory_delete :: "string \<Rightarrow> string \<Rightarrow> memory_store \<Rightarrow> memory_store \<times> (store_error + unit)" where
  "memory_delete cf key s =
     (case map_of (families s) cf of
        Some f \<Rightarrow> (s\<lparr>families := bt_insert cf (bt_remove key f) (families s)\<rparr>, Inr ())
      | None \<Rightarrow> (s, Inr ()))"

definition memory_get :: "memory_store \<Rightarrow> string \<Rightarrow> string \<Rightarrow> bytes option" where
  "memory_get s cf key = (case map_of (families s) cf of Some f \<Rightarrow> map_of f key | None \<Rightarrow> None)"

definition memory_scan :: "memory_store \<Rightarrow> string \<Rightarrow> (string \<times> bytes) list" where
  "memory_scan s cf = (case map_of (families s) cf of Some f \<Rightarrow> f | None \<Rightarrow> [])"

definition memory_count :: "memory_store \<Rightarrow> string \<Rightarrow> nat" where
  "memory_count s cf = (case map_of (families s) cf of Some f \<Rightarrow> length f | None \<Rightarrow> 0)"

definition memory_scan_paged :: "memory_store \<Rightarrow> string \<Rightarrow> string option \<Rightarrow> nat \<Rightarrow> (string \<times> bytes) list" where
  "memory_scan_paged s cf after limit =
     (case map_of (families s) cf of
        None \<Rightarrow> []
      | Some f \<Rightarrow> take limit (filter (\<lambda>(k, _). key_after after k) f))"

definition memory_ops :: "memory_store store_ops" where
  "memory_ops = \<lparr>st_put = memory_put, st_delete = memory_delete, st_get = memory_get,
     st_scan = memory_scan, st_count = memory_count, st_scan_paged = memory_scan_paged\<rparr>"

text \<open>The invariant of the nested \<open>BTreeMap\<close>s.\<close>

definition memory_inv :: "memory_store \<Rightarrow> bool" where
  "memory_inv s \<longleftrightarrow> bt_ok (families s) \<and> (\<forall>p\<in>set (families s). bt_ok (snd p))"

lemma memory_inv_default [simp]: "memory_inv memory_default"
  by (simp add: memory_inv_def memory_default_def)

lemma memory_family_ok: "memory_inv s \<Longrightarrow> map_of (families s) cf = Some f \<Longrightarrow> bt_ok f"
  by (force simp: memory_inv_def dest: map_of_SomeD)

lemma memory_inv_update:
  "memory_inv s \<Longrightarrow> bt_ok f \<Longrightarrow> memory_inv (s\<lparr>families := bt_insert cf f (families s)\<rparr>)"
  by (auto simp: memory_inv_def dest: set_bt_insert)

lemmas memory_defs = memory_ops_def memory_put_def memory_delete_def memory_get_def memory_scan_def
  memory_count_def memory_scan_paged_def family_def

interpretation mem: kv_store memory_ops memory_inv
proof unfold_locales
  fix s cf k v cf' after limit
  assume inv: "memory_inv s"
  show "memory_inv (fst (st_put memory_ops cf k v s))"
    using inv by (auto simp: memory_defs bt_ok_Cons intro!: memory_inv_update dest: memory_family_ok split: option.splits)
  show "memory_inv (fst (st_delete memory_ops cf k s))"
    using inv by (auto simp: memory_defs bt_ok_Cons intro!: memory_inv_update dest: memory_family_ok split: option.splits)
  show "bt_ok (st_scan memory_ops s cf)"
    using inv by (auto simp: memory_defs dest: memory_family_ok split: option.splits)
  show "st_scan memory_ops (fst (st_put memory_ops cf k v s)) cf' =
      (if cf' = cf then bt_insert k v (st_scan memory_ops s cf) else st_scan memory_ops s cf')"
    by (simp add: memory_defs)
  show "st_scan memory_ops (fst (st_delete memory_ops cf k s)) cf' =
      (if cf' = cf then bt_remove k (st_scan memory_ops s cf) else st_scan memory_ops s cf')"
    by (simp add: memory_defs bt_remove_def split: option.splits)
  show "st_get memory_ops s cf k = map_of (st_scan memory_ops s cf) k"
    by (simp add: memory_defs split: option.splits)
  show "st_count memory_ops s cf = length (st_scan memory_ops s cf)"
    by (simp add: memory_defs split: option.splits)
  show "st_scan_paged memory_ops s cf after limit =
      default_scan_paged (st_scan memory_ops) s cf after limit"
    by (simp add: memory_defs default_scan_paged_def split: option.splits)
qed

subsection \<open>The shared handle\<close>

text \<open>
  \<open>SharedStore\<close> is a cloneable handle: every operation takes the lock and runs the in-memory
  operation.  Its state is the store behind the lock, so an execution is a sequence of such
  operations, whichever clone or thread issues each.
\<close>

record shared_store =
  locked :: memory_store

definition shared_put :: "string \<Rightarrow> string \<Rightarrow> bytes \<Rightarrow> shared_store \<Rightarrow> shared_store \<times> (store_error + unit)" where
  "shared_put cf key value s = (let (m, r) = memory_put cf key value (locked s) in (s\<lparr>locked := m\<rparr>, r))"

definition shared_delete :: "string \<Rightarrow> string \<Rightarrow> shared_store \<Rightarrow> shared_store \<times> (store_error + unit)" where
  "shared_delete cf key s = (let (m, r) = memory_delete cf key (locked s) in (s\<lparr>locked := m\<rparr>, r))"

definition shared_get :: "shared_store \<Rightarrow> string \<Rightarrow> string \<Rightarrow> bytes option" where
  "shared_get s cf key = memory_get (locked s) cf key"

definition shared_scan :: "shared_store \<Rightarrow> string \<Rightarrow> (string \<times> bytes) list" where
  "shared_scan s cf = memory_scan (locked s) cf"

definition shared_count :: "shared_store \<Rightarrow> string \<Rightarrow> nat" where
  "shared_count s cf = memory_count (locked s) cf"

definition shared_scan_paged :: "shared_store \<Rightarrow> string \<Rightarrow> string option \<Rightarrow> nat \<Rightarrow> (string \<times> bytes) list" where
  "shared_scan_paged s cf after limit = memory_scan_paged (locked s) cf after limit"

definition shared_ops :: "shared_store store_ops" where
  "shared_ops = \<lparr>st_put = shared_put, st_delete = shared_delete, st_get = shared_get,
     st_scan = shared_scan, st_count = shared_count, st_scan_paged = shared_scan_paged\<rparr>"

definition shared_inv :: "shared_store \<Rightarrow> bool" where
  "shared_inv s \<longleftrightarrow> memory_inv (locked s)"

lemma shared_sel:
  "st_scan shared_ops s cf = st_scan memory_ops (locked s) cf"
  "st_get shared_ops s cf k = st_get memory_ops (locked s) cf k"
  "st_count shared_ops s cf = st_count memory_ops (locked s) cf"
  "st_scan_paged shared_ops s cf after limit = st_scan_paged memory_ops (locked s) cf after limit"
  "locked (fst (st_put shared_ops cf k v s)) = fst (st_put memory_ops cf k v (locked s))"
  "locked (fst (st_delete shared_ops cf k s)) = fst (st_delete memory_ops cf k (locked s))"
  by (simp_all add: shared_ops_def memory_ops_def shared_put_def shared_delete_def shared_get_def
      shared_scan_def shared_count_def shared_scan_paged_def Let_def case_prod_unfold)

interpretation shared: kv_store shared_ops shared_inv
  by unfold_locales
    (simp_all add: shared_inv_def shared_sel mem.put_inv mem.delete_inv mem.scan_sorted mem.scan_put
      mem.scan_delete mem.get_scan mem.count_scan mem.paged_scan default_scan_paged_def)

end
