(* ===== verification/AuditLog.thy ===== *)
theory AuditLog
  imports Store Utf8
begin

section \<open>The hash-chained audit log (gm-store, audit.rs)\<close>

text \<open>
  Entries live in the \<open>audit_log\<close> column family under zero-padded sequence keys, each
  committing to the hash of its predecessor.  The standard library's \<open>DefaultHasher\<close>, whose
  algorithm the library leaves open, is the parameter \<open>sip\<close>, a function of the bytes that the
  hashed values feed to it.  In the context of \<open>kv_store\<close> the log is proved correct over
  any store that keeps the contract; the properties instantiate it.
\<close>

record audit_entry =
  actor :: string
  event :: string
  prev_hash :: u64
  hash :: u64

subsection \<open>Operations\<close>

definition u64_max :: nat where
  "u64_max = 2 ^ 64 - 1"

text \<open>
  A string feeds its bytes and a closing \<open>0xFF\<close>, a byte feeds itself and an integer its
  little-endian bytes.
\<close>

definition feed_str :: "string \<Rightarrow> bytes" where
  "feed_str s = as_bytes s @ [0xFF]"

definition digest_input :: "string \<Rightarrow> string \<Rightarrow> u64 \<Rightarrow> bytes" where
  "digest_input a ev prev = feed_str a @ [0xFF] @ feed_str ev @ le_bytes 8 (unat prev)"

definition digest :: "(bytes \<Rightarrow> u64) \<Rightarrow> string \<Rightarrow> string \<Rightarrow> u64 \<Rightarrow> u64" where
  "digest sip a ev prev = sip (digest_input a ev prev)"

definition seq_key :: "nat \<Rightarrow> string" where
  "seq_key seq = dec_pad 20 seq"

definition audit_encode :: "audit_entry \<Rightarrow> string" where
  "audit_encode e = actor e @ [SEP] @ event e @ [SEP] @ dec (unat (prev_hash e)) @ [SEP] @ dec (unat (hash e))"

definition audit_decode :: "string \<Rightarrow> audit_entry option" where
  "audit_decode s =
     (case split_on SEP s of
        a # ev # p # h # _ \<Rightarrow>
          (case parse_uint u64_max p of
             None \<Rightarrow> None
           | Some ph \<Rightarrow>
               (case parse_uint u64_max h of
                  None \<Rightarrow> None
                | Some hh \<Rightarrow> Some \<lparr>actor = a, event = ev, prev_hash = word_of_nat ph, hash = word_of_nat hh\<rparr>))
      | _ \<Rightarrow> None)"

definition audit_entries :: "'s store_ops \<Rightarrow> 's \<Rightarrow> audit_entry list" where
  "audit_entries ops s =
     List.map_filter (\<lambda>(_, v). Option.bind (from_utf8 v) audit_decode) (st_scan ops s cf_AUDIT_LOG)"

definition last_hash :: "u64 \<Rightarrow> audit_entry list \<Rightarrow> u64" where
  "last_hash prev es = (if es = [] then prev else hash (last es))"

definition audit_append :: "'s store_ops \<Rightarrow> (bytes \<Rightarrow> u64) \<Rightarrow> string \<Rightarrow> string \<Rightarrow> 's \<Rightarrow> 's" where
  "audit_append ops sip a ev s =
     (let seq = st_count ops s cf_AUDIT_LOG;
          prev = last_hash 0 (audit_entries ops s);
          h = digest sip a ev prev;
          entry = \<lparr>actor = a, event = ev, prev_hash = prev, hash = h\<rparr>
      in fst (st_put ops cf_AUDIT_LOG (seq_key seq) (as_bytes (audit_encode entry)) s))"

text \<open>The loop of \<open>verify\<close>, from entry \<open>i\<close> on.\<close>

fun verify_from :: "(bytes \<Rightarrow> u64) \<Rightarrow> nat \<Rightarrow> u64 \<Rightarrow> audit_entry list \<Rightarrow> nat + unit" where
  "verify_from sip i expected_prev [] = Inr ()"
| "verify_from sip i expected_prev (e # es) =
     (if prev_hash e \<noteq> expected_prev then Inl i
      else if hash e \<noteq> digest sip (actor e) (event e) (prev_hash e) then Inl i
      else verify_from sip (Suc i) (hash e) es)"

definition audit_verify :: "'s store_ops \<Rightarrow> (bytes \<Rightarrow> u64) \<Rightarrow> 's \<Rightarrow> nat + unit" where
  "audit_verify ops sip s = verify_from sip 0 0 (audit_entries ops s)"

subsection \<open>Fields and encoding\<close>

text \<open>What \<open>append\<close> relies on: valid strings without the separator.\<close>

definition audit_field :: "string \<Rightarrow> bool" where
  "audit_field s \<longleftrightarrow> utf8_valid s \<and> SEP \<notin> set s"

definition entry_ok :: "audit_entry \<Rightarrow> bool" where
  "entry_ok e \<longleftrightarrow> audit_field (actor e) \<and> audit_field (event e)"

lemma ch_SEP [simp]: "ch SEP = 31"
  by (simp add: SEP_def)

lemma audit_field_append [sep_free]: "audit_field a \<Longrightarrow> audit_field b \<Longrightarrow> audit_field (a @ b)"
  by (auto simp: audit_field_def intro: utf8_valid_append)

lemma audit_field_ascii: "ascii s \<Longrightarrow> SEP \<notin> set s \<Longrightarrow> audit_field s"
  by (simp add: audit_field_def ascii_utf8_valid)

lemma ascii_dec [simp]: "ascii (dec n)"
  using dec_digits [of _ n] by (force simp: ascii_def)

lemma audit_field_dec [sep_free]: "audit_field (dec n)"
  by (simp add: audit_field_ascii)

lemma unat_u64_max [simp]: "unat (w :: u64) \<le> u64_max"
  using unsigned_less [of w, where ?'a = nat] by (simp add: u64_max_def)

lemma audit_decode_encode [simp]: "entry_ok e \<Longrightarrow> audit_decode (audit_encode e) = Some e"
  by (simp add: audit_decode_def audit_encode_def entry_ok_def audit_field_def split_on_last)

lemma utf8_valid_encode_entry: "entry_ok e \<Longrightarrow> utf8_valid (audit_encode e)"
  by (simp add: audit_encode_def entry_ok_def audit_field_def utf8_valid_Cons_ascii
      utf8_valid_append ascii_utf8_valid)

text \<open>Distinct entries feed distinct bytes to the hasher: valid strings hold no byte \<open>0xFF\<close>.\<close>

lemma FF_not_in_as_bytes: "utf8_valid s \<Longrightarrow> 0xFF \<notin> set (as_bytes s)"
proof
  assume v: "utf8_valid s" and "0xFF \<in> set (as_bytes s)"
  then obtain c where c: "c \<in> set s" "(0xFF :: u8) = of_char c"
    by (auto simp: as_bytes_def)
  have "ch c = 255"
    using arg_cong [OF c(2), of unat] by simp
  then show False
    using utf8_valid_bytes [OF v c(1)] by simp
qed

lemma append_FF_inj:
  "0xFF \<notin> set xs \<Longrightarrow> 0xFF \<notin> set ys \<Longrightarrow> xs @ (0xFF :: u8) # s = ys @ 0xFF # t \<Longrightarrow> xs = ys \<and> s = t"
proof (induction xs arbitrary: ys)
  case Nil
  then show ?case by (cases ys) auto
next
  case (Cons x xs)
  then show ?case by (cases ys) auto
qed

lemma unat_u64_less: "unat (w :: u64) < 256 ^ 8"
  using unsigned_less [of w, where ?'a = nat] by simp

lemma digest_input_inj:
  assumes "utf8_valid a" "utf8_valid ev" "utf8_valid a'" "utf8_valid ev'"
    and eq: "digest_input a ev p = digest_input a' ev' p'"
  shows "a = a' \<and> ev = ev' \<and> p = p'"
proof -
  have 1: "as_bytes a = as_bytes a' \<and>
      0xFF # as_bytes ev @ 0xFF # le_bytes 8 (unat p) = 0xFF # as_bytes ev' @ 0xFF # le_bytes 8 (unat p')"
    using eq assms(1,3) by (intro append_FF_inj) (simp_all add: digest_input_def feed_str_def FF_not_in_as_bytes)
  then have 2: "as_bytes ev = as_bytes ev' \<and> le_bytes 8 (unat p) = le_bytes 8 (unat p')"
    using assms(2,4) by (intro append_FF_inj) (simp_all add: FF_not_in_as_bytes)
  then have "unat p = unat p'"
    using le_bytes_inj [OF unat_u64_less unat_u64_less] by blast
  with 1 2 show ?thesis by (simp add: word_unat_eq_iff)
qed

subsection \<open>Chains\<close>

text \<open>The chain of the entries appended for a list of actors and events.\<close>

fun audit_chain :: "(bytes \<Rightarrow> u64) \<Rightarrow> u64 \<Rightarrow> (string \<times> string) list \<Rightarrow> audit_entry list" where
  "audit_chain sip prev [] = []"
| "audit_chain sip prev ((a, ev) # xs) =
     \<lparr>actor = a, event = ev, prev_hash = prev, hash = digest sip a ev prev\<rparr>
       # audit_chain sip (digest sip a ev prev) xs"

lemma last_hash_simps [simp]:
  "last_hash prev [] = prev"
  "last_hash prev (e # es) = last_hash (hash e) es"
  "last_hash prev (es @ [e]) = hash e"
  by (auto simp: last_hash_def)

lemma verify_audit_chain [simp]: "verify_from sip i prev (audit_chain sip prev xs) = Inr ()"
  by (induction xs arbitrary: i prev) auto

lemma audit_chain_append:
  "audit_chain sip prev (xs @ [(a, ev)]) = audit_chain sip prev xs @
     [let p = last_hash prev (audit_chain sip prev xs) in
      \<lparr>actor = a, event = ev, prev_hash = p, hash = digest sip a ev p\<rparr>]"
  by (induction xs arbitrary: prev) auto

lemma map_audit_chain [simp]: "map (\<lambda>e. (actor e, event e)) (audit_chain sip prev xs) = xs"
  by (induction xs arbitrary: prev) auto

lemma length_audit_chain [simp]: "length (audit_chain sip prev xs) = length xs"
  by (induction xs arbitrary: prev) auto

lemma audit_chain_ok:
  "\<forall>(a, ev)\<in>set xs. audit_field a \<and> audit_field ev \<Longrightarrow> e \<in> set (audit_chain sip prev xs) \<Longrightarrow> entry_ok e"
  by (induction xs arbitrary: prev) (auto simp: entry_ok_def)

lemma verify_from_Inr_chain:
  "verify_from sip i prev es = Inr () \<Longrightarrow> es = audit_chain sip prev (map (\<lambda>e. (actor e, event e)) es)"
  by (induction es arbitrary: i prev) (auto split: if_splits)

text \<open>
  Two verifying chains of the same length that end in the same hash are equal, or two of their
  entries have different digest inputs with one digest.
\<close>

definition entry_input :: "audit_entry \<Rightarrow> bytes" where
  "entry_input e = digest_input (actor e) (event e) (prev_hash e)"

lemma chain_collision:
  assumes "length xs = length ys"
    and "last_hash prev (audit_chain sip prev xs) = last_hash prev (audit_chain sip prev ys)"
    and "\<forall>(a, ev)\<in>set xs \<union> set ys. utf8_valid a \<and> utf8_valid ev"
    and "inj_on sip (entry_input ` (set (audit_chain sip prev xs) \<union> set (audit_chain sip prev ys)))"
  shows "xs = ys"
  using assms
proof (induction xs ys rule: rev_induct2)
  case (4 x xs y ys)
  obtain a ev b ew where xy: "x = (a, ev)" "y = (b, ew)" by (metis surj_pair)
  define p q where "p = last_hash prev (audit_chain sip prev xs)" and "q = last_hash prev (audit_chain sip prev ys)"
  have chains: "audit_chain sip prev (xs @ [x]) = audit_chain sip prev xs @ [\<lparr>actor = a, event = ev, prev_hash = p, hash = digest sip a ev p\<rparr>]"
    "audit_chain sip prev (ys @ [y]) = audit_chain sip prev ys @ [\<lparr>actor = b, event = ew, prev_hash = q, hash = digest sip b ew q\<rparr>]"
    by (simp_all add: audit_chain_append xy p_def q_def Let_def)
  have "sip (digest_input a ev p) = sip (digest_input b ew q)"
    using "4.prems"(2) by (simp add: chains digest_def)
  then have "digest_input a ev p = digest_input b ew q"
    by (rule inj_onD [OF "4.prems"(4)]) (simp_all add: chains entry_input_def)
  then have "a = b \<and> ev = ew \<and> p = q"
    using "4.prems"(3) xy by (intro digest_input_inj) auto
  moreover have "inj_on sip (entry_input ` (set (audit_chain sip prev xs) \<union> set (audit_chain sip prev ys)))"
    using "4.prems"(4) by (rule inj_on_subset) (auto simp: chains)
  ultimately show ?case using 4 xy by (simp add: p_def q_def)
qed auto


subsection \<open>The log over a store\<close>

text \<open>The column family holds exactly the entries \<open>es\<close>, in order.\<close>

definition audit_log_is :: "'s store_ops \<Rightarrow> 's \<Rightarrow> audit_entry list \<Rightarrow> bool" where
  "audit_log_is ops s es \<longleftrightarrow>
     st_scan ops s cf_AUDIT_LOG = map (\<lambda>(i, e). (seq_key i, as_bytes (audit_encode e))) (enumerate 0 es)
     \<and> (\<forall>e\<in>set es. entry_ok e)"

definition audit_capacity :: nat where
  "audit_capacity = 10 ^ 20"

lemma seq_key_less: "m < n \<Longrightarrow> n < audit_capacity \<Longrightarrow> seq_key m < seq_key n"
  by (simp add: seq_key_def audit_capacity_def dec_pad_less)

lemma map_filter_all_Some:
  "(\<And>x. x \<in> set xs \<Longrightarrow> f x = Some (g x)) \<Longrightarrow> List.map_filter f xs = map g xs"
  by (induction xs) (simp_all add: List.map_filter_simps)

lemma map_filter_append: "List.map_filter f (xs @ ys) = List.map_filter f xs @ List.map_filter f ys"
  by (simp add: List.map_filter_def)

lemma audit_entries_log: "audit_log_is ops s es \<Longrightarrow> audit_entries ops s = es"
proof -
  assume l: "audit_log_is ops s es"
  have "List.map_filter (\<lambda>(_, v). Option.bind (from_utf8 v) audit_decode)
      (map (\<lambda>(i, e). (seq_key i, as_bytes (audit_encode e))) (enumerate n es)) = es"
    if "\<forall>e\<in>set es. entry_ok e" for n
    using that
    by (induction es arbitrary: n) (simp_all add: List.map_filter_simps utf8_valid_encode_entry)
  with l show ?thesis
    by (simp add: audit_entries_def audit_log_is_def)
qed

context kv_store
begin

lemma audit_append_inv: "inv s \<Longrightarrow> inv (audit_append ops sip a ev s)"
  by (simp add: audit_append_def Let_def put_inv)

lemma audit_append_other: "inv s \<Longrightarrow> cf \<noteq> cf_AUDIT_LOG \<Longrightarrow> st_scan ops (audit_append ops sip a ev s) cf = st_scan ops s cf"
  by (simp add: audit_append_def Let_def scan_put)

lemma audit_log_frame:
  "inv s \<Longrightarrow> cf \<noteq> cf_AUDIT_LOG \<Longrightarrow> audit_log_is ops (fst (st_put ops cf k v s)) es = audit_log_is ops s es"
  by (simp add: audit_log_is_def scan_put)

lemma audit_log_frame_delete:
  "inv s \<Longrightarrow> cf \<noteq> cf_AUDIT_LOG \<Longrightarrow> audit_log_is ops (fst (st_delete ops cf k s)) es = audit_log_is ops s es"
  by (simp add: audit_log_is_def scan_delete)

text \<open>The raw effect of \<open>append\<close> on a log with fewer entries than the keys can number.\<close>

lemma audit_append_scan:
  assumes "inv s" and keys: "map fst (st_scan ops s cf_AUDIT_LOG) = map seq_key [0..<n]" and "n < audit_capacity"
  shows "st_scan ops (audit_append ops sip a ev s) cf_AUDIT_LOG =
    st_scan ops s cf_AUDIT_LOG @
      [(seq_key n, as_bytes (audit_encode
         (let p = last_hash 0 (audit_entries ops s) in
          \<lparr>actor = a, event = ev, prev_hash = p, hash = digest sip a ev p\<rparr>)))]"
proof -
  have "length (st_scan ops s cf_AUDIT_LOG) = n"
    using keys by (metis length_map length_upt minus_nat.diff_0)
  moreover have "\<forall>k'\<in>fst ` set (st_scan ops s cf_AUDIT_LOG). k' < seq_key n"
  proof -
    have "fst ` set (st_scan ops s cf_AUDIT_LOG) = set (map seq_key [0..<n])"
      using keys by (metis list.set_map)
    with assms(3) show ?thesis by (auto intro: seq_key_less)
  qed
  ultimately show ?thesis
    using assms(1) by (simp add: audit_append_def Let_def scan_put count_scan bt_insert_greater)
qed

lemma audit_append_log:
  assumes "inv s" "audit_log_is ops s es" "length es < audit_capacity" "audit_field a" "audit_field ev"
  shows "audit_log_is ops (audit_append ops sip a ev s)
    (es @ [let p = last_hash 0 es in \<lparr>actor = a, event = ev, prev_hash = p, hash = digest sip a ev p\<rparr>])"
proof -
  have "map fst (st_scan ops s cf_AUDIT_LOG) = map seq_key [0..<length es]"
    using assms(2) by (simp add: audit_log_is_def case_prod_unfold comp_def)
      (metis (no_types, lifting) comp_def map_eq_conv map_fst_enumerate map_map add_0)
  from audit_append_scan [OF assms(1) this assms(3)] show ?thesis
    using assms(2,4,5) audit_entries_log [OF assms(2)]
    by (simp add: audit_log_is_def enumerate_append_eq Let_def entry_ok_def)
qed

lemma audit_append_chain:
  assumes "inv s" "audit_log_is ops s (audit_chain sip 0 xs)" "length xs < audit_capacity"
    "audit_field a" "audit_field ev"
  shows "audit_log_is ops (audit_append ops sip a ev s) (audit_chain sip 0 (xs @ [(a, ev)]))"
  using audit_append_log [OF assms(1,2) _ assms(4,5)] assms(3) by (simp add: audit_chain_append)

text \<open>A log whose entries form a chain verifies.\<close>

lemma audit_verify_chain: "audit_log_is ops s (audit_chain sip 0 xs) \<Longrightarrow> audit_verify ops sip s = Inr ()"
  by (simp add: audit_verify_def audit_entries_log)

lemma audit_fold_log:
  assumes "inv s" "audit_log_is ops s (audit_chain sip 0 xs)" "length (xs @ ys) \<le> audit_capacity"
    "\<forall>(a, ev)\<in>set ys. audit_field a \<and> audit_field ev"
  shows "inv (fold (\<lambda>(a, ev). audit_append ops sip a ev) ys s) \<and>
    audit_log_is ops (fold (\<lambda>(a, ev). audit_append ops sip a ev) ys s) (audit_chain sip 0 (xs @ ys))"
  using assms
proof (induction ys arbitrary: s xs)
  case Nil
  then show ?case by simp
next
  case (Cons y ys)
  obtain a ev where y: "y = (a, ev)" by (cases y)
  have "audit_log_is ops (audit_append ops sip a ev s) (audit_chain sip 0 (xs @ [(a, ev)]))"
    using Cons.prems y by (intro audit_append_chain) auto
  from Cons.IH [OF audit_append_inv [OF Cons.prems(1)] this] Cons.prems(3,4) y show ?case
    by simp
qed

end


subsection \<open>Separators, corruption and truncation\<close>

lemma audit_decode_valid:
  assumes "utf8_valid s" "audit_decode s = Some e"
  shows "utf8_valid (actor e) \<and> utf8_valid (event e)"
proof -
  from assms(2) obtain a ev r where r: "split_on SEP s = a # ev # r" "actor e = a" "event e = ev"
    by (auto simp: audit_decode_def split: list.splits option.splits)
  then have "a \<in> set (split_on SEP s)" "ev \<in> set (split_on SEP s)"
    by simp_all
  with r utf8_valid_split_on [OF assms(1), of SEP] show ?thesis
    by simp
qed

lemma set_map_filter: "y \<in> set (List.map_filter f xs) \<longleftrightarrow> (\<exists>x\<in>set xs. f x = Some y)"
  by (force simp: List.map_filter_def)

lemma audit_entries_valid:
  assumes "e \<in> set (audit_entries ops s)"
  shows "utf8_valid (actor e) \<and> utf8_valid (event e)"
proof -
  from assms obtain v where "Option.bind (from_utf8 v) audit_decode = Some e"
    by (auto simp: audit_entries_def set_map_filter)
  then obtain t where "from_utf8 v = Some t" "audit_decode t = Some e"
    by (auto simp: bind_eq_Some_conv)
  then show ?thesis
    using from_utf8_valid audit_decode_valid by blast
qed

text \<open>An event whose text after a separator is not a number does not decode.\<close>

lemma audit_decode_SEP:
  "SEP \<notin> set a \<Longrightarrow> SEP \<notin> set e1 \<Longrightarrow> SEP \<notin> set e2 \<Longrightarrow> parse_uint u64_max e2 = None \<Longrightarrow>
   audit_decode (audit_encode \<lparr>actor = a, event = e1 @ SEP # e2, prev_hash = p, hash = h\<rparr>) = None"
  by (simp add: audit_decode_def audit_encode_def)

context kv_store
begin

lemma audit_append_hidden:
  assumes "inv s" "map fst (st_scan ops s cf_AUDIT_LOG) = map seq_key [0..<n]" "n < audit_capacity"
    and "SEP \<notin> set a" "SEP \<notin> set e1" "SEP \<notin> set e2" "parse_uint u64_max e2 = None"
  shows "audit_entries ops (audit_append ops sip a (e1 @ SEP # e2) s) = audit_entries ops s"
  using audit_append_scan [OF assms(1-3), of sip a "e1 @ SEP # e2"] audit_decode_SEP [OF assms(4-7)]
  by (simp add: audit_entries_def map_filter_append List.map_filter_simps Let_def)

end

lemma audit_log_keys: "audit_log_is ops s es \<Longrightarrow> map fst (st_scan ops s cf_AUDIT_LOG) = map seq_key [0..<length es]"
  by (simp add: audit_log_is_def case_prod_unfold comp_def)
    (metis (no_types, lifting) comp_def map_eq_conv map_fst_enumerate map_map add_0)

lemma verify_from_append:
  "verify_from sip i prev (es @ fs) =
     (case verify_from sip i prev es of
        Inl k \<Rightarrow> Inl k
      | Inr _ \<Rightarrow> verify_from sip (i + length es) (last_hash prev es) fs)"
  by (induction es arbitrary: i prev) (auto split: sum.splits)

lemma verify_from_Inl:
  "verify_from sip i prev es = Inl k \<Longrightarrow>
     i \<le> k \<and> k < i + length es \<and> verify_from sip i prev (take (k - i) es) = Inr ()"
proof (induction es arbitrary: i prev)
  case Nil
  then show ?case by simp
next
  case (Cons e es)
  show ?case
  proof (cases "prev_hash e = prev \<and> hash e = digest sip (actor e) (event e) (prev_hash e)")
    case False
    with Cons.prems have "k = i" by (auto split: if_splits)
    then show ?thesis by simp
  next
    case True
    with Cons.prems have "verify_from sip (Suc i) (hash e) es = Inl k" by simp
    from Cons.IH [OF this] True show ?thesis
      by (simp add: Suc_le_eq take_Cons' )
  qed
qed

lemma audit_log_memory:
  assumes "\<forall>(a, ev)\<in>set xs. audit_field a \<and> audit_field ev" and "length xs \<le> audit_capacity"
  shows "memory_inv (fold (\<lambda>(a, ev). audit_append memory_ops sip a ev) xs memory_default) \<and>
    audit_log_is memory_ops (fold (\<lambda>(a, ev). audit_append memory_ops sip a ev) xs memory_default)
      (audit_chain sip 0 xs)"
proof -
  have "audit_log_is memory_ops memory_default (audit_chain sip 0 [])"
    by (simp add: audit_log_is_def memory_defs memory_default_def)
  then show ?thesis
    using mem.audit_fold_log [of memory_default sip "[]" xs] assms by simp
qed

lemma audit_log_facts:
  assumes "audit_log_is memory_ops s (audit_chain sip 0 xs)"
  shows "map (\<lambda>e. (actor e, event e)) (audit_entries memory_ops s) = xs \<and> audit_verify memory_ops sip s = Inr ()"
  using audit_entries_log [OF assms] mem.audit_verify_chain [OF assms] by simp

subsection \<open>Properties\<close>

text \<open>Appending any list of decisions with separator-free fields to an empty log leaves a log
  whose entries are exactly those decisions, in order, and which verifies.\<close>

theorem audit_records_in_order:
  assumes "\<forall>(a, ev)\<in>set xs. audit_field a \<and> audit_field ev" and "length xs \<le> audit_capacity"
  shows "let s = fold (\<lambda>(a, ev). audit_append memory_ops sip a ev) xs memory_default in
    map (\<lambda>e. (actor e, event e)) (audit_entries memory_ops s) = xs \<and>
    audit_verify memory_ops sip s = Inr ()"
  using audit_log_facts [OF audit_log_memory [OF assms, of sip, THEN conjunct2]] by (simp add: Let_def)

theorem audit_records_in_order_witness:
  "map (\<lambda>e. (actor e, event e)) (audit_entries memory_ops
     (fold (\<lambda>(a, ev). audit_append memory_ops (\<lambda>_. 7) a ev)
       [(''@a:x'', ''executed: t ok=true tokens=1''), (''@a:x'', ''rate_limited: t'')] memory_default))
   = [(''@a:x'', ''executed: t ok=true tokens=1''), (''@a:x'', ''rate_limited: t'')]"
  using audit_records_in_order
    [of "[(''@a:x'', ''executed: t ok=true tokens=1''), (''@a:x'', ''rate_limited: t'')]" "\<lambda>_. 7"]
  by (simp add: audit_field_ascii SEP_def audit_capacity_def Let_def)

text \<open>C23: Two logs that verify, with the same number of entries and the same last hash, are the same log,
  entry for entry, wherever the hasher tells the digest inputs of their entries apart.\<close>

theorem audit_tamper_evident:
  assumes "audit_verify ops sip s = Inr ()" "audit_verify ops' sip s' = Inr ()"
    and "length (audit_entries ops s) = length (audit_entries ops' s')"
    and "last_hash 0 (audit_entries ops s) = last_hash 0 (audit_entries ops' s')"
    and "inj_on sip (entry_input ` (set (audit_entries ops s) \<union> set (audit_entries ops' s')))"
  shows "audit_entries ops s = audit_entries ops' s'"
proof -
  define xs ys where "xs = map (\<lambda>e. (actor e, event e)) (audit_entries ops s)"
    and "ys = map (\<lambda>e. (actor e, event e)) (audit_entries ops' s')"
  have es: "audit_entries ops s = audit_chain sip 0 xs" "audit_entries ops' s' = audit_chain sip 0 ys"
    using assms(1,2) by (auto simp: audit_verify_def xs_def ys_def dest: verify_from_Inr_chain)
  have "xs = ys"
  proof (rule chain_collision)
    show "length xs = length ys" using assms(3) by (simp add: xs_def ys_def)
    show "last_hash 0 (audit_chain sip 0 xs) = last_hash 0 (audit_chain sip 0 ys)"
      using assms(4) by (simp only: es)
    show "\<forall>(a, ev)\<in>set xs \<union> set ys. utf8_valid a \<and> utf8_valid ev"
      by (auto simp: xs_def ys_def dest: audit_entries_valid)
    show "inj_on sip (entry_input ` (set (audit_chain sip 0 xs) \<union> set (audit_chain sip 0 ys)))"
      using assms(5) by (simp only: es)
  qed
  with es show ?thesis by simp
qed

text \<open>The witness: one decision appended to an empty store and to a store that holds other data.\<close>

theorem audit_tamper_evident_witness:
  "audit_entries memory_ops (audit_append memory_ops (\<lambda>_. 7) ''@a:x'' ''e'' memory_default) =
   audit_entries memory_ops (fst (memory_put cf_TYPING ''k'' [] (audit_append memory_ops (\<lambda>_. 7) ''@a:x'' ''e'' memory_default)))"
proof -
  let ?s = "audit_append memory_ops (\<lambda>_. 7) ''@a:x'' ''e'' memory_default"
  let ?t = "fst (memory_put cf_TYPING ''k'' [] ?s)"
  have l: "audit_log_is memory_ops ?s (audit_chain (\<lambda>_. 7) 0 [(''@a:x'', ''e'')])"
    using audit_log_memory [THEN conjunct2, of "[(''@a:x'', ''e'')]" "\<lambda>_. 7"]
    by (simp add: audit_field_ascii SEP_def audit_capacity_def)
  have "st_scan memory_ops ?t cf_AUDIT_LOG = st_scan memory_ops ?s cf_AUDIT_LOG"
    by (simp add: memory_defs cf_defs)
  with l have l': "audit_log_is memory_ops ?t (audit_chain (\<lambda>_. 7) 0 [(''@a:x'', ''e'')])"
    by (simp add: audit_log_is_def)
  show ?thesis
    by (rule audit_tamper_evident [where sip = "\<lambda>_. 7"])
      (simp_all only: l [THEN audit_entries_log] l' [THEN audit_entries_log] l [THEN mem.audit_verify_chain]
        l' [THEN mem.audit_verify_chain], simp_all)
qed

text \<open>\<open>verify\<close> reports the first broken entry: when it fails at index \<open>k\<close>, that entry exists and
  the entries before it form an intact chain.\<close>

theorem audit_verify_first_break:
  assumes "audit_verify ops sip s = Inl k"
  shows "k < length (audit_entries ops s) \<and> verify_from sip 0 0 (take k (audit_entries ops s)) = Inr ()
    \<and> verify_from sip 0 0 (take (Suc k) (audit_entries ops s)) = Inl k"
proof -
  let ?es = "audit_entries ops s"
  from assms have v: "verify_from sip 0 0 ?es = Inl k" by (simp add: audit_verify_def)
  from verify_from_Inl [OF v] have k: "k < length ?es" "verify_from sip 0 0 (take k ?es) = Inr ()"
    by simp_all
  have "take k ?es @ ?es ! k # drop (Suc k) ?es = ?es"
    using k(1) by (simp add: id_take_nth_drop [symmetric])
  with v k have "verify_from sip k (last_hash 0 (take k ?es)) (?es ! k # drop (Suc k) ?es) = Inl k"
    using verify_from_append [of sip 0 0 "take k ?es" "?es ! k # drop (Suc k) ?es"] by simp
  then have "verify_from sip k (last_hash 0 (take k ?es)) [?es ! k] = Inl k"
    by (auto split: if_splits dest: verify_from_Inl)
  then show ?thesis
    using k by (simp add: take_Suc_conv_app_nth verify_from_append)
qed

theorem audit_verify_first_break_witness:
  "\<exists>s. audit_verify memory_ops (\<lambda>_. 8) s = Inl 0 \<and> 0 < length (audit_entries memory_ops s)"
proof -
  let ?s = "fold (\<lambda>(a, ev). audit_append memory_ops (\<lambda>_. 7) a ev) [(''@a:x'', ''e'')] memory_default"
  have l: "audit_log_is memory_ops ?s (audit_chain (\<lambda>_. 7) 0 [(''@a:x'', ''e'')])"
    by (rule audit_log_memory [THEN conjunct2]) (simp_all add: audit_field_ascii SEP_def audit_capacity_def)
  have v: "audit_verify memory_ops (\<lambda>_. 8) ?s = Inl 0"
    by (simp only: audit_verify_def audit_entries_log [OF l]) (simp add: digest_def)
  from v audit_verify_first_break [OF v] show ?thesis by blast
qed

text \<open>An event that contains the unit separator followed by text that is not a number is lost:
  appending it leaves the readable entries as they were, and the log still verifies.\<close>

theorem audit_separator_hides_event:
  assumes "memory_inv s" "audit_log_is memory_ops s (audit_chain sip 0 xs)" "length xs < audit_capacity"
    and "SEP \<notin> set a" "SEP \<notin> set e1" "SEP \<notin> set e2" "parse_uint u64_max e2 = None"
  shows "audit_entries memory_ops (audit_append memory_ops sip a (e1 @ SEP # e2) s) = audit_entries memory_ops s
    \<and> audit_verify memory_ops sip (audit_append memory_ops sip a (e1 @ SEP # e2) s) = Inr ()"
proof -
  have "audit_entries memory_ops (audit_append memory_ops sip a (e1 @ SEP # e2) s) = audit_entries memory_ops s"
    using assms(1) audit_log_keys [OF assms(2)] assms(3-7) by (intro mem.audit_append_hidden) auto
  then show ?thesis
    using mem.audit_verify_chain [OF assms(2)] by (simp add: audit_verify_def)
qed

theorem audit_separator_hides_event_witness:
  "audit_entries memory_ops
     (audit_append memory_ops (\<lambda>_. 7) ''@a:x'' (''rate_limited: '' @ SEP # ''t'') memory_default) = []"
proof -
  have l: "audit_log_is memory_ops memory_default (audit_chain (\<lambda>_. 7) 0 [])"
    by (simp add: audit_log_is_def memory_defs memory_default_def)
  have "audit_entries memory_ops memory_default = []"
    using audit_entries_log [OF l] by simp
  then show ?thesis
    using audit_separator_hides_event [of memory_default "\<lambda>_. 7" "[]" "''@a:x''" "''rate_limited: ''" "''t''"] l
    by (simp add: SEP_def audit_capacity_def parse_uint_def digit_val_def)
qed

end
