(* ===== verification/Siem.thy ===== *)
theory Siem
  imports AuditLog JsonText
begin

section \<open>Audit records for the SIEM (gm-obs, siem.rs)\<close>

text \<open>
  The audit log as structured records, their hand-written JSON form and the stream to a sink.  A
  sink is the state-passing function \<open>emit\<close>; a writer is one too, its result being whether the
  line was written.
\<close>

record audit_record =
  rec_seq :: u64
  rec_actor :: string
  rec_action :: string
  rec_prev_hash :: u64
  rec_hash :: u64

text \<open>\<open>json_string\<close>, on the code points of the string.\<close>

definition siem_escape :: "nat \<Rightarrow> string" where
  "siem_escape c =
     (if c = 34 then [CHR 0x5C, CHR 0x22] else if c = 92 then [CHR 0x5C, CHR 0x5C]
      else if c = 10 then [CHR 0x5C, CHR ''n''] else if c = 13 then [CHR 0x5C, CHR ''r'']
      else if c = 9 then [CHR 0x5C, CHR ''t'']
      else if c < 32 then CHR 0x5C # CHR ''u'' # hex4 c else utf8_encode c)"

definition siem_json_string :: "string \<Rightarrow> string" where
  "siem_json_string s = CHR 0x22 # concat (map siem_escape (str_chars s)) @ [CHR 0x22]"

definition record_to_json :: "audit_record \<Rightarrow> string" where
  "record_to_json r =
     ''{'' @ [CHR 0x22] @ ''seq'' @ [CHR 0x22] @ '':'' @ dec (unat (rec_seq r)) @
     '','' @ [CHR 0x22] @ ''actor'' @ [CHR 0x22] @ '':'' @ siem_json_string (rec_actor r) @
     '','' @ [CHR 0x22] @ ''action'' @ [CHR 0x22] @ '':'' @ siem_json_string (rec_action r) @
     '','' @ [CHR 0x22] @ ''prev_hash'' @ [CHR 0x22] @ '':'' @ dec (unat (rec_prev_hash r)) @
     '','' @ [CHR 0x22] @ ''hash'' @ [CHR 0x22] @ '':'' @ dec (unat (rec_hash r)) @ ''}''"

definition vec_emit :: "audit_record \<Rightarrow> audit_record list \<Rightarrow> audit_record list" where
  "vec_emit r sink = sink @ [r]"

definition writer_emit :: "(string \<Rightarrow> 'w \<Rightarrow> 'w \<times> bool) \<Rightarrow> audit_record \<Rightarrow> 'w \<Rightarrow> 'w" where
  "writer_emit write r w = fst (write (record_to_json r @ [CHR 0x0A]) w)"

definition record_of :: "nat \<Rightarrow> audit_entry \<Rightarrow> audit_record" where
  "record_of seq e = \<lparr>rec_seq = word_of_nat seq, rec_actor = actor e, rec_action = event e,
     rec_prev_hash = prev_hash e, rec_hash = hash e\<rparr>"

definition stream_audit :: "'s store_ops \<Rightarrow> (audit_record \<Rightarrow> 'k \<Rightarrow> 'k) \<Rightarrow> 's \<Rightarrow> 'k \<Rightarrow> 'k \<times> nat" where
  "stream_audit ops emit s sink =
     (let es = audit_entries ops s
      in (fold (\<lambda>(seq, e). emit (record_of seq e)) (enumerate 0 es) sink, length es))"

subsection \<open>What a sink receives\<close>

lemma stream_audit_vec:
  "stream_audit ops vec_emit s [] =
     (map (\<lambda>(seq, e). record_of seq e) (enumerate 0 (audit_entries ops s)), length (audit_entries ops s))"
proof -
  have "fold (\<lambda>(seq, e). vec_emit (record_of seq e)) xs sink = sink @ map (\<lambda>(seq, e). record_of seq e) xs" for xs sink
    by (induction xs arbitrary: sink) (auto simp: vec_emit_def)
  then show ?thesis by (simp add: stream_audit_def Let_def)
qed

text \<open>A record is one line: its JSON form holds no line break, so a reader can split the stream.\<close>

lemma utf8_encode_no_newline:
  assumes "scalar c" "c \<noteq> 10"
  shows "CHR 0x0A \<notin> set (utf8_encode c)"
proof
  assume "CHR 0x0A \<in> set (utf8_encode c)"
  then have "utf8_string [c] = [CHR 0x0A]"
    using utf8_encode_ascii_iff [OF assms(1), of "CHR 0x0A"] by (simp add: utf8_string_def)
  moreover have "str_chars (utf8_string [c]) = [c]"
    using assms(1) by (intro str_chars_utf8_string) simp
  ultimately show False
    using assms(2) by (simp add: str_chars_ascii)
qed

lemma hex4_no_newline: "CHR 0x0A \<notin> set (hex4 n)"
proof -
  have "CHR 0x0A \<noteq> hex_digit d" if "d < 16" for d
  proof
    assume "CHR 0x0A = hex_digit d"
    then have "ch (CHR 0x0A) = ch (hex_digit d)" by (rule arg_cong)
    with that show False by (simp add: hex_digit_def digit_def split: if_splits)
  qed
  then show ?thesis by (simp add: hex4_def)
qed

lemma siem_escape_no_newline: "scalar c \<Longrightarrow> CHR 0x0A \<notin> set (siem_escape c)"
  using hex4_no_newline [of c] by (auto simp: siem_escape_def utf8_encode_no_newline)

lemma dec_no_newline: "CHR 0x0A \<notin> set (dec n)"
  using dec_digits [of "CHR 0x0A" n] by auto

lemma record_one_line: "CHR 0x0A \<notin> set (record_to_json r)"
  using scalar_str_chars siem_escape_no_newline dec_no_newline
  by (auto simp: record_to_json_def siem_json_string_def)

end
