(* ===== verification/AgentEvents.thy ===== *)
theory AgentEvents
  imports Prelude
begin

section \<open>Events the gateway reflects into a room (gm-agent, events.rs)\<close>

text \<open>Content values with their accessors, and the three event constructors.\<close>

definition TYPE_TOOL_CALL :: string where "TYPE_TOOL_CALL = ''m.gauss.agent.tool_call''"
definition TYPE_TOOL_RESULT :: string where "TYPE_TOOL_RESULT = ''m.gauss.agent.tool_result''"
definition TYPE_APPROVAL :: string where "TYPE_APPROVAL = ''m.gauss.agent.approval''"
definition TYPE_CAPABILITY :: string where "TYPE_CAPABILITY = ''m.gauss.agent.capability''"
definition TYPE_POLICY :: string where "TYPE_POLICY = ''m.gauss.agent.policy''"

datatype agent_value = VStr string | VBool bool | VU64 u64 | VList "agent_value list"

type_synonym content = "(string, agent_value) btree"

fun value_str :: "agent_value \<Rightarrow> string option" where
  "value_str (VStr s) = Some s"
| "value_str _ = None"

fun value_bool :: "agent_value \<Rightarrow> bool option" where
  "value_bool (VBool b) = Some b"
| "value_bool _ = None"

fun value_u64 :: "agent_value \<Rightarrow> u64 option" where
  "value_u64 (VU64 n) = Some n"
| "value_u64 _ = None"

fun value_list :: "agent_value \<Rightarrow> agent_value list option" where
  "value_list (VList vs) = Some vs"
| "value_list _ = None"

record reflected_event =
  event_type :: string
  event_content :: content

definition reflected_tool_call :: "string \<Rightarrow> string \<Rightarrow> string \<Rightarrow> reflected_event" where
  "reflected_tool_call call_id tool args_summary =
     \<lparr>event_type = TYPE_TOOL_CALL, event_content =
       bt_of_list [(''call_id'', VStr call_id), (''tool'', VStr tool), (''args_summary'', VStr args_summary)]\<rparr>"

definition reflected_tool_result :: "string \<Rightarrow> string \<Rightarrow> bool \<Rightarrow> string \<Rightarrow> reflected_event" where
  "reflected_tool_result call_id tool ok summary =
     \<lparr>event_type = TYPE_TOOL_RESULT, event_content =
       bt_of_list [(''call_id'', VStr call_id), (''tool'', VStr tool), (''ok'', VBool ok), (''summary'', VStr summary)]\<rparr>"

definition reflected_approval :: "string \<Rightarrow> string \<Rightarrow> bool \<Rightarrow> reflected_event" where
  "reflected_approval call_id decided_by approved =
     \<lparr>event_type = TYPE_APPROVAL, event_content =
       bt_of_list [(''call_id'', VStr call_id), (''decided_by'', VStr decided_by), (''approved'', VBool approved)]\<rparr>"

lemma value_accessors:
  "value_str v = Some s \<longleftrightarrow> v = VStr s" "value_bool v = Some b \<longleftrightarrow> v = VBool b"
  "value_u64 v = Some n \<longleftrightarrow> v = VU64 n" "value_list v = Some vs \<longleftrightarrow> v = VList vs"
  by (cases v; simp; fail)+

end
