(* ===== verification/Capability.thy ===== *)
theory Capability
  imports AgentEvents Ids
begin

section \<open>Capability grants (gm-agent, capability.rs)\<close>

text \<open>
  A grant lists the tools and rooms of an agent, its budgets and the class of each tool.  It is
  room state: \<open>to_content\<close> writes it and \<open>from_content\<close> reads it back from untrusted content.
\<close>

datatype action_class = Auto | Review | Forbidden

fun class_as_str :: "action_class \<Rightarrow> string" where
  "class_as_str Auto = ''auto''"
| "class_as_str Review = ''review''"
| "class_as_str Forbidden = ''forbidden''"

definition class_parse :: "string \<Rightarrow> action_class option" where
  "class_parse s =
     (if s = ''auto'' then Some Auto else if s = ''review'' then Some Review
      else if s = ''forbidden'' then Some Forbidden else None)"

datatype capability_error = MissingField string | InvalidField string

fun capability_error_display :: "capability_error \<Rightarrow> string" where
  "capability_error_display (MissingField k) = ''missing capability field: '' @ k"
| "capability_error_display (InvalidField k) = ''invalid capability field: '' @ k"

record capability_grant =
  grant_agent :: agent_id
  allowed_tools :: "string list"
  accessible_rooms :: "room_id list"
  rate_limit_per_min :: u32
  daily_call_limit :: u32
  daily_token_budget :: u64
  default_class :: action_class
  overrides :: "(string \<times> action_class) list"

definition deny_all :: "agent_id \<Rightarrow> capability_grant" where
  "deny_all agent = \<lparr>grant_agent = agent, allowed_tools = [], accessible_rooms = [], rate_limit_per_min = 0,
     daily_call_limit = 0, daily_token_budget = 0, default_class = Forbidden, overrides = []\<rparr>"

definition allow_tool :: "string \<Rightarrow> action_class \<Rightarrow> capability_grant \<Rightarrow> capability_grant" where
  "allow_tool tool class g =
     (let g1 = (if class \<noteq> Forbidden then g\<lparr>overrides := overrides g @ [(tool, class)]\<rparr> else g)
      in g1\<lparr>allowed_tools := allowed_tools g1 @ [tool]\<rparr>)"

definition allow_room :: "room_id \<Rightarrow> capability_grant \<Rightarrow> capability_grant" where
  "allow_room room g = g\<lparr>accessible_rooms := accessible_rooms g @ [room]\<rparr>"

definition with_rate_limit :: "u32 \<Rightarrow> capability_grant \<Rightarrow> capability_grant" where
  "with_rate_limit n g = g\<lparr>rate_limit_per_min := n\<rparr>"

definition with_daily_limit :: "u32 \<Rightarrow> capability_grant \<Rightarrow> capability_grant" where
  "with_daily_limit n g = g\<lparr>daily_call_limit := n\<rparr>"

definition with_daily_token_budget :: "u64 \<Rightarrow> capability_grant \<Rightarrow> capability_grant" where
  "with_daily_token_budget n g = g\<lparr>daily_token_budget := n\<rparr>"

subsection \<open>Classification\<close>

definition permits_tool :: "capability_grant \<Rightarrow> string \<Rightarrow> bool" where
  "permits_tool g tool \<longleftrightarrow> tool \<in> set (allowed_tools g)"

definition override_or_default :: "capability_grant \<Rightarrow> string \<Rightarrow> action_class" where
  "override_or_default g tool = (case map_of (overrides g) tool of Some c \<Rightarrow> c | None \<Rightarrow> default_class g)"

definition tool_class :: "capability_grant \<Rightarrow> string \<Rightarrow> action_class option" where
  "tool_class g tool = (if permits_tool g tool then Some (override_or_default g tool) else None)"

definition permits_room :: "capability_grant \<Rightarrow> room_id \<Rightarrow> bool" where
  "permits_room g room \<longleftrightarrow> room \<in> set (accessible_rooms g)"

definition classify :: "capability_grant \<Rightarrow> string \<Rightarrow> room_id \<Rightarrow> action_class" where
  "classify g tool room =
     (if \<not> permits_room g room \<or> \<not> permits_tool g tool then Forbidden else override_or_default g tool)"

subsection \<open>Event content\<close>

definition grant_to_content :: "capability_grant \<Rightarrow> content" where
  "grant_to_content g = bt_of_list
     [(''agent'', VStr (agent_as_str (grant_agent g))),
      (''rate_limit_per_min'', VU64 (ucast (rate_limit_per_min g))),
      (''daily_call_limit'', VU64 (ucast (daily_call_limit g))),
      (''daily_token_budget'', VU64 (daily_token_budget g)),
      (''default_class'', VStr (class_as_str (default_class g))),
      (''allowed_tools'', VList (map VStr (allowed_tools g))),
      (''accessible_rooms'', VList (map (\<lambda>r. VStr (room_as_str r)) (accessible_rooms g))),
      (''overrides'', VList (map (\<lambda>(t, c). VList [VStr t, VStr (class_as_str c)]) (overrides g)))]"

definition grant_to_event :: "capability_grant \<Rightarrow> reflected_event" where
  "grant_to_event g = \<lparr>event_type = TYPE_CAPABILITY, event_content = grant_to_content g\<rparr>"

definition cap_field :: "content \<Rightarrow> string \<Rightarrow> capability_error + agent_value" where
  "cap_field content key = ok_or (MissingField key) (map_of content key)"

definition list_field :: "content \<Rightarrow> string \<Rightarrow> capability_error + agent_value list" where
  "list_field content key = and_then (cap_field content key) (\<lambda>v. ok_or (InvalidField key) (value_list v))"

text \<open>A loop that stops at the first element it cannot read.\<close>

fun collect_values :: "'e \<Rightarrow> ('v \<Rightarrow> 'a option) \<Rightarrow> 'v list \<Rightarrow> 'e + 'a list" where
  "collect_values e f [] = Inr []"
| "collect_values e f (v # vs) =
     and_then (ok_or e (f v)) (\<lambda>x. and_then (collect_values e f vs) (\<lambda>xs. Inr (x # xs)))"

definition string_list :: "content \<Rightarrow> string \<Rightarrow> capability_error + string list" where
  "string_list content key =
     and_then (list_field content key) (collect_values (InvalidField key) value_str)"

definition u32_of :: "u64 \<Rightarrow> u32 option" where
  "u32_of n = (if unat n < 2 ^ 32 then Some (word_of_nat (unat n)) else None)"

definition room_of_value :: "agent_value \<Rightarrow> room_id option" where
  "room_of_value v = Option.bind (value_str v) (\<lambda>s. case room_id_parse s of Inl _ \<Rightarrow> None | Inr r \<Rightarrow> Some r)"

definition override_of_value :: "agent_value \<Rightarrow> (string \<times> action_class) option" where
  "override_of_value v =
     (case value_list v of
        Some [t, c] \<Rightarrow>
          Option.bind (value_str t) (\<lambda>tool. Option.bind (Option.bind (value_str c) class_parse) (\<lambda>cl. Some (tool, cl)))
      | _ \<Rightarrow> None)"

definition grant_from_content :: "content \<Rightarrow> capability_error + capability_grant" where
  "grant_from_content content =
     and_then (and_then (cap_field content ''agent'') (\<lambda>v. ok_or (InvalidField ''agent'') (value_str v))) (\<lambda>agent_str.
     and_then (map_err (\<lambda>_. InvalidField ''agent'') (agent_id_parse agent_str)) (\<lambda>agent.
     and_then (and_then (cap_field content ''rate_limit_per_min'')
        (\<lambda>v. ok_or (InvalidField ''rate_limit_per_min'') (value_u64 v))) (\<lambda>rate.
     and_then (ok_or (InvalidField ''rate_limit_per_min'') (u32_of rate)) (\<lambda>per_min.
     and_then (case map_of content ''daily_call_limit'' of
          Some v \<Rightarrow> ok_or (InvalidField ''daily_call_limit'') (Option.bind (value_u64 v) u32_of)
        | None \<Rightarrow> Inr 0) (\<lambda>calls.
     and_then (case map_of content ''daily_token_budget'' of
          Some v \<Rightarrow> ok_or (InvalidField ''daily_token_budget'') (value_u64 v)
        | None \<Rightarrow> Inr 0) (\<lambda>tokens.
     and_then (and_then (cap_field content ''default_class'')
        (\<lambda>v. ok_or (InvalidField ''default_class'') (Option.bind (value_str v) class_parse))) (\<lambda>dflt.
     and_then (string_list content ''allowed_tools'') (\<lambda>tools.
     and_then (and_then (list_field content ''accessible_rooms'')
        (collect_values (InvalidField ''accessible_rooms'') room_of_value)) (\<lambda>rooms.
     and_then (and_then (list_field content ''overrides'')
        (collect_values (InvalidField ''overrides'') override_of_value)) (\<lambda>ovr.
     Inr \<lparr>grant_agent = agent, allowed_tools = tools, accessible_rooms = rooms, rate_limit_per_min = per_min,
       daily_call_limit = calls, daily_token_budget = tokens, default_class = dflt, overrides = ovr\<rparr>))))))))))"

subsection \<open>What a grant permits\<close>

lemma class_parse_as_str [simp]: "class_parse (class_as_str c) = Some c"
  by (cases c) (simp_all add: class_parse_def)

lemma class_parse_Some: "class_parse s = Some c \<longleftrightarrow> s = class_as_str c"
  by (cases c) (auto simp: class_parse_def)

lemma classify_not_Forbidden:
  "classify g tool room \<noteq> Forbidden \<Longrightarrow>
     permits_room g room \<and> permits_tool g tool \<and> tool_class g tool = Some (classify g tool room)"
  by (auto simp: classify_def tool_class_def split: if_splits)

lemma classify_deny_all [simp]: "classify (deny_all a) tool room = Forbidden"
  by (simp add: classify_def permits_room_def deny_all_def)

text \<open>Granting a tool or a room changes the class of no other tool and of no other room.\<close>

lemma classify_allow_room:
  "classify (allow_room r g) tool room =
     (if room = r \<and> permits_tool g tool then override_or_default g tool else classify g tool room)"
  by (auto simp: classify_def allow_room_def permits_room_def permits_tool_def override_or_default_def
      split: option.splits)

lemma classify_allow_tool:
  "classify (allow_tool t c g) tool room =
     (if tool \<noteq> t then classify g tool room
      else if \<not> permits_room g room then Forbidden
      else case map_of (overrides g) t of Some d \<Rightarrow> d | None \<Rightarrow> if c = Forbidden then default_class g else c)"
  by (cases "map_of (overrides g) t")
    (simp_all add: classify_def allow_tool_def permits_room_def permits_tool_def override_or_default_def
      Let_def map_add_def split: option.split)

subsection \<open>The content round trip\<close>

definition grant_ok :: "capability_grant \<Rightarrow> bool" where
  "grant_ok g \<longleftrightarrow> user_ok (agent_as_user_id (grant_agent g)) \<and> (\<forall>r\<in>set (accessible_rooms g). room_ok r)"

lemma agent_parse_as_str: "user_ok (agent_as_user_id a) \<Longrightarrow> agent_id_parse (agent_as_str a) = Inr a"
  by (cases a) (simp add: agent_id_parse_def agent_as_str_def user_ok_def)

lemma agent_id_parse_Inr: "agent_id_parse s = Inr a \<longleftrightarrow> user_id_parse s = Inr (agent_as_user_id a)"
  by (cases a) (auto simp: agent_id_parse_def split: sum.splits)

lemma collect_map_Inr: "(\<And>x. x \<in> set xs \<Longrightarrow> f (g x) = Some x) \<Longrightarrow> collect_values e f (map g xs) = Inr xs"
  by (induction xs) auto

lemma collect_Inr: "collect_values e f vs = Inr xs \<longleftrightarrow> map f vs = map Some xs"
  by (induction vs arbitrary: xs) (auto simp: and_then_Inr ok_or_Inr)

lemma u32_of_ucast [simp]: "u32_of (ucast (n :: u32)) = Some n"
proof -
  have "unat n < 2 ^ 32" using unsigned_less [of n, where ?'a = nat] by simp
  moreover have "unat (ucast n :: u64) = unat n"
    using calculation by (simp add: unsigned_ucast_eq take_bit_nat_eq_self)
  ultimately show ?thesis
    by (simp add: u32_of_def)
qed

lemma grant_content_lookup:
  "map_of (grant_to_content g) ''agent'' = Some (VStr (agent_as_str (grant_agent g)))"
  "map_of (grant_to_content g) ''rate_limit_per_min'' = Some (VU64 (ucast (rate_limit_per_min g)))"
  "map_of (grant_to_content g) ''daily_call_limit'' = Some (VU64 (ucast (daily_call_limit g)))"
  "map_of (grant_to_content g) ''daily_token_budget'' = Some (VU64 (daily_token_budget g))"
  "map_of (grant_to_content g) ''default_class'' = Some (VStr (class_as_str (default_class g)))"
  "map_of (grant_to_content g) ''allowed_tools'' = Some (VList (map VStr (allowed_tools g)))"
  "map_of (grant_to_content g) ''accessible_rooms'' = Some (VList (map (\<lambda>r. VStr (room_as_str r)) (accessible_rooms g)))"
  "map_of (grant_to_content g) ''overrides'' = Some (VList (map (\<lambda>(t, c). VList [VStr t, VStr (class_as_str c)]) (overrides g)))"
  by (simp_all add: grant_to_content_def map_of_bt_of_list)

lemma room_of_value_as_str: "room_ok r \<Longrightarrow> room_of_value (VStr (room_as_str r)) = Some r"
  by (simp add: room_of_value_def room_ok_def)

lemma override_of_value_pair: "override_of_value (case p of (t, c) \<Rightarrow> VList [VStr t, VStr (class_as_str c)]) = Some p"
  by (simp add: override_of_value_def split: prod.splits)

lemma grant_content_roundtrip: "grant_ok g \<Longrightarrow> grant_from_content (grant_to_content g) = Inr g"
  by (simp add: grant_from_content_def cap_field_def list_field_def string_list_def grant_content_lookup
      grant_ok_def agent_parse_as_str collect_map_Inr room_of_value_as_str override_of_value_pair)

lemma room_of_value_ok: "room_of_value v = Some r \<Longrightarrow> room_ok r"
  by (cases v; cases "room_id_parse (the (value_str v))") (auto simp: room_of_value_def parse_ok_ids)

lemma grant_from_content_ok:
  assumes "grant_from_content c = Inr g"
  shows "grant_ok g"
proof -
  from assms obtain s vs where "agent_id_parse s = Inr (grant_agent g)"
      and r: "collect_values (InvalidField ''accessible_rooms'') room_of_value vs = Inr (accessible_rooms g)"
    by (auto simp: grant_from_content_def result_Inr)
  then have "user_ok (agent_as_user_id (grant_agent g))"
    by (simp add: agent_id_parse_Inr parse_ok_ids)
  moreover have "room_ok x" if "x \<in> set (accessible_rooms g)" for x
  proof -
    from r have "map room_of_value vs = map Some (accessible_rooms g)" by (simp add: collect_Inr)
    then have "Some x \<in> set (map room_of_value vs)" using that by simp
    then show ?thesis using room_of_value_ok by auto
  qed
  ultimately show ?thesis by (simp add: grant_ok_def)
qed

subsection \<open>Properties\<close>

text \<open>A grant survives its state event, and whatever content another server sends, a grant that is
  accepted has a valid agent and valid rooms and is read back from its own content as itself.\<close>

theorem grant_content_authentic:
  "(grant_ok g \<longrightarrow> grant_from_content (grant_to_content g) = Inr g) \<and>
   (grant_from_content c = Inr h \<longrightarrow> grant_ok h \<and> grant_from_content (grant_to_content h) = Inr h)"
  using grant_content_roundtrip grant_from_content_ok by blast

theorem grant_content_authentic_witness:
  "grant_from_content (grant_to_content (with_rate_limit 3 (allow_room (RoomId ''!r:x'')
     (allow_tool ''search'' Review (deny_all (AgentId (UserId ''@a:x''))))))) =
   Inr (with_rate_limit 3 (allow_room (RoomId ''!r:x'') (allow_tool ''search'' Review (deny_all (AgentId (UserId ''@a:x''))))))"
  by (rule grant_content_authentic [THEN conjunct1, rule_format])
    (simp add: grant_ok_def user_ok_def room_ok_def user_id_parse_def room_id_parse_def split_sigil_def
      with_rate_limit_def allow_room_def allow_tool_def deny_all_def)

text \<open>Allowing a tool with class \<open>Forbidden\<close> records no override: the tool is permitted and gets the
  grant's default class, so under a default of \<open>Auto\<close> it runs unreviewed.\<close>

theorem allow_tool_forbidden:
  assumes "permits_room g room" "map_of (overrides g) tool = None" "default_class g = Auto"
  shows "classify (allow_tool tool Forbidden g) tool room = Auto"
  using assms by (simp add: classify_allow_tool)

theorem allow_tool_forbidden_witness:
  "classify (allow_tool ''rm'' Forbidden ((allow_room (RoomId ''!r:x'') (deny_all (AgentId (UserId ''@a:x''))))\<lparr>default_class := Auto\<rparr>))
     ''rm'' (RoomId ''!r:x'') = Auto"
  by (rule allow_tool_forbidden) (simp_all add: permits_room_def allow_room_def deny_all_def)

end
