(* ===== verification/Policy.thy ===== *)
theory Policy
  imports Capability
begin

section \<open>The declarative policy engine (gm-agent, policy.rs)\<close>

text \<open>
  An ordered rule list on top of a grant: the first matching rule decides.  \<open>refine\<close> combines its
  effect with the class of the grant; the lemmas show that it only tightens and that a policy
  survives its state event, except for matchers that are the empty string.
\<close>

datatype effect = Allow | RequireReview | Deny

fun effect_as_str :: "effect \<Rightarrow> string" where
  "effect_as_str Allow = ''allow''"
| "effect_as_str RequireReview = ''review''"
| "effect_as_str Deny = ''deny''"

definition effect_parse :: "string \<Rightarrow> effect option" where
  "effect_parse s =
     (if s = ''allow'' then Some Allow else if s = ''review'' then Some RequireReview
      else if s = ''deny'' then Some Deny else None)"

fun refine :: "action_class \<Rightarrow> effect \<Rightarrow> action_class" where
  "refine Forbidden e = Forbidden"
| "refine c Deny = Forbidden"
| "refine c RequireReview = Review"
| "refine c Allow = c"

record policy_rule =
  rule_effect :: effect
  rule_tool :: "string option"
  rule_room :: "string option"
  args_contains :: "string option"

definition rule_new :: "effect \<Rightarrow> policy_rule" where
  "rule_new e = \<lparr>rule_effect = e, rule_tool = None, rule_room = None, args_contains = None\<rparr>"

definition for_tool :: "string \<Rightarrow> policy_rule \<Rightarrow> policy_rule" where
  "for_tool t r = r\<lparr>rule_tool := Some t\<rparr>"

definition in_room :: "string \<Rightarrow> policy_rule \<Rightarrow> policy_rule" where
  "in_room room r = r\<lparr>rule_room := Some room\<rparr>"

definition when_args_contain :: "string \<Rightarrow> policy_rule \<Rightarrow> policy_rule" where
  "when_args_contain n r = r\<lparr>args_contains := Some n\<rparr>"

definition rule_matches :: "policy_rule \<Rightarrow> string \<Rightarrow> string \<Rightarrow> string \<Rightarrow> bool" where
  "rule_matches r tool room args_summary \<longleftrightarrow>
     (case rule_tool r of Some t \<Rightarrow> t = tool | None \<Rightarrow> True) \<and>
     (case rule_room r of Some x \<Rightarrow> x = room | None \<Rightarrow> True) \<and>
     (case args_contains r of Some n \<Rightarrow> str_contains args_summary n | None \<Rightarrow> True)"

record policy_set =
  rules :: "policy_rule list"
  default_effect :: effect

definition allow_by_default :: policy_set where
  "allow_by_default = \<lparr>rules = [], default_effect = Allow\<rparr>"

definition policy_new :: "effect \<Rightarrow> policy_rule list \<Rightarrow> policy_set" where
  "policy_new e rs = \<lparr>rules = rs, default_effect = e\<rparr>"

definition with_rule :: "policy_rule \<Rightarrow> policy_set \<Rightarrow> policy_set" where
  "with_rule r p = p\<lparr>rules := rules p @ [r]\<rparr>"

definition evaluate :: "policy_set \<Rightarrow> string \<Rightarrow> string \<Rightarrow> string \<Rightarrow> effect" where
  "evaluate p tool room args_summary =
     (case find (\<lambda>r. rule_matches r tool room args_summary) (rules p) of
        Some r \<Rightarrow> rule_effect r
      | None \<Rightarrow> default_effect p)"

subsection \<open>Event content\<close>

definition or_empty :: "string option \<Rightarrow> string" where
  "or_empty s = (case s of Some x \<Rightarrow> x | None \<Rightarrow> [])"

definition rule_to_value :: "policy_rule \<Rightarrow> agent_value" where
  "rule_to_value r = VList [VStr (effect_as_str (rule_effect r)), VStr (or_empty (rule_tool r)),
     VStr (or_empty (rule_room r)), VStr (or_empty (args_contains r))]"

definition policy_to_content :: "policy_set \<Rightarrow> content" where
  "policy_to_content p = bt_of_list
     [(''default_effect'', VStr (effect_as_str (default_effect p))),
      (''rules'', VList (map rule_to_value (rules p)))]"

definition policy_to_event :: "policy_set \<Rightarrow> reflected_event" where
  "policy_to_event p = \<lparr>event_type = TYPE_POLICY, event_content = policy_to_content p\<rparr>"

datatype policy_error = PolicyMissingField string | PolicyInvalidField string

fun policy_error_display :: "policy_error \<Rightarrow> string" where
  "policy_error_display (PolicyMissingField k) = ''missing policy field: '' @ k"
| "policy_error_display (PolicyInvalidField k) = ''invalid policy field: '' @ k"

definition non_empty :: "string \<Rightarrow> string option" where
  "non_empty s = (if s = [] then None else Some s)"

definition rule_of_value :: "agent_value \<Rightarrow> policy_rule option" where
  "rule_of_value v =
     (case value_list v of
        Some [e, t, r, a] \<Rightarrow>
          Option.bind (Option.bind (value_str e) effect_parse) (\<lambda>eff.
          Option.bind (value_str t) (\<lambda>tool.
          Option.bind (value_str r) (\<lambda>room.
          Option.bind (value_str a) (\<lambda>args.
          Some \<lparr>rule_effect = eff, rule_tool = non_empty tool, rule_room = non_empty room,
            args_contains = non_empty args\<rparr>))))
      | _ \<Rightarrow> None)"

definition policy_from_content :: "content \<Rightarrow> policy_error + policy_set" where
  "policy_from_content content =
     and_then (ok_or (PolicyMissingField ''default_effect'') (map_of content ''default_effect'')) (\<lambda>d.
     and_then (ok_or (PolicyInvalidField ''default_effect'') (Option.bind (value_str d) effect_parse)) (\<lambda>dflt.
     and_then (ok_or (PolicyMissingField ''rules'') (map_of content ''rules'')) (\<lambda>v.
     and_then (ok_or (PolicyInvalidField ''rules'') (value_list v)) (\<lambda>vs.
     and_then (collect_values (PolicyInvalidField ''rules'') rule_of_value vs) (\<lambda>rs.
     Inr \<lparr>rules = rs, default_effect = dflt\<rparr>)))))"

subsection \<open>Tightening\<close>

text \<open>The order of restrictiveness.\<close>

fun severity :: "action_class \<Rightarrow> nat" where
  "severity Auto = 0"
| "severity Review = 1"
| "severity Forbidden = 2"

lemma refine_tightens: "severity c \<le> severity (refine c e)"
  by (cases c; cases e) simp_all

lemma refine_Auto: "refine c e = Auto \<longleftrightarrow> c = Auto \<and> e = Allow"
  by (cases c; cases e) simp_all

lemma refine_Review: "refine c e = Review \<Longrightarrow> c \<noteq> Forbidden \<and> e \<noteq> Deny"
  by (cases c; cases e) simp_all

subsection \<open>The content round trip\<close>

text \<open>What a state event makes of a rule: an empty matcher becomes no matcher.\<close>

definition widened :: "policy_rule \<Rightarrow> policy_rule" where
  "widened r = \<lparr>rule_effect = rule_effect r, rule_tool = non_empty (or_empty (rule_tool r)),
     rule_room = non_empty (or_empty (rule_room r)), args_contains = non_empty (or_empty (args_contains r))\<rparr>"

lemma effect_parse_as_str [simp]: "effect_parse (effect_as_str e) = Some e"
  by (cases e) (simp_all add: effect_parse_def)

lemma rule_of_value_to_value [simp]: "rule_of_value (rule_to_value r) = Some (widened r)"
  by (simp add: rule_of_value_def rule_to_value_def widened_def)

lemma collect_rules: "collect_values e rule_of_value (map rule_to_value rs) = Inr (map widened rs)"
  by (simp add: collect_Inr)

lemma policy_content_widened:
  "policy_from_content (policy_to_content p) = Inr (p\<lparr>rules := map widened (rules p)\<rparr>)"
  by (simp add: policy_from_content_def policy_to_content_def map_of_bt_of_list collect_rules)

lemma widened_id:
  "rule_tool r \<noteq> Some [] \<Longrightarrow> rule_room r \<noteq> Some [] \<Longrightarrow> args_contains r \<noteq> Some [] \<Longrightarrow> widened r = r"
  by (cases r) (auto simp: widened_def non_empty_def or_empty_def split: option.splits)

lemma widened_matches: "rule_matches r tool room args \<Longrightarrow> rule_matches (widened r) tool room args"
  by (auto simp: rule_matches_def widened_def non_empty_def or_empty_def split: option.splits)

definition no_empty_matcher :: "policy_set \<Rightarrow> bool" where
  "no_empty_matcher p \<longleftrightarrow>
     (\<forall>r\<in>set (rules p). rule_tool r \<noteq> Some [] \<and> rule_room r \<noteq> Some [] \<and> args_contains r \<noteq> Some [])"

lemma non_empty_not_Nil [simp]: "non_empty s \<noteq> Some []"
  by (simp add: non_empty_def)

lemma rule_of_value_no_empty:
  "rule_of_value v = Some r \<Longrightarrow> rule_tool r \<noteq> Some [] \<and> rule_room r \<noteq> Some [] \<and> args_contains r \<noteq> Some []"
  by (auto simp: rule_of_value_def bind_eq_Some_conv split: option.splits list.splits)

lemma policy_from_content_no_empty:
  assumes "policy_from_content c = Inr p"
  shows "no_empty_matcher p"
proof -
  from assms obtain vs where vs: "map rule_of_value vs = map Some (rules p)"
    by (auto simp: policy_from_content_def result_Inr collect_Inr)
  have "\<exists>v. rule_of_value v = Some r" if "r \<in> set (rules p)" for r
  proof -
    have "Some r \<in> set (map rule_of_value vs)" using that by (simp add: vs)
    then show ?thesis by auto
  qed
  then show ?thesis
    unfolding no_empty_matcher_def using rule_of_value_no_empty by blast
qed

subsection \<open>Properties\<close>

text \<open>A policy read back from its own state event is the same policy whenever it has no empty matcher,
  and every policy accepted from content has none, so after one exchange the policy is stable.\<close>

theorem policy_content_stable:
  "(no_empty_matcher p \<longrightarrow> policy_from_content (policy_to_content p) = Inr p) \<and>
   (policy_from_content c = Inr q \<longrightarrow> policy_from_content (policy_to_content q) = Inr q)"
proof -
  have stable: "policy_from_content (policy_to_content q) = Inr q" if "no_empty_matcher q" for q
    using that by (simp add: policy_content_widened no_empty_matcher_def widened_id map_idI)
  then show ?thesis using policy_from_content_no_empty by blast
qed

theorem policy_content_stable_witness:
  "policy_from_content (policy_to_content (with_rule (for_tool ''rm'' (rule_new Deny)) allow_by_default)) =
     Inr (with_rule (for_tool ''rm'' (rule_new Deny)) allow_by_default)"
  by (rule policy_content_stable [THEN conjunct1, rule_format])
    (simp add: no_empty_matcher_def with_rule_def for_tool_def rule_new_def allow_by_default_def)

text \<open>An empty matcher is not preserved: a rule that allows only the tool with the empty name comes back
  as a rule that allows every tool, and shadows the denials after it.\<close>

theorem policy_empty_matcher_widens:
  "evaluate (policy_new Deny [for_tool [] (rule_new Allow)]) ''rm'' room args = Deny \<and>
   (\<exists>q. policy_from_content (policy_to_content (policy_new Deny [for_tool [] (rule_new Allow)])) = Inr q \<and>
     evaluate q ''rm'' room args = Allow)"
  by (simp add: policy_content_widened policy_new_def for_tool_def rule_new_def evaluate_def rule_matches_def
      widened_def or_empty_def non_empty_def)

end
