(* ===== verification/Mcp.thy ===== *)
theory Mcp
  imports AgentEvents Ids
begin

section \<open>Tool calls and room resources (gm-agent, mcp.rs and resources.rs)\<close>

text \<open>
  A call carries identifiers that were validated when it was parsed.  An executor is a
  state-passing function from calls to outcomes; the echo executor of the source is one.  A room
  context is a function from rooms to messages.
\<close>

record tool_call =
  call_agent :: agent_id
  call_room :: room_id
  call_tool :: string
  args_summary :: string

definition tool_call_new :: "agent_id \<Rightarrow> room_id \<Rightarrow> string \<Rightarrow> string \<Rightarrow> tool_call" where
  "tool_call_new agent room tool args =
     \<lparr>call_agent = agent, call_room = room, call_tool = tool, args_summary = args\<rparr>"

definition tool_call_parse :: "string \<Rightarrow> string \<Rightarrow> string \<Rightarrow> string \<Rightarrow> gm_error + tool_call" where
  "tool_call_parse agent room tool args =
     and_then (agent_id_parse agent) (\<lambda>a.
     and_then (room_id_parse room) (\<lambda>r.
     Inr (tool_call_new a r tool args)))"

record tool_outcome =
  outcome_ok :: bool
  outcome_summary :: string
  outcome_tokens :: u64

definition echo_execute :: "unit \<Rightarrow> tool_call \<Rightarrow> tool_outcome \<times> unit" where
  "echo_execute e call =
     (\<lparr>outcome_ok = True,
       outcome_summary = ''executed '' @ call_tool call @ '' ('' @ args_summary call @ '')'',
       outcome_tokens = word_of_nat (length (call_tool call) + length (args_summary call))\<rparr>, e)"

subsection \<open>Resources\<close>

definition ROOM_URI_PREFIX :: string where
  "ROOM_URI_PREFIX = ''gauss://room/''"

record room_message =
  msg_sender :: string
  msg_body :: string

definition message_new :: "string \<Rightarrow> string \<Rightarrow> room_message" where
  "message_new s b = \<lparr>msg_sender = s, msg_body = b\<rparr>"

record mcp_resource =
  res_uri :: string
  res_name :: string
  res_mime_type :: string

record resource_contents =
  contents_uri :: string
  contents_mime_type :: string
  contents_text :: string

definition room_resource_uri :: "room_id \<Rightarrow> string" where
  "room_resource_uri room = ROOM_URI_PREFIX @ room_as_str room"

definition room_from_uri :: "string \<Rightarrow> room_id option" where
  "room_from_uri uri =
     (case strip_prefix ROOM_URI_PREFIX uri of
        None \<Rightarrow> None
      | Some rest \<Rightarrow> (case room_id_parse rest of Inl _ \<Rightarrow> None | Inr r \<Rightarrow> Some r))"

definition render_timeline :: "room_message list \<Rightarrow> string" where
  "render_timeline ms = str_join [CHR 0x0A] (map (\<lambda>m. msg_sender m @ '': '' @ msg_body m) ms)"

record map_room_context =
  context_rooms :: "(string, room_message list) btree"

definition with_messages :: "room_id \<Rightarrow> room_message list \<Rightarrow> map_room_context \<Rightarrow> map_room_context" where
  "with_messages room ms c = c\<lparr>context_rooms := bt_insert (room_as_str room) ms (context_rooms c)\<rparr>"

definition map_context_messages :: "map_room_context \<Rightarrow> room_id \<Rightarrow> room_message list" where
  "map_context_messages c room = (case map_of (context_rooms c) (room_as_str room) of Some ms \<Rightarrow> ms | None \<Rightarrow> [])"

subsection \<open>Lemmas\<close>

lemma room_from_uri_Some: "room_from_uri uri = Some r \<longleftrightarrow> uri = room_resource_uri r \<and> room_ok r"
proof
  assume "room_from_uri uri = Some r"
  then obtain rest where "uri = ROOM_URI_PREFIX @ rest" "room_id_parse rest = Inr r"
    by (auto simp: room_from_uri_def strip_prefix_Some split: option.splits sum.splits)
  then show "uri = room_resource_uri r \<and> room_ok r"
    by (simp add: room_resource_uri_def parse_as_str parse_ok_ids)
next
  assume "uri = room_resource_uri r \<and> room_ok r"
  then show "room_from_uri uri = Some r"
    by (simp add: room_from_uri_def room_resource_uri_def room_ok_def)
qed

lemma tool_call_parse_ok:
  "tool_call_parse a r t args = Inr call \<Longrightarrow>
     user_ok (agent_as_user_id (call_agent call)) \<and> room_ok (call_room call) \<and>
     agent_as_str (call_agent call) = a \<and> room_as_str (call_room call) = r"
  by (auto simp: tool_call_parse_def tool_call_new_def and_then_Inr agent_id_parse_def agent_as_str_def
      parse_ok_ids parse_as_str split: sum.splits)

lemma map_context_with_messages:
  "map_context_messages (with_messages room ms c) r = (if r = room then ms else map_context_messages c r)"
  by (simp add: map_context_messages_def with_messages_def)

end
