(* ===== verification/Roster.thy ===== *)
theory Roster
  imports Capability
begin

section \<open>Catalog, roster and application service (gm-agent)\<close>

text \<open>
  The tool catalog filtered by a grant (catalog.rs), the agents of a room with their grants
  (roster.rs), and the namespace of managed agent identities (appservice.rs).
\<close>

subsection \<open>The tool catalog\<close>

record tool_spec =
  spec_name :: string
  spec_description :: string
  advised_class :: action_class

definition tool_spec_new :: "string \<Rightarrow> string \<Rightarrow> action_class \<Rightarrow> tool_spec" where
  "tool_spec_new n d c = \<lparr>spec_name = n, spec_description = d, advised_class = c\<rparr>"

record discoverable_tool =
  disc_name :: string
  disc_description :: string
  disc_class :: action_class

type_synonym tool_catalog = "(string, tool_spec) btree"

definition with_tool :: "tool_spec \<Rightarrow> tool_catalog \<Rightarrow> tool_catalog" where
  "with_tool spec c = bt_insert (spec_name spec) spec c"

definition catalog_get :: "tool_catalog \<Rightarrow> string \<Rightarrow> tool_spec option" where
  "catalog_get c n = map_of c n"

definition catalog_all :: "tool_catalog \<Rightarrow> tool_spec list" where
  "catalog_all c = map snd c"

definition list_for :: "tool_catalog \<Rightarrow> capability_grant \<Rightarrow> discoverable_tool list" where
  "list_for c g = List.map_filter
     (\<lambda>(_, spec). map_option (\<lambda>cl. \<lparr>disc_name = spec_name spec, disc_description = spec_description spec, disc_class = cl\<rparr>)
        (tool_class g (spec_name spec))) c"

text \<open>A catalog built by \<open>with_tool\<close> keys every tool by its name.\<close>

definition catalog_ok :: "tool_catalog \<Rightarrow> bool" where
  "catalog_ok c \<longleftrightarrow> bt_ok c \<and> (\<forall>(n, spec)\<in>set c. spec_name spec = n)"

lemma catalog_ok_Nil [simp]: "catalog_ok []"
  by (simp add: catalog_ok_def)

lemma catalog_ok_with_tool [simp]: "catalog_ok c \<Longrightarrow> catalog_ok (with_tool spec c)"
  by (auto simp: catalog_ok_def with_tool_def dest!: set_bt_insert)

lemma list_for_iff:
  assumes "catalog_ok c"
  shows "d \<in> set (list_for c g) \<longleftrightarrow>
    (\<exists>spec. catalog_get c (disc_name d) = Some spec \<and> disc_description d = spec_description spec \<and>
       tool_class g (disc_name d) = Some (disc_class d))"
proof -
  have "distinct (map fst c)" using assms by (simp add: catalog_ok_def bt_ok_distinct)
  then have get: "catalog_get c n = Some spec \<longleftrightarrow> (n, spec) \<in> set c" for n spec
    by (simp add: catalog_get_def)
  have "(n, spec) \<in> set c \<Longrightarrow> spec_name spec = n" for n spec
    using assms by (auto simp: catalog_ok_def)
  then show ?thesis
    unfolding get list_for_def
    by (cases d) (fastforce simp: List.map_filter_def image_iff)
qed

subsection \<open>The roster\<close>

type_synonym agent_roster = "(string, capability_grant) btree"

definition roster_insert :: "capability_grant \<Rightarrow> agent_roster \<Rightarrow> agent_roster" where
  "roster_insert g r = bt_insert (agent_as_str (grant_agent g)) g r"

definition roster_admit :: "capability_grant \<Rightarrow> agent_roster \<Rightarrow> agent_roster" where
  "roster_admit g r = bt_insert (agent_as_str (grant_agent g)) g r"

definition roster_remove :: "agent_id \<Rightarrow> agent_roster \<Rightarrow> agent_roster \<times> capability_grant option" where
  "roster_remove a r = (bt_remove (agent_as_str a) r, map_of r (agent_as_str a))"

definition grant_for :: "agent_roster \<Rightarrow> agent_id \<Rightarrow> capability_grant option" where
  "grant_for r a = map_of r (agent_as_str a)"

definition roster_contains :: "agent_roster \<Rightarrow> agent_id \<Rightarrow> bool" where
  "roster_contains r a \<longleftrightarrow> agent_as_str a \<in> fst ` set r"

definition roster_agents :: "agent_roster \<Rightarrow> string list" where
  "roster_agents r = map fst r"

definition roster_len :: "agent_roster \<Rightarrow> nat" where
  "roster_len r = length r"

definition discoverable_tools :: "agent_roster \<Rightarrow> tool_catalog \<Rightarrow> (string, discoverable_tool list) btree" where
  "discoverable_tools r c = map (\<lambda>(a, g). (a, list_for c g)) r"

text \<open>A roster built by its operations never disagrees with a grant about whose it is.\<close>

definition roster_ok :: "agent_roster \<Rightarrow> bool" where
  "roster_ok r \<longleftrightarrow> bt_ok r \<and> (\<forall>(a, g)\<in>set r. agent_as_str (grant_agent g) = a)"

lemma roster_ok_ops [simp]:
  "roster_ok []" "roster_ok r \<Longrightarrow> roster_ok (roster_admit g r)" "roster_ok r \<Longrightarrow> roster_ok (roster_insert g r)"
  "roster_ok r \<Longrightarrow> roster_ok (fst (roster_remove a r))"
  by (auto simp: roster_ok_def roster_admit_def roster_insert_def roster_remove_def bt_remove_def bt_ok_remove [unfolded bt_remove_def]
      dest!: set_bt_insert)

lemma grant_for_agent: "roster_ok r \<Longrightarrow> grant_for r a = Some g \<Longrightarrow> grant_agent g = a"
  by (auto simp: roster_ok_def grant_for_def dest!: map_of_SomeD)

lemma roster_contains_iff: "roster_contains r a \<longleftrightarrow> grant_for r a \<noteq> None"
  by (simp add: roster_contains_def grant_for_def map_of_eq_None_iff)

lemma grant_for_admit: "grant_for (roster_admit g r) a = (if a = grant_agent g then Some g else grant_for r a)"
  by (simp add: grant_for_def roster_admit_def)

subsection \<open>The application service\<close>

record agent_namespace =
  ns_server_name :: string
  localpart_prefix :: string
  exclusive :: bool

definition namespace_new :: "string \<Rightarrow> string \<Rightarrow> agent_namespace" where
  "namespace_new s p = \<lparr>ns_server_name = s, localpart_prefix = p, exclusive = True\<rparr>"

definition namespace_contains :: "agent_namespace \<Rightarrow> user_id \<Rightarrow> bool" where
  "namespace_contains ns u \<longleftrightarrow>
     user_server_name u = ns_server_name ns \<and> starts_with (user_localpart u) (localpart_prefix ns)"

definition namespace_mint :: "agent_namespace \<Rightarrow> string \<Rightarrow> gm_error + agent_id" where
  "namespace_mint ns n =
     (if n = [] \<or> CHR '':'' \<in> set n \<or> CHR ''@'' \<in> set n then Inl (InvalidUserId n)
      else agent_id_parse (''@'' @ localpart_prefix ns @ n @ '':'' @ ns_server_name ns))"

record appservice_registration =
  as_id :: string
  sender_localpart :: string
  as_token :: string
  hs_token :: string
  as_url :: "string option"
  as_namespace :: agent_namespace

definition registration_new :: "string \<Rightarrow> string \<Rightarrow> agent_namespace \<Rightarrow> appservice_registration" where
  "registration_new i s ns = \<lparr>as_id = i, sender_localpart = s, as_token = [], hs_token = [], as_url = None, as_namespace = ns\<rparr>"

definition with_tokens :: "string \<Rightarrow> string \<Rightarrow> appservice_registration \<Rightarrow> appservice_registration" where
  "with_tokens a h r = r\<lparr>as_token := a, hs_token := h\<rparr>"

definition with_url :: "string \<Rightarrow> appservice_registration \<Rightarrow> appservice_registration" where
  "with_url u r = r\<lparr>as_url := Some u\<rparr>"

definition sender_user_id :: "appservice_registration \<Rightarrow> gm_error + agent_id" where
  "sender_user_id r = agent_id_parse (''@'' @ sender_localpart r @ '':'' @ ns_server_name (as_namespace r))"

definition as_manages :: "appservice_registration \<Rightarrow> user_id \<Rightarrow> bool" where
  "as_manages r u \<longleftrightarrow> namespace_contains (as_namespace r) u"

text \<open>A minted identity is managed, provided the prefix itself holds no colon.\<close>

lemma minted_is_managed:
  assumes "namespace_mint ns n = Inr a" "CHR '':'' \<notin> set (localpart_prefix ns)"
  shows "namespace_contains ns (agent_as_user_id a) \<and> user_ok (agent_as_user_id a) \<and>
    user_localpart (agent_as_user_id a) = localpart_prefix ns @ n"
proof -
  define s where "s = ''@'' @ localpart_prefix ns @ n @ '':'' @ ns_server_name ns"
  from assms(1) have n: "CHR '':'' \<notin> set n" and u: "user_id_parse s = Inr (agent_as_user_id a)"
    by (auto simp: namespace_mint_def agent_id_parse_Inr s_def split: if_splits)
  have str: "user_as_str (agent_as_user_id a) = s" using u by (rule parse_as_str)
  have "split_once (CHR '':'') s = Some (''@'' @ localpart_prefix ns @ n, ns_server_name ns)"
    using n assms(2) by (simp add: s_def split_once_Some)
  moreover have "split_once (CHR '':'') (localpart_prefix ns @ n @ '':'' @ ns_server_name ns) =
      Some (localpart_prefix ns @ n, ns_server_name ns)"
    using n assms(2) by (simp add: split_once_Some)
  ultimately have "user_server_name (agent_as_user_id a) = ns_server_name ns"
      "user_localpart (agent_as_user_id a) = localpart_prefix ns @ n"
    by (simp_all add: user_server_name_def user_localpart_def str s_def)
  then show ?thesis
    using u by (auto simp: namespace_contains_def starts_with_iff parse_ok_ids)
qed

end
