(* ===== verification/AgentMemory.thy ===== *)
theory AgentMemory
  imports AuditLog Ids
begin

section \<open>Scoped agent memory (gm-agent, memory.rs)\<close>

text \<open>
  Memory items live in one column family under \<open>agent SEP room SEP key\<close>.  Inside the contract of
  a store the reads are shown to return what the same agent last wrote for the same room,
  provided the identifiers hold no separator.
\<close>

datatype memory_error = RoomNotPermitted string | InvalidKey

fun memory_error_display :: "memory_error \<Rightarrow> string" where
  "memory_error_display (RoomNotPermitted room) = ''agent memory denied for room outside grant: '' @ room"
| "memory_error_display InvalidKey = ''memory key contains a reserved separator''"

record memory_item =
  item_name :: string
  item_value :: string

definition item_key :: "agent_id \<Rightarrow> room_id \<Rightarrow> string \<Rightarrow> string" where
  "item_key agent room key = agent_as_str agent @ [SEP] @ room_as_str room @ [SEP] @ key"

definition room_prefix :: "agent_id \<Rightarrow> room_id \<Rightarrow> string" where
  "room_prefix agent room = agent_as_str agent @ [SEP] @ room_as_str room @ [SEP]"

definition check_key :: "string \<Rightarrow> memory_error + unit" where
  "check_key key = (if SEP \<in> set key then Inl InvalidKey else Inr ())"

definition am_store ::
  "'s store_ops \<Rightarrow> agent_id \<Rightarrow> room_id \<Rightarrow> string \<Rightarrow> string \<Rightarrow> 's \<Rightarrow> 's \<times> (memory_error + unit)" where
  "am_store ops agent room key value s =
     (case check_key key of
        Inl e \<Rightarrow> (s, Inl e)
      | Inr _ \<Rightarrow> (fst (st_put ops cf_AGENT_MEMORY (item_key agent room key) (as_bytes value) s), Inr ()))"

definition am_recall :: "'s store_ops \<Rightarrow> agent_id \<Rightarrow> room_id \<Rightarrow> string \<Rightarrow> 's \<Rightarrow> string option" where
  "am_recall ops agent room key s =
     Option.bind (st_get ops s cf_AGENT_MEMORY (item_key agent room key)) from_utf8"

definition am_recall_all :: "'s store_ops \<Rightarrow> agent_id \<Rightarrow> room_id \<Rightarrow> 's \<Rightarrow> memory_item list" where
  "am_recall_all ops agent room s = List.map_filter
     (\<lambda>(k, v). Option.bind (strip_prefix (room_prefix agent room) k) (\<lambda>key.
        Option.bind (from_utf8 v) (\<lambda>value. Some \<lparr>item_name = key, item_value = value\<rparr>)))
     (st_scan ops s cf_AGENT_MEMORY)"

definition am_forget :: "'s store_ops \<Rightarrow> agent_id \<Rightarrow> room_id \<Rightarrow> string \<Rightarrow> 's \<Rightarrow> 's" where
  "am_forget ops agent room key s = fst (st_delete ops cf_AGENT_MEMORY (item_key agent room key) s)"

subsection \<open>Keys\<close>

text \<open>Identifiers that the key format can tell apart.\<close>

definition scope_ok :: "agent_id \<Rightarrow> room_id \<Rightarrow> bool" where
  "scope_ok agent room \<longleftrightarrow> SEP \<notin> set (agent_as_str agent) \<and> SEP \<notin> set (room_as_str room)"

lemma item_key_inj:
  "scope_ok a r \<Longrightarrow> scope_ok a' r' \<Longrightarrow> item_key a r k = item_key a' r' k' \<longleftrightarrow> a = a' \<and> r = r' \<and> k = k'"
  by (auto simp: item_key_def scope_ok_def append_eq_append_sep)

lemma room_prefix_item_key:
  "scope_ok a r \<Longrightarrow> scope_ok a' r' \<Longrightarrow> strip_prefix (room_prefix a' r') (item_key a r k) = (if a = a' \<and> r = r' then Some k else None)"
proof -
  assume s: "scope_ok a r" "scope_ok a' r'"
  have "strip_prefix (room_prefix a' r') (item_key a r k) = Some x \<longleftrightarrow> item_key a r k = item_key a' r' x" for x
    by (simp add: strip_prefix_Some room_prefix_def item_key_def)
  then show ?thesis
    using item_key_inj [OF s] by (cases "strip_prefix (room_prefix a' r') (item_key a r k)") auto
qed

subsection \<open>The memory of one agent in one room\<close>

context kv_store
begin

lemma am_inv: "inv s \<Longrightarrow> inv (fst (am_store ops a r k v s))" "inv s \<Longrightarrow> inv (am_forget ops a r k s)"
  by (auto simp: am_store_def am_forget_def put_inv delete_inv split: sum.splits)

lemma am_recall_store:
  "inv s \<Longrightarrow> scope_ok a r \<Longrightarrow> scope_ok a' r' \<Longrightarrow> SEP \<notin> set k \<Longrightarrow> utf8_valid v \<Longrightarrow>
   am_recall ops a' r' k' (fst (am_store ops a r k v s)) =
     (if a' = a \<and> r' = r \<and> k' = k then Some v else am_recall ops a' r' k' s)"
  by (auto simp: am_recall_def am_store_def check_key_def get_put item_key_inj)

lemma am_recall_forget:
  "inv s \<Longrightarrow> scope_ok a r \<Longrightarrow> scope_ok a' r' \<Longrightarrow>
   am_recall ops a' r' k' (am_forget ops a r k s) =
     (if a' = a \<and> r' = r \<and> k' = k then None else am_recall ops a' r' k' s)"
  by (auto simp: am_recall_def am_forget_def get_delete item_key_inj)

lemma am_recall_append: "inv s \<Longrightarrow> am_recall ops a r k (audit_append ops sip x ev s) = am_recall ops a r k s"
  by (simp add: am_recall_def get_scan audit_append_inv audit_append_other)

lemma am_audit_log:
  "inv s \<Longrightarrow> audit_log_is ops (fst (am_store ops a r k v s)) es = audit_log_is ops s es"
  "inv s \<Longrightarrow> audit_log_is ops (am_forget ops a r k s) es = audit_log_is ops s es"
  by (simp_all add: am_store_def am_forget_def audit_log_frame audit_log_frame_delete split: sum.splits)

lemma am_recall_all_iff:
  assumes "inv s"
  shows "\<lparr>item_name = k, item_value = v\<rparr> \<in> set (am_recall_all ops a r s) \<longleftrightarrow> am_recall ops a r k s = Some v"
proof -
  have "distinct (map fst (st_scan ops s cf_AGENT_MEMORY))"
    using scan_sorted [OF assms] by (rule bt_ok_distinct)
  then have "am_recall ops a r k s = Some v \<longleftrightarrow>
      (\<exists>b. (item_key a r k, b) \<in> set (st_scan ops s cf_AGENT_MEMORY) \<and> from_utf8 b = Some v)"
    by (auto simp: am_recall_def get_scan [OF assms] bind_eq_Some_conv)
  moreover have "item_key a r k = room_prefix a r @ k"
    by (simp add: item_key_def room_prefix_def)
  ultimately show ?thesis
    by (auto simp: am_recall_all_def set_map_filter bind_eq_Some_conv strip_prefix_Some
        intro!: bexI [of _ "(room_prefix a r @ k, _)"])
qed

end

end
