(* ===== verification/Gateway.thy ===== *)
theory Gateway
  imports Metrics Siem Policy Mcp Roster AgentMemory
begin

section \<open>The agent gateway (gm-agent, lib.rs and clock.rs)\<close>

text \<open>
  The gateway as a record of the source's fields, with one function per method that returns the
  new gateway.  The store is a record of operations over its state; a clock is a state-passing read
  of the time in seconds; an executor is a state-passing function from calls to outcomes.  The
  fixed surroundings, store operations, hasher and clock, are the record \<open>gateway_env\<close>.
\<close>

subsection \<open>Clocks\<close>

record manual_clock =
  secs :: u64

definition manual_clock_new :: "u64 \<Rightarrow> manual_clock" where
  "manual_clock_new s = \<lparr>secs = s\<rparr>"

definition manual_clock_advance :: "u64 \<Rightarrow> manual_clock \<Rightarrow> manual_clock" where
  "manual_clock_advance k c = c\<lparr>secs := secs c + k\<rparr>"

definition manual_now :: "manual_clock \<Rightarrow> u64 \<times> manual_clock" where
  "manual_now c = (secs c, c)"

text \<open>
  The system clock reads the operating system; its state is the sequence of the readings to come
  (None where the time lies before the epoch, which the source turns into 0).
\<close>

definition system_now :: "(nat \<Rightarrow> u64 option) \<Rightarrow> u64 \<times> (nat \<Rightarrow> u64 option)" where
  "system_now c = (case c 0 of Some t \<Rightarrow> t | None \<Rightarrow> 0, \<lambda>i. c (Suc i))"

subsection \<open>State\<close>

definition RATE_WINDOW_SECS :: u64 where
  "RATE_WINDOW_SECS = 60"

datatype gateway_error =
    UnknownRequest u64
  | ResourceAccessDenied string
  | UnknownResource string
  | UnknownAgent string

fun gateway_error_display :: "gateway_error \<Rightarrow> string" where
  "gateway_error_display (UnknownRequest i) = ''no pending approval with id '' @ dec (unat i)"
| "gateway_error_display (ResourceAccessDenied uri) = ''resource access denied: '' @ uri"
| "gateway_error_display (UnknownResource uri) = ''unknown resource: '' @ uri"
| "gateway_error_display (UnknownAgent agent) = ''agent not on the room roster: '' @ agent"

record pending_approval =
  request_id :: u64
  pending_call_id :: string
  pending_call :: tool_call

datatype outcome =
    Executed "reflected_event list"
  | AwaitingApproval u64 reflected_event
  | Denied string "reflected_event list"

record ('s, 'c) gateway_env =
  env_store :: "'s store_ops"
  env_hasher :: "bytes \<Rightarrow> u64"
  env_now :: "'c \<Rightarrow> u64 \<times> 'c"

type_synonym 'e executor = "'e \<Rightarrow> tool_call \<Rightarrow> tool_outcome \<times> 'e"

record ('s, 'c) gateway =
  next_request_id :: u64
  next_call_seq :: u64
  pending :: "pending_approval list"
  gw_store :: 's
  gw_clock :: 'c
  recent_calls :: "(string \<times> u64) list"
  daily_usage :: "string \<rightharpoonup> u64 \<times> u32 \<times> u64"
  gw_metrics :: metrics

definition with_store_and_clock :: "'s \<Rightarrow> 'c \<Rightarrow> ('s, 'c) gateway" where
  "with_store_and_clock s c = \<lparr>next_request_id = 0, next_call_seq = 0, pending = [], gw_store = s, gw_clock = c,
     recent_calls = [], daily_usage = Map.empty, gw_metrics = metrics_new\<rparr>"

definition gateway_new :: "(nat \<Rightarrow> u64 option) \<Rightarrow> (memory_store, nat \<Rightarrow> u64 option) gateway" where
  "gateway_new clock = with_store_and_clock memory_default clock"

subsection \<open>Bookkeeping\<close>

definition gw_audit ::
  "('s, 'c) gateway_env \<Rightarrow> agent_id \<Rightarrow> string \<Rightarrow> ('s, 'c) gateway \<Rightarrow> ('s, 'c) gateway" where
  "gw_audit env a ev g = g\<lparr>gw_store := audit_append (env_store env) (env_hasher env) (agent_as_str a) ev (gw_store g)\<rparr>"

definition gw_count ::
  "string \<Rightarrow> (string \<times> string) list \<Rightarrow> u64 \<Rightarrow> ('s, 'c) gateway \<Rightarrow> ('s, 'c) gateway" where
  "gw_count n ls k g = g\<lparr>gw_metrics := add_counter n ls k (gw_metrics g)\<rparr>"

definition record_outcome :: "string \<Rightarrow> ('s, 'c) gateway \<Rightarrow> ('s, 'c) gateway" where
  "record_outcome oc g = g\<lparr>gw_metrics :=
     set_gauge ''gm_agent_pending_approvals'' [] (int (length (pending g)))
       (inc_counter ''gm_agent_actions_total'' [(''outcome'', oc)] (gw_metrics g))\<rparr>"

definition gw_audit_entries :: "('s, 'c) gateway_env \<Rightarrow> ('s, 'c) gateway \<Rightarrow> audit_entry list" where
  "gw_audit_entries env g = audit_entries (env_store env) (gw_store g)"

definition verify_audit :: "('s, 'c) gateway_env \<Rightarrow> ('s, 'c) gateway \<Rightarrow> nat + unit" where
  "verify_audit env g = audit_verify (env_store env) (env_hasher env) (gw_store g)"

definition gw_stream_audit ::
  "('s, 'c) gateway_env \<Rightarrow> (audit_record \<Rightarrow> 'k \<Rightarrow> 'k) \<Rightarrow> ('s, 'c) gateway \<Rightarrow> 'k \<Rightarrow> 'k \<times> nat" where
  "gw_stream_audit env emit g sink = stream_audit (env_store env) emit (gw_store g) sink"

definition audit_records :: "('s, 'c) gateway_env \<Rightarrow> ('s, 'c) gateway \<Rightarrow> audit_record list" where
  "audit_records env g = fst (stream_audit (env_store env) vec_emit (gw_store g) [])"

definition next_call_id :: "('s, 'c) gateway \<Rightarrow> string \<times> ('s, 'c) gateway" where
  "next_call_id g = (''call-'' @ dec (unat (next_call_seq g)), g\<lparr>next_call_seq := next_call_seq g + 1\<rparr>)"

definition gw_now :: "('s, 'c) gateway_env \<Rightarrow> ('s, 'c) gateway \<Rightarrow> u64 \<times> ('s, 'c) gateway" where
  "gw_now env g = (let (t, c) = env_now env (gw_clock g) in (t, g\<lparr>gw_clock := c\<rparr>))"

subsection \<open>Budgets\<close>

definition sat_sub :: "u64 \<Rightarrow> u64 \<Rightarrow> u64" where
  "sat_sub a b = (if a < b then 0 else a - b)"

definition sat_add :: "u64 \<Rightarrow> u64 \<Rightarrow> u64" where
  "sat_add a b = (if unat a + unat b < 2 ^ 64 then a + b else - 1)"

definition is_rate_limited ::
  "('s, 'c) gateway_env \<Rightarrow> string \<Rightarrow> u32 \<Rightarrow> ('s, 'c) gateway \<Rightarrow> bool \<times> ('s, 'c) gateway" where
  "is_rate_limited env agent limit g =
     (if limit = 0 then (False, g)
      else let (now, g1) = gw_now env g;
               cutoff = sat_sub now RATE_WINDOW_SECS;
               recent = filter (\<lambda>(_, ts). cutoff < ts) (recent_calls g1)
           in (unat limit \<le> length (filter (\<lambda>(a, _). a = agent) recent), g1\<lparr>recent_calls := recent\<rparr>))"

definition note_call :: "('s, 'c) gateway_env \<Rightarrow> string \<Rightarrow> ('s, 'c) gateway \<Rightarrow> ('s, 'c) gateway" where
  "note_call env agent g =
     (let (now, g1) = gw_now env g in g1\<lparr>recent_calls := recent_calls g1 @ [(agent, now)]\<rparr>)"

text \<open>\<open>daily_entry\<close> returns the entry of today, which it has written to the table.\<close>

definition daily_entry ::
  "('s, 'c) gateway_env \<Rightarrow> string \<Rightarrow> ('s, 'c) gateway \<Rightarrow> (u64 \<times> u32 \<times> u64) \<times> ('s, 'c) gateway" where
  "daily_entry env agent g =
     (let (now, g1) = gw_now env g;
          day = now div 86400;
          old = (case daily_usage g1 agent of Some e \<Rightarrow> e | None \<Rightarrow> (day, 0, 0));
          entry = (if fst old \<noteq> day then (day, 0, 0) else old)
      in (entry, g1\<lparr>daily_usage := (daily_usage g1)(agent \<mapsto> entry)\<rparr>))"

definition is_over_daily_budget ::
  "('s, 'c) gateway_env \<Rightarrow> string \<Rightarrow> u32 \<Rightarrow> ('s, 'c) gateway \<Rightarrow> bool \<times> ('s, 'c) gateway" where
  "is_over_daily_budget env agent limit g =
     (if limit = 0 then (False, g)
      else let ((_, calls, _), g1) = daily_entry env agent g in (limit \<le> calls, g1))"

definition is_over_token_budget ::
  "('s, 'c) gateway_env \<Rightarrow> string \<Rightarrow> u64 \<Rightarrow> ('s, 'c) gateway \<Rightarrow> bool \<times> ('s, 'c) gateway" where
  "is_over_token_budget env agent budget g =
     (if budget = 0 then (False, g)
      else let ((_, _, tokens), g1) = daily_entry env agent g in (budget \<le> tokens, g1))"

definition note_daily_call :: "('s, 'c) gateway_env \<Rightarrow> string \<Rightarrow> ('s, 'c) gateway \<Rightarrow> ('s, 'c) gateway" where
  "note_daily_call env agent g =
     (let ((day, calls, tokens), g1) = daily_entry env agent g
      in g1\<lparr>daily_usage := (daily_usage g1)(agent \<mapsto> (day, calls + 1, tokens))\<rparr>)"

definition note_tokens :: "('s, 'c) gateway_env \<Rightarrow> string \<Rightarrow> u64 \<Rightarrow> ('s, 'c) gateway \<Rightarrow> ('s, 'c) gateway" where
  "note_tokens env agent n g =
     (let ((day, calls, tokens), g1) = daily_entry env agent g
      in g1\<lparr>daily_usage := (daily_usage g1)(agent \<mapsto> (day, calls, sat_add tokens n))\<rparr>)"

subsection \<open>Mediation\<close>

text \<open>A refusal: the audit entry, the counted outcome and the reason, with nothing for the room.\<close>

definition refuse ::
  "('s, 'c) gateway_env \<Rightarrow> agent_id \<Rightarrow> string \<Rightarrow> string \<Rightarrow> string \<Rightarrow> ('s, 'c) gateway \<Rightarrow> ('s, 'c) gateway \<times> outcome" where
  "refuse env a ev oc reason g = (record_outcome oc (gw_audit env a ev g), Denied reason [])"

text \<open>The execution of an admitted or approved call, from the executor to the counted outcome.\<close>

definition gw_execute ::
  "('s, 'c) gateway_env \<Rightarrow> 'e executor \<Rightarrow> tool_call \<Rightarrow> string \<Rightarrow> ('s, 'c) gateway \<Rightarrow> 'e
     \<Rightarrow> ('s, 'c) gateway \<times> 'e \<times> reflected_event" where
  "gw_execute env ex call call_id g e =
     (let (oc, e1) = ex e call;
          a = agent_as_str (call_agent call);
          g1 = note_tokens env a (outcome_tokens oc) g;
          g2 = gw_audit env (call_agent call)
            (''executed: '' @ call_tool call @ '' ok='' @ (if outcome_ok oc then ''true'' else ''false'') @
             '' tokens='' @ dec (unat (outcome_tokens oc))) g1;
          g3 = gw_count ''gm_agent_tokens_total'' [(''agent'', a)] (outcome_tokens oc) g2
      in (record_outcome ''executed'' g3, e1,
          reflected_tool_result call_id (call_tool call) (outcome_ok oc) (outcome_summary oc)))"

text \<open>The two branches of an admitted call.\<close>

definition mediate_auto ::
  "('s, 'c) gateway_env \<Rightarrow> 'e executor \<Rightarrow> tool_call \<Rightarrow> ('s, 'c) gateway \<Rightarrow> 'e \<Rightarrow> ('s, 'c) gateway \<times> 'e \<times> outcome" where
  "mediate_auto env ex call g e =
     (let (call_id, g1) = next_call_id g;
          g2 = gw_audit env (call_agent call) (''auto_allowed: '' @ call_tool call) g1;
          (g3, e1, result_event) = gw_execute env ex call call_id g2 e
      in (g3, e1, Executed [reflected_tool_call call_id (call_tool call) (args_summary call), result_event]))"

definition mediate_review ::
  "('s, 'c) gateway_env \<Rightarrow> tool_call \<Rightarrow> ('s, 'c) gateway \<Rightarrow> ('s, 'c) gateway \<times> outcome" where
  "mediate_review env call g =
     (let (call_id, g1) = next_call_id g;
          rid = next_request_id g1;
          g2 = g1\<lparr>next_request_id := rid + 1\<rparr>;
          g3 = gw_audit env (call_agent call) (''approval_requested: '' @ call_tool call) g2;
          g4 = g3\<lparr>pending := pending g3 @ [\<lparr>request_id = rid, pending_call_id = call_id, pending_call = call\<rparr>]\<rparr>
      in (record_outcome ''review'' g4,
          AwaitingApproval rid (reflected_tool_call call_id (call_tool call) (args_summary call))))"

text \<open>The checks of \<open>mediate\<close> in their order: scope, rate, daily calls, daily tokens.\<close>

definition mediate ::
  "('s, 'c) gateway_env \<Rightarrow> 'e executor \<Rightarrow> capability_grant \<Rightarrow> tool_call \<Rightarrow> action_class \<Rightarrow> ('s, 'c) gateway \<Rightarrow> 'e
     \<Rightarrow> ('s, 'c) gateway \<times> 'e \<times> outcome" where
  "mediate env ex grant call class g e =
     (let a = agent_as_str (call_agent call); tool = call_tool call; room = room_as_str (call_room call);
          no = (\<lambda>ev oc reason g. let (g', r) = refuse env (call_agent call) ev oc reason g in (g', e, r))
      in
      if class = Forbidden then
        no (''denied_by_scope: '' @ tool @ '' in '' @ room) ''denied_scope'' (tool @ '' is not permitted in '' @ room) g
      else let (limited, g1) = is_rate_limited env a (rate_limit_per_min grant) g in
      if limited then
        no (''rate_limited: '' @ tool) ''rate_limited''
          (''rate limit of '' @ dec (unat (rate_limit_per_min grant)) @ ''/min exceeded for '' @ a) g1
      else let (over, g2) = is_over_daily_budget env a (daily_call_limit grant) g1 in
      if over then
        no (''daily_budget_exceeded: '' @ tool) ''budget_exceeded''
          (''daily budget of '' @ dec (unat (daily_call_limit grant)) @ '' calls exceeded for '' @ a) g2
      else let (spent, g3) = is_over_token_budget env a (daily_token_budget grant) g2 in
      if spent then
        no (''token_budget_exceeded: '' @ tool) ''token_budget_exceeded''
          (''daily token budget of '' @ dec (unat (daily_token_budget grant)) @ '' exceeded for '' @ a) g3
      else let g4 = note_daily_call env a (note_call env a g3) in
      if class = Auto then mediate_auto env ex call g4 e
      else let (g5, r) = mediate_review env call g4 in (g5, e, r))"

definition handle ::
  "('s, 'c) gateway_env \<Rightarrow> 'e executor \<Rightarrow> capability_grant \<Rightarrow> tool_call \<Rightarrow> ('s, 'c) gateway \<Rightarrow> 'e
     \<Rightarrow> ('s, 'c) gateway \<times> 'e \<times> outcome" where
  "handle env ex grant call g e = mediate env ex grant call (classify grant (call_tool call) (call_room call)) g e"

definition handle_managed ::
  "('s, 'c) gateway_env \<Rightarrow> 'e executor \<Rightarrow> appservice_registration \<Rightarrow> capability_grant \<Rightarrow> tool_call \<Rightarrow> ('s, 'c) gateway \<Rightarrow> 'e
     \<Rightarrow> ('s, 'c) gateway \<times> 'e \<times> outcome" where
  "handle_managed env ex reg grant call g e =
     (if \<not> as_manages reg (agent_as_user_id (call_agent call)) then
        (let (g1, r) = refuse env (call_agent call) (''unmanaged_agent: '' @ agent_as_str (call_agent call)) ''unmanaged''
             (agent_as_str (call_agent call) @ '' is not a managed agent identity'') g
         in (g1, e, r))
      else handle env ex grant call g e)"

definition unknown_agent ::
  "('s, 'c) gateway_env \<Rightarrow> agent_id \<Rightarrow> ('s, 'c) gateway \<Rightarrow> ('s, 'c) gateway \<times> (gateway_error + outcome)" where
  "unknown_agent env a g =
     (record_outcome ''unknown_agent'' (gw_audit env a (''unknown_agent: '' @ agent_as_str a) g),
      Inl (UnknownAgent (agent_as_str a)))"

definition handle_in_room ::
  "('s, 'c) gateway_env \<Rightarrow> 'e executor \<Rightarrow> agent_roster \<Rightarrow> tool_call \<Rightarrow> ('s, 'c) gateway \<Rightarrow> 'e
     \<Rightarrow> ('s, 'c) gateway \<times> 'e \<times> (gateway_error + outcome)" where
  "handle_in_room env ex roster call g e =
     (case grant_for roster (call_agent call) of
        Some grant \<Rightarrow>
          (let (g1, e1, r) = mediate env ex grant call (classify grant (call_tool call) (call_room call)) g e
           in (g1, e1, Inr r))
      | None \<Rightarrow> (let (g1, r) = unknown_agent env (call_agent call) g in (g1, e, r)))"

definition handle_delegated ::
  "('s, 'c) gateway_env \<Rightarrow> 'e executor \<Rightarrow> agent_roster \<Rightarrow> agent_id \<Rightarrow> tool_call \<Rightarrow> ('s, 'c) gateway \<Rightarrow> 'e
     \<Rightarrow> ('s, 'c) gateway \<times> 'e \<times> (gateway_error + outcome)" where
  "handle_delegated env ex roster orchestrator call g e =
     (if \<not> roster_contains roster orchestrator then
        (let (g1, r) = unknown_agent env orchestrator g in (g1, e, r))
      else case grant_for roster (call_agent call) of
        None \<Rightarrow> (let (g1, r) = unknown_agent env (call_agent call) g in (g1, e, r))
      | Some grant \<Rightarrow>
          (let g1 = gw_audit env (call_agent call)
                 (''delegated_by '' @ agent_as_str orchestrator @ '': '' @ call_tool call) g;
               (g2, e1, r) = mediate env ex grant call (classify grant (call_tool call) (call_room call)) g1 e
           in (g2, e1, Inr r)))"

definition handle_with_policy ::
  "('s, 'c) gateway_env \<Rightarrow> 'e executor \<Rightarrow> capability_grant \<Rightarrow> policy_set \<Rightarrow> tool_call \<Rightarrow> ('s, 'c) gateway \<Rightarrow> 'e
     \<Rightarrow> ('s, 'c) gateway \<times> 'e \<times> outcome" where
  "handle_with_policy env ex grant policy call g e =
     (let tool = call_tool call; room = room_as_str (call_room call);
          base = classify grant tool (call_room call)
      in
      if base = Forbidden then mediate env ex grant call Forbidden g e
      else case evaluate policy tool room (args_summary call) of
        Deny \<Rightarrow>
          (let (g1, r) = refuse env (call_agent call) (''policy_denied: '' @ tool @ '' in '' @ room) ''denied_policy''
               (tool @ '' denied by policy in '' @ room) g
           in (g1, e, r))
      | eff \<Rightarrow> mediate env ex grant call (refine base eff) g e)"

subsection \<open>Approvals\<close>

definition gw_resolve ::
  "('s, 'c) gateway_env \<Rightarrow> 'e executor \<Rightarrow> u64 \<Rightarrow> bool \<Rightarrow> string \<Rightarrow> ('s, 'c) gateway \<Rightarrow> 'e
     \<Rightarrow> ('s, 'c) gateway \<times> 'e \<times> (gateway_error + outcome)" where
  "gw_resolve env ex rid approved decided_by g e =
     (case List.extract (\<lambda>p. request_id p = rid) (pending g) of
        None \<Rightarrow> (g, e, Inl (UnknownRequest rid))
      | Some (before, p, after) \<Rightarrow>
          (let g1 = g\<lparr>pending := before @ after\<rparr>; call = pending_call p;
               receipt = reflected_approval (pending_call_id p) decided_by approved
           in
           if approved then
             (let g2 = gw_audit env (call_agent call) (''approved_by '' @ decided_by @ '': '' @ call_tool call) g1;
                  (g3, e1, result_event) = gw_execute env ex call (pending_call_id p) g2 e
              in (g3, e1, Inr (Executed [receipt, result_event])))
           else
             (let g2 = gw_audit env (call_agent call) (''denied_by '' @ decided_by @ '': '' @ call_tool call) g1
              in (record_outcome ''denied_human'' g2, e,
                  Inr (Denied (call_tool call @ '' denied by '' @ decided_by) [receipt])))))"

end
