(* ===== verification/GatewayScope.thy ===== *)
theory GatewayScope
  imports Gateway
begin

section \<open>Discovery, resources and memory through the gateway (gm-agent, lib.rs)\<close>

text \<open>The methods that read or write on behalf of an agent without calling a tool.\<close>

definition list_tools ::
  "('s, 'c) gateway_env \<Rightarrow> capability_grant \<Rightarrow> tool_catalog \<Rightarrow> ('s, 'c) gateway \<Rightarrow> ('s, 'c) gateway \<times> discoverable_tool list" where
  "list_tools env grant catalog g =
     (let tools = list_for catalog grant;
          g1 = gw_audit env (grant_agent grant) (''tools_listed: '' @ dec (length tools)) g
      in (gw_count ''gm_agent_tool_lists_total'' [] 1 g1, tools))"

definition list_resources ::
  "('s, 'c) gateway_env \<Rightarrow> capability_grant \<Rightarrow> ('s, 'c) gateway \<Rightarrow> ('s, 'c) gateway \<times> mcp_resource list" where
  "list_resources env grant g =
     (let g1 = gw_audit env (grant_agent grant) (''resources_listed: '' @ dec (length (accessible_rooms grant))) g
      in (gw_count ''gm_agent_resource_lists_total'' [] 1 g1,
          map (\<lambda>room. \<lparr>res_uri = room_resource_uri room, res_name = ''Timeline of '' @ room_as_str room,
             res_mime_type = ''text/plain''\<rparr>) (accessible_rooms grant)))"

text \<open>The room context is a parameter: the messages the homeserver holds for a room.\<close>

definition read_resource ::
  "('s, 'c) gateway_env \<Rightarrow> (room_id \<Rightarrow> room_message list) \<Rightarrow> capability_grant \<Rightarrow> string \<Rightarrow> ('s, 'c) gateway
     \<Rightarrow> ('s, 'c) gateway \<times> (gateway_error + resource_contents)" where
  "read_resource env messages grant uri g =
     (case room_from_uri uri of
        None \<Rightarrow> (gw_count ''gm_agent_resource_reads_total'' [(''result'', ''unknown'')] 1 g, Inl (UnknownResource uri))
      | Some room \<Rightarrow>
          if \<not> permits_room grant room then
            (gw_count ''gm_agent_resource_reads_total'' [(''result'', ''denied'')] 1
               (gw_audit env (grant_agent grant) (''resource_denied: '' @ uri) g), Inl (ResourceAccessDenied uri))
          else
            (gw_count ''gm_agent_resource_reads_total'' [(''result'', ''ok'')] 1
               (gw_audit env (grant_agent grant) (''resource_read: '' @ uri) g),
             Inr \<lparr>contents_uri = uri, contents_mime_type = ''text/plain'', contents_text = render_timeline (messages room)\<rparr>))"

subsection \<open>Memory\<close>

definition gw_memory_op :: "string \<Rightarrow> string \<Rightarrow> ('s, 'c) gateway \<Rightarrow> ('s, 'c) gateway" where
  "gw_memory_op op result g = gw_count ''gm_agent_memory_ops_total'' [(''op'', op), (''result'', result)] 1 g"

text \<open>The refusal that the four operations share.\<close>

definition memory_denied ::
  "('s, 'c) gateway_env \<Rightarrow> capability_grant \<Rightarrow> room_id \<Rightarrow> string \<Rightarrow> string \<Rightarrow> ('s, 'c) gateway
     \<Rightarrow> ('s, 'c) gateway \<times> (memory_error + 'r)" where
  "memory_denied env grant room key op g =
     (gw_memory_op op ''denied''
        (gw_audit env (grant_agent grant) (''memory_denied: '' @ room_as_str room @ ''/'' @ key) g),
      Inl (RoomNotPermitted (room_as_str room)))"

definition remember ::
  "('s, 'c) gateway_env \<Rightarrow> capability_grant \<Rightarrow> room_id \<Rightarrow> string \<Rightarrow> string \<Rightarrow> ('s, 'c) gateway
     \<Rightarrow> ('s, 'c) gateway \<times> (memory_error + unit)" where
  "remember env grant room key value g =
     (if \<not> permits_room grant room then memory_denied env grant room key ''store'' g
      else case am_store (env_store env) (grant_agent grant) room key value (gw_store g) of
        (s, Inl err) \<Rightarrow> (g\<lparr>gw_store := s\<rparr>, Inl err)
      | (s, Inr _) \<Rightarrow>
          (gw_memory_op ''store'' ''ok''
             (gw_audit env (grant_agent grant) (''memory_stored: '' @ room_as_str room @ ''/'' @ key) (g\<lparr>gw_store := s\<rparr>)),
           Inr ()))"

definition recall ::
  "('s, 'c) gateway_env \<Rightarrow> capability_grant \<Rightarrow> room_id \<Rightarrow> string \<Rightarrow> ('s, 'c) gateway
     \<Rightarrow> ('s, 'c) gateway \<times> (memory_error + string option)" where
  "recall env grant room key g =
     (if \<not> permits_room grant room then memory_denied env grant room key ''recall'' g
      else
        (gw_memory_op ''recall'' ''ok''
           (gw_audit env (grant_agent grant) (''memory_recalled: '' @ room_as_str room @ ''/'' @ key) g),
         Inr (am_recall (env_store env) (grant_agent grant) room key (gw_store g))))"

definition recall_all ::
  "('s, 'c) gateway_env \<Rightarrow> capability_grant \<Rightarrow> room_id \<Rightarrow> ('s, 'c) gateway
     \<Rightarrow> ('s, 'c) gateway \<times> (memory_error + memory_item list)" where
  "recall_all env grant room g =
     (if \<not> permits_room grant room then memory_denied env grant room ''*'' ''recall_all'' g
      else let items = am_recall_all (env_store env) (grant_agent grant) room (gw_store g) in
        (gw_memory_op ''recall_all'' ''ok''
           (gw_audit env (grant_agent grant)
             (''memory_recalled: '' @ room_as_str room @ ''/* ('' @ dec (length items) @ '')'') g),
         Inr items))"

definition forget ::
  "('s, 'c) gateway_env \<Rightarrow> capability_grant \<Rightarrow> room_id \<Rightarrow> string \<Rightarrow> ('s, 'c) gateway
     \<Rightarrow> ('s, 'c) gateway \<times> (memory_error + unit)" where
  "forget env grant room key g =
     (if \<not> permits_room grant room then memory_denied env grant room key ''forget'' g
      else
        (gw_memory_op ''forget'' ''ok''
           (gw_audit env (grant_agent grant) (''memory_forgotten: '' @ room_as_str room @ ''/'' @ key)
             (g\<lparr>gw_store := am_forget (env_store env) (grant_agent grant) room key (gw_store g)\<rparr>)),
         Inr ()))"

end
