(* ===== verification/GatewayRuns.thy ===== *)
theory GatewayRuns
  imports GatewayScope
begin

section \<open>Runs of the gateway and what they may execute\<close>

text \<open>
  The methods of the gateway as operations, runs of them, and the abstract machine that says which
  executions an operation may cause: the class of a call decides, a queued call waits under a fresh
  id, and an approval executes exactly the call it names.  The gateway is shown to refine it.
\<close>

datatype gw_op =
    OpHandle capability_grant tool_call
  | OpManaged appservice_registration capability_grant tool_call
  | OpInRoom agent_roster tool_call
  | OpDelegated agent_roster agent_id tool_call
  | OpPolicy capability_grant policy_set tool_call
  | OpResolve u64 bool string
  | OpListTools capability_grant tool_catalog
  | OpListResources capability_grant
  | OpReadResource capability_grant string
  | OpRemember capability_grant room_id string string
  | OpRecall capability_grant room_id string
  | OpRecallAll capability_grant room_id
  | OpForget capability_grant room_id string

abbreviation drop_result :: "'a \<times> 'b \<times> 'c \<Rightarrow> 'a \<times> 'b" where
  "drop_result \<equiv> \<lambda>(a, b, _). (a, b)"

fun run_op ::
  "('s, 'c) gateway_env \<Rightarrow> 'e executor \<Rightarrow> (room_id \<Rightarrow> room_message list) \<Rightarrow> gw_op \<Rightarrow> ('s, 'c) gateway \<times> 'e
     \<Rightarrow> ('s, 'c) gateway \<times> 'e" where
  "run_op env ex msgs (OpHandle grant call) (g, e) = drop_result (handle env ex grant call g e)"
| "run_op env ex msgs (OpManaged reg grant call) (g, e) = drop_result (handle_managed env ex reg grant call g e)"
| "run_op env ex msgs (OpInRoom roster call) (g, e) = drop_result (handle_in_room env ex roster call g e)"
| "run_op env ex msgs (OpDelegated roster orch call) (g, e) = drop_result (handle_delegated env ex roster orch call g e)"
| "run_op env ex msgs (OpPolicy grant policy call) (g, e) = drop_result (handle_with_policy env ex grant policy call g e)"
| "run_op env ex msgs (OpResolve rid approved by) (g, e) = drop_result (gw_resolve env ex rid approved by g e)"
| "run_op env ex msgs (OpListTools grant catalog) (g, e) = (fst (list_tools env grant catalog g), e)"
| "run_op env ex msgs (OpListResources grant) (g, e) = (fst (list_resources env grant g), e)"
| "run_op env ex msgs (OpReadResource grant uri) (g, e) = (fst (read_resource env msgs grant uri g), e)"
| "run_op env ex msgs (OpRemember grant room key val) (g, e) = (fst (remember env grant room key val g), e)"
| "run_op env ex msgs (OpRecall grant room key) (g, e) = (fst (recall env grant room key g), e)"
| "run_op env ex msgs (OpRecallAll grant room) (g, e) = (fst (recall_all env grant room g), e)"
| "run_op env ex msgs (OpForget grant room key) (g, e) = (fst (forget env grant room key g), e)"

definition run_ops ::
  "('s, 'c) gateway_env \<Rightarrow> 'e executor \<Rightarrow> (room_id \<Rightarrow> room_message list) \<Rightarrow> gw_op list \<Rightarrow> ('s, 'c) gateway \<times> 'e
     \<Rightarrow> ('s, 'c) gateway \<times> 'e" where
  "run_ops env ex msgs ops ge = fold (run_op env ex msgs) ops ge"

text \<open>An executor that also records the calls it is given.\<close>

definition recording :: "'e executor \<Rightarrow> ('e \<times> tool_call list) executor" where
  "recording ex = (\<lambda>(e, calls) call. let (oc, e1) = ex e call in (oc, (e1, calls @ [call])))"

subsection \<open>The authority of an operation\<close>

text \<open>The call an operation submits, with the grant it is mediated under and the class it is mediated with.\<close>

fun op_grant :: "gw_op \<Rightarrow> (tool_call \<times> capability_grant) option" where
  "op_grant (OpHandle grant call) = Some (call, grant)"
| "op_grant (OpManaged reg grant call) =
     (if as_manages reg (agent_as_user_id (call_agent call)) then Some (call, grant) else None)"
| "op_grant (OpInRoom roster call) = map_option (Pair call) (grant_for roster (call_agent call))"
| "op_grant (OpDelegated roster orch call) =
     (if roster_contains roster orch then map_option (Pair call) (grant_for roster (call_agent call)) else None)"
| "op_grant (OpPolicy grant policy call) =
     (if classify grant (call_tool call) (call_room call) \<noteq> Forbidden \<and>
         evaluate policy (call_tool call) (room_as_str (call_room call)) (args_summary call) = Deny
      then None else Some (call, grant))"
| "op_grant _ = None"

fun op_class :: "gw_op \<Rightarrow> action_class" where
  "op_class (OpPolicy grant policy call) =
     refine (classify grant (call_tool call) (call_room call))
       (evaluate policy (call_tool call) (room_as_str (call_room call)) (args_summary call))"
| "op_class op =
     (case op_grant op of
        Some (call, grant) \<Rightarrow> classify grant (call_tool call) (call_room call)
      | None \<Rightarrow> Forbidden)"

text \<open>
  The operation lets its call through with class \<open>c\<close>: some grant permits its tool and its room, and
  the operation, with its policy if it has one, gives it that class.
\<close>

definition op_authorizes :: "gw_op \<Rightarrow> tool_call \<Rightarrow> action_class \<Rightarrow> bool" where
  "op_authorizes op call c \<longleftrightarrow>
     (\<exists>grant. op_grant op = Some (call, grant) \<and> permits_tool grant (call_tool call) \<and>
        permits_room grant (call_room call)) \<and> op_class op = c \<and> c \<noteq> Forbidden"

subsection \<open>The abstract machine\<close>

record authority =
  waiting :: "(u64 \<times> tool_call) list"
  performed :: "tool_call list"

definition authority_start :: authority where
  "authority_start = \<lparr>waiting = [], performed = []\<rparr>"

inductive authority_step :: "gw_op \<Rightarrow> authority \<Rightarrow> authority \<Rightarrow> bool" where
  idle: "(\<And>rid approved by. op \<noteq> OpResolve rid approved by) \<Longrightarrow> authority_step op A A"
| perform: "op_authorizes op call Auto \<Longrightarrow> authority_step op A (A\<lparr>performed := performed A @ [call]\<rparr>)"
| queue: "op_authorizes op call Review \<Longrightarrow> rid \<notin> fst ` set (waiting A) \<Longrightarrow>
     authority_step op A (A\<lparr>waiting := waiting A @ [(rid, call)]\<rparr>)"
| unknown: "rid \<notin> fst ` set (waiting A) \<Longrightarrow> authority_step (OpResolve rid approved by) A A"
| approve: "waiting A = ws1 @ (rid, call) # ws2 \<Longrightarrow>
     authority_step (OpResolve rid True by) A (A\<lparr>waiting := ws1 @ ws2, performed := performed A @ [call]\<rparr>)"
| reject: "waiting A = ws1 @ (rid, call) # ws2 \<Longrightarrow>
     authority_step (OpResolve rid False by) A (A\<lparr>waiting := ws1 @ ws2\<rparr>)"

inductive authority_run :: "gw_op list \<Rightarrow> authority \<Rightarrow> authority \<Rightarrow> bool" where
  none: "authority_run [] A A"
| more: "authority_run ops A B \<Longrightarrow> authority_step op B C \<Longrightarrow> authority_run (ops @ [op]) A C"

text \<open>
  A run of the machine, given by its state before each operation.  What operation \<open>j\<close> performs it may run
  at once, or it is an approval and the call has waited under the very id it names since an earlier
  operation that was authorized for review put it there under that id, new at the time.
\<close>

definition authority_trace :: "gw_op list \<Rightarrow> (nat \<Rightarrow> authority) \<Rightarrow> bool" where
  "authority_trace ops A \<longleftrightarrow>
     A 0 = authority_start \<and> (\<forall>j<length ops. authority_step (ops ! j) (A j) (A (Suc j)))"

definition queued_by :: "gw_op list \<Rightarrow> (nat \<Rightarrow> (u64 \<times> tool_call) list) \<Rightarrow> nat \<Rightarrow> nat \<Rightarrow> u64 \<Rightarrow> tool_call \<Rightarrow> bool" where
  "queued_by ops queue i j rid call \<longleftrightarrow>
     i < j \<and> op_authorizes (ops ! i) call Review \<and> rid \<notin> fst ` set (queue i) \<and>
     (\<forall>k. i < k \<and> k \<le> j \<longrightarrow> (rid, call) \<in> set (queue k))"

definition justified :: "gw_op list \<Rightarrow> (nat \<Rightarrow> (u64 \<times> tool_call) list) \<Rightarrow> nat \<Rightarrow> tool_call \<Rightarrow> bool" where
  "justified ops queue j call \<longleftrightarrow>
     op_authorizes (ops ! j) call Auto \<or>
     (\<exists>i rid by. ops ! j = OpResolve rid True by \<and> queued_by ops queue i j rid call \<and>
        rid \<notin> fst ` set (queue (Suc j)))"

lemma queued_by_step:
  "queued_by ops queue i j rid call \<Longrightarrow> (rid, call) \<in> set (queue (Suc j)) \<Longrightarrow> queued_by ops queue i (Suc j) rid call"
  by (auto simp: queued_by_def le_Suc_eq)

lemma authority_trace_queue:
  assumes "authority_trace ops A" "j \<le> length ops"
  shows "distinct (map fst (waiting (A j))) \<and>
    (\<forall>(rid, call)\<in>set (waiting (A j)). \<exists>i. queued_by ops (\<lambda>k. waiting (A k)) i j rid call)"
  using assms(2)
proof (induction j)
  case 0
  with assms(1) show ?case by (simp add: authority_trace_def authority_start_def)
next
  case (Suc j)
  let ?q = "\<lambda>k. waiting (A k)"
  have old: "\<exists>i. queued_by ops ?q i (Suc j) rid call"
    if "(rid, call) \<in> set (?q j)" "(rid, call) \<in> set (?q (Suc j))" for rid call
    using Suc that queued_by_step [of ops ?q _ j rid call] by fastforce
  have "authority_step (ops ! j) (A j) (A (Suc j))" using assms(1) Suc.prems by (simp add: authority_trace_def)
  then show ?case
  proof cases
    case (queue call rid)
    then have "queued_by ops ?q j (Suc j) rid call" by (auto simp: queued_by_def le_Suc_eq)
    with queue Suc old show ?thesis by auto
  qed (use Suc old in auto)
qed

lemma authority_trace_justified:
  assumes "authority_trace ops A" "j < length ops"
  shows "\<exists>run. performed (A (Suc j)) = performed (A j) @ run \<and>
    (run = [] \<or> (\<exists>call. run = [call] \<and> justified ops (\<lambda>k. waiting (A k)) j call))"
proof -
  from authority_trace_queue [OF assms(1), of j] assms(2)
  have q: "distinct (map fst (waiting (A j)))"
    "(rid, call) \<in> set (waiting (A j)) \<Longrightarrow> \<exists>i. queued_by ops (\<lambda>k. waiting (A k)) i j rid call" for rid call
    by auto
  have "authority_step (ops ! j) (A j) (A (Suc j))" using assms by (simp add: authority_trace_def)
  then show ?thesis
  proof cases
    case (approve ws1 rid call ws2 "by")
    with q(2) [of rid call] obtain i where "queued_by ops (\<lambda>k. waiting (A k)) i j rid call" by auto
    moreover have "rid \<notin> fst ` set (waiting (A (Suc j)))" using q(1) approve by auto
    ultimately show ?thesis using approve by (auto simp: justified_def)
  qed (auto simp: justified_def)
qed


subsection \<open>How mediation changes the gateway\<close>

text \<open>What the budget checks leave alone.\<close>

definition budget_only :: "('s, 'c) gateway \<Rightarrow> ('s, 'c) gateway \<Rightarrow> bool" where
  "budget_only g g' \<longleftrightarrow> next_request_id g' = next_request_id g \<and> next_call_seq g' = next_call_seq g \<and>
     pending g' = pending g \<and> gw_store g' = gw_store g \<and> gw_metrics g' = gw_metrics g"

lemma budget_only_refl [simp]: "budget_only g g"
  by (simp add: budget_only_def)

lemma budget_only_trans [trans]: "budget_only g g' \<Longrightarrow> budget_only g' g'' \<Longrightarrow> budget_only g g''"
  by (simp add: budget_only_def)

lemma budget_only_gw_now: "gw_now env g = (t, g1) \<Longrightarrow> budget_only g g1"
  by (auto simp: gw_now_def budget_only_def split: prod.splits)

lemma budget_only_daily_entry: "daily_entry env a g = (x, g1) \<Longrightarrow> budget_only g g1"
  by (auto simp: daily_entry_def gw_now_def budget_only_def Let_def split: prod.splits)

lemma budget_only_checks:
  "budget_only g (snd (is_rate_limited env a limit g))"
  "budget_only g (snd (is_over_daily_budget env a limit' g))"
  "budget_only g (snd (is_over_token_budget env a budget g))"
  "budget_only g (note_call env a g)" "budget_only g (note_daily_call env a g)" "budget_only g (note_tokens env a n g)"
  by (auto simp: is_rate_limited_def is_over_daily_budget_def is_over_token_budget_def note_call_def
      note_daily_call_def note_tokens_def daily_entry_def gw_now_def budget_only_def Let_def split: prod.splits)

text \<open>A run of \<open>mediate\<close> ends in a refusal, in an immediate execution or in the queue.\<close>

definition refusal_texts :: "tool_call \<Rightarrow> string list" where
  "refusal_texts call =
     (let tool = call_tool call; room = room_as_str (call_room call) in
      [''denied_by_scope: '' @ tool @ '' in '' @ room, ''rate_limited: '' @ tool,
       ''daily_budget_exceeded: '' @ tool, ''token_budget_exceeded: '' @ tool])"

definition refuses ::
  "('s, 'c) gateway_env \<Rightarrow> tool_call \<Rightarrow> ('s, 'c) gateway \<Rightarrow> 'e \<Rightarrow> ('s, 'c) gateway \<times> 'e \<times> outcome \<Rightarrow> bool" where
  "refuses env call g e res \<longleftrightarrow>
     (\<exists>ev oc reason. ev \<in> set (refusal_texts call) \<and>
        res = (record_outcome oc (gw_audit env (call_agent call) ev g), e, Denied reason []))"

lemma mediate_stages:
  assumes "mediate env ex grant call class g e = res"
  obtains (forbidden) "class = Forbidden" "refuses env call g e res"
  | (limited) g1 where "is_rate_limited env (agent_as_str (call_agent call)) (rate_limit_per_min grant) g = (True, g1)"
      "refuses env call g1 e res"
  | (over) g1 g2 where "is_rate_limited env (agent_as_str (call_agent call)) (rate_limit_per_min grant) g = (False, g1)"
      "is_over_daily_budget env (agent_as_str (call_agent call)) (daily_call_limit grant) g1 = (True, g2)"
      "refuses env call g2 e res"
  | (spent) g1 g2 g3 where "is_rate_limited env (agent_as_str (call_agent call)) (rate_limit_per_min grant) g = (False, g1)"
      "is_over_daily_budget env (agent_as_str (call_agent call)) (daily_call_limit grant) g1 = (False, g2)"
      "is_over_token_budget env (agent_as_str (call_agent call)) (daily_token_budget grant) g2 = (True, g3)"
      "refuses env call g3 e res"
  | (admitted) g1 g2 g3 g4 where "is_rate_limited env (agent_as_str (call_agent call)) (rate_limit_per_min grant) g = (False, g1)"
      "is_over_daily_budget env (agent_as_str (call_agent call)) (daily_call_limit grant) g1 = (False, g2)"
      "is_over_token_budget env (agent_as_str (call_agent call)) (daily_token_budget grant) g2 = (False, g3)"
      "g4 = note_daily_call env (agent_as_str (call_agent call)) (note_call env (agent_as_str (call_agent call)) g3)"
      "class = Auto \<and> mediate_auto env ex call g4 e = res \<or>
       class = Review \<and> (\<exists>g5 r. mediate_review env call g4 = (g5, r) \<and> res = (g5, e, r))"
proof -
  let ?a = "agent_as_str (call_agent call)"
  obtain l1 g1 where r1: "is_rate_limited env ?a (rate_limit_per_min grant) g = (l1, g1)" by fastforce
  obtain l2 g2 where r2: "is_over_daily_budget env ?a (daily_call_limit grant) g1 = (l2, g2)" by fastforce
  obtain l3 g3 where r3: "is_over_token_budget env ?a (daily_token_budget grant) g2 = (l3, g3)" by fastforce
  define g4 where "g4 = note_daily_call env ?a (note_call env ?a g3)"
  note m = assms [unfolded mediate_def Let_def r1 prod.case r2 r3, folded g4_def]
  have t: "''denied_by_scope: '' @ call_tool call @ '' in '' @ room_as_str (call_room call) \<in> set (refusal_texts call)"
    "''rate_limited: '' @ call_tool call \<in> set (refusal_texts call)"
    "''daily_budget_exceeded: '' @ call_tool call \<in> set (refusal_texts call)"
    "''token_budget_exceeded: '' @ call_tool call \<in> set (refusal_texts call)"
    by (simp_all add: refusal_texts_def Let_def)
  have no: "(case refuse env (call_agent call) ev oc reason h of (g', r) \<Rightarrow> (g', e, r)) = res \<Longrightarrow>
      ev \<in> set (refusal_texts call) \<Longrightarrow> refuses env call h e res" for ev oc reason h
    by (auto simp: refuses_def refuse_def)
  consider "class = Forbidden" | "class \<noteq> Forbidden" l1 | "class \<noteq> Forbidden" "\<not> l1" l2
    | "class \<noteq> Forbidden" "\<not> l1" "\<not> l2" l3 | "class = Auto" "\<not> l1" "\<not> l2" "\<not> l3" | "class = Review" "\<not> l1" "\<not> l2" "\<not> l3"
    by (cases "class") auto
  then show thesis
  proof cases
    case 1
    with no [OF m [simplified 1 simp_thms if_True if_False] t(1)] show ?thesis by (intro forbidden) simp_all
  next
    case 2
    with r1 no [OF m [simplified 2 simp_thms if_True if_False] t(2)] show ?thesis by (intro limited [of g1]) simp_all
  next
    case 3
    with r1 r2 no [OF m [simplified 3 simp_thms if_True if_False] t(3)] show ?thesis by (intro over [of g1 g2]) simp_all
  next
    case 4
    with r1 r2 r3 no [OF m [simplified 4 simp_thms if_True if_False] t(4)] show ?thesis by (intro spent [of g1 g2 g3]) simp_all
  next
    case 5
    with m r1 r2 r3 g4_def show ?thesis by (intro admitted [of g1 g2 g3 g4]) simp_all
  next
    case 6
    with m r1 r2 r3 g4_def show ?thesis by (intro admitted [of g1 g2 g3 g4]) (auto split: prod.splits)
  qed
qed

lemma mediate_cases:
  assumes "mediate env ex grant call class g e = (g', e', r)"
  obtains (refused) ev oc reason g1 where "budget_only g g1" "ev \<in> set (refusal_texts call)"
      "g' = record_outcome oc (gw_audit env (call_agent call) ev g1)" "e' = e" "r = Denied reason []"
  | (auto) g1 where "budget_only g g1" "class = Auto" "mediate_auto env ex call g1 e = (g', e', r)"
  | (review) g1 where "budget_only g g1" "class = Review" "mediate_review env call g1 = (g', r)" "e' = e"
proof -
  have b: "budget_only h h1" if "is_rate_limited env a n h = (l, h1)" for a n h l h1
    using budget_only_checks(1) [of h env a n] that by simp
  have d: "budget_only h h1" if "is_over_daily_budget env a n h = (l, h1)" for a n h l h1
    using budget_only_checks(2) [of h env a n] that by simp
  have k: "budget_only h h1" if "is_over_token_budget env a n h = (l, h1)" for a n h l h1
    using budget_only_checks(3) [of h env a n] that by simp
  have no: thesis if "budget_only g h" "refuses env call h e (g', e', r)" for h
    using that by (auto simp: refuses_def intro: refused)
  from assms show thesis
  proof (cases rule: mediate_stages)
    case forbidden
    then show ?thesis using no [of g] by simp
  next
    case (limited g1)
    then show ?thesis using no [of g1] b by blast
  next
    case (over g1 g2)
    then show ?thesis using no [of g2] b d budget_only_trans by metis
  next
    case (spent g1 g2 g3)
    then show ?thesis using no [of g3] b d k budget_only_trans by metis
  next
    case (admitted g1 g2 g3 g4)
    then have "budget_only g g3" using b d k budget_only_trans by metis
    then have "budget_only g g4"
      unfolding admitted(4) by (blast intro: budget_only_trans budget_only_checks)
    then show ?thesis using admitted(5) auto review by blast
  qed
qed

subsection \<open>The gateway refines the abstract machine\<close>

lemma gw_bookkeeping [simp]:
  "pending (gw_audit env a ev g) = pending g" "next_request_id (gw_audit env a ev g) = next_request_id g"
  "next_call_seq (gw_audit env a ev g) = next_call_seq g"
  "pending (gw_count n ls k g) = pending g" "next_request_id (gw_count n ls k g) = next_request_id g"
  "next_call_seq (gw_count n ls k g) = next_call_seq g" "gw_store (gw_count n ls k g) = gw_store g"
  "pending (record_outcome oc g) = pending g" "next_request_id (record_outcome oc g) = next_request_id g"
  "next_call_seq (record_outcome oc g) = next_call_seq g" "gw_store (record_outcome oc g) = gw_store g"
  "pending (gw_memory_op op result g) = pending g" "next_request_id (gw_memory_op op result g) = next_request_id g"
  "next_call_seq (gw_memory_op op result g) = next_call_seq g" "gw_store (gw_memory_op op result g) = gw_store g"
  by (simp_all add: gw_audit_def gw_count_def record_outcome_def gw_memory_op_def)

lemma budget_only_ids: "budget_only g g' \<Longrightarrow> pending g' = pending g \<and> next_request_id g' = next_request_id g"
  by (simp add: budget_only_def)

lemma note_tokens_ids [simp]:
  "pending (note_tokens env a n g) = pending g" "next_request_id (note_tokens env a n g) = next_request_id g"
  using budget_only_checks(6) [of g env a n] by (simp_all add: budget_only_def)

lemma gw_execute_log:
  "gw_execute env (recording ex) call cid g (e, calls) = (g', e', r) \<Longrightarrow>
     pending g' = pending g \<and> next_request_id g' = next_request_id g \<and> snd e' = calls @ [call]"
  by (auto simp: gw_execute_def recording_def Let_def split: prod.splits)

lemma mediate_auto_log:
  "mediate_auto env (recording ex) call g (e, calls) = (g', e', r) \<Longrightarrow>
     pending g' = pending g \<and> next_request_id g' = next_request_id g \<and> snd e' = calls @ [call]"
  by (auto simp: mediate_auto_def next_call_id_def Let_def dest!: gw_execute_log split: prod.splits)

lemma mediate_review_pending:
  assumes "mediate_review env call g = (g', r)"
  obtains cid where "pending g' = pending g @ [\<lparr>request_id = next_request_id g, pending_call_id = cid, pending_call = call\<rparr>]"
    "next_request_id g' = next_request_id g + 1"
  using assms that [of "''call-'' @ dec (unat (next_call_seq g))"]
  by (auto simp: mediate_review_def next_call_id_def Let_def)

definition simulates :: "nat \<Rightarrow> ('s, 'c) gateway \<Rightarrow> tool_call list \<Rightarrow> authority \<Rightarrow> bool" where
  "simulates n g calls A \<longleftrightarrow>
     waiting A = map (\<lambda>p. (request_id p, pending_call p)) (pending g) \<and> performed A = calls \<and>
     unat (next_request_id g) \<le> n \<and> (\<forall>p\<in>set (pending g). request_id p < next_request_id g)"

lemma simulates_start [simp]: "simulates 0 (with_store_and_clock s c) [] authority_start"
  by (simp add: simulates_def with_store_and_clock_def authority_start_def)

lemma simulates_same:
  "simulates n g calls A \<Longrightarrow> pending g' = pending g \<Longrightarrow> next_request_id g' = next_request_id g \<Longrightarrow> simulates (Suc n) g' calls A"
  by (simp add: simulates_def)

lemma unat_suc_u64: "unat (w :: u64) < 2 ^ 64 - 1 \<Longrightarrow> unat (w + 1) = unat w + 1"
  by (simp add: unat_word_ariths)

text \<open>One step of mediation, for an operation that submits the call with the class.\<close>

lemma simulates_mediate:
  assumes sim: "simulates n g calls A" and "Suc n < 2 ^ 64"
    and med: "mediate env (recording ex) grant call class g (e, calls) = (g', e', r)"
    and not_resolve: "\<And>rid approved by. op \<noteq> OpResolve rid approved by"
    and auth: "class \<noteq> Forbidden \<Longrightarrow> op_authorizes op call class"
  shows "\<exists>B. authority_step op A B \<and> simulates (Suc n) g' (snd e') B"
  using med
proof (cases rule: mediate_cases)
  case (refused ev oc reason g1)
  then have "simulates (Suc n) g' calls A"
    using sim by (intro simulates_same [of n g]) (simp_all add: budget_only_ids)
  with refused show ?thesis using authority_step.idle [OF not_resolve] by auto
next
  case (auto g1)
  then have "pending g' = pending g \<and> next_request_id g' = next_request_id g \<and> snd e' = calls @ [call]"
    by (auto dest!: mediate_auto_log dest: budget_only_ids)
  then have "simulates (Suc n) g' (snd e') (A\<lparr>performed := performed A @ [call]\<rparr>)"
    using sim by (simp add: simulates_def)
  with auto auth show ?thesis using authority_step.perform [of op call A] by auto
next
  case (review g1)
  have g1: "pending g1 = pending g" "next_request_id g1 = next_request_id g"
    using review(1) by (simp_all add: budget_only_ids)
  from review(3) obtain cid where p: "pending g' = pending g @ [\<lparr>request_id = next_request_id g, pending_call_id = cid, pending_call = call\<rparr>]"
      and i: "next_request_id g' = next_request_id g + 1"
    using g1 mediate_review_pending by metis
  have fresh: "next_request_id g \<notin> fst ` set (waiting A)"
    using sim by (auto simp: simulates_def)
  have inc: "unat (next_request_id g + 1) = unat (next_request_id g) + 1"
    using sim assms(2) by (intro unat_suc_u64) (auto simp: simulates_def)
  then have "request_id q < next_request_id g + 1" if "q \<in> set (pending g)" for q
    using that sim by (auto simp: simulates_def word_less_nat_alt intro: less_SucI)
  moreover have "next_request_id g < next_request_id g + 1"
    using inc by (simp add: word_less_nat_alt)
  ultimately have "simulates (Suc n) g' (snd e') (A\<lparr>waiting := waiting A @ [(next_request_id g, call)]\<rparr>)"
    using sim p i inc review(4) by (auto simp: simulates_def)
  with fresh auth review(2) show ?thesis using authority_step.queue [of op call "next_request_id g" A] by auto
qed

lemma simulates_resolve:
  assumes sim: "simulates n g calls A" and res: "gw_resolve env (recording ex) rid approved by g (e, calls) = (g', e', r)"
  shows "\<exists>B. authority_step (OpResolve rid approved by) A B \<and> simulates (Suc n) g' (snd e') B"
proof (cases "List.extract (\<lambda>p. request_id p = rid) (pending g)")
  case None
  then have "rid \<notin> fst ` set (waiting A)"
    using sim by (auto simp: simulates_def extract_None_iff)
  moreover have "g' = g" "e' = (e, calls)" using res None by (simp_all add: gw_resolve_def)
  ultimately show ?thesis
    using authority_step.unknown simulates_same [OF sim] by (metis snd_conv)
next
  case (Some x)
  obtain before p after where x: "x = (before, p, after)" by (cases x) auto
  have split: "pending g = before @ p # after" "request_id p = rid"
    using Some x extract_SomeE by fastforce+
  let ?ws = "map (\<lambda>p. (request_id p, pending_call p))"
  have w: "waiting A = ?ws before @ (rid, pending_call p) # ?ws after"
    using sim split by (simp add: simulates_def)
  show ?thesis
  proof (cases approved)
    case True
    have "pending g' = before @ after \<and> next_request_id g' = next_request_id g \<and> snd e' = calls @ [pending_call p]"
      using res Some x True
      by (auto simp: gw_resolve_def Let_def dest!: gw_execute_log split: prod.splits)
    then have "simulates (Suc n) g' (snd e')
        (A\<lparr>waiting := ?ws before @ ?ws after, performed := performed A @ [pending_call p]\<rparr>)"
      using sim split by (auto simp: simulates_def)
    with authority_step.approve [OF w, of "by"] True show ?thesis by auto
  next
    case False
    have "pending g' = before @ after \<and> next_request_id g' = next_request_id g \<and> e' = (e, calls)"
      using res Some x False by (auto simp: gw_resolve_def Let_def)
    then have "simulates (Suc n) g' (snd e') (A\<lparr>waiting := ?ws before @ ?ws after\<rparr>)"
      using sim split by (auto simp: simulates_def)
    with authority_step.reject [OF w, of "by"] False show ?thesis by auto
  qed
qed


lemma op_authorizes_grant:
  "op_grant op = Some (call, grant) \<Longrightarrow> op_class op = c \<Longrightarrow> c \<noteq> Forbidden \<Longrightarrow>
   classify grant (call_tool call) (call_room call) \<noteq> Forbidden \<Longrightarrow> op_authorizes op call c"
  by (auto simp: op_authorizes_def dest!: classify_not_Forbidden)

lemma simulates_idle:
  assumes "simulates n g calls A" "\<And>rid approved by. op \<noteq> OpResolve rid approved by"
    "pending g' = pending g" "next_request_id g' = next_request_id g"
  shows "\<exists>B. authority_step op A B \<and> simulates (Suc n) g' calls B"
  using authority_step.idle [OF assms(2)] simulates_same [OF assms(1,3,4)] by blast

lemma read_ops_ids [simp]:
  "pending (fst (list_tools env grant catalog g)) = pending g"
  "next_request_id (fst (list_tools env grant catalog g)) = next_request_id g"
  "pending (fst (list_resources env grant g)) = pending g"
  "next_request_id (fst (list_resources env grant g)) = next_request_id g"
  "pending (fst (read_resource env msgs grant uri g)) = pending g"
  "next_request_id (fst (read_resource env msgs grant uri g)) = next_request_id g"
  "pending (fst (remember env grant room key v g)) = pending g"
  "next_request_id (fst (remember env grant room key v g)) = next_request_id g"
  "pending (fst (recall env grant room key g)) = pending g"
  "next_request_id (fst (recall env grant room key g)) = next_request_id g"
  "pending (fst (recall_all env grant room g)) = pending g"
  "next_request_id (fst (recall_all env grant room g)) = next_request_id g"
  "pending (fst (forget env grant room key g)) = pending g"
  "next_request_id (fst (forget env grant room key g)) = next_request_id g"
  by (simp_all add: list_tools_def list_resources_def read_resource_def remember_def recall_def recall_all_def
      forget_def memory_denied_def Let_def split: option.split prod.split sum.split)

lemma simulates_step:
  fixes g :: "('s, 'c) gateway"
  assumes sim: "simulates n g calls A" and n: "Suc n < 2 ^ 64"
  shows "\<exists>B. authority_step op A B \<and>
    (case run_op env (recording ex) msgs op (g, (e, calls)) of (g', e') \<Rightarrow> simulates (Suc n) g' (snd e') B)"
proof -
  have idle: "\<exists>B. authority_step op A B \<and> simulates (Suc n) g' calls B"
    if "\<And>rid approved by. op \<noteq> OpResolve rid approved by" "pending g' = pending g" "next_request_id g' = next_request_id g"
    for g' :: "('s, 'c) gateway"
    using simulates_idle [OF sim that] .
  have mediate: "\<exists>B. authority_step op A B \<and> simulates (Suc n) g'' (snd e'') B"
    if "mediate env (recording ex) grant call (op_class op) g' (e, calls) = (g'', e'', r)"
      "\<And>rid approved by. op \<noteq> OpResolve rid approved by" "op_grant op = Some (call, grant)"
      "op_class op \<noteq> Forbidden \<Longrightarrow> classify grant (call_tool call) (call_room call) \<noteq> Forbidden"
      "pending g' = pending g" "next_request_id g' = next_request_id g" for grant call g' g'' e'' r
  proof -
    have "simulates n g' calls A" using sim that(5,6) by (simp add: simulates_def)
    from simulates_mediate [OF this n that(1,2)] that(3,4) op_authorizes_grant show ?thesis by blast
  qed
  show ?thesis
  proof (cases op)
    case (OpHandle grant call)
    then show ?thesis
      using mediate [of grant call g] by (auto simp: handle_def split: prod.splits)
  next
    case (OpManaged reg grant call)
    show ?thesis
    proof (cases "as_manages reg (agent_as_user_id (call_agent call))")
      case True
      then show ?thesis
        using mediate [of grant call g] OpManaged by (auto simp: handle_managed_def handle_def split: prod.splits)
    next
      case False
      have "\<exists>B. authority_step op A B \<and> simulates (Suc n) (record_outcome ''unmanaged'' (gw_audit env (call_agent call)
            (''unmanaged_agent: '' @ agent_as_str (call_agent call)) g)) calls B"
        by (rule idle) (simp_all add: OpManaged)
      then show ?thesis
        using False OpManaged by (simp add: handle_managed_def refuse_def)
    qed
  next
    case (OpInRoom roster call)
    show ?thesis
    proof (cases "grant_for roster (call_agent call)")
      case None
      then show ?thesis using idle OpInRoom by (auto simp: handle_in_room_def unknown_agent_def)
    next
      case (Some grant)
      then show ?thesis
        using mediate [of grant call g] OpInRoom by (auto simp: handle_in_room_def split: prod.splits)
    qed
  next
    case (OpDelegated roster orch call)
    show ?thesis
    proof (cases "roster_contains roster orch \<and> grant_for roster (call_agent call) \<noteq> None")
      case False
      then show ?thesis
        using idle OpDelegated by (auto simp: handle_delegated_def unknown_agent_def split: option.splits)
    next
      case True
      then obtain grant where "grant_for roster (call_agent call) = Some grant" by blast
      then show ?thesis
        using True mediate [of grant call "gw_audit env (call_agent call)
            (''delegated_by '' @ agent_as_str orch @ '': '' @ call_tool call) g"] OpDelegated
        by (auto simp: handle_delegated_def Let_def split: prod.splits)
    qed
  next
    case (OpPolicy grant policy call)
    let ?base = "classify grant (call_tool call) (call_room call)"
    let ?eff = "evaluate policy (call_tool call) (room_as_str (call_room call)) (args_summary call)"
    show ?thesis
    proof (cases "?base \<noteq> Forbidden \<and> ?eff = Deny")
      case True
      then show ?thesis
        using idle OpPolicy by (auto simp: handle_with_policy_def refuse_def Let_def)
    next
      case False
      have "handle_with_policy env (recording ex) grant policy call g (e, calls) =
          mediate env (recording ex) grant call (op_class op) g (e, calls)"
        using False OpPolicy by (cases ?eff) (auto simp: handle_with_policy_def Let_def)
      moreover have "op_class op \<noteq> Forbidden \<Longrightarrow> ?base \<noteq> Forbidden"
        using OpPolicy by auto
      ultimately show ?thesis
        using False mediate [of grant call g] OpPolicy by (auto split: prod.splits)
    qed
  next
    case (OpResolve rid approved "by")
    then show ?thesis
      using simulates_resolve [OF sim] by (auto split: prod.splits)
  qed (use idle in \<open>auto simp del: split_paired_Ex\<close>)
qed

lemma simulates_run:
  "length ops < 2 ^ 64 - 1 \<Longrightarrow>
   \<exists>A. authority_run ops authority_start A \<and>
     (case run_ops env (recording ex) msgs ops (with_store_and_clock s c, (e, [])) of
        (g, e') \<Rightarrow> simulates (length ops) g (snd e') A)"
proof (induction ops rule: rev_induct)
  case Nil
  show ?case
    by (rule exI [of _ authority_start]) (simp add: run_ops_def authority_run.none)
next
  case (snoc op ops)
  obtain g e1 calls where r: "run_ops env (recording ex) msgs ops (with_store_and_clock s c, (e, [])) = (g, (e1, calls))"
    by (metis surj_pair)
  with snoc obtain A where A: "authority_run ops authority_start A" "simulates (length ops) g calls A"
    by auto
  from simulates_step [OF A(2), of op env ex msgs e1] snoc.prems obtain B where
    "authority_step op A B" "case run_op env (recording ex) msgs op (g, (e1, calls)) of
       (g', e') \<Rightarrow> simulates (Suc (length ops)) g' (snd e') B"
    by auto
  moreover have "authority_run (ops @ [op]) authority_start B"
    using A(1) \<open>authority_step op A B\<close> by (rule authority_run.more)
  ultimately show ?case using r by (auto simp: run_ops_def intro!: exI [of _ B])
qed


text \<open>The gateway before each operation of a run, its approvals and the calls its executor was given.\<close>

definition gateway_before ::
  "('s, 'c) gateway_env \<Rightarrow> 'e executor \<Rightarrow> (room_id \<Rightarrow> room_message list) \<Rightarrow> gw_op list \<Rightarrow> ('s, 'c) gateway \<Rightarrow> 'e \<Rightarrow> nat
     \<Rightarrow> ('s, 'c) gateway \<times> 'e \<times> tool_call list" where
  "gateway_before env ex msgs ops g e j = run_ops env (recording ex) msgs (take j ops) (g, (e, []))"

definition approvals_before ::
  "('s, 'c) gateway_env \<Rightarrow> 'e executor \<Rightarrow> (room_id \<Rightarrow> room_message list) \<Rightarrow> gw_op list \<Rightarrow> ('s, 'c) gateway \<Rightarrow> 'e \<Rightarrow> nat
     \<Rightarrow> (u64 \<times> tool_call) list" where
  "approvals_before env ex msgs ops g e j =
     map (\<lambda>p. (request_id p, pending_call p)) (pending (fst (gateway_before env ex msgs ops g e j)))"

definition calls_before ::
  "('s, 'c) gateway_env \<Rightarrow> 'e executor \<Rightarrow> (room_id \<Rightarrow> room_message list) \<Rightarrow> gw_op list \<Rightarrow> ('s, 'c) gateway \<Rightarrow> 'e \<Rightarrow> nat
     \<Rightarrow> tool_call list" where
  "calls_before env ex msgs ops g e j = snd (snd (gateway_before env ex msgs ops g e j))"

lemma gateway_before_Suc:
  "j < length ops \<Longrightarrow> gateway_before env ex msgs ops g e (Suc j) =
     run_op env (recording ex) msgs (ops ! j) (gateway_before env ex msgs ops g e j)"
  by (simp add: gateway_before_def run_ops_def take_Suc_conv_app_nth)

lemma gateway_trace:
  assumes "length ops < 2 ^ 64 - 1"
  shows "authority_trace ops (\<lambda>j. \<lparr>waiting = approvals_before env ex msgs ops (with_store_and_clock s c) e j,
    performed = calls_before env ex msgs ops (with_store_and_clock s c) e j\<rparr>)" (is "authority_trace ops ?A")
proof -
  let ?g = "gateway_before env ex msgs ops (with_store_and_clock s c) e"
  have sim: "simulates j (fst (?g j)) (snd (snd (?g j))) (?A j)" if j: "j \<le> length ops" for j
  proof -
    have "length (take j ops) < 2 ^ 64 - 1" using assms j by simp
    moreover obtain g e1 calls where "?g j = (g, e1, calls)" by (metis surj_pair)
    ultimately obtain A where "simulates j (fst (?g j)) (snd (snd (?g j))) A"
      using simulates_run [of "take j ops" env ex msgs s c e] j by (auto simp: gateway_before_def min_absorb2)
    then show ?thesis by (simp add: simulates_def approvals_before_def calls_before_def)
  qed
  have "authority_step (ops ! j) (?A j) (?A (Suc j))" if j: "j < length ops" for j
  proof -
    obtain g e1 calls where g: "?g j = (g, e1, calls)" by (metis surj_pair)
    from sim [of j] j g have "simulates j g calls (?A j)" by simp
    from simulates_step [OF this, of "ops ! j" env ex msgs e1] assms j obtain B where
      B: "authority_step (ops ! j) (?A j) B" "case ?g (Suc j) of (g', e') \<Rightarrow> simulates (Suc j) g' (snd e') B"
      by (auto simp: gateway_before_Suc [OF j] g)
    then have "B = ?A (Suc j)"
      by (intro authority.equality) (simp_all add: simulates_def approvals_before_def calls_before_def split: prod.splits)
    with B(1) show ?thesis by simp
  qed
  moreover have "?A 0 = authority_start"
    by (simp add: authority_start_def approvals_before_def calls_before_def gateway_before_def run_ops_def with_store_and_clock_def)
  ultimately show ?thesis by (simp add: authority_trace_def)
qed


subsection \<open>A sample gateway\<close>

definition sample_env :: "(memory_store, manual_clock) gateway_env" where
  "sample_env = \<lparr>env_store = memory_ops, env_hasher = (\<lambda>_. 7), env_now = manual_now\<rparr>"

definition sample_gateway :: "(memory_store, manual_clock) gateway" where
  "sample_gateway = with_store_and_clock memory_default (manual_clock_new 100)"

definition sample_call :: "string \<Rightarrow> tool_call" where
  "sample_call tool = tool_call_new (AgentId (UserId ''@a:x'')) (RoomId ''!r:x'') tool ''q''"

definition sample_grant :: capability_grant where
  "sample_grant = allow_room (RoomId ''!r:x'') (allow_tool ''rm'' Review (allow_tool ''ls'' Auto
     (deny_all (AgentId (UserId ''@a:x'')))))"

lemma sample_classes [simp]:
  "classify sample_grant ''ls'' (RoomId ''!r:x'') = Auto" "classify sample_grant ''rm'' (RoomId ''!r:x'') = Review"
  by (simp_all add: classify_def sample_grant_def allow_room_def allow_tool_def deny_all_def permits_room_def
      permits_tool_def override_or_default_def)

lemma sample_budgets [simp]:
  "rate_limit_per_min sample_grant = 0" "daily_call_limit sample_grant = 0" "daily_token_budget sample_grant = 0"
  by (simp_all add: sample_grant_def allow_room_def allow_tool_def deny_all_def)

lemma sample_call_sel [simp]:
  "call_agent (sample_call t) = AgentId (UserId ''@a:x'')" "call_room (sample_call t) = RoomId ''!r:x''"
  "call_tool (sample_call t) = t" "args_summary (sample_call t) = ''q''"
  by (simp_all add: sample_call_def tool_call_new_def)

lemma handle_auto_unlimited:
  assumes "classify grant (call_tool call) (call_room call) = Auto" "rate_limit_per_min grant = 0"
    "daily_call_limit grant = 0" "daily_token_budget grant = 0"
  shows "\<exists>g' e' r. handle env (recording ex) grant call g (e, calls) = (g', (e', calls @ [call]), r)"
proof -
  obtain g' e' r where h: "handle env (recording ex) grant call g (e, calls) = (g', e', r)" by (metis surj_pair)
  then obtain g1 where "mediate_auto env (recording ex) call g1 (e, calls) = (g', e', r)"
    using assms by (auto simp: handle_def mediate_def Let_def is_rate_limited_def is_over_daily_budget_def
        is_over_token_budget_def)
  then have "snd e' = calls @ [call]" by (simp add: mediate_auto_log)
  with h show ?thesis by (metis prod.collapse)
qed

lemma handle_review_unlimited:
  assumes "classify grant (call_tool call) (call_room call) = Review" "rate_limit_per_min grant = 0"
    "daily_call_limit grant = 0" "daily_token_budget grant = 0"
  shows "\<exists>g' r cid. handle env ex grant call g e = (g', e, r) \<and>
    pending g' = pending g @ [\<lparr>request_id = next_request_id g, pending_call_id = cid, pending_call = call\<rparr>]"
  using assms
  by (auto simp: handle_def mediate_def Let_def is_rate_limited_def is_over_daily_budget_def is_over_token_budget_def
      mediate_review_def next_call_id_def note_call_def note_daily_call_def daily_entry_def gw_now_def
      split: prod.splits)

lemma sample_run:
  "\<exists>g e. run_ops sample_env (recording echo_execute) (\<lambda>_. []) [OpHandle sample_grant (sample_call ''ls'')]
     (sample_gateway, ((), [])) = (g, (e, [sample_call ''ls'']))"
  using handle_auto_unlimited [of sample_grant "sample_call ''ls''" sample_env echo_execute sample_gateway "()" "[]"]
  by (auto simp: run_ops_def)

subsection \<open>Properties\<close>

text \<open>C6: The gateway refines the abstract authority machine: after any run of operations from a new gateway,
  whatever the store, clock, hasher and executor, the calls its executor was given and the approvals it
  holds are those of a run of the abstract machine over the same operations.\<close>

theorem gateway_refines_authority:
  assumes "length ops < 2 ^ 64 - 1"
    and "run_ops env (recording ex) msgs ops (with_store_and_clock s c, (e, [])) = (g, (e', calls))"
  shows "\<exists>A. authority_run ops authority_start A \<and> performed A = calls \<and>
    waiting A = map (\<lambda>p. (request_id p, pending_call p)) (pending g)"
  using simulates_run [OF assms(1), of env ex msgs s c e] assms(2) by (auto simp: simulates_def)

theorem gateway_refines_authority_witness:
  "\<exists>g A. authority_run [OpHandle sample_grant (sample_call ''ls'')] authority_start A \<and>
     performed A = [sample_call ''ls''] \<and>
     waiting A = map (\<lambda>p. (request_id p, pending_call p)) (pending (g :: (memory_store, manual_clock) gateway))"
proof -
  from sample_run obtain g e where "run_ops sample_env (recording echo_execute) (\<lambda>_. [])
      [OpHandle sample_grant (sample_call ''ls'')] (sample_gateway, ((), [])) = (g, (e, [sample_call ''ls'']))"
    by blast
  from gateway_refines_authority [OF _ this [unfolded sample_gateway_def]] show ?thesis by auto
qed

text \<open>C3: No tool runs without authority: each operation of a run gives the executor at most one call, and that
  call is one the operation itself may run at once - submitted under a grant that permits its tool and
  its room and classed \<open>Auto\<close>, after any policy - or the operation approves the request id under which
  that very call has waited since an earlier operation, classed \<open>Review\<close>, queued it under this id.
  The id is gone afterwards, and the pending approvals have distinct ids.\<close>

theorem no_unauthorized_execution:
  assumes "length ops < 2 ^ 64 - 1" "j < length ops" "g = with_store_and_clock s c"
  shows "\<exists>run. calls_before env ex msgs ops g e (Suc j) = calls_before env ex msgs ops g e j @ run \<and>
      (run = [] \<or> (\<exists>call. run = [call] \<and> justified ops (approvals_before env ex msgs ops g e) j call)) \<and>
      distinct (map fst (approvals_before env ex msgs ops g e (Suc j)))"
  using authority_trace_justified [OF gateway_trace [OF assms(1), of env ex msgs s c e] assms(2)]
    authority_trace_queue [OF gateway_trace [OF assms(1), of env ex msgs s c e], of "Suc j"] assms(2,3)
  by simp

definition sample_ops :: "gw_op list" where
  "sample_ops = [OpHandle sample_grant (sample_call ''rm''), OpResolve (next_request_id sample_gateway) True ''@h:x'']"

theorem no_unauthorized_execution_witness:
  "calls_before sample_env echo_execute (\<lambda>_. []) sample_ops sample_gateway () 2 = [sample_call ''rm''] \<and>
   justified sample_ops (approvals_before sample_env echo_execute (\<lambda>_. []) sample_ops sample_gateway ()) 1
     (sample_call ''rm'')"
proof -
  let ?calls = "calls_before sample_env echo_execute (\<lambda>_. []) sample_ops sample_gateway ()"
  let ?queue = "approvals_before sample_env echo_execute (\<lambda>_. []) sample_ops sample_gateway ()"
  let ?before = "gateway_before sample_env echo_execute (\<lambda>_. []) sample_ops sample_gateway ()"
  have 0: "?before 0 = (sample_gateway, (), [])" by (simp add: gateway_before_def run_ops_def)
  from handle_review_unlimited [of sample_grant "sample_call ''rm''" sample_env "recording echo_execute" sample_gateway "((), [])"]
  obtain g r cid where h: "handle sample_env (recording echo_execute) sample_grant (sample_call ''rm'') sample_gateway ((), []) = (g, ((), []), r)"
    "pending g = [\<lparr>request_id = next_request_id sample_gateway, pending_call_id = cid, pending_call = sample_call ''rm''\<rparr>]"
    by (auto simp: sample_gateway_def with_store_and_clock_def)
  have 1: "?before (Suc 0) = (g, (), [])" using gateway_before_Suc [of 0 sample_ops sample_env echo_execute "\<lambda>_. []" sample_gateway "()"] 0 h(1) by (simp add: sample_ops_def)
  obtain g2 e2 r2 where x: "gw_resolve sample_env (recording echo_execute) (next_request_id sample_gateway) True ''@h:x'' g ((), []) = (g2, e2, r2)"
    by (metis surj_pair)
  have "snd e2 = [sample_call ''rm'']"
    using x h(2) by (auto simp: gw_resolve_def extract_Cons_code Let_def dest!: gw_execute_log split: prod.splits)
  then have 2: "?calls 2 = [sample_call ''rm'']"
    using gateway_before_Suc [of "Suc 0" sample_ops sample_env echo_execute "\<lambda>_. []" sample_gateway "()"] 1 x by (simp add: sample_ops_def calls_before_def eval_nat_numeral)
  have "length sample_ops < 2 ^ 64 - 1" "1 < length sample_ops" by (simp_all add: sample_ops_def)
  from no_unauthorized_execution [OF this sample_gateway_def, of sample_env echo_execute "\<lambda>_. []" "()"]
  obtain run where "?calls 2 = ?calls 1 @ run" "run = [] \<or> (\<exists>call. run = [call] \<and> justified sample_ops ?queue 1 call)"
    by (auto simp: eval_nat_numeral)
  moreover have "?calls 1 = []" using 1 by (simp add: calls_before_def)
  ultimately show ?thesis using 2 by auto
qed

end
