(* ===== verification/GatewayBudgets.thy ===== *)
theory GatewayBudgets
  imports GatewayRuns
begin

section \<open>The rate limit and the daily call budget\<close>

text \<open>
  The sliding-window limit holds for every run under a clock that never goes back, which the locale
  \<open>steady_clock\<close> states and both clocks of the source provide; the daily budget holds for every run
  within one day.  An admission is a call that passed all checks: it takes a call number and leaves
  its time in the list of recent calls.
\<close>

subsection \<open>Clocks that never go back\<close>

locale steady_clock =
  fixes now :: "'c \<Rightarrow> u64 \<times> 'c" and ok :: "'c \<Rightarrow> bool"
  assumes ok_now: "ok c \<Longrightarrow> ok (snd (now c))"
    and now_mono: "ok c \<Longrightarrow> fst (now c) \<le> fst (now (snd (now c)))"

text \<open>The clock after some number of readings.\<close>

definition clock_after :: "('c \<Rightarrow> u64 \<times> 'c) \<Rightarrow> 'c \<Rightarrow> 'c \<Rightarrow> bool" where
  "clock_after now c c' \<longleftrightarrow> (\<exists>n. c' = ((\<lambda>x. snd (now x)) ^^ n) c)"

lemma clock_after_refl [simp]: "clock_after now c c"
  by (auto simp: clock_after_def intro: exI [of _ 0])

lemma clock_after_now [simp]: "clock_after now c (snd (now c))"
  by (auto simp: clock_after_def intro: exI [of _ 1])

lemma clock_after_trans [trans]: "clock_after now a b \<Longrightarrow> clock_after now b c \<Longrightarrow> clock_after now a c"
  by (auto simp: clock_after_def funpow_add [unfolded comp_def fun_eq_iff, rule_format, symmetric])

context steady_clock
begin

lemma clock_after_ok: "clock_after now c c' \<Longrightarrow> ok c \<Longrightarrow> ok c' \<and> fst (now c) \<le> fst (now c')"
proof -
  assume "clock_after now c c'" "ok c"
  then obtain n where "c' = ((\<lambda>x. snd (now x)) ^^ n) c" by (auto simp: clock_after_def)
  moreover have "ok (((\<lambda>x. snd (now x)) ^^ n) c) \<and> fst (now c) \<le> fst (now (((\<lambda>x. snd (now x)) ^^ n) c))" for n
    by (induction n) (use \<open>ok c\<close> in \<open>auto simp: ok_now intro: order_trans [OF _ now_mono]\<close>)
  ultimately show ?thesis by blast
qed

end

interpretation manual: steady_clock manual_now "\<lambda>_. True"
  by unfold_locales (simp_all add: manual_now_def)

text \<open>The system clock is steady as long as the operating system's readings are.\<close>

definition reading :: "u64 option \<Rightarrow> u64" where
  "reading r = (case r of Some t \<Rightarrow> t | None \<Rightarrow> 0)"

definition system_steady :: "(nat \<Rightarrow> u64 option) \<Rightarrow> bool" where
  "system_steady c \<longleftrightarrow> (\<forall>i. reading (c i) \<le> reading (c (Suc i)))"

interpretation system: steady_clock system_now system_steady
  by unfold_locales (simp_all add: system_now_def system_steady_def reading_def)

subsection \<open>What each step does to the recent calls\<close>

text \<open>
  A quiet step only lets time pass and adds tokens: the recent calls stay, and within a day so do
  the numbers of calls.
\<close>

definition in_day :: "('c \<Rightarrow> u64 \<times> 'c) \<Rightarrow> u64 \<Rightarrow> 'c \<Rightarrow> bool" where
  "in_day now d c \<longleftrightarrow> (\<forall>c'. clock_after now c c' \<longrightarrow> fst (now c') div 86400 = d)"

definition calls_kept :: "u64 \<Rightarrow> ('s, 'c) gateway \<Rightarrow> ('s, 'c) gateway \<Rightarrow> bool" where
  "calls_kept d g g' \<longleftrightarrow>
     (\<forall>a m tok. daily_usage g a = Some (d, m, tok) \<longrightarrow> (\<exists>tok'. daily_usage g' a = Some (d, m, tok')))"

definition quiet :: "('s, 'c) gateway_env \<Rightarrow> ('s, 'c) gateway \<Rightarrow> ('s, 'c) gateway \<Rightarrow> bool" where
  "quiet env g g' \<longleftrightarrow> clock_after (env_now env) (gw_clock g) (gw_clock g') \<and> recent_calls g' = recent_calls g \<and>
     (\<forall>d. in_day (env_now env) d (gw_clock g) \<longrightarrow> calls_kept d g g')"

lemma in_day_after: "in_day now d c \<Longrightarrow> clock_after now c c' \<Longrightarrow> in_day now d c'"
  using clock_after_trans by (fastforce simp: in_day_def)

lemma in_day_now: "in_day now d c \<Longrightarrow> fst (now c) div 86400 = d"
  by (simp add: in_day_def)

lemma calls_kept_refl [simp]: "calls_kept d g g"
  by (simp add: calls_kept_def)

lemma calls_kept_trans: "calls_kept d g g' \<Longrightarrow> calls_kept d g' g'' \<Longrightarrow> calls_kept d g g''"
  unfolding calls_kept_def by blast

lemma quiet_refl [simp]: "quiet env g g"
  by (simp add: quiet_def)

lemma quiet_trans [trans]: "quiet env g g' \<Longrightarrow> quiet env g' g'' \<Longrightarrow> quiet env g g''"
  unfolding quiet_def by (metis calls_kept_trans clock_after_trans in_day_after)

lemma quiet_bookkeeping [simp]:
  "quiet env g (gw_audit env' a ev g)" "quiet env g (gw_count n ls k g)" "quiet env g (record_outcome oc g)"
  "quiet env g (gw_memory_op op result g)" "quiet env g (g\<lparr>gw_store := st\<rparr>)" "quiet env g (g\<lparr>pending := ps\<rparr>)"
  "quiet env g (g\<lparr>next_request_id := i\<rparr>)" "quiet env g (snd (next_call_id g))"
  by (simp_all add: quiet_def calls_kept_def gw_audit_def gw_count_def record_outcome_def gw_memory_op_def next_call_id_def)

text \<open>The entry of today: its number of calls is the recorded one if that is of today, else 0.\<close>

lemma daily_entry_today:
  assumes "in_day (env_now env) d (gw_clock g)" "daily_entry env a g = ((day, n, tok), g1)"
  shows "day = d" "daily_usage g1 = (daily_usage g)(a \<mapsto> (d, n, tok))"
    "daily_usage g a = Some (d, m, tok') \<Longrightarrow> n = m"
  using assms in_day_now [OF assms(1)]
  by (auto simp: daily_entry_def gw_now_def Let_def split: prod.splits if_splits option.splits)

lemma daily_entry_clock:
  "clock_after (env_now env) (gw_clock g) (gw_clock (snd (daily_entry env a g)))"
  "recent_calls (snd (daily_entry env a g)) = recent_calls g"
  by (simp_all add: daily_entry_def gw_now_def Let_def case_prod_unfold)

lemma quiet_daily_entry:
  assumes "daily_entry env a g = ((day, n, tok), g1)"
  shows "quiet env g (g1\<lparr>daily_usage := (daily_usage g1)(a \<mapsto> (day, n, tok'))\<rparr>)" "quiet env g g1"
proof -
  have c: "clock_after (env_now env) (gw_clock g) (gw_clock g1)" "recent_calls g1 = recent_calls g"
    using daily_entry_clock [where env = env and g = g and a = a] by (simp_all add: assms)
  have "calls_kept d g (g1\<lparr>daily_usage := (daily_usage g1)(a \<mapsto> (day, n, tok'))\<rparr>) \<and> calls_kept d g g1"
    if "in_day (env_now env) d (gw_clock g)" for d
    using daily_entry_today [OF that assms] by (auto simp: calls_kept_def)
  with c show "quiet env g (g1\<lparr>daily_usage := (daily_usage g1)(a \<mapsto> (day, n, tok'))\<rparr>)" "quiet env g g1"
    by (simp_all add: quiet_def)
qed

lemma quiet_daily [simp]:
  "quiet env g (snd (is_over_daily_budget env a limit g))" "quiet env g (snd (is_over_token_budget env a budget g))"
  "quiet env g (note_tokens env a n g)"
  by (auto simp: is_over_daily_budget_def is_over_token_budget_def note_tokens_def Let_def quiet_daily_entry
      split: prod.split)

lemma quiet_bookkeeping_trans:
  "quiet env g h \<Longrightarrow> quiet env g (gw_audit env' a ev h)" "quiet env g h \<Longrightarrow> quiet env g (gw_count n ls k h)"
  "quiet env g h \<Longrightarrow> quiet env g (record_outcome oc h)" "quiet env g h \<Longrightarrow> quiet env g (gw_memory_op op result h)"
  "quiet env g h \<Longrightarrow> quiet env g (note_tokens env a' n' h)"
  by (erule quiet_trans, simp)+

lemma quiet_execute: "gw_execute env ex call cid g e = (g', e', r) \<Longrightarrow> quiet env g g'"
  by (auto simp: gw_execute_def Let_def intro!: quiet_bookkeeping_trans split: prod.splits)

lemma quiet_mediate_auto: "mediate_auto env ex call g e = (g', e', r) \<Longrightarrow> quiet env g g'"
proof -
  assume "mediate_auto env ex call g e = (g', e', r)"
  then obtain cid ev r' where "gw_execute env ex call cid (gw_audit env (call_agent call) ev (snd (next_call_id g))) e = (g', e', r')"
    by (auto simp: mediate_auto_def Let_def next_call_id_def split: prod.splits)
  from quiet_execute [OF this] show ?thesis
    by (rule quiet_trans [rotated]) (intro quiet_bookkeeping_trans quiet_bookkeeping)
qed

lemma quiet_mediate_review: "mediate_review env call g = (g', r) \<Longrightarrow> quiet env g g'"
  by (auto simp: mediate_review_def Let_def next_call_id_def quiet_def calls_kept_def gw_audit_def record_outcome_def)

subsection \<open>The shape of a step\<close>

text \<open>
  A step admits no call, with or without a rate check, or it admits one: the checks pass and the
  call is noted for both limits.
\<close>

definition admission_step ::
  "('s, 'c) gateway_env \<Rightarrow> string \<Rightarrow> capability_grant \<Rightarrow> ('s, 'c) gateway \<Rightarrow> ('s, 'c) gateway \<Rightarrow> bool" where
  "admission_step env a grant g g' \<longleftrightarrow>
     (next_call_seq g' = next_call_seq g \<and>
        (\<exists>g0. quiet env g g0 \<and>
           (quiet env g0 g' \<or> quiet env (snd (is_rate_limited env a (rate_limit_per_min grant) g0)) g'))) \<or>
     (next_call_seq g' = next_call_seq g + 1 \<and>
        (\<exists>g0 g1 g2 g3. quiet env g g0 \<and> is_rate_limited env a (rate_limit_per_min grant) g0 = (False, g1) \<and>
           is_over_daily_budget env a (daily_call_limit grant) g1 = (False, g2) \<and> quiet env g2 g3 \<and>
           quiet env (note_daily_call env a (note_call env a g3)) g'))"

lemma budget_only_seq: "budget_only g g' \<Longrightarrow> next_call_seq g' = next_call_seq g"
  by (simp add: budget_only_def)

lemma note_tokens_seq [simp]: "next_call_seq (note_tokens env a n g) = next_call_seq g"
  using budget_only_checks(6) [of g env a n] by (rule budget_only_seq)

lemma execute_seq: "gw_execute env ex call cid g e = (g', e', r) \<Longrightarrow> next_call_seq g' = next_call_seq g"
  by (auto simp: gw_execute_def Let_def split: prod.splits)

lemma mediate_auto_seq: "mediate_auto env ex call g e = (g', e', r) \<Longrightarrow> next_call_seq g' = next_call_seq g + 1"
  by (auto simp: mediate_auto_def Let_def next_call_id_def dest!: execute_seq split: prod.splits)

lemma mediate_review_seq: "mediate_review env call g = (g', r) \<Longrightarrow> next_call_seq g' = next_call_seq g + 1"
  by (auto simp: mediate_review_def Let_def next_call_id_def)

lemma refuses_seq: "refuses env call g e (g', e', r) \<Longrightarrow> next_call_seq g' = next_call_seq g \<and> quiet env g g'"
  by (auto simp: refuses_def intro: quiet_bookkeeping_trans)

lemma mediate_admission_step:
  assumes "mediate env ex grant call class g e = (g', e', r)"
  shows "admission_step env (agent_as_str (call_agent call)) grant g g'"
proof -
  let ?a = "agent_as_str (call_agent call)"
  have rate: "next_call_seq h = next_call_seq g" "h = snd (is_rate_limited env ?a (rate_limit_per_min grant) g)"
    if "is_rate_limited env ?a (rate_limit_per_min grant) g = (l, h)" for l h
    using that budget_only_checks(1) [of g env ?a "rate_limit_per_min grant"] by (simp_all add: budget_only_def)
  have daily: "next_call_seq h' = next_call_seq h \<and> quiet env h h'"
    if "is_over_daily_budget env ?a n h = (l, h')" for n h l h'
    using that budget_only_checks(2) [of h env ?a n] quiet_daily(1) [of env h ?a n] by (simp add: budget_only_seq)
  have tokens: "next_call_seq h' = next_call_seq h \<and> quiet env h h'"
    if "is_over_token_budget env ?a n h = (l, h')" for n h l h'
    using that budget_only_checks(3) [of h env ?a n] quiet_daily(2) [of env h ?a n] by (simp add: budget_only_seq)
  have no: ?thesis if "is_rate_limited env ?a (rate_limit_per_min grant) g = (l, g1)" "quiet env g1 g'"
    "next_call_seq g' = next_call_seq g1" for l g1
    using that rate [OF that(1)] quiet_refl unfolding admission_step_def by metis
  from assms show ?thesis
  proof (cases rule: mediate_stages)
    case forbidden
    then show ?thesis using refuses_seq quiet_refl unfolding admission_step_def by metis
  next
    case (limited g1)
    then show ?thesis using no [OF limited(1)] refuses_seq [OF limited(2)] by simp
  next
    case (over g1 g2)
    then have "quiet env g1 g'" "next_call_seq g' = next_call_seq g1" using refuses_seq daily quiet_trans by metis+
    then show ?thesis using no [OF over(1)] by simp
  next
    case (spent g1 g2 g3)
    then have "quiet env g1 g'" "next_call_seq g' = next_call_seq g1"
      using refuses_seq daily tokens quiet_trans by metis+
    then show ?thesis using no [OF spent(1)] by simp
  next
    case (admitted g1 g2 g3 g4)
    have "next_call_seq g3 = next_call_seq g" "quiet env g2 g3"
      using admitted(1-3) rate(1) daily tokens by metis+
    then have "next_call_seq g4 = next_call_seq g" "quiet env g2 g3"
      using budget_only_checks(4) [of g3 env ?a] budget_only_checks(5) [of "note_call env ?a g3" env ?a]
      by (simp_all add: admitted(4) budget_only_seq)
    moreover from this have "next_call_seq g' = next_call_seq g + 1" "quiet env g4 g'"
      using admitted(5) mediate_auto_seq quiet_mediate_auto mediate_review_seq quiet_mediate_review
      by (metis prod.inject)+
    ultimately show ?thesis
      using admitted(1,2,4) quiet_refl [of env g] unfolding admission_step_def by metis
  qed
qed

lemma admission_step_after:
  assumes q: "quiet env g h" "next_call_seq h = next_call_seq g" and "admission_step env a grant h g'"
  shows "admission_step env a grant g g'"
  using assms(3) unfolding admission_step_def q(2) using quiet_trans [OF q(1)] by blast

text \<open>Every operation is quiet or mediates the call it submits.\<close>

lemma read_ops_quiet:
  "quiet env g (fst (list_tools env grant catalog g))" "next_call_seq (fst (list_tools env grant catalog g)) = next_call_seq g"
  "quiet env g (fst (list_resources env grant g))" "next_call_seq (fst (list_resources env grant g)) = next_call_seq g"
  "quiet env g (fst (read_resource env msgs grant uri g))" "next_call_seq (fst (read_resource env msgs grant uri g)) = next_call_seq g"
  "quiet env g (fst (remember env grant room key v g))" "next_call_seq (fst (remember env grant room key v g)) = next_call_seq g"
  "quiet env g (fst (recall env grant room key g))" "next_call_seq (fst (recall env grant room key g)) = next_call_seq g"
  "quiet env g (fst (recall_all env grant room g))" "next_call_seq (fst (recall_all env grant room g)) = next_call_seq g"
  "quiet env g (fst (forget env grant room key g))" "next_call_seq (fst (forget env grant room key g)) = next_call_seq g"
  by (simp_all add: list_tools_def list_resources_def read_resource_def remember_def recall_def recall_all_def
      forget_def memory_denied_def Let_def quiet_bookkeeping_trans split: option.split prod.split sum.split)

lemma execute_quiet_seq:
  "gw_execute env ex call cid g e = (g', e', r) \<Longrightarrow> quiet env g g' \<and> next_call_seq g' = next_call_seq g"
  by (blast dest: quiet_execute execute_seq)

lemma resolve_quiet:
  "gw_resolve env ex rid approved by g e = (g', e', r) \<Longrightarrow> quiet env g g' \<and> next_call_seq g' = next_call_seq g"
proof -
  assume res: "gw_resolve env ex rid approved by g e = (g', e', r)"
  have q: "quiet env g (gw_audit env a ev (g\<lparr>pending := ps\<rparr>))" for a ev ps
    by (simp add: quiet_def calls_kept_def gw_audit_def)
  show ?thesis
  proof (cases "List.extract (\<lambda>p. request_id p = rid) (pending g)")
    case None
    then show ?thesis using res by (simp add: gw_resolve_def)
  next
    case (Some x)
    show ?thesis
    proof (cases approved)
      case True
      then show ?thesis
        using res Some q by (auto simp: gw_resolve_def Let_def split: prod.splits dest!: execute_quiet_seq
            intro: quiet_trans)
    next
      case False
      then show ?thesis
        using res Some q by (auto simp: gw_resolve_def Let_def split: prod.splits intro: quiet_bookkeeping_trans)
    qed
  qed
qed

lemma run_op_admission:
  assumes "run_op env ex msgs op (g, e) = (g', e')"
  shows "(quiet env g g' \<and> next_call_seq g' = next_call_seq g) \<or>
    (\<exists>call grant. op_grant op = Some (call, grant) \<and>
       admission_step env (agent_as_str (call_agent call)) grant g g')"
proof (cases op)
  case (OpHandle grant call)
  then show ?thesis
    using assms by (auto simp: handle_def dest: mediate_admission_step split: prod.splits)
next
  case (OpManaged reg grant call)
  then show ?thesis
    using assms by (auto simp: handle_managed_def handle_def refuse_def dest: mediate_admission_step
        intro: quiet_bookkeeping_trans split: prod.splits if_splits)
next
  case (OpInRoom roster call)
  then show ?thesis
    using assms by (auto simp: handle_in_room_def unknown_agent_def dest: mediate_admission_step
        intro: quiet_bookkeeping_trans split: prod.splits option.splits)
next
  case (OpDelegated roster orch call)
  show ?thesis
  proof (cases "roster_contains roster orch \<and> grant_for roster (call_agent call) \<noteq> None")
    case True
    then obtain grant where grant: "grant_for roster (call_agent call) = Some grant" by blast
    let ?h = "gw_audit env (call_agent call) (''delegated_by '' @ agent_as_str orch @ '': '' @ call_tool call) g"
    from assms OpDelegated True grant obtain r where
      "mediate env ex grant call (classify grant (call_tool call) (call_room call)) ?h e = (g', e', r)"
      by (auto simp: handle_delegated_def Let_def split: prod.splits)
    from mediate_admission_step [OF this] have "admission_step env (agent_as_str (call_agent call)) grant g g'"
      by (rule admission_step_after [rotated 2]) simp_all
    then show ?thesis using OpDelegated True grant by simp
  next
    case False
    then show ?thesis
      using assms OpDelegated by (auto simp: handle_delegated_def unknown_agent_def
          intro: quiet_bookkeeping_trans split: option.splits if_splits prod.splits)
  qed
next
  case (OpPolicy grant policy call)
  then show ?thesis
    using assms by (auto simp: handle_with_policy_def refuse_def Let_def dest: mediate_admission_step
        intro: quiet_bookkeeping_trans split: prod.splits effect.splits if_splits)
next
  case (OpResolve rid approved "by")
  then show ?thesis using assms by (auto dest: resolve_quiet split: prod.splits)
qed (use assms read_ops_quiet in auto)


subsection \<open>The window invariant\<close>

text \<open>A window of 60 seconds up to a time, and what the limiter sees of it: its cutoff stops at 0.\<close>

definition in_window :: "nat \<Rightarrow> u64 \<Rightarrow> bool" where
  "in_window t ts \<longleftrightarrow> unat ts \<le> t \<and> t < unat ts + 60"

definition in_reach :: "u64 \<Rightarrow> u64 \<Rightarrow> bool" where
  "in_reach t ts \<longleftrightarrow> sat_sub t RATE_WINDOW_SECS < ts \<and> ts \<le> t"

definition times_of :: "string \<Rightarrow> ('s, 'c) gateway \<Rightarrow> u64 list" where
  "times_of agent g = map snd (filter (\<lambda>(a, _). a = agent) (recent_calls g))"

text \<open>
  With \<open>H\<close> the times of all admissions of an agent: none lies before the first reading \<open>lo\<close> or in the
  future, the recent calls hold all that the limiter can see, and it never sees more than \<open>L\<close>.
\<close>

definition rate_inv ::
  "('c \<Rightarrow> u64 \<times> 'c) \<Rightarrow> ('c \<Rightarrow> bool) \<Rightarrow> u64 \<Rightarrow> string \<Rightarrow> nat \<Rightarrow> ('s, 'c) gateway \<Rightarrow> u64 list \<Rightarrow> bool" where
  "rate_inv now ok lo agent L g H \<longleftrightarrow>
     (let T = fst (now (gw_clock g)) in
      ok (gw_clock g) \<and> lo \<le> T \<and> (\<forall>ts\<in>set H. lo \<le> ts \<and> ts \<le> T) \<and>
      (\<forall>cut. sat_sub T RATE_WINDOW_SECS \<le> cut \<longrightarrow> filter (\<lambda>ts. cut < ts) (times_of agent g) = filter (\<lambda>ts. cut < ts) H) \<and>
      (\<forall>t. length (filter (in_reach t) H) \<le> L))"

lemma sat_sub_mono: "a \<le> b \<Longrightarrow> sat_sub a c \<le> sat_sub b c"
proof -
  assume "a \<le> b"
  then have "unat (sat_sub a c) \<le> unat (sat_sub b c)"
    by (auto simp: sat_sub_def word_le_nat_alt word_less_nat_alt unat_sub not_less)
  then show ?thesis by (simp add: word_le_nat_alt)
qed

text \<open>After the epoch the cutoff is no restriction.\<close>

lemma in_window_reach:
  assumes "in_window t ts" "0 < ts"
  shows "in_reach (of_nat (min t (2 ^ 64 - 1))) ts"
proof -
  have ts: "0 < unat ts" "unat ts < 2 ^ 64" using assms(2) unsigned_less [of ts, where ?'a = nat] by (simp_all add: word_less_nat_alt)
  have t: "unat (of_nat (min t (2 ^ 64 - 1)) :: u64) = min t (2 ^ 64 - 1)"
    by (simp add: unat_of_nat)
  then show ?thesis
    using assms(1) ts
    by (auto simp: in_reach_def in_window_def word_less_nat_alt word_le_nat_alt sat_sub_def RATE_WINDOW_SECS_def unat_sub not_less)
qed

lemma times_of_rate_limited:
  "limit \<noteq> 0 \<Longrightarrow> times_of agent (snd (is_rate_limited env a limit g)) =
     filter (\<lambda>ts. sat_sub (fst (env_now env (gw_clock g))) RATE_WINDOW_SECS < ts) (times_of agent g)"
  by (simp add: is_rate_limited_def gw_now_def times_of_def Let_def case_prod_unfold filter_map comp_def)
    (metis (no_types, lifting) filter_filter conj_commute)

lemma not_rate_limited:
  assumes "limit \<noteq> 0" "\<not> fst (is_rate_limited env a limit g)"
  shows "length (filter (\<lambda>ts. sat_sub (fst (env_now env (gw_clock g))) RATE_WINDOW_SECS < ts) (times_of a g)) < unat limit"
proof -
  have "length (times_of a (snd (is_rate_limited env a limit g))) < unat limit"
    using assms by (auto simp: is_rate_limited_def times_of_def Let_def case_prod_unfold not_le)
  then show ?thesis using times_of_rate_limited [OF assms(1), of a env a g] by simp
qed

lemma clock_rate_limited: "clock_after (env_now env) (gw_clock g) (gw_clock (snd (is_rate_limited env a limit g)))"
  by (simp add: is_rate_limited_def gw_now_def Let_def case_prod_unfold)

lemma note_call_effect:
  "gw_clock (note_call env a g) = snd (env_now env (gw_clock g))"
  "times_of agent (note_call env a g) = times_of agent g @ (if a = agent then [fst (env_now env (gw_clock g))] else [])"
  by (simp_all add: note_call_def gw_now_def times_of_def Let_def case_prod_unfold)

context steady_clock
begin

lemma rate_inv_quiet:
  assumes "rate_inv now ok lo agent L g H" "clock_after now (gw_clock g) (gw_clock g')" "times_of agent g' = times_of agent g"
  shows "rate_inv now ok lo agent L g' H"
proof -
  have c: "ok (gw_clock g')" "fst (now (gw_clock g)) \<le> fst (now (gw_clock g'))"
    using clock_after_ok [OF assms(2)] assms(1) by (auto simp: rate_inv_def Let_def)
  have "filter (\<lambda>ts. cut < ts) (times_of agent g') = filter (\<lambda>ts. cut < ts) H"
    if "sat_sub (fst (now (gw_clock g'))) RATE_WINDOW_SECS \<le> cut" for cut
    using assms(1,3) order_trans [OF sat_sub_mono [OF c(2)] that] by (simp add: rate_inv_def Let_def)
  moreover have "lo \<le> fst (now (gw_clock g'))" "\<forall>ts\<in>set H. lo \<le> ts \<and> ts \<le> fst (now (gw_clock g'))"
    using assms(1) order_trans [OF _ c(2)] by (auto simp: rate_inv_def Let_def)
  ultimately show ?thesis using assms(1) c(1) by (simp add: rate_inv_def Let_def)
qed

lemma rate_inv_pruned:
  assumes "rate_inv now ok lo agent L g H" "env_now env = now" "limit \<noteq> 0"
  shows "rate_inv now ok lo agent L (snd (is_rate_limited env a limit g)) H"
proof -
  let ?g = "snd (is_rate_limited env a limit g)"
  have c: "ok (gw_clock ?g)" "fst (now (gw_clock g)) \<le> fst (now (gw_clock ?g))"
    using clock_after_ok [OF clock_rate_limited [of env g a limit, unfolded assms(2)]] assms(1)
    by (auto simp: rate_inv_def Let_def)
  have "filter (\<lambda>ts. cut < ts) (times_of agent ?g) = filter (\<lambda>ts. cut < ts) H"
    if cut: "sat_sub (fst (now (gw_clock ?g))) RATE_WINDOW_SECS \<le> cut" for cut
  proof -
    have le: "sat_sub (fst (now (gw_clock g))) RATE_WINDOW_SECS \<le> cut"
      using sat_sub_mono [OF c(2)] cut by (rule order_trans)
    have "filter (\<lambda>ts. cut < ts) (times_of agent ?g) = filter (\<lambda>ts. cut < ts) (times_of agent g)"
      unfolding times_of_rate_limited [OF assms(3)] filter_filter assms(2)
      using le by (intro filter_cong) auto
    then show ?thesis using assms(1) le by (simp add: rate_inv_def Let_def)
  qed
  moreover have "lo \<le> fst (now (gw_clock ?g))" "\<forall>ts\<in>set H. lo \<le> ts \<and> ts \<le> fst (now (gw_clock ?g))"
    using assms(1) order_trans [OF _ c(2)] by (auto simp: rate_inv_def Let_def)
  ultimately show ?thesis using assms(1) c(1) by (simp add: rate_inv_def Let_def)
qed

text \<open>Noting a call keeps the invariant if the window of an earlier check had room.\<close>

lemma rate_inv_note:
  assumes inv: "rate_inv now ok lo agent L g H" and "env_now env = now"
    and room: "a = agent \<Longrightarrow> length (filter (\<lambda>ts. sat_sub t1 RATE_WINDOW_SECS < ts) H) < L"
    and t1: "t1 \<le> fst (now (gw_clock g))"
  shows "rate_inv now ok lo agent L (note_call env a g) (H @ (if a = agent then [fst (now (gw_clock g))] else []))"
proof -
  let ?T = "fst (now (gw_clock g))" and ?g = "note_call env a g"
  have clock: "gw_clock ?g = snd (now (gw_clock g))" by (simp add: note_call_effect assms(2))
  have ok: "ok (gw_clock g)" using inv by (simp add: rate_inv_def Let_def)
  then have c: "ok (gw_clock ?g)" "?T \<le> fst (now (gw_clock ?g))"
    by (simp_all add: clock ok_now now_mono)
  have past: "lo \<le> ?T" "\<forall>ts\<in>set H. lo \<le> ts \<and> ts \<le> ?T" using inv by (simp_all add: rate_inv_def Let_def)
  have times: "filter (\<lambda>ts. cut < ts) (times_of agent ?g) =
      filter (\<lambda>ts. cut < ts) (H @ (if a = agent then [?T] else []))"
    if "sat_sub (fst (now (gw_clock ?g))) RATE_WINDOW_SECS \<le> cut" for cut
    using inv order_trans [OF sat_sub_mono [OF c(2)] that] by (simp add: rate_inv_def Let_def note_call_effect assms(2))
  have "length (filter (in_reach t) (H @ (if a = agent then [?T] else []))) \<le> L" for t
  proof (cases "a = agent \<and> in_reach t ?T")
    case False
    then show ?thesis using inv by (auto simp: rate_inv_def Let_def)
  next
    case True
    then have "?T \<le> t" by (simp add: in_reach_def)
    with t1 have "sat_sub t1 RATE_WINDOW_SECS \<le> sat_sub t RATE_WINDOW_SECS"
      by (intro sat_sub_mono) (rule order_trans)
    then have "filter (in_reach t) H = filter (in_reach t) (filter (\<lambda>ts. sat_sub t1 RATE_WINDOW_SECS < ts) H)"
      unfolding filter_filter by (intro filter_cong) (auto simp: in_reach_def)
    then have "length (filter (in_reach t) H) \<le> length (filter (\<lambda>ts. sat_sub t1 RATE_WINDOW_SECS < ts) H)"
      by (metis length_filter_le)
    then show ?thesis using True room by simp
  qed
  moreover have "lo \<le> fst (now (gw_clock ?g))"
      "\<forall>ts\<in>set (H @ (if a = agent then [?T] else [])). lo \<le> ts \<and> ts \<le> fst (now (gw_clock ?g))"
    using past order_trans [OF _ c(2)] c(2) by auto
  ultimately show ?thesis using c(1) times by (simp add: rate_inv_def Let_def)
qed

end


subsection \<open>Runs\<close>

text \<open>The times of the agent's admissions in a step.\<close>

definition admitted :: "string \<Rightarrow> ('s, 'c) gateway \<Rightarrow> ('s, 'c) gateway \<Rightarrow> u64 list" where
  "admitted agent g g' =
     (if next_call_seq g' = next_call_seq g then []
      else map snd (filter (\<lambda>(a, _). a = agent) [last (recent_calls g')]))"

text \<open>
  Runs from a gateway in which every grant the agent's calls are mediated under satisfies \<open>P\<close>, with
  the times of the agent's admissions.
\<close>

inductive admission_run ::
  "('s, 'c) gateway_env \<Rightarrow> 'e executor \<Rightarrow> (room_id \<Rightarrow> room_message list) \<Rightarrow> string \<Rightarrow> (capability_grant \<Rightarrow> bool)
     \<Rightarrow> ('s, 'c) gateway \<Rightarrow> ('s, 'c) gateway \<Rightarrow> 'e \<Rightarrow> u64 list \<Rightarrow> bool" for env ex msgs agent P g0 where
  start: "admission_run env ex msgs agent P g0 g0 e []"
| step: "admission_run env ex msgs agent P g0 g e H \<Longrightarrow>
     (\<And>call grant. op_grant op = Some (call, grant) \<Longrightarrow> agent_as_str (call_agent call) = agent \<Longrightarrow> P grant) \<Longrightarrow>
     run_op env ex msgs op (g, e) = (g', e') \<Longrightarrow>
     admission_run env ex msgs agent P g0 g' e' (H @ admitted agent g g')"

lemma recent_note_call:
  "recent_calls (note_call env a g) = recent_calls g @ [(a, fst (env_now env (gw_clock g)))]"
  by (simp add: note_call_def gw_now_def Let_def case_prod_unfold)

lemma note_daily_rest:
  "recent_calls (note_daily_call env a g) = recent_calls g"
  "clock_after (env_now env) (gw_clock g) (gw_clock (note_daily_call env a g))"
  using daily_entry_clock [where env = env and g = g and a = a]
  by (simp_all add: note_daily_call_def Let_def case_prod_unfold)

lemma seq_Suc_neq [simp]: "(s :: u64) + 1 \<noteq> s"
  by simp

lemma quiet_clock: "quiet env g g' \<Longrightarrow> clock_after (env_now env) (gw_clock g) (gw_clock g')"
  by (simp add: quiet_def)

lemma quiet_times: "quiet env g g' \<Longrightarrow> times_of agent g' = times_of agent g"
  by (simp add: quiet_def times_of_def)

context steady_clock
begin

lemma rate_inv_still:
  "rate_inv now ok lo agent L g H \<Longrightarrow> env_now env = now \<Longrightarrow> quiet env g g' \<Longrightarrow> rate_inv now ok lo agent L g' H"
  using rate_inv_quiet quiet_clock quiet_times by metis

lemma rate_inv_checked:
  "rate_inv now ok lo agent L g H \<Longrightarrow> env_now env = now \<Longrightarrow> rate_inv now ok lo agent L (snd (is_rate_limited env a limit g)) H"
  by (cases "limit = 0") (simp add: is_rate_limited_def, simp add: rate_inv_pruned)

lemma rate_inv_admission:
  assumes inv: "rate_inv now ok lo agent L g H" and now: "env_now env = now"
    and limit: "a = agent \<Longrightarrow> rate_limit_per_min grant \<noteq> 0 \<and> unat (rate_limit_per_min grant) \<le> L"
    and step: "admission_step env a grant g g'"
  shows "rate_inv now ok lo agent L g' (H @ admitted agent g g')"
  using step unfolding admission_step_def
proof (elim disjE conjE exE)
  fix g0 assume "next_call_seq g' = next_call_seq g" "quiet env g g0" "quiet env g0 g'"
  then show ?thesis using rate_inv_still [OF inv now] by (metis append_Nil2 admitted_def quiet_trans)
next
  fix g0 assume "next_call_seq g' = next_call_seq g" "quiet env g g0"
    "quiet env (snd (is_rate_limited env a (rate_limit_per_min grant) g0)) g'"
  then show ?thesis
    using rate_inv_still [OF rate_inv_checked [OF rate_inv_still [OF inv now] now] now] by (simp add: admitted_def)
next
  fix g0 g1 g2 g3
  assume seq: "next_call_seq g' = next_call_seq g + 1" and q0: "quiet env g g0"
    and r: "is_rate_limited env a (rate_limit_per_min grant) g0 = (False, g1)"
    and d: "is_over_daily_budget env a (daily_call_limit grant) g1 = (False, g2)" and q3: "quiet env g2 g3"
    and q': "quiet env (note_daily_call env a (note_call env a g3)) g'"
  let ?t = "fst (now (gw_clock g3))"
  have i0: "rate_inv now ok lo agent L g0 H" using rate_inv_still [OF inv now q0] .
  then have i1: "rate_inv now ok lo agent L g1 H"
    using rate_inv_checked [OF i0 now, of a "rate_limit_per_min grant"] r by simp
  have q2: "quiet env g1 g3" using quiet_daily(1) [of env g1 a "daily_call_limit grant"] d q3 quiet_trans by fastforce
  have i3: "rate_inv now ok lo agent L g3 H" using rate_inv_still [OF i1 now q2] .
  have room: "length (filter (\<lambda>ts. sat_sub (fst (now (gw_clock g0))) RATE_WINDOW_SECS < ts) H) < L" if "a = agent"
    using not_rate_limited [of "rate_limit_per_min grant" env a g0] r limit [OF that] i0 that
    by (simp add: now rate_inv_def Let_def)
  have "clock_after now (gw_clock g0) (gw_clock g1)"
    using clock_rate_limited [of env g0 a "rate_limit_per_min grant"] r by (simp add: now)
  also have "clock_after now (gw_clock g1) (gw_clock g3)"
    using quiet_clock [OF q2] by (simp add: now)
  finally have "clock_after now (gw_clock g0) (gw_clock g3)" .
  then have le: "fst (now (gw_clock g0)) \<le> ?t"
    using clock_after_ok i0 by (simp add: rate_inv_def Let_def)
  have noted: "rate_inv now ok lo agent L (note_call env a g3) (H @ (if a = agent then [?t] else []))"
    by (rule rate_inv_note [OF i3 now room le])
  have "clock_after now (gw_clock (note_call env a g3)) (gw_clock (note_daily_call env a (note_call env a g3)))"
      "times_of agent (note_daily_call env a (note_call env a g3)) = times_of agent (note_call env a g3)"
    using note_daily_rest [where env = env and a = a and g = "note_call env a g3"] by (simp_all add: now times_of_def)
  then have "rate_inv now ok lo agent L (note_daily_call env a (note_call env a g3)) (H @ (if a = agent then [?t] else []))"
    by (rule rate_inv_quiet [OF noted])
  then have "rate_inv now ok lo agent L g' (H @ (if a = agent then [?t] else []))"
    by (rule rate_inv_still [OF _ now q'])
  moreover have "admitted agent g g' = (if a = agent then [?t] else [])"
    using seq q' note_daily_rest [where env = env and a = a and g = "note_call env a g3"]
    by (simp add: admitted_def quiet_def recent_note_call now)
  ultimately show ?thesis by simp
qed

lemma admission_run_rate:
  assumes "admission_run env ex msgs agent
      (\<lambda>grant. rate_limit_per_min grant \<noteq> 0 \<and> unat (rate_limit_per_min grant) \<le> L) (with_store_and_clock s c) g e H"
    and "env_now env = now" "ok c"
  shows "rate_inv now ok (fst (now c)) agent L g H"
  using assms(1)
proof (induction rule: admission_run.induct)
  case (start e)
  then show ?case
    using assms(3) by (simp add: rate_inv_def with_store_and_clock_def times_of_def)
next
  case (step g e H op g' e')
  from run_op_admission [OF step.hyps(3)] show ?case
  proof (elim disjE exE conjE)
    assume "quiet env g g'" "next_call_seq g' = next_call_seq g"
    then show ?thesis using rate_inv_still [OF step.IH assms(2)] by (simp add: admitted_def)
  next
    fix call grant assume "op_grant op = Some (call, grant)" "admission_step env (agent_as_str (call_agent call)) grant g g'"
    then show ?thesis using rate_inv_admission [OF step.IH assms(2)] step.hyps(2) by blast
  qed
qed

lemma admission_run_window:
  assumes "admission_run env ex msgs agent
      (\<lambda>grant. rate_limit_per_min grant \<noteq> 0 \<and> unat (rate_limit_per_min grant) \<le> L) (with_store_and_clock s c) g e H"
    and "env_now env = now" "ok c" "0 < fst (now c)"
  shows "length (filter (in_window t) H) \<le> L"
proof -
  from admission_run_rate [OF assms(1-3)] assms(4)
  have H: "\<forall>ts\<in>set H. 0 < ts" "length (filter (in_reach (of_nat (min t (2 ^ 64 - 1)))) H) \<le> L"
    by (auto simp: rate_inv_def Let_def)
  have "filter (in_window t) H = filter (in_window t) (filter (in_reach (of_nat (min t (2 ^ 64 - 1)))) H)"
    unfolding filter_filter by (intro filter_cong) (use H(1) in_window_reach in auto)
  also have "length \<dots> \<le> length (filter (in_reach (of_nat (min t (2 ^ 64 - 1)))) H)" by (rule length_filter_le)
  finally show ?thesis using H(2) by simp
qed

end


subsection \<open>The daily budget\<close>

text \<open>Within day \<open>d\<close>, the counter of the agent is at least the number of its admissions.\<close>

definition daily_inv :: "('c \<Rightarrow> u64 \<times> 'c) \<Rightarrow> u64 \<Rightarrow> string \<Rightarrow> nat \<Rightarrow> ('s, 'c) gateway \<Rightarrow> nat \<Rightarrow> bool" where
  "daily_inv now d agent L g n \<longleftrightarrow> in_day now d (gw_clock g) \<and> n \<le> L \<and>
     (n \<noteq> 0 \<longrightarrow> (\<exists>m tok. daily_usage g agent = Some (d, m, tok) \<and> n \<le> unat m))"

lemma daily_inv_quiet: "daily_inv (env_now env) d agent L g n \<Longrightarrow> quiet env g g' \<Longrightarrow> daily_inv (env_now env) d agent L g' n"
  by (auto simp: daily_inv_def quiet_def calls_kept_def intro: in_day_after) (meson in_day_after | fastforce)+

lemma daily_inv_kept:
  "daily_inv now d agent L g n \<Longrightarrow> clock_after now (gw_clock g) (gw_clock g') \<Longrightarrow> daily_usage g' agent = daily_usage g agent \<Longrightarrow>
   daily_inv now d agent L g' n"
  by (auto simp: daily_inv_def intro: in_day_after)

lemma rate_limited_usage: "daily_usage (snd (is_rate_limited env a limit g)) = daily_usage g"
  by (simp add: is_rate_limited_def gw_now_def Let_def case_prod_unfold)

lemma note_call_usage: "daily_usage (note_call env a g) = daily_usage g"
  by (simp add: note_call_def gw_now_def Let_def case_prod_unfold)

lemma daily_inv_admission:
  assumes inv: "daily_inv (env_now env) d agent L g n"
    and limit: "a = agent \<Longrightarrow> daily_call_limit grant \<noteq> 0 \<and> unat (daily_call_limit grant) \<le> L"
    and step: "admission_step env a grant g g'"
  shows "daily_inv (env_now env) d agent L g' (n + length (admitted agent g g'))"
  using step unfolding admission_step_def
proof (elim disjE conjE exE)
  fix g0 assume "next_call_seq g' = next_call_seq g" "quiet env g g0" "quiet env g0 g'"
  then show ?thesis using daily_inv_quiet [OF inv] quiet_trans by (simp add: admitted_def) blast
next
  fix g0 assume s: "next_call_seq g' = next_call_seq g" and q: "quiet env g g0"
    "quiet env (snd (is_rate_limited env a (rate_limit_per_min grant) g0)) g'"
  have "daily_inv (env_now env) d agent L (snd (is_rate_limited env a (rate_limit_per_min grant) g0)) n"
    by (rule daily_inv_kept [OF daily_inv_quiet [OF inv q(1)] clock_rate_limited]) (simp add: rate_limited_usage)
  then show ?thesis using daily_inv_quiet [OF _ q(2)] s by (simp add: admitted_def)
next
  fix g0 g1 g2 g3
  assume seq: "next_call_seq g' = next_call_seq g + 1" and q0: "quiet env g g0"
    and r: "is_rate_limited env a (rate_limit_per_min grant) g0 = (False, g1)"
    and b: "is_over_daily_budget env a (daily_call_limit grant) g1 = (False, g2)" and q3: "quiet env g2 g3"
    and q': "quiet env (note_daily_call env a (note_call env a g3)) g'"
  let ?h = "note_call env a g3" and ?h' = "note_daily_call env a (note_call env a g3)"
  have g1: "daily_inv (env_now env) d agent L g1 n"
    using daily_inv_kept [OF daily_inv_quiet [OF inv q0] clock_rate_limited, of a "rate_limit_per_min grant"] r
    by (metis rate_limited_usage snd_conv)
  have g2: "daily_inv (env_now env) d agent L g2 n"
    using daily_inv_quiet [OF g1] quiet_daily(1) [of env g1 a "daily_call_limit grant"] b by simp
  have clock: "clock_after (env_now env) (gw_clock g3) (gw_clock ?h)" by (simp add: note_call_effect)
  have h: "daily_inv (env_now env) d agent L ?h n"
    by (rule daily_inv_kept [OF daily_inv_quiet [OF g2 q3] clock]) (simp add: note_call_usage)
  have adm: "admitted agent g g' = (if a = agent then [fst (env_now env (gw_clock g3))] else [])"
    using seq q' note_daily_rest [where env = env and a = a and g = ?h]
    by (simp add: admitted_def quiet_def recent_note_call)
  obtain day k tok h1 where e: "daily_entry env a ?h = ((day, k, tok), h1)" by (metis surj_pair)
  have day: "in_day (env_now env) d (gw_clock ?h)" using h by (simp add: daily_inv_def)
  have h': "daily_usage ?h' = (daily_usage ?h)(a \<mapsto> (d, k + 1, tok))"
    using daily_entry_today [OF day e] by (simp add: note_daily_call_def e Let_def)
  have "daily_inv (env_now env) d agent L ?h' (n + length (admitted agent g g'))"
  proof (cases "a = agent")
    case False
    then show ?thesis
      using daily_inv_kept [OF h note_daily_rest(2), of a] h' adm by simp
  next
    case True
    obtain day1 k1 tok1 where e1: "daily_entry env a g1 = ((day1, k1, tok1), g2)" and k1: "k1 < daily_call_limit grant"
      using b limit [OF True] by (auto simp: is_over_daily_budget_def split: prod.splits)
    have in1: "in_day (env_now env) d (gw_clock g1)" using g1 by (simp add: daily_inv_def)
    have "daily_usage g2 a = Some (d, k1, tok1)" using daily_entry_today [OF in1 e1] by simp
    then have "\<exists>t. daily_usage g3 a = Some (d, k1, t)"
      using q3 g2 by (auto simp: quiet_def daily_inv_def calls_kept_def)
    then have k: "k = k1" using daily_entry_today(3) [OF day e] by (auto simp: note_call_usage)
    have "n \<le> unat k1"
    proof (cases "n = 0")
      case False
      then obtain m t where "daily_usage g1 a = Some (d, m, t)" "n \<le> unat m"
        using g1 True by (auto simp: daily_inv_def)
      then show ?thesis using daily_entry_today(3) [OF in1 e1] by simp
    qed simp
    moreover have "unat (k1 + 1) = unat k1 + 1"
      using k1 unsigned_less [of "daily_call_limit grant", where ?'a = nat] by (simp add: word_less_nat_alt unat_word_ariths)
    moreover have "unat k1 < L" using k1 limit [OF True] by (simp add: word_less_nat_alt)
    moreover have "in_day (env_now env) d (gw_clock ?h')"
      using in_day_after [OF day note_daily_rest(2)] .
    ultimately show ?thesis using h' k True by (simp add: daily_inv_def adm)
  qed
  then show ?thesis by (rule daily_inv_quiet [OF _ q'])
qed

lemma admission_run_daily:
  assumes "admission_run env ex msgs agent
      (\<lambda>grant. daily_call_limit grant \<noteq> 0 \<and> unat (daily_call_limit grant) \<le> L) g0 g e H"
    and "in_day (env_now env) d (gw_clock g0)"
  shows "daily_inv (env_now env) d agent L g (length H)"
  using assms(1)
proof (induction rule: admission_run.induct)
  case (start e)
  then show ?case using assms(2) by (simp add: daily_inv_def)
next
  case (step g e H op g' e')
  from run_op_admission [OF step.hyps(3)] show ?case
  proof (elim disjE exE conjE)
    assume "quiet env g g'" "next_call_seq g' = next_call_seq g"
    then show ?thesis using daily_inv_quiet [OF step.IH] by (simp add: admitted_def)
  next
    fix call grant assume "op_grant op = Some (call, grant)" "admission_step env (agent_as_str (call_agent call)) grant g g'"
    then show ?thesis using daily_inv_admission [OF step.IH] step.hyps(2) by simp blast
  qed
qed


subsection \<open>A sample run\<close>

text \<open>One queued call under a grant of one call a minute and one a day, at time 100.\<close>

definition limited_grant :: capability_grant where
  "limited_grant = with_rate_limit 1 (with_daily_limit 1 sample_grant)"

definition limited_env :: "(memory_store, nat \<Rightarrow> u64 option) gateway_env" where
  "limited_env = \<lparr>env_store = memory_ops, env_hasher = (\<lambda>_. 7), env_now = system_now\<rparr>"

lemma limited_run:
  "\<exists>g e. admission_run limited_env echo_execute (\<lambda>_. []) ''@a:x'' (\<lambda>grant. grant = limited_grant)
     (gateway_new (\<lambda>_. Some 100)) g e [100]"
proof -
  let ?g = "gateway_new (\<lambda>_. Some 100)"
  let ?call = "sample_call ''rm''"
  obtain g' e' r where h: "handle limited_env echo_execute limited_grant ?call ?g () = (g', e', r)" by (metis surj_pair)
  have cl: "classify limited_grant ''rm'' (RoomId ''!r:x'') = Review"
    by (simp add: limited_grant_def with_rate_limit_def with_daily_limit_def sample_grant_def classify_def
        permits_room_def permits_tool_def override_or_default_def allow_room_def allow_tool_def deny_all_def)
  have limits: "rate_limit_per_min limited_grant = 1" "daily_call_limit limited_grant = 1" "daily_token_budget limited_grant = 0"
    by (simp_all add: limited_grant_def with_rate_limit_def with_daily_limit_def)
  have agent: "agent_as_str (AgentId (UserId ''@a:x'')) = ''@a:x''" by (simp add: agent_as_str_def)
  have clock: "env_now limited_env (\<lambda>_. Some t) = (t, \<lambda>_. Some t)" for t
    by (simp add: limited_env_def system_now_def)
  have "next_call_seq g' = 1" "recent_calls g' = [(''@a:x'', 100)]"
    using h by (auto simp: handle_def mediate_def cl limits agent Let_def is_rate_limited_def is_over_daily_budget_def
        is_over_token_budget_def daily_entry_def gw_now_def clock gateway_new_def with_store_and_clock_def note_call_def
        note_daily_call_def mediate_review_def next_call_id_def gw_audit_def record_outcome_def)
  then have "admitted ''@a:x'' ?g g' = [100]"
    by (simp add: admitted_def gateway_new_def with_store_and_clock_def)
  moreover have run: "run_op limited_env echo_execute (\<lambda>_. []) (OpHandle limited_grant ?call) (?g, ()) = (g', e')"
    using h by simp
  have "admission_run limited_env echo_execute (\<lambda>_. []) ''@a:x'' (\<lambda>grant. grant = limited_grant) ?g g' e'
      ([] @ admitted ''@a:x'' ?g g')"
    by (rule admission_run.step [OF admission_run.start _ run]) simp
  ultimately show ?thesis by auto
qed

lemma admission_run_mono:
  "admission_run env ex msgs agent P g0 g e H \<Longrightarrow> (\<And>grant. P grant \<Longrightarrow> Q grant) \<Longrightarrow> admission_run env ex msgs agent Q g0 g e H"
proof (induction rule: admission_run.induct)
  case (step g e H op g' e')
  show ?case by (rule admission_run.step [OF step.IH [OF step.prems] _ step.hyps(3)]) (use step in blast)+
qed (rule admission_run.start)

subsection \<open>Properties\<close>

text \<open>C28: The rate limit is a sliding window: under a system clock that first reads a time after the epoch and
  never goes back, an agent whose grants all have a limit of at most \<open>L\<close> calls a minute is admitted at
  most \<open>L\<close> times in any window of 60 seconds, whatever else the gateway does.\<close>

theorem rate_window_bound:
  assumes "admission_run env ex msgs agent
      (\<lambda>grant. rate_limit_per_min grant \<noteq> 0 \<and> unat (rate_limit_per_min grant) \<le> L) (with_store_and_clock s c) g e H"
    and "env_now env = system_now" "system_steady c" "0 < fst (system_now c)"
  shows "length (filter (in_window t) H) \<le> L"
  by (rule system.admission_run_window [OF assms])

theorem rate_window_bound_witness:
  "length (filter (in_window 130) [100]) \<le> 1"
proof -
  from limited_run obtain g e where "admission_run limited_env echo_execute (\<lambda>_. []) ''@a:x''
      (\<lambda>grant. grant = limited_grant) (gateway_new (\<lambda>_. Some 100)) g e [100]" by blast
  then have "admission_run limited_env echo_execute (\<lambda>_. []) ''@a:x''
      (\<lambda>grant. rate_limit_per_min grant \<noteq> 0 \<and> unat (rate_limit_per_min grant) \<le> 1)
      (with_store_and_clock memory_default (\<lambda>_. Some 100)) g e [100]"
    unfolding gateway_new_def
    by (rule admission_run_mono) (simp add: limited_grant_def with_rate_limit_def with_daily_limit_def)
  then show ?thesis
    by (rule rate_window_bound) (simp_all add: limited_env_def system_steady_def system_now_def)
qed

text \<open>C29: Within one day an agent whose grants all have a daily limit of at most \<open>L\<close> calls is admitted at
  most \<open>L\<close> times, whatever the gateway did before and does besides.\<close>

theorem daily_calls_bound:
  assumes "admission_run env ex msgs agent
      (\<lambda>grant. daily_call_limit grant \<noteq> 0 \<and> unat (daily_call_limit grant) \<le> L) g0 g e H"
    and "in_day (env_now env) d (gw_clock g0)"
  shows "length H \<le> L"
  using admission_run_daily [OF assms] by (simp add: daily_inv_def)

theorem daily_calls_bound_witness:
  "length [100 :: u64] \<le> 1"
proof -
  from limited_run obtain g e where "admission_run limited_env echo_execute (\<lambda>_. []) ''@a:x''
      (\<lambda>grant. grant = limited_grant) (gateway_new (\<lambda>_. Some 100)) g e [100]" by blast
  then have run: "admission_run limited_env echo_execute (\<lambda>_. []) ''@a:x''
      (\<lambda>grant. daily_call_limit grant \<noteq> 0 \<and> unat (daily_call_limit grant) \<le> 1)
      (gateway_new (\<lambda>_. Some 100)) g e [100]"
    by (rule admission_run_mono) (simp add: limited_grant_def with_rate_limit_def with_daily_limit_def)
  have "((\<lambda>x. snd (system_now x)) ^^ n) (\<lambda>_. Some 100) = (\<lambda>_. Some 100)" for n
    by (induction n) (simp_all add: system_now_def)
  then have "in_day (env_now limited_env) 0 (gw_clock (gateway_new (\<lambda>_. Some 100)))"
    by (auto simp: in_day_def clock_after_def limited_env_def gateway_new_def with_store_and_clock_def system_now_def)
  from daily_calls_bound [OF run this] show ?thesis .
qed

text \<open>At time 0, which the clock also reads when the system time lies before the epoch, the rate limiter
  is off: however many calls were recorded then, no limit is ever reached.\<close>

theorem rate_limit_off_at_epoch:
  assumes "fst (env_now env (gw_clock g)) = 0"
  shows "\<not> fst (is_rate_limited env agent limit (g\<lparr>recent_calls := replicate n (agent, 0)\<rparr>))"
  using assms by (auto simp: is_rate_limited_def gw_now_def Let_def case_prod_unfold sat_sub_def unat_eq_0)

theorem rate_limit_off_at_epoch_witness:
  "\<not> fst (is_rate_limited limited_env ''@a:x'' 1 ((gateway_new (\<lambda>_. None))\<lparr>recent_calls := replicate 50 (''@a:x'', 0)\<rparr>))"
  by (rule rate_limit_off_at_epoch)
    (simp add: limited_env_def gateway_new_def with_store_and_clock_def system_now_def)

end
