(* ===== verification/GatewaySessions.thy ===== *)
theory GatewaySessions
  imports GatewayRuns Replay
begin

section \<open>The audit trail of the gateway and its replay\<close>

text \<open>
  Over any store that keeps its contract, every operation extends an intact chain by at most three
  entries, and the entries that record an execution are as many as the calls the executor was
  given.  Replaying a session therefore accounts for every execution.
\<close>

subsection \<open>Texts\<close>

lemma audit_field_Nil [simp]: "audit_field []"
  by (simp add: audit_field_def)

lemma audit_field_Cons [simp]: "ch c < 128 \<Longrightarrow> audit_field (c # s) \<longleftrightarrow> c \<noteq> SEP \<and> audit_field s"
  by (auto simp: audit_field_def utf8_valid_Cons_ascii)

lemma audit_field_dec_simp [simp]: "audit_field (dec n)"
  by (rule audit_field_dec)

lemma SEP_neq_printable [simp]: "32 \<le> ch c \<Longrightarrow> c \<noteq> SEP"
  by auto

lemma audit_field_append_simp [simp]: "audit_field a \<Longrightarrow> audit_field b \<Longrightarrow> audit_field (a @ b)"
  by (rule audit_field_append)

definition call_text_ok :: "tool_call \<Rightarrow> bool" where
  "call_text_ok call \<longleftrightarrow> audit_field (agent_as_str (call_agent call)) \<and> audit_field (call_tool call) \<and>
     audit_field (room_as_str (call_room call))"

fun op_text_ok :: "gw_op \<Rightarrow> bool" where
  "op_text_ok (OpHandle grant call) = call_text_ok call"
| "op_text_ok (OpManaged reg grant call) = call_text_ok call"
| "op_text_ok (OpInRoom roster call) = call_text_ok call"
| "op_text_ok (OpDelegated roster orch call) = (call_text_ok call \<and> audit_field (agent_as_str orch))"
| "op_text_ok (OpPolicy grant policy call) = call_text_ok call"
| "op_text_ok (OpResolve rid approved decided_by) = audit_field decided_by"
| "op_text_ok (OpListTools grant catalog) = audit_field (agent_as_str (grant_agent grant))"
| "op_text_ok (OpListResources grant) = audit_field (agent_as_str (grant_agent grant))"
| "op_text_ok (OpReadResource grant uri) = (audit_field (agent_as_str (grant_agent grant)) \<and> audit_field uri)"
| "op_text_ok (OpRemember grant room key v) =
     (audit_field (agent_as_str (grant_agent grant)) \<and> audit_field (room_as_str room) \<and> audit_field key)"
| "op_text_ok (OpRecall grant room key) =
     (audit_field (agent_as_str (grant_agent grant)) \<and> audit_field (room_as_str room) \<and> audit_field key)"
| "op_text_ok (OpRecallAll grant room) = (audit_field (agent_as_str (grant_agent grant)) \<and> audit_field (room_as_str room))"
| "op_text_ok (OpForget grant room key) =
     (audit_field (agent_as_str (grant_agent grant)) \<and> audit_field (room_as_str room) \<and> audit_field key)"

subsection \<open>The chain and the executions\<close>

definition is_execution :: "string \<Rightarrow> bool" where
  "is_execution ev \<longleftrightarrow> starts_with ev ''executed:''"

definition executions_of :: "string \<Rightarrow> (string \<times> string) list \<Rightarrow> nat" where
  "executions_of a xs = length (filter (\<lambda>(b, ev). b = a \<and> is_execution ev) xs)"

definition calls_of :: "string \<Rightarrow> tool_call list \<Rightarrow> nat" where
  "calls_of a calls = length (filter (\<lambda>c. agent_as_str (call_agent c) = a) calls)"

text \<open>
  The store holds the chain of the decisions \<open>xs\<close>, whose executions are those of \<open>calls\<close>, and the
  queued calls can be logged.
\<close>

definition logged ::
  "'s store_ops \<Rightarrow> ('s \<Rightarrow> bool) \<Rightarrow> (bytes \<Rightarrow> u64) \<Rightarrow> ('s, 'c) gateway \<Rightarrow> tool_call list \<Rightarrow> (string \<times> string) list \<Rightarrow> bool" where
  "logged ops iv sip g calls xs \<longleftrightarrow>
     iv (gw_store g) \<and> audit_log_is ops (gw_store g) (audit_chain sip 0 xs) \<and>
     (\<forall>a. executions_of a xs = calls_of a calls) \<and> (\<forall>p\<in>set (pending g). call_text_ok (pending_call p))"

lemma executions_of_append [simp]: "executions_of a (xs @ ys) = executions_of a xs + executions_of a ys"
  by (simp add: executions_of_def)

lemma executions_of_Cons:
  "executions_of a ((b, ev) # ys) = (if b = a \<and> is_execution ev then 1 else 0) + executions_of a ys"
  by (simp add: executions_of_def)

lemma executions_of_Nil [simp]: "executions_of a [] = 0"
  by (simp add: executions_of_def)

lemma calls_of_append [simp]: "calls_of a (cs @ [c]) = calls_of a cs + (if agent_as_str (call_agent c) = a then 1 else 0)"
  by (simp add: calls_of_def)

lemma logged_same: "logged ops iv sip g calls xs \<Longrightarrow> gw_store g' = gw_store g \<Longrightarrow> pending g' = pending g \<Longrightarrow> logged ops iv sip g' calls xs"
  by (simp add: logged_def)

lemma gw_store_budget: "budget_only g g' \<Longrightarrow> gw_store g' = gw_store g"
  by (simp add: budget_only_def)

lemma not_execution:
  "\<not> is_execution (''denied_by_scope: '' @ s)" "\<not> is_execution (''rate_limited: '' @ s)"
  "\<not> is_execution (''daily_budget_exceeded: '' @ s)" "\<not> is_execution (''token_budget_exceeded: '' @ s)"
  "\<not> is_execution (''auto_allowed: '' @ s)" "\<not> is_execution (''approval_requested: '' @ s)"
  "\<not> is_execution (''unmanaged_agent: '' @ s)" "\<not> is_execution (''unknown_agent: '' @ s)"
  "\<not> is_execution (''delegated_by '' @ s)" "\<not> is_execution (''policy_denied: '' @ s)"
  "\<not> is_execution (''approved_by '' @ s)" "\<not> is_execution (''denied_by '' @ s)"
  "\<not> is_execution (''tools_listed: '' @ s)" "\<not> is_execution (''resources_listed: '' @ s)"
  "\<not> is_execution (''resource_denied: '' @ s)" "\<not> is_execution (''resource_read: '' @ s)"
  "\<not> is_execution (''memory_denied: '' @ s)" "\<not> is_execution (''memory_stored: '' @ s)"
  "\<not> is_execution (''memory_recalled: '' @ s)" "\<not> is_execution (''memory_forgotten: '' @ s)"
  by (simp_all add: is_execution_def starts_with_def)

lemma refusal_texts_ok:
  assumes "call_text_ok call" "ev \<in> set (refusal_texts call)"
  shows "audit_field ev" "\<not> is_execution ev"
proof -
  have "audit_field (call_tool call)" "audit_field (room_as_str (call_room call))"
    using assms(1) by (simp_all add: call_text_ok_def)
  then show "audit_field ev" using assms(2) by (auto simp: refusal_texts_def Let_def)
  show "\<not> is_execution ev" using assms(2) not_execution by (auto simp only: refusal_texts_def Let_def set_simps)
qed

text \<open>An extension of the log by at most \<open>k\<close> entries of one actor, and at least one if \<open>must\<close>.\<close>

definition log_step ::
  "'s store_ops \<Rightarrow> ('s \<Rightarrow> bool) \<Rightarrow> (bytes \<Rightarrow> u64) \<Rightarrow> nat \<Rightarrow> bool \<Rightarrow> string \<Rightarrow> ('s, 'c) gateway \<Rightarrow> tool_call list
     \<Rightarrow> ('s, 'c) gateway \<Rightarrow> tool_call list \<Rightarrow> bool" where
  "log_step ops iv sip k must a g calls g' calls' \<longleftrightarrow>
     (\<forall>xs. logged ops iv sip g calls xs \<longrightarrow> length xs + k \<le> audit_capacity \<longrightarrow>
        (\<exists>ys. logged ops iv sip g' calls' (xs @ ys) \<and> length ys \<le> k \<and> fst ` set ys \<subseteq> {a} \<and> (must \<longrightarrow> ys \<noteq> [])))"

lemma log_step_weaken:
  "log_step ops iv sip k must a g calls g' calls' \<Longrightarrow> k \<le> k' \<Longrightarrow> (must' \<Longrightarrow> must) \<Longrightarrow> log_step ops iv sip k' must' a g calls g' calls'"
  unfolding log_step_def by (meson add_left_mono order_trans)

lemma log_step_same:
  "gw_store g' = gw_store g \<Longrightarrow> pending g' = pending g \<Longrightarrow> log_step ops iv sip 0 False a g calls g' calls"
  unfolding log_step_def using logged_same by fastforce

lemma log_stepE:
  assumes "log_step ops iv sip k must a g calls g' calls'" "logged ops iv sip g calls xs" "length xs + k \<le> audit_capacity"
  obtains ys where "logged ops iv sip g' calls' (xs @ ys)" "length ys \<le> k" "fst ` set ys \<subseteq> {a}" "must \<longrightarrow> ys \<noteq> []"
  using assms unfolding log_step_def by blast

lemma log_step_trans:
  assumes "log_step ops iv sip k must a g calls g' calls'" "log_step ops iv sip k' must' a g' calls' g'' calls''"
  shows "log_step ops iv sip (k + k') (must \<or> must') a g calls g'' calls''"
  unfolding log_step_def
proof (intro allI impI)
  fix xs assume xs: "logged ops iv sip g calls xs" "length xs + (k + k') \<le> audit_capacity"
  have k: "length xs + k \<le> audit_capacity" using xs(2) by simp
  obtain ys where ys: "logged ops iv sip g' calls' (xs @ ys)" "length ys \<le> k" "fst ` set ys \<subseteq> {a}" "must \<longrightarrow> ys \<noteq> []"
    by (rule log_stepE [OF assms(1) xs(1) k])
  have k': "length (xs @ ys) + k' \<le> audit_capacity" using xs(2) ys(2) by simp
  obtain zs where "logged ops iv sip g'' calls'' ((xs @ ys) @ zs)" "length zs \<le> k'" "fst ` set zs \<subseteq> {a}" "must' \<longrightarrow> zs \<noteq> []"
    by (rule log_stepE [OF assms(2) ys(1) k'])
  with ys show "\<exists>ys. logged ops iv sip g'' calls'' (xs @ ys) \<and> length ys \<le> k + k' \<and> fst ` set ys \<subseteq> {a} \<and>
      (must \<or> must' \<longrightarrow> ys \<noteq> [])"
    by (intro exI [of _ "ys @ zs"]) auto
qed

lemma log_step_after:
  "log_step ops iv sip k must a g calls g' calls' \<Longrightarrow> gw_store g'' = gw_store g' \<Longrightarrow> pending g'' = pending g' \<Longrightarrow>
   log_step ops iv sip k must a g calls g'' calls'"
  using log_step_trans [OF _ log_step_same] by fastforce

lemma log_step_before:
  "log_step ops iv sip k must a g calls g' calls' \<Longrightarrow> gw_store g = gw_store g0 \<Longrightarrow> pending g = pending g0 \<Longrightarrow>
   log_step ops iv sip k must a g0 calls g' calls'"
  using log_step_trans [OF log_step_same] by fastforce

context kv_store
begin

lemma log_step_audit:
  assumes "env_store env = ops" "env_hasher env = sip" "audit_field (agent_as_str a)" "audit_field ev" "\<not> is_execution ev"
  shows "log_step ops inv sip 1 True (agent_as_str a) g calls (gw_audit env a ev g) calls"
  unfolding log_step_def
proof (intro allI impI)
  fix xs assume xs: "logged ops inv sip g calls xs" "length xs + 1 \<le> audit_capacity"
  then have "logged ops inv sip (gw_audit env a ev g) calls (xs @ [(agent_as_str a, ev)])"
    using assms audit_append_inv audit_append_chain
    by (simp add: logged_def gw_audit_def executions_of_Cons)
  then show "\<exists>ys. logged ops inv sip (gw_audit env a ev g) calls (xs @ ys) \<and> length ys \<le> 1 \<and>
      fst ` set ys \<subseteq> {agent_as_str a} \<and> (True \<longrightarrow> ys \<noteq> [])"
    by (intro exI [of _ "[(agent_as_str a, ev)]"]) simp
qed

text \<open>The execution of a call logs one entry and gives the executor one call.\<close>

lemma log_step_execute:
  assumes env: "env_store env = ops" "env_hasher env = sip" and ok: "call_text_ok call"
    and run: "gw_execute env (recording ex) call cid g (e, calls) = (g', e', r)"
  shows "log_step ops inv sip 1 True (agent_as_str (call_agent call)) g calls g' (snd e')"
  unfolding log_step_def
proof (intro allI impI)
  fix xs assume xs: "logged ops inv sip g calls xs" "length xs + 1 \<le> audit_capacity"
  obtain oc e1 where oc: "ex e call = (oc, e1)" by fastforce
  let ?a = "agent_as_str (call_agent call)"
  let ?ev = "''executed: '' @ call_tool call @ '' ok='' @ (if outcome_ok oc then ''true'' else ''false'') @
      '' tokens='' @ dec (unat (outcome_tokens oc))"
  have tok: "gw_store (note_tokens env ?a n g) = gw_store g" "pending (note_tokens env ?a n g) = pending g" for n
    using budget_only_checks(6) [of g env ?a n] by (simp_all add: budget_only_def)
  have g': "gw_store g' = audit_append ops sip ?a ?ev (gw_store g)" "pending g' = pending g" "snd e' = calls @ [call]"
    using run env by (auto simp: gw_execute_def recording_def oc Let_def gw_audit_def gw_count_def record_outcome_def tok)
  have "audit_field ?a" "audit_field ?ev" "is_execution ?ev"
    using ok by (auto simp: call_text_ok_def is_execution_def starts_with_def)
  then have "logged ops inv sip g' (snd e') (xs @ [(?a, ?ev)])"
    using xs audit_append_inv audit_append_chain by (simp add: logged_def g' executions_of_Cons)
  then show "\<exists>ys. logged ops inv sip g' (snd e') (xs @ ys) \<and> length ys \<le> 1 \<and> fst ` set ys \<subseteq> {?a} \<and> (True \<longrightarrow> ys \<noteq> [])"
    by (intro exI [of _ "[(?a, ?ev)]"]) simp
qed

lemma log_step_mediate:
  assumes env: "env_store env = ops" "env_hasher env = sip" and ok: "call_text_ok call"
    and run: "mediate env (recording ex) grant call class g (e, calls) = (g', e', r)"
  shows "log_step ops inv sip 2 True (agent_as_str (call_agent call)) g calls g' (snd e')"
  using run
proof (cases rule: mediate_cases)
  case (refused ev oc reason g1)
  have "log_step ops inv sip 1 True (agent_as_str (call_agent call)) g1 calls (gw_audit env (call_agent call) ev g1) calls"
    using ok refusal_texts_ok [OF ok refused(2)] by (intro log_step_audit [OF env]) (simp_all add: call_text_ok_def)
  from log_step_before [OF this gw_store_budget [OF refused(1)] conjunct1 [OF budget_only_ids [OF refused(1)]]]
  have "log_step ops inv sip 1 True (agent_as_str (call_agent call)) g calls g' calls"
    by (rule log_step_after) (simp_all add: refused(3))
  then have "log_step ops inv sip 2 True (agent_as_str (call_agent call)) g calls g' calls"
    by (rule log_step_weaken) simp_all
  then show ?thesis using refused(4) by simp
next
  case (auto g1)
  let ?a = "agent_as_str (call_agent call)"
  let ?g2 = "gw_audit env (call_agent call) (''auto_allowed: '' @ call_tool call) (snd (next_call_id g1))"
  obtain cid r' where x: "gw_execute env (recording ex) call cid ?g2 (e, calls) = (g', e', r')"
    using auto(3) by (auto simp: mediate_auto_def Let_def next_call_id_def split: prod.splits)
  have "log_step ops inv sip 1 True ?a (snd (next_call_id g1)) calls ?g2 calls"
    using ok not_execution(5) by (intro log_step_audit [OF env]) (simp_all add: call_text_ok_def)
  from log_step_trans [OF this log_step_execute [OF env ok x]]
  have "log_step ops inv sip 2 True ?a (snd (next_call_id g1)) calls g' (snd e')"
    by (simp add: numeral_2_eq_2)
  then show ?thesis
    by (rule log_step_before) (simp_all add: next_call_id_def budget_only_ids [OF auto(1)] gw_store_budget [OF auto(1)])
next
  case (review g1)
  let ?a = "agent_as_str (call_agent call)"
  let ?g2 = "gw_audit env (call_agent call) (''approval_requested: '' @ call_tool call)
    ((snd (next_call_id g1))\<lparr>next_request_id := next_request_id g1 + 1\<rparr>)"
  obtain cid where g': "gw_store g' = gw_store ?g2"
      "pending g' = pending ?g2 @ [\<lparr>request_id = next_request_id g1, pending_call_id = cid, pending_call = call\<rparr>]"
    using review(3) by (auto simp: mediate_review_def Let_def next_call_id_def gw_audit_def record_outcome_def)
  have "log_step ops inv sip 1 True ?a ((snd (next_call_id g1))\<lparr>next_request_id := next_request_id g1 + 1\<rparr>) calls ?g2 calls"
    using ok not_execution(6) by (intro log_step_audit [OF env]) (simp_all add: call_text_ok_def)
  then have 1: "log_step ops inv sip 1 True ?a g calls ?g2 calls"
    by (rule log_step_before) (simp_all add: next_call_id_def budget_only_ids [OF review(1)] gw_store_budget [OF review(1)])
  have "log_step ops inv sip 0 False ?a ?g2 calls g' calls"
    unfolding log_step_def using ok by (auto simp: logged_def g' intro!: exI [of _ "[]"])
  from log_step_weaken [OF log_step_trans [OF 1 this], of 2 True] review(4) show ?thesis by simp
qed

lemma log_step_logged:
  "(\<And>xs. logged ops inv sip g calls xs \<Longrightarrow> log_step ops inv sip k must a g calls g' calls') \<Longrightarrow>
   log_step ops inv sip k must a g calls g' calls'"
  unfolding log_step_def by blast

text \<open>An audit entry after a change of the store outside the log, and before any bookkeeping.\<close>

lemma log_step_audited:
  assumes env: "env_store env = ops" "env_hasher env = sip" and "audit_field (agent_as_str a)" "audit_field ev" "\<not> is_execution ev"
    and "gw_store g' = gw_store (gw_audit env a ev g)" "pending g' = pending g"
  shows "log_step ops inv sip 1 True (agent_as_str a) g calls g' calls"
  by (rule log_step_after [OF log_step_audit [OF assms(1-5)]]) (simp_all add: assms(6,7))

lemma log_step_memory:
  assumes "\<And>s es. inv s \<Longrightarrow> inv (f s) \<and> audit_log_is ops (f s) es = audit_log_is ops s es"
  shows "log_step ops inv sip 0 False a g calls (g\<lparr>gw_store := f (gw_store g)\<rparr>) calls"
  unfolding log_step_def using assms by (auto simp: logged_def intro!: exI [of _ "[]"])

lemma log_step_resolve:
  assumes env: "env_store env = ops" "env_hasher env = sip" and "by": "audit_field decided_by"
    and run: "gw_resolve env (recording ex) rid approved decided_by g (e, calls) = (g', e', r)"
  shows "\<exists>a. log_step ops inv sip 2 (rid \<in> request_id ` set (pending g)) a g calls g' (snd e')"
proof (cases "List.extract (\<lambda>p. request_id p = rid) (pending g)")
  case None
  then have "rid \<notin> request_id ` set (pending g)" by (auto simp: extract_None_iff)
  moreover have "g' = g" "e' = (e, calls)" using run None by (simp_all add: gw_resolve_def)
  ultimately show ?thesis using log_step_weaken [OF log_step_same [of g g]] by auto
next
  case (Some x)
  obtain before p after where x: "x = (before, p, after)" by (cases x) auto
  let ?call = "pending_call p" and ?g1 = "g\<lparr>pending := before @ after\<rparr>"
  let ?a = "agent_as_str (call_agent ?call)"
  have split: "pending g = before @ p # after" using Some x extract_SomeE by fastforce
  have removed: "log_step ops inv sip 0 False ?a g calls ?g1 calls"
    unfolding log_step_def by (auto simp: logged_def split intro!: exI [of _ "[]"])
  have "log_step ops inv sip 2 True ?a g calls g' (snd e')"
  proof (rule log_step_logged)
    fix xs assume "logged ops inv sip g calls xs"
    then have ok: "call_text_ok ?call" by (simp add: logged_def split)
    then have f: "audit_field ?a" "audit_field (call_tool ?call)" by (simp_all add: call_text_ok_def)
    show ?thesis
    proof (cases approved)
      case True
      let ?g2 = "gw_audit env (call_agent ?call) (''approved_by '' @ decided_by @ '': '' @ call_tool ?call) ?g1"
      obtain r' where x: "gw_execute env (recording ex) ?call (pending_call_id p) ?g2 (e, calls) = (g', e', r')"
        using run Some x True by (auto simp: gw_resolve_def Let_def split: prod.splits)
      have "log_step ops inv sip 1 True ?a ?g1 calls ?g2 calls"
        using f "by" not_execution(11) by (intro log_step_audit [OF env]) simp_all
      from log_step_trans [OF removed log_step_trans [OF this log_step_execute [OF env ok x]]]
      show ?thesis by (simp add: numeral_2_eq_2)
    next
      case False
      have g': "gw_store g' = gw_store (gw_audit env (call_agent ?call) (''denied_by '' @ decided_by @ '': '' @ call_tool ?call) ?g1)"
          "pending g' = pending ?g1" "e' = (e, calls)"
        using run Some x False by (auto simp: gw_resolve_def Let_def)
      have "log_step ops inv sip 1 True ?a ?g1 calls g' calls"
        using f "by" not_execution(12) g' by (intro log_step_audited [OF env]) simp_all
      from log_step_weaken [OF log_step_trans [OF removed this], of 2 True] show ?thesis by (simp add: g')
    qed
  qed
  then show ?thesis using log_step_weaken by blast
qed

end

text \<open>The operations that leave an audit entry: all but the resolution of an unknown request and the read of something that is no room resource.\<close>

definition must_audit :: "('s, 'c) gateway \<Rightarrow> gw_op \<Rightarrow> bool" where
  "must_audit g op =
     (case op of
        OpResolve rid _ _ \<Rightarrow> rid \<in> request_id ` set (pending g)
      | OpReadResource _ uri \<Rightarrow> room_from_uri uri \<noteq> None
      | _ \<Rightarrow> True)"

lemmas memory_op_defs = remember_def recall_def recall_all_def forget_def memory_denied_def

context kv_store
begin

lemma log_step_reads:
  fixes g :: "('s, 'c) gateway"
  assumes env: "env_store env = ops" "env_hasher env = sip" and a: "audit_field (agent_as_str (grant_agent grant))"
  shows "log_step ops inv sip 1 True (agent_as_str (grant_agent grant)) g calls (fst (list_tools env grant catalog g)) calls"
    and "log_step ops inv sip 1 True (agent_as_str (grant_agent grant)) g calls (fst (list_resources env grant g)) calls"
    and "audit_field uri \<Longrightarrow> log_step ops inv sip 1 (room_from_uri uri \<noteq> None) (agent_as_str (grant_agent grant)) g calls
      (fst (read_resource env msgs grant uri g)) calls"
proof -
  show "log_step ops inv sip 1 True (agent_as_str (grant_agent grant)) g calls (fst (list_tools env grant catalog g)) calls"
    using not_execution(13) [of "dec (length (list_for catalog grant))"]
    by (intro log_step_audited [OF env a, where ev = "''tools_listed: '' @ dec (length (list_for catalog grant))"])
      (simp_all add: list_tools_def Let_def)
  show "log_step ops inv sip 1 True (agent_as_str (grant_agent grant)) g calls (fst (list_resources env grant g)) calls"
    using not_execution(14) [of "dec (length (accessible_rooms grant))"]
    by (intro log_step_audited [OF env a, where ev = "''resources_listed: '' @ dec (length (accessible_rooms grant))"])
      (simp_all add: list_resources_def Let_def)
  assume uri: "audit_field uri"
  show "log_step ops inv sip 1 (room_from_uri uri \<noteq> None) (agent_as_str (grant_agent grant)) g calls
      (fst (read_resource env msgs grant uri g)) calls"
  proof (cases "room_from_uri uri")
    case None
    have "log_step ops inv sip 0 False (agent_as_str (grant_agent grant)) g calls (fst (read_resource env msgs grant uri g)) calls"
      by (rule log_step_same) (simp_all add: read_resource_def None)
    then show ?thesis by (rule log_step_weaken) (simp_all add: None)
  next
    case (Some room)
    show ?thesis
    proof (cases "permits_room grant room")
      case True
      have "log_step ops inv sip 1 True (agent_as_str (grant_agent grant)) g calls (fst (read_resource env msgs grant uri g)) calls"
        using not_execution(16) [of uri] uri
        by (intro log_step_audited [OF env a]) (simp_all add: read_resource_def Some True)
      then show ?thesis by (simp add: Some)
    next
      case False
      have "log_step ops inv sip 1 True (agent_as_str (grant_agent grant)) g calls (fst (read_resource env msgs grant uri g)) calls"
        using not_execution(15) [of uri] uri
        by (intro log_step_audited [OF env a]) (simp_all add: read_resource_def Some False)
      then show ?thesis by (simp add: Some)
    qed
  qed
qed

lemma log_step_denied:
  assumes env: "env_store env = ops" "env_hasher env = sip"
    and "audit_field (agent_as_str (grant_agent grant))" "audit_field (room_as_str room)" "audit_field key"
  shows "log_step ops inv sip 1 True (agent_as_str (grant_agent grant)) g calls (fst (memory_denied env grant room key op g)) calls"
  using not_execution(17) [of "room_as_str room @ ''/'' @ key"] assms
  by (intro log_step_audited [OF env]) (simp_all add: memory_denied_def)

lemma log_step_memory_ops:
  assumes env: "env_store env = ops" "env_hasher env = sip"
    and a: "audit_field (agent_as_str (grant_agent grant))" "audit_field (room_as_str room)"
  shows "audit_field key \<Longrightarrow> log_step ops inv sip 1 True (agent_as_str (grant_agent grant)) g calls (fst (remember env grant room key v g)) calls"
    and "audit_field key \<Longrightarrow> log_step ops inv sip 1 True (agent_as_str (grant_agent grant)) g calls (fst (recall env grant room key g)) calls"
    and "log_step ops inv sip 1 True (agent_as_str (grant_agent grant)) g calls (fst (recall_all env grant room g)) calls"
    and "audit_field key \<Longrightarrow> log_step ops inv sip 1 True (agent_as_str (grant_agent grant)) g calls (fst (forget env grant room key g)) calls"
proof -
  let ?a = "agent_as_str (grant_agent grant)"
  have changed: "log_step ops inv sip 1 True ?a g calls g' calls"
    if "\<And>s es. inv s \<Longrightarrow> inv (f s) \<and> audit_log_is ops (f s) es = audit_log_is ops s es" "audit_field ev" "\<not> is_execution ev"
      "gw_store g' = gw_store (gw_audit env (grant_agent grant) ev (g\<lparr>gw_store := f (gw_store g)\<rparr>))" "pending g' = pending g" for f ev g'
  proof -
    have "log_step ops inv sip 1 True ?a (g\<lparr>gw_store := f (gw_store g)\<rparr>) calls g' calls"
      using that(2-) by (intro log_step_audited [OF env a(1)]) simp_all
    from log_step_trans [OF log_step_memory [OF that(1)] this] show ?thesis by simp
  qed
  show "log_step ops inv sip 1 True ?a g calls (fst (recall_all env grant room g)) calls"
  proof (cases "permits_room grant room")
    case False
    then show ?thesis using log_step_denied [OF env a, of "''*''"] by (simp add: recall_all_def)
  next
    case True
    then show ?thesis
      using a not_execution(19) by (intro log_step_audited [OF env]) (simp_all add: recall_all_def Let_def)
  qed
  assume key: "audit_field key"
  then have sep: "SEP \<notin> set key" by (simp add: audit_field_def)
  show "log_step ops inv sip 1 True ?a g calls (fst (recall env grant room key g)) calls"
  proof (cases "permits_room grant room")
    case False
    then show ?thesis using log_step_denied [OF env a key] by (simp add: recall_def)
  next
    case True
    then show ?thesis
      using a key not_execution(19) by (intro log_step_audited [OF env]) (simp_all add: recall_def)
  qed
  show "log_step ops inv sip 1 True ?a g calls (fst (forget env grant room key g)) calls"
  proof (cases "permits_room grant room")
    case False
    then show ?thesis using log_step_denied [OF env a key] by (simp add: forget_def)
  next
    case True
    then show ?thesis
      using a key not_execution(20) am_inv(2) am_audit_log(2)
      by (intro changed [of "am_forget ops (grant_agent grant) room key"]) (simp_all add: forget_def env)
  qed
  show "log_step ops inv sip 1 True ?a g calls (fst (remember env grant room key v g)) calls"
  proof (cases "permits_room grant room")
    case False
    then show ?thesis using log_step_denied [OF env a key] by (simp add: remember_def)
  next
    case True
    have "am_store ops (grant_agent grant) room key v (gw_store g) =
        (fst (am_store ops (grant_agent grant) room key v (gw_store g)), Inr ())"
      using sep by (simp add: am_store_def check_key_def)
    with True show ?thesis
      using a key not_execution(18)
      by (intro changed [of "\<lambda>s. fst (st_put ops cf_AGENT_MEMORY (item_key (grant_agent grant) room key) (as_bytes v) s)"])
        (simp_all add: remember_def env am_store_def check_key_def sep put_inv audit_log_frame)
  qed
qed

end


context kv_store
begin

lemma log_step_run_op:
  assumes env: "env_store env = ops" "env_hasher env = sip" and ok: "op_text_ok op"
    and run: "run_op env (recording ex) msgs op (g, (e, calls)) = (g', e')"
  shows "\<exists>a. log_step ops inv sip 3 (must_audit g op) a g calls g' (snd e')"
proof -
  have one: "\<exists>a. log_step ops inv sip 3 (must_audit g op) a g calls g' (snd e')"
    if "log_step ops inv sip 1 must a g calls g' calls" "must_audit g op \<Longrightarrow> must" "snd e' = calls" for a must
    using log_step_weaken [OF that(1), of 3 "must_audit g op"] that(2,3) by auto
  have mediated: "\<exists>a. log_step ops inv sip 3 (must_audit g op) a g calls g' (snd e')"
    if "mediate env (recording ex) grant call cl g (e, calls) = (g', e', r)" "call_text_ok call" for grant call cl r
    using log_step_weaken [OF log_step_mediate [OF env that(2,1)], of 3 "must_audit g op"] by auto
  have refused: "\<exists>a. log_step ops inv sip 3 (must_audit g op) a g calls g' (snd e')"
    if "g' = record_outcome oc (gw_audit env a ev g)" "audit_field (agent_as_str a)" "audit_field ev" "\<not> is_execution ev"
      "snd e' = calls" for a ev oc
    using that by (intro one [OF log_step_audited [OF env, of a ev]]) simp_all
  show ?thesis
  proof (cases op)
    case (OpHandle grant call)
    then show ?thesis using run ok mediated by (auto simp: handle_def split: prod.splits)
  next
    case (OpManaged reg grant call)
    show ?thesis
    proof (cases "as_manages reg (agent_as_user_id (call_agent call))")
      case True
      then show ?thesis using OpManaged run ok mediated by (auto simp: handle_managed_def handle_def split: prod.splits)
    next
      case False
      then show ?thesis
        using OpManaged run ok not_execution(7)
        by (intro refused [of "''unmanaged''" "call_agent call" "''unmanaged_agent: '' @ agent_as_str (call_agent call)"])
          (auto simp: handle_managed_def refuse_def call_text_ok_def)
    qed
  next
    case (OpInRoom roster call)
    show ?thesis
    proof (cases "grant_for roster (call_agent call)")
      case None
      then show ?thesis
        using OpInRoom run ok not_execution(8)
        by (intro refused [of "''unknown_agent''" "call_agent call" "''unknown_agent: '' @ agent_as_str (call_agent call)"])
          (auto simp: handle_in_room_def unknown_agent_def call_text_ok_def)
    next
      case (Some grant)
      then show ?thesis using OpInRoom run ok mediated by (auto simp: handle_in_room_def split: prod.splits)
    qed
  next
    case (OpDelegated roster orch call)
    have tx: "call_text_ok call" "audit_field (agent_as_str orch)" using ok OpDelegated by simp_all
    show ?thesis
    proof (cases "roster_contains roster orch")
      case False
      then show ?thesis
        using OpDelegated run tx not_execution(8)
        by (intro refused [of "''unknown_agent''" orch "''unknown_agent: '' @ agent_as_str orch"])
          (auto simp: handle_delegated_def unknown_agent_def)
    next
      case True
      show ?thesis
      proof (cases "grant_for roster (call_agent call)")
        case None
        then show ?thesis
          using True OpDelegated run tx not_execution(8)
          by (intro refused [of "''unknown_agent''" "call_agent call" "''unknown_agent: '' @ agent_as_str (call_agent call)"])
            (auto simp: handle_delegated_def unknown_agent_def call_text_ok_def)
      next
        case (Some grant)
        let ?ev = "''delegated_by '' @ agent_as_str orch @ '': '' @ call_tool call"
        obtain r where m: "mediate env (recording ex) grant call (classify grant (call_tool call) (call_room call))
            (gw_audit env (call_agent call) ?ev g) (e, calls) = (g', e', r)"
          using run OpDelegated True Some by (auto simp: handle_delegated_def Let_def split: prod.splits)
        have "log_step ops inv sip 1 True (agent_as_str (call_agent call)) g calls (gw_audit env (call_agent call) ?ev g) calls"
          using tx not_execution(9) [of "agent_as_str orch @ '': '' @ call_tool call"]
          by (intro log_step_audit [OF env]) (simp_all add: call_text_ok_def)
        from log_step_trans [OF this log_step_mediate [OF env tx(1) m]]
        have "log_step ops inv sip 3 True (agent_as_str (call_agent call)) g calls g' (snd e')"
          by (simp add: numeral_3_eq_3)
        then show ?thesis using log_step_weaken by blast
      qed
    qed
  next
    case (OpPolicy grant policy call)
    let ?base = "classify grant (call_tool call) (call_room call)"
    let ?eff = "evaluate policy (call_tool call) (room_as_str (call_room call)) (args_summary call)"
    have tx: "call_text_ok call" using ok OpPolicy by simp
    show ?thesis
    proof (cases "?base \<noteq> Forbidden \<and> ?eff = Deny")
      case True
      then show ?thesis
        using OpPolicy run tx not_execution(10)
        by (intro refused [of "''denied_policy''" "call_agent call"
              "''policy_denied: '' @ call_tool call @ '' in '' @ room_as_str (call_room call)"])
          (auto simp: handle_with_policy_def refuse_def Let_def call_text_ok_def)
    next
      case False
      then obtain cl r where "mediate env (recording ex) grant call cl g (e, calls) = (g', e', r)"
        using OpPolicy run by (auto simp: handle_with_policy_def Let_def split: prod.splits effect.splits if_splits)
      then show ?thesis using mediated tx by blast
    qed
  next
    case (OpResolve rid approved decided_by)
    obtain r where "gw_resolve env (recording ex) rid approved decided_by g (e, calls) = (g', e', r)"
      using run OpResolve by (auto split: prod.splits)
    from log_step_resolve [OF env _ this] ok OpResolve obtain a where
      "log_step ops inv sip 2 (rid \<in> request_id ` set (pending g)) a g calls g' (snd e')" by auto
    from log_step_weaken [OF this, of 3 "must_audit g op"] show ?thesis by (auto simp: must_audit_def OpResolve)
  next
    case (OpListTools grant catalog)
    then have "g' = fst (list_tools env grant catalog g)" "snd e' = calls" using run by auto
    then show ?thesis
      using ok OpListTools by (intro one [where must = True and a = "agent_as_str (grant_agent grant)"])
        (simp_all add: log_step_reads(1) env del: One_nat_def)
  next
    case (OpListResources grant)
    then have "g' = fst (list_resources env grant g)" "snd e' = calls" using run by auto
    then show ?thesis
      using ok OpListResources by (intro one [where must = True and a = "agent_as_str (grant_agent grant)"])
        (simp_all add: log_step_reads(2) env del: One_nat_def)
  next
    case (OpReadResource grant uri)
    then have "g' = fst (read_resource env msgs grant uri g)" "snd e' = calls" using run by auto
    then show ?thesis
      using ok OpReadResource by (intro one [where must = "room_from_uri uri \<noteq> None" and a = "agent_as_str (grant_agent grant)"])
        (simp_all add: log_step_reads(3) env must_audit_def del: One_nat_def not_None_eq)
  next
    case (OpRemember grant room key v)
    then have "g' = fst (remember env grant room key v g)" "snd e' = calls" using run by auto
    then show ?thesis
      using ok OpRemember by (intro one [where must = True and a = "agent_as_str (grant_agent grant)"])
        (simp_all add: log_step_memory_ops(1) env del: One_nat_def)
  next
    case (OpRecall grant room key)
    then have "g' = fst (recall env grant room key g)" "snd e' = calls" using run by auto
    then show ?thesis
      using ok OpRecall by (intro one [where must = True and a = "agent_as_str (grant_agent grant)"])
        (simp_all add: log_step_memory_ops(2) env del: One_nat_def)
  next
    case (OpRecallAll grant room)
    then have "g' = fst (recall_all env grant room g)" "snd e' = calls" using run by auto
    then show ?thesis
      using ok OpRecallAll by (intro one [where must = True and a = "agent_as_str (grant_agent grant)"])
        (simp_all add: log_step_memory_ops(3) env del: One_nat_def)
  next
    case (OpForget grant room key)
    then have "g' = fst (forget env grant room key g)" "snd e' = calls" using run by auto
    then show ?thesis
      using ok OpForget by (intro one [where must = True and a = "agent_as_str (grant_agent grant)"])
        (simp_all add: log_step_memory_ops(4) env del: One_nat_def)
  qed
qed

lemma logged_run_ops:
  assumes env: "env_store env = ops" "env_hasher env = sip"
  shows "\<forall>op\<in>set os. op_text_ok op \<Longrightarrow> logged ops inv sip g calls xs \<Longrightarrow> length xs + 3 * length os \<le> audit_capacity \<Longrightarrow>
    run_ops env (recording ex) msgs os (g, (e, calls)) = (g', (e', calls')) \<Longrightarrow>
    \<exists>ys. logged ops inv sip g' calls' (xs @ ys) \<and> length ys \<le> 3 * length os"
proof (induction os arbitrary: g e calls xs)
  case Nil
  then show ?case by (auto simp: run_ops_def intro: exI [of _ "[]"])
next
  case (Cons op os)
  obtain g1 e1 calls1 where r: "run_op env (recording ex) msgs op (g, (e, calls)) = (g1, (e1, calls1))"
    by (metis surj_pair)
  from log_step_run_op [OF env _ r] Cons.prems obtain a where
    s: "log_step ops inv sip 3 (must_audit g op) a g calls g1 calls1" by auto
  have len: "length xs + 3 \<le> audit_capacity" using Cons.prems(3) by simp
  obtain ys where ys: "logged ops inv sip g1 calls1 (xs @ ys)" "length ys \<le> 3"
    by (rule log_stepE [OF s Cons.prems(2) len])
  have "length (xs @ ys) + 3 * length os \<le> audit_capacity" using ys(2) Cons.prems(3) by simp
  moreover have "run_ops env (recording ex) msgs os (g1, (e1, calls1)) = (g', (e', calls'))"
    using Cons.prems(4) r by (simp add: run_ops_def)
  ultimately obtain zs where "logged ops inv sip g' calls' ((xs @ ys) @ zs)" "length zs \<le> 3 * length os"
    using Cons.IH [OF _ ys(1)] Cons.prems(1) by auto
  then show ?case using ys(2) by (intro exI [of _ "ys @ zs"]) simp
qed

end


subsection \<open>What a replay shows\<close>

lemma step_of_execution: "is_execution ev \<longleftrightarrow> (\<exists>ok n. step_of_event ev = StepExecuted ok n)"
proof
  assume "is_execution ev"
  then obtain s where "ev = ''executed:'' @ s" by (auto simp: is_execution_def starts_with_iff)
  then show "\<exists>ok n. step_of_event ev = StepExecuted ok n"
    by (simp add: step_of_event_def starts_with_def)
next
  assume "\<exists>ok n. step_of_event ev = StepExecuted ok n"
  then show "is_execution ev"
    by (auto simp: step_of_event_def is_execution_def split: if_splits option.splits)
qed

lemma case_execution: "(case step_of_event ev of StepExecuted _ _ \<Rightarrow> True | _ \<Rightarrow> False) = is_execution ev"
  using step_of_execution [of ev] by (cases "step_of_event ev") auto

lemma filter_enumerate: "map snd (filter (\<lambda>(_, x). P x) (enumerate n xs)) = filter P xs"
  by (induction xs arbitrary: n) simp_all

lemma executions_replay:
  "executions (replay_session ops sip s a) = length (filter (\<lambda>e. actor e = a \<and> is_execution (event e)) (audit_entries ops s))"
proof -
  let ?es = "enumerate 0 (audit_entries ops s)"
  have "executions (replay_session ops sip s a) =
      length (filter (\<lambda>(i, e). is_execution (event e)) (filter (\<lambda>(_, e). actor e = a) ?es))"
    by (simp add: executions_def replay_session_def steps_of_def filter_map comp_def case_prod_unfold case_execution)
  also have "\<dots> = length (map snd (filter (\<lambda>(_, e). actor e = a \<and> is_execution (event e)) ?es))"
    by (simp add: case_prod_unfold conj_commute)
  finally show ?thesis by (simp only: filter_enumerate)
qed


lemma executions_logged:
  assumes "logged memory_ops memory_inv sip g calls xs"
  shows "executions (replay_session memory_ops sip (gw_store g) a) = calls_of a calls \<and>
    chain_intact (replay_session memory_ops sip (gw_store g) a)"
proof -
  have l: "audit_log_is memory_ops (gw_store g) (audit_chain sip 0 xs)" and x: "executions_of a xs = calls_of a calls"
    using assms by (simp_all add: logged_def)
  have "map (\<lambda>e. (actor e, event e)) (audit_entries memory_ops (gw_store g)) = xs"
    using audit_log_facts [OF l] by simp
  then have "executions_of a xs = length (filter (\<lambda>e. actor e = a \<and> is_execution (event e)) (audit_entries memory_ops (gw_store g)))"
    by (auto simp: executions_of_def filter_map comp_def)
  then have "executions (replay_session memory_ops sip (gw_store g) a) = calls_of a calls"
    using x by (simp add: executions_replay)
  moreover have "chain_intact (replay_session memory_ops sip (gw_store g) a)"
    using audit_log_facts [OF l] by (simp add: replay_session_def intact_def)
  ultimately show ?thesis by blast
qed

lemma logged_start: "logged memory_ops memory_inv sip (with_store_and_clock memory_default c) [] []"
  by (simp add: logged_def with_store_and_clock_def audit_log_is_def memory_defs memory_default_def
      calls_of_def memory_inv_def)

lemma logged_entries:
  "logged memory_ops memory_inv sip g calls xs \<Longrightarrow>
     map (\<lambda>e. (actor e, event e)) (audit_entries memory_ops (gw_store g)) = xs \<and> audit_verify memory_ops sip (gw_store g) = Inr ()"
  using audit_log_facts by (auto simp: logged_def)

subsection \<open>Properties\<close>

text \<open>C27: The audit trail accounts for every execution: after any run of a new gateway over the in-memory
  store, whose texts hold no separator and which is no longer than the log can number, the replay of
  any agent's session counts exactly the calls the executor was given for that agent, over a chain
  that verifies.\<close>

theorem sessions_account_for_executions:
  assumes "\<forall>op\<in>set os. op_text_ok op" and "3 * length os \<le> audit_capacity" and "env_store env = memory_ops"
    and "run_ops env (recording ex) msgs os (with_store_and_clock memory_default c, (e, [])) = (g, (e', calls))"
  shows "executions (replay_session memory_ops (env_hasher env) (gw_store g) a) =
      length (filter (\<lambda>call. agent_as_str (call_agent call) = a) calls) \<and>
    chain_intact (replay_session memory_ops (env_hasher env) (gw_store g) a)"
proof -
  obtain ys where "logged memory_ops memory_inv (env_hasher env) g calls ([] @ ys)"
    using mem.logged_run_ops [OF assms(3) refl assms(1) logged_start _ assms(4)] assms(2) by auto
  from executions_logged [OF this] show ?thesis by (simp add: calls_of_def)
qed

theorem sessions_account_for_executions_witness:
  "\<exists>g :: (memory_store, manual_clock) gateway. executions (replay_session memory_ops (\<lambda>_. 7) (gw_store g) ''@a:x'') = 1"
proof -
  from sample_run obtain g e where run: "run_ops sample_env (recording echo_execute) (\<lambda>_. [])
      [OpHandle sample_grant (sample_call ''ls'')] (sample_gateway, ((), [])) = (g, (e, [sample_call ''ls'']))"
    by blast
  have "executions (replay_session memory_ops (env_hasher sample_env) (gw_store g) ''@a:x'') = 1"
    using sessions_account_for_executions [OF _ _ _ run [unfolded sample_gateway_def], of "''@a:x''"]
    by (simp add: call_text_ok_def agent_as_str_def audit_capacity_def sample_env_def)
  then show ?thesis by (auto simp: sample_env_def)
qed

text \<open>The audit log is append-only and complete: an operation keeps the entries before it, leaves a
  chain that verifies, and adds an entry whenever it handles a call, answers an approval, lists
  something, reads a room or touches memory, refused or not.\<close>

theorem every_decision_audited:
  assumes "logged memory_ops memory_inv (env_hasher env) g calls xs" "length xs + 3 \<le> audit_capacity"
    and "env_store env = memory_ops" "op_text_ok op"
    and "run_op env (recording ex) msgs op (g, (e, calls)) = (g', e')"
  shows "\<exists>ys. map (\<lambda>e. (actor e, event e)) (audit_entries memory_ops (gw_store g')) =
      map (\<lambda>e. (actor e, event e)) (audit_entries memory_ops (gw_store g)) @ ys \<and>
    audit_verify memory_ops (env_hasher env) (gw_store g') = Inr () \<and> (must_audit g op \<longrightarrow> ys \<noteq> [])"
proof -
  obtain a where s: "log_step memory_ops memory_inv (env_hasher env) 3 (must_audit g op) a g calls g' (snd e')"
    using mem.log_step_run_op [OF assms(3) refl assms(4,5)] by blast
  obtain ys where "logged memory_ops memory_inv (env_hasher env) g' (snd e') (xs @ ys)" "must_audit g op \<longrightarrow> ys \<noteq> []"
    by (rule log_stepE [OF s assms(1,2)])
  then show ?thesis using logged_entries [OF assms(1)] logged_entries by fastforce
qed

theorem every_decision_audited_witness:
  "\<exists>g'. audit_entries memory_ops (gw_store (g' :: (memory_store, manual_clock) gateway)) \<noteq> []"
proof -
  obtain g' e' where run: "run_op sample_env (recording echo_execute) (\<lambda>_. []) (OpListResources sample_grant)
      (with_store_and_clock memory_default (manual_clock_new 1), ((), [])) = (g', e')" by fastforce
  have "audit_field (agent_as_str (grant_agent sample_grant))"
    by (simp add: sample_grant_def allow_room_def allow_tool_def deny_all_def agent_as_str_def)
  with every_decision_audited [OF logged_start _ _ _ run] obtain ys where
    "map (\<lambda>e. (actor e, event e)) (audit_entries memory_ops (gw_store g')) = ys" "ys \<noteq> []"
    using logged_entries [OF logged_start [where sip = "\<lambda>_. 7" and c = "manual_clock_new 1"]]
    by (auto simp: sample_env_def audit_capacity_def must_audit_def)
  then show ?thesis by auto
qed

text \<open>The replay believes the tool's name: a tool whose name contains \<open>ok=\<close> and \<open>tokens=\<close> decides
  what its own execution is recorded to have returned and cost.\<close>

theorem replay_spoofed:
  "step_of_event (''executed: '' @ ''x ok=false tokens=0'' @ '' ok=true tokens='' @ dec n) = StepExecuted False 0"
  by (simp add: step_of_event_def starts_with_def parse_kv_def first_word_def str_chars_ascii is_whitespace_def
      utf8_string_def utf8_encode_def parse_uint_def digit_val_def u64_max_def)

end
