(* ===== verification/GatewayMemory.thy ===== *)
theory GatewayMemory
  imports GatewayRuns AgentMemory
begin

section \<open>What a gateway remembers\<close>

text \<open>
  The memory of an agent in a room as a function of the operations of a run: only its own writes and
  deletions for that room, under grants that permit the room, have an effect on it.  Every other
  operation at most appends to the audit log, which shares the store with the memory.
\<close>

subsection \<open>The effect of an operation\<close>

text \<open>What the memory of agent \<open>a\<close> for a room holds under a key after an operation.\<close>

fun memory_effect :: "agent_id \<Rightarrow> room_id \<Rightarrow> string \<Rightarrow> gw_op \<Rightarrow> string option \<Rightarrow> string option" where
  "memory_effect a room key (OpRemember grant room' key' v) held =
     (if permits_room grant room' \<and> SEP \<notin> set key' \<and> grant_agent grant = a \<and> room' = room \<and> key' = key
      then Some v else held)"
| "memory_effect a room key (OpForget grant room' key') held =
     (if permits_room grant room' \<and> grant_agent grant = a \<and> room' = room \<and> key' = key then None else held)"
| "memory_effect a room key _ held = held"

text \<open>Writes and deletions whose identifiers hold no separator.\<close>

fun memory_op_ok :: "gw_op \<Rightarrow> bool" where
  "memory_op_ok (OpRemember grant room key v) \<longleftrightarrow> scope_ok (grant_agent grant) room \<and> utf8_valid v"
| "memory_op_ok (OpForget grant room key) \<longleftrightarrow> scope_ok (grant_agent grant) room"
| "memory_op_ok _ \<longleftrightarrow> True"

definition same_memory :: "'s store_ops \<Rightarrow> ('s \<Rightarrow> bool) \<Rightarrow> ('s, 'c) gateway \<Rightarrow> ('s, 'c) gateway \<Rightarrow> bool" where
  "same_memory ops iv g g' \<longleftrightarrow> (iv (gw_store g) \<longrightarrow> iv (gw_store g') \<and>
     (\<forall>a room key. am_recall ops a room key (gw_store g') = am_recall ops a room key (gw_store g)))"

lemma same_memory_store: "gw_store g' = gw_store g \<Longrightarrow> same_memory ops iv g g'"
  by (simp add: same_memory_def)

lemma same_memory_trans [trans]: "same_memory ops iv g g1 \<Longrightarrow> same_memory ops iv g1 g' \<Longrightarrow> same_memory ops iv g g'"
  by (simp add: same_memory_def)

lemma budget_same_memory: "budget_only g g' \<Longrightarrow> same_memory ops iv g g'"
  by (simp add: budget_only_def same_memory_store)

lemma note_tokens_store [simp]: "gw_store (note_tokens env a n g) = gw_store g"
  using budget_only_checks(6) [of g env a n] by (simp add: budget_only_def)

context kv_store
begin

lemma audit_same_memory: "env_store env = ops \<Longrightarrow> gw_store g' = gw_store (gw_audit env a ev g) \<Longrightarrow> same_memory ops inv g g'"
  by (simp add: same_memory_def gw_audit_def audit_append_inv am_recall_append)

lemma memory_op_same_memory: "env_store env = ops \<Longrightarrow> same_memory ops inv g (gw_memory_op what res (gw_audit env a ev g))"
  by (erule audit_same_memory) simp

lemma execute_same_memory:
  assumes "env_store env = ops" "gw_execute env ex call cid g e = (g', e', r)"
  shows "same_memory ops inv g g'"
proof -
  obtain oc e1 where "ex e call = (oc, e1)" by fastforce
  with assms(2) have "gw_store g' = gw_store (gw_audit env (call_agent call)
      (''executed: '' @ call_tool call @ '' ok='' @ (if outcome_ok oc then ''true'' else ''false'') @
       '' tokens='' @ dec (unat (outcome_tokens oc))) (note_tokens env (agent_as_str (call_agent call)) (outcome_tokens oc) g))"
    by (auto simp: gw_execute_def Let_def gw_count_def record_outcome_def)
  from same_memory_trans [OF same_memory_store audit_same_memory [OF assms(1) this]] show ?thesis by simp
qed

lemma mediate_same_memory:
  assumes "env_store env = ops" "mediate env ex grant call class g e = (g', e', r)"
  shows "same_memory ops inv g g'"
  using assms(2)
proof (cases rule: mediate_cases)
  case (refused ev oc reason g1)
  then have "same_memory ops inv g1 g'" by (intro audit_same_memory [OF assms(1)]) simp
  with budget_same_memory [OF refused(1)] show ?thesis by (rule same_memory_trans)
next
  case (auto g1)
  obtain cid r' where x: "gw_execute env ex call cid
      (gw_audit env (call_agent call) (''auto_allowed: '' @ call_tool call) (snd (next_call_id g1))) e = (g', e', r')"
    using auto(3) by (auto simp: mediate_auto_def Let_def next_call_id_def split: prod.splits)
  have "same_memory ops inv g1 (snd (next_call_id g1))" by (rule same_memory_store) (simp add: next_call_id_def)
  from same_memory_trans [OF budget_same_memory [OF auto(1)] same_memory_trans [OF this
      same_memory_trans [OF audit_same_memory [OF assms(1) refl] execute_same_memory [OF assms(1) x]]]]
  show ?thesis .
next
  case (review g1)
  have "gw_store g' = gw_store (gw_audit env (call_agent call) (''approval_requested: '' @ call_tool call) g1)"
    using review(3) by (auto simp: mediate_review_def Let_def next_call_id_def gw_audit_def record_outcome_def)
  from same_memory_trans [OF budget_same_memory [OF review(1)] audit_same_memory [OF assms(1) this]] show ?thesis .
qed

lemma resolve_same_memory:
  assumes "env_store env = ops" "gw_resolve env ex rid approved by g e = (g', e', r)"
  shows "same_memory ops inv g g'"
proof (cases "List.extract (\<lambda>p. request_id p = rid) (pending g)")
  case None
  then show ?thesis using assms(2) by (simp add: gw_resolve_def same_memory_store)
next
  case (Some x)
  obtain before p after where x: "x = (before, p, after)" by (cases x) auto
  let ?g1 = "g\<lparr>pending := before @ after\<rparr>" and ?call = "pending_call p"
  have removed: "same_memory ops inv g ?g1" by (rule same_memory_store) simp
  show ?thesis
  proof (cases approved)
    case True
    then obtain r' where "gw_execute env ex ?call (pending_call_id p)
        (gw_audit env (call_agent ?call) (''approved_by '' @ by @ '': '' @ call_tool ?call) ?g1) e = (g', e', r')"
      using assms(2) Some x by (auto simp: gw_resolve_def Let_def split: prod.splits)
    from same_memory_trans [OF removed same_memory_trans [OF audit_same_memory [OF assms(1) refl] execute_same_memory [OF assms(1) this]]]
    show ?thesis .
  next
    case False
    then have "gw_store g' = gw_store (gw_audit env (call_agent ?call) (''denied_by '' @ by @ '': '' @ call_tool ?call) ?g1)"
      using assms(2) Some x by (auto simp: gw_resolve_def Let_def)
    from same_memory_trans [OF removed audit_same_memory [OF assms(1) this]] show ?thesis .
  qed
qed

text \<open>The handlers of calls and the listings leave the memory alone.\<close>

lemma run_op_same_memory:
  assumes env: "env_store env = ops" and run: "run_op env ex msgs op (g, e) = (g', e')"
    and op: "\<And>grant room key v. op \<noteq> OpRemember grant room key v" "\<And>grant room key. op \<noteq> OpForget grant room key"
  shows "same_memory ops inv g g'"
proof -
  note audited = audit_same_memory [OF env] and mediated = mediate_same_memory [OF env]
  show ?thesis
  proof (cases op)
    case (OpHandle grant call)
    then show ?thesis using run mediated by (auto simp: handle_def split: prod.splits)
  next
    case (OpManaged reg grant call)
    then show ?thesis
      using run mediated by (auto simp: handle_managed_def handle_def refuse_def intro: audited split: prod.splits if_splits)
  next
    case (OpInRoom roster call)
    then show ?thesis
      using run mediated by (auto simp: handle_in_room_def unknown_agent_def intro: audited split: prod.splits option.splits)
  next
    case (OpDelegated roster orch call)
    then show ?thesis
      using run same_memory_trans [OF audited [OF refl] mediated]
      by (auto simp: handle_delegated_def unknown_agent_def Let_def intro: audited split: prod.splits option.splits if_splits)
  next
    case (OpPolicy grant policy call)
    then show ?thesis
      using run mediated
      by (auto simp: handle_with_policy_def refuse_def Let_def intro: audited split: prod.splits effect.splits if_splits)
  next
    case (OpResolve rid approved "by")
    then show ?thesis using run resolve_same_memory [OF env] by (auto split: prod.splits)
  next
    case (OpListTools grant catalog)
    then show ?thesis using run by (auto simp: list_tools_def Let_def intro: audited)
  next
    case (OpListResources grant)
    then show ?thesis using run by (auto simp: list_resources_def Let_def intro: audited)
  next
    case (OpReadResource grant uri)
    then show ?thesis
      using run by (auto simp: read_resource_def intro: audited same_memory_store split: option.splits if_splits)
  next
    case (OpRecall grant room key)
    then show ?thesis using run by (auto simp: recall_def memory_denied_def memory_op_same_memory [OF env])
  next
    case (OpRecallAll grant room)
    then show ?thesis using run by (auto simp: recall_all_def memory_denied_def Let_def memory_op_same_memory [OF env])
  qed (use op in auto)
qed

lemma run_op_memory:
  assumes env: "env_store env = ops" and run: "run_op env ex msgs op (g, e) = (g', e')"
    and iv: "inv (gw_store g)" and op: "memory_op_ok op" and scope: "scope_ok a room"
  shows "inv (gw_store g') \<and>
    am_recall ops a room key (gw_store g') = memory_effect a room key op (am_recall ops a room key (gw_store g))"
proof -
  have refused: ?thesis if "g' = fst (memory_denied env grant room' key' what g)"
      "memory_effect a room key op (am_recall ops a room key (gw_store g)) = am_recall ops a room key (gw_store g)" for grant room' key' what
    using audit_same_memory [OF env, of g' "grant_agent grant"] that iv by (auto simp: memory_denied_def same_memory_def)
  show ?thesis
  proof (cases op)
    case (OpRemember grant room' key' v)
    then have s: "scope_ok (grant_agent grant) room'" "utf8_valid v" using op by simp_all
    show ?thesis
    proof (cases "permits_room grant room'")
      case False
      then show ?thesis using OpRemember run by (intro refused) (auto simp: remember_def)
    next
      case permitted: True
      let ?s = "fst (am_store ops (grant_agent grant) room' key' v (gw_store g))"
      have i: "inv ?s" using iv by (rule am_inv(1))
      have "inv (gw_store g') \<and> am_recall ops a room key (gw_store g') = am_recall ops a room key ?s"
        using OpRemember run permitted i
        by (auto simp: env remember_def gw_audit_def audit_append_inv am_recall_append split: prod.splits sum.splits)
      moreover have "am_recall ops a room key ?s = memory_effect a room key op (am_recall ops a room key (gw_store g))"
      proof (cases "SEP \<in> set key'")
        case True
        then show ?thesis by (simp add: OpRemember am_store_def check_key_def)
      next
        case False
        with am_recall_store [OF iv s(1) scope False s(2), of key] permitted show ?thesis by (auto simp: OpRemember)
      qed
      ultimately show ?thesis by simp
    qed
  next
    case (OpForget grant room' key')
    then have s: "scope_ok (grant_agent grant) room'" using op by simp
    show ?thesis
    proof (cases "permits_room grant room'")
      case False
      then show ?thesis using OpForget run by (intro refused) (auto simp: forget_def)
    next
      case True
      then show ?thesis
        using OpForget run am_inv(2) [OF iv] am_recall_forget [OF iv s scope, of key]
        by (auto simp: env forget_def gw_audit_def audit_append_inv am_recall_append)
    qed
  qed (use run_op_same_memory [OF env run] iv in \<open>auto simp: same_memory_def\<close>)
qed

lemma run_ops_memory:
  assumes env: "env_store env = ops" and scope: "scope_ok a room"
  shows "run_ops env ex msgs os (g, e) = (g', e') \<Longrightarrow> inv (gw_store g) \<Longrightarrow> \<forall>op\<in>set os. memory_op_ok op \<Longrightarrow>
    inv (gw_store g') \<and>
    am_recall ops a room key (gw_store g') = fold (memory_effect a room key) os (am_recall ops a room key (gw_store g))"
proof (induction os arbitrary: g e)
  case (Cons op os)
  obtain g1 e1 where r: "run_op env ex msgs op (g, e) = (g1, e1)" by fastforce
  with run_op_memory [OF env r Cons.prems(2) _ scope, of key] Cons.IH [of g1 e1] Cons.prems show ?case
    by (simp add: run_ops_def)
qed (simp add: run_ops_def)

end

subsection \<open>Properties\<close>

text \<open>C30: Agent memory is scoped: after any run of gateway operations from a new gateway, an agent that recalls
  a key for a room its grant permits gets what it last remembered itself for that room and key under a
  grant that permitted the room, unless it forgot it since, and a recall of the whole room lists
  exactly these items; without a permitting grant nothing is read.  No other operation and no other
  agent, room or key has an effect.  The agents and rooms of the writes and of the read hold no unit
  separator.\<close>

theorem memory_isolated:
  assumes "env_store env = memory_ops" "\<forall>op\<in>set os. memory_op_ok op" "scope_ok (grant_agent grant) room"
    and "run_ops env ex msgs os (with_store_and_clock memory_default c, e) = (g, e')"
  defines "held key \<equiv> fold (memory_effect (grant_agent grant) room key) os None"
  shows "(if permits_room grant room
      then snd (recall env grant room key g) = Inr (held key) \<and>
        (\<exists>items. snd (recall_all env grant room g) = Inr items \<and>
           set items = {\<lparr>item_name = k, item_value = v\<rparr> | k v. held k = Some v})
      else snd (recall env grant room key g) = Inl (RoomNotPermitted (room_as_str room)) \<and>
        snd (recall_all env grant room g) = Inl (RoomNotPermitted (room_as_str room)))"
proof -
  have empty: "am_recall memory_ops (grant_agent grant) room k memory_default = None" for k
    by (simp add: am_recall_def memory_ops_def memory_get_def memory_default_def)
  have "memory_inv memory_default" by (simp add: memory_inv_def memory_default_def)
  then have m: "memory_inv (gw_store g)" "am_recall memory_ops (grant_agent grant) room k (gw_store g) = held k" for k
    using mem.run_ops_memory [OF assms(1,3,4), of k] assms(2) empty by (simp_all add: held_def with_store_and_clock_def)
  have "set (am_recall_all memory_ops (grant_agent grant) room (gw_store g)) =
      {\<lparr>item_name = k, item_value = v\<rparr> | k v. held k = Some v}"
    using mem.am_recall_all_iff [OF m(1), of _ _ "grant_agent grant" room] m(2)
    by (auto simp: set_eq_iff) (metis memory_item.cases)
  then show ?thesis using m(2) assms(1) by (auto simp: recall_def recall_all_def memory_denied_def Let_def)
qed

theorem memory_isolated_witness:
  "\<exists>g e. run_ops sample_env echo_execute (\<lambda>_. []) [OpRemember sample_grant (RoomId ''!r:x'') ''k'' ''old'',
      OpListResources sample_grant, OpRemember sample_grant (RoomId ''!r:x'') ''k'' ''note'']
      (sample_gateway, ()) = (g, e) \<and>
    snd (recall sample_env sample_grant (RoomId ''!r:x'') ''k'' g) = Inr (Some ''note'')"
proof -
  let ?os = "[OpRemember sample_grant (RoomId ''!r:x'') ''k'' ''old'', OpListResources sample_grant,
    OpRemember sample_grant (RoomId ''!r:x'') ''k'' ''note'']"
  obtain g e where run: "run_ops sample_env echo_execute (\<lambda>_. []) ?os (sample_gateway, ()) = (g, e)" by (metis surj_pair)
  have s: "scope_ok (grant_agent sample_grant) (RoomId ''!r:x'')"
    by (simp add: SEP_def scope_ok_def sample_grant_def allow_room_def allow_tool_def deny_all_def agent_as_str_def)
  have p: "permits_room sample_grant (RoomId ''!r:x'')"
    by (simp add: sample_grant_def permits_room_def allow_room_def)
  have "env_store sample_env = memory_ops" "\<forall>op\<in>set ?os. memory_op_ok op"
    using s by (simp_all add: sample_env_def ascii_utf8_valid)
  from memory_isolated [OF this s run [unfolded sample_gateway_def], of "''k''"] p run show ?thesis by (simp add: SEP_def)
qed

text \<open>Without the condition on the separator the scopes run together: identifiers that hold it pass
  validation, and two agents then share the memory keys of two different rooms.\<close>

theorem memory_scope_confusion:
  "\<exists>a a' r r'. agent_id_parse (agent_as_str a) = Inr a \<and> agent_id_parse (agent_as_str a') = Inr a' \<and>
     room_ok r \<and> room_ok r' \<and> a \<noteq> a' \<and> r \<noteq> r' \<and> (\<forall>k. item_key a r k = item_key a' r' k)"
proof -
  define a a' r r' where "a = AgentId (UserId ''@a:x'')" and "a' = AgentId (UserId (''@a:x'' @ SEP # ''!r:y''))"
    and "r = RoomId (''!r:y'' @ SEP # ''!s:z'')" and "r' = RoomId ''!s:z''"
  have "agent_id_parse (agent_as_str a) = Inr a" "agent_id_parse (agent_as_str a') = Inr a'" "room_ok r" "room_ok r'"
    by (simp_all add: a_def a'_def r_def r'_def agent_as_str_def agent_id_parse_def user_id_parse_def room_ok_def
        room_id_parse_def split_sigil_def SEP_def)
  moreover have "a \<noteq> a'" "r \<noteq> r'" "\<forall>k. item_key a r k = item_key a' r' k"
    by (simp_all add: a_def a'_def r_def r'_def item_key_def agent_as_str_def)
  ultimately show ?thesis by blast
qed

end
