(* ===== verification/Codec.thy ===== *)
theory Codec
  imports Pdu
begin

section \<open>The event record codec (gm-svc, codec.rs)\<close>

text \<open>
  The length-prefixed byte form in which a room event is stored, and its re-validating reader.  A
  reader is the source's record of the bytes and a position; every read returns the reader advanced,
  or None.  The lemmas read an encoded event back, and show that what is read is a validated event.
\<close>

subsection \<open>Writing\<close>

text \<open>\<open>s.len() as u32\<close> keeps the low 32 bits, which \<open>le_bytes 4\<close> does.\<close>

definition put_str :: "bytes \<Rightarrow> string \<Rightarrow> bytes" where
  "put_str out s = out @ le_bytes 4 (length s) @ as_bytes s"

definition put_u64 :: "bytes \<Rightarrow> u64 \<Rightarrow> bytes" where
  "put_u64 out n = out @ le_bytes 8 (unat n)"

definition pdu_encode :: "pdu \<Rightarrow> bytes" where
  "pdu_encode p =
     (let out = put_str [] (event_as_str (event_id p));
          out = put_str out (room_as_str (room_id p));
          out = put_str out (user_as_str (sender p));
          out = put_str out (kind p);
          out = (case state_key p of Some k \<Rightarrow> put_str (out @ [1]) k | None \<Rightarrow> out @ [0]);
          out = put_u64 out (origin_server_ts p);
          out = put_u64 out (depth p);
          out = out @ le_bytes 4 (length (prev_events p));
          out = fold (\<lambda>e out. put_str out (event_as_str e)) (prev_events p) out;
          out = out @ le_bytes 4 (length (auth_events p));
          out = fold (\<lambda>e out. put_str out (event_as_str e)) (auth_events p) out
      in put_str out (content_json p))"

subsection \<open>Reading\<close>

record reader =
  rd_bytes :: bytes
  rd_pos :: nat

definition reader_new :: "bytes \<Rightarrow> reader" where
  "reader_new b = \<lparr>rd_bytes = b, rd_pos = 0\<rparr>"

definition rd_take :: "nat \<Rightarrow> reader \<Rightarrow> (bytes \<times> reader) option" where
  "rd_take n r =
     (let end = rd_pos r + n in
      if 2 ^ 64 \<le> end then None
      else if length (rd_bytes r) < end then None
      else Some (take n (drop (rd_pos r) (rd_bytes r)), r\<lparr>rd_pos := end\<rparr>))"

definition rd_u32 :: "reader \<Rightarrow> (u32 \<times> reader) option" where
  "rd_u32 r = map_option (\<lambda>(b, r). (word_of_nat (le_value b), r)) (rd_take 4 r)"

definition rd_u64 :: "reader \<Rightarrow> (u64 \<times> reader) option" where
  "rd_u64 r = map_option (\<lambda>(b, r). (word_of_nat (le_value b), r)) (rd_take 8 r)"

definition rd_string :: "reader \<Rightarrow> (string \<times> reader) option" where
  "rd_string r =
     Option.bind (rd_u32 r) (\<lambda>(len, r).
       Option.bind (rd_take (unat len) r) (\<lambda>(b, r). map_option (\<lambda>s. (s, r)) (from_utf8 b)))"

definition rd_byte :: "reader \<Rightarrow> (u8 \<times> reader) option" where
  "rd_byte r = map_option (\<lambda>(b, r). (b ! 0, r)) (rd_take 1 r)"

text \<open>\<open>parse(r.string()?).ok()?\<close> for an identifier, and the loop that reads \<open>n\<close> event ids.\<close>

definition rd_id :: "(string \<Rightarrow> 'e + 'a) \<Rightarrow> reader \<Rightarrow> ('a \<times> reader) option" where
  "rd_id parse r =
     Option.bind (rd_string r) (\<lambda>(s, r). case parse s of Inl _ \<Rightarrow> None | Inr x \<Rightarrow> Some (x, r))"

fun rd_events :: "nat \<Rightarrow> reader \<Rightarrow> (event_id list \<times> reader) option" where
  "rd_events 0 r = Some ([], r)"
| "rd_events (Suc n) r =
     Option.bind (rd_id event_id_parse r) (\<lambda>(e, r).
       map_option (\<lambda>(es, r). (e # es, r)) (rd_events n r))"

definition rd_state_key :: "reader \<Rightarrow> (string option \<times> reader) option" where
  "rd_state_key r =
     Option.bind (rd_byte r) (\<lambda>(b, r).
       if b = 1 then map_option (\<lambda>(s, r). (Some s, r)) (rd_string r)
       else if b = 0 then Some (None, r)
       else None)"

definition pdu_decode :: "bytes \<Rightarrow> pdu option" where
  "pdu_decode b =
     Option.bind (rd_id event_id_parse (reader_new b)) (\<lambda>(eid, r).
     Option.bind (rd_id room_id_parse r) (\<lambda>(rid, r).
     Option.bind (rd_id user_id_parse r) (\<lambda>(user, r).
     Option.bind (rd_string r) (\<lambda>(k, r).
     Option.bind (rd_state_key r) (\<lambda>(sk, r).
     Option.bind (rd_u64 r) (\<lambda>(ts, r).
     Option.bind (rd_u64 r) (\<lambda>(d, r).
     Option.bind (rd_u32 r) (\<lambda>(np, r).
     Option.bind (rd_events (unat np) r) (\<lambda>(prev, r).
     Option.bind (rd_u32 r) (\<lambda>(na, r).
     Option.bind (rd_events (unat na) r) (\<lambda>(auth, r).
     Option.bind (rd_string r) (\<lambda>(content, r).
       Some \<lparr>event_id = eid, room_id = rid, sender = user, kind = k, state_key = sk, origin_server_ts = ts,
             depth = d, prev_events = prev, auth_events = auth, content_json = content\<rparr>))))))))))))"

subsection \<open>Reading back\<close>

text \<open>A reader that stands before the bytes \<open>rest\<close>.\<close>

definition before :: "reader \<Rightarrow> bytes \<Rightarrow> bool" where
  "before r rest \<longleftrightarrow> rd_pos r \<le> length (rd_bytes r) \<and> length (rd_bytes r) < 2 ^ 64 \<and> drop (rd_pos r) (rd_bytes r) = rest"

text \<open>\<open>reads f x b\<close>: the read \<open>f\<close> turns the bytes \<open>b\<close> into \<open>x\<close>, whatever follows them.\<close>

definition reads :: "(reader \<Rightarrow> ('a \<times> reader) option) \<Rightarrow> 'a \<Rightarrow> bytes \<Rightarrow> bool" where
  "reads f x b \<longleftrightarrow> (\<forall>r rest. before r (b @ rest) \<longrightarrow> (\<exists>r'. f r = Some (x, r') \<and> before r' rest))"

lemma reads_bind:
  assumes "reads f x b" "reads (h x) y c"
  shows "reads (\<lambda>r. Option.bind (f r) (\<lambda>(z, r). h z r)) y (b @ c)"
  unfolding reads_def
proof (intro allI impI)
  fix r rest
  assume "before r ((b @ c) @ rest)"
  then obtain r' where "f r = Some (x, r')" "before r' (c @ rest)"
    using assms(1) by (auto simp: reads_def)
  then show "\<exists>r'. Option.bind (f r) (\<lambda>(z, r). h z r) = Some (y, r') \<and> before r' rest"
    using assms(2) by (auto simp: reads_def)
qed

lemma reads_map: "reads f x b \<Longrightarrow> reads (\<lambda>r. map_option (\<lambda>(z, r). (g z, r)) (f r)) (g x) b"
  by (fastforce simp: reads_def)

lemma reads_return: "reads (\<lambda>r. Some (x, r)) x []"
  by (simp add: reads_def)

lemma reads_take: "n = length b \<Longrightarrow> reads (rd_take n) b b"
  unfolding reads_def
proof (intro allI impI)
  fix r rest
  assume "n = length b" and r: "before r (b @ rest)"
  then have "rd_pos r + n \<le> length (rd_bytes r)"
    by (auto simp: before_def dest: arg_cong [where f = length])
  moreover have "drop (rd_pos r + n) (rd_bytes r) = drop n (drop (rd_pos r) (rd_bytes r))"
    by (simp only: drop_drop add.commute)
  ultimately show "\<exists>r'. rd_take n r = Some (b, r') \<and> before r' rest"
    using r \<open>n = length b\<close> by (auto simp: before_def rd_take_def simp del: drop_drop)
qed

lemma reads_u32: "n < 2 ^ 32 \<Longrightarrow> reads rd_u32 (word_of_nat n) (le_bytes 4 n)"
  using reads_map [OF reads_take [of 4 "le_bytes 4 n"], of "\<lambda>b. word_of_nat (le_value b)"]
  by (simp add: rd_u32_def [abs_def] le_value_le_bytes)

lemma reads_u64: "reads rd_u64 w (le_bytes 8 (unat w))"
proof -
  have "unat w < 256 ^ 8" using unsigned_less [of w, where ?'a = nat] by simp
  then have v: "word_of_nat (le_value (le_bytes 8 (unat w))) = w"
    by (simp add: le_value_le_bytes)
  have "reads rd_u64 (word_of_nat (le_value (le_bytes 8 (unat w)))) (le_bytes 8 (unat w))"
    unfolding rd_u64_def [abs_def] by (rule reads_map [OF reads_take]) simp
  then show ?thesis by (simp only: v)
qed

lemma reads_byte: "reads rd_byte b [b]"
  using reads_map [OF reads_take [of 1 "[b]"], of "\<lambda>b. b ! 0"] by (simp add: rd_byte_def [abs_def])

text \<open>The strings the codec can hold: UTF-8, and shorter than \<open>2 ^ 32\<close> bytes.\<close>

definition str_ok :: "string \<Rightarrow> bool" where
  "str_ok s \<longleftrightarrow> utf8_valid s \<and> length s < 2 ^ 32"

definition str_bytes :: "string \<Rightarrow> bytes" where
  "str_bytes s = le_bytes 4 (length s) @ as_bytes s"

lemma reads_string:
  assumes "str_ok s"
  shows "reads rd_string s (str_bytes s)"
proof -
  have "reads (\<lambda>r. Option.bind (rd_take (length s) r) (\<lambda>(b, r). map_option (\<lambda>s. (s, r)) (from_utf8 b))) s (as_bytes s @ [])"
    using assms by (intro reads_bind [OF reads_take]) (simp_all add: reads_def str_ok_def)
  then show ?thesis
    using assms unfolding rd_string_def [abs_def] str_bytes_def
    by (intro reads_bind [OF reads_u32]) (simp_all add: str_ok_def unat_of_nat)
qed

lemma reads_id:
  assumes "str_ok s" "parse s = Inr x"
  shows "reads (rd_id parse) x (str_bytes s)"
proof -
  have "reads (\<lambda>r. Option.bind (rd_string r) (\<lambda>(s, r). case parse s of Inl _ \<Rightarrow> None | Inr x \<Rightarrow> Some (x, r))) x (str_bytes s @ [])"
    using assms by (intro reads_bind [OF reads_string]) (simp_all add: reads_def)
  then show ?thesis by (simp add: rd_id_def [abs_def])
qed

definition events_bytes :: "event_id list \<Rightarrow> bytes" where
  "events_bytes es = concat (map (\<lambda>e. str_bytes (event_as_str e)) es)"

lemma reads_events:
  "\<forall>e\<in>set es. event_ok e \<and> str_ok (event_as_str e) \<Longrightarrow> reads (rd_events (length es)) es (events_bytes es)"
proof (induction es)
  case (Cons e es)
  have "reads (\<lambda>r. Option.bind (rd_id event_id_parse r) (\<lambda>(e, r). map_option (\<lambda>(es, r). (e # es, r)) (rd_events (length es) r)))
      (e # es) (str_bytes (event_as_str e) @ events_bytes es)"
    using Cons by (intro reads_bind [where x = e] reads_id reads_map) (auto simp: event_ok_def)
  moreover have "rd_events (length (e # es)) =
      (\<lambda>r. Option.bind (rd_id event_id_parse r) (\<lambda>(e, r). map_option (\<lambda>(es, r). (e # es, r)) (rd_events (length es) r)))"
    by (rule ext) simp
  ultimately show ?case by (simp only: events_bytes_def list.map concat.simps)
qed (simp add: events_bytes_def reads_def)

definition key_bytes :: "string option \<Rightarrow> bytes" where
  "key_bytes k = (case k of Some s \<Rightarrow> [1] @ str_bytes s | None \<Rightarrow> [0])"

lemma reads_state_key: "(\<And>s. k = Some s \<Longrightarrow> str_ok s) \<Longrightarrow> reads rd_state_key k (key_bytes k)"
proof (cases k)
  case None
  have "reads rd_state_key None ([0] @ [])"
    unfolding rd_state_key_def [abs_def] by (rule reads_bind [OF reads_byte]) (simp add: reads_return)
  with None show ?thesis by (simp add: key_bytes_def)
next
  case (Some s)
  assume "\<And>s. k = Some s \<Longrightarrow> str_ok s"
  with Some have "reads rd_state_key (Some s) ([1] @ str_bytes s)"
    unfolding rd_state_key_def [abs_def] by (intro reads_bind [OF reads_byte]) (simp add: reads_map reads_string)
  with Some show ?thesis by (simp add: key_bytes_def)
qed

subsection \<open>The round trip\<close>

lemma put_str_bytes: "put_str out s = out @ str_bytes s"
  by (simp add: put_str_def str_bytes_def)

lemma fold_put_events: "fold (\<lambda>e out. out @ str_bytes (event_as_str e)) es out = out @ events_bytes es"
  by (induction es arbitrary: out) (simp_all add: events_bytes_def)

lemma pdu_encode_bytes:
  "pdu_encode p =
     str_bytes (event_as_str (event_id p)) @ str_bytes (room_as_str (room_id p)) @ str_bytes (user_as_str (sender p)) @
     str_bytes (kind p) @ key_bytes (state_key p) @ le_bytes 8 (unat (origin_server_ts p)) @ le_bytes 8 (unat (depth p)) @
     le_bytes 4 (length (prev_events p)) @ events_bytes (prev_events p) @
     le_bytes 4 (length (auth_events p)) @ events_bytes (auth_events p) @ str_bytes (content_json p) @ []"
  by (simp add: pdu_encode_def Let_def put_str_bytes fold_put_events put_u64_def key_bytes_def split: option.splits)

text \<open>What can be stored: validated ids and strings, and lists, within the 32-bit lengths.\<close>

definition codec_ok :: "pdu \<Rightarrow> bool" where
  "codec_ok p \<longleftrightarrow>
     event_ok (event_id p) \<and> room_ok (room_id p) \<and> user_ok (sender p) \<and>
     str_ok (event_as_str (event_id p)) \<and> str_ok (room_as_str (room_id p)) \<and> str_ok (user_as_str (sender p)) \<and>
     str_ok (kind p) \<and> (\<forall>k. state_key p = Some k \<longrightarrow> str_ok k) \<and> str_ok (content_json p) \<and>
     (\<forall>e\<in>set (prev_events p) \<union> set (auth_events p). event_ok e \<and> str_ok (event_as_str e)) \<and>
     length (prev_events p) < 2 ^ 32 \<and> length (auth_events p) < 2 ^ 32"

lemma reads_decode:
  assumes "codec_ok p" "length b < 2 ^ 64" "b = pdu_encode p @ rest"
  shows "pdu_decode b = Some p"
proof -
  note ok = assms(1) [unfolded codec_ok_def event_ok_def [of "event_id p"] room_ok_def user_ok_def]
  let ?read = "\<lambda>r.
     Option.bind (rd_id event_id_parse r) (\<lambda>(eid, r).
     Option.bind (rd_id room_id_parse r) (\<lambda>(rid, r).
     Option.bind (rd_id user_id_parse r) (\<lambda>(user, r).
     Option.bind (rd_string r) (\<lambda>(k, r).
     Option.bind (rd_state_key r) (\<lambda>(sk, r).
     Option.bind (rd_u64 r) (\<lambda>(ts, r).
     Option.bind (rd_u64 r) (\<lambda>(d, r).
     Option.bind (rd_u32 r) (\<lambda>(np, r).
     Option.bind (rd_events (unat np) r) (\<lambda>(prev, r).
     Option.bind (rd_u32 r) (\<lambda>(na, r).
     Option.bind (rd_events (unat na) r) (\<lambda>(auth, r).
     Option.bind (rd_string r) (\<lambda>(content, r).
       Some (\<lparr>event_id = eid, room_id = rid, sender = user, kind = k, state_key = sk, origin_server_ts = ts,
             depth = d, prev_events = prev, auth_events = auth, content_json = content\<rparr>, r)))))))))))))"
  have len: "unat (word_of_nat (length (prev_events p)) :: u32) = length (prev_events p)"
    "unat (word_of_nat (length (auth_events p)) :: u32) = length (auth_events p)"
    using ok by (simp_all add: unat_of_nat)
  have parts: "reads (rd_id event_id_parse) (event_id p) (str_bytes (event_as_str (event_id p)))"
    "reads (rd_id room_id_parse) (room_id p) (str_bytes (room_as_str (room_id p)))"
    "reads (rd_id user_id_parse) (sender p) (str_bytes (user_as_str (sender p)))"
    "reads rd_string (kind p) (str_bytes (kind p))" "reads rd_state_key (state_key p) (key_bytes (state_key p))"
    "reads rd_u64 (origin_server_ts p) (le_bytes 8 (unat (origin_server_ts p)))"
    "reads rd_u64 (depth p) (le_bytes 8 (unat (depth p)))"
    "reads rd_u32 (word_of_nat (length (prev_events p))) (le_bytes 4 (length (prev_events p)))"
    "reads (rd_events (unat (word_of_nat (length (prev_events p)) :: u32))) (prev_events p) (events_bytes (prev_events p))"
    "reads rd_u32 (word_of_nat (length (auth_events p))) (le_bytes 4 (length (auth_events p)))"
    "reads (rd_events (unat (word_of_nat (length (auth_events p)) :: u32))) (auth_events p) (events_bytes (auth_events p))"
    "reads rd_string (content_json p) (str_bytes (content_json p))"
    using ok unfolding len by (simp_all add: reads_id reads_string reads_state_key reads_u64 reads_u32 reads_events)
  have "reads ?read p (pdu_encode p)"
    unfolding pdu_encode_bytes by ((rule reads_bind, rule parts)+) (simp add: reads_def)
  moreover have "before (reader_new b) (pdu_encode p @ rest)"
    using assms(2,3) by (simp add: before_def reader_new_def)
  ultimately obtain r where "?read (reader_new b) = Some (p, r)"
    unfolding reads_def by blast
  moreover have "pdu_decode b = map_option fst (?read (reader_new b))"
    by (simp add: pdu_decode_def map_option_bind case_prod_unfold comp_def)
  ultimately show ?thesis by simp
qed

text \<open>What decodes is validated: an id that does not parse, or text that is not UTF-8, is refused.\<close>

lemma rd_string_valid: "rd_string r = Some (s, r') \<Longrightarrow> utf8_valid s"
  by (auto simp: rd_string_def bind_eq_Some_conv dest: from_utf8_valid)

lemma rd_id_valid: "rd_id parse r = Some (x, r') \<Longrightarrow> \<exists>s. parse s = Inr x \<and> utf8_valid s"
proof -
  assume "rd_id parse r = Some (x, r')"
  then obtain s r1 where "rd_string r = Some (s, r1)" "(case parse s of Inl _ \<Rightarrow> None | Inr x \<Rightarrow> Some (x, r1)) = Some (x, r')"
    unfolding rd_id_def bind_eq_Some_conv by auto
  then show ?thesis by (cases "parse s") (auto dest: rd_string_valid)
qed

lemma rd_events_valid:
  "rd_events n r = Some (es, r') \<Longrightarrow> length es = n \<and> (\<forall>e\<in>set es. event_ok e \<and> utf8_valid (event_as_str e))"
  by (induction n arbitrary: r es r')
    (fastforce simp: bind_eq_Some_conv parse_as_str dest: rd_id_valid parse_ok_ids(3))+

text \<open>The events a store may hold, as far as their reader checks them.\<close>

definition decoded_ok :: "pdu \<Rightarrow> bool" where
  "decoded_ok p \<longleftrightarrow>
     event_ok (event_id p) \<and> room_ok (room_id p) \<and> user_ok (sender p) \<and>
     (\<forall>e\<in>set (prev_events p) \<union> set (auth_events p). event_ok e) \<and>
     utf8_valid (kind p) \<and> (\<forall>k. state_key p = Some k \<longrightarrow> utf8_valid k) \<and> utf8_valid (content_json p)"

lemma pdu_decode_valid: "pdu_decode b = Some p \<Longrightarrow> decoded_ok p"
  by (auto simp: pdu_decode_def bind_eq_Some_conv decoded_ok_def rd_state_key_def parse_ok_ids
      dest!: rd_id_valid rd_events_valid rd_string_valid split: if_splits)

lemma codec_read: "codec_ok p \<Longrightarrow> length (pdu_encode p) < 2 ^ 64 \<Longrightarrow> pdu_decode (pdu_encode p) = Some p"
  using reads_decode [of p "pdu_encode p" "[]"] by simp

text \<open>An encoded event is read back exactly, also when other bytes follow it, and no two storable
  events have one encoding; whatever bytes decode at all give validated ids and UTF-8 text.\<close>

theorem codec_roundtrip:
  assumes "codec_ok p" "length (pdu_encode p @ rest) < 2 ^ 64"
  shows "pdu_decode (pdu_encode p @ rest) = Some p \<and> (\<forall>b q. pdu_decode b = Some q \<longrightarrow> decoded_ok q) \<and>
    (codec_ok q \<and> pdu_encode q = pdu_encode p \<longrightarrow> q = p)"
proof -
  have "length (pdu_encode p) < 2 ^ 64" using assms(2) by simp
  then show ?thesis
    using reads_decode [OF assms refl] reads_decode [of _ "pdu_encode p" "[]"] assms(1) pdu_decode_valid
    by (metis append_Nil2 option.inject)
qed

definition codec_sample :: pdu where
  "codec_sample = \<lparr>event_id = EventId ''$e'', room_id = RoomId ''!r:x'', sender = UserId ''@a:x'', kind = ''m.room.message'',
     state_key = None, origin_server_ts = 42, depth = 7, prev_events = [EventId ''$p''], auth_events = [],
     content_json = ''{}''\<rparr>"

lemma codec_sample_ok: "codec_ok codec_sample"
  by (simp add: codec_ok_def codec_sample_def str_ok_def ascii_utf8_valid event_ok_def room_ok_def user_ok_def
      event_id_parse_def room_id_parse_def user_id_parse_def split_sigil_def)

theorem codec_roundtrip_witness:
  "pdu_decode (pdu_encode codec_sample @ [1]) = Some codec_sample"
  using codec_roundtrip [OF codec_sample_ok, of "[1]"]
  by (simp add: pdu_encode_bytes str_bytes_def key_bytes_def events_bytes_def codec_sample_def)

end
