(* ===== verification/Rooms.thy ===== *)
theory Rooms
  imports Codec Store StateRes
begin

section \<open>The room service (gm-svc, lib.rs)\<close>

text \<open>
  Rooms over a store: the depth-ordered timeline, the current state of a room and the global event
  stream, each in a column family under composite keys.  The service keeps no state of its own, so
  its operations are functions of the store's operations and the store.  Inside the contract of a
  store, the reads are shown to be functions of the log of appended events.
\<close>

subsection \<open>Keys\<close>

definition timeline_key :: "pdu \<Rightarrow> string" where
  "timeline_key p = room_as_str (room_id p) @ [SEP] @ dec_pad 20 (unat (depth p)) @ [SEP] @ event_as_str (event_id p)"

definition room_state_key :: "room_id \<Rightarrow> string \<Rightarrow> string \<Rightarrow> string" where
  "room_state_key room k sk = room_as_str room @ [SEP] @ k @ [SEP] @ sk"

definition rooms_prefix :: "room_id \<Rightarrow> string" where
  "rooms_prefix room = room_as_str room @ [SEP]"

definition stream_value :: "pdu \<Rightarrow> string" where
  "stream_value p = room_as_str (room_id p) @ [SEP] @ event_as_str (event_id p)"

subsection \<open>Writing\<close>

definition append_state :: "'s store_ops \<Rightarrow> pdu \<Rightarrow> 's \<Rightarrow> 's" where
  "append_state ops p s =
     (case pdu_state_tuple p of
        Some (k, sk) \<Rightarrow>
          fst (st_put ops cf_ROOM_STATE (room_state_key (room_id p) k sk) (as_bytes (event_as_str (event_id p))) s)
      | None \<Rightarrow> s)"

definition room_append :: "'s store_ops \<Rightarrow> pdu \<Rightarrow> 's \<Rightarrow> 's" where
  "room_append ops p s =
     (let s = fst (st_put ops cf_EVENTS (timeline_key p) (pdu_encode p) s);
          s = append_state ops p s;
          seq = st_count ops s cf_EVENT_STREAM
      in fst (st_put ops cf_EVENT_STREAM (dec_pad 20 seq) (as_bytes (stream_value p)) s))"

subsection \<open>Reading\<close>

definition stream_len :: "'s store_ops \<Rightarrow> 's \<Rightarrow> nat" where
  "stream_len ops s = st_count ops s cf_EVENT_STREAM"

definition timeline :: "'s store_ops \<Rightarrow> 's \<Rightarrow> room_id \<Rightarrow> pdu list" where
  "timeline ops s room =
     List.map_filter (\<lambda>(_, v). pdu_decode v)
       (filter (\<lambda>(k, _). starts_with k (rooms_prefix room)) (st_scan ops s cf_EVENTS))"

definition room_pdu :: "'s store_ops \<Rightarrow> 's \<Rightarrow> room_id \<Rightarrow> event_id \<Rightarrow> pdu option" where
  "room_pdu ops s room eid = List.find (\<lambda>p. event_id p = eid) (timeline ops s room)"

definition ok :: "'e + 'a \<Rightarrow> 'a option" where
  "ok r = (case r of Inl _ \<Rightarrow> None | Inr x \<Rightarrow> Some x)"

definition stream_entry :: "'s store_ops \<Rightarrow> 's \<Rightarrow> bytes \<Rightarrow> pdu option" where
  "stream_entry ops s v =
     Option.bind (from_utf8 v) (\<lambda>entry.
     Option.bind (split_once SEP entry) (\<lambda>(room, eid).
     Option.bind (ok (room_id_parse room)) (\<lambda>room.
     Option.bind (ok (event_id_parse eid)) (\<lambda>eid. room_pdu ops s room eid))))"

definition events_since :: "'s store_ops \<Rightarrow> 's \<Rightarrow> nat \<Rightarrow> pdu list" where
  "events_since ops s since =
     List.map_filter (\<lambda>(_, v). stream_entry ops s v)
       (filter (\<lambda>(k, _). case parse_uint (2 ^ 64 - 1) k of Some seq \<Rightarrow> since \<le> seq | None \<Rightarrow> False)
         (st_scan ops s cf_EVENT_STREAM))"

definition state_event :: "'s store_ops \<Rightarrow> 's \<Rightarrow> room_id \<Rightarrow> string \<Rightarrow> string \<Rightarrow> event_id option" where
  "state_event ops s room k sk =
     Option.bind (st_get ops s cf_ROOM_STATE (room_state_key room k sk)) (\<lambda>v.
     Option.bind (from_utf8 v) (\<lambda>t. ok (event_id_parse t)))"

definition state_event_pdu :: "'s store_ops \<Rightarrow> 's \<Rightarrow> room_id \<Rightarrow> string \<Rightarrow> string \<Rightarrow> pdu option" where
  "state_event_pdu ops s room k sk = Option.bind (state_event ops s room k sk) (room_pdu ops s room)"

definition state_event_content :: "'s store_ops \<Rightarrow> 's \<Rightarrow> room_id \<Rightarrow> string \<Rightarrow> string \<Rightarrow> string option" where
  "state_event_content ops s room k sk = map_option content_json (state_event_pdu ops s room k sk)"

text \<open>One round of the loop of \<open>rooms\<close>, and of the loop of \<open>current_state\<close>.\<close>

definition rooms_step :: "string \<times> bytes \<Rightarrow> room_id list \<Rightarrow> room_id list" where
  "rooms_step kv seen =
     (case split_once SEP (fst kv) of
        None \<Rightarrow> seen
      | Some (room, _) \<Rightarrow>
          (case room_id_parse room of
             Inl _ \<Rightarrow> seen
           | Inr room \<Rightarrow> if room \<in> set seen then seen else seen @ [room]))"

definition rooms :: "'s store_ops \<Rightarrow> 's \<Rightarrow> room_id list" where
  "rooms ops s = fold rooms_step (st_scan ops s cf_EVENTS) []"

definition current_state_step :: "room_id \<Rightarrow> string \<times> bytes \<Rightarrow> state_map \<Rightarrow> state_map" where
  "current_state_step room kv state =
     (case strip_prefix (rooms_prefix room) (fst kv) of
        None \<Rightarrow> state
      | Some rest \<Rightarrow>
          (case split_once SEP rest of
             None \<Rightarrow> state
           | Some (k, sk) \<Rightarrow>
               (case Option.bind (from_utf8 (snd kv)) (\<lambda>t. ok (event_id_parse t)) of
                  None \<Rightarrow> state
                | Some eid \<Rightarrow> bt_insert (k, sk) eid state)))"

definition current_state :: "'s store_ops \<Rightarrow> 's \<Rightarrow> room_id \<Rightarrow> state_map" where
  "current_state ops s room = fold (current_state_step room) (st_scan ops s cf_ROOM_STATE) []"

definition current_state_pdus :: "'s store_ops \<Rightarrow> 's \<Rightarrow> room_id \<Rightarrow> pdu list" where
  "current_state_pdus ops s room =
     List.map_filter (\<lambda>(_, eid). room_pdu ops s room eid) (current_state ops s room)"

text \<open>The merge of forks is the resolver's; its hash-set iteration order is an argument there.\<close>

definition resolve_forks :: "event_id list \<Rightarrow> state_map list \<Rightarrow> pdus \<Rightarrow> state_map option" where
  "resolve_forks full forks pdus = resolve full forks pdus"

subsection \<open>Sorted maps built from lists\<close>

lemma insort_key_map: "insort_key g (f x) (map f xs) = map f (insort_key (g \<circ> f) x xs)"
  by (induction xs) simp_all

lemma sort_key_map: "sort_key g (map f xs) = map f (sort_key (g \<circ> f) xs)"
  by (induction xs) (simp_all add: insort_key_map comp_def)

lemma insort_key_cong:
  "(\<And>y. y \<in> set xs \<Longrightarrow> f x \<le> f y \<longleftrightarrow> g x \<le> g y) \<Longrightarrow> insort_key f x xs = insort_key g x xs"
  by (induction xs) auto

lemma sort_key_cong_le:
  "(\<And>x y. x \<in> set xs \<Longrightarrow> y \<in> set xs \<Longrightarrow> f x \<le> f y \<longleftrightarrow> g x \<le> g y) \<Longrightarrow> sort_key f xs = sort_key g xs"
proof (induction xs)
  case (Cons x xs)
  then have "sort_key f xs = sort_key g xs" by simp
  moreover have "insort_key f x (sort_key g xs) = insort_key g x (sort_key g xs)"
    using Cons.prems by (intro insort_key_cong) simp
  ultimately show ?case by simp
qed simp

text \<open>A key has one value in the list; then the map holds the distinct pairs in key order.\<close>

definition functional :: "('k \<times> 'v) list \<Rightarrow> bool" where
  "functional kvs \<longleftrightarrow> (\<forall>k v w. (k, v) \<in> set kvs \<longrightarrow> (k, w) \<in> set kvs \<longrightarrow> v = w)"

lemma functional_distinct: "functional kvs \<Longrightarrow> distinct kvs \<Longrightarrow> distinct (map fst kvs)"
  by (auto simp: functional_def distinct_map inj_on_def)

lemma map_of_functional: "functional kvs \<Longrightarrow> map_of kvs k = Some v \<longleftrightarrow> (k, v) \<in> set kvs"
proof
  assume f: "functional kvs" and "(k, v) \<in> set kvs"
  then obtain w where "map_of kvs k = Some w" by (metis map_of_eq_None_iff fst_conv image_eqI not_Some_eq)
  with f \<open>(k, v) \<in> set kvs\<close> show "map_of kvs k = Some v"
    unfolding functional_def by (metis map_of_SomeD)
qed (rule map_of_SomeD)

lemma sorted_distinct_keys: "distinct (map fst kvs) \<Longrightarrow> bt_ok (sort_key fst kvs)"
proof -
  assume "distinct (map fst kvs)"
  then have "distinct (map fst (sort_key fst kvs))"
    by (simp add: distinct_map)
  then show ?thesis
    by (simp add: bt_ok_def strict_sorted_iff)
qed

lemma bt_of_list_sort:
  assumes "functional kvs"
  shows "bt_of_list kvs = sort_key fst (remdups kvs)"
proof (rule bt_ext)
  have f: "functional (rev kvs)" "functional (sort_key fst (remdups kvs))" using assms by (simp_all add: functional_def)
  have "distinct (map fst (remdups kvs))"
    using assms by (intro functional_distinct) (simp_all add: functional_def)
  then show "bt_ok (sort_key fst (remdups kvs))" by (rule sorted_distinct_keys)
  show "map_of (bt_of_list kvs) = map_of (sort_key fst (remdups kvs))"
  proof (rule ext)
    fix k
    have "map_of (bt_of_list kvs) k = Some v \<longleftrightarrow> map_of (sort_key fst (remdups kvs)) k = Some v" for v
      by (simp add: map_of_bt_of_list map_of_functional [OF f(1)] map_of_functional [OF f(2)])
    then show "map_of (bt_of_list kvs) k = map_of (sort_key fst (remdups kvs)) k"
      by (metis not_Some_eq)
  qed
qed simp

lemma bt_of_list_snoc: "bt_of_list (kvs @ [(k, v)]) = bt_insert k v (bt_of_list kvs)"
  by (simp add: bt_of_list_def)

lemma remdups_map_inj: "inj_on f (set xs) \<Longrightarrow> remdups (map f xs) = map f (remdups xs)"
  by (induction xs) (auto simp: inj_on_def)

subsection \<open>The log of appended events\<close>

text \<open>
  What the column families hold after the events \<open>ps\<close> have been appended, and the reads as
  functions of this log: the events of a room by depth and id, the last event of each state slot,
  and the suffix of the log from a stream position.
\<close>

definition state_entries :: "pdu list \<Rightarrow> (string \<times> bytes) list" where
  "state_entries ps =
     map (\<lambda>p. (room_state_key (room_id p) (kind p) (the (state_key p)), as_bytes (event_as_str (event_id p))))
       (filter pdu_is_state ps)"

definition stream_entries :: "pdu list \<Rightarrow> (string \<times> bytes) list" where
  "stream_entries ps = map (\<lambda>(i, p). (dec_pad 20 i, as_bytes (stream_value p))) (enumerate 0 ps)"

definition holds_log :: "'s store_ops \<Rightarrow> ('s \<Rightarrow> bool) \<Rightarrow> 's \<Rightarrow> pdu list \<Rightarrow> bool" where
  "holds_log ops I s ps \<longleftrightarrow> I s \<and>
     st_scan ops s cf_EVENTS = bt_of_list (map (\<lambda>p. (timeline_key p, pdu_encode p)) ps) \<and>
     st_scan ops s cf_ROOM_STATE = bt_of_list (state_entries ps) \<and>
     st_scan ops s cf_EVENT_STREAM = stream_entries ps"

definition log_timeline :: "pdu list \<Rightarrow> room_id \<Rightarrow> pdu list" where
  "log_timeline ps room =
     sort_key (\<lambda>p. (depth p, event_as_str (event_id p))) (remdups (filter (\<lambda>p. room_id p = room) ps))"

definition slot_entries :: "pdu list \<Rightarrow> room_id \<Rightarrow> (slot \<times> event_id) list" where
  "slot_entries ps room =
     map (\<lambda>p. ((kind p, the (state_key p)), event_id p)) (filter (\<lambda>p. room_id p = room \<and> pdu_is_state p) ps)"

definition log_state :: "pdu list \<Rightarrow> room_id \<Rightarrow> state_map" where
  "log_state ps room = bt_of_list (slot_entries ps room)"

definition log_find :: "pdu list \<Rightarrow> room_id \<Rightarrow> event_id \<Rightarrow> pdu option" where
  "log_find ps room eid = List.find (\<lambda>p. room_id p = room \<and> event_id p = eid) ps"

definition log_state_pdus :: "pdu list \<Rightarrow> room_id \<Rightarrow> pdu list" where
  "log_state_pdus ps room = List.map_filter (\<lambda>(_, eid). log_find ps room eid) (log_state ps room)"

text \<open>
  The events the reads are exact for: storable, with ids and types free of the key separator, and
  one event per id in a room, as content-addressed ids provide.
\<close>

definition log_pdu :: "pdu \<Rightarrow> bool" where
  "log_pdu p \<longleftrightarrow> codec_ok p \<and> length (pdu_encode p) < 2 ^ 64 \<and> SEP \<notin> set (room_as_str (room_id p)) \<and>
     SEP \<notin> set (event_as_str (event_id p)) \<and> SEP \<notin> set (kind p)"

definition log_ok :: "pdu list \<Rightarrow> bool" where
  "log_ok ps \<longleftrightarrow> (\<forall>p\<in>set ps. log_pdu p) \<and> length ps < 2 ^ 64 \<and>
     (\<forall>p\<in>set ps. \<forall>q\<in>set ps. room_id p = room_id q \<longrightarrow> event_id p = event_id q \<longrightarrow> p = q)"

lemma stream_entries_snoc:
  "stream_entries (ps @ [p]) = stream_entries ps @ [(dec_pad 20 (length ps), as_bytes (stream_value p))]"
  by (simp add: stream_entries_def enumerate_append_eq)

lemma state_entries_snoc:
  "state_entries (ps @ [p]) = state_entries ps @
     (case state_key p of None \<Rightarrow> []
      | Some sk \<Rightarrow> [(room_state_key (room_id p) (kind p) sk, as_bytes (event_as_str (event_id p)))])"
  by (simp add: state_entries_def pdu_is_state_def split: option.splits)

lemma length_stream_entries [simp]: "length (stream_entries ps) = length ps"
  by (simp add: stream_entries_def)

lemma stream_keys_below:
  "length ps < 10 ^ 20 \<Longrightarrow> k \<in> fst ` set (stream_entries ps) \<Longrightarrow> k < dec_pad 20 (length ps)"
  by (auto simp: stream_entries_def in_set_enumerate_eq intro!: dec_pad_less)

subsection \<open>Keys of the log\<close>

lemma starts_with_room:
  "SEP \<notin> set a \<Longrightarrow> SEP \<notin> set (room_as_str room) \<Longrightarrow> starts_with (a @ SEP # x) (rooms_prefix room) \<longleftrightarrow> a = room_as_str room"
  by (auto simp: starts_with_iff rooms_prefix_def append_eq_append_sep)

lemma SEP_not_digit: "SEP \<notin> set (dec_pad w n)"
  by (auto simp: dec_pad_def) (simp add: SEP_def)

lemma unat_pad: "unat (d :: u64) < 10 ^ 20"
  using unsigned_less [of d, where ?'a = nat] by simp

lemma length_dec_pad: "n < 10 ^ 20 \<Longrightarrow> length (dec_pad 20 n) = 20"
  by (simp add: dec_pad_eq_fixed)

lemma dec_pad_inj: "m < 10 ^ 20 \<Longrightarrow> n < 10 ^ 20 \<Longrightarrow> dec_pad 20 m = dec_pad 20 n \<Longrightarrow> m = n"
  using dec_pad_less [of m n 20] dec_pad_less [of n m 20] by (metis linorder_neqE_nat order_less_irrefl zero_less_numeral)

lemma timeline_key_less:
  assumes "room_id p = room_id q"
  shows "timeline_key p < timeline_key q \<longleftrightarrow> (depth p, event_as_str (event_id p)) < (depth q, event_as_str (event_id q))"
proof -
  have pad: "dec_pad 20 (unat d) @ x < dec_pad 20 (unat e) @ y" if "d < e" for d e :: u64 and x y
    using that by (intro list_less_append_same_length dec_pad_less)
      (simp_all add: length_dec_pad unat_pad [simplified] word_less_nat_alt)
  show ?thesis
  proof (cases "depth p" "depth q" rule: linorder_cases)
    case less
    then show ?thesis using assms by (simp add: timeline_key_def pad)
  next
    case equal
    then show ?thesis using assms by (simp add: timeline_key_def)
  next
    case greater
    then have "\<not> dec_pad 20 (unat (depth p)) @ SEP # event_as_str (event_id p) <
        dec_pad 20 (unat (depth q)) @ SEP # event_as_str (event_id q)"
      by (intro order_less_not_sym pad)
    with greater show ?thesis using assms by (simp add: timeline_key_def order_less_not_sym)
  qed
qed

lemma log_ok_functional: "log_ok ps \<Longrightarrow> inj_on timeline_key (set ps)"
proof (rule inj_onI)
  fix p q
  assume "log_ok ps" "p \<in> set ps" "q \<in> set ps" and k: "timeline_key p = timeline_key q"
  then have ok: "log_pdu p" "log_pdu q" and u: "room_id p = room_id q \<Longrightarrow> event_id p = event_id q \<Longrightarrow> p = q"
    by (auto simp: log_ok_def)
  have "room_as_str (room_id p) = room_as_str (room_id q) \<and>
      dec_pad 20 (unat (depth p)) @ SEP # event_as_str (event_id p) = dec_pad 20 (unat (depth q)) @ SEP # event_as_str (event_id q)"
    using k ok by (simp add: timeline_key_def log_pdu_def append_eq_append_sep)
  then show "p = q" using u by (simp add: append_eq_append_sep SEP_not_digit)
qed

lemma map_filter_map_id: "(\<And>x. x \<in> set xs \<Longrightarrow> f (g x) = Some x) \<Longrightarrow> List.map_filter f (map g xs) = xs"
  by (induction xs) (simp_all add: map_filter_simps)

lemma pdu_decode_encode: "log_pdu p \<Longrightarrow> pdu_decode (pdu_encode p) = Some p"
  using codec_read [of p] by (simp add: log_pdu_def)

lemma dec_value_zeros: "dec_value 0 (replicate n (CHR ''0'') @ s) = dec_value 0 s"
  by (induction n) (simp_all add: digit_val_def)

lemma parse_uint_pad: "n \<le> m \<Longrightarrow> parse_uint m (dec_pad w n) = Some n"
proof -
  assume n: "n \<le> m"
  have v: "dec_value 0 (dec_pad w n) = Some n"
    by (simp add: dec_pad_def dec_value_zeros dec_value_dec)
  have ne: "dec_pad w n \<noteq> []" by (simp add: dec_pad_def)
  have "hd (dec_pad w n) \<noteq> CHR ''+''"
  proof (cases "w - length (dec n)")
    case 0
    then show ?thesis using hd_dec_not_plus [of n] by (cases "dec n") (auto simp: dec_pad_def)
  qed (simp add: dec_pad_def)
  then show ?thesis using v ne n by (cases "dec_pad w n") (auto simp: parse_uint_def)
qed

lemma find_unique:
  assumes "x \<in> set xs" "P x" "\<And>y. y \<in> set xs \<Longrightarrow> P y \<Longrightarrow> y = x"
  shows "List.find P xs = Some x"
  using assms
proof (induction xs)
  case (Cons y ys)
  show ?case
  proof (cases "P y")
    case True
    with Cons.prems(3) [of y] show ?thesis by simp
  next
    case False
    with Cons.prems(1,2) have "x \<in> set ys" by auto
    then have "List.find P ys = Some x"
      using Cons.prems(2) by (rule Cons.IH) (rule Cons.prems(3), simp_all)
    with False show ?thesis by simp
  qed
qed simp

lemma log_ok_unique:
  "log_ok ps \<Longrightarrow> p \<in> set ps \<Longrightarrow> q \<in> set ps \<Longrightarrow> room_id p = room_id q \<Longrightarrow> event_id p = event_id q \<Longrightarrow> p = q"
  by (simp add: log_ok_def)

lemma log_find_eq:
  assumes "log_ok ps" "p \<in> set ps"
  shows "log_find ps (room_id p) (event_id p) = Some p"
  unfolding log_find_def using assms by (intro find_unique) (auto intro: log_ok_unique [OF assms(1)])

lemma log_find_Some: "log_find ps room eid = Some p \<Longrightarrow> p \<in> set ps \<and> room_id p = room \<and> event_id p = eid"
  by (induction ps) (auto simp: log_find_def split: if_splits)

lemma find_log_timeline:
  assumes "log_ok ps"
  shows "List.find (\<lambda>p. event_id p = eid) (log_timeline ps room) = log_find ps room eid"
proof (cases "log_find ps room eid")
  case None
  then have "\<forall>p\<in>set ps. room_id p = room \<longrightarrow> event_id p \<noteq> eid" by (auto simp: log_find_def find_None_iff)
  then show ?thesis using None by (auto simp: find_None_iff log_timeline_def)
next
  case (Some p)
  note p = log_find_Some [OF this]
  have "List.find (\<lambda>p. event_id p = eid) (log_timeline ps room) = Some p"
    using p assms by (intro find_unique) (auto simp: log_timeline_def intro: log_ok_unique)
  with Some show ?thesis by simp
qed

text \<open>The slot a key of the state family belongs to, as the loop of \<open>current_state\<close> reads it.\<close>

definition event_of_bytes :: "bytes \<Rightarrow> event_id option" where
  "event_of_bytes v = Option.bind (from_utf8 v) (\<lambda>t. ok (event_id_parse t))"

definition slot_of :: "room_id \<Rightarrow> string \<times> bytes \<Rightarrow> (slot \<times> event_id) option" where
  "slot_of room kv =
     Option.bind (strip_prefix (rooms_prefix room) (fst kv)) (\<lambda>rest.
     Option.bind (split_once SEP rest) (\<lambda>slot. map_option (Pair slot) (event_of_bytes (snd kv))))"

lemma slot_of_Some:
  "slot_of room (key, v) = Some ((k, sk), e) \<longleftrightarrow>
     key = room_state_key room k sk \<and> SEP \<notin> set k \<and> event_of_bytes v = Some e"
  by (auto simp: slot_of_def bind_eq_Some_conv strip_prefix_Some split_once_Some rooms_prefix_def room_state_key_def)

lemma current_state_slots: "fold (current_state_step room) kvs st = fold (\<lambda>(k, v). bt_insert k v) (List.map_filter (slot_of room) kvs) st"
proof (induction kvs arbitrary: st)
  case (Cons kv kvs)
  have "current_state_step room kv st = (case slot_of room kv of None \<Rightarrow> st | Some (k, v) \<Rightarrow> bt_insert k v st)"
    by (auto simp: current_state_step_def slot_of_def event_of_bytes_def split: option.splits prod.splits)
  with Cons show ?case by (auto simp: map_filter_simps split: option.splits)
qed (simp add: map_filter_simps)

lemma room_state_key_inj:
  "SEP \<notin> set (room_as_str r) \<Longrightarrow> SEP \<notin> set (room_as_str r') \<Longrightarrow> SEP \<notin> set k \<Longrightarrow> SEP \<notin> set k' \<Longrightarrow>
   room_state_key r k sk = room_state_key r' k' sk' \<longleftrightarrow> r = r' \<and> k = k' \<and> sk = sk'"
  by (auto simp: room_state_key_def append_eq_append_sep)

lemma state_lookup:
  assumes "\<forall>p\<in>set ps. log_pdu p" "SEP \<notin> set (room_as_str room)" "SEP \<notin> set k"
  shows "map_of (rev (state_entries ps)) (room_state_key room k sk) =
    map_option (\<lambda>e. as_bytes (event_as_str e)) (map_of (rev (slot_entries ps room)) (k, sk))"
  using assms(1)
proof (induction ps rule: rev_induct)
  case (snoc p ps)
  then have "SEP \<notin> set (room_as_str (room_id p))" "SEP \<notin> set (kind p)" by (auto simp: log_pdu_def)
  with snoc assms(2,3) show ?case
    by (auto simp: state_entries_def slot_entries_def room_state_key_inj)
qed (simp add: state_entries_def slot_entries_def)

lemma event_of_bytes_log: "log_pdu p \<Longrightarrow> event_of_bytes (as_bytes (event_as_str (event_id p))) = Some (event_id p)"
  by (auto simp: event_of_bytes_def log_pdu_def codec_ok_def str_ok_def event_ok_def ok_def)

lemma slot_entries_pdu: "((k, sk), e) \<in> set (slot_entries ps room) \<Longrightarrow>
    \<exists>p\<in>set ps. room_id p = room \<and> kind p = k \<and> state_key p = Some sk \<and> event_id p = e"
  by (auto simp: slot_entries_def pdu_is_state_def)

subsection \<open>Reads are functions of the log\<close>

context kv_store
begin

lemma holds_log_append:
  assumes "holds_log ops inv s ps" "length ps < 10 ^ 20"
  shows "holds_log ops inv (room_append ops p s) (ps @ [p])"
proof -
  define s1 where "s1 = fst (st_put ops cf_EVENTS (timeline_key p) (pdu_encode p) s)"
  define s2 where "s2 = append_state ops p s1"
  have i1: "inv s1" using assms(1) by (simp add: s1_def put_inv holds_log_def)
  then have i2: "inv s2" by (auto simp: s2_def append_state_def put_inv split: option.splits prod.splits)
  have sc1: "st_scan ops s1 cf = (if cf = cf_EVENTS then bt_insert (timeline_key p) (pdu_encode p) (st_scan ops s cf_EVENTS)
      else st_scan ops s cf)" for cf
    using assms(1) by (simp add: s1_def scan_put holds_log_def)
  have sc2: "st_scan ops s2 cf_ROOM_STATE = bt_of_list (state_entries (ps @ [p]))"
    "cf \<noteq> cf_ROOM_STATE \<Longrightarrow> st_scan ops s2 cf = st_scan ops s1 cf" for cf
    using i1 assms(1) by (auto simp: s2_def append_state_def pdu_state_tuple_def scan_put sc1 holds_log_def
        state_entries_snoc bt_of_list_snoc split: option.splits)
  have count: "st_count ops s2 cf_EVENT_STREAM = length ps"
    using i2 assms(1) by (simp add: count_scan sc2 sc1 holds_log_def)
  have "room_append ops p s = fst (st_put ops cf_EVENT_STREAM (dec_pad 20 (length ps)) (as_bytes (stream_value p)) s2)"
    by (simp add: room_append_def Let_def count flip: s1_def s2_def)
  moreover have "bt_insert (dec_pad 20 (length ps)) (as_bytes (stream_value p)) (stream_entries ps) = stream_entries (ps @ [p])"
    unfolding stream_entries_snoc using stream_keys_below [OF assms(2)] by (intro bt_insert_greater) blast
  ultimately show ?thesis
    using assms(1) i2 by (simp add: holds_log_def put_inv scan_put sc2 sc1 bt_of_list_snoc)
qed

lemma timeline_log:
  assumes "holds_log ops inv s ps" "log_ok ps" "SEP \<notin> set (room_as_str room)"
  shows "timeline ops s room = log_timeline ps room"
proof -
  let ?kv = "\<lambda>p. (timeline_key p, pdu_encode p)"
  have inj: "inj_on timeline_key (set ps)" using assms(2) by (rule log_ok_functional)
  then have inj': "inj_on ?kv (set ps)" and f: "functional (map ?kv ps)"
    by (auto simp: inj_on_def functional_def)
  have "st_scan ops s cf_EVENTS = map ?kv (sort_key timeline_key (remdups ps))"
    using assms(1) by (simp add: holds_log_def bt_of_list_sort [OF f] remdups_map_inj [OF inj'] sort_key_map comp_def)
  moreover have "starts_with (timeline_key p) (rooms_prefix room) \<longleftrightarrow> room_id p = room" if "p \<in> set ps" for p
    using that assms(2,3) by (simp add: timeline_key_def log_ok_def log_pdu_def starts_with_room)
  then have "filter (\<lambda>(k, _). starts_with k (rooms_prefix room)) (map ?kv (sort_key timeline_key (remdups ps)))
      = map ?kv (filter (\<lambda>p. room_id p = room) (sort_key timeline_key (remdups ps)))"
    by (auto simp: filter_map intro!: arg_cong [where f = "map ?kv"] filter_cong)
  moreover have "List.map_filter (\<lambda>(_, v). pdu_decode v) (map ?kv (filter (\<lambda>p. room_id p = room) (sort_key timeline_key (remdups ps))))
      = filter (\<lambda>p. room_id p = room) (sort_key timeline_key (remdups ps))"
    using assms(2) by (intro map_filter_map_id) (simp add: log_ok_def pdu_decode_encode)
  moreover have "filter (\<lambda>p. room_id p = room) (sort_key timeline_key (remdups ps)) = log_timeline ps room"
    unfolding log_timeline_def filter_sort remdups_filter
    by (rule sort_key_cong_le) (simp add: timeline_key_less linorder_not_less [symmetric] del: linorder_not_less)
  ultimately show ?thesis by (simp add: timeline_def)
qed

lemma room_pdu_log:
  "holds_log ops inv s ps \<Longrightarrow> log_ok ps \<Longrightarrow> SEP \<notin> set (room_as_str room) \<Longrightarrow>
   room_pdu ops s room eid = log_find ps room eid"
  by (simp add: room_pdu_def timeline_log find_log_timeline)

lemma stream_entry_log:
  assumes "holds_log ops inv s ps" "log_ok ps" "p \<in> set ps"
  shows "stream_entry ops s (as_bytes (stream_value p)) = Some p"
proof -
  have p: "log_pdu p" using assms(2,3) by (simp add: log_ok_def)
  then have "utf8_valid (stream_value p)"
    by (auto simp: log_pdu_def codec_ok_def str_ok_def stream_value_def SEP_def utf8_valid_Cons_ascii intro: utf8_valid_append)
  moreover have "split_once SEP (stream_value p) = Some (room_as_str (room_id p), event_as_str (event_id p))"
    using p by (simp add: stream_value_def log_pdu_def)
  moreover have "room_pdu ops s (room_id p) (event_id p) = Some p"
    using assms p by (simp add: room_pdu_log log_find_eq log_pdu_def)
  ultimately show ?thesis
    using p by (simp add: stream_entry_def log_pdu_def codec_ok_def room_ok_def event_ok_def ok_def)
qed

lemma events_since_log:
  assumes "holds_log ops inv s ps" "log_ok ps"
  shows "events_since ops s n = drop n ps"
proof -
  let ?f = "\<lambda>(i, p). (dec_pad 20 i, as_bytes (stream_value p))"
  have "filter (\<lambda>(k, _). case parse_uint (2 ^ 64 - 1) k of Some seq \<Rightarrow> n \<le> seq | None \<Rightarrow> False) (stream_entries ps)
      = map ?f (filter (\<lambda>(i, _). n \<le> i) (enumerate 0 ps))"
    using assms(2) unfolding stream_entries_def filter_map
    by (intro arg_cong [where f = "map ?f"] filter_cong) (auto simp: in_set_enumerate_eq log_ok_def parse_uint_pad)
  moreover have "filter (\<lambda>(i, _). n \<le> i) (enumerate m qs) = drop (n - m) (enumerate m qs)" for m and qs :: "pdu list"
    by (induction qs arbitrary: m) (auto simp: drop_Cons' Suc_diff_le filter_id_conv in_set_enumerate_eq)
  moreover have "List.map_filter (\<lambda>(_, v). stream_entry ops s v) (map ?f (drop n (enumerate 0 ps))) = map snd (drop n (enumerate 0 ps))"
  proof -
    have "(\<lambda>(_, v). stream_entry ops s v) (?f x) = Some (snd x)" if "x \<in> set (drop n (enumerate 0 ps))" for x
      using that assms by (auto simp: stream_entry_log dest!: in_set_dropD simp: in_set_enumerate_eq split: prod.splits)
    then show ?thesis
      by (induction "drop n (enumerate 0 ps)") (auto simp: map_filter_def)
  qed
  ultimately show ?thesis
    using assms(1) by (simp add: events_since_def holds_log_def drop_map [symmetric])
qed

lemma state_event_log:
  assumes "holds_log ops inv s ps" "log_ok ps" "SEP \<notin> set (room_as_str room)" "SEP \<notin> set k"
  shows "state_event ops s room k sk = map_of (log_state ps room) (k, sk)"
proof -
  have "st_get ops s cf_ROOM_STATE (room_state_key room k sk) =
      map_option (\<lambda>e. as_bytes (event_as_str e)) (map_of (log_state ps room) (k, sk))"
    using assms by (simp add: get_scan holds_log_def map_of_bt_of_list log_state_def state_lookup log_ok_def)
  moreover have "event_of_bytes (as_bytes (event_as_str e)) = Some e" if "map_of (log_state ps room) (k, sk) = Some e" for e
    using that assms(2) by (auto simp: log_state_def map_of_bt_of_list log_ok_def event_of_bytes_log
        dest!: map_of_SomeD slot_entries_pdu)
  ultimately show ?thesis
    by (cases "map_of (log_state ps room) (k, sk)") (simp_all add: state_event_def event_of_bytes_def)
qed

lemma current_state_slot:
  assumes "inv s"
  shows "map_of (current_state ops s room) (k, sk) = (if SEP \<in> set k then None else state_event ops s room k sk)"
    and "bt_ok (current_state ops s room)"
proof -
  let ?E = "st_scan ops s cf_ROOM_STATE"
  let ?L = "List.map_filter (slot_of room) ?E"
  have cs: "current_state ops s room = bt_of_list ?L"
    by (simp add: current_state_def current_state_slots bt_of_list_def)
  show "bt_ok (current_state ops s room)" by (simp add: cs)
  have "bt_ok ?E" using assms by (rule scan_sorted)
  then have dE: "distinct (map fst ?E)" by (rule bt_ok_distinct)
  have L: "((k, sk), e) \<in> set ?L \<longleftrightarrow> SEP \<notin> set k \<and> state_event ops s room k sk = Some e" for k sk e
  proof -
    have "((k, sk), e) \<in> set ?L \<longleftrightarrow> (\<exists>key v. (key, v) \<in> set ?E \<and> slot_of room (key, v) = Some ((k, sk), e))"
      by (force simp: map_filter_def)
    then show ?thesis
      using dE by (auto simp: slot_of_Some state_event_def get_scan [OF assms] bind_eq_Some_conv event_of_bytes_def)
  qed
  then have "functional (rev ?L)" by (auto simp: functional_def)
  then have "map_of (current_state ops s room) (k, sk) = Some e \<longleftrightarrow>
      (if SEP \<in> set k then None else state_event ops s room k sk) = Some e" for e
    by (simp add: cs map_of_bt_of_list map_of_functional L)
  then show "map_of (current_state ops s room) (k, sk) = (if SEP \<in> set k then None else state_event ops s room k sk)"
    by (metis not_Some_eq)
qed

lemma current_state_log:
  assumes "holds_log ops inv s ps" "log_ok ps" "SEP \<notin> set (room_as_str room)"
  shows "current_state ops s room = log_state ps room"
proof (rule bt_ext)
  have i: "inv s" using assms(1) by (simp add: holds_log_def)
  show "bt_ok (current_state ops s room)" using i by (rule current_state_slot)
  show "bt_ok (log_state ps room)" by (simp add: log_state_def)
  have "map_of (log_state ps room) (k, sk) = None" if "SEP \<in> set k" for k sk
    using that assms(2) by (auto simp: log_state_def map_of_bt_of_list map_of_eq_None_iff log_ok_def log_pdu_def dest!: slot_entries_pdu)
  then have "map_of (current_state ops s room) (k, sk) = map_of (log_state ps room) (k, sk)" for k sk
    using state_event_log [OF assms] by (simp add: current_state_slot [OF i])
  then show "map_of (current_state ops s room) = map_of (log_state ps room)" by (auto intro!: ext)
qed

text \<open>A room id that holds the separator: its events pass for events of the room before it.\<close>

lemma separator_leak:
  assumes i: "inv s" and p: "codec_ok p" "length (pdu_encode p) < 2 ^ 64" "state_key p = Some sk"
    and r: "room_as_str (room_id p) = room_as_str room @ SEP # x" "SEP \<notin> set x"
    and new: "\<forall>q\<in>set (timeline ops (room_append ops p s) room). event_id q = event_id p \<longrightarrow> q = p"
  shows "p \<in> set (timeline ops (room_append ops p s) room) \<and> p \<in> set (current_state_pdus ops (room_append ops p s) room)"
proof -
  let ?s = "room_append ops p s"
  let ?t = "fst (st_put ops cf_EVENTS (timeline_key p) (pdu_encode p) s)"
  have inv: "inv ?s" using i by (simp add: room_append_def append_state_def pdu_state_tuple_def p Let_def put_inv)
  have "st_scan ops ?s cf_EVENTS = bt_insert (timeline_key p) (pdu_encode p) (st_scan ops s cf_EVENTS)"
    using i by (simp add: room_append_def append_state_def pdu_state_tuple_def p Let_def put_inv scan_put)
  then have "map_of (st_scan ops ?s cf_EVENTS) (timeline_key p) = Some (pdu_encode p)" by simp
  moreover have "starts_with (timeline_key p) (rooms_prefix room)"
    by (auto simp: starts_with_iff timeline_key_def rooms_prefix_def r(1))
  ultimately have tl: "p \<in> set (timeline ops ?s room)"
    using codec_read [OF p(1,2)]
    by (force simp: timeline_def map_filter_def dest: map_of_SomeD)
  have key: "room_state_key (room_id p) (kind p) sk = room_state_key room x (kind p @ SEP # sk)"
    by (simp add: room_state_key_def r(1))
  have "st_get ops ?s cf_ROOM_STATE (room_state_key room x (kind p @ SEP # sk)) = Some (as_bytes (event_as_str (event_id p)))"
    using i by (simp add: room_append_def append_state_def pdu_state_tuple_def p Let_def put_inv get_put flip: key)
  moreover have "utf8_valid (event_as_str (event_id p))" "event_id_parse (event_as_str (event_id p)) = Inr (event_id p)"
    using p(1) by (auto simp: codec_ok_def str_ok_def event_ok_def)
  ultimately have "map_of (current_state ops ?s room) (x, kind p @ SEP # sk) = Some (event_id p)"
    using r(2) by (simp add: current_state_slot [OF inv] state_event_def ok_def)
  then have mem: "((x, kind p @ SEP # sk), event_id p) \<in> set (current_state ops ?s room)" by (rule map_of_SomeD)
  have "room_pdu ops ?s room (event_id p) = Some p"
    unfolding room_pdu_def using tl new by (intro find_unique) auto
  with mem have "p \<in> set (current_state_pdus ops ?s room)"
    by (force simp: current_state_pdus_def map_filter_def)
  with tl show ?thesis by blast
qed

lemma current_state_pdus_log:
  "holds_log ops inv s ps \<Longrightarrow> log_ok ps \<Longrightarrow> SEP \<notin> set (room_as_str room) \<Longrightarrow>
   current_state_pdus ops s room = log_state_pdus ps room"
  by (simp add: current_state_pdus_def current_state_log room_pdu_log log_state_pdus_def)

lemma rooms_log:
  assumes "holds_log ops inv s ps" "log_ok ps"
  shows "set (rooms ops s) = room_id ` set ps \<and> distinct (rooms ops s)"
proof -
  have step: "rooms_step kv seen = (if room_id p \<in> set seen then seen else seen @ [room_id p])"
    if "fst kv = timeline_key p" "log_pdu p" for kv p seen
    using that by (simp add: rooms_step_def timeline_key_def log_pdu_def codec_ok_def room_ok_def)
  have fold: "set (fold rooms_step kvs seen) = set seen \<union> room_id ` set qs \<and> (distinct seen \<longrightarrow> distinct (fold rooms_step kvs seen))"
    if "map fst kvs = map timeline_key qs" "\<forall>q\<in>set qs. log_pdu q" for kvs qs seen
    using that
  proof (induction kvs arbitrary: qs seen)
    case (Cons kv kvs)
    then obtain q qs' where "qs = q # qs'" by (cases qs) auto
    with Cons.prems Cons.IH [of qs' "rooms_step kv seen"] show ?case by (auto simp: step)
  qed simp
  have inj: "inj_on timeline_key (set ps)" using assms(2) by (rule log_ok_functional)
  then have "inj_on (\<lambda>p. (timeline_key p, pdu_encode p)) (set ps)" "functional (map (\<lambda>p. (timeline_key p, pdu_encode p)) ps)"
    by (auto simp: inj_on_def functional_def)
  then have "map fst (st_scan ops s cf_EVENTS) = map timeline_key (sort_key timeline_key (remdups ps))"
    using assms(1) by (simp add: holds_log_def bt_of_list_sort remdups_map_inj sort_key_map comp_def)
  from fold [OF this, of "[]"] assms(2) show ?thesis by (simp add: rooms_def log_ok_def)
qed

lemma state_event_pdu_log:
  assumes "holds_log ops inv s ps" "log_ok ps" "SEP \<notin> set (room_as_str room)" "SEP \<notin> set k"
  shows "state_event_pdu ops s room k sk = Option.bind (map_of (log_state ps room) (k, sk)) (log_find ps room)"
  using assms by (cases "map_of (log_state ps room) (k, sk)") (simp_all add: state_event_pdu_def state_event_log room_pdu_log)

end

lemma log_state_event:
  assumes "map_of (log_state ps room) (k, sk) = Some e"
  shows "\<exists>p\<in>set ps. room_id p = room \<and> kind p = k \<and> state_key p = Some sk \<and> event_id p = e"
  using assms by (auto simp: log_state_def map_of_bt_of_list dest!: map_of_SomeD slot_entries_pdu)

text \<open>The last state event of a slot fills it.\<close>

lemma log_state_snoc:
  "log_state (ps @ [p]) room =
     (if room_id p = room then (case state_key p of Some sk \<Rightarrow> bt_insert (kind p, sk) (event_id p) (log_state ps room) | None \<Rightarrow> log_state ps room)
      else log_state ps room)"
  by (auto simp: log_state_def slot_entries_def pdu_is_state_def bt_of_list_snoc split: option.splits)

lemma log_find_snoc_new:
  "log_find ps room eid = Some p \<Longrightarrow> log_find (ps @ qs) room eid = Some p"
  by (induction ps) (auto simp: log_find_def)

subsection \<open>An empty store and a sequence of appends\<close>

definition shared_new :: shared_store where
  "shared_new = \<lparr>locked = memory_default\<rparr>"

lemma holds_log_shared_new: "holds_log shared_ops shared_inv shared_new []"
  by (simp add: holds_log_def shared_sel shared_new_def shared_inv_def memory_inv_def memory_default_def
      memory_ops_def memory_scan_def bt_of_list_def state_entries_def stream_entries_def)

lemma holds_log_appends:
  "length ps < 10 ^ 20 \<Longrightarrow> holds_log shared_ops shared_inv (fold (room_append shared_ops) ps shared_new) ps"
  by (induction ps rule: rev_induct) (simp_all add: holds_log_shared_new shared.holds_log_append)

text \<open>C10: The room service over the shared store implements the log of appended events, as long as their room
  ids, event ids and kinds hold no unit separator, no two different events of a room share an id, and
  each event fits its record: a timeline is the room's events by depth and id, the stream from a
  position is the log from there, a slot of the current state holds the last event appended for it,
  and the rooms are those of the log.\<close>

theorem rooms_refine_log:
  assumes "log_ok ps" "SEP \<notin> set (room_as_str room)"
    and "s = fold (room_append shared_ops) ps shared_new"
  shows "timeline shared_ops s room = log_timeline ps room \<and>
    events_since shared_ops s n = drop n ps \<and> stream_len shared_ops s = length ps \<and>
    current_state shared_ops s room = log_state ps room \<and>
    current_state_pdus shared_ops s room = log_state_pdus ps room \<and>
    set (rooms shared_ops s) = room_id ` set ps \<and> distinct (rooms shared_ops s)"
proof -
  have "length ps < 10 ^ 20" using assms(1) by (simp add: log_ok_def)
  then have h: "holds_log shared_ops shared_inv s ps"
    using assms(3) holds_log_appends by simp
  then have "stream_len shared_ops s = length ps"
    by (simp add: stream_len_def shared.count_scan holds_log_def)
  with h assms(1,2) show ?thesis
    by (simp add: shared.timeline_log shared.events_since_log shared.current_state_log
        shared.current_state_pdus_log shared.rooms_log)
qed

lemma log_ok_sample: "log_ok [codec_sample]"
  using codec_sample_ok
  by (simp add: log_ok_def log_pdu_def pdu_encode_bytes str_bytes_def key_bytes_def events_bytes_def codec_sample_def SEP_def)

theorem rooms_refine_log_witness:
  "timeline shared_ops (room_append shared_ops codec_sample shared_new) (RoomId ''!r:x'') = [codec_sample]"
  using rooms_refine_log [OF log_ok_sample _ refl, of "RoomId ''!r:x''"]
  by (simp add: log_timeline_def codec_sample_def SEP_def)

text \<open>Room ids may hold the key separator, and then rooms are not isolated: a state event of the room
  \<open>r SEP x\<close> is in the timeline of \<open>r\<close> and among the state events that authorize events in \<open>r\<close>.\<close>

theorem room_separator_leak:
  assumes "shared_inv s" "codec_ok p" "length (pdu_encode p) < 2 ^ 64" "state_key p = Some sk"
    and "room_as_str (room_id p) = room_as_str room @ SEP # x" "SEP \<notin> set x"
    and "\<forall>q\<in>set (timeline shared_ops (room_append shared_ops p s) room). event_id q = event_id p \<longrightarrow> q = p"
  shows "room_id p \<noteq> room \<and> p \<in> set (timeline shared_ops (room_append shared_ops p s) room) \<and>
    p \<in> set (current_state_pdus shared_ops (room_append shared_ops p s) room)"
proof -
  have "room_as_str (room_id p) \<noteq> room_as_str room" using assms(5) by simp
  then show ?thesis using shared.separator_leak [OF assms] by auto
qed

definition leaking_sample :: pdu where
  "leaking_sample = codec_sample\<lparr>room_id := RoomId (''!r:x'' @ SEP # ''y''), kind := ''m.room.power_levels'', state_key := Some []\<rparr>"

lemma leaking_sample_ok: "codec_ok leaking_sample" "length (pdu_encode leaking_sample) < 2 ^ 64"
  by (simp_all add: codec_ok_def leaking_sample_def codec_sample_def str_ok_def ascii_utf8_valid event_ok_def room_ok_def
      user_ok_def event_id_parse_def room_id_parse_def user_id_parse_def split_sigil_def SEP_def
      pdu_encode_bytes str_bytes_def key_bytes_def events_bytes_def)

lemma leaking_sample_timeline: "set (timeline shared_ops (room_append shared_ops leaking_sample shared_new) room) \<subseteq> {leaking_sample}"
proof -
  have "st_scan shared_ops (room_append shared_ops leaking_sample shared_new) cf_EVENTS = [(timeline_key leaking_sample, pdu_encode leaking_sample)]"
    using holds_log_appends [of "[leaking_sample]"] by (simp add: holds_log_def bt_of_list_def)
  then show ?thesis using codec_read [OF leaking_sample_ok] by (auto simp: timeline_def map_filter_def)
qed

theorem room_separator_leak_witness:
  "leaking_sample \<in> set (current_state_pdus shared_ops (room_append shared_ops leaking_sample shared_new) (RoomId ''!r:x''))"
  using room_separator_leak [OF _ leaking_sample_ok, of shared_new "[]" "RoomId ''!r:x''" "''y''"] leaking_sample_timeline
  by (auto simp: leaking_sample_def shared_new_def shared_inv_def SEP_def)

end
