(* ===== verification/Accounts.thy ===== *)
theory Accounts
  imports AuditLog Ids Json
begin

section \<open>Accounts and sessions (gm-svc, accounts.rs and session.rs)\<close>

text \<open>
  Password verifiers and access tokens in two column families of a store.  The standard library's
  hasher is a parameter \<open>sip\<close> from the bytes fed to it to its 64-bit result.  The lemmas say, in the
  contract of a store, whom a password or a token authenticates; where two inputs have to hash
  differently, the conclusion exhibits the collision.
\<close>

text \<open>\<open>{:016x}\<close> of a 64-bit integer.\<close>

fun hex_fixed :: "nat \<Rightarrow> nat \<Rightarrow> string" where
  "hex_fixed 0 n = []"
| "hex_fixed (Suc w) n = hex_fixed w (n div 16) @ [hex_digit (n mod 16)]"

definition hex16 :: "u64 \<Rightarrow> string" where
  "hex16 n = hex_fixed 16 (unat n)"

subsection \<open>Accounts\<close>

definition verifier :: "(bytes \<Rightarrow> u64) \<Rightarrow> user_id \<Rightarrow> string \<Rightarrow> string" where
  "verifier sip user password = ''v1$'' @ hex16 (sip (feed_str (user_as_str user) @ [0x5C] @ feed_str password))"

definition account_register :: "'s store_ops \<Rightarrow> (bytes \<Rightarrow> u64) \<Rightarrow> user_id \<Rightarrow> string \<Rightarrow> 's \<Rightarrow> 's" where
  "account_register ops sip user password s =
     fst (st_put ops cf_ACCOUNTS (user_as_str user) (as_bytes (verifier sip user password)) s)"

definition account_verify :: "'s store_ops \<Rightarrow> (bytes \<Rightarrow> u64) \<Rightarrow> user_id \<Rightarrow> string \<Rightarrow> 's \<Rightarrow> bool" where
  "account_verify ops sip user password s =
     (case st_get ops s cf_ACCOUNTS (user_as_str user) of
        Some stored \<Rightarrow> stored = as_bytes (verifier sip user password)
      | None \<Rightarrow> False)"

definition account_exists :: "'s store_ops \<Rightarrow> user_id \<Rightarrow> 's \<Rightarrow> bool" where
  "account_exists ops user s \<longleftrightarrow> st_get ops s cf_ACCOUNTS (user_as_str user) \<noteq> None"

subsection \<open>Sessions\<close>

definition session_input :: "user_id \<Rightarrow> nat \<Rightarrow> bytes" where
  "session_input user n = feed_str (user_as_str user) @ [0xA7] @ le_bytes 8 n"

definition session_mint :: "'s store_ops \<Rightarrow> (bytes \<Rightarrow> u64) \<Rightarrow> user_id \<Rightarrow> 's \<Rightarrow> string" where
  "session_mint ops sip user s = ''gmt_'' @ hex16 (sip (session_input user (st_count ops s cf_ACCESS_TOKENS)))"

definition session_create :: "'s store_ops \<Rightarrow> (bytes \<Rightarrow> u64) \<Rightarrow> user_id \<Rightarrow> 's \<Rightarrow> string \<times> 's" where
  "session_create ops sip user s =
     (let token = session_mint ops sip user s
      in (token, fst (st_put ops cf_ACCESS_TOKENS token (as_bytes (user_as_str user)) s)))"

definition session_revoke :: "'s store_ops \<Rightarrow> string \<Rightarrow> 's \<Rightarrow> 's" where
  "session_revoke ops token s = fst (st_delete ops cf_ACCESS_TOKENS token s)"

definition session_user_for :: "'s store_ops \<Rightarrow> 's \<Rightarrow> string \<Rightarrow> user_id option" where
  "session_user_for ops s token =
     Option.bind (st_get ops s cf_ACCESS_TOKENS token) (\<lambda>v.
     Option.bind (from_utf8 v) (\<lambda>t. case user_id_parse t of Inl _ \<Rightarrow> None | Inr u \<Rightarrow> Some u))"

subsection \<open>Hexadecimal numbers and hash inputs\<close>

lemma hex_digit_inj: "a < 16 \<Longrightarrow> b < 16 \<Longrightarrow> hex_digit a = hex_digit b \<longleftrightarrow> a = b"
  by (metis hex_val_digit option.inject)

lemma hex_fixed_inj: "m < 16 ^ w \<Longrightarrow> n < 16 ^ w \<Longrightarrow> hex_fixed w m = hex_fixed w n \<Longrightarrow> m = n"
proof (induction w arbitrary: m n)
  case (Suc w)
  have "m div 16 < 16 ^ w" "n div 16 < 16 ^ w"
    using Suc.prems(1,2) by (simp_all add: less_mult_imp_div_less mult.commute)
  with Suc have "m div 16 = n div 16" "m mod 16 = n mod 16"
    by (auto simp: hex_digit_inj)
  then show ?case by (metis div_mult_mod_eq)
qed simp

lemma hex16_inj [simp]: "hex16 a = hex16 b \<longleftrightarrow> a = b"
proof
  have "unat x < 16 ^ 16" for x :: u64 using unsigned_less [of x, where ?'a = nat] by simp
  then show "hex16 a = hex16 b \<Longrightarrow> a = b"
    using hex_fixed_inj [of "unat a" 16 "unat b"] by (simp add: hex16_def word_eq_iff_unsigned [where ?'a = nat])
qed simp

lemma feed_str_inj:
  assumes "utf8_valid a" "utf8_valid b" "feed_str a @ x = feed_str b @ y"
  shows "a = b \<and> x = y"
proof -
  have "as_bytes a = as_bytes b \<and> x = y"
    using assms by (intro append_FF_inj) (simp_all add: feed_str_def FF_not_in_as_bytes)
  then show ?thesis by simp
qed

lemma feed_str_inj_iff: "utf8_valid a \<Longrightarrow> utf8_valid b \<Longrightarrow> feed_str a = feed_str b \<longleftrightarrow> a = b"
  using feed_str_inj [of a b "[]" "[]"] by auto

lemma session_input_inj:
  assumes "utf8_valid (user_as_str u)" "utf8_valid (user_as_str u')" "m < 2 ^ 64" "n < 2 ^ 64"
  shows "session_input u m = session_input u' n \<longleftrightarrow> u = u' \<and> m = n"
proof
  assume "session_input u m = session_input u' n"
  then have "user_as_str u = user_as_str u' \<and> [0xA7] @ le_bytes 8 m = [0xA7] @ le_bytes 8 n"
    using assms(1,2) unfolding session_input_def by (intro feed_str_inj)
  then show "u = u' \<and> m = n" using le_bytes_inj [of m 8 n] assms(3,4) by simp
qed simp

text \<open>The bytes hashed for a verifier: the password, behind the user and a separator.\<close>

definition verifier_input :: "user_id \<Rightarrow> string \<Rightarrow> bytes" where
  "verifier_input user password = feed_str (user_as_str user) @ [0x5C] @ feed_str password"

lemma verifier_input_inj:
  "utf8_valid pw \<Longrightarrow> utf8_valid qw \<Longrightarrow> verifier_input u pw = verifier_input u qw \<longleftrightarrow> pw = qw"
  by (simp add: verifier_input_def feed_str_inj_iff)

lemma verifier_eq: "verifier sip u pw = verifier sip v qw \<longleftrightarrow> sip (verifier_input u pw) = sip (verifier_input v qw)"
  by (simp add: verifier_def verifier_input_def)

subsection \<open>Whom a password and a token authenticate\<close>

context kv_store
begin

lemma account_verify_register:
  "inv s \<Longrightarrow> account_verify ops sip u pw (account_register ops sip v qw s) \<longleftrightarrow>
     (if u = v then verifier sip v qw = verifier sip u pw else account_verify ops sip u pw s)"
  by (simp add: account_verify_def account_register_def get_put)

lemma session_user_created:
  assumes "inv s" "user_ok u" "utf8_valid (user_as_str u)" "session_create ops sip u s = (token, s')"
  shows "session_user_for ops s' t = (if t = token then Some u else session_user_for ops s t)"
  using assms by (auto simp: session_create_def Let_def session_user_for_def get_put user_ok_def)

lemma session_user_revoked:
  "inv s \<Longrightarrow> session_user_for ops (session_revoke ops token s) t = (if t = token then None else session_user_for ops s t)"
  by (simp add: session_revoke_def session_user_for_def get_delete)

text \<open>A token freed by a logout is minted again by the next login.\<close>

lemma session_token_returns:
  assumes "inv s" "session_create ops sip u s = (token, s1)" "session_user_for ops s token = None"
    "st_get ops s cf_ACCESS_TOKENS token = None"
  shows "fst (session_create ops sip u (session_revoke ops token s1)) = token"
proof -
  have tok: "token = session_mint ops sip u s" and s1: "s1 = fst (st_put ops cf_ACCESS_TOKENS token (as_bytes (user_as_str u)) s)"
    using assms(2) by (auto simp: session_create_def Let_def)
  have i1: "inv s1" using assms(1) by (simp add: s1 put_inv)
  let ?m = "st_scan ops s cf_ACCESS_TOKENS"
  have "bt_remove token (bt_insert token v ?m) = ?m" for v
  proof (rule bt_ext)
    have "bt_ok ?m" using assms(1) by (rule scan_sorted)
    then show "bt_ok ?m" "bt_ok (bt_remove token (bt_insert token v ?m))" by auto
    show "map_of (bt_remove token (bt_insert token v ?m)) = map_of ?m"
      using assms(4) by (auto simp: get_scan [OF assms(1)])
  qed
  then have "st_count ops (session_revoke ops token s1) cf_ACCESS_TOKENS = st_count ops s cf_ACCESS_TOKENS"
    using assms(1) i1 by (simp add: session_revoke_def count_scan delete_inv scan_delete) (simp add: s1 scan_put)
  then show ?thesis by (simp add: session_create_def Let_def tok session_mint_def)
qed

end

end
