(* ===== verification/Federation.thy ===== *)
theory Federation
  imports Pdu
begin

section \<open>Federation: transactions and request signatures (gm-fed)\<close>

text \<open>
  The transfer envelopes with their JSON forms, the completeness of a joined room's state, and the
  \<open>X-Matrix\<close> request signature: its header, the canonical bytes it signs, and the calls of the
  signature scheme.  The lemmas read envelopes and headers back and show what the signed bytes
  commit to.
\<close>

subsection \<open>Envelopes (lib.rs)\<close>

record edu =
  edu_type :: string
  edu_content_json :: string

datatype fed_error =
    FedMissingField string
  | FedInvalidField string

fun fed_error_display :: "fed_error \<Rightarrow> string" where
  "fed_error_display (FedMissingField k) = ''missing federation field: '' @ k"
| "fed_error_display (FedInvalidField k) = ''invalid federation field: '' @ k"

definition edu_to_json :: "edu \<Rightarrow> json" where
  "edu_to_json e =
     JObject (bt_insert ''content'' (case json_parse_ok (edu_content_json e) of Some c \<Rightarrow> c | None \<Rightarrow> JObject [])
       (bt_insert ''edu_type'' (JString (edu_type e)) []))"

definition edu_from_json :: "json \<Rightarrow> fed_error + edu" where
  "edu_from_json value =
     and_then (ok_or (FedInvalidField ''edu_type'') (Option.bind (json_get value ''edu_type'') as_str)) (\<lambda>t.
       Inr \<lparr>edu_type = t,
            edu_content_json = (case json_get value ''content'' of Some c \<Rightarrow> json_write c | None \<Rightarrow> ''{}'')\<rparr>)"

record transaction =
  txn_origin :: string
  txn_origin_server_ts :: u64
  txn_pdus :: "pdu list"
  txn_edus :: "edu list"

definition transaction_new :: "string \<Rightarrow> u64 \<Rightarrow> transaction" where
  "transaction_new origin ts = \<lparr>txn_origin = origin, txn_origin_server_ts = ts, txn_pdus = [], txn_edus = []\<rparr>"

definition transaction_is_empty :: "transaction \<Rightarrow> bool" where
  "transaction_is_empty t \<longleftrightarrow> txn_pdus t = [] \<and> txn_edus t = []"

definition transaction_to_json :: "transaction \<Rightarrow> json" where
  "transaction_to_json t =
     (let obj = bt_insert ''origin'' (JString (txn_origin t)) [];
          obj = bt_insert ''origin_server_ts'' (JNumber (f64_of_nat (unat (txn_origin_server_ts t)))) obj;
          obj = bt_insert ''pdus'' (JArray (map pdu_to_json (txn_pdus t))) obj;
          obj = bt_insert ''edus'' (JArray (map edu_to_json (txn_edus t))) obj
      in JObject obj)"

definition array_field :: "json \<Rightarrow> string \<Rightarrow> fed_error + json list" where
  "array_field value key =
     and_then (ok_or (FedMissingField key) (json_get value key)) (\<lambda>v. ok_or (FedInvalidField key) (as_array v))"

text \<open>The loops that read every element, or refuse at the first bad one.\<close>

fun collect_results :: "('e + 'a) list \<Rightarrow> 'e + 'a list" where
  "collect_results [] = Inr []"
| "collect_results (r # rs) = and_then r (\<lambda>x. and_then (collect_results rs) (\<lambda>xs. Inr (x # xs)))"

definition transaction_from_json :: "json \<Rightarrow> fed_error + transaction" where
  "transaction_from_json value =
     and_then (ok_or (FedInvalidField ''origin'') (Option.bind (json_get value ''origin'') as_str)) (\<lambda>origin.
     and_then (ok_or (FedInvalidField ''origin_server_ts'') (Option.bind (json_get value ''origin_server_ts'') as_u64)) (\<lambda>ts.
     and_then (array_field value ''pdus'') (\<lambda>items.
     and_then (collect_results (map (\<lambda>v. map_err (\<lambda>_. FedInvalidField ''pdus'') (pdu_from_json v)) items)) (\<lambda>pdus.
     and_then (case json_get value ''edus'' of
                 None \<Rightarrow> Inr []
               | Some v \<Rightarrow> and_then (ok_or (FedInvalidField ''edus'') (as_array v)) (\<lambda>items. collect_results (map edu_from_json items))) (\<lambda>edus.
       Inr \<lparr>txn_origin = origin, txn_origin_server_ts = ts, txn_pdus = pdus, txn_edus = edus\<rparr>)))))"

subsection \<open>Partial-state joins\<close>

datatype join_state = FullState | PartialState nat

fun join_is_interactive :: "join_state \<Rightarrow> bool" where
  "join_is_interactive _ = True"

fun join_advance :: "join_state \<Rightarrow> nat \<Rightarrow> join_state" where
  "join_advance FullState fetched = FullState"
| "join_advance (PartialState outstanding) fetched =
     (let remaining = outstanding - fetched in if remaining = 0 then FullState else PartialState remaining)"

subsection \<open>Request signatures (auth.rs)\<close>

record xmatrix_auth =
  xm_origin :: string
  xm_destination :: "string option"
  xm_key_id :: string
  xm_signature :: string

definition strip_scheme :: "string \<Rightarrow> string option" where
  "strip_scheme header =
     (let header = trim_start header in
      Option.bind (str_get_to 8 header) (\<lambda>scheme.
        if eq_ignore_ascii_case scheme ''X-Matrix'' then Some (trim_start (drop 8 header)) else None))"

text \<open>The loop of \<open>split_fields\<close>: its variables \<open>in_quotes\<close>, \<open>current\<close> and \<open>fields\<close>.\<close>

fun split_fields_loop :: "bool \<Rightarrow> string \<Rightarrow> string list \<Rightarrow> string \<Rightarrow> string list" where
  "split_fields_loop q current fs [] = (if trim current \<noteq> [] then fs @ [current] else fs)"
| "split_fields_loop q current fs (c # cs) =
     (if c = CHR 0x22 then split_fields_loop (\<not> q) (current @ [c]) fs cs
      else if c = CHR '','' \<and> \<not> q then split_fields_loop q [] (fs @ [current]) cs
      else split_fields_loop q (current @ [c]) fs cs)"

definition split_fields :: "string \<Rightarrow> string list" where
  "split_fields params = split_fields_loop False [] [] params"

definition strip_suffix :: "string \<Rightarrow> string \<Rightarrow> string option" where
  "strip_suffix p s = map_option rev (strip_prefix (rev p) (rev s))"

definition unquote :: "string \<Rightarrow> string" where
  "unquote value =
     (case Option.bind (strip_prefix [CHR 0x22] value) (strip_suffix [CHR 0x22]) of Some v \<Rightarrow> v | None \<Rightarrow> value)"

text \<open>One round of the loop of \<open>parse\<close> over its four variables; None is the early return.\<close>

record xmatrix_fields =
  f_origin :: "string option"
  f_destination :: "string option"
  f_key :: "string option"
  f_sig :: "string option"

definition parse_field :: "string \<Rightarrow> xmatrix_fields \<Rightarrow> xmatrix_fields option" where
  "parse_field field v =
     Option.bind (split_once (CHR ''='') field) (\<lambda>(nm, value).
       let value = unquote (trim value); nm = trim nm in
       Some (if nm = ''origin'' then v\<lparr>f_origin := Some value\<rparr>
             else if nm = ''destination'' then v\<lparr>f_destination := Some value\<rparr>
             else if nm = ''key'' then v\<lparr>f_key := Some value\<rparr>
             else if nm = ''sig'' then v\<lparr>f_sig := Some value\<rparr>
             else v))"

fun parse_fields :: "string list \<Rightarrow> xmatrix_fields \<Rightarrow> xmatrix_fields option" where
  "parse_fields [] v = Some v"
| "parse_fields (field # fs) v = Option.bind (parse_field field v) (parse_fields fs)"

definition xmatrix_parse :: "string \<Rightarrow> xmatrix_auth option" where
  "xmatrix_parse header =
     Option.bind (strip_scheme header) (\<lambda>rest.
     Option.bind (parse_fields (split_fields rest) \<lparr>f_origin = None, f_destination = None, f_key = None, f_sig = None\<rparr>) (\<lambda>v.
     Option.bind (f_origin v) (\<lambda>origin.
     Option.bind (f_key v) (\<lambda>k.
     Option.bind (f_sig v) (\<lambda>sg.
       Some \<lparr>xm_origin = origin, xm_destination = f_destination v, xm_key_id = k, xm_signature = sg\<rparr>)))))"

definition quote_field :: "string \<Rightarrow> string \<Rightarrow> string" where
  "quote_field nm value = nm @ ''='' @ [CHR 0x22] @ value @ [CHR 0x22]"

definition xmatrix_to_header :: "xmatrix_auth \<Rightarrow> string" where
  "xmatrix_to_header a =
     ''X-Matrix '' @ quote_field ''origin'' (xm_origin a) @ '','' @
     (case xm_destination a of Some d \<Rightarrow> quote_field ''destination'' d @ '','' | None \<Rightarrow> []) @
     quote_field ''key'' (xm_key_id a) @ '','' @ quote_field ''sig'' (xm_signature a)"

text \<open>The signed object, as its canonical JSON text.\<close>

definition signing_object :: "string \<Rightarrow> string \<Rightarrow> string \<Rightarrow> string \<Rightarrow> string option \<Rightarrow> (string, json) btree" where
  "signing_object method uri origin destination content =
     (let obj = bt_insert ''method'' (JString method) [];
          obj = bt_insert ''uri'' (JString uri) obj;
          obj = bt_insert ''origin'' (JString origin) obj;
          obj = bt_insert ''destination'' (JString destination) obj
      in case Option.bind content json_parse_ok of Some c \<Rightarrow> bt_insert ''content'' c obj | None \<Rightarrow> obj)"

definition signing_bytes :: "string \<Rightarrow> string \<Rightarrow> string \<Rightarrow> string \<Rightarrow> string option \<Rightarrow> bytes" where
  "signing_bytes method uri origin destination content =
     as_bytes (json_write (JObject (signing_object method uri origin destination content)))"

definition fed_sign :: "bytes \<Rightarrow> string \<Rightarrow> string" where
  "fed_sign b seed = sign_b64 b seed"

definition fed_verify :: "bytes \<Rightarrow> string \<Rightarrow> string \<Rightarrow> bool" where
  "fed_verify b signature pk = verify_b64 b signature pk"

subsection \<open>Headers read back\<close>

definition quotable :: "string \<Rightarrow> bool" where
  "quotable v \<longleftrightarrow> utf8_valid v \<and> CHR 0x22 \<notin> set v"

lemma split_fields_plain:
  "\<forall>c\<in>set s. c \<noteq> CHR 0x22 \<and> (q \<or> c \<noteq> CHR '','') \<Longrightarrow>
   split_fields_loop q cur fs (s @ r) = split_fields_loop q (cur @ s) fs r"
  by (induction s arbitrary: cur) auto

definition field_name :: "string \<Rightarrow> bool" where
  "field_name nm \<longleftrightarrow> ascii nm \<and> nm \<noteq> [] \<and> (\<forall>c\<in>set nm. c \<noteq> CHR 0x22 \<and> c \<noteq> CHR '','' \<and> c \<noteq> CHR ''='' \<and> \<not> is_whitespace (ch c))"

lemma split_fields_quoted:
  assumes "field_name nm" "quotable v"
  shows "split_fields_loop False [] fs (quote_field nm v @ r) = split_fields_loop False (quote_field nm v) fs r"
proof -
  have "split_fields_loop False [] fs ((nm @ ''='') @ CHR 0x22 # v @ CHR 0x22 # r) =
      split_fields_loop False (nm @ ''='') fs (CHR 0x22 # v @ CHR 0x22 # r)"
    using assms(1) by (subst split_fields_plain) (auto simp: field_name_def)
  also have "\<dots> = split_fields_loop True ((nm @ ''='') @ [CHR 0x22]) fs (v @ CHR 0x22 # r)" by simp
  also have "\<dots> = split_fields_loop True (((nm @ ''='') @ [CHR 0x22]) @ v) fs (CHR 0x22 # r)"
    using assms(2) by (intro split_fields_plain) (auto simp: quotable_def)
  finally show ?thesis by (simp add: quote_field_def)
qed

lemma str_chars_quoted: "utf8_valid v \<Longrightarrow> str_chars (CHR 0x22 # v @ [CHR 0x22]) = 34 # str_chars v @ [34]"
  by (simp add: str_chars_Cons_ascii str_chars_append utf8_valid_append utf8_valid_Cons_ascii)

lemma utf8_valid_quoted: "utf8_valid v \<Longrightarrow> utf8_valid (CHR 0x22 # v @ [CHR 0x22])"
  by (simp add: utf8_valid_append utf8_valid_Cons_ascii)

lemma trim_quoted: "utf8_valid v \<Longrightarrow> trim (CHR 0x22 # v @ [CHR 0x22]) = CHR 0x22 # v @ [CHR 0x22]"
  by (intro trim_id utf8_valid_quoted) (simp_all add: str_chars_quoted is_whitespace_def)

lemma trim_name:
  assumes "field_name nm"
  shows "trim nm = nm"
proof (rule trim_id)
  have ne: "nm \<noteq> []" "ascii nm" and ws: "\<And>c. c \<in> set nm \<Longrightarrow> \<not> is_whitespace (ch c)"
    using assms by (simp_all add: field_name_def)
  then show "utf8_valid nm" by (simp add: ascii_utf8_valid)
  have "hd (str_chars nm) = ch (hd nm)" "last (str_chars nm) = ch (last nm)"
    using ne by (simp_all add: str_chars_ascii hd_map last_map)
  with ws ne show "str_chars nm = [] \<or> (\<not> is_whitespace (hd (str_chars nm)) \<and> \<not> is_whitespace (last (str_chars nm)))"
    by simp
qed

lemma unquote_quoted: "unquote (CHR 0x22 # v @ [CHR 0x22]) = v"
  by (simp add: unquote_def strip_suffix_def)

lemma utf8_valid_quote_field: "field_name nm \<Longrightarrow> quotable v \<Longrightarrow> utf8_valid (quote_field nm v)"
  by (simp add: quote_field_def quotable_def field_name_def utf8_valid_Cons_ascii utf8_valid_append ascii_utf8_valid)

lemma parse_field_quoted:
  assumes "field_name nm" "quotable v"
  shows "parse_field (quote_field nm v) fs =
    Some (if nm = ''origin'' then fs\<lparr>f_origin := Some v\<rparr>
          else if nm = ''destination'' then fs\<lparr>f_destination := Some v\<rparr>
          else if nm = ''key'' then fs\<lparr>f_key := Some v\<rparr>
          else if nm = ''sig'' then fs\<lparr>f_sig := Some v\<rparr> else fs)"
proof -
  have "CHR ''='' \<notin> set nm" using assms(1) by (auto simp: field_name_def)
  then have "split_once (CHR ''='') (quote_field nm v) = Some (nm, CHR 0x22 # v @ [CHR 0x22])"
    by (simp add: quote_field_def)
  then show ?thesis
    using assms by (simp add: parse_field_def trim_quoted trim_name unquote_quoted quotable_def Let_def)
qed

lemma field_names: "field_name ''origin''" "field_name ''destination''" "field_name ''key''" "field_name ''sig''"
  by (simp_all add: field_name_def is_whitespace_def)

lemma split_fields_next:
  "field_name nm \<Longrightarrow> quotable v \<Longrightarrow>
   split_fields_loop False [] fs (quote_field nm v @ CHR '','' # r) = split_fields_loop False [] (fs @ [quote_field nm v]) r"
  by (simp add: split_fields_quoted)

lemma split_fields_end:
  assumes "field_name nm" "quotable v"
  shows "split_fields_loop False [] fs (quote_field nm v) = fs @ [quote_field nm v]"
proof -
  have "str_chars (quote_field nm v) = map ch nm @ 61 # 34 # str_chars v @ [34]"
    using assms by (simp add: quote_field_def str_chars_append str_chars_Cons_ascii str_chars_ascii field_name_def
        quotable_def utf8_valid_append utf8_valid_Cons_ascii ascii_utf8_valid)
  then have "trim (quote_field nm v) = quote_field nm v"
    using assms by (intro trim_id utf8_valid_quote_field) (auto simp: is_whitespace_def field_name_def hd_append hd_map)
  moreover have "quote_field nm v \<noteq> []" by (simp add: quote_field_def)
  ultimately show ?thesis using split_fields_quoted [OF assms, of fs "[]"] by simp
qed

lemma xmatrix_roundtrip:
  assumes "quotable (xm_origin a)" "quotable (xm_key_id a)" "quotable (xm_signature a)"
    and "\<And>d. xm_destination a = Some d \<Longrightarrow> quotable d"
  shows "xmatrix_parse (xmatrix_to_header a) = Some a"
proof -
  define rest where "rest = quote_field ''origin'' (xm_origin a) @ '','' @
     (case xm_destination a of Some d \<Rightarrow> quote_field ''destination'' d @ '','' | None \<Rightarrow> []) @
     quote_field ''key'' (xm_key_id a) @ '','' @ quote_field ''sig'' (xm_signature a)"
  have v: "utf8_valid rest"
    using assms by (auto simp: rest_def utf8_valid_Cons_ascii utf8_valid_append utf8_valid_quote_field field_names split: option.split)
  have h: "xmatrix_to_header a = ''X-Matrix '' @ rest" by (simp add: xmatrix_to_header_def rest_def)
  have r: "\<exists>r. rest = CHR ''o'' # r" by (simp add: rest_def quote_field_def)
  then obtain r' where r': "rest = CHR ''o'' # r'" ..
  have vr: "utf8_valid r'" using v by (simp add: r' utf8_valid_Cons_ascii)
  have "trim_start (''X-Matrix '' @ rest) = ''X-Matrix '' @ rest"
    using v by (intro trim_start_id) (auto simp: str_chars_Cons_ascii utf8_valid_Cons_ascii is_whitespace_def)
  moreover have "trim_start (CHR '' '' # rest) = rest"
    using v vr utf8_string_str_chars [OF v] by (simp add: trim_start_def str_chars_Cons_ascii r' utf8_valid_Cons_ascii is_whitespace_def)
  ultimately have "strip_scheme (xmatrix_to_header a) = Some rest"
    by (simp add: strip_scheme_def h str_get_to_def cont_def eq_ignore_ascii_case_def Let_def)
  moreover have "split_fields rest = [quote_field ''origin'' (xm_origin a)] @
      (case xm_destination a of Some d \<Rightarrow> [quote_field ''destination'' d] | None \<Rightarrow> []) @
      [quote_field ''key'' (xm_key_id a), quote_field ''sig'' (xm_signature a)]"
    using assms by (auto simp: split_fields_def rest_def split_fields_next split_fields_end field_names split: option.split)
  ultimately show ?thesis
    using assms by (cases a) (auto simp: xmatrix_parse_def parse_field_quoted field_names split: option.split)
qed

subsection \<open>What a request signature commits to\<close>

definition signable :: "string \<Rightarrow> string \<Rightarrow> string \<Rightarrow> string \<Rightarrow> string option \<Rightarrow> bool" where
  "signable method uri origin destination content \<longleftrightarrow>
     utf8_valid method \<and> utf8_valid uri \<and> utf8_valid origin \<and> utf8_valid destination \<and>
     (\<forall>c. Option.bind content json_parse_ok = Some c \<longrightarrow> json_ok (MAX_DEPTH - 1) c \<and> json_finite c)"

lemma map_of_signing_object:
  "map_of (signing_object m u org d c) =
     [''method'' \<mapsto> JString m, ''uri'' \<mapsto> JString u, ''origin'' \<mapsto> JString org, ''destination'' \<mapsto> JString d]
     (''content'' := Option.bind c json_parse_ok)"
  by (rule ext) (auto simp: signing_object_def Let_def split: option.splits)

lemma bt_ok_signing_object: "bt_ok (signing_object m u org d c)"
  by (auto simp: signing_object_def Let_def bt_ok_def split: option.splits)

lemma signing_object_ok:
  "signable m u org d c \<Longrightarrow> json_ok MAX_DEPTH (JObject (signing_object m u org d c)) \<and> json_finite (JObject (signing_object m u org d c))"
  by (rule json_ok_root [OF bt_ok_signing_object])
    (auto simp: map_of_signing_object signable_def ascii_utf8_valid split: if_splits)

text \<open>The bytes a federation request is signed over commit to its method, URI, origin and destination and
  to its parsed body: two requests signed over the same bytes agree in all of them.\<close>

theorem request_signature_binds:
  assumes "signable m u org d c" "signable m' u' org' d' c'"
    and "signing_bytes m u org d c = signing_bytes m' u' org' d' c'"
  shows "m = m' \<and> u = u' \<and> org = org' \<and> d = d' \<and> Option.bind c json_parse_ok = Option.bind c' json_parse_ok"
proof -
  have "JObject (signing_object m u org d c) = JObject (signing_object m' u' org' d' c')"
    using assms(3) by (intro json_write_inj signing_object_ok assms(1,2)) (simp add: signing_bytes_def)
  then have eq: "map_of (signing_object m u org d c) k = map_of (signing_object m' u' org' d' c') k" for k by simp
  show ?thesis
    using eq [of "''method''"] eq [of "''uri''"] eq [of "''origin''"] eq [of "''destination''"] eq [of "''content''"]
    by (simp add: map_of_signing_object)
qed

theorem request_signature_binds_witness:
  "signing_bytes ''GET'' ''/a'' ''o'' ''d'' None \<noteq> signing_bytes ''GET'' ''/a'' ''o'' ''e'' None"
  using request_signature_binds [of "''GET''" "''/a''" "''o''" "''d''" None "''GET''" "''/a''" "''o''" "''e''" None]
  by (auto simp: signable_def ascii_utf8_valid)

text \<open>A body that is not JSON is signed like no body at all.\<close>

lemma signing_bytes_malformed: "json_parse_ok body = None \<Longrightarrow> signing_bytes m u org d (Some body) = signing_bytes m u org d None"
  by (simp add: signing_bytes_def signing_object_def)

subsection \<open>Transactions read back\<close>

definition edu_content :: "edu \<Rightarrow> json" where
  "edu_content e = (case json_parse_ok (edu_content_json e) of Some c \<Rightarrow> c | None \<Rightarrow> JObject [])"

definition canonical_edu :: "edu \<Rightarrow> edu" where
  "canonical_edu e = e\<lparr>edu_content_json := json_write (edu_content e)\<rparr>"

definition canonical_transaction :: "transaction \<Rightarrow> transaction" where
  "canonical_transaction t = t\<lparr>txn_pdus := map (\<lambda>p. p\<lparr>content_json := json_write (pdu_content p)\<rparr>) (txn_pdus t),
     txn_edus := map canonical_edu (txn_edus t)\<rparr>"

lemma collect_results_Inr: "(\<And>x. x \<in> set xs \<Longrightarrow> f x = Inr (g x)) \<Longrightarrow> collect_results (map f xs) = Inr (map g xs)"
  by (induction xs) simp_all

lemma collect_results_eq: "collect_results rs = Inr xs \<longleftrightarrow> rs = map Inr xs"
proof
  show "collect_results rs = Inr xs \<Longrightarrow> rs = map Inr xs"
    by (induction rs arbitrary: xs) (auto simp: and_then_Inr)
  show "rs = map Inr xs \<Longrightarrow> collect_results rs = Inr xs"
    by (induction xs arbitrary: rs) auto
qed

lemma edu_roundtrip: "edu_from_json (edu_to_json e) = Inr (canonical_edu e)"
  by (cases e) (simp add: edu_from_json_def edu_to_json_def json_get_def canonical_edu_def edu_content_def)

lemma map_of_transaction:
  "json_get (transaction_to_json t) =
     [''origin'' \<mapsto> JString (txn_origin t), ''origin_server_ts'' \<mapsto> JNumber (f64_of_nat (unat (txn_origin_server_ts t))),
      ''pdus'' \<mapsto> JArray (map pdu_to_json (txn_pdus t)), ''edus'' \<mapsto> JArray (map edu_to_json (txn_edus t))]"
  by (rule ext) (simp add: transaction_to_json_def json_get_def Let_def)

text \<open>A transaction of well-formed events survives the federation wire: its JSON reads back as the same
  transaction with canonical contents, and a transaction that is accepted at all has only events
  that re-validate.\<close>

theorem transaction_roundtrip:
  assumes "\<forall>p\<in>set (txn_pdus t). pdu_wf p" "unat (txn_origin_server_ts t) < 2 ^ 53"
  shows "transaction_from_json (transaction_to_json t) = Inr (canonical_transaction t) \<and>
    (\<forall>v t'. transaction_from_json v = Inr t' \<longrightarrow>
       (\<exists>items. json_get v ''pdus'' = Some (JArray items) \<and> map pdu_from_json items = map Inr (txn_pdus t')))"
proof
  have ts: "as_u64 (JNumber (f64_of_nat (unat (txn_origin_server_ts t)))) = Some (txn_origin_server_ts t)"
    using assms(2) by (rule as_u64_nat)
  have p: "collect_results (map (\<lambda>v. map_err (\<lambda>_. FedInvalidField ''pdus'') (pdu_from_json v)) (map pdu_to_json (txn_pdus t))) =
      Inr (map (\<lambda>p. p\<lparr>content_json := json_write (pdu_content p)\<rparr>) (txn_pdus t))"
    using assms(1) by (simp add: comp_def collect_results_Inr pdu_roundtrip)
  have e: "collect_results (map edu_from_json (map edu_to_json (txn_edus t))) = Inr (map canonical_edu (txn_edus t))"
    by (simp add: comp_def collect_results_Inr edu_roundtrip)
  show "transaction_from_json (transaction_to_json t) = Inr (canonical_transaction t)"
    unfolding transaction_from_json_def array_field_def map_of_transaction
    by (cases t) (use ts p e in \<open>simp add: canonical_transaction_def del: as_u64.simps map_map\<close>)
  have "\<exists>items. json_get v ''pdus'' = Some (JArray items) \<and> map pdu_from_json items = map Inr (txn_pdus t')"
    if acc: "transaction_from_json v = Inr t'" for v t'
  proof -
    obtain items pdus where items: "array_field v ''pdus'' = Inr items"
        "collect_results (map (\<lambda>v. map_err (\<lambda>_. FedInvalidField ''pdus'') (pdu_from_json v)) items) = Inr pdus"
        "txn_pdus t' = pdus"
      using acc by (auto simp: transaction_from_json_def and_then_Inr)
    from items(1) have "json_get v ''pdus'' = Some (JArray items)"
      by (auto simp: array_field_def result_Inr elim: as_array.elims)
    moreover have "map pdu_from_json items = map Inr pdus"
      using items(2) unfolding collect_results_eq list_eq_iff_nth_eq by (auto simp: map_err_Inr)
    ultimately show ?thesis using items(3) by blast
  qed
  then show "\<forall>v t'. transaction_from_json v = Inr t' \<longrightarrow>
       (\<exists>items. json_get v ''pdus'' = Some (JArray items) \<and> map pdu_from_json items = map Inr (txn_pdus t'))"
    by blast
qed

theorem transaction_roundtrip_witness:
  "transaction_from_json (transaction_to_json (transaction_new ''x.org'' 7\<lparr>txn_pdus := [sample_pdu]\<rparr>)) =
     Inr (transaction_new ''x.org'' 7\<lparr>txn_pdus := [sample_pdu\<lparr>content_json := json_write (pdu_content sample_pdu)\<rparr>]\<rparr>)"
proof -
  have "pdu_wf sample_pdu"
    using sample_wf [of "EventId ''$e''"] by (simp add: sample_pdu_def event_ok_def event_id_parse_def ascii_utf8_valid)
  then show ?thesis
    using transaction_roundtrip [of "transaction_new ''x.org'' 7\<lparr>txn_pdus := [sample_pdu]\<rparr>"]
    by (simp add: transaction_new_def canonical_transaction_def)
qed

text \<open>A partial-state join becomes full when the fetched events add up, and not before.\<close>

lemma join_advance_list:
  "foldl join_advance (PartialState n) ks = (if ks \<noteq> [] \<and> n \<le> sum_list ks then FullState else PartialState (n - sum_list ks))"
proof -
  have full: "foldl join_advance FullState ks = FullState" for ks by (induction ks) simp_all
  show ?thesis
    by (induction ks arbitrary: n) (auto simp: Let_def full)
qed

end
