(* ===== verification/Server.thy ===== *)
theory Server
  imports Rooms Accounts Federation
begin

section \<open>The composed homeserver: accounts, rooms and messages (gm-svc, server.rs)\<close>

text \<open>
  The server is its shared store, the clock and the names of the rooms that have a write lock.  The
  surroundings are the record \<open>server_env\<close>: the store's operations, the standard hasher, the
  reading of the clock in milliseconds and the server name.  Every operation is one step from state to
  state.  A change of membership, and a message from its commit on, hold the lock of their room from
  the first read to the last write, so for them this is what concurrent callers see; founding a room,
  taking in a transaction, claiming a one-time key and the other operations take no lock in the
  source, and the model covers them as long as they run one after the other.
\<close>

record ('s, 'c) server_env =
  srv_ops :: "'s store_ops"
  srv_sip :: "bytes \<Rightarrow> u64"
  srv_now :: "'c \<Rightarrow> u64 \<times> 'c"
  srv_name :: string

record ('s, 'c) server =
  sv_store :: 's
  sv_clock :: 'c
  sv_locks :: "string set"

definition server_new :: "'s \<Rightarrow> 'c \<Rightarrow> ('s, 'c) server" where
  "server_new s c = \<lparr>sv_store = s, sv_clock = c, sv_locks = {}\<rparr>"

definition now_ms :: "('s, 'c) server_env \<Rightarrow> ('s, 'c) server \<Rightarrow> u64 \<times> ('s, 'c) server" where
  "now_ms env sv = (let (t, c) = srv_now env (sv_clock sv) in (t, sv\<lparr>sv_clock := c\<rparr>))"

definition sv_put :: "('s, 'c) server_env \<Rightarrow> string \<Rightarrow> string \<Rightarrow> string \<Rightarrow> ('s, 'c) server \<Rightarrow> ('s, 'c) server" where
  "sv_put env cf key value sv = sv\<lparr>sv_store := fst (st_put (srv_ops env) cf key (as_bytes value) (sv_store sv))\<rparr>"

definition sv_get :: "('s, 'c) server_env \<Rightarrow> ('s, 'c) server \<Rightarrow> string \<Rightarrow> string \<Rightarrow> bytes option" where
  "sv_get env sv cf key = st_get (srv_ops env) (sv_store sv) cf key"

definition sv_scan :: "('s, 'c) server_env \<Rightarrow> ('s, 'c) server \<Rightarrow> string \<Rightarrow> (string \<times> bytes) list" where
  "sv_scan env sv cf = st_scan (srv_ops env) (sv_store sv) cf"

subsection \<open>Accounts and login\<close>

definition full_user_id :: "('s, 'c) server_env \<Rightarrow> string \<Rightarrow> user_id option" where
  "full_user_id env user =
     (if starts_with user ''@'' then ok (user_id_parse user)
      else ok (user_id_parse (''@'' @ user @ '':'' @ srv_name env)))"

definition register_account ::
  "('s, 'c) server_env \<Rightarrow> string \<Rightarrow> string \<Rightarrow> ('s, 'c) server \<Rightarrow> ('s, 'c) server \<times> user_id option" where
  "register_account env localpart password sv =
     (case full_user_id env localpart of
        None \<Rightarrow> (sv, None)
      | Some user \<Rightarrow>
          (sv\<lparr>sv_store := account_register (srv_ops env) (srv_sip env) user password (sv_store sv)\<rparr>, Some user))"

record login_grant =
  grant_user_id :: user_id
  grant_access_token :: string

definition password_login ::
  "('s, 'c) server_env \<Rightarrow> string \<Rightarrow> string \<Rightarrow> ('s, 'c) server \<Rightarrow> ('s, 'c) server \<times> login_grant option" where
  "password_login env localpart password sv =
     (case full_user_id env localpart of
        None \<Rightarrow> (sv, None)
      | Some user \<Rightarrow>
          (if \<not> account_verify (srv_ops env) (srv_sip env) user password (sv_store sv) then (sv, None)
           else let (token, s) = session_create (srv_ops env) (srv_sip env) user (sv_store sv)
                in (sv\<lparr>sv_store := s\<rparr>, Some \<lparr>grant_user_id = user, grant_access_token = token\<rparr>)))"

definition user_for :: "('s, 'c) server_env \<Rightarrow> ('s, 'c) server \<Rightarrow> string \<Rightarrow> user_id option" where
  "user_for env sv token = session_user_for (srv_ops env) (sv_store sv) token"

subsection \<open>Room reads\<close>

definition sv_append :: "('s, 'c) server_env \<Rightarrow> pdu \<Rightarrow> ('s, 'c) server \<Rightarrow> ('s, 'c) server" where
  "sv_append env p sv = sv\<lparr>sv_store := room_append (srv_ops env) p (sv_store sv)\<rparr>"

definition sv_timeline :: "('s, 'c) server_env \<Rightarrow> ('s, 'c) server \<Rightarrow> room_id \<Rightarrow> pdu list" where
  "sv_timeline env sv room = timeline (srv_ops env) (sv_store sv) room"

definition room_state_content ::
  "('s, 'c) server_env \<Rightarrow> ('s, 'c) server \<Rightarrow> room_id \<Rightarrow> string \<Rightarrow> string \<Rightarrow> string option" where
  "room_state_content env sv room k sk = state_event_content (srv_ops env) (sv_store sv) room k sk"

definition room_state :: "('s, 'c) server_env \<Rightarrow> ('s, 'c) server \<Rightarrow> room_id \<Rightarrow> pdu list" where
  "room_state env sv room = current_state_pdus (srv_ops env) (sv_store sv) room"

definition room_lock :: "room_id \<Rightarrow> ('s, 'c) server \<Rightarrow> ('s, 'c) server" where
  "room_lock room sv = sv\<lparr>sv_locks := insert (room_as_str room) (sv_locks sv)\<rparr>"

definition content_membership :: "string \<Rightarrow> string option" where
  "content_membership content =
     Option.bind (json_parse_ok content) (\<lambda>c. Option.bind (json_get c ''membership'') as_str)"

definition is_joined :: "('s, 'c) server_env \<Rightarrow> ('s, 'c) server \<Rightarrow> room_id \<Rightarrow> user_id \<Rightarrow> bool" where
  "is_joined env sv room user =
     (case room_state_content env sv room ROOM_MEMBER (user_as_str user) of
        None \<Rightarrow> False
      | Some content \<Rightarrow> content_membership content = Some ''join'')"

subsection \<open>New events\<close>

definition placeholder_event_id :: event_id where
  "placeholder_event_id = EventId ''$pending''"

definition single_field :: "string \<Rightarrow> string \<Rightarrow> string" where
  "single_field nm value = json_write (JObject (bt_insert nm (JString value) []))"

definition create_content :: "user_id \<Rightarrow> string" where
  "create_content creator =
     json_write (JObject (bt_insert ''room_version'' (JString (dec (unat MAX_SUPPORTED)))
       (bt_insert ''creator'' (JString (user_as_str creator)) [])))"

definition member_join_content :: string where
  "member_join_content = single_field ''membership'' ''join''"

definition power_levels_content :: "user_id \<Rightarrow> string" where
  "power_levels_content creator =
     json_write (JObject (bt_insert ''users_default'' (JNumber (f64_of_nat 0))
       (bt_insert ''users'' (JObject (bt_insert (user_as_str creator) (JNumber (f64_of_nat 100)) [])) [])))"

text \<open>The depth and predecessors of the next event of a room: behind the last event of its timeline.\<close>

definition next_link :: "('s, 'c) server_env \<Rightarrow> ('s, 'c) server \<Rightarrow> room_id \<Rightarrow> u64 \<times> event_id list" where
  "next_link env sv room =
     (let t = sv_timeline env sv room in
      if t = [] then (1, []) else (depth (last t) + 1, [event_id (last t)]))"

definition draft_event ::
  "room_id \<Rightarrow> user_id \<Rightarrow> string \<Rightarrow> string option \<Rightarrow> string \<Rightarrow> u64 \<Rightarrow> u64 \<Rightarrow> event_id list \<Rightarrow> pdu" where
  "draft_event room user k sk content now d prev =
     \<lparr>event_id = placeholder_event_id, room_id = room, sender = user, kind = k, state_key = sk, origin_server_ts = now,
      depth = d, prev_events = prev, auth_events = [], content_json = content\<rparr>"

text \<open>
  What \<open>change_membership\<close> and \<open>send_message\<close> share: link a new event behind the tip, give it its
  reference id, authorize it against the current state of the room, and append it.
\<close>

definition submit_event ::
  "('s, 'c) server_env \<Rightarrow> room_id \<Rightarrow> user_id \<Rightarrow> string \<Rightarrow> string option \<Rightarrow> string \<Rightarrow> ('s, 'c) server
     \<Rightarrow> ('s, 'c) server \<times> string option" where
  "submit_event env room user k sk content sv =
     (let (d, prev) = next_link env sv room;
          (now, sv) = now_ms env sv;
          p = draft_event room user k sk content now d prev;
          eid = pdu_reference_id p MAX_SUPPORTED
      in case ok (event_id_parse eid) of
           None \<Rightarrow> (sv, None)
         | Some e \<Rightarrow>
             (let p = p\<lparr>event_id := e\<rparr> in
              case check_auth p (room_state env sv room) of
                Inl _ \<Rightarrow> (sv, None)
              | Inr _ \<Rightarrow> (sv_append env p sv, Some eid)))"

definition change_membership ::
  "('s, 'c) server_env \<Rightarrow> user_id \<Rightarrow> room_id \<Rightarrow> user_id \<Rightarrow> string \<Rightarrow> ('s, 'c) server \<Rightarrow> ('s, 'c) server \<times> string option" where
  "change_membership env user room target membership sv =
     submit_event env room user ROOM_MEMBER (Some (user_as_str target)) (single_field ''membership'' membership)
       (room_lock room sv)"

definition txn_key :: "user_id \<Rightarrow> string \<Rightarrow> string" where
  "txn_key user txn_id = user_as_str user @ [SEP] @ txn_id"

text \<open>
  \<open>send_message\<close> looks its transaction up before it takes the room's lock, so it is two steps: the
  lookup, and the send under the lock.
\<close>

definition send_lookup :: "('s, 'c) server_env \<Rightarrow> user_id \<Rightarrow> string \<Rightarrow> ('s, 'c) server \<Rightarrow> string option option" where
  "send_lookup env user txn_id sv = map_option from_utf8 (sv_get env sv cf_TRANSACTIONS (txn_key user txn_id))"

definition send_commit ::
  "('s, 'c) server_env \<Rightarrow> user_id \<Rightarrow> room_id \<Rightarrow> string \<Rightarrow> string \<Rightarrow> string \<Rightarrow> ('s, 'c) server
     \<Rightarrow> ('s, 'c) server \<times> string option" where
  "send_commit env user room event_type txn_id content sv =
     (case submit_event env room user event_type None content (room_lock room sv) of
        (sv, None) \<Rightarrow> (sv, None)
      | (sv, Some eid) \<Rightarrow> (sv_put env cf_TRANSACTIONS (txn_key user txn_id) eid sv, Some eid))"

definition send_message ::
  "('s, 'c) server_env \<Rightarrow> user_id \<Rightarrow> room_id \<Rightarrow> string \<Rightarrow> string \<Rightarrow> string \<Rightarrow> ('s, 'c) server
     \<Rightarrow> ('s, 'c) server \<times> string option" where
  "send_message env user room event_type txn_id content sv =
     (case send_lookup env user txn_id sv of
        Some existing \<Rightarrow> (sv, existing)
      | None \<Rightarrow> send_commit env user room event_type txn_id content sv)"

subsection \<open>Rooms\<close>

definition mint_room_id :: "('s, 'c) server_env \<Rightarrow> user_id \<Rightarrow> ('s, 'c) server \<Rightarrow> ('s, 'c) server \<times> room_id option" where
  "mint_room_id env creator sv =
     (let (now, sv') = now_ms env sv;
          h = srv_sip env (feed_str (user_as_str creator) @ le_bytes 8 (st_count (srv_ops env) (sv_store sv) cf_EVENTS) @
                le_bytes 8 (unat now))
      in (sv', ok (room_id_parse (''!'' @ hex16 h @ '':'' @ srv_name env))))"

definition ROOM_NAME :: string where "ROOM_NAME = ''m.room.name''"
definition ROOM_TOPIC :: string where "ROOM_TOPIC = ''m.room.topic''"

definition initial_events :: "user_id \<Rightarrow> string option \<Rightarrow> string option \<Rightarrow> (string \<times> string \<times> string) list" where
  "initial_events creator nm topic =
     [(ROOM_CREATE, [], create_content creator), (ROOM_MEMBER, user_as_str creator, member_join_content),
      (ROOM_POWER_LEVELS, [], power_levels_content creator)] @
     (case nm of Some n \<Rightarrow> [(ROOM_NAME, [], single_field ''name'' n)] | None \<Rightarrow> []) @
     (case topic of Some t \<Rightarrow> [(ROOM_TOPIC, [], single_field ''topic'' t)] | None \<Rightarrow> [])"

text \<open>The loop over the initial events; None is the early return when an id does not parse.\<close>

fun create_loop ::
  "('s, 'c) server_env \<Rightarrow> room_id \<Rightarrow> user_id \<Rightarrow> (string \<times> string \<times> string) list \<Rightarrow> u64 \<Rightarrow> event_id list
     \<Rightarrow> ('s, 'c) server \<Rightarrow> ('s, 'c) server \<times> unit option" where
  "create_loop env room creator [] d prev sv = (sv, Some ())"
| "create_loop env room creator ((k, sk, content) # evs) d prev sv =
     (let (now, sv) = now_ms env sv;
          p = draft_event room creator k (Some sk) content now d prev
      in case ok (event_id_parse (pdu_reference_id p MAX_SUPPORTED)) of
           None \<Rightarrow> (sv, None)
         | Some e \<Rightarrow> create_loop env room creator evs (d + 1) [e] (sv_append env (p\<lparr>event_id := e\<rparr>) sv))"

definition create_room ::
  "('s, 'c) server_env \<Rightarrow> user_id \<Rightarrow> string option \<Rightarrow> string option \<Rightarrow> ('s, 'c) server \<Rightarrow> ('s, 'c) server \<times> room_id option" where
  "create_room env creator nm topic sv =
     (case mint_room_id env creator sv of
        (sv, None) \<Rightarrow> (sv, None)
      | (sv, Some room) \<Rightarrow>
          (case create_loop env room creator (initial_events creator nm topic) 1 [] sv of
             (sv, None) \<Rightarrow> (sv, None)
           | (sv, Some _) \<Rightarrow> (sv, Some room)))"

end
