(* ===== verification/ServerKeys.thy ===== *)
theory ServerKeys
  imports Server
begin

section \<open>Federation keys and request authentication (gm-svc, server.rs)\<close>

text \<open>
  The keys of other servers, provisioned or cached from their key documents until they expire, this
  server's own signing keys with the document that publishes them, and the check of an inbound
  request's signature.
\<close>

subsection \<open>Keys of other servers\<close>

definition register_federation_key ::
  "('s, 'c) server_env \<Rightarrow> string \<Rightarrow> string \<Rightarrow> ('s, 'c) server \<Rightarrow> ('s, 'c) server" where
  "register_federation_key env origin pk sv = sv_put env cf_FEDERATION_KEYS origin pk sv"

definition federation_key :: "('s, 'c) server_env \<Rightarrow> ('s, 'c) server \<Rightarrow> string \<Rightarrow> string option" where
  "federation_key env sv origin = Option.bind (sv_get env sv cf_FEDERATION_KEYS origin) from_utf8"

definition cache_key :: "string \<Rightarrow> string \<Rightarrow> string" where
  "cache_key origin key_id = origin @ [SEP] @ key_id"

definition cache_server_key ::
  "('s, 'c) server_env \<Rightarrow> string \<Rightarrow> string \<Rightarrow> string \<Rightarrow> u64 \<Rightarrow> ('s, 'c) server \<Rightarrow> ('s, 'c) server" where
  "cache_server_key env origin key_id pk valid_until sv =
     sv_put env cf_KEY_CACHE (cache_key origin key_id) (pk @ [SEP] @ dec (unat valid_until)) sv"

definition parse_u64 :: "string \<Rightarrow> u64 option" where
  "parse_u64 s = map_option word_of_nat (parse_uint (2 ^ 64 - 1) s)"

text \<open>The entry of the cache, before its age is looked at.\<close>

definition cache_entry :: "('s, 'c) server_env \<Rightarrow> ('s, 'c) server \<Rightarrow> string \<Rightarrow> string \<Rightarrow> (string \<times> u64) option" where
  "cache_entry env sv origin key_id =
     Option.bind (sv_get env sv cf_KEY_CACHE (cache_key origin key_id)) (\<lambda>v.
     Option.bind (from_utf8 v) (\<lambda>raw.
     Option.bind (split_once SEP raw) (\<lambda>(pk, valid_until).
     map_option (Pair pk) (parse_u64 valid_until))))"

definition cached_key ::
  "('s, 'c) server_env \<Rightarrow> string \<Rightarrow> string \<Rightarrow> ('s, 'c) server \<Rightarrow> ('s, 'c) server \<times> string option" where
  "cached_key env origin key_id sv =
     (case cache_entry env sv origin key_id of
        None \<Rightarrow> (sv, None)
      | Some (pk, valid_until) \<Rightarrow>
          (let (now, sv) = now_ms env sv in (sv, if now < valid_until then Some pk else None)))"

text \<open>The document without its signatures, as its origin signed it.\<close>

definition unsigned_document :: "json \<Rightarrow> string" where
  "unsigned_document doc = json_write (case doc of JObject m \<Rightarrow> JObject (bt_remove ''signatures'' m) | _ \<Rightarrow> doc)"

definition advertised_key :: "(string, json) btree \<Rightarrow> string \<Rightarrow> string option" where
  "advertised_key verify_keys key_id =
     Option.bind (map_of verify_keys key_id) (\<lambda>e. Option.bind (json_get e ''key'') as_str)"

definition signature_valid :: "string \<Rightarrow> (string, json) btree \<Rightarrow> string \<times> json \<Rightarrow> bool" where
  "signature_valid canonical verify_keys entry =
     (case (as_str (snd entry), advertised_key verify_keys (fst entry)) of
        (Some sg, Some pk) \<Rightarrow> verify_b64 (as_bytes canonical) sg pk
      | _ \<Rightarrow> False)"

definition ingest_key_document ::
  "('s, 'c) server_env \<Rightarrow> json \<Rightarrow> ('s, 'c) server \<Rightarrow> ('s, 'c) server \<times> bool" where
  "ingest_key_document env doc sv =
     (case Option.bind (json_get doc ''server_name'') as_str of
        None \<Rightarrow> (sv, False)
      | Some server_name \<Rightarrow>
     (case Option.bind (json_get doc ''valid_until_ts'') as_u64 of
        None \<Rightarrow> (sv, False)
      | Some valid_until \<Rightarrow>
     (case now_ms env sv of (now, sv) \<Rightarrow>
        if valid_until \<le> now then (sv, False)
        else (case Option.bind (json_get doc ''verify_keys'') as_object of
                None \<Rightarrow> (sv, False)
              | Some verify_keys \<Rightarrow>
             (case Option.bind (Option.bind (json_get doc ''signatures'') (\<lambda>s. json_get s server_name)) as_object of
                None \<Rightarrow> (sv, False)
              | Some sigs \<Rightarrow>
                  if \<not> list_ex (signature_valid (unsigned_document doc) verify_keys) sigs then (sv, False)
                  else (fold (\<lambda>(key_id, entry) sv.
                          case Option.bind (json_get entry ''key'') as_str of
                            Some pk \<Rightarrow> cache_server_key env server_name key_id pk valid_until sv
                          | None \<Rightarrow> sv) verify_keys sv, True))))))"

subsection \<open>Own keys and the published document\<close>

definition register_signing_key ::
  "('s, 'c) server_env \<Rightarrow> string \<Rightarrow> string \<Rightarrow> ('s, 'c) server \<Rightarrow> ('s, 'c) server" where
  "register_signing_key env key_id seed sv =
     (let sv = sv_put env cf_SERVER_KEYS key_id seed sv in
      case public_key_b64 seed of
        Some pk \<Rightarrow> sv_put env cf_FEDERATION_KEYS (srv_name env) pk sv
      | None \<Rightarrow> sv)"

definition published_keys :: "(string \<times> bytes) list \<Rightarrow> (string, json) btree" where
  "published_keys entries =
     fold (\<lambda>(key_id, value) m.
       case Option.bind (from_utf8 value) public_key_b64 of
         None \<Rightarrow> m
       | Some pk \<Rightarrow> bt_insert key_id (JObject (bt_insert ''key'' (JString pk) [])) m) entries []"

definition own_signatures :: "bytes \<Rightarrow> (string \<times> bytes) list \<Rightarrow> (string, json) btree" where
  "own_signatures signed_bytes entries =
     fold (\<lambda>(key_id, value) m.
       case from_utf8 value of
         None \<Rightarrow> m
       | Some seed \<Rightarrow> bt_insert key_id (JString (fed_sign signed_bytes seed)) m) entries []"

definition server_keys :: "('s, 'c) server_env \<Rightarrow> ('s, 'c) server \<Rightarrow> ('s, 'c) server \<times> json" where
  "server_keys env sv =
     (let entries = sv_scan env sv cf_SERVER_KEYS;
          (now, sv) = now_ms env sv;
          valid_until = now + 24 * 60 * 60 * 1000;
          doc = bt_insert ''server_name'' (JString (srv_name env)) [];
          doc = bt_insert ''valid_until_ts'' (JNumber (f64_of_nat (unat valid_until))) doc;
          doc = bt_insert ''old_verify_keys'' (JObject []) doc;
          doc = bt_insert ''verify_keys'' (JObject (published_keys entries)) doc;
          by_key = own_signatures (as_bytes (json_write (JObject doc))) entries;
          sigs = (if by_key = [] then [] else bt_insert (srv_name env) (JObject by_key) [])
      in (sv, JObject (bt_insert ''signatures'' (JObject sigs) doc)))"

subsection \<open>Inbound requests\<close>

definition verify_federation_request ::
  "('s, 'c) server_env \<Rightarrow> string \<Rightarrow> string \<Rightarrow> string option \<Rightarrow> string option \<Rightarrow> ('s, 'c) server
     \<Rightarrow> ('s, 'c) server \<times> bool" where
  "verify_federation_request env method uri content authorization sv =
     (case Option.bind authorization xmatrix_parse of
        None \<Rightarrow> (sv, False)
      | Some auth \<Rightarrow>
          if (case xm_destination auth of Some d \<Rightarrow> d \<noteq> srv_name env | None \<Rightarrow> False) then (sv, False)
          else (case cached_key env (xm_origin auth) (xm_key_id auth) sv of (sv, cached) \<Rightarrow>
                 (case (case cached of Some k \<Rightarrow> Some k | None \<Rightarrow> federation_key env sv (xm_origin auth)) of
                    None \<Rightarrow> (sv, False)
                  | Some k \<Rightarrow>
                      (sv, fed_verify (signing_bytes method uri (xm_origin auth) (srv_name env) content)
                             (xm_signature auth) k))))"

end
