(* ===== verification/ServerSync.thy ===== *)
theory ServerSync
  imports ServerKeys
begin

section \<open>Ephemeral data and sync (gm-svc, server.rs)\<close>

text \<open>
  Typing notices, read receipts and presence, and the sync view of a user.  A view is built from
  the room service's reads; only the expiry of typing notices reads the clock.
\<close>

definition MAX_TYPING_MS :: u64 where
  "MAX_TYPING_MS = 30000"

subsection \<open>Typing\<close>

definition pair_key :: "room_id \<Rightarrow> user_id \<Rightarrow> string" where
  "pair_key room user = room_as_str room @ [SEP] @ user_as_str user"

definition set_typing ::
  "('s, 'c) server_env \<Rightarrow> user_id \<Rightarrow> room_id \<Rightarrow> bool \<Rightarrow> u64 \<Rightarrow> ('s, 'c) server \<Rightarrow> ('s, 'c) server \<times> bool" where
  "set_typing env user room typing timeout_ms sv =
     (if \<not> is_joined env sv room user then (sv, False)
      else if typing then
        (let (now, sv) = now_ms env sv;
             expiry = now + min timeout_ms MAX_TYPING_MS
         in (sv_put env cf_TYPING (pair_key room user) (dec (unat expiry)) sv, True))
      else (sv\<lparr>sv_store := fst (st_delete (srv_ops env) cf_TYPING (pair_key room user) (sv_store sv))\<rparr>, True))"

definition typing_user :: "string \<Rightarrow> u64 \<Rightarrow> string \<times> bytes \<Rightarrow> user_id option" where
  "typing_user room_sep now kv =
     Option.bind (strip_prefix room_sep (fst kv)) (\<lambda>user.
     Option.bind (Option.bind (from_utf8 (snd kv)) parse_u64) (\<lambda>expiry.
       if expiry \<le> now then None else ok (user_id_parse user)))"

definition typing_users :: "('s, 'c) server_env \<Rightarrow> room_id \<Rightarrow> ('s, 'c) server \<Rightarrow> user_id list \<times> ('s, 'c) server" where
  "typing_users env room sv =
     (let (now, sv) = now_ms env sv
      in (sort_key user_as_str (List.map_filter (typing_user (rooms_prefix room) now) (sv_scan env sv cf_TYPING)), sv))"

subsection \<open>Read receipts\<close>

record read_receipt =
  rc_user :: user_id
  rc_event_id :: string
  rc_ts :: u64

definition set_read_receipt ::
  "('s, 'c) server_env \<Rightarrow> user_id \<Rightarrow> room_id \<Rightarrow> string \<Rightarrow> ('s, 'c) server \<Rightarrow> ('s, 'c) server \<times> bool" where
  "set_read_receipt env user room eid sv =
     (if \<not> is_joined env sv room user then (sv, False)
      else let (now, sv) = now_ms env sv
           in (sv_put env cf_RECEIPTS (pair_key room user) (eid @ [SEP] @ dec (unat now)) sv, True))"

definition receipt_of :: "string \<Rightarrow> string \<times> bytes \<Rightarrow> read_receipt option" where
  "receipt_of room_sep kv =
     Option.bind (Option.bind (strip_prefix room_sep (fst kv)) (\<lambda>u. ok (user_id_parse u))) (\<lambda>user.
     Option.bind (from_utf8 (snd kv)) (\<lambda>value.
     Option.bind (split_once SEP value) (\<lambda>(eid, ts).
     map_option (\<lambda>t. \<lparr>rc_user = user, rc_event_id = eid, rc_ts = t\<rparr>) (parse_u64 ts))))"

definition read_receipts :: "('s, 'c) server_env \<Rightarrow> ('s, 'c) server \<Rightarrow> room_id \<Rightarrow> read_receipt list" where
  "read_receipts env sv room =
     sort_key (\<lambda>r. user_as_str (rc_user r)) (List.map_filter (receipt_of (rooms_prefix room)) (sv_scan env sv cf_RECEIPTS))"

subsection \<open>Presence\<close>

record presence_update =
  ps_user :: user_id
  ps_presence :: string
  ps_status_msg :: "string option"

definition set_presence ::
  "('s, 'c) server_env \<Rightarrow> user_id \<Rightarrow> string \<Rightarrow> string option \<Rightarrow> ('s, 'c) server \<Rightarrow> ('s, 'c) server \<times> bool" where
  "set_presence env user presence status_msg sv =
     (sv_put env cf_PRESENCE (user_as_str user)
        (presence @ [SEP] @ (case status_msg of Some m \<Rightarrow> m | None \<Rightarrow> [])) sv, True)"

definition presence_for :: "('s, 'c) server_env \<Rightarrow> ('s, 'c) server \<Rightarrow> user_id \<Rightarrow> presence_update option" where
  "presence_for env sv user =
     Option.bind (sv_get env sv cf_PRESENCE (user_as_str user)) (\<lambda>v.
     Option.bind (from_utf8 v) (\<lambda>raw.
       let (presence, status) = (case split_once SEP raw of Some ps \<Rightarrow> ps | None \<Rightarrow> (raw, [])) in
       Some \<lparr>ps_user = user, ps_presence = presence, ps_status_msg = (if status \<noteq> [] then Some status else None)\<rparr>))"

definition room_members :: "('s, 'c) server_env \<Rightarrow> ('s, 'c) server \<Rightarrow> room_id \<Rightarrow> user_id list" where
  "room_members env sv room =
     List.map_filter (\<lambda>p. if kind p \<noteq> ROOM_MEMBER then None else Option.bind (state_key p) (\<lambda>s. ok (user_id_parse s)))
       (room_state env sv room)"

definition push_new :: "'a \<Rightarrow> 'a list \<Rightarrow> 'a list" where
  "push_new x seen = (if x \<in> set seen then seen else seen @ [x])"

definition co_residents :: "('s, 'c) server_env \<Rightarrow> ('s, 'c) server \<Rightarrow> user_id \<Rightarrow> user_id list" where
  "co_residents env sv user =
     sort_key user_as_str
       (fold (\<lambda>room seen. if is_joined env sv room user then fold push_new (room_members env sv room) seen else seen)
         (rooms (srv_ops env) (sv_store sv)) [])"

definition co_resident_presence :: "('s, 'c) server_env \<Rightarrow> ('s, 'c) server \<Rightarrow> user_id \<Rightarrow> presence_update list" where
  "co_resident_presence env sv user = List.map_filter (presence_for env sv) (co_residents env sv user)"

subsection \<open>Sync\<close>

record joined_room =
  jr_room :: room_id
  jr_state :: "pdu list"
  jr_timeline :: "pdu list"
  jr_typing :: "user_id list"
  jr_receipts :: "read_receipt list"

record left_room =
  lr_room :: room_id
  lr_timeline :: "pdu list"

record sync_view =
  next_batch :: string
  joined :: "joined_room list"
  left :: "left_room list"
  sv_presence :: "presence_update list"

definition own_membership :: "user_id \<Rightarrow> pdu \<Rightarrow> string option" where
  "own_membership user p =
     (if kind p = ROOM_MEMBER \<and> state_key p = Some (user_as_str user) then content_membership (content_json p) else None)"

definition joined_in_delta :: "pdu list \<Rightarrow> user_id \<Rightarrow> bool" where
  "joined_in_delta delta user \<longleftrightarrow> list_ex (\<lambda>p. own_membership user p = Some ''join'') delta"

definition left_in_delta :: "pdu list \<Rightarrow> user_id \<Rightarrow> bool" where
  "left_in_delta delta user \<longleftrightarrow> list_ex (\<lambda>p. own_membership user p \<in> {Some ''leave'', Some ''ban''}) delta"

definition joined_view ::
  "('s, 'c) server_env \<Rightarrow> room_id \<Rightarrow> pdu list \<Rightarrow> pdu list \<Rightarrow> ('s, 'c) server \<Rightarrow> joined_room \<times> ('s, 'c) server" where
  "joined_view env room state tls sv =
     (let (typing, sv) = typing_users env room sv
      in (\<lparr>jr_room = room, jr_state = state, jr_timeline = tls, jr_typing = typing, jr_receipts = read_receipts env sv room\<rparr>, sv))"

fun initial_joined ::
  "('s, 'c) server_env \<Rightarrow> user_id \<Rightarrow> room_id list \<Rightarrow> ('s, 'c) server \<Rightarrow> joined_room list \<times> ('s, 'c) server" where
  "initial_joined env user [] sv = ([], sv)"
| "initial_joined env user (room # rs) sv =
     (if is_joined env sv room user then
        (let (j, sv) = joined_view env room (room_state env sv room) (sv_timeline env sv room) sv;
             (js, sv) = initial_joined env user rs sv
         in (j # js, sv))
      else initial_joined env user rs sv)"

text \<open>The delta grouped by room, in the order of the room ids.\<close>

definition by_room :: "pdu list \<Rightarrow> (string, pdu list) btree" where
  "by_room delta =
     fold (\<lambda>p m. let r = room_as_str (room_id p) in
       bt_insert r ((case map_of m r of Some ps \<Rightarrow> ps | None \<Rightarrow> []) @ [p]) m) delta []"

fun incremental_rooms ::
  "('s, 'c) server_env \<Rightarrow> user_id \<Rightarrow> (string \<times> pdu list) list \<Rightarrow> ('s, 'c) server
     \<Rightarrow> (joined_room list \<times> left_room list) \<times> ('s, 'c) server" where
  "incremental_rooms env user [] sv = (([], []), sv)"
| "incremental_rooms env user ((r, tls) # rest) sv =
     (case room_id_parse r of
        Inl _ \<Rightarrow> incremental_rooms env user rest sv
      | Inr room \<Rightarrow>
          if is_joined env sv room user then
            (let state = (if joined_in_delta tls user then room_state env sv room else filter pdu_is_state tls);
                 (j, sv) = joined_view env room state tls sv;
                 ((js, ls), sv) = incremental_rooms env user rest sv
             in ((j # js, ls), sv))
          else if left_in_delta tls user then
            (let ((js, ls), sv) = incremental_rooms env user rest sv
             in ((js, \<lparr>lr_room = room, lr_timeline = tls\<rparr> # ls), sv))
          else incremental_rooms env user rest sv)"

definition sync_position :: "string option \<Rightarrow> nat option" where
  "sync_position since = Option.bind since (\<lambda>t. Option.bind (strip_prefix ''s'' t) (parse_uint (2 ^ 64 - 1)))"

definition sync :: "('s, 'c) server_env \<Rightarrow> user_id \<Rightarrow> string option \<Rightarrow> ('s, 'c) server \<Rightarrow> sync_view \<times> ('s, 'c) server" where
  "sync env user since sv =
     (let nb = ''s'' @ dec (stream_len (srv_ops env) (sv_store sv));
          ((js, ls), sv) =
            (case sync_position since of
               None \<Rightarrow> (let (js, sv) = initial_joined env user (rooms (srv_ops env) (sv_store sv)) sv in ((js, []), sv))
             | Some pos \<Rightarrow> incremental_rooms env user (by_room (events_since (srv_ops env) (sv_store sv) pos)) sv)
      in (\<lparr>next_batch = nb, joined = js, left = ls, sv_presence = co_resident_presence env sv user\<rparr>, sv))"

end
