(* ===== verification/ServerFed.thy ===== *)
theory ServerFed
  imports ServerSync
begin

section \<open>Inbound federation (gm-svc, server.rs)\<close>

text \<open>
  Transactions, backfill and the reads other servers make, and the relay of end-to-end keys.  A hash
  map collected from a list keeps the last value of a key, so it is the reversed list of pairs.
\<close>

subsection \<open>Device keys\<close>

definition device_key :: "user_id \<Rightarrow> string \<Rightarrow> string" where
  "device_key user device_id = user_as_str user @ [SEP] @ device_id"

definition device_prefix :: "user_id \<Rightarrow> string \<Rightarrow> string" where
  "device_prefix user device_id = user_as_str user @ [SEP] @ device_id @ [SEP]"

definition store_device_keys ::
  "('s, 'c) server_env \<Rightarrow> user_id \<Rightarrow> string \<Rightarrow> string \<Rightarrow> ('s, 'c) server \<Rightarrow> ('s, 'c) server" where
  "store_device_keys env user device_id keys sv = sv_put env cf_DEVICE_KEYS (device_key user device_id) keys sv"

definition count_algorithm :: "string \<Rightarrow> string \<times> bytes \<Rightarrow> (string, u32) btree \<Rightarrow> (string, u32) btree" where
  "count_algorithm pre kv counts =
     (case strip_prefix pre (fst kv) of
        None \<Rightarrow> counts
      | Some key_id \<Rightarrow>
          (let alg = hd (split_on (CHR '':'') key_id)
           in bt_insert alg ((case map_of counts alg of Some n \<Rightarrow> n | None \<Rightarrow> 0) + 1) counts))"

definition one_time_key_counts ::
  "('s, 'c) server_env \<Rightarrow> ('s, 'c) server \<Rightarrow> user_id \<Rightarrow> string \<Rightarrow> (string \<times> u32) list" where
  "one_time_key_counts env sv user device_id =
     fold (count_algorithm (device_prefix user device_id)) (sv_scan env sv cf_DEVICE_OTK) []"

definition store_one_time_keys ::
  "('s, 'c) server_env \<Rightarrow> user_id \<Rightarrow> string \<Rightarrow> (string \<times> string) list \<Rightarrow> ('s, 'c) server
     \<Rightarrow> ('s, 'c) server \<times> (string \<times> u32) list" where
  "store_one_time_keys env user device_id ks sv =
     (let sv = fold (\<lambda>(key_id, j). sv_put env cf_DEVICE_OTK (device_prefix user device_id @ key_id) j) ks sv
      in (sv, one_time_key_counts env sv user device_id))"

definition claim_one_time_key ::
  "('s, 'c) server_env \<Rightarrow> user_id \<Rightarrow> string \<Rightarrow> string \<Rightarrow> ('s, 'c) server
     \<Rightarrow> ('s, 'c) server \<times> (string \<times> string) option" where
  "claim_one_time_key env user device_id algorithm sv =
     (let pre = device_prefix user device_id; alg_pre = pre @ algorithm @ '':'' in
      case List.find (\<lambda>(k, _). starts_with k alg_pre) (sv_scan env sv cf_DEVICE_OTK) of
        None \<Rightarrow> (sv, None)
      | Some (full_key, value) \<Rightarrow>
     (case strip_prefix pre full_key of
        None \<Rightarrow> (sv, None)
      | Some key_id \<Rightarrow>
     (case from_utf8 value of
        None \<Rightarrow> (sv, None)
      | Some j \<Rightarrow>
          (sv\<lparr>sv_store := fst (st_delete (srv_ops env) cf_DEVICE_OTK full_key (sv_store sv))\<rparr>, Some (key_id, j)))))"

definition suffix_values :: "user_id \<Rightarrow> (string \<times> bytes) list \<Rightarrow> (string \<times> string) list" where
  "suffix_values user kvs =
     List.map_filter (\<lambda>(k, v). Option.bind (strip_prefix (user_as_str user @ [SEP]) k) (\<lambda>suffix.
       map_option (Pair suffix) (from_utf8 v))) kvs"

definition device_keys_of :: "('s, 'c) server_env \<Rightarrow> ('s, 'c) server \<Rightarrow> user_id \<Rightarrow> (string \<times> string) list" where
  "device_keys_of env sv user = suffix_values user (sv_scan env sv cf_DEVICE_KEYS)"

definition store_cross_signing_key ::
  "('s, 'c) server_env \<Rightarrow> user_id \<Rightarrow> string \<Rightarrow> string \<Rightarrow> ('s, 'c) server \<Rightarrow> ('s, 'c) server" where
  "store_cross_signing_key env user usage key_json sv =
     sv_put env cf_CROSS_SIGNING (user_as_str user @ [SEP] @ usage) key_json sv"

definition cross_signing_keys_of :: "('s, 'c) server_env \<Rightarrow> ('s, 'c) server \<Rightarrow> user_id \<Rightarrow> (string \<times> string) list" where
  "cross_signing_keys_of env sv user = suffix_values user (sv_scan env sv cf_CROSS_SIGNING)"

subsection \<open>Transactions\<close>

definition by_id_of :: "pdu list \<Rightarrow> pdus" where
  "by_id_of ps = rev (map (\<lambda>p. (event_id p, p)) ps)"

definition pdu_authorized :: "('s, 'c) server_env \<Rightarrow> pdus \<Rightarrow> pdu \<Rightarrow> ('s, 'c) server \<Rightarrow> auth_error + unit" where
  "pdu_authorized env by_id p sv =
     (if auth_events p = [] then check_auth p (room_state env sv (room_id p)) else check_auth_with_chain p by_id)"

definition not_authorized :: json where
  "not_authorized = JObject (bt_insert ''error'' (JString ''event not authorized'') [])"

definition receive_pdu ::
  "('s, 'c) server_env \<Rightarrow> pdu \<Rightarrow> (string, json) btree \<times> pdus \<times> ('s, 'c) server
     \<Rightarrow> (string, json) btree \<times> pdus \<times> ('s, 'c) server" where
  "receive_pdu env p acc =
     (case acc of (results, by_id, sv) \<Rightarrow>
       (case pdu_authorized env by_id p sv of
          Inr _ \<Rightarrow>
            (bt_insert (event_as_str (event_id p)) (JObject []) results, (event_id p, p) # by_id, sv_append env p sv)
        | Inl _ \<Rightarrow> (bt_insert (event_as_str (event_id p)) not_authorized results, by_id, sv)))"

definition receive_edu :: "('s, 'c) server_env \<Rightarrow> edu \<Rightarrow> ('s, 'c) server \<Rightarrow> ('s, 'c) server" where
  "receive_edu env e sv =
     (if edu_type e \<noteq> ''m.device_list_update'' then sv
      else case json_parse_ok (edu_content_json e) of
        None \<Rightarrow> sv
      | Some content \<Rightarrow>
     (case (Option.bind (json_get content ''user_id'') as_str, Option.bind (json_get content ''device_id'') as_str) of
        (Some u, Some device_id) \<Rightarrow>
          (case user_id_parse u of
             Inl _ \<Rightarrow> sv
           | Inr user \<Rightarrow>
               store_device_keys env user device_id
                 (case json_get content ''keys'' of Some k \<Rightarrow> json_write k | None \<Rightarrow> ''{}'') sv)
      | _ \<Rightarrow> sv))"

definition receive_transaction :: "('s, 'c) server_env \<Rightarrow> json \<Rightarrow> ('s, 'c) server \<Rightarrow> ('s, 'c) server \<times> json" where
  "receive_transaction env txn sv =
     (case transaction_from_json txn of
        Inl _ \<Rightarrow> (sv, JObject (bt_insert ''pdus'' (JObject []) []))
      | Inr t \<Rightarrow>
          (let by_id = by_id_of (concat (map (\<lambda>p. sv_timeline env sv (room_id p)) (txn_pdus t)));
               (results, _, sv) = fold (receive_pdu env) (txn_pdus t) ([], by_id, sv);
               sv = fold (receive_edu env) (txn_edus t) sv
           in (sv, JObject (bt_insert ''pdus'' (JObject results) []))))"

subsection \<open>Backfill\<close>

lemma known_less:
  "(i, p) \<in> set by_id \<Longrightarrow> i \<notin> seen \<Longrightarrow> card (fst ` set by_id - insert i seen) < card (fst ` set by_id - seen)"
  by (rule psubset_card_mono) force+

lemma known_le:
  "card (fst ` set by_id - insert i seen) \<noteq> card (fst ` set by_id - seen) \<Longrightarrow>
   card (fst ` set by_id - insert i seen) < card (fst ` set by_id - seen)"
  by (intro le_neq_implies_less card_mono) auto

text \<open>The walk over \<open>prev_events\<close>: the stack \<open>frontier\<close> grows and shrinks at its end.\<close>

function backfill_loop :: "(string \<times> pdu) list \<Rightarrow> string set \<Rightarrow> string list \<Rightarrow> pdu list \<Rightarrow> pdu list" where
  "backfill_loop by_id seen frontier collected =
     (if frontier = [] then collected
      else (let i = last frontier; frontier = butlast frontier in
            if i \<in> seen then backfill_loop by_id seen frontier collected
            else (let seen = insert i seen in
                  case map_of by_id i of
                    None \<Rightarrow> backfill_loop by_id seen frontier collected
                  | Some p \<Rightarrow>
                      backfill_loop by_id seen
                        (frontier @ filter (\<lambda>prev. prev \<notin> seen) (map event_as_str (prev_events p))) (collected @ [p]))))"
  by pat_completeness auto
termination
  by (relation "measures [\<lambda>(by_id, seen, frontier, collected). card (fst ` set by_id - seen),
      \<lambda>(by_id, seen, frontier, collected). length frontier]")
    (auto simp: known_less dest!: map_of_SomeD dest: known_le)

declare backfill_loop.simps [simp del]

text \<open>\<open>max_by_key\<close> keeps the last of the greatest elements.\<close>

definition deepest :: "pdu list \<Rightarrow> pdu option" where
  "deepest tls = fold (\<lambda>p best. case best of None \<Rightarrow> Some p | Some b \<Rightarrow> if depth p < depth b then Some b else Some p) tls None"

definition backfill :: "('s, 'c) server_env \<Rightarrow> ('s, 'c) server \<Rightarrow> room_id \<Rightarrow> string list \<Rightarrow> nat \<Rightarrow> pdu list" where
  "backfill env sv room from_ids limit =
     (if limit = 0 then []
      else let tls = sv_timeline env sv room;
               by_id = rev (map (\<lambda>p. (event_as_str (event_id p), p)) tls);
               known = filter (\<lambda>i. map_of by_id i \<noteq> None) from_ids;
               frontier = (if known = [] then (case deepest tls of Some p \<Rightarrow> [event_as_str (event_id p)] | None \<Rightarrow> []) else known)
           in take limit (sort_key (\<lambda>p. - int (unat (depth p))) (backfill_loop by_id {} frontier [])))"

subsection \<open>Single events and state ids\<close>

definition event_transaction ::
  "('s, 'c) server_env \<Rightarrow> string \<Rightarrow> ('s, 'c) server \<Rightarrow> ('s, 'c) server \<times> json option" where
  "event_transaction env eid sv =
     (case List.find (\<lambda>p. event_as_str (event_id p) = eid) (events_since (srv_ops env) (sv_store sv) 0) of
        None \<Rightarrow> (sv, None)
      | Some p \<Rightarrow>
          (let (now, sv) = now_ms env sv;
               obj = bt_insert ''origin'' (JString (srv_name env)) [];
               obj = bt_insert ''origin_server_ts'' (JNumber (f64_of_nat (unat now))) obj
           in (sv, Some (JObject (bt_insert ''pdus'' (JArray [pdu_to_json p]) obj)))))"

definition state_ids :: "('s, 'c) server_env \<Rightarrow> ('s, 'c) server \<Rightarrow> room_id \<Rightarrow> json" where
  "state_ids env sv room =
     (let ids = map event_id (room_state env sv room);
          chain = sorted_list_of_set (event_as_str ` auth_chain ids (by_id_of (sv_timeline env sv room)));
          obj = bt_insert ''pdu_ids'' (JArray (map (\<lambda>i. JString (event_as_str i)) ids)) []
      in JObject (bt_insert ''auth_chain_ids'' (JArray (map JString chain)) obj))"

end
