(* ===== verification/ServerLog.thy ===== *)
theory ServerLog
  imports ServerFed
begin

section \<open>The server's history is a log of authorized events\<close>

text \<open>
  The operations a client or another server can run, and what each may write: entries of the
  families that hold no room data, and appends of events that passed the authorization rules.
  \<open>grows\<close> collects such writes as a step relation on the store.
\<close>

datatype sv_op =
    OpRegister string string
  | OpLogin string string
  | OpCreateRoom user_id "string option" "string option"
  | OpMembership user_id room_id user_id string
  | OpSend user_id room_id string string string
  | OpTyping user_id room_id bool u64
  | OpReceipt user_id room_id string
  | OpPresence user_id string "string option"
  | OpTransaction json
  | OpIngestKeys json
  | OpSigningKey string string
  | OpFederationKey string string
  | OpServerKeys
  | OpVerifyRequest string string "string option" "string option"
  | OpDeviceKeys user_id string string
  | OpOneTimeKeys user_id string "(string \<times> string) list"
  | OpClaimKey user_id string string
  | OpCrossSigning user_id string string
  | OpSync user_id "string option"
  | OpEvent string

fun sv_run :: "('s, 'c) server_env \<Rightarrow> sv_op \<Rightarrow> ('s, 'c) server \<Rightarrow> ('s, 'c) server" where
  "sv_run env (OpRegister l p) sv = fst (register_account env l p sv)"
| "sv_run env (OpLogin l p) sv = fst (password_login env l p sv)"
| "sv_run env (OpCreateRoom u nm topic) sv = fst (create_room env u nm topic sv)"
| "sv_run env (OpMembership u r t m) sv = fst (change_membership env u r t m sv)"
| "sv_run env (OpSend u r k t c) sv = fst (send_message env u r k t c sv)"
| "sv_run env (OpTyping u r b t) sv = fst (set_typing env u r b t sv)"
| "sv_run env (OpReceipt u r e) sv = fst (set_read_receipt env u r e sv)"
| "sv_run env (OpPresence u p m) sv = fst (set_presence env u p m sv)"
| "sv_run env (OpTransaction j) sv = fst (receive_transaction env j sv)"
| "sv_run env (OpIngestKeys j) sv = fst (ingest_key_document env j sv)"
| "sv_run env (OpSigningKey k s) sv = register_signing_key env k s sv"
| "sv_run env (OpFederationKey orig k) sv = register_federation_key env orig k sv"
| "sv_run env OpServerKeys sv = fst (server_keys env sv)"
| "sv_run env (OpVerifyRequest m u c a) sv = fst (verify_federation_request env m u c a sv)"
| "sv_run env (OpDeviceKeys u d k) sv = store_device_keys env u d k sv"
| "sv_run env (OpOneTimeKeys u d ks) sv = fst (store_one_time_keys env u d ks sv)"
| "sv_run env (OpClaimKey u d a) sv = fst (claim_one_time_key env u d a sv)"
| "sv_run env (OpCrossSigning u us k) sv = store_cross_signing_key env u us k sv"
| "sv_run env (OpSync u since) sv = snd (sync env u since sv)"
| "sv_run env (OpEvent eid) sv = fst (event_transaction env eid sv)"

definition room_families :: "string set" where
  "room_families = {cf_EVENTS, cf_ROOM_STATE, cf_EVENT_STREAM}"

definition logged_families :: "string set" where
  "logged_families = insert cf_TRANSACTIONS room_families"

text \<open>The events a room is founded with, the first ones of the list \<open>create_room\<close> builds, in a chain.\<close>

definition founding_block :: "user_id \<Rightarrow> string option \<Rightarrow> string option \<Rightarrow> room_id \<Rightarrow> pdu list \<Rightarrow> bool" where
  "founding_block creator nm topic room es \<longleftrightarrow>
     map (\<lambda>e. (kind e, state_key e, content_json e)) es =
       take (length es) (map (\<lambda>(k, sk, content). (k, Some sk, content)) (initial_events creator nm topic)) \<and>
     (\<forall>e\<in>set es. sender e = creator \<and> room_id e = room \<and> auth_events e = []) \<and>
     (\<forall>i < length es. depth (es ! i) = of_nat (i + 1) \<and> prev_events (es ! i) = (if i = 0 then [] else [event_id (es ! (i - 1))]))"

definition founding :: "pdu list \<Rightarrow> pdu \<Rightarrow> bool" where
  "founding hist p \<longleftrightarrow> (\<exists>nm topic earlier block. hist = earlier @ block \<and>
     founding_block (sender p) nm topic (room_id p) (block @ [p]))"

text \<open>
  An event is admitted after the events \<open>hist\<close> by the current state of its room, or by its auth
  events, all known or in \<open>hist\<close>, or as the next founding event of a room.
\<close>

definition admitted :: "'s store_ops \<Rightarrow> pdu set \<Rightarrow> pdu list \<Rightarrow> pdu \<Rightarrow> 's \<Rightarrow> bool" where
  "admitted ops known hist p s \<longleftrightarrow> founding hist p \<or>
     (if auth_events p = [] then check_auth p (current_state_pdus ops s (room_id p)) = Inr ()
      else \<exists>qs. set qs \<subseteq> known \<union> set hist \<and> check_auth_with_chain p (by_id_of qs) = Inr ())"

inductive grows :: "'s store_ops \<Rightarrow> pdu set \<Rightarrow> pdu list \<Rightarrow> 's \<Rightarrow> 's \<Rightarrow> pdu list \<Rightarrow> bool" for ops known where
  grows_done: "grows ops known hist s s []"
| grows_put: "cf \<notin> logged_families \<Longrightarrow> grows ops known hist (fst (st_put ops cf k v s)) s' qs \<Longrightarrow> grows ops known hist s s' qs"
| grows_delete: "cf \<notin> logged_families \<Longrightarrow> grows ops known hist (fst (st_delete ops cf k s)) s' qs \<Longrightarrow> grows ops known hist s s' qs"
| grows_append: "admitted ops known hist p s \<Longrightarrow> grows ops known (hist @ [p]) (room_append ops p s) s' qs \<Longrightarrow>
    grows ops known hist s s' (p # qs)"
| grows_send: "admitted ops known hist p s \<Longrightarrow> st_get ops s cf_TRANSACTIONS key = None \<Longrightarrow>
    grows ops known (hist @ [p])
      (fst (st_put ops cf_TRANSACTIONS key (as_bytes (event_as_str (event_id p))) (room_append ops p s))) s' qs \<Longrightarrow>
    grows ops known hist s s' (p # qs)"

lemma founding_later: "founding hist p \<Longrightarrow> founding (ps @ hist) p"
  unfolding founding_def by (metis append.assoc)

lemma grows_trans: "grows ops known hist s s1 qs \<Longrightarrow> grows ops known (hist @ qs) s1 s2 rs \<Longrightarrow> grows ops known hist s s2 (qs @ rs)"
  by (induction rule: grows.induct) (auto intro: grows.intros)

lemma grows_trans_nil: "grows ops known hist s s1 [] \<Longrightarrow> grows ops known hist s1 s2 rs \<Longrightarrow> grows ops known hist s s2 rs"
  using grows_trans [of ops known hist s s1 "[]" s2 rs] by simp

lemma cf_not_logged [simp]:
  "cf_ACCOUNTS \<notin> logged_families" "cf_ACCESS_TOKENS \<notin> logged_families"
  "cf_FEDERATION_KEYS \<notin> logged_families" "cf_SERVER_KEYS \<notin> logged_families" "cf_TYPING \<notin> logged_families"
  "cf_RECEIPTS \<notin> logged_families" "cf_PRESENCE \<notin> logged_families" "cf_KEY_CACHE \<notin> logged_families"
  "cf_DEVICE_KEYS \<notin> logged_families" "cf_DEVICE_OTK \<notin> logged_families" "cf_CROSS_SIGNING \<notin> logged_families"
  by (simp_all add: logged_families_def room_families_def cf_defs)

lemma grows_one_put [simp]: "cf \<notin> logged_families \<Longrightarrow> grows ops known hist s (fst (st_put ops cf k v s)) []"
  by (rule grows_put) (assumption, rule grows_done)

lemma grows_one_delete [simp]: "cf \<notin> logged_families \<Longrightarrow> grows ops known hist s (fst (st_delete ops cf k s)) []"
  by (rule grows_delete) (assumption, rule grows_done)

lemma grows_same [simp]: "grows ops known hist s s []"
  by (rule grows_done)

lemma sv_store_now [simp]: "now_ms env sv = (t, sv') \<Longrightarrow> sv_store sv' = sv_store sv"
  by (auto simp: now_ms_def split: prod.splits)

lemma sv_store_now_ms [simp]: "sv_store (snd (now_ms env sv)) = sv_store sv"
  by (rule sv_store_now [OF prod.collapse [symmetric]])

lemma sv_store_put [simp]: "sv_store (sv_put env cf k v sv) = fst (st_put (srv_ops env) cf k (as_bytes v) (sv_store sv))"
  by (simp add: sv_put_def)

lemma sv_store_append [simp]: "sv_store (sv_append env p sv) = room_append (srv_ops env) p (sv_store sv)"
  by (simp add: sv_append_def)

lemma sv_store_lock [simp]: "sv_store (room_lock room sv) = sv_store sv"
  by (simp add: room_lock_def)

subsection \<open>What each operation writes\<close>

lemma grows_nil: "grows ops known hist s s' [] \<Longrightarrow> \<exists>qs. grows ops known hist s s' qs \<and> length qs \<le> n"
  by (intro exI [where x = "[]"]) simp

lemma submit_event_grows:
  assumes "submit_event env room user k sk content sv = (sv', r)"
  shows "(r = None \<and> sv_store sv' = sv_store sv) \<or>
    (\<exists>p. r = Some (event_as_str (event_id p)) \<and> sv_store sv' = room_append (srv_ops env) p (sv_store sv) \<and>
       check_auth p (current_state_pdus (srv_ops env) (sv_store sv) room) = Inr () \<and>
       room_id p = room \<and> sender p = user \<and> kind p = k \<and> state_key p = sk \<and> content_json p = content \<and> auth_events p = [] \<and>
       (depth p, prev_events p) = next_link env sv room \<and> event_as_str (event_id p) = pdu_reference_id p MAX_SUPPORTED)"
proof -
  obtain d prev where l: "next_link env sv room = (d, prev)" by force
  obtain now sv1 where n: "now_ms env sv = (now, sv1)" by force
  let ?p = "draft_event room user k sk content now d prev"
  show ?thesis
  proof (cases "event_id_parse (pdu_reference_id ?p MAX_SUPPORTED)")
    case (Inl e)
    with assms l n show ?thesis by (auto simp: submit_event_def ok_def)
  next
    case (Inr e)
    then have e: "event_as_str e = pdu_reference_id ?p MAX_SUPPORTED" by (simp add: parse_as_str)
    let ?q = "?p\<lparr>event_id := e\<rparr>"
    have id: "pdu_reference_id ?q MAX_SUPPORTED = event_as_str e" using e by (simp add: reference_id_event_id)
    show ?thesis
    proof (cases "check_auth ?q (room_state env sv1 room)")
      case (Inl _)
      with assms l n \<open>event_id_parse _ = Inr e\<close> show ?thesis by (auto simp: submit_event_def ok_def)
    next
      case (Inr u)
      with assms l n \<open>event_id_parse _ = Inr e\<close> have "sv' = sv_append env ?q sv1" "r = Some (event_as_str e)"
        by (auto simp: submit_event_def ok_def e Let_def)
      moreover have "check_auth ?q (current_state_pdus (srv_ops env) (sv_store sv) room) = Inr ()"
        using Inr n by (simp add: room_state_def)
      ultimately show ?thesis
        using n l id by (intro disjI2 exI [where x = ?q]) (auto simp: draft_event_def)
    qed
  qed
qed

lemma submit_event_admitted:
  assumes "submit_event env room user k sk content sv = (sv', Some eid)"
  shows "\<exists>p. eid = event_as_str (event_id p) \<and> eid = pdu_reference_id p MAX_SUPPORTED \<and>
    sv_store sv' = room_append (srv_ops env) p (sv_store sv) \<and> (\<forall>known hist. admitted (srv_ops env) known hist p (sv_store sv))"
  using submit_event_grows [OF assms] by (auto simp: admitted_def)

lemma submit_event_refused: "submit_event env room user k sk content sv = (sv', None) \<Longrightarrow> sv_store sv' = sv_store sv"
  using submit_event_grows [of env room user k sk content sv sv' None] by auto

lemma grows_fold_put:
  "cf \<notin> logged_families \<Longrightarrow> grows (srv_ops env) known hist (sv_store sv) (sv_store (fold (\<lambda>x sv. sv_put env cf (f x) (g x) sv) xs sv)) []"
proof (induction xs arbitrary: sv)
  case (Cons x xs)
  from Cons.IH [OF Cons.prems, of "sv_put env cf (f x) (g x) sv"] Cons.prems show ?case by (auto intro: grows_put)
qed (simp add: grows_done)

lemma grows_cache_keys:
  "grows (srv_ops env) known hist (sv_store sv)
     (sv_store (fold (\<lambda>(key_id, entry) sv. case F entry of Some pk \<Rightarrow> cache_server_key env n key_id pk v sv | None \<Rightarrow> sv) kvs sv)) []"
proof (induction kvs arbitrary: sv)
  case (Cons kv kvs)
  obtain key_id entry where kv: "kv = (key_id, entry)" by (cases kv)
  show ?case
  proof (cases "F entry")
    case (Some pk)
    have "grows (srv_ops env) known hist (sv_store (cache_server_key env n key_id pk v sv))
        (sv_store (fold (\<lambda>(key_id, entry) sv. case F entry of Some pk \<Rightarrow> cache_server_key env n key_id pk v sv | None \<Rightarrow> sv) kvs
          (cache_server_key env n key_id pk v sv))) []"
      by (rule Cons.IH)
    then show ?thesis using kv Some
      by (simp add: cache_server_key_def) (erule grows_put [OF cf_not_logged(8)])
  qed (use kv Cons.IH in simp)
qed (simp add: grows_done)

lemma typing_users_store: "typing_users env room sv = (us, sv') \<Longrightarrow> sv_store sv' = sv_store sv"
  by (auto simp: typing_users_def split: prod.splits)

lemma joined_view_store: "joined_view env room st tls sv = (j, sv') \<Longrightarrow> sv_store sv' = sv_store sv"
  by (auto simp: joined_view_def typing_users_store split: prod.splits)

lemma initial_joined_store: "initial_joined env user rs sv = (js, sv') \<Longrightarrow> sv_store sv' = sv_store sv"
  by (induction rs arbitrary: sv js sv') (force simp: Let_def joined_view_store split: prod.splits if_splits)+

lemma incremental_store: "sv_store (snd (incremental_rooms env user rs sv)) = sv_store sv"
proof (induction rs arbitrary: sv)
  case (Cons x rest)
  obtain r tls where x: "x = (r, tls)" by force
  have IH: "incremental_rooms env user rest s = ((js, ls), s') \<Longrightarrow> sv_store s' = sv_store s" for s js ls s'
    using Cons.IH [of s] by simp
  show ?case
  proof (cases "room_id_parse r")
    case (Inr room)
    let ?state = "if joined_in_delta tls user then room_state env sv room else filter pdu_is_state tls"
    obtain j sv1 where j: "joined_view env room ?state tls sv = (j, sv1)" by force
    obtain js ls sv2 where i: "incremental_rooms env user rest sv1 = ((js, ls), sv2)" by (metis surj_pair)
    obtain js' ls' sv3 where i': "incremental_rooms env user rest sv = ((js', ls'), sv3)" by (metis surj_pair)
    show ?thesis
      using x Inr j IH [OF i] IH [OF i'] joined_view_store [OF j] by (simp add: Let_def i i')
  qed (use x Cons.IH in simp)
qed simp

lemma sync_store: "sv_store (snd (sync env user since sv)) = sv_store sv"
proof (cases "sync_position since")
  case None
  obtain js sv' where j: "initial_joined env user (rooms (srv_ops env) (sv_store sv)) sv = (js, sv')" by force
  then have "sv_store sv' = sv_store sv" by (rule initial_joined_store)
  with None j show ?thesis by (simp add: sync_def Let_def)
next
  case (Some pos)
  obtain js ls sv' where j: "incremental_rooms env user (by_room (events_since (srv_ops env) (sv_store sv) pos)) sv = ((js, ls), sv')"
    by (metis surj_pair)
  then have "sv_store sv' = sv_store sv" using incremental_store [of env user "by_room (events_since (srv_ops env) (sv_store sv) pos)" sv] by simp
  with Some j show ?thesis by (simp add: sync_def Let_def)
qed

lemma cached_key_store: "cached_key env orig key_id sv = (sv', r) \<Longrightarrow> sv_store sv' = sv_store sv"
  by (auto simp: cached_key_def split: option.splits prod.splits)

lemma receive_edu_grows: "grows (srv_ops env) known hist (sv_store sv) (sv_store (fold (receive_edu env) edus sv)) []"
proof (induction edus arbitrary: sv)
  case (Cons e edus)
  have "grows (srv_ops env) known hist (sv_store sv) (sv_store (receive_edu env e sv)) []"
    by (auto simp: receive_edu_def store_device_keys_def split: option.splits sum.splits prod.splits)
  then have "grows (srv_ops env) known hist (sv_store sv) (sv_store (fold (receive_edu env) edus (receive_edu env e sv))) []"
    using Cons.IH by (rule grows_trans_nil)
  then show ?case by simp
qed (simp add: grows_done)

lemma receive_pdu_simps:
  "pdu_authorized env by_id p sv = Inl e \<Longrightarrow>
     receive_pdu env p (results, by_id, sv) = (bt_insert (event_as_str (event_id p)) not_authorized results, by_id, sv)"
  "pdu_authorized env by_id p sv = Inr u \<Longrightarrow>
     receive_pdu env p (results, by_id, sv) =
       (bt_insert (event_as_str (event_id p)) (JObject []) results, (event_id p, p) # by_id, sv_append env p sv)"
  by (simp_all add: receive_pdu_def)

lemma receive_pdus_grows:
  "set known_list \<subseteq> known \<union> set hist \<Longrightarrow>
   \<exists>qs. grows (srv_ops env) known hist (sv_store sv)
       (sv_store (snd (snd (fold (receive_pdu env) ps (results, by_id_of known_list, sv))))) qs \<and> length qs \<le> length ps"
proof (induction ps arbitrary: results known_list sv hist)
  case Nil
  show ?case by (intro exI [where x = "[]"]) simp
next
  case (Cons p ps)
  have snoc: "(event_id p, p) # by_id_of known_list = by_id_of (known_list @ [p])" by (simp add: by_id_of_def)
  show ?case
  proof (cases "pdu_authorized env (by_id_of known_list) p sv")
    case (Inl e)
    from Cons.IH [OF Cons.prems, of sv "bt_insert (event_as_str (event_id p)) not_authorized results"]
    show ?thesis by (auto simp: receive_pdu_simps(1) [OF Inl] intro: le_SucI)
  next
    case (Inr u)
    have "set (known_list @ [p]) \<subseteq> known \<union> set (hist @ [p])" using Cons.prems by auto
    from Cons.IH [OF this, of "sv_append env p sv" "bt_insert (event_as_str (event_id p)) (JObject []) results"]
    obtain qs where
      "grows (srv_ops env) known (hist @ [p]) (room_append (srv_ops env) p (sv_store sv))
         (sv_store (snd (snd (fold (receive_pdu env) (p # ps) (results, by_id_of known_list, sv))))) qs" "length qs \<le> length ps"
      by (auto simp: receive_pdu_simps(2) [OF Inr] snoc)
    moreover have "admitted (srv_ops env) known hist p (sv_store sv)"
      using Inr Cons.prems by (auto simp: admitted_def pdu_authorized_def room_state_def split: if_splits)
    ultimately show ?thesis by (intro exI [where x = "p # qs"]) (auto intro: grows_append)
  qed
qed

lemma founding_block_snoc:
  assumes "founding_block creator nm topic room block"
    and "drop (length block) (initial_events creator nm topic) = (kind q, sk, content_json q) # evs"
    and "state_key q = Some sk" "sender q = creator" "room_id q = room" "auth_events q = []"
    and "depth q = of_nat (length block + 1)" "prev_events q = (if block = [] then [] else [event_id (last block)])"
  shows "founding_block creator nm topic room (block @ [q])"
proof -
  let ?ie = "initial_events creator nm topic"
  have l: "length block < length ?ie" using assms(2) by (metis drop_eq_Nil list.distinct(1) not_le)
  have "?ie ! length block = (kind q, sk, content_json q)" using assms(2) by (rule nth_via_drop)
  then have "take (Suc (length block)) (map (\<lambda>(k, sk, content). (k, Some sk, content)) ?ie) =
      take (length block) (map (\<lambda>(k, sk, content). (k, Some sk, content)) ?ie) @ [(kind q, Some sk, content_json q)]"
    using l by (simp add: take_Suc_conv_app_nth)
  then have "map (\<lambda>e. (kind e, state_key e, content_json e)) (block @ [q]) =
      take (length (block @ [q])) (map (\<lambda>(k, sk, content). (k, Some sk, content)) ?ie)"
    using assms(1,3) by (simp add: founding_block_def)
  moreover have "\<forall>e\<in>set (block @ [q]). sender e = creator \<and> room_id e = room \<and> auth_events e = []"
    using assms(1,4-6) by (simp add: founding_block_def)
  moreover have "depth ((block @ [q]) ! i) = of_nat (i + 1) \<and>
      prev_events ((block @ [q]) ! i) = (if i = 0 then [] else [event_id ((block @ [q]) ! (i - 1))])"
    if "i < length (block @ [q])" for i
  proof (cases "i = length block")
    case True
    then show ?thesis using assms(7,8) by (cases block rule: rev_cases) (auto simp: nth_append)
  next
    case False
    with that have "i < length block" by simp
    with assms(1) show ?thesis by (simp add: founding_block_def nth_append less_imp_diff_less)
  qed
  ultimately show ?thesis unfolding founding_block_def by blast
qed

lemma create_loop_grows:
  assumes "founding_block creator nm topic room block" "drop (length block) (initial_events creator nm topic) = evs"
    and "d = of_nat (length block + 1)" "prev = (if block = [] then [] else [event_id (last block)])"
  shows "\<exists>qs. grows (srv_ops env) known (earlier @ block) (sv_store sv) (sv_store (fst (create_loop env room creator evs d prev sv))) qs \<and>
     length qs \<le> length evs"
  using assms
proof (induction evs arbitrary: d prev sv block)
  case Nil
  show ?case by (intro exI [where x = "[]"]) simp
next
  case (Cons e evs)
  obtain k sk content where e: "e = (k, sk, content)" by (cases e)
  obtain now sv1 where n: "now_ms env sv = (now, sv1)" by force
  let ?p = "draft_event room creator k (Some sk) content now d prev"
  show ?case
  proof (cases "event_id_parse (pdu_reference_id ?p MAX_SUPPORTED)")
    case (Inl x)
    with e n show ?thesis by (intro exI [where x = "[]"]) (simp add: ok_def)
  next
    case (Inr i)
    let ?q = "?p\<lparr>event_id := i\<rparr>"
    have b: "founding_block creator nm topic room (block @ [?q])"
      using Cons.prems e by (intro founding_block_snoc [where sk = sk and evs = evs]) (simp_all add: draft_event_def)
    then have "founding (earlier @ block) ?q" unfolding founding_def by (auto simp: draft_event_def)
    then have adm: "admitted (srv_ops env) known (earlier @ block) ?q (sv_store sv)" by (simp add: admitted_def)
    have "drop (length (block @ [?q])) (initial_events creator nm topic) = evs"
      using Cons.prems(2) by (metis drop_Suc length_append_singleton list.sel(3) tl_drop)
    from Cons.IH [OF b this, of "d + 1" "[i]" "sv_append env ?q sv1"] Cons.prems obtain qs where
      "grows (srv_ops env) known (earlier @ block @ [?q]) (room_append (srv_ops env) ?q (sv_store sv))
         (sv_store (fst (create_loop env room creator evs (d + 1) [i] (sv_append env ?q sv1)))) qs" "length qs \<le> length evs"
      using n by auto
    with adm e n Inr show ?thesis by (intro exI [where x = "?q # qs"]) (auto simp: ok_def intro: grows_append)
  qed
qed

subsection \<open>One operation\<close>

definition op_size :: "sv_op \<Rightarrow> nat" where
  "op_size op = (case op of
     OpTransaction j \<Rightarrow> (case transaction_from_json j of Inl _ \<Rightarrow> 0 | Inr t \<Rightarrow> length (txn_pdus t))
   | OpCreateRoom _ _ _ \<Rightarrow> 5
   | OpMembership _ _ _ _ \<Rightarrow> 1
   | OpSend _ _ _ _ _ \<Rightarrow> 1
   | _ \<Rightarrow> 0)"

text \<open>The events the store returns.\<close>

definition stored_events :: "'s store_ops \<Rightarrow> 's \<Rightarrow> pdu set" where
  "stored_events ops s = (\<Union>room. set (timeline ops s room))"

lemma create_room_grows:
  "\<exists>qs. grows (srv_ops env) known hist (sv_store sv) (sv_store (fst (create_room env u nm topic sv))) qs \<and> length qs \<le> 5"
proof -
  obtain sv1 r where m: "mint_room_id env u sv = (sv1, r)" by force
  then have s: "sv_store sv1 = sv_store sv" by (auto simp: mint_room_id_def Let_def split: prod.splits)
  show ?thesis
  proof (cases r)
    case None
    with m s show ?thesis by (intro grows_nil) (simp add: create_room_def)
  next
    case (Some room)
    obtain sv2 r2 where c: "create_loop env room u (initial_events u nm topic) 1 [] sv1 = (sv2, r2)" by force
    have "length (initial_events u nm topic) \<le> 5" by (auto simp: initial_events_def split: option.splits)
    with create_loop_grows [of u nm topic room "[]" "initial_events u nm topic" 1 "[]" env known hist sv1] obtain qs where
      "grows (srv_ops env) known hist (sv_store sv) (sv_store sv2) qs" "length qs \<le> 5"
      by (auto simp: c s founding_block_def)
    moreover have "sv_store (fst (create_room env u nm topic sv)) = sv_store sv2"
      using m Some c by (simp add: create_room_def split: option.splits)
    ultimately show ?thesis by auto
  qed
qed

lemma receive_transaction_grows:
  "\<exists>qs. grows (srv_ops env) (stored_events (srv_ops env) (sv_store sv)) [] (sv_store sv)
      (sv_store (fst (receive_transaction env j sv))) qs \<and> length qs \<le> op_size (OpTransaction j)"
proof (cases "transaction_from_json j")
  case (Inl e)
  then show ?thesis by (intro grows_nil) (simp add: receive_transaction_def)
next
  case (Inr t)
  let ?known = "concat (map (\<lambda>p. sv_timeline env sv (room_id p)) (txn_pdus t))"
  obtain results by_id sv1 where f: "fold (receive_pdu env) (txn_pdus t) ([], by_id_of ?known, sv) = (results, by_id, sv1)"
    by (metis surj_pair)
  have "set ?known \<subseteq> stored_events (srv_ops env) (sv_store sv)" by (auto simp: stored_events_def sv_timeline_def)
  then have "set ?known \<subseteq> stored_events (srv_ops env) (sv_store sv) \<union> set []" by simp
  from receive_pdus_grows [OF this, of env sv "txn_pdus t" "[]"] obtain qs where
    "grows (srv_ops env) (stored_events (srv_ops env) (sv_store sv)) [] (sv_store sv) (sv_store sv1) qs" "length qs \<le> length (txn_pdus t)"
    by (auto simp: f)
  from grows_trans [OF this(1) receive_edu_grows] this(2) Inr f show ?thesis
    by (intro exI [where x = qs]) (simp add: receive_transaction_def op_size_def Let_def)
qed

lemma change_membership_grows:
  "\<exists>qs. grows (srv_ops env) known hist (sv_store sv) (sv_store (fst (change_membership env u r t m sv))) qs \<and> length qs \<le> 1"
proof -
  obtain sv' x where
    s: "submit_event env r u ROOM_MEMBER (Some (user_as_str t)) (single_field ''membership'' m) (room_lock r sv) = (sv', x)" by force
  show ?thesis
  proof (cases x)
    case None
    with submit_event_refused [OF s [unfolded None]] s show ?thesis by (intro grows_nil) (simp add: change_membership_def)
  next
    case (Some eid)
    from submit_event_admitted [OF s [unfolded Some]] obtain p where
      "sv_store sv' = room_append (srv_ops env) p (sv_store sv)" "admitted (srv_ops env) known hist p (sv_store sv)" by auto
    with s show ?thesis
      by (intro exI [where x = "[p]"]) (auto simp: change_membership_def intro: grows_append grows_done)
  qed
qed

lemma send_message_grows:
  "\<exists>qs. grows (srv_ops env) known hist (sv_store sv) (sv_store (fst (send_message env u r k t c sv))) qs \<and> length qs \<le> 1"
proof (cases "send_lookup env u t sv")
  case None
  then have new: "st_get (srv_ops env) (sv_store sv) cf_TRANSACTIONS (txn_key u t) = None"
    by (simp add: send_lookup_def sv_get_def)
  obtain sv' x where s: "submit_event env r u k None c (room_lock r sv) = (sv', x)" by force
  show ?thesis
  proof (cases x)
    case None
    with submit_event_refused [OF s [unfolded None]] s \<open>send_lookup _ _ _ _ = None\<close> show ?thesis
      by (intro grows_nil) (simp add: send_message_def send_commit_def)
  next
    case (Some eid)
    from submit_event_admitted [OF s [unfolded Some]] obtain p where "eid = event_as_str (event_id p)"
      "sv_store sv' = room_append (srv_ops env) p (sv_store sv)" "admitted (srv_ops env) known hist p (sv_store sv)" by auto
    with s Some None new show ?thesis
      by (intro exI [where x = "[p]"])
        (auto simp: send_message_def send_commit_def intro: grows_send [where key = "txn_key u t"] grows_done)
  qed
qed (intro grows_nil, simp add: send_message_def)

text \<open>The operations that touch no room.\<close>

lemma ingest_grows: "grows (srv_ops env) known hist (sv_store sv) (sv_store (fst (ingest_key_document env j sv))) []"
proof -
  obtain now sv1 where n: "now_ms env sv = (now, sv1)" by force
  then have s: "sv_store sv1 = sv_store sv" by simp
  have "grows (srv_ops env) known hist (sv_store sv) (sv_store (fold (\<lambda>(key_id, entry) sv.
      case Option.bind (json_get entry ''key'') as_str of None \<Rightarrow> sv | Some pk \<Rightarrow> cache_server_key env nm key_id pk v sv) kvs sv1)) []"
    for nm v kvs
    using grows_cache_keys [where F = "\<lambda>entry. Option.bind (json_get entry ''key'') as_str" and sv = sv1] s by simp
  then show ?thesis unfolding ingest_key_document_def n by (simp add: s split: option.split)
qed

lemma verify_request_store: "sv_store (fst (verify_federation_request env m u c a sv)) = sv_store sv"
  by (auto simp: verify_federation_request_def dest: cached_key_store split: option.splits prod.splits)

lemma quiet_grows:
  "grows (srv_ops env) known hist (sv_store sv) (sv_store (fst (register_account env l pw sv))) []"
  "grows (srv_ops env) known hist (sv_store sv) (sv_store (fst (password_login env l pw sv))) []"
  "grows (srv_ops env) known hist (sv_store sv) (sv_store (fst (set_typing env u r b tm sv))) []"
  "grows (srv_ops env) known hist (sv_store sv) (sv_store (fst (set_read_receipt env u r e sv))) []"
  "grows (srv_ops env) known hist (sv_store sv) (sv_store (fst (set_presence env u ps msg sv))) []"
  "grows (srv_ops env) known hist (sv_store sv) (sv_store (register_signing_key env k sd sv)) []"
  "grows (srv_ops env) known hist (sv_store sv) (sv_store (register_federation_key env orig k sv)) []"
  "grows (srv_ops env) known hist (sv_store sv) (sv_store (fst (server_keys env sv))) []"
  "grows (srv_ops env) known hist (sv_store sv) (sv_store (store_device_keys env u d k sv)) []"
  "grows (srv_ops env) known hist (sv_store sv) (sv_store (fst (store_one_time_keys env u d ks sv))) []"
  "grows (srv_ops env) known hist (sv_store sv) (sv_store (fst (claim_one_time_key env u d alg sv))) []"
  "grows (srv_ops env) known hist (sv_store sv) (sv_store (store_cross_signing_key env u d k sv)) []"
  "grows (srv_ops env) known hist (sv_store sv) (sv_store (fst (event_transaction env e sv))) []"
  by (auto simp: register_account_def account_register_def password_login_def session_create_def Let_def set_typing_def
      set_read_receipt_def set_presence_def register_signing_key_def register_federation_key_def server_keys_def
      store_device_keys_def store_one_time_keys_def claim_one_time_key_def store_cross_signing_key_def event_transaction_def
      case_prod_unfold grows_fold_put
      intro: grows_put [OF cf_not_logged(4) grows_one_put [OF cf_not_logged(3)]]
      split: option.splits prod.splits)

lemma sv_run_grows:
  "\<exists>qs. grows (srv_ops env) (stored_events (srv_ops env) (sv_store sv)) [] (sv_store sv) (sv_store (sv_run env op sv)) qs \<and>
     length qs \<le> op_size op"
proof (cases op)
  case (OpTransaction j)
  then show ?thesis using receive_transaction_grows by simp
next
  case (OpCreateRoom u nm topic)
  then show ?thesis using create_room_grows by (simp add: op_size_def)
next
  case (OpMembership u r t m)
  then show ?thesis using change_membership_grows by (simp add: op_size_def)
next
  case (OpSend u r k t c)
  then show ?thesis using send_message_grows by (simp add: op_size_def)
qed (auto intro!: grows_nil simp: quiet_grows ingest_grows verify_request_store sync_store)

subsection \<open>The history\<close>

text \<open>
  A store that holds a log of events holds the longer log after a step.  Events read back from a
  log are those of the log, as far as the byte form is exact for them.
\<close>

definition log_events :: "pdu list \<Rightarrow> pdu set" where
  "log_events ps = set ps \<union> {q. \<exists>p\<in>set ps. pdu_decode (pdu_encode p) = Some q}"

definition history_authorized :: "pdu list \<Rightarrow> bool" where
  "history_authorized ps \<longleftrightarrow> (\<forall>i < length ps.
     admitted shared_ops (log_events (take i ps)) (take i ps) (ps ! i) (fold (room_append shared_ops) (take i ps) shared_new))"

lemma log_events_exact: "\<forall>p\<in>set ps. codec_ok p \<and> length (pdu_encode p) < 2 ^ 64 \<Longrightarrow> log_events ps = set ps"
  by (auto simp: log_events_def codec_read)

lemma history_authorized_snoc:
  "history_authorized (ps @ [p]) \<longleftrightarrow>
     history_authorized ps \<and> admitted shared_ops (log_events ps) ps p (fold (room_append shared_ops) ps shared_new)"
  by (auto simp: history_authorized_def less_Suc_eq nth_append)

lemma current_state_pdus_scans:
  "st_scan ops s cf_EVENTS = st_scan ops s' cf_EVENTS \<Longrightarrow> st_scan ops s cf_ROOM_STATE = st_scan ops s' cf_ROOM_STATE \<Longrightarrow>
   current_state_pdus ops s room = current_state_pdus ops s' room"
  by (simp add: current_state_pdus_def current_state_def room_pdu_def timeline_def)

lemma bt_of_list_mem: "kv \<in> set (bt_of_list kvs) \<Longrightarrow> kv \<in> set kvs"
proof -
  assume "kv \<in> set (bt_of_list kvs)"
  then have "map_of (bt_of_list kvs) (fst kv) = Some (snd kv)"
    using bt_ok_of_list [of kvs] by (auto simp: bt_ok_def strict_sorted_iff intro: map_of_is_SomeI)
  then show ?thesis by (auto simp: map_of_bt_of_list dest!: map_of_SomeD)
qed

lemma stored_events_log:
  "holds_log shared_ops shared_inv s ps \<Longrightarrow> stored_events shared_ops s \<subseteq> log_events ps"
  by (fastforce simp: stored_events_def timeline_def holds_log_def map_filter_def log_events_def dest!: bt_of_list_mem)

lemma holds_log_put: "holds_log shared_ops shared_inv s ps \<Longrightarrow> cf \<notin> room_families \<Longrightarrow>
   holds_log shared_ops shared_inv (fst (st_put shared_ops cf k v s)) ps"
  by (auto simp: holds_log_def room_families_def shared.put_inv shared.scan_put)

lemma holds_log_delete: "holds_log shared_ops shared_inv s ps \<Longrightarrow> cf \<notin> room_families \<Longrightarrow>
   holds_log shared_ops shared_inv (fst (st_delete shared_ops cf k s)) ps"
  by (auto simp: holds_log_def room_families_def shared.delete_inv shared.scan_delete)

lemma transactions_not_room [simp]: "cf_TRANSACTIONS \<notin> room_families"
  by (simp add: room_families_def cf_defs)

lemma admitted_log:
  assumes "holds_log shared_ops shared_inv s ps" "length ps < 10 ^ 20" "admitted shared_ops known hist p s" "known \<subseteq> log_events ps"
    and "ps = earlier @ hist"
  shows "admitted shared_ops (log_events ps) ps p (fold (room_append shared_ops) ps shared_new)"
proof -
  have "holds_log shared_ops shared_inv (fold (room_append shared_ops) ps shared_new) ps"
    using assms(2) by (rule holds_log_appends)
  then have "current_state_pdus shared_ops s room = current_state_pdus shared_ops (fold (room_append shared_ops) ps shared_new) room" for room
    using assms(1) by (intro current_state_pdus_scans) (simp_all add: holds_log_def)
  moreover have "known \<union> set hist \<subseteq> log_events ps \<union> set ps" using assms(4,5) by auto
  moreover have "founding hist p \<longrightarrow> founding ps p" using assms(5) founding_later by blast
  ultimately show ?thesis using assms(3) unfolding admitted_def by (metis order_trans)
qed

lemma history_step:
  assumes "holds_log shared_ops shared_inv s ps" "history_authorized ps" "admitted shared_ops known hist p s"
    "known \<subseteq> log_events ps" "ps = earlier @ hist" "length ps < 10 ^ 20"
  shows "holds_log shared_ops shared_inv (room_append shared_ops p s) (ps @ [p])" "history_authorized (ps @ [p])"
    "known \<subseteq> log_events (ps @ [p])"
proof -
  show "holds_log shared_ops shared_inv (room_append shared_ops p s) (ps @ [p])"
    using assms(1,6) by (rule shared.holds_log_append)
  show "history_authorized (ps @ [p])"
    using admitted_log [OF assms(1,6,3,4,5)] assms(2) by (simp add: history_authorized_snoc)
  show "known \<subseteq> log_events (ps @ [p])" using assms(4) by (auto simp: log_events_def)
qed

lemma grows_history:
  assumes "grows shared_ops known hist s s' qs" "holds_log shared_ops shared_inv s ps" "history_authorized ps"
    "known \<subseteq> log_events ps" "ps = earlier @ hist" "length ps + length qs \<le> 10 ^ 20"
  shows "holds_log shared_ops shared_inv s' (ps @ qs) \<and> history_authorized (ps @ qs)"
  using assms
proof (induction arbitrary: ps rule: grows.induct)
  case (grows_append hist p s s' qs)
  have "length ps < 10 ^ 20" using grows_append.prems(5) by simp
  from history_step [OF grows_append.prems(1,2) grows_append.hyps(1) grows_append.prems(3,4) this]
  show ?case using grows_append.IH [of "ps @ [p]"] grows_append.prems(4,5) by simp
next
  case (grows_send hist p s key s' qs)
  have "length ps < 10 ^ 20" using grows_send.prems(5) by simp
  from history_step [OF grows_send.prems(1,2) grows_send.hyps(1) grows_send.prems(3,4) this]
  show ?case using grows_send.IH [of "ps @ [p]"] grows_send.prems(4,5) by (simp add: holds_log_put)
qed (simp_all add: holds_log_put holds_log_delete logged_families_def)

lemma sv_run_history:
  assumes "srv_ops env = shared_ops" "holds_log shared_ops shared_inv (sv_store sv) ps" "history_authorized ps"
    "length ps + op_size op \<le> 10 ^ 20"
  shows "\<exists>qs. holds_log shared_ops shared_inv (sv_store (sv_run env op sv)) (ps @ qs) \<and> history_authorized (ps @ qs) \<and>
    length qs \<le> op_size op"
proof -
  obtain qs where
    "grows shared_ops (stored_events shared_ops (sv_store sv)) [] (sv_store sv) (sv_store (sv_run env op sv)) qs" "length qs \<le> op_size op"
    using sv_run_grows [of env sv op] assms(1) by auto
  with grows_history [OF this(1) assms(2,3) stored_events_log [OF assms(2)], of ps] assms(4) show ?thesis by auto
qed

lemma sv_runs_history:
  assumes "srv_ops env = shared_ops" "holds_log shared_ops shared_inv (sv_store sv) ps" "history_authorized ps"
    "length ps + sum_list (map op_size ops) \<le> 10 ^ 20"
  shows "\<exists>qs. holds_log shared_ops shared_inv (sv_store (fold (sv_run env) ops sv)) (ps @ qs) \<and> history_authorized (ps @ qs) \<and>
    length qs \<le> sum_list (map op_size ops)"
  using assms
proof (induction ops arbitrary: sv ps)
  case Nil
  then show ?case by (intro exI [where x = "[]"]) simp
next
  case (Cons op ops)
  obtain qs where q: "holds_log shared_ops shared_inv (sv_store (sv_run env op sv)) (ps @ qs)" "history_authorized (ps @ qs)"
    "length qs \<le> op_size op"
    using sv_run_history [OF Cons.prems(1-3), of op] Cons.prems(4) by auto
  from Cons.IH [OF Cons.prems(1) q(1,2)] q(3) Cons.prems(4) obtain rs where
    "holds_log shared_ops shared_inv (sv_store (fold (sv_run env) (op # ops) sv)) (ps @ qs @ rs)"
    "history_authorized (ps @ qs @ rs)" "length rs \<le> sum_list (map op_size ops)"
    by auto
  with q(3) show ?case by (intro exI [where x = "qs @ rs"]) simp
qed

text \<open>C2: Whatever clients and other servers ask for, in any order, the rooms of the server stay an
  append-only log of events, each authorized when it was appended: by the current state of its
  room, or by auth events the server held or received before it, or as a founding event of a room.\<close>

theorem server_history:
  assumes "srv_ops env = shared_ops" "sum_list (map op_size ops) + sum_list (map op_size later) \<le> 10 ^ 20"
  shows "\<exists>ps qs. holds_log shared_ops shared_inv (sv_store (fold (sv_run env) ops (server_new shared_new c))) ps \<and>
    holds_log shared_ops shared_inv (sv_store (fold (sv_run env) (ops @ later) (server_new shared_new c))) (ps @ qs) \<and>
    history_authorized (ps @ qs) \<and> length (ps @ qs) \<le> sum_list (map op_size (ops @ later))"
proof -
  have "holds_log shared_ops shared_inv (sv_store (server_new shared_new c)) []" "history_authorized []"
    by (simp_all add: server_new_def holds_log_shared_new history_authorized_def)
  from sv_runs_history [OF assms(1) this, of ops] assms(2) obtain ps where
    p: "holds_log shared_ops shared_inv (sv_store (fold (sv_run env) ops (server_new shared_new c))) ps" "history_authorized ps"
    and l: "length ps \<le> sum_list (map op_size ops)"
    by auto
  from sv_runs_history [OF assms(1) p, of later] assms(2) l p(1) show ?thesis by fastforce
qed

subsection \<open>Sending the same transaction again\<close>

lemma room_append_shared:
  assumes "shared_inv s"
  shows "shared_inv (room_append shared_ops p s)"
    and "cf \<notin> room_families \<Longrightarrow> st_scan shared_ops (room_append shared_ops p s) cf = st_scan shared_ops s cf"
    and "cf \<notin> room_families \<Longrightarrow> st_get shared_ops (room_append shared_ops p s) cf k = st_get shared_ops s cf k"
  using assms
  by (auto simp: room_append_def append_state_def Let_def shared.put_inv shared.scan_put shared.get_put room_families_def
      split: option.splits prod.splits)

lemma grows_keeps_transaction:
  assumes "grows shared_ops known hist s s' qs" "shared_inv s" "st_get shared_ops s cf_TRANSACTIONS key = Some v"
  shows "shared_inv s' \<and> st_get shared_ops s' cf_TRANSACTIONS key = Some v"
  using assms
proof (induction rule: grows.induct)
  case (grows_send hist p s k s' qs)
  have "shared_inv (room_append shared_ops p s)" "st_get shared_ops (room_append shared_ops p s) cf_TRANSACTIONS key = Some v"
    using grows_send.prems by (simp_all add: room_append_shared)
  moreover have "key \<noteq> k" using grows_send.hyps(2) grows_send.prems(2) by auto
  ultimately show ?case using grows_send.IH by (simp add: shared.put_inv shared.get_put)
qed (auto simp: logged_families_def shared.put_inv shared.delete_inv shared.get_put shared.get_delete room_append_shared)

lemma sv_runs_keep_transaction:
  assumes "srv_ops env = shared_ops" "shared_inv (sv_store sv)" "send_lookup env u txn sv = Some r"
  shows "send_lookup env u txn (fold (sv_run env) ops sv) = Some r"
  using assms(2,3)
proof (induction ops arbitrary: sv)
  case (Cons op ops)
  obtain v where v: "st_get shared_ops (sv_store sv) cf_TRANSACTIONS (txn_key u txn) = Some v" "r = from_utf8 v"
    using Cons.prems(2) assms(1) by (auto simp: send_lookup_def sv_get_def)
  obtain qs where "grows shared_ops (stored_events shared_ops (sv_store sv)) [] (sv_store sv) (sv_store (sv_run env op sv)) qs"
    using sv_run_grows [of env sv op] assms(1) by auto
  from grows_keeps_transaction [OF this Cons.prems(1) v(1)] v(2) assms(1)
  have "shared_inv (sv_store (sv_run env op sv))" "send_lookup env u txn (sv_run env op sv) = Some r"
    by (simp_all add: send_lookup_def sv_get_def)
  from Cons.IH [OF this] show ?case by simp
qed simp

lemma reference_id_utf8 [simp]: "utf8_valid (pdu_reference_id p v)"
proof -
  have "ascii B64URL" "length B64URL = 64" by (simp_all add: B64URL_def)
  then have "ascii (b64_chunk B64URL c)" for c by (rule ascii_b64_chunk)
  then have "ascii (base64url_encode data)" for data by (auto simp: base64url_encode_def ascii_def)
  then show ?thesis by (simp add: pdu_reference_id_def reference_id_def ascii_utf8_valid)
qed

text \<open>A server over an empty shared store with a clock that counts up.\<close>

definition sample_env :: "(shared_store, nat) server_env" where
  "sample_env = \<lparr>srv_ops = shared_ops, srv_sip = (\<lambda>_. 7), srv_now = (\<lambda>c. (of_nat c, Suc c)), srv_name = ''x''\<rparr>"

theorem server_history_witness:
  "\<exists>ps qs. holds_log shared_ops shared_inv (sv_store (fold (sv_run sample_env)
       [OpCreateRoom (UserId ''@a:x'') None None] (server_new shared_new 0))) ps \<and>
    holds_log shared_ops shared_inv (sv_store (fold (sv_run sample_env)
       ([OpCreateRoom (UserId ''@a:x'') None None] @ [OpSend (UserId ''@a:x'') (RoomId ''!7:x'') ''m'' ''t'' ''{}''])
       (server_new shared_new 0))) (ps @ qs) \<and>
    history_authorized (ps @ qs) \<and> length (ps @ qs) \<le> 6"
  using server_history [of sample_env "[OpCreateRoom (UserId ''@a:x'') None None]"
      "[OpSend (UserId ''@a:x'') (RoomId ''!7:x'') ''m'' ''t'' ''{}'']" 0]
  by (simp add: sample_env_def op_size_def)

end
