(* ===== verification/ServerRooms.thy ===== *)
theory ServerRooms
  imports ServerLog
begin

section \<open>Rooms the server creates\<close>

text \<open>
  What \<open>create_room\<close> appends, that its events satisfy the authorization rules in a fresh room, and
  what the creator of a room can do in it afterwards.
\<close>

subsection \<open>The founding events\<close>

lemma base64url_nonempty: "data \<noteq> [] \<Longrightarrow> base64url_encode data \<noteq> []"
proof -
  assume d: "data \<noteq> []"
  have "chunks 3 data = take 3 data # chunks 3 (drop 3 data)" using d by (subst chunks.simps) simp
  moreover have "b64_chunk B64URL (take 3 data) \<noteq> []" using length_b64_chunk [of "take 3 data" B64URL] d by fastforce
  ultimately show ?thesis by (simp add: base64url_encode_def)
qed

lemma reference_id_parses [simp]: "event_id_parse (pdu_reference_id p v) = Inr (EventId (pdu_reference_id p v))"
proof -
  have "sha256 b \<noteq> []" for b using length_sha256 [of b] by fastforce
  then show ?thesis by (simp add: event_id_parse_Inr pdu_reference_id_def reference_id_def base64url_nonempty)
qed

lemma sv_locks_now: "now_ms env sv = (t, sv') \<Longrightarrow> sv_locks sv' = sv_locks sv"
  by (cases "srv_now env (sv_clock sv)") (auto simp: now_ms_def simp del: sv_store_now)

lemma create_loop_result:
  assumes "founding_block creator nm topic room block" "drop (length block) (initial_events creator nm topic) = evs"
    and "d = of_nat (length block + 1)" "prev = (if block = [] then [] else [event_id (last block)])"
  shows "\<exists>es sv'. create_loop env room creator evs d prev sv = (sv', Some ()) \<and>
    sv_store sv' = fold (room_append (srv_ops env)) es (sv_store sv) \<and> sv_locks sv' = sv_locks sv \<and>
    founding_block creator nm topic room (block @ es) \<and> length es = length evs \<and>
    (\<forall>e\<in>set es. event_as_str (event_id e) = pdu_reference_id e MAX_SUPPORTED)"
  using assms
proof (induction evs arbitrary: d prev sv block)
  case Nil
  then show ?case by (intro exI [where x = "[]"]) simp
next
  case (Cons e evs)
  obtain k sk content where e: "e = (k, sk, content)" by (cases e)
  obtain now sv1 where n: "now_ms env sv = (now, sv1)" by force
  let ?p = "draft_event room creator k (Some sk) content now d prev"
  let ?q = "?p\<lparr>event_id := EventId (pdu_reference_id ?p MAX_SUPPORTED)\<rparr>"
  have id: "event_as_str (event_id ?q) = pdu_reference_id ?q MAX_SUPPORTED" by (simp add: reference_id_event_id)
  have b: "founding_block creator nm topic room (block @ [?q])"
    using Cons.prems e by (intro founding_block_snoc [where sk = sk and evs = evs]) (simp_all add: draft_event_def)
  have dr: "drop (length (block @ [?q])) (initial_events creator nm topic) = evs"
    using Cons.prems(2) by (metis drop_Suc length_append_singleton list.sel(3) tl_drop)
  have "d + 1 = of_nat (length (block @ [?q]) + 1)" using Cons.prems(3) by simp
  moreover have "[event_id ?q] = (if block @ [?q] = [] then [] else [event_id (last (block @ [?q]))])" by simp
  ultimately obtain es sv' where
    "create_loop env room creator evs (d + 1) [event_id ?q] (sv_append env ?q sv1) = (sv', Some ())"
    and "sv_store sv' = fold (room_append (srv_ops env)) es (sv_store (sv_append env ?q sv1))"
    and "sv_locks sv' = sv_locks (sv_append env ?q sv1)"
    and "founding_block creator nm topic room ((block @ [?q]) @ es)" "length es = length evs"
    and "\<forall>e\<in>set es. event_as_str (event_id e) = pdu_reference_id e MAX_SUPPORTED"
    using Cons.IH [OF b dr, of "d + 1" "[event_id ?q]" "sv_append env ?q sv1"] by blast
  moreover have "sv_locks (sv_append env ?q sv1) = sv_locks sv"
    using sv_locks_now [OF n] by (simp add: sv_append_def)
  ultimately show ?case using id e n by (intro exI [where x = "?q # es"]) (simp add: ok_def)
qed

lemma create_room_result:
  "\<exists>sv'. create_room env u nm topic sv = (sv', snd (mint_room_id env u sv)) \<and>
     (snd (mint_room_id env u sv) = None \<longrightarrow> sv_store sv' = sv_store sv) \<and>
     (\<forall>room. snd (mint_room_id env u sv) = Some room \<longrightarrow>
       (\<exists>es. sv_store sv' = fold (room_append (srv_ops env)) es (sv_store sv) \<and> founding_block u nm topic room es \<and>
         length es = length (initial_events u nm topic) \<and>
         (\<forall>e\<in>set es. event_as_str (event_id e) = pdu_reference_id e MAX_SUPPORTED)))"
proof -
  obtain sv1 r where m: "mint_room_id env u sv = (sv1, r)" by force
  then have s: "sv_store sv1 = sv_store sv" by (auto simp: mint_room_id_def Let_def split: prod.splits)
  show ?thesis
  proof (cases r)
    case None
    with m s show ?thesis by (simp add: create_room_def)
  next
    case (Some room)
    have "founding_block u nm topic room []" by (simp add: founding_block_def)
    from create_loop_result [OF this, of "initial_events u nm topic" 1 "[]" env sv1] obtain es sv' where
      "create_loop env room u (initial_events u nm topic) 1 [] sv1 = (sv', Some ())"
      "sv_store sv' = fold (room_append (srv_ops env)) es (sv_store sv1)" "founding_block u nm topic room es"
      "length es = length (initial_events u nm topic)" "\<forall>e\<in>set es. event_as_str (event_id e) = pdu_reference_id e MAX_SUPPORTED"
      by auto
    with m s Some show ?thesis by (auto simp: create_room_def)
  qed
qed

subsection \<open>The state of a fresh room\<close>

lemma bt_of_list_map_values: "bt_of_list (map (\<lambda>(k, v). (k, f v)) kvs) = map (\<lambda>(k, v). (k, f v)) (bt_of_list kvs)"
proof (induction kvs rule: rev_induct)
  case (snoc kv kvs)
  have "bt_insert k (f v) (map (\<lambda>(k, v). (k, f v)) m) = map (\<lambda>(k, v). (k, f v)) (bt_insert k v m)" for k v m
    by (induction m) auto
  with snoc show ?case by (cases kv) (simp add: bt_of_list_snoc)
qed (simp add: bt_of_list_def)

lemma log_find_mem: "log_ok ps \<Longrightarrow> p \<in> set ps \<Longrightarrow> log_find ps (room_id p) (event_id p) = Some p"
  unfolding log_find_def by (rule find_unique) (auto intro: log_ok_unique)

lemma log_state_pdus_fresh:
  assumes "log_ok (ps @ es)" "room \<notin> room_id ` set ps" "\<forall>e\<in>set es. room_id e = room \<and> state_key e \<noteq> None"
  shows "log_state_pdus (ps @ es) room = map snd (bt_of_list (map (\<lambda>e. ((kind e, the (state_key e)), e)) es))"
proof -
  have "slot_entries ps room = []" using assms(2) by (auto simp: slot_entries_def filter_empty_conv)
  moreover have "slot_entries es room = map (\<lambda>(k, e). (k, event_id e)) (map (\<lambda>e. ((kind e, the (state_key e)), e)) es)"
    using assms(3) by (simp add: slot_entries_def pdu_is_state_def)
  moreover have "slot_entries (ps @ es) room = slot_entries ps room @ slot_entries es room" by (simp add: slot_entries_def)
  ultimately have s: "log_state (ps @ es) room =
      map (\<lambda>(k, e). (k, event_id e)) (bt_of_list (map (\<lambda>e. ((kind e, the (state_key e)), e)) es))"
    by (simp only: log_state_def bt_of_list_map_values append_Nil)
  have "log_find (ps @ es) room (event_id e) = Some e"
    if "(k, e) \<in> set (bt_of_list (map (\<lambda>e. ((kind e, the (state_key e)), e)) es))" for k e
  proof -
    have "e \<in> set es" using bt_of_list_mem [OF that] by auto
    with assms(3) show ?thesis using log_find_mem [OF assms(1), of e] by auto
  qed
  then have "List.map_filter (\<lambda>(_, i). log_find (ps @ es) room i) (map (\<lambda>(k, e). (k, event_id e)) xs) = map snd xs"
    if "set xs \<subseteq> set (bt_of_list (map (\<lambda>e. ((kind e, the (state_key e)), e)) es))" for xs
    using that by (induction xs) (auto simp: map_filter_simps)
  then show ?thesis by (simp add: log_state_pdus_def s)
qed

subsection \<open>The rules accept the founding events\<close>

definition power_levels_json :: "user_id \<Rightarrow> json" where
  "power_levels_json u = JObject (bt_insert ''users_default'' (JNumber (f64_of_nat 0))
     (bt_insert ''users'' (JObject (bt_insert (user_as_str u) (JNumber (f64_of_nat 100)) [])) []))"

lemma small_numbers: "f64_of_nat 0 = Finite 0" "f64_of_nat 100 = Finite 100"
  by (simp_all add: f64_of_nat_def f64_of_ratio_def ratio_log2_def ilog2.simps div_half_even_def)

lemma power_levels_parse:
  assumes "utf8_valid (user_as_str u)"
  shows "json_parse_ok (power_levels_content u) = Some (power_levels_json u)"
  using assms representable_int [of 100] representable_int [of 0] unfolding power_levels_content_def power_levels_json_def
  by (intro json_parse_ok_write) (simp_all add: bt_ok_def MAX_DEPTH_def ascii_utf8_valid f64_ok_def f64_is_finite_def small_numbers)

lemma power_levels_get:
  "json_get (power_levels_json u) ''users'' = Some (JObject [(user_as_str u, JNumber (Finite 100))])"
  "json_get (power_levels_json u) ''users_default'' = Some (JNumber (Finite 0))"
  "k \<notin> {''users'', ''users_default''} \<Longrightarrow> json_get (power_levels_json u) k = None"
  "as_i64 (JNumber (Finite 100)) = Some 100"
  by (simp_all add: power_levels_json_def json_get_def small_numbers f64_fract_zero_def i64_bounds f64_cast_def)

lemma create_creator:
  assumes "utf8_valid (user_as_str u)" "content_json c = create_content u" "sender c = u"
  shows "room_creator c = Some (user_as_str u)"
proof -
  have "json_parse_ok (create_content u) = Some (JObject (bt_insert ''room_version'' (JString (dec (unat MAX_SUPPORTED)))
      (bt_insert ''creator'' (JString (user_as_str u)) [])))"
    using assms(1) unfolding create_content_def
    by (intro json_parse_ok_write) (simp_all add: bt_ok_def MAX_DEPTH_def ascii_utf8_valid)
  then show ?thesis
    using assms(2,3) by (simp add: room_creator_def create_room_version_def content_str_def json_get_def MAX_SUPPORTED_def)
qed

lemma membership_parse: "ascii m \<Longrightarrow> json_parse_ok (single_field ''membership'' m) = Some (JObject [(''membership'', JString m)])"
  unfolding single_field_def bt_insert.simps(1) by (intro json_parse_ok_write) (simp_all add: bt_ok_def MAX_DEPTH_def ascii_utf8_valid)

lemma join_membership: "content_json m = member_join_content \<Longrightarrow> content_str m ''membership'' = Some ''join''"
  by (simp add: content_str_def member_join_content_def membership_parse json_get_def)

text \<open>What the rules read from a room whose state is its creation, its creator's join and perhaps power levels and
  other events.\<close>

definition other_kind :: "pdu \<Rightarrow> bool" where
  "other_kind e \<longleftrightarrow> kind e \<notin> {ROOM_CREATE, ROOM_MEMBER, ROOM_POWER_LEVELS, ROOM_JOIN_RULES, ROOM_THIRD_PARTY_INVITE}"

lemma view_other: "other_kind e \<Longrightarrow> view_step view e = view"
  by (simp add: view_step_def other_kind_def)

lemma view_create_step: "kind c = ROOM_CREATE \<Longrightarrow> view_step view c = view\<lparr>view_create := Some c\<rparr>"
  by (simp add: view_step_def)

lemma view_join_step: "kind m = ROOM_MEMBER \<Longrightarrow> state_key m = Some u \<Longrightarrow> content_json m = member_join_content \<Longrightarrow>
    view_step view m = view\<lparr>view_members := view_members view @ [(u, ''join'')]\<rparr>"
  by (simp add: view_step_def join_membership)

lemma view_power_step: "kind p = ROOM_POWER_LEVELS \<Longrightarrow> content_json p = power_levels_content u \<Longrightarrow> utf8_valid (user_as_str u) \<Longrightarrow>
    view_step view p = view\<lparr>view_power_levels := Some (power_levels_json u)\<rparr>"
  by (simp add: view_step_def power_levels_parse)

text \<open>The founding events by name, and the current states they lead through.\<close>

lemma founding_map:
  "founding_block u nm topic room es \<Longrightarrow> map (\<lambda>e. (kind e, state_key e, content_json e)) es =
     take (length es) (map (\<lambda>(k, sk, content). (k, Some sk, content)) (initial_events u nm topic))"
  by (simp add: founding_block_def)

lemma founding_length:
  assumes "founding_block u nm topic room es"
  shows "length es \<le> length (initial_events u nm topic)"
  using arg_cong [OF founding_map [OF assms], of length] by simp

lemma founding_nth:
  assumes "founding_block u nm topic room es" "i < length es"
  shows "(kind (es ! i), state_key (es ! i), content_json (es ! i)) =
    (\<lambda>(k, sk, content). (k, Some sk, content)) (initial_events u nm topic ! i)"
proof -
  have "map (\<lambda>e. (kind e, state_key e, content_json e)) es ! i =
      map (\<lambda>(k, sk, content). (k, Some sk, content)) (initial_events u nm topic) ! i"
    using assms(2) by (subst founding_map [OF assms(1)]) simp
  then show ?thesis using founding_length [OF assms(1)] assms(2) by simp
qed

lemma founding_sender: "founding_block u nm topic room es \<Longrightarrow> e \<in> set es \<Longrightarrow> sender e = u \<and> room_id e = room \<and> auth_events e = []"
  by (simp add: founding_block_def)

definition slot_list :: "pdu list \<Rightarrow> pdu list" where
  "slot_list es = map snd (bt_of_list (map (\<lambda>e. ((kind e, the (state_key e)), e)) es))"

text \<open>The roles of the founding events.\<close>

definition creation_event :: "user_id \<Rightarrow> pdu \<Rightarrow> bool" where
  "creation_event u c \<longleftrightarrow> kind c = ROOM_CREATE \<and> content_json c = create_content u \<and> sender c = u"

definition creator_join :: "user_id \<Rightarrow> pdu \<Rightarrow> bool" where
  "creator_join u m \<longleftrightarrow> kind m = ROOM_MEMBER \<and> state_key m = Some (user_as_str u) \<and> content_json m = member_join_content"

definition creator_power :: "user_id \<Rightarrow> pdu \<Rightarrow> bool" where
  "creator_power u p \<longleftrightarrow> kind p = ROOM_POWER_LEVELS \<and> content_json p = power_levels_content u"

lemmas founding_roles = creation_event_def creator_join_def creator_power_def

text \<open>What the rules read from the state after the first \<open>i\<close> founding events.\<close>

definition founded_view :: "user_id \<Rightarrow> nat \<Rightarrow> auth_view \<Rightarrow> bool" where
  "founded_view u i v \<longleftrightarrow>
     (if i = 0 then view_create v = None else view_create v \<noteq> None \<and> view_creator v = Some (user_as_str u)) \<and>
     view_power_levels v = (if i < 3 then None else Some (power_levels_json u)) \<and>
     view_members v = (if i < 2 then [] else [(user_as_str u, ''join'')])"

lemma founded_views:
  assumes u: "utf8_valid (user_as_str u)"
  shows "founded_view u 0 (auth_view_new [])"
    and "creation_event u c \<Longrightarrow> founded_view u 1 (auth_view_new [c])"
    and "creation_event u c \<Longrightarrow> creator_join u m \<Longrightarrow> founded_view u 2 (auth_view_new [c, m])"
    and "creation_event u c \<Longrightarrow> creator_join u m \<Longrightarrow> creator_power u p \<Longrightarrow> founded_view u 3 (auth_view_new [c, m, p])"
    and "creation_event u c \<Longrightarrow> creator_join u m \<Longrightarrow> creator_power u p \<Longrightarrow> other_kind n \<Longrightarrow>
      founded_view u 4 (auth_view_new [c, m, n, p])"
    and "creation_event u c \<Longrightarrow> creator_join u m \<Longrightarrow> creator_power u p \<Longrightarrow> other_kind t \<Longrightarrow>
      founded_view u 4 (auth_view_new [c, m, p, t])"
    and "creation_event u c \<Longrightarrow> creator_join u m \<Longrightarrow> creator_power u p \<Longrightarrow> other_kind n \<Longrightarrow> other_kind t \<Longrightarrow>
      founded_view u 5 (auth_view_new [c, m, n, p, t])"
  using u
  by (simp_all add: founded_view_def founding_roles auth_view_new_def view_create_step view_join_step view_power_step view_other
      view_creator_def create_creator)

lemma name_other: "kind e = ROOM_NAME \<Longrightarrow> other_kind e" and topic_other: "kind e = ROOM_TOPIC \<Longrightarrow> other_kind e"
  by (simp_all add: other_kind_def ROOM_CREATE_def ROOM_MEMBER_def ROOM_POWER_LEVELS_def ROOM_NAME_def ROOM_TOPIC_def
      ROOM_JOIN_RULES_def ROOM_THIRD_PARTY_INVITE_def)

lemma founded_states:
  assumes u: "utf8_valid (user_as_str u)" and c: "creation_event u c"
  shows "founded_view u 1 (auth_view_new (slot_list [c]))"
    and "creator_join u m \<Longrightarrow> founded_view u 2 (auth_view_new (slot_list [c, m]))"
    and "creator_join u m \<Longrightarrow> creator_power u p \<Longrightarrow> founded_view u 3 (auth_view_new (slot_list [c, m, p]))"
    and "creator_join u m \<Longrightarrow> creator_power u p \<Longrightarrow> kind t = ROOM_NAME \<or> kind t = ROOM_TOPIC \<Longrightarrow>
      founded_view u 4 (auth_view_new (slot_list [c, m, p, t]))"
    and "creator_join u m \<Longrightarrow> creator_power u p \<Longrightarrow> kind n = ROOM_NAME \<Longrightarrow> kind t = ROOM_TOPIC \<Longrightarrow>
      founded_view u 5 (auth_view_new (slot_list [c, m, p, n, t]))"
proof -
  note kinds = ROOM_CREATE_def ROOM_MEMBER_def ROOM_POWER_LEVELS_def ROOM_NAME_def ROOM_TOPIC_def
  have s: "slot_list [c] = [c]" "creator_join u m \<Longrightarrow> slot_list [c, m] = [c, m]"
    "creator_join u m \<Longrightarrow> creator_power u p \<Longrightarrow> slot_list [c, m, p] = [c, m, p]"
    "creator_join u m \<Longrightarrow> creator_power u p \<Longrightarrow> kind n = ROOM_NAME \<Longrightarrow> slot_list [c, m, p, n] = [c, m, n, p]"
    "creator_join u m \<Longrightarrow> creator_power u p \<Longrightarrow> kind t = ROOM_TOPIC \<Longrightarrow> slot_list [c, m, p, t] = [c, m, p, t]"
    "creator_join u m \<Longrightarrow> creator_power u p \<Longrightarrow> kind n = ROOM_NAME \<Longrightarrow> kind t = ROOM_TOPIC \<Longrightarrow>
       slot_list [c, m, p, n, t] = [c, m, n, p, t]" for m p n t
    using c by (simp_all add: founding_roles slot_list_def bt_of_list_def kinds)
  show "founded_view u 1 (auth_view_new (slot_list [c]))"
    "creator_join u m \<Longrightarrow> founded_view u 2 (auth_view_new (slot_list [c, m]))"
    "creator_join u m \<Longrightarrow> creator_power u p \<Longrightarrow> founded_view u 3 (auth_view_new (slot_list [c, m, p]))"
    "creator_join u m \<Longrightarrow> creator_power u p \<Longrightarrow> kind t = ROOM_NAME \<or> kind t = ROOM_TOPIC \<Longrightarrow>
      founded_view u 4 (auth_view_new (slot_list [c, m, p, t]))"
    "creator_join u m \<Longrightarrow> creator_power u p \<Longrightarrow> kind n = ROOM_NAME \<Longrightarrow> kind t = ROOM_TOPIC \<Longrightarrow>
      founded_view u 5 (auth_view_new (slot_list [c, m, p, n, t]))"
    using founded_views [OF u] c s by (auto simp: name_other topic_other)
qed

lemma founding_view:
  assumes "founding_block u nm topic room es" "i \<le> length es" "utf8_valid (user_as_str u)"
  shows "founded_view u i (auth_view_new (slot_list (take i es)))"
proof -
  have i: "i \<le> 5"
    using assms(2) founding_length [OF assms(1)] by (auto simp: initial_events_def split: option.splits)
  have t: "take i es = map ((!) es) [0..<i]"
    using assms(2) by (metis map_nth take_map take_upt add_0 le_add_same_cancel1 min.absorb2 zero_le)
  note at = founding_nth [OF assms(1)] and s = founding_sender [OF assms(1) nth_mem]
  have c: "creation_event u (es ! 0)" if "0 < i"
    using at [OF order.strict_trans2 [OF that assms(2)]] s [OF order.strict_trans2 [OF that assms(2)]]
    by (simp add: initial_events_def creation_event_def)
  have m: "creator_join u (es ! 1)" if "1 < i"
    using that assms(2) at [of 1] by (auto simp: initial_events_def creator_join_def)
  have p: "creator_power u (es ! 2)" if "2 < i"
    using that assms(2) at [of 2] by (auto simp: initial_events_def creator_power_def)
  have o: "kind (es ! 3) = ROOM_NAME \<or> kind (es ! 3) = ROOM_TOPIC" if "3 < i"
    using that assms(2) at [of 3] founding_length [OF assms(1)] by (auto simp: initial_events_def split: option.splits)
  have o': "kind (es ! 3) = ROOM_NAME" "kind (es ! 4) = ROOM_TOPIC" if "4 < i"
    using that assms(2) at [of 3] at [of 4] founding_length [OF assms(1)] by (auto simp: initial_events_def split: option.splits)
  consider "i = 0" | "i = 1" | "i = 2" | "i = 3" | "i = 4" | "i = 5" using i by linarith
  then show ?thesis
  proof cases
    case 1
    then show ?thesis using founded_views(1) [OF assms(3)] by (simp add: slot_list_def bt_of_list_def)
  next
    case 2
    then have "take i es = [es ! 0]" unfolding t by (simp add: upt_rec eval_nat_numeral)
    with 2 c founded_states(1) [OF assms(3)] show ?thesis by simp
  next
    case 3
    then have "take i es = [es ! 0, es ! 1]" unfolding t by (simp add: upt_rec eval_nat_numeral)
    with 3 c m founded_states(2) [OF assms(3)] show ?thesis by simp
  next
    case 4
    then have "take i es = [es ! 0, es ! 1, es ! 2]" unfolding t by (simp add: upt_rec eval_nat_numeral)
    with 4 c m p founded_states(3) [OF assms(3)] show ?thesis by simp
  next
    case 5
    then have "take i es = [es ! 0, es ! 1, es ! 2, es ! 3]" unfolding t by (simp add: upt_rec eval_nat_numeral)
    with 5 c m p o founded_states(4) [OF assms(3)] show ?thesis by simp
  next
    case 6
    then have "take i es = [es ! 0, es ! 1, es ! 2, es ! 3, es ! 4]" unfolding t by (simp add: upt_rec eval_nat_numeral)
    with 6 c m p o' founded_states(5) [OF assms(3)] show ?thesis by simp
  qed
qed

lemma power_levels_as_i64: "as_i64 (JNumber (Finite 100)) = Some 100" "as_i64 (JNumber (Finite 0)) = Some 0"
  by (simp_all add: f64_fract_zero_def i64_bounds f64_cast_def)

lemma founded_levels:
  assumes "founded_view u i v" "3 \<le> i"
  shows "view_membership v (user_as_str u) = Some ''join''" "view_power_level v (user_as_str u) = 100"
    "x \<noteq> user_as_str u \<Longrightarrow> view_power_level v x = 0" "event_level v k b = (if b then 50 else 0)" "redact_level v = 50"
    "view_create v \<noteq> None"
proof -
  have v: "view_power_levels v = Some (power_levels_json u)" "view_members v = [(user_as_str u, ''join'')]" "view_create v \<noteq> None"
    using assms by (simp_all add: founded_view_def)
  then show "view_membership v (user_as_str u) = Some ''join''" "view_create v \<noteq> None" by (simp_all add: view_membership_def)
  have o: "json_get (JObject [(user_as_str u, j)]) x = (if x = user_as_str u then Some j else None)" for x j
    by (simp add: json_get_def)
  show "view_power_level v (user_as_str u) = 100"
    by (simp add: view_power_level_def v power_levels_get o power_levels_as_i64 del: as_i64.simps)
  show "x \<noteq> user_as_str u \<Longrightarrow> view_power_level v x = 0"
    by (simp add: view_power_level_def v power_levels_get o power_levels_as_i64 del: as_i64.simps)
  show "event_level v k b = (if b then 50 else 0)" "redact_level v = 50"
    by (simp_all add: event_level_def redact_level_def state_default_def events_default_def view_level_def v power_levels_get
        DEFAULT_STATE_POWER_def DEFAULT_EVENTS_POWER_def DEFAULT_REDACT_POWER_def)
qed

lemma founding_authorized:
  assumes "founding_block u nm topic room es" "i < length es" "utf8_valid (user_as_str u)"
    "founded_view u i (auth_view_new state)"
  shows "check_auth (es ! i) state = Inr ()"
proof -
  have i: "i \<le> 4"
    using assms(2) founding_length [OF assms(1)] by (auto simp: initial_events_def split: option.splits)
  note at = founding_nth [OF assms(1,2)] and s = founding_sender [OF assms(1) nth_mem [OF assms(2)]]
  note kinds = ROOM_CREATE_def ROOM_MEMBER_def ROOM_POWER_LEVELS_def ROOM_NAME_def ROOM_TOPIC_def ROOM_REDACTION_def
  note v = assms(4) [unfolded founded_view_def]
  consider "i = 0" | "i = 1" | "i = 2" | "3 \<le> i" using i by linarith
  then show ?thesis
  proof cases
    case 1
    with at v show ?thesis by (simp add: initial_events_def check_auth_def)
  next
    case 2
    with at have "kind (es ! i) = ROOM_MEMBER" "state_key (es ! i) = Some (user_as_str u)" "content_json (es ! i) = member_join_content"
      by (simp_all add: initial_events_def)
    with 2 s v show ?thesis
      by (simp add: check_auth_def check_member_auth_def join_membership view_membership_def kinds Let_def)
  next
    case 3
    with at have "kind (es ! i) = ROOM_POWER_LEVELS" "state_key (es ! i) = Some []" by (simp_all add: initial_events_def)
    with 3 s v show ?thesis
      by (auto simp: check_auth_def view_membership_def kinds view_power_level_def event_level_def state_default_def
          view_level_def CREATOR_POWER_def DEFAULT_STATE_POWER_def pdu_is_state_def)
  next
    case 4
    then have "i = 3 \<or> i = 4" using i by auto
    with at founding_length [OF assms(1)] assms(2) have "kind (es ! i) \<in> {ROOM_NAME, ROOM_TOPIC}" "state_key (es ! i) = Some []"
      by (auto simp: initial_events_def split: option.splits)
    with s founded_levels [OF assms(4) 4] show ?thesis
      by (auto simp: check_auth_def kinds Let_def)
  qed
qed

subsection \<open>Creating a room\<close>

lemma founding_log_authorized:
  assumes "log_ok (ps @ es)" "room \<notin> room_id ` set ps" "founding_block u nm topic room es"
  shows "i < length es \<Longrightarrow> check_auth (es ! i) (log_state_pdus (ps @ take i es) room) = Inr ()"
    and "es \<noteq> [] \<Longrightarrow> i \<le> length es \<Longrightarrow> founded_view u i (auth_view_new (log_state_pdus (ps @ take i es) room))"
proof -
  have v: "founded_view u i (auth_view_new (log_state_pdus (ps @ take i es) room))" if "es \<noteq> []" "i \<le> length es" for i
  proof -
    have "hd es \<in> set es" using that(1) by simp
    then have "utf8_valid (user_as_str (sender (hd es)))" "sender (hd es) = u"
      using assms(1) founding_sender [OF assms(3)] by (auto simp: log_ok_def log_pdu_def codec_ok_def str_ok_def)
    moreover have "log_ok (ps @ take i es)"
      using assms(1) by (auto simp: log_ok_def dest: in_set_takeD)
    moreover have "\<forall>e\<in>set (take i es). room_id e = room \<and> state_key e \<noteq> None"
    proof
      fix e assume "e \<in> set (take i es)"
      then obtain j where "j < length es" "e = es ! j" by (auto simp: in_set_conv_nth)
      then show "room_id e = room \<and> state_key e \<noteq> None"
        using founding_nth [OF assms(3), of j] founding_sender [OF assms(3), of e] by (auto split: prod.splits)
    qed
    ultimately show ?thesis
      using founding_view [OF assms(3) that(2)] assms(2) by (simp add: log_state_pdus_fresh slot_list_def)
  qed
  then show "es \<noteq> [] \<Longrightarrow> i \<le> length es \<Longrightarrow> founded_view u i (auth_view_new (log_state_pdus (ps @ take i es) room))" .
  assume i: "i < length es"
  then have "hd es \<in> set es" by (cases es) auto
  then have "utf8_valid (user_as_str u)"
    using assms(1) founding_sender [OF assms(3), of "hd es"] by (auto simp: log_ok_def log_pdu_def codec_ok_def str_ok_def)
  moreover have "es \<noteq> []" using i by auto
  ultimately show "check_auth (es ! i) (log_state_pdus (ps @ take i es) room) = Inr ()"
    using founding_authorized [OF assms(3) i] v [of i] i by simp
qed

text \<open>Creating a room either mints no id and changes nothing in the store, or appends the founding
  events of the new room, each the parent of the next and each named by its reference id.\<close>

theorem create_room_founds:
  assumes "srv_ops env = shared_ops" "holds_log shared_ops shared_inv (sv_store sv) ps" "length ps + 5 \<le> 10 ^ 20"
    and "create_room env u nm topic sv = (sv', res)"
  shows "(res = None \<and> sv_store sv' = sv_store sv) \<or>
    (\<exists>room es. res = Some room \<and> holds_log shared_ops shared_inv (sv_store sv') (ps @ es) \<and>
       founding_block u nm topic room es \<and> length es = length (initial_events u nm topic) \<and>
       (\<forall>e\<in>set es. event_as_str (event_id e) = pdu_reference_id e MAX_SUPPORTED))"
proof (cases "snd (mint_room_id env u sv)")
  case None
  with create_room_result [of env u nm topic sv] assms(4) show ?thesis by auto
next
  case (Some room)
  with create_room_result [of env u nm topic sv] assms(1,4) obtain es where
    e: "sv_store sv' = fold (room_append shared_ops) es (sv_store sv)" "founding_block u nm topic room es" "res = Some room"
    "length es = length (initial_events u nm topic)" "\<forall>e\<in>set es. event_as_str (event_id e) = pdu_reference_id e MAX_SUPPORTED"
    by auto
  have "length (initial_events u nm topic) \<le> 5" by (auto simp: initial_events_def split: option.splits)
  then have "length ps + length es \<le> 10 ^ 20" using e(4) assms(3) by simp
  then have "holds_log shared_ops shared_inv (fold (room_append shared_ops) es (sv_store sv)) (ps @ es)"
    using assms(2)
  proof (induction es rule: rev_induct)
    case (snoc x xs)
    then show ?case using shared.holds_log_append [of _ "ps @ xs" x] by simp
  qed simp
  with e show ?thesis by auto
qed

subsection \<open>The creator of a room can speak in it\<close>

lemma founding_depths:
  assumes "founding_block u nm topic room es"
  shows "distinct es" "sorted (map (\<lambda>p. (depth p, event_as_str (event_id p))) es)"
proof -
  have l: "length es \<le> 5" using founding_length [OF assms] by (auto simp: initial_events_def split: option.splits)
  have d: "depth (es ! i) = of_nat (i + 1)" if "i < length es" for i
    using assms that by (simp add: founding_block_def)
  have less: "depth (es ! i) < depth (es ! j)" if "i < j" "j < length es" for i j
  proof -
    have "(of_nat (i + 1) :: u64) < of_nat (j + 1)"
      using that l by (simp add: word_less_nat_alt unsigned_of_nat take_bit_nat_eq_self del: of_nat_add of_nat_Suc)
    with d that show ?thesis by simp
  qed
  then show "distinct es" by (metis distinct_conv_nth less_irrefl nat_neq_iff)
  show "sorted (map (\<lambda>p. (depth p, event_as_str (event_id p))) es)"
    unfolding sorted_iff_nth_mono_less using less by (auto simp: less_eq_prod_def)
qed

lemma founding_timeline:
  assumes "room \<notin> room_id ` set ps" "founding_block u nm topic room es"
  shows "log_timeline (ps @ es) room = es"
proof -
  have "filter (\<lambda>p. room_id p = room) ps = []" using assms(1) by (auto simp: filter_empty_conv)
  moreover have "filter (\<lambda>p. room_id p = room) es = es"
    using founding_sender [OF assms(2)] by (intro filter_True) auto
  ultimately show ?thesis
    using founding_depths [OF assms(2)] by (simp add: log_timeline_def distinct_remdups_id sort_key_id_if_sorted)
qed

lemma founding_joined_slot:
  assumes "room \<notin> room_id ` set ps" "founding_block u nm topic room es" "length es = length (initial_events u nm topic)"
  shows "map_of (log_state (ps @ es) room) (ROOM_MEMBER, user_as_str u) = Some (event_id (es ! 1))"
proof -
  let ?slots = "map (\<lambda>e. ((kind e, the (state_key e)), event_id e)) es"
  have l: "1 < length es" using assms(3) by (simp add: initial_events_def)
  have "map (\<lambda>(k, sk, c). (k, the sk)) (map (\<lambda>e. (kind e, state_key e, content_json e)) es) =
      map (\<lambda>(k, sk, c). (k, the sk)) (map (\<lambda>(k, sk, content). (k, Some sk, content)) (initial_events u nm topic))"
    using founding_map [OF assms(2)] assms(3) by simp
  then have "map fst ?slots = map (\<lambda>(k, sk, c). (k, sk)) (initial_events u nm topic)"
    by (simp add: comp_def case_prod_unfold)
  then have d: "distinct (map fst ?slots)"
    by (simp add: initial_events_def ROOM_CREATE_def ROOM_MEMBER_def ROOM_POWER_LEVELS_def ROOM_NAME_def ROOM_TOPIC_def
        split: option.splits)
  have "((ROOM_MEMBER, user_as_str u), event_id (es ! 1)) \<in> set ?slots"
    using founding_nth [OF assms(2) l] l by (force simp: initial_events_def image_iff in_set_conv_nth)
  then have "map_of (rev ?slots) (ROOM_MEMBER, user_as_str u) = Some (event_id (es ! 1))"
    using d by (intro map_of_is_SomeI) (simp_all add: rev_map [symmetric])
  moreover have "slot_entries ps room = []" using assms(1) by (auto simp: slot_entries_def filter_empty_conv)
  moreover have "slot_entries es room = ?slots"
  proof -
    have "room_id e = room \<and> pdu_is_state e" if "e \<in> set es" for e
    proof -
      from that obtain j where "j < length es" "e = es ! j" by (auto simp: in_set_conv_nth)
      then show ?thesis
        using founding_nth [OF assms(2), of j] founding_sender [OF assms(2), of e] by (auto simp: pdu_is_state_def split: prod.splits)
    qed
    then show ?thesis by (simp add: slot_entries_def)
  qed
  moreover have "slot_entries (ps @ es) room = slot_entries ps room @ slot_entries es room" by (simp add: slot_entries_def)
  ultimately show ?thesis by (simp add: log_state_def map_of_bt_of_list)
qed

lemma founded_may_send:
  assumes "founded_view u i (auth_view_new state)" "3 \<le> i" "sender p = u" "state_key p = None" "kind p \<notin> {ROOM_CREATE, ROOM_MEMBER}"
  shows "check_auth p state = Inr ()"
  using assms founded_levels [OF assms(1,2)] by (auto simp: check_auth_def Let_def pdu_is_state_def)

lemma submit_event_accepts:
  assumes "next_link env sv room = (d, prev)" "now_ms env sv = (now, sv1)"
    and "p = draft_event room user k sk content now d prev" "q = p\<lparr>event_id := EventId (pdu_reference_id p MAX_SUPPORTED)\<rparr>"
    and "check_auth q (current_state_pdus (srv_ops env) (sv_store sv) room) = Inr ()"
  shows "submit_event env room user k sk content sv = (sv_append env q sv1, Some (event_as_str (event_id q)))"
  using assms by (simp add: submit_event_def ok_def Let_def room_state_def)

lemma is_joined_log:
  assumes "holds_log shared_ops shared_inv (sv_store sv) ps" "log_ok ps" "SEP \<notin> set (room_as_str room)" "srv_ops env = shared_ops"
    and "map_of (log_state ps room) (ROOM_MEMBER, user_as_str u) = Some (event_id p)" "p \<in> set ps" "room_id p = room"
  shows "is_joined env sv room u \<longleftrightarrow> content_membership (content_json p) = Some ''join''"
proof -
  have "SEP \<notin> set ROOM_MEMBER" by (simp add: ROOM_MEMBER_def SEP_def)
  then have "state_event_pdu shared_ops (sv_store sv) room ROOM_MEMBER (user_as_str u) = Some p"
    using assms log_find_mem [OF assms(2,6)] by (simp add: shared.state_event_pdu_log)
  then show ?thesis
    using assms(4) by (simp add: is_joined_def room_state_content_def state_event_content_def)
qed

lemma creator_joined:
  assumes "srv_ops env = shared_ops" "holds_log shared_ops shared_inv (sv_store sv) (ps @ es)" "log_ok (ps @ es)"
    and "SEP \<notin> set (room_as_str room)" "room \<notin> room_id ` set ps"
    and "founding_block u nm topic room es" "length es = length (initial_events u nm topic)"
  shows "is_joined env sv room u"
proof -
  have l: "3 \<le> length es" "es \<noteq> []" using assms(7) by (auto simp: initial_events_def)
  have mem: "es ! 1 \<in> set (ps @ es)" "room_id (es ! 1) = room" "content_json (es ! 1) = member_join_content"
    using l founding_nth [OF assms(6), of 1] founding_sender [OF assms(6) nth_mem, of 1] by (auto simp: initial_events_def)
  have "is_joined env sv room u \<longleftrightarrow> content_membership (content_json (es ! 1)) = Some ''join''"
    using assms(2-4,1) founding_joined_slot [OF assms(5-7)] mem(1,2) by (rule is_joined_log)
  then show "is_joined env sv room u"
    using mem(3) by (simp add: content_membership_def member_join_content_def membership_parse json_get_def)
qed

lemma creator_sends:
  assumes "srv_ops env = shared_ops" "holds_log shared_ops shared_inv (sv_store sv) (ps @ es)" "log_ok (ps @ es)"
    and "SEP \<notin> set (room_as_str room)" "room \<notin> room_id ` set ps"
    and "founding_block u nm topic room es" "length es = length (initial_events u nm topic)"
    and "k \<notin> {ROOM_CREATE, ROOM_MEMBER}" "send_lookup env u txn sv = None"
  shows "\<exists>p sv'. send_message env u room k txn content sv = (sv', Some (event_as_str (event_id p))) \<and>
       holds_log shared_ops shared_inv (sv_store sv') (ps @ es @ [p]) \<and>
       sender p = u \<and> kind p = k \<and> state_key p = None \<and> content_json p = content \<and> room_id p = room \<and>
       prev_events p = [event_id (last es)] \<and> depth p = of_nat (length es + 1)"
proof -
  have l: "3 \<le> length es" "es \<noteq> []" using assms(7) by (auto simp: initial_events_def)
  let ?sv = "room_lock room sv"
  have st: "current_state_pdus shared_ops (sv_store ?sv) room = log_state_pdus (ps @ es) room"
    "timeline shared_ops (sv_store ?sv) room = es"
    using assms(2-4) founding_timeline [OF assms(5,6)] by (simp_all add: shared.current_state_pdus_log shared.timeline_log)
  have "depth (last es) + 1 = of_nat (length es + 1)"
    using l assms(6) by (simp add: founding_block_def last_conv_nth)
  then have nl: "next_link env ?sv room = (of_nat (length es + 1), [event_id (last es)])"
    using l st(2) assms(1) by (simp add: next_link_def sv_timeline_def)
  obtain now sv1 where n: "now_ms env ?sv = (now, sv1)" by force
  define q where "q = (draft_event room u k None content now (of_nat (length es + 1)) [event_id (last es)])"
  define p where "p = q\<lparr>event_id := EventId (pdu_reference_id q MAX_SUPPORTED)\<rparr>"
  have f: "sender p = u" "kind p = k" "state_key p = None" "content_json p = content" "room_id p = room"
    "prev_events p = [event_id (last es)]" "depth p = of_nat (length es + 1)"
    by (simp_all add: p_def q_def draft_event_def)
  have "founded_view u (length es) (auth_view_new (log_state_pdus (ps @ es) room))"
    using founding_log_authorized(2) [OF assms(3,5,6) l(2), of "length es"] by simp
  then have "check_auth p (current_state_pdus shared_ops (sv_store ?sv) room) = Inr ()"
    unfolding st using l(1) f assms(8) by (intro founded_may_send) simp_all
  then have "submit_event env room u k None content ?sv = (sv_append env p sv1, Some (event_as_str (event_id p)))"
    using assms(1) by (intro submit_event_accepts [OF nl n q_def p_def]) simp
  then have "send_message env u room k txn content sv =
      (sv_put env cf_TRANSACTIONS (txn_key u txn) (event_as_str (event_id p)) (sv_append env p sv1), Some (event_as_str (event_id p)))"
    using assms(9) by (simp add: send_message_def send_commit_def)
  moreover have "holds_log shared_ops shared_inv (room_append shared_ops p (sv_store sv)) ((ps @ es) @ [p])"
    using assms(2,3) by (intro shared.holds_log_append) (auto simp: log_ok_def)
  then have "holds_log shared_ops shared_inv
      (sv_store (sv_put env cf_TRANSACTIONS (txn_key u txn) (event_as_str (event_id p)) (sv_append env p sv1))) (ps @ es @ [p])"
    using assms(1) n by (simp add: holds_log_put)
  ultimately show "\<exists>p sv'. send_message env u room k txn content sv = (sv', Some (event_as_str (event_id p))) \<and>
       holds_log shared_ops shared_inv (sv_store sv') (ps @ es @ [p]) \<and>
       sender p = u \<and> kind p = k \<and> state_key p = None \<and> content_json p = content \<and> room_id p = room \<and>
       prev_events p = [event_id (last es)] \<and> depth p = of_nat (length es + 1)"
    using f by blast
qed

text \<open>C21: The events a room is founded with satisfy the authorization rules one after the other, each against
  the state the earlier ones leave.\<close>

theorem founding_events_authorized:
  assumes "log_ok (ps @ es)" "room \<notin> room_id ` set ps" "SEP \<notin> set (room_as_str room)" "founding_block u nm topic room es"
    and "i < length es" "s = fold (room_append shared_ops) (ps @ take i es) shared_new"
  shows "check_auth (es ! i) (current_state_pdus shared_ops s room) = Inr ()"
proof -
  have "log_ok (ps @ take i es)" using assms(1) by (auto simp: log_ok_def dest: in_set_takeD)
  moreover have "holds_log shared_ops shared_inv s (ps @ take i es)"
    unfolding assms(6) using calculation by (intro holds_log_appends) (simp add: log_ok_def)
  ultimately have "current_state_pdus shared_ops s room = log_state_pdus (ps @ take i es) room"
    using assms(3) by (simp add: shared.current_state_pdus_log)
  then show ?thesis using founding_log_authorized(1) [OF assms(1,2,4,5)] by simp
qed

text \<open>C8: Right after a room is founded, its creator is joined to it and can send, under a new transaction id, any
  event that is no state event and of another kind than create and member: it is appended to the room
  behind the last founding event, with the next depth.  This is stated for a room id that is new and
  for a log whose identifiers and kinds hold no unit separator and whose event ids are unique in
  their room.\<close>

theorem creator_can_speak:
  assumes "srv_ops env = shared_ops" "holds_log shared_ops shared_inv (sv_store sv) (ps @ es)" "log_ok (ps @ es)"
    and "SEP \<notin> set (room_as_str room)" "room \<notin> room_id ` set ps"
    and "founding_block u nm topic room es" "length es = length (initial_events u nm topic)"
    and "k \<notin> {ROOM_CREATE, ROOM_MEMBER}" "send_lookup env u txn sv = None"
  shows "is_joined env sv room u \<and>
    (\<exists>p sv'. send_message env u room k txn content sv = (sv', Some (event_as_str (event_id p))) \<and>
       holds_log shared_ops shared_inv (sv_store sv') (ps @ es @ [p]) \<and>
       sender p = u \<and> kind p = k \<and> state_key p = None \<and> content_json p = content \<and> room_id p = room \<and>
       prev_events p = [event_id (last es)] \<and> depth p = of_nat (length es + 1))"
  using creator_joined [OF assms(1-7)] creator_sends [OF assms] by blast

text \<open>C22: A message whose transaction id was used before is not sent again: whatever else the server did since,
  the retry answers the event id of the first send and writes nothing.\<close>

theorem send_retry:
  assumes "srv_ops env = shared_ops" "shared_inv (sv_store sv)"
    and "send_message env u room k txn content sv = (sv', Some eid)"
    and "sv2 = fold (sv_run env) ops sv'"
  shows "send_message env u room' k' txn content' sv2 = (sv2, Some eid)"
proof -
  have "send_lookup env u txn sv' = Some (Some eid) \<and> shared_inv (sv_store sv')"
  proof (cases "send_lookup env u txn sv")
    case None
    obtain sv1 x where s: "submit_event env room u k None content (room_lock room sv) = (sv1, x)" by force
    then have x: "x = Some eid" and sv': "sv' = sv_put env cf_TRANSACTIONS (txn_key u txn) eid sv1"
      using assms(3) None by (auto simp: send_message_def send_commit_def split: option.splits)
    from submit_event_admitted [OF s [unfolded x]] assms(1,2) obtain p where
      "eid = pdu_reference_id p MAX_SUPPORTED" "sv_store sv1 = room_append shared_ops p (sv_store sv)" by auto
    with assms(1,2) show ?thesis
      by (simp add: sv' send_lookup_def sv_get_def room_append_shared shared.put_inv shared.get_put)
  next
    case (Some r)
    with assms(2,3) show ?thesis by (auto simp: send_message_def)
  qed
  then have "send_lookup env u txn sv2 = Some (Some eid)"
    unfolding assms(4) using sv_runs_keep_transaction [OF assms(1)] by blast
  then show ?thesis by (simp add: send_message_def)
qed

subsection \<open>A sample room\<close>

definition sample_founding :: "pdu list" where
  "sample_founding =
     [(draft_event (RoomId ''!r:x'') (UserId ''@a:x'') ROOM_CREATE (Some []) (create_content (UserId ''@a:x'')) 0 1 [])
        \<lparr>event_id := EventId ''$a''\<rparr>,
      (draft_event (RoomId ''!r:x'') (UserId ''@a:x'') ROOM_MEMBER (Some ''@a:x'') member_join_content 0 2 [EventId ''$a''])
        \<lparr>event_id := EventId ''$b''\<rparr>,
      (draft_event (RoomId ''!r:x'') (UserId ''@a:x'') ROOM_POWER_LEVELS (Some []) (power_levels_content (UserId ''@a:x'')) 0 3 [EventId ''$b''])
        \<lparr>event_id := EventId ''$c''\<rparr>]"

lemma sample_founding_block:
  "founding_block (UserId ''@a:x'') None None (RoomId ''!r:x'') sample_founding"
  "length sample_founding = length (initial_events (UserId ''@a:x'') None None)"
  by (auto simp: founding_block_def sample_founding_def initial_events_def draft_event_def less_Suc_eq nth_Cons')

lemma sample_contents:
  "create_content (UserId ''@a:x'') = ''{\"creator\":\"@a:x\",\"room_version\":\"12\"}''"
  "member_join_content = ''{\"membership\":\"join\"}''"
  "power_levels_content (UserId ''@a:x'') = ''{\"users\":{\"@a:x\":100},\"users_default\":0}''"
proof -
  note eqs = create_content_def member_join_content_def single_field_def power_levels_content_def MAX_SUPPORTED_def
    write_json_string_def escape_char_def format_number_def f64_fract_zero_def f64_cast_def int_display_def small_numbers
    str_chars_ascii utf8_encode_def dec.simps digit_def char_of_def bit_Suc_0_iff
  show "create_content (UserId ''@a:x'') = ''{\"creator\":\"@a:x\",\"room_version\":\"12\"}''"
    by (simp add: eqs)
  show "member_join_content = ''{\"membership\":\"join\"}''"
    by (simp add: eqs)
  show "power_levels_content (UserId ''@a:x'') = ''{\"users\":{\"@a:x\":100},\"users_default\":0}''"
    by (simp add: eqs)
qed

lemma sample_founding_ok: "log_ok sample_founding"
proof -
  have "log_pdu e" if "e \<in> set sample_founding" for e
    using that
    by (auto simp: sample_founding_def draft_event_def sample_contents log_pdu_def codec_ok_def str_ok_def ascii_utf8_valid
        event_ok_def room_ok_def user_ok_def event_id_parse_def room_id_parse_def user_id_parse_def split_sigil_def SEP_def
        pdu_encode_bytes str_bytes_def key_bytes_def events_bytes_def ROOM_CREATE_def ROOM_MEMBER_def ROOM_POWER_LEVELS_def)
  moreover have "length sample_founding < 2 ^ 64" by (simp add: sample_founding_def)
  moreover have "p = q" if "p \<in> set sample_founding" "q \<in> set sample_founding" "event_id p = event_id q" for p q
    using that by (auto simp: sample_founding_def)
  ultimately show ?thesis by (simp add: log_ok_def)
qed

theorem founding_events_authorized_witness:
  "check_auth (sample_founding ! 1)
     (current_state_pdus shared_ops (fold (room_append shared_ops) (take 1 sample_founding) shared_new) (RoomId ''!r:x'')) = Inr ()"
  using founding_events_authorized [of "[]" sample_founding "RoomId ''!r:x''" "UserId ''@a:x''" None None 1, OF _ _ _ _ _ refl]
    sample_founding_ok sample_founding_block(1)
  by (simp add: sample_founding_def SEP_def)

theorem create_room_founds_witness:
  "\<exists>es. holds_log shared_ops shared_inv
     (sv_store (fst (create_room sample_env (UserId ''@a:x'') None None (server_new shared_new 0)))) es \<and> length es = 3"
proof -
  let ?sv = "server_new shared_new (0 :: nat)"
  have "hex16 7 = ''0000000000000007''" by code_simp
  then have "snd (mint_room_id sample_env (UserId ''@a:x'') ?sv) = Some (RoomId ''!0000000000000007:x'')"
    by (simp add: mint_room_id_def Let_def case_prod_unfold sample_env_def room_id_parse_def split_sigil_def ok_def)
  then obtain sv' where c: "create_room sample_env (UserId ''@a:x'') None None ?sv = (sv', Some (RoomId ''!0000000000000007:x''))"
    using create_room_result [of sample_env "UserId ''@a:x''" None None ?sv] by auto
  have "srv_ops sample_env = shared_ops" "holds_log shared_ops shared_inv (sv_store ?sv) []"
    by (simp_all add: sample_env_def server_new_def holds_log_shared_new)
  from create_room_founds [OF this _ c] show ?thesis
    by (auto simp: c initial_events_def)
qed

definition sample_server :: "(shared_store, nat) server" where
  "sample_server = server_new (fold (room_append shared_ops) sample_founding shared_new) 0"

lemma sample_server_facts:
  "srv_ops sample_env = shared_ops" "holds_log shared_ops shared_inv (sv_store sample_server) ([] @ sample_founding)"
  "shared_inv (sv_store sample_server)" "send_lookup sample_env u txn sample_server = None"
proof -
  show "srv_ops sample_env = shared_ops" by (simp add: sample_env_def)
  show h: "holds_log shared_ops shared_inv (sv_store sample_server) ([] @ sample_founding)"
    using holds_log_appends [of sample_founding] by (simp add: sample_server_def server_new_def sample_founding_def)
  then show "shared_inv (sv_store sample_server)" by (simp add: holds_log_def)
  have "shared_inv shared_new" using holds_log_shared_new by (simp add: holds_log_def)
  then have "st_get shared_ops (fold (room_append shared_ops) ps shared_new) cf_TRANSACTIONS k = st_get shared_ops shared_new cf_TRANSACTIONS k \<and>
      shared_inv (fold (room_append shared_ops) ps shared_new)" for ps k
    by (induction ps rule: rev_induct) (simp_all add: room_append_shared)
  then show "send_lookup sample_env u txn sample_server = None"
    by (simp add: send_lookup_def sv_get_def sample_env_def sample_server_def server_new_def shared_sel shared_new_def
        memory_default_def memory_ops_def memory_get_def)
qed

lemma sample_room_facts:
  "log_ok ([] @ sample_founding)" "SEP \<notin> set (room_as_str (RoomId ''!r:x''))" "RoomId ''!r:x'' \<notin> room_id ` set []"
  "''m'' \<notin> {ROOM_CREATE, ROOM_MEMBER}"
  using sample_founding_ok by (simp_all add: SEP_def ROOM_CREATE_def ROOM_MEMBER_def)

theorem creator_can_speak_witness:
  "is_joined sample_env sample_server (RoomId ''!r:x'') (UserId ''@a:x'') \<and>
   (\<exists>(p :: pdu) sv'. send_message sample_env (UserId ''@a:x'') (RoomId ''!r:x'') ''m'' ''t'' ''{}'' sample_server =
      (sv', Some (event_as_str (event_id p))) \<and> depth p = of_nat (length sample_founding + 1))"
  using creator_can_speak [OF sample_server_facts(1,2) sample_room_facts(1-3) sample_founding_block sample_room_facts(4)
      sample_server_facts(4), of "''t''" "''{}''"]
  by blast

theorem send_retry_witness:
  "\<exists>sv' eid. send_message sample_env (UserId ''@a:x'') (RoomId ''!r:x'') ''m'' ''t'' ''{}'' sample_server = (sv', Some eid) \<and>
     snd (send_message sample_env (UserId ''@a:x'') (RoomId ''!r:x'') ''m'' ''t'' ''{}''
       (sv_run sample_env (OpPresence (UserId ''@a:x'') ''online'' None) sv')) = Some eid"
proof -
  obtain sv' eid where s:
    "send_message sample_env (UserId ''@a:x'') (RoomId ''!r:x'') ''m'' ''t'' ''{}'' sample_server = (sv', Some eid)"
    using creator_sends [OF sample_server_facts(1,2) sample_room_facts(1-3) sample_founding_block sample_room_facts(4)
        sample_server_facts(4), of "''t''" "''{}''"]
    by blast
  have "sv_run sample_env (OpPresence (UserId ''@a:x'') ''online'' None) sv' =
      fold (sv_run sample_env) [OpPresence (UserId ''@a:x'') ''online'' None] sv'" by simp
  from send_retry [OF sample_server_facts(1,3) s this] s show ?thesis by simp
qed

end
