(* ===== verification/ServerViews.thy ===== *)
theory ServerViews
  imports ServerRooms
begin

section \<open>What clients and other servers read\<close>

text \<open>
  The sync view against the log of the room service, the walk of a backfill, and the one-time keys
  of a device.
\<close>

subsection \<open>Grouping the new events by room\<close>





subsection \<open>The rooms of an incremental sync\<close>
















subsection \<open>Backfill\<close>

text \<open>The events a peer asks for are the ancestors, over \<open>prev_events\<close>, of the ids it names.\<close>

inductive ancestor :: "(string \<times> pdu) list \<Rightarrow> string list \<Rightarrow> string \<Rightarrow> bool" for by_id roots where
  ancestor_root: "i \<in> set roots \<Longrightarrow> ancestor by_id roots i"
| ancestor_prev: "ancestor by_id roots i \<Longrightarrow> map_of by_id i = Some p \<Longrightarrow> e \<in> set (prev_events p) \<Longrightarrow>
    ancestor by_id roots (event_as_str e)"

definition walk_ok :: "(string \<times> pdu) list \<Rightarrow> string list \<Rightarrow> string set \<Rightarrow> string list \<Rightarrow> pdu list \<Rightarrow> bool" where
  "walk_ok by_id roots seen frontier collected \<longleftrightarrow>
     set roots \<subseteq> seen \<union> set frontier \<and> (\<forall>i\<in>seen \<union> set frontier. ancestor by_id roots i) \<and>
     (\<forall>i\<in>seen. \<forall>p. map_of by_id i = Some p \<longrightarrow> (\<forall>e\<in>set (prev_events p). event_as_str e \<in> seen \<union> set frontier)) \<and>
     set collected = {p. \<exists>i\<in>seen. map_of by_id i = Some p} \<and>
     length collected = card {i\<in>seen. map_of by_id i \<noteq> None} \<and> finite seen"

lemma frontier_last: "frontier \<noteq> [] \<Longrightarrow> set frontier = insert (last frontier) (set (butlast frontier))"
  by (metis append_butlast_last_id list.set(1,2) set_append Un_insert_right sup_bot.right_neutral)

lemma walk_start: "walk_ok by_id roots {} roots []"
  by (simp add: walk_ok_def ancestor_root)

lemma walk_seen:
  assumes "walk_ok by_id roots seen frontier collected" "frontier \<noteq> []" "last frontier \<in> seen"
  shows "walk_ok by_id roots seen (butlast frontier) collected"
proof -
  have "seen \<union> set frontier = seen \<union> set (butlast frontier)" using frontier_last [OF assms(2)] assms(3) by auto
  then show ?thesis using assms(1) unfolding walk_ok_def by presburger
qed

lemma walk_unknown:
  assumes "walk_ok by_id roots seen frontier collected" "frontier \<noteq> []" "last frontier \<notin> seen" "map_of by_id (last frontier) = None"
  shows "walk_ok by_id roots (insert (last frontier) seen) (butlast frontier) collected"
proof -
  have "{i \<in> insert (last frontier) seen. map_of by_id i \<noteq> None} = {i \<in> seen. map_of by_id i \<noteq> None}" using assms(4) by auto
  then show ?thesis using assms frontier_last [of frontier] unfolding walk_ok_def by auto
qed

lemma walk_known:
  assumes "walk_ok by_id roots seen frontier collected" "frontier \<noteq> []" "last frontier \<notin> seen" "map_of by_id (last frontier) = Some p"
  shows "walk_ok by_id roots (insert (last frontier) seen)
    (butlast frontier @ filter (\<lambda>prev. prev \<notin> insert (last frontier) seen) (map event_as_str (prev_events p))) (collected @ [p])"
    (is "walk_ok _ _ ?seen ?frontier _")
proof -
  note w = assms(1) [unfolded walk_ok_def]
  have all: "?seen \<union> set ?frontier = seen \<union> set frontier \<union> event_as_str ` set (prev_events p)"
    using frontier_last [OF assms(2)] by auto
  have "ancestor by_id roots (event_as_str e)" if "e \<in> set (prev_events p)" for e
    using w assms(2,4) that by (intro ancestor_prev [of by_id roots "last frontier"]) auto
  then have "\<forall>i\<in>?seen \<union> set ?frontier. ancestor by_id roots i" unfolding all using w by auto
  moreover have "set roots \<subseteq> ?seen \<union> set ?frontier" unfolding all using w by auto
  moreover have "\<forall>i\<in>?seen. \<forall>q. map_of by_id i = Some q \<longrightarrow> (\<forall>e\<in>set (prev_events q). event_as_str e \<in> ?seen \<union> set ?frontier)"
    unfolding all
  proof (intro ballI allI impI)
    fix i q e assume i: "i \<in> ?seen" "map_of by_id i = Some q" "e \<in> set (prev_events q)"
    show "event_as_str e \<in> seen \<union> set frontier \<union> event_as_str ` set (prev_events p)"
    proof (cases "i = last frontier")
      case True
      then show ?thesis using i assms(4) by simp
    next
      case False
      with i have "i \<in> seen" by simp
      with i w have "event_as_str e \<in> seen \<union> set frontier" by blast
      then show ?thesis by blast
    qed
  qed
  moreover have "{i \<in> ?seen. map_of by_id i \<noteq> None} = insert (last frontier) {i \<in> seen. map_of by_id i \<noteq> None}"
    using assms(4) by auto
  ultimately show ?thesis using w assms(3,4) by (auto simp: walk_ok_def)
qed

lemma backfill_loop_ok:
  assumes "walk_ok by_id roots seen frontier collected"
  shows "\<exists>seen'. walk_ok by_id roots seen' [] (backfill_loop by_id seen frontier collected)"
  using assms
proof (induction by_id seen frontier collected rule: backfill_loop.induct)
  case (1 by_id seen frontier collected)
  show ?case
  proof (cases "frontier = []")
    case True
    with "1.prems" show ?thesis by (auto simp: backfill_loop.simps)
  next
    case False
    note step = backfill_loop.simps [of by_id seen frontier collected]
    show ?thesis
    proof (cases "last frontier \<in> seen")
      case True
      with False show ?thesis using "1.IH"(1) [OF False refl refl True walk_seen [OF "1.prems" False True]] step by (simp add: Let_def)
    next
      case new: False
      show ?thesis
      proof (cases "map_of by_id (last frontier)")
        case None
        with False new show ?thesis
          using "1.IH"(2) [OF False refl refl new refl None walk_unknown [OF "1.prems" False new None]] step by (simp add: Let_def)
      next
        case (Some p)
        with False new show ?thesis
          using "1.IH"(3) [OF False refl refl new refl Some walk_known [OF "1.prems" False new Some]] step by (simp add: Let_def)
      qed
    qed
  qed
qed

lemma walk_closed: "walk_ok by_id roots seen [] collected \<Longrightarrow> ancestor by_id roots i \<Longrightarrow> i \<in> seen"
proof -
  assume w: "walk_ok by_id roots seen [] collected" and "ancestor by_id roots i"
  have "event_as_str e \<in> seen" if "i \<in> seen" "map_of by_id i = Some p" "e \<in> set (prev_events p)" for i p e
    using w that by (simp add: walk_ok_def)
  with \<open>ancestor by_id roots i\<close> show ?thesis
    by (induction rule: ancestor.induct) (use w in \<open>auto simp: walk_ok_def\<close>)
qed

lemma backfill_loop_ancestors:
  "set (backfill_loop by_id {} roots []) = {p. \<exists>i. ancestor by_id roots i \<and> map_of by_id i = Some p}"
proof -
  obtain seen where w: "walk_ok by_id roots seen [] (backfill_loop by_id {} roots [])"
    using backfill_loop_ok [OF walk_start] by blast
  then have "ancestor by_id roots i \<longleftrightarrow> i \<in> seen" for i using walk_closed [OF w] by (auto simp: walk_ok_def)
  with w show ?thesis by (auto simp: walk_ok_def)
qed

lemma deepest_mem: "deepest tls = Some p \<Longrightarrow> p \<in> set tls"
proof -
  have "fold (\<lambda>p best. case best of None \<Rightarrow> Some p | Some b \<Rightarrow> if depth p < depth b then Some b else Some p) tls best = Some p \<Longrightarrow>
      p \<in> set tls \<or> best = Some p" for best
    by (induction tls arbitrary: best) (auto split: option.splits if_splits)
  then show "deepest tls = Some p \<Longrightarrow> p \<in> set tls" unfolding deepest_def by blast
qed

definition timeline_by_id :: "pdu list \<Rightarrow> (string \<times> pdu) list" where
  "timeline_by_id tls = rev (map (\<lambda>p. (event_as_str (event_id p), p)) tls)"

lemma timeline_by_id_key: "map_of (timeline_by_id tls) i = Some p \<Longrightarrow> event_as_str (event_id p) = i"
  by (auto simp: timeline_by_id_def dest!: map_of_SomeD)

lemma walk_length:
  assumes "\<And>i p. map_of by_id i = Some p \<Longrightarrow> event_as_str (event_id p) = i"
  shows "length (backfill_loop by_id {} roots []) = card (set (backfill_loop by_id {} roots []))"
proof -
  obtain seen where w: "walk_ok by_id roots seen [] (backfill_loop by_id {} roots [])"
    using backfill_loop_ok [OF walk_start] by blast
  let ?S = "{i \<in> seen. map_of by_id i \<noteq> None}"
  have inj: "inj_on (\<lambda>i. the (map_of by_id i)) ?S" using assms by (intro inj_onI) (metis (mono_tags, lifting) mem_Collect_eq option.collapse)
  have img: "set (backfill_loop by_id {} roots []) = (\<lambda>i. the (map_of by_id i)) ` ?S"
    using w by (force simp: walk_ok_def image_iff)
  have "length (backfill_loop by_id {} roots []) = card ?S" using w by (simp add: walk_ok_def)
  also have "\<dots> = card (set (backfill_loop by_id {} roots []))" unfolding img by (rule card_image [OF inj, symmetric])
  finally show ?thesis .
qed

text \<open>Where the walk starts: at the known ids named, or at the deepest event when none is known.\<close>

definition backfill_start :: "pdu list \<Rightarrow> string list \<Rightarrow> string list" where
  "backfill_start tls from_ids =
     (let known = filter (\<lambda>i. map_of (timeline_by_id tls) i \<noteq> None) from_ids in
      if known = [] then (case deepest tls of Some p \<Rightarrow> [event_as_str (event_id p)] | None \<Rightarrow> []) else known)"

text \<open>C32: A backfill answers at most \<open>limit\<close> stored events of the room, deepest first, all of them ancestors of
  the start; and when the limit suffices, all of these.\<close>

theorem backfill_ancestors:
  assumes "tls = sv_timeline env sv room"
    and "A = {p. \<exists>i. ancestor (timeline_by_id tls) (backfill_start tls from_ids) i \<and> map_of (timeline_by_id tls) i = Some p}"
  shows "set (backfill env sv room from_ids limit) \<subseteq> A \<and> A \<subseteq> set tls \<and> length (backfill env sv room from_ids limit) \<le> limit \<and>
    sorted_wrt (\<lambda>p q. depth q \<le> depth p) (backfill env sv room from_ids limit) \<and>
    distinct (backfill env sv room from_ids limit) \<and> (card A \<le> limit \<longrightarrow> set (backfill env sv room from_ids limit) = A)"
proof -
  let ?walk = "backfill_loop (timeline_by_id tls) {} (backfill_start tls from_ids) []"
  have A: "set ?walk = A" unfolding assms(2) by (rule backfill_loop_ancestors)
  have b: "backfill env sv room from_ids limit = take limit (sort_key (\<lambda>p. - int (unat (depth p))) ?walk)"
    by (simp add: backfill_def backfill_start_def timeline_by_id_def Let_def assms(1) [symmetric])
  have "sorted_wrt (\<lambda>p q. depth q \<le> depth p) (sort_key (\<lambda>p. - int (unat (depth p))) ?walk)"
    using sorted_sort_key [of "\<lambda>p. - int (unat (depth p))" ?walk]
    by (simp add: sorted_map word_le_def)
  then have "sorted_wrt (\<lambda>p q. depth q \<le> depth p) (backfill env sv room from_ids limit)"
    unfolding b by (rule sorted_wrt_take)
  moreover have "set (backfill env sv room from_ids limit) \<subseteq> A"
    unfolding b using A set_take_subset by fastforce
  moreover have "A \<subseteq> set tls" unfolding assms(2) by (auto simp: timeline_by_id_def dest!: map_of_SomeD)
  moreover have "length ?walk = card A"
    using walk_length [of "timeline_by_id tls"] timeline_by_id_key A by blast
  moreover have "distinct ?walk" using \<open>length ?walk = card A\<close> A by (simp add: card_distinct)
  ultimately show ?thesis unfolding b using A by auto
qed

theorem backfill_ancestors_witness:
  "set (backfill sample_env sample_server (RoomId ''!r:x'') [''$b''] 10) \<subseteq>
     {p. \<exists>i. ancestor (timeline_by_id sample_founding) [''$b''] i \<and> map_of (timeline_by_id sample_founding) i = Some p} \<and>
   length (backfill sample_env sample_server (RoomId ''!r:x'') [''$b''] 10) \<le> 10"
proof -
  have "sv_timeline sample_env sample_server (RoomId ''!r:x'') = log_timeline ([] @ sample_founding) (RoomId ''!r:x'')"
    using shared.timeline_log [OF sample_server_facts(2) sample_room_facts(1,2)] by (simp add: sv_timeline_def sample_server_facts(1))
  also have "\<dots> = sample_founding" by (rule founding_timeline [OF sample_room_facts(3) sample_founding_block(1)])
  finally have t: "sample_founding = sv_timeline sample_env sample_server (RoomId ''!r:x'')" by simp
  have "backfill_start sample_founding [''$b''] = [''$b'']"
    by (simp add: backfill_start_def timeline_by_id_def sample_founding_def)
  then show ?thesis using backfill_ancestors [OF t refl, of "[''$b'']" 10] by simp
qed

subsection \<open>One-time keys\<close>

text \<open>The stored one-time keys of a device: key ids with their keys.\<close>

definition otk_store :: "('s, 'c) server_env \<Rightarrow> ('s, 'c) server \<Rightarrow> string \<Rightarrow> bytes option" where
  "otk_store env sv k = sv_get env sv cf_DEVICE_OTK k"

lemma as_bytes_chars_of_bytes [simp]: "as_bytes (chars_of_bytes bs) = bs"
proof (induction bs)
  case (Cons b bs)
  have "unat b mod 256 = unat b" using unsigned_less [of b, where ?'a = nat] by simp
  then have "(of_char (char_of (unat b)) :: u8) = b"
    by (metis of_char_of of_nat_of_char of_nat_unat ucast_id)
  with Cons show ?case by (simp add: as_bytes_def chars_of_bytes_def)
qed (simp add: as_bytes_def chars_of_bytes_def)

lemma claim_result:
  assumes "srv_ops env = shared_ops" "shared_inv (sv_store sv)" "claim_one_time_key env u d alg sv = (sv', r)"
  shows "shared_inv (sv_store sv') \<and>
    (case r of
       None \<Rightarrow> sv' = sv
     | Some (key_id, j) \<Rightarrow> otk_store env sv (device_prefix u d @ key_id) = Some (as_bytes j) \<and> starts_with key_id (alg @ '':'') \<and>
         (\<forall>k. otk_store env sv' k = (if k = device_prefix u d @ key_id then None else otk_store env sv k)))"
proof (cases r)
  case None
  with assms show ?thesis
    by (auto simp: claim_one_time_key_def Let_def split: option.splits prod.splits)
next
  case (Some kj)
  obtain key_id j where kj: "kj = (key_id, j)" by force
  with assms(3) Some obtain full v where
    f: "List.find (\<lambda>(k, _). starts_with k (device_prefix u d @ alg @ '':'')) (sv_scan env sv cf_DEVICE_OTK) = Some (full, v)"
      "strip_prefix (device_prefix u d) full = Some key_id" "from_utf8 v = Some j"
      "sv' = sv\<lparr>sv_store := fst (st_delete shared_ops cf_DEVICE_OTK full (sv_store sv))\<rparr>"
    by (auto simp: claim_one_time_key_def Let_def assms(1) split: option.splits prod.splits)
  have full: "full = device_prefix u d @ key_id" using f(2) by (simp add: strip_prefix_Some)
  have mem: "(full, v) \<in> set (st_scan shared_ops (sv_store sv) cf_DEVICE_OTK)" "starts_with full (device_prefix u d @ alg @ '':'')"
    using f(1) assms(1) by (auto simp: find_Some_iff sv_scan_def) (metis nth_mem)+
  then have "map_of (st_scan shared_ops (sv_store sv) cf_DEVICE_OTK) full = Some v"
    using shared.scan_sorted [OF assms(2)] by (auto simp: bt_ok_def strict_sorted_iff intro: map_of_is_SomeI)
  then have "otk_store env sv full = Some v" using assms(1,2) by (simp add: otk_store_def sv_get_def shared.get_scan)
  moreover have "starts_with key_id (alg @ '':'')" using mem(2) by (auto simp: full starts_with_def strip_prefix_Some)
  ultimately show ?thesis
    using Some kj full f(3,4) assms(1,2) by (auto simp: otk_store_def sv_get_def shared.delete_inv shared.get_delete from_utf8_def Let_def split: if_splits)
qed

text \<open>The keys that a list of claims hands out, by their place in the store.\<close>

fun claim_run :: "('s, 'c) server_env \<Rightarrow> (user_id \<times> string \<times> string) list \<Rightarrow> ('s, 'c) server \<Rightarrow> (string \<times> string) list" where
  "claim_run env [] sv = []"
| "claim_run env ((u, d, alg) # reqs) sv =
     (case claim_one_time_key env u d alg sv of
        (sv', None) \<Rightarrow> claim_run env reqs sv'
      | (sv', Some (key_id, j)) \<Rightarrow> (device_prefix u d @ key_id, j) # claim_run env reqs sv')"

text \<open>C25: One-time keys are handed out at most once, whoever claims them in whatever order, and only keys
  that were stored.\<close>

theorem one_time_keys_once:
  assumes "srv_ops env = shared_ops" "shared_inv (sv_store sv)"
  shows "distinct (map fst (claim_run env reqs sv)) \<and>
    (\<forall>(k, j)\<in>set (claim_run env reqs sv). otk_store env sv k = Some (as_bytes j))"
  using assms(2)
proof (induction reqs arbitrary: sv)
  case (Cons req reqs)
  obtain u d alg where req: "req = (u, d, alg)" by (cases req)
  obtain sv' r where c: "claim_one_time_key env u d alg sv = (sv', r)" by force
  note res = claim_result [OF assms(1) Cons.prems c]
  have IH: "distinct (map fst (claim_run env reqs sv'))"
    "\<And>k j. (k, j) \<in> set (claim_run env reqs sv') \<Longrightarrow> otk_store env sv' k = Some (as_bytes j)"
    using Cons.IH [of sv'] res by auto
  show ?case
  proof (cases r)
    case None
    with res IH c req show ?thesis by auto
  next
    case (Some kj)
    obtain key_id j where kj: "kj = (key_id, j)" by force
    have after: "otk_store env sv' k = (if k = device_prefix u d @ key_id then None else otk_store env sv k)" for k
      using res Some kj by simp
    have "otk_store env sv k = Some (as_bytes i) \<and> k \<noteq> device_prefix u d @ key_id" if "(k, i) \<in> set (claim_run env reqs sv')" for k i
      using IH(2) [OF that] by (auto simp: after split: if_splits)
    moreover have "otk_store env sv (device_prefix u d @ key_id) = Some (as_bytes j)" using res Some kj by simp
    ultimately show ?thesis using IH(1) c req Some kj by force
  qed
qed simp

theorem one_time_keys_once_witness:
  "distinct (map fst (claim_run sample_env [(UserId ''@a:x'', ''D'', ''k''), (UserId ''@a:x'', ''D'', ''k'')]
     (fst (store_one_time_keys sample_env (UserId ''@a:x'') ''D'' [(''k:1'', ''one''), (''k:2'', ''two'')] sample_server))))"
proof -
  let ?sv = "fst (store_one_time_keys sample_env (UserId ''@a:x'') ''D'' [(''k:1'', ''one''), (''k:2'', ''two'')] sample_server)"
  have "shared_inv (sv_store ?sv)"
    using sample_server_facts(1,3) by (simp add: store_one_time_keys_def Let_def shared.put_inv)
  then show ?thesis using one_time_keys_once [OF sample_server_facts(1)] by blast
qed

end
