(* ===== verification/ServerTrust.thy ===== *)
theory ServerTrust
  imports ServerViews
begin

section \<open>Which federation keys and requests are trusted\<close>

text \<open>
  What a key document changes in the key cache, how long a cached key is used, and which inbound
  requests the server accepts.
\<close>

text \<open>The fields of a document that \<open>ingest_key_document\<close> accepts at the time \<open>now\<close>.\<close>

definition key_document :: "json \<Rightarrow> string \<Rightarrow> u64 \<Rightarrow> (string, json) btree \<Rightarrow> (string, json) btree \<Rightarrow> bool" where
  "key_document doc nm valid_until verify_keys sigs \<longleftrightarrow>
     Option.bind (json_get doc ''server_name'') as_str = Some nm \<and>
     Option.bind (json_get doc ''valid_until_ts'') as_u64 = Some valid_until \<and>
     Option.bind (json_get doc ''verify_keys'') as_object = Some verify_keys \<and>
     Option.bind (Option.bind (json_get doc ''signatures'') (\<lambda>s. json_get s nm)) as_object = Some sigs"

definition self_signed :: "json \<Rightarrow> (string, json) btree \<Rightarrow> (string, json) btree \<Rightarrow> bool" where
  "self_signed doc verify_keys sigs \<longleftrightarrow>
     (\<exists>(key_id, s)\<in>set sigs. \<exists>sg pk. as_str s = Some sg \<and> advertised_key verify_keys key_id = Some pk \<and>
        verify_b64 (as_bytes (unsigned_document doc)) sg pk)"

lemma self_signed_iff: "list_ex (signature_valid (unsigned_document doc) verify_keys) sigs \<longleftrightarrow> self_signed doc verify_keys sigs"
  by (auto simp: self_signed_def list_ex_iff signature_valid_def split: option.splits intro!: bexI)

definition cache_all :: "('s, 'c) server_env \<Rightarrow> string \<Rightarrow> u64 \<Rightarrow> (string \<times> json) list \<Rightarrow> ('s, 'c) server \<Rightarrow> ('s, 'c) server" where
  "cache_all env nm valid_until = fold (\<lambda>(key_id, entry) sv. case Option.bind (json_get entry ''key'') as_str of
     Some pk \<Rightarrow> cache_server_key env nm key_id pk valid_until sv | None \<Rightarrow> sv)"

lemma ingest_cases:
  assumes "ingest_key_document env doc sv = (sv', b)" "now_ms env sv = (now, sv1)"
  shows "(\<not> b \<and> sv_store sv' = sv_store sv \<and>
      (\<forall>nm valid_until verify_keys sigs. key_document doc nm valid_until verify_keys sigs \<and> now < valid_until \<longrightarrow>
         \<not> self_signed doc verify_keys sigs)) \<or>
    (\<exists>nm valid_until verify_keys sigs. b \<and> key_document doc nm valid_until verify_keys sigs \<and> now < valid_until \<and>
       self_signed doc verify_keys sigs \<and> sv' = cache_all env nm valid_until verify_keys sv1)"
proof (cases "\<exists>nm valid_until verify_keys sigs. key_document doc nm valid_until verify_keys sigs \<and> now < valid_until \<and>
    self_signed doc verify_keys sigs")
  case True
  then obtain nm valid_until verify_keys sigs where
    k: "key_document doc nm valid_until verify_keys sigs" "now < valid_until" "self_signed doc verify_keys sigs" by blast
  have "list_ex (signature_valid (unsigned_document doc) verify_keys) sigs" "\<not> valid_until \<le> now"
    using k(2,3) by (simp_all add: self_signed_iff)
  with k(1) have "ingest_key_document env doc sv = (cache_all env nm valid_until verify_keys sv1, True)"
    unfolding ingest_key_document_def assms(2) key_document_def cache_all_def by (simp del: sv_store_now)
  with assms(1) have "b" "sv' = cache_all env nm valid_until verify_keys sv1" by simp_all
  with k show ?thesis by blast
next
  case False
  have s: "sv_store sv1 = sv_store sv" by (rule sv_store_now [OF assms(2)])
  have "ingest_key_document env doc sv \<in> {(sv, False), (sv1, False)}"
  proof (cases "\<exists>nm valid_until verify_keys sigs. key_document doc nm valid_until verify_keys sigs")
    case True
    then obtain nm valid_until verify_keys sigs where k: "key_document doc nm valid_until verify_keys sigs" by blast
    with False have "valid_until \<le> now \<or> \<not> list_ex (signature_valid (unsigned_document doc) verify_keys) sigs"
      by (auto simp: self_signed_iff not_less)
    with k show ?thesis
      unfolding ingest_key_document_def assms(2) key_document_def by (auto simp del: sv_store_now)
  next
    case none: False
    then show ?thesis
      unfolding ingest_key_document_def assms(2) key_document_def by (auto split: option.split simp del: sv_store_now)
  qed
  with False assms(1) s show ?thesis by auto
qed

lemma cache_entry_store: "sv_store sv' = sv_store sv \<Longrightarrow> cache_entry env sv' orig key_id = cache_entry env sv orig key_id"
  by (simp add: cache_entry_def sv_get_def)

lemma cache_server_key_entry:
  assumes "srv_ops env = shared_ops" "shared_inv (sv_store sv)" "SEP \<notin> set nm" "SEP \<notin> set orig" "SEP \<notin> set pk" "utf8_valid pk"
  shows "shared_inv (sv_store (cache_server_key env nm k pk until sv))"
    and "cache_entry env (cache_server_key env nm k pk until sv) orig key_id =
      (if orig = nm \<and> key_id = k then Some (pk, until) else cache_entry env sv orig key_id)"
proof -
  show "shared_inv (sv_store (cache_server_key env nm k pk until sv))"
    using assms(1,2) by (simp add: cache_server_key_def shared.put_inv)
  have "cache_key orig key_id = cache_key nm k \<longleftrightarrow> orig = nm \<and> key_id = k"
    using assms(3,4) by (simp add: cache_key_def) (metis split_once_append option.inject prod.inject)
  moreover have "parse_u64 (dec (unat until)) = Some until"
    using unsigned_less [of until, where ?'a = nat] by (simp add: parse_u64_def)
  moreover have "split_once SEP (pk @ SEP # dec (unat until)) = Some (pk, dec (unat until))"
    using assms(5) by (simp add: split_once_Some)
  moreover have "utf8_valid (pk @ SEP # dec (unat until))"
    using assms(6) by (simp add: utf8_valid_append utf8_valid_Cons_ascii ascii_utf8_valid SEP_def)
  then have "from_utf8 (as_bytes pk @ as_bytes (SEP # dec (unat until))) = Some (pk @ SEP # dec (unat until))"
    by (metis as_bytes_append from_utf8_as_bytes)
  ultimately show "cache_entry env (cache_server_key env nm k pk until sv) orig key_id =
      (if orig = nm \<and> key_id = k then Some (pk, until) else cache_entry env sv orig key_id)"
    using assms(1,2) by (simp add: cache_entry_def cache_server_key_def sv_get_def shared.get_put)
qed

lemma cache_all_entry:
  assumes "srv_ops env = shared_ops" "shared_inv (sv_store sv)" "SEP \<notin> set nm" "SEP \<notin> set orig" "distinct (map fst keys)"
    and "\<And>k e pk. (k, e) \<in> set keys \<Longrightarrow> Option.bind (json_get e ''key'') as_str = Some pk \<Longrightarrow> utf8_valid pk \<and> SEP \<notin> set pk"
  shows "cache_entry env (cache_all env nm until keys sv) orig key_id =
      (case (if orig = nm then advertised_key keys key_id else None) of Some pk \<Rightarrow> Some (pk, until)
       | None \<Rightarrow> cache_entry env sv orig key_id)"
  using assms(2,5,6)
proof (induction keys arbitrary: sv)
  case Nil
  show ?case by (simp add: cache_all_def advertised_key_def)
next
  case (Cons ke keys)
  obtain k e where ke: "ke = (k, e)" by force
  have other: "advertised_key keys k = None" using Cons.prems(2) ke map_of_eq_None_iff [of keys k] by (simp add: advertised_key_def)
  have IH: "cache_entry env (cache_all env nm until keys sv1) orig key_id =
      (case (if orig = nm then advertised_key keys key_id else None) of Some pk \<Rightarrow> Some (pk, until)
       | None \<Rightarrow> cache_entry env sv1 orig key_id)" if "shared_inv (sv_store sv1)" for sv1
    using Cons.prems(2) Cons.prems(3) by (intro Cons.IH [OF that]) (simp, metis list.set_intros(2))
  show ?case
  proof (cases "Option.bind (json_get e ''key'') as_str")
    case None
    then show ?thesis
      using IH [OF Cons.prems(1)] ke other by (auto simp: cache_all_def advertised_key_def split: option.splits)
  next
    case (Some pk)
    then have pk: "utf8_valid pk" "SEP \<notin> set pk" using Cons.prems(3) [of k e pk] ke by auto
    note c = cache_server_key_entry [OF assms(1) Cons.prems(1) assms(3,4) pk(2,1), of k until]
    show ?thesis
      using IH [OF c(1)] Some ke other c(2) by (auto simp: cache_all_def advertised_key_def split: option.splits)
  qed
qed

lemma document_keys_ok:
  assumes "json_ok n doc" "key_document doc nm valid_until verify_keys sigs"
  shows "distinct (map fst verify_keys)"
    and "(k, e) \<in> set verify_keys \<Longrightarrow> Option.bind (json_get e ''key'') as_str = Some pk \<Longrightarrow>
      utf8_valid pk \<and> advertised_key verify_keys k = Some pk"
proof -
  obtain m where m: "doc = JObject m" "map_of m ''verify_keys'' = Some (JObject verify_keys)"
    using assms(2) by (auto simp: key_document_def json_get_def bind_eq_Some_conv elim!: as_object.elims split: option.splits)
  then have "(''verify_keys'', JObject verify_keys) \<in> set m" by (auto dest: map_of_SomeD)
  moreover have "\<forall>(k, v)\<in>set m. json_ok (n - 1) v" using assms(1) m(1) by auto
  ultimately have j: "json_ok (n - 1) (JObject verify_keys)" by fast
  then show d: "distinct (map fst verify_keys)" by (auto simp: bt_ok_def strict_sorted_iff)
  assume ke: "(k, e) \<in> set verify_keys" "Option.bind (json_get e ''key'') as_str = Some pk"
  then obtain me where me: "e = JObject me" "map_of me ''key'' = Some (JString pk)"
    by (auto simp: json_get_def bind_eq_Some_conv elim!: as_object.elims as_str.elims split: option.splits)
  have "json_ok (n - 1 - 1) e" using j ke(1) by auto
  then have "utf8_valid pk" using me by (auto dest!: map_of_SomeD)
  moreover have "map_of verify_keys k = Some e" using d ke(1) by simp
  ultimately show "utf8_valid pk \<and> advertised_key verify_keys k = Some pk" using ke(2) by (simp add: advertised_key_def)
qed

text \<open>What the cache itself holds afterwards, whatever characters the names have.\<close>

definition cached_text :: "string \<Rightarrow> u64 \<Rightarrow> bytes" where
  "cached_text pk valid_until = as_bytes (pk @ [SEP] @ dec (unat valid_until))"

lemma cache_server_key_raw:
  assumes "srv_ops env = shared_ops" "shared_inv (sv_store sv)"
  shows "shared_inv (sv_store (cache_server_key env nm k pk until sv))"
    and "sv_get env (cache_server_key env nm k pk until sv) cf_KEY_CACHE ck =
      (if ck = cache_key nm k then Some (cached_text pk until) else sv_get env sv cf_KEY_CACHE ck)"
  using assms by (simp_all add: cache_server_key_def sv_get_def cached_text_def shared.put_inv shared.get_put)

lemma strip_cache_key: "strip_prefix (cache_key nm []) ck = Some k \<longleftrightarrow> ck = cache_key nm k"
  by (simp add: strip_prefix_Some cache_key_def)

lemma cache_key_server [simp]:
  "strip_prefix (cache_key nm []) (cache_key nm k) = Some k" "cache_key nm k = cache_key nm k' \<longleftrightarrow> k = k'"
  by (simp_all add: strip_cache_key) (simp add: cache_key_def)

lemma cache_all_raw:
  assumes "srv_ops env = shared_ops" "shared_inv (sv_store sv)" "distinct (map fst keys)"
  shows "sv_get env (cache_all env nm until keys sv) cf_KEY_CACHE ck =
      (case Option.bind (strip_prefix (cache_key nm []) ck) (advertised_key keys) of
         Some pk \<Rightarrow> Some (cached_text pk until) | None \<Rightarrow> sv_get env sv cf_KEY_CACHE ck)"
  using assms(2,3)
proof (induction keys arbitrary: sv)
  case Nil
  show ?case by (simp add: cache_all_def advertised_key_def split: option.split Option.bind_split)
next
  case (Cons ke keys)
  obtain k e where ke: "ke = (k, e)" by force
  have other: "advertised_key keys k = None" using Cons.prems(2) ke map_of_eq_None_iff [of keys k] by (simp add: advertised_key_def)
  have same: "advertised_key (ke # keys) k' = (if k' = k then Option.bind (json_get e ''key'') as_str else advertised_key keys k')" for k'
    by (simp add: advertised_key_def ke)
  have d: "distinct (map fst keys)" using Cons.prems(2) by simp
  show ?case
  proof (cases "Option.bind (json_get e ''key'') as_str")
    case None
    then have "Option.bind s (advertised_key (ke # keys)) = Option.bind s (advertised_key keys)" for s
      using same other by (cases s) auto
    then show ?thesis using Cons.IH [OF Cons.prems(1) d] None ke by (simp add: cache_all_def)
  next
    case (Some pk)
    note c = cache_server_key_raw [OF assms(1) Cons.prems(1), of nm k pk until]
    have "cache_all env nm until (ke # keys) sv = cache_all env nm until keys (cache_server_key env nm k pk until sv)"
      using Some ke by (simp add: cache_all_def)
    then show ?thesis
      using Cons.IH [OF c(1) d] c(2) same other Some
      by (cases "strip_prefix (cache_key nm []) ck") (auto simp: strip_cache_key split: option.split)
  qed
qed

text \<open>C33: A key document is taken over exactly if it is not expired and signed by a key it advertises; then
  each of its keys is written, with the document's expiry, under the cache key made of the server it
  names and the key's id, and no other entry of the cache changes; if it is not, none does.  If the
  names and keys hold no unit separator, this is: each key is cached for that very server until then,
  and the cached keys of every other server stay as they are.\<close>

theorem key_document_cached:
  assumes "srv_ops env = shared_ops" "shared_inv (sv_store sv)" "json_ok n doc"
    and "key_document doc nm valid_until verify_keys sigs"
    and "now_ms env sv = (now, sv1)" "ingest_key_document env doc sv = (sv', b)"
  shows "(b \<longleftrightarrow> now < valid_until \<and> self_signed doc verify_keys sigs) \<and>
    (\<forall>ck. sv_get env sv' cf_KEY_CACHE ck =
      (case (if b then Option.bind (strip_prefix (cache_key nm []) ck) (advertised_key verify_keys) else None) of
         Some pk \<Rightarrow> Some (cached_text pk valid_until)
       | None \<Rightarrow> sv_get env sv cf_KEY_CACHE ck)) \<and>
    (SEP \<notin> set nm \<and> (\<forall>k pk. advertised_key verify_keys k = Some pk \<longrightarrow> SEP \<notin> set pk) \<longrightarrow>
      (\<forall>orig key_id. SEP \<notin> set orig \<longrightarrow> cache_entry env sv' orig key_id =
        (case (if b \<and> orig = nm then advertised_key verify_keys key_id else None) of
           Some pk \<Rightarrow> Some (pk, valid_until)
         | None \<Rightarrow> cache_entry env sv orig key_id)))"
proof -
  have s: "sv_store sv1 = sv_store sv" by (rule sv_store_now [OF assms(5)])
  have same: "nm' = nm \<and> v' = valid_until \<and> vk' = verify_keys \<and> sg' = sigs" if "key_document doc nm' v' vk' sg'" for nm' v' vk' sg'
    using that assms(4) by (simp add: key_document_def)
  show ?thesis
  proof (cases b)
    case True
    with ingest_cases [OF assms(6,5)] same have ok: "now < valid_until \<and> self_signed doc verify_keys sigs"
      "sv' = cache_all env nm valid_until verify_keys sv1" by blast+
    have inv: "shared_inv (sv_store sv1)" using s assms(2) by simp
    have raw: "sv_get env sv1 cf_KEY_CACHE ck = sv_get env sv cf_KEY_CACHE ck" for ck by (simp add: sv_get_def s)
    have entries: "cache_entry env sv' orig key_id =
      (case (if orig = nm then advertised_key verify_keys key_id else None) of Some pk \<Rightarrow> Some (pk, valid_until)
       | None \<Rightarrow> cache_entry env sv1 orig key_id)"
      if "SEP \<notin> set nm" "\<forall>k pk. advertised_key verify_keys k = Some pk \<longrightarrow> SEP \<notin> set pk" "SEP \<notin> set orig" for orig key_id
      unfolding ok(2) using document_keys_ok [OF assms(3,4)] that(2)
      by (intro cache_all_entry [OF assms(1) inv that(1,3)]) (simp, blast)
    show ?thesis
    proof (intro conjI allI impI)
      show "b \<longleftrightarrow> now < valid_until \<and> self_signed doc verify_keys sigs" using True ok(1) by simp
      fix ck show "sv_get env sv' cf_KEY_CACHE ck =
        (case (if b then Option.bind (strip_prefix (cache_key nm []) ck) (advertised_key verify_keys) else None) of
           Some pk \<Rightarrow> Some (cached_text pk valid_until) | None \<Rightarrow> sv_get env sv cf_KEY_CACHE ck)"
        using cache_all_raw [OF assms(1) inv document_keys_ok(1) [OF assms(3,4)]] True ok(2) by (auto simp: raw split: option.split)
    next
      fix orig key_id
      assume "SEP \<notin> set nm \<and> (\<forall>k pk. advertised_key verify_keys k = Some pk \<longrightarrow> SEP \<notin> set pk)" "SEP \<notin> set orig"
      with entries [of orig key_id] True cache_entry_store [OF s, of env orig key_id]
      show "cache_entry env sv' orig key_id = (case (if b \<and> orig = nm then advertised_key verify_keys key_id else None) of
           Some pk \<Rightarrow> Some (pk, valid_until) | None \<Rightarrow> cache_entry env sv orig key_id)"
        by (auto split: option.splits)
    qed
  next
    case False
    with ingest_cases [OF assms(6,5)] assms(4) have "\<not> (now < valid_until \<and> self_signed doc verify_keys sigs)"
      "sv_store sv' = sv_store sv" by blast+
    with False cache_entry_store [of sv' sv env] show ?thesis by (simp add: sv_get_def)
  qed
qed

text \<open>The condition on the separator is needed: a document that names the server \<open>good SEP x\<close> writes a key
  that a request of the server \<open>good\<close> with the key id \<open>x SEP k\<close> is checked with.\<close>

lemma key_cache_confusion:
  assumes "srv_ops env = shared_ops" "shared_inv (sv_store sv)" "SEP \<notin> set pk" "utf8_valid pk"
  shows "cache_entry env (cache_server_key env (good @ SEP # x) k pk until sv) good (x @ SEP # k) = Some (pk, until)"
proof -
  have "parse_u64 (dec (unat until)) = Some until"
    using unsigned_less [of until, where ?'a = nat] by (simp add: parse_u64_def)
  moreover have "utf8_valid (pk @ [SEP] @ dec (unat until))"
    using assms(4) by (simp add: utf8_valid_append utf8_valid_Cons_ascii ascii_utf8_valid SEP_def)
  then have "from_utf8 (cached_text pk until) = Some (pk @ SEP # dec (unat until))" by (simp add: cached_text_def del: as_bytes_append)
  moreover have "split_once SEP (pk @ SEP # dec (unat until)) = Some (pk, dec (unat until))" using assms(3) by simp
  moreover have "cache_key good (x @ SEP # k) = cache_key (good @ SEP # x) k" by (simp add: cache_key_def)
  ultimately show ?thesis
    using cache_server_key_raw(2) [OF assms(1,2), of "good @ SEP # x" k pk until "cache_key (good @ SEP # x) k"]
    by (simp add: cache_entry_def)
qed

text \<open>The key a request of an origin is checked with: the cached one until it expires, else the provisioned one.\<close>

definition trusted_key :: "('s, 'c) server_env \<Rightarrow> ('s, 'c) server \<Rightarrow> u64 \<Rightarrow> string \<Rightarrow> string \<Rightarrow> string option" where
  "trusted_key env sv now orig key_id =
     (case cache_entry env sv orig key_id of
        Some (pk, valid_until) \<Rightarrow> if now < valid_until then Some pk else federation_key env sv orig
      | None \<Rightarrow> federation_key env sv orig)"

lemma verify_request_iff:
  assumes "now_ms env sv = (now, sv1)" "verify_federation_request env m uri content header sv = (sv', b)"
  shows "sv_store sv' = sv_store sv \<and>
    (b \<longleftrightarrow> (\<exists>h auth k. header = Some h \<and> xmatrix_parse h = Some auth \<and> xm_destination auth \<in> {None, Some (srv_name env)} \<and>
       trusted_key env sv now (xm_origin auth) (xm_key_id auth) = Some k \<and>
       fed_verify (signing_bytes m uri (xm_origin auth) (srv_name env) content) (xm_signature auth) k))"
proof (cases "Option.bind header xmatrix_parse")
  case None
  with assms(2) show ?thesis by (auto simp: verify_federation_request_def bind_eq_None_conv)
next
  case (Some auth)
  then obtain h where h: "header = Some h" "xmatrix_parse h = Some auth" by (auto simp: bind_eq_Some_conv)
  obtain sv2 cached where c: "cached_key env (xm_origin auth) (xm_key_id auth) sv = (sv2, cached)" by force
  then have s: "sv_store sv2 = sv_store sv" by (rule cached_key_store)
  then have f: "federation_key env sv2 orig = federation_key env sv orig" for orig by (simp add: federation_key_def sv_get_def)
  have "(case cached of Some k \<Rightarrow> Some k | None \<Rightarrow> federation_key env sv2 (xm_origin auth)) =
      trusted_key env sv now (xm_origin auth) (xm_key_id auth)"
  proof (cases "cache_entry env sv (xm_origin auth) (xm_key_id auth)")
    case None
    with c have "cached = None" by (simp add: cached_key_def)
    with None show ?thesis by (simp add: trusted_key_def f)
  next
    case (Some e)
    obtain pk until where "e = (pk, until)" by force
    with c Some assms(1) have "cached = (if now < until then Some pk else None)" by (simp add: cached_key_def)
    with Some \<open>e = (pk, until)\<close> show ?thesis by (simp add: trusted_key_def f)
  qed
  then have "verify_federation_request env m uri content header sv =
      (if xm_destination auth \<in> {None, Some (srv_name env)}
       then (sv2, case trusted_key env sv now (xm_origin auth) (xm_key_id auth) of
           Some k \<Rightarrow> fed_verify (signing_bytes m uri (xm_origin auth) (srv_name env) content) (xm_signature auth) k
         | None \<Rightarrow> False)
       else (sv, False))"
    unfolding verify_federation_request_def Some by (auto simp: c split: option.split)
  with assms(2) h s show ?thesis by (auto split: option.splits if_splits)
qed

text \<open>C24: An inbound request is accepted exactly if its header parses, it is not addressed to another server, and
  its signature over the request and this server's name verifies under a key of the origin that is
  trusted at the time; the check writes nothing.\<close>

theorem federation_request_accepted:
  "sv_store (fst (verify_federation_request env m uri content header sv)) = sv_store sv \<and>
   (snd (verify_federation_request env m uri content header sv) \<longleftrightarrow>
     (\<exists>h auth k. header = Some h \<and> xmatrix_parse h = Some auth \<and> xm_destination auth \<in> {None, Some (srv_name env)} \<and>
       trusted_key env sv (fst (now_ms env sv)) (xm_origin auth) (xm_key_id auth) = Some k \<and>
       fed_verify (signing_bytes m uri (xm_origin auth) (srv_name env) content) (xm_signature auth) k))"
  using verify_request_iff [OF prod.collapse [symmetric] prod.collapse [symmetric]] by simp

definition sample_document :: json where
  "sample_document = JObject
     [(''server_name'', JString ''b''), (''signatures'', JObject [(''b'', JObject [])]),
      (''valid_until_ts'', JNumber (Finite 100)), (''verify_keys'', JObject [(''k:1'', JObject [(''key'', JString ''pk'')])])]"

lemma u64_bound: "f64_of_nat 18446744073709551615 = Finite 18446744073709551616"
  by (simp add: f64_of_nat_def f64_of_ratio_def ratio_log2_def ilog2.simps div_half_even_def)

lemma sample_document_facts:
  "json_ok 3 sample_document"
  "key_document sample_document ''b'' 100 [(''k:1'', JObject [(''key'', JString ''pk'')])] []"
  "\<not> self_signed sample_document [(''k:1'', JObject [(''key'', JString ''pk'')])] []"
  using representable_int [of 100]
  by (simp_all add: sample_document_def bt_ok_def ascii_utf8_valid f64_ok_def key_document_def json_get_def self_signed_def
      f64_fract_zero_def f64_cast_def u64_bound)

theorem key_document_cached_witness:
  "\<not> snd (ingest_key_document sample_env sample_document sample_server) \<and>
   cache_entry sample_env (fst (ingest_key_document sample_env sample_document sample_server)) ''b'' ''k:1'' =
     cache_entry sample_env sample_server ''b'' ''k:1''"
proof -
  have "SEP \<notin> set pk" if "advertised_key [(''k:1'', JObject [(''key'', JString ''pk'')])] k = Some pk" for k pk
    using that by (auto simp: SEP_def advertised_key_def json_get_def split: if_splits)
  moreover have "SEP \<notin> set ''b''" by (simp add: SEP_def)
  ultimately show ?thesis
    using key_document_cached [OF sample_server_facts(1,3) sample_document_facts(1,2) prod.collapse [symmetric]
        prod.collapse [symmetric]] sample_document_facts(3)
    by auto
qed

end
