(* ===== verification/Shard.thy ===== *)
theory Shard
  imports AuditLog Ids
begin

section \<open>Room placement (gm-shard)\<close>

text \<open>
  The consistent-hash ring: an ordered map from ring points to shard names, with the set of shards.
  The standard library's hasher is the parameter \<open>sip\<close>.  The lemmas say who can own a room after a
  shard is added or drained, whatever the hash values are.
\<close>

definition shard_hash :: "(bytes \<Rightarrow> u64) \<Rightarrow> string \<Rightarrow> u64" where
  "shard_hash sip s = sip (feed_str s)"

text \<open>A \<open>BTreeSet\<close> is an ordered map to unit.\<close>

record placement =
  ring :: "(u64, string) btree"
  shards :: "(string, unit) btree"
  vnodes :: u32

definition DEFAULT_VNODES :: u32 where
  "DEFAULT_VNODES = 128"

definition placement_new :: "u32 \<Rightarrow> placement" where
  "placement_new n = \<lparr>ring = [], shards = [], vnodes = max n 1\<rparr>"

definition vnode_name :: "string \<Rightarrow> nat \<Rightarrow> string" where
  "vnode_name shard vnode = shard @ ''#'' @ dec vnode"

definition add_shard :: "(bytes \<Rightarrow> u64) \<Rightarrow> string \<Rightarrow> placement \<Rightarrow> placement" where
  "add_shard sip shard p =
     (if map_of (shards p) shard \<noteq> None then p
      else p\<lparr>shards := bt_insert shard () (shards p),
             ring := fold (\<lambda>vnode. bt_insert (shard_hash sip (vnode_name shard vnode)) shard) [0..<unat (vnodes p)] (ring p)\<rparr>)"

definition remove_shard :: "string \<Rightarrow> placement \<Rightarrow> placement" where
  "remove_shard shard p =
     (if map_of (shards p) shard = None then p
      else p\<lparr>shards := bt_remove shard (shards p), ring := filter (\<lambda>(_, owner). owner \<noteq> shard) (ring p)\<rparr>)"

definition shard_names :: "placement \<Rightarrow> string list" where
  "shard_names p = map fst (shards p)"

definition shard_count :: "placement \<Rightarrow> nat" where
  "shard_count p = length (shards p)"

text \<open>\<open>range(point..).next()\<close>, or the first node of the ring.\<close>

definition ring_owner :: "(u64, string) btree \<Rightarrow> u64 \<Rightarrow> string option" where
  "ring_owner m point =
     (case List.find (\<lambda>(k, _). point \<le> k) m of
        Some (_, owner) \<Rightarrow> Some owner
      | None \<Rightarrow> (case m of [] \<Rightarrow> None | (_, owner) # _ \<Rightarrow> Some owner))"

definition shard_for :: "(bytes \<Rightarrow> u64) \<Rightarrow> placement \<Rightarrow> room_id \<Rightarrow> string option" where
  "shard_for sip p room =
     (if ring p = [] then None else ring_owner (ring p) (shard_hash sip (room_as_str room)))"

subsection \<open>Changes to the ring\<close>

lemma find_bt_insert:
  fixes q k :: "'k::linorder"
  shows "List.find (\<lambda>(k, _). q \<le> k) (bt_insert k v m) \<in> {Some (k, v), List.find (\<lambda>(k, _). q \<le> k) m} \<and>
   (List.find (\<lambda>(k, _). q \<le> k) (bt_insert k v m) = None \<longrightarrow> List.find (\<lambda>(k, _). q \<le> k) m = None)"
proof (induction m)
  case (Cons p m)
  obtain a b where p: "p = (a, b)" by (cases p)
  show ?case
  proof (cases k a rule: linorder_cases)
    case less
    then show ?thesis using p by auto
  next
    case equal
    then show ?thesis using p by auto
  next
    case greater
    then show ?thesis using p Cons.IH by auto
  qed
qed simp

lemma ring_owner_alt:
  "ring_owner m q =
     (case List.find (\<lambda>(k, _). q \<le> k) m of
        Some p \<Rightarrow> Some (snd p) | None \<Rightarrow> (if m = [] then None else Some (snd (hd m))))"
  by (cases m) (auto simp: ring_owner_def split: option.split)

lemma bt_insert_ne: "bt_insert k v m \<noteq> []"
  by (cases m) (auto split: if_splits)

lemma hd_bt_insert: "m \<noteq> [] \<Longrightarrow> hd (bt_insert k v m) \<in> {(k, v), hd m}"
  by (cases m) (auto split: if_splits)

lemma ring_owner_insert: "ring_owner (bt_insert k v m) q \<in> {ring_owner m q, Some v}"
proof (cases "List.find (\<lambda>(k, _). q \<le> k) (bt_insert k v m)")
  case None
  then have n: "List.find (\<lambda>(k, _). q \<le> k) m = None" using find_bt_insert [of q k v m] by blast
  show ?thesis
  proof (cases "m = []")
    case False
    then show ?thesis using None n hd_bt_insert [OF False, of k v] by (auto simp: ring_owner_alt bt_insert_ne)
  qed (simp add: ring_owner_def)
next
  case (Some p)
  then have "p = (k, v) \<or> List.find (\<lambda>(k, _). q \<le> k) m = Some p" using find_bt_insert [of q k v m] by auto
  with Some show ?thesis by (auto simp: ring_owner_alt)
qed

lemma ring_owner_inserts:
  "ring_owner (fold (\<lambda>i. bt_insert (f i) v) is m) q \<in> {ring_owner m q, Some v}"
proof (induction "is" arbitrary: m)
  case (Cons i "is")
  have "ring_owner (fold (\<lambda>i. bt_insert (f i) v) is (bt_insert (f i) v m)) q \<in> {ring_owner (bt_insert (f i) v m) q, Some v}"
    by (rule Cons.IH)
  moreover have "ring_owner (bt_insert (f i) v m) q \<in> {ring_owner m q, Some v}" by (rule ring_owner_insert)
  ultimately show ?case unfolding fold_simps by (elim insertE) simp_all
qed simp

lemma find_filter: "List.find P xs = Some x \<Longrightarrow> Q x \<Longrightarrow> List.find P (filter Q xs) = Some x"
  by (induction xs) (auto split: if_splits)

lemma ring_owner_filter:
  assumes "ring_owner m q \<noteq> Some v"
  shows "ring_owner (filter (\<lambda>(_, w). w \<noteq> v) m) q = ring_owner m q"
proof (cases "List.find (\<lambda>(k, _). q \<le> k) m")
  case None
  then have "List.find (\<lambda>(k, _). q \<le> k) (filter (\<lambda>(_, w). w \<noteq> v) m) = None"
    by (auto simp: find_None_iff)
  with None assms show ?thesis by (cases m) (auto simp: ring_owner_def)
next
  case (Some p)
  with assms have "(\<lambda>(_, w). w \<noteq> v) p" by (auto simp: ring_owner_def)
  with Some have "List.find (\<lambda>(k, _). q \<le> k) (filter (\<lambda>(_, w). w \<noteq> v) m) = Some p" by (rule find_filter)
  with Some show ?thesis by (simp add: ring_owner_def)
qed

subsection \<open>Reachable placements\<close>

inductive placed :: "(bytes \<Rightarrow> u64) \<Rightarrow> placement \<Rightarrow> bool" for sip where
  placed_new: "placed sip (placement_new n)"
| placed_add: "placed sip p \<Longrightarrow> placed sip (add_shard sip x p)"
| placed_remove: "placed sip p \<Longrightarrow> placed sip (remove_shard x p)"

lemma fold_insert_owners:
  "snd ` set (fold (\<lambda>i. bt_insert (f i) v) is m) \<subseteq> insert v (snd ` set m) \<and>
   (bt_ok m \<longrightarrow> bt_ok (fold (\<lambda>i. bt_insert (f i) v) is m))"
proof (induction "is" arbitrary: m)
  case (Cons i "is")
  have "snd ` set (bt_insert (f i) v m) \<subseteq> insert v (snd ` set m)"
    by (auto dest: set_bt_insert)
  moreover have "bt_ok m \<longrightarrow> bt_ok (bt_insert (f i) v m)" by simp
  ultimately show ?case using Cons.IH [of "bt_insert (f i) v m"] unfolding fold_simps by blast
qed auto

lemma placed_inv: "placed sip p \<Longrightarrow> bt_ok (ring p) \<and> bt_ok (shards p) \<and> set (map snd (ring p)) \<subseteq> fst ` set (shards p) \<and> 1 \<le> vnodes p"
proof (induction rule: placed.induct)
  case (placed_new n)
  then show ?case by (simp add: placement_new_def)
next
  case (placed_add p x)
  then show ?case
    using fold_insert_owners [of "\<lambda>vnode. shard_hash sip (vnode_name x vnode)" x "[0..<unat (vnodes p)]" "ring p"]
    by (auto simp: add_shard_def)
next
  case (placed_remove p x)
  have "bt_ok (filter Q m)" if "bt_ok m" for Q and m :: "(u64, string) btree"
    using that by (simp add: bt_ok_def sorted_wrt_map sorted_wrt_filter)
  with placed_remove show ?case by (auto simp: remove_shard_def)
qed

lemma ring_owner_mem: "ring_owner m q = Some v \<Longrightarrow> v \<in> set (map snd m)"
proof -
  assume r: "ring_owner m q = Some v"
  show ?thesis
  proof (cases "List.find (\<lambda>(k, _). q \<le> k) m")
    case None
    with r show ?thesis by (cases m) (auto simp: ring_owner_def)
  next
    case (Some p)
    then have "p \<in> set m" by (metis find_Some_iff nth_mem)
    moreover have "v = snd p" using r Some by (simp add: ring_owner_alt)
    ultimately show ?thesis by simp
  qed
qed

text \<open>Placement changes move as few rooms as they must: after a shard joins, a room keeps its owner or moves
  to the new shard; after a shard is drained, every room it did not own stays; and at every time an
  owner is a shard of the ring.\<close>

theorem shard_minimal_disruption:
  assumes "placed sip p"
  shows "shard_for sip (add_shard sip x p) room \<in> {shard_for sip p room, Some x} \<and>
    (shard_for sip p room \<noteq> Some x \<longrightarrow> shard_for sip (remove_shard x p) room = shard_for sip p room) \<and>
    (\<forall>y. shard_for sip p room = Some y \<longrightarrow> y \<in> set (shard_names p)) \<and>
    shard_for sip (remove_shard x p) room \<noteq> Some x"
proof -
  have owner: "shard_for sip q room = ring_owner (ring q) (shard_hash sip (room_as_str room))" for q
    by (simp add: shard_for_def ring_owner_def)
  have inv: "set (map snd (ring p)) \<subseteq> fst ` set (shards p)" using placed_inv [OF assms] by blast
  have "shard_for sip (add_shard sip x p) room \<in> {shard_for sip p room, Some x}"
    unfolding owner using ring_owner_inserts [of "\<lambda>vnode. shard_hash sip (vnode_name x vnode)" x]
    by (simp add: add_shard_def)
  moreover have "shard_for sip (remove_shard x p) room = shard_for sip p room" if "shard_for sip p room \<noteq> Some x"
    using that unfolding owner by (simp add: remove_shard_def ring_owner_filter)
  moreover have "y \<in> set (shard_names p)" if "shard_for sip p room = Some y" for y
    using ring_owner_mem [OF that [unfolded owner]] inv by (auto simp: shard_names_def)
  moreover have "shard_for sip (remove_shard x p) room \<noteq> Some x"
  proof
    assume "shard_for sip (remove_shard x p) room = Some x"
    then have "x \<in> set (map snd (ring (remove_shard x p)))" unfolding owner by (rule ring_owner_mem)
    then show False using inv by (auto simp: remove_shard_def map_of_eq_None_iff split: if_splits)
  qed
  ultimately show ?thesis by blast
qed

theorem shard_minimal_disruption_witness:
  "shard_for (\<lambda>b. word_of_nat (length b)) (remove_shard ''b'' (add_shard (\<lambda>b. word_of_nat (length b)) ''b'' (placement_new 2)))
     (RoomId ''!r:x'') \<noteq> Some ''b''"
  using shard_minimal_disruption [OF placed_add [OF placed_new]] by blast

end
