(* ===== verification/Http.thy ===== *)
theory Http
  imports Utf8
begin

section \<open>The HTTP surface: endpoints, access tokens and routing (gm-http, lib.rs, auth.rs, router.rs)\<close>

text \<open>
  What the server serves (the table \<open>SURFACE\<close>), where a request carries its access token, and how
  a request target is resolved to an endpoint with the parameters of its path.  Targets are UTF-8
  byte strings; they are split at ASCII characters only.
\<close>

subsection \<open>The surface\<close>

definition SUPPORTED_SPEC_VERSIONS :: "string list" where
  "SUPPORTED_SPEC_VERSIONS = [''v1.11'']"

datatype http_method = Get | Post | Put | Delete

datatype api = ClientServer | ServerServer | AppserviceApi

datatype auth_scheme = NoAuth | AccessToken | FederationAuth | AppserviceAuth

record endpoint =
  ep_api :: api
  ep_method :: http_method
  ep_path :: string
  ep_auth :: auth_scheme

definition ep_cs :: "http_method \<Rightarrow> string \<Rightarrow> endpoint" where
  "ep_cs m path = \<lparr>ep_api = ClientServer, ep_method = m, ep_path = path, ep_auth = AccessToken\<rparr>"

definition ep_cs_public :: "http_method \<Rightarrow> string \<Rightarrow> endpoint" where
  "ep_cs_public m path = \<lparr>ep_api = ClientServer, ep_method = m, ep_path = path, ep_auth = NoAuth\<rparr>"

definition ep_ss :: "http_method \<Rightarrow> string \<Rightarrow> endpoint" where
  "ep_ss m path = \<lparr>ep_api = ServerServer, ep_method = m, ep_path = path, ep_auth = FederationAuth\<rparr>"

definition ep_ss_public :: "http_method \<Rightarrow> string \<Rightarrow> endpoint" where
  "ep_ss_public m path = \<lparr>ep_api = ServerServer, ep_method = m, ep_path = path, ep_auth = NoAuth\<rparr>"

definition ep_as :: "http_method \<Rightarrow> string \<Rightarrow> endpoint" where
  "ep_as m path = \<lparr>ep_api = AppserviceApi, ep_method = m, ep_path = path, ep_auth = AppserviceAuth\<rparr>"

definition SURFACE :: "endpoint list" where
  "SURFACE =
    [ep_cs_public Get ''/_matrix/client/versions'',
     ep_cs_public Get ''/_matrix/client/v3/login'',
     ep_cs_public Post ''/_matrix/client/v3/login'',
     ep_cs Get ''/_matrix/client/v3/account/whoami'',
     ep_cs Post ''/_matrix/client/v3/createRoom'',
     ep_cs Get ''/_matrix/client/v3/sync'',
     ep_cs Get ''/_matrix/client/v3/rooms/{roomId}/state'',
     ep_cs Get ''/_matrix/client/v3/rooms/{roomId}/members'',
     ep_cs Get ''/_matrix/client/v3/rooms/{roomId}/joined_members'',
     ep_cs Get ''/_matrix/client/v3/rooms/{roomId}/state/{eventType}/{stateKey}'',
     ep_cs Get ''/_matrix/client/v3/rooms/{roomId}/state/{eventType}'',
     ep_cs Get ''/_matrix/client/v3/rooms/{roomId}/messages'',
     ep_cs Get ''/_matrix/client/v3/rooms/{roomId}/event/{eventId}'',
     ep_cs Post ''/_matrix/client/v3/rooms/{roomId}/join'',
     ep_cs Post ''/_matrix/client/v3/rooms/{roomId}/leave'',
     ep_cs Post ''/_matrix/client/v3/rooms/{roomId}/invite'',
     ep_cs Post ''/_matrix/client/v3/rooms/{roomId}/kick'',
     ep_cs Post ''/_matrix/client/v3/rooms/{roomId}/ban'',
     ep_cs Put ''/_matrix/client/v3/rooms/{roomId}/send/{eventType}/{txnId}'',
     ep_cs Put ''/_matrix/client/v3/rooms/{roomId}/typing/{userId}'',
     ep_cs Post ''/_matrix/client/v3/rooms/{roomId}/receipt/{receiptType}/{eventId}'',
     ep_cs Put ''/_matrix/client/v3/presence/{userId}/status'',
     ep_cs Get ''/_matrix/client/v3/presence/{userId}/status'',
     ep_cs Put ''/_matrix/client/v3/rooms/{roomId}/state/{eventType}/{stateKey}'',
     ep_cs Post ''/_matrix/client/v3/keys/upload'',
     ep_cs Post ''/_matrix/client/v3/keys/query'',
     ep_cs Post ''/_matrix/client/v3/keys/claim'',
     ep_cs Post ''/_matrix/client/v3/keys/device_signing/upload'',
     ep_ss_public Get ''/_matrix/key/v2/server'',
     ep_ss Put ''/_matrix/federation/v1/send/{txnId}'',
     ep_ss Get ''/_matrix/federation/v1/state/{roomId}'',
     ep_ss Get ''/_matrix/federation/v1/state_ids/{roomId}'',
     ep_ss Get ''/_matrix/federation/v1/event/{eventId}'',
     ep_ss Get ''/_matrix/federation/v1/backfill/{roomId}'',
     ep_ss Get ''/_matrix/federation/v1/user/devices/{userId}'',
     ep_as Put ''/_matrix/app/v1/transactions/{txnId}'']"

subsection \<open>Access tokens and query parameters\<close>

definition bearer :: "string \<Rightarrow> string option" where
  "bearer authorization =
     Option.bind (split_once (CHR '' '') authorization) (\<lambda>(scheme, token).
       if eq_ignore_ascii_case scheme ''Bearer''
       then (let token = trim token in if token = [] then None else Some token)
       else None)"

text \<open>The part of a target between its first and second \<open>?\<close>, up to a \<open>#\<close>.\<close>

definition target_query :: "string \<Rightarrow> string option" where
  "target_query target =
     (let parts = split_on (CHR ''?'') target in
      if length parts < 2 then None else Some (hd (split_on (CHR ''#'') (parts ! 1))))"

definition named_value :: "string \<Rightarrow> string \<Rightarrow> string option" where
  "named_value nm pair =
     (case split_once (CHR ''='') pair of
        Some (k, v) \<Rightarrow> (if k = nm \<and> v \<noteq> [] then Some v else None)
      | None \<Rightarrow> None)"

fun first_value :: "string \<Rightarrow> string list \<Rightarrow> string option" where
  "first_value nm [] = None"
| "first_value nm (pair # pairs) =
     (case named_value nm pair of Some v \<Rightarrow> Some v | None \<Rightarrow> first_value nm pairs)"

definition query_param :: "string \<Rightarrow> string \<Rightarrow> string option" where
  "query_param target nm = Option.bind (target_query target) (\<lambda>q. first_value nm (split_on (CHR ''&'') q))"

definition query_params_all :: "string \<Rightarrow> string \<Rightarrow> string list" where
  "query_params_all target nm =
     (case target_query target of
        None \<Rightarrow> []
      | Some q \<Rightarrow> List.map_filter (named_value nm) (split_on (CHR ''&'') q))"

definition access_token :: "string option \<Rightarrow> string \<Rightarrow> string option" where
  "access_token authorization target =
     (case Option.bind authorization bearer of
        Some token \<Rightarrow> Some token
      | None \<Rightarrow> query_param target ''access_token'')"

subsection \<open>Routing\<close>

type_synonym params = "(string, string) btree"

record route_match =
  rm_endpoint :: endpoint
  rm_params :: params

definition param :: "route_match \<Rightarrow> string \<Rightarrow> string option" where
  "param m nm = map_of (rm_params m) nm"

datatype route_resolution =
    Found route_match
  | MethodNotAllowed "http_method list"
  | NotFound

definition split_path :: "string \<Rightarrow> string list" where
  "split_path path = filter (\<lambda>s. s \<noteq> []) (split_on (CHR ''/'') path)"

definition hex_byte :: "char \<Rightarrow> nat option" where
  "hex_byte b =
     (if 48 \<le> ch b \<and> ch b \<le> 57 then Some (ch b - 48)
      else if 97 \<le> ch b \<and> ch b \<le> 102 then Some (ch b - 97 + 10)
      else if 65 \<le> ch b \<and> ch b \<le> 70 then Some (ch b - 65 + 10)
      else None)"

fun percent_bytes :: "string \<Rightarrow> string" where
  "percent_bytes [] = []"
| "percent_bytes (c # s) =
     (case s of
        h # l # rest \<Rightarrow>
          (case (hex_byte h, hex_byte l) of
             (Some hi, Some lo) \<Rightarrow>
               if c = CHR ''%'' then char_of (16 * hi + lo) # percent_bytes rest else c # percent_bytes s
           | _ \<Rightarrow> c # percent_bytes s)
      | _ \<Rightarrow> c # percent_bytes s)"

definition percent_decode :: "string \<Rightarrow> string" where
  "percent_decode segment =
     (let out = percent_bytes segment in if utf8_valid out then out else segment)"

definition strip_suffix :: "string \<Rightarrow> string \<Rightarrow> string option" where
  "strip_suffix suffix s = map_option rev (strip_prefix (rev suffix) (rev s))"

definition template_param :: "string \<Rightarrow> string option" where
  "template_param t = Option.bind (strip_prefix ''{'' t) (strip_suffix ''}'')"

fun match_segments :: "string list \<Rightarrow> string list \<Rightarrow> params \<Rightarrow> params option" where
  "match_segments (t # ts) (value # vs) acc =
     (case template_param t of
        Some nm \<Rightarrow> match_segments ts vs (bt_insert nm (percent_decode value) acc)
      | None \<Rightarrow> if t \<noteq> value then None else match_segments ts vs acc)"
| "match_segments _ _ acc = Some acc"

definition match_template :: "string \<Rightarrow> string list \<Rightarrow> params option" where
  "match_template template segments =
     (let ts = split_path template in
      if length ts \<noteq> length segments then None else match_segments ts segments [])"

fun resolve_loop :: "endpoint list \<Rightarrow> http_method \<Rightarrow> string list \<Rightarrow> http_method list \<Rightarrow> route_resolution" where
  "resolve_loop [] m segments allowed = (if allowed = [] then NotFound else MethodNotAllowed allowed)"
| "resolve_loop (ep # eps) m segments allowed =
     (case match_template (ep_path ep) segments of
        Some params \<Rightarrow>
          if ep_method ep = m then Found \<lparr>rm_endpoint = ep, rm_params = params\<rparr>
          else resolve_loop eps m segments (if ep_method ep \<in> set allowed then allowed else allowed @ [ep_method ep])
      | None \<Rightarrow> resolve_loop eps m segments allowed)"

definition target_path :: "string \<Rightarrow> string" where
  "target_path target = takeWhile (\<lambda>c. c \<noteq> CHR ''?'' \<and> c \<noteq> CHR ''#'') target"

definition resolve_route :: "endpoint list \<Rightarrow> http_method \<Rightarrow> string \<Rightarrow> route_resolution" where
  "resolve_route eps m target = resolve_loop eps m (split_path (target_path target)) []"

end
