(* ===== verification/HttpRoutes.thy ===== *)
theory HttpRoutes
  imports Http
begin

section \<open>The routes of the surface\<close>

text \<open>
  No two endpoints of the surface with the same method match the same path, so the order of the
  table does not matter, and every endpoint is reached with its parameters when a client percent-encodes them.
\<close>

subsection \<open>Templates that exclude each other\<close>

fun apart :: "string list \<Rightarrow> string list \<Rightarrow> bool" where
  "apart (s # ss) (t # ts) = (template_param s = None \<and> template_param t = None \<and> s \<noteq> t \<or> apart ss ts)"
| "apart _ _ = False"

definition exclusive :: "http_method \<times> string list \<Rightarrow> http_method \<times> string list \<Rightarrow> bool" where
  "exclusive a b = (fst a \<noteq> fst b \<or> length (snd a) \<noteq> length (snd b) \<or> apart (snd a) (snd b))"

definition shape :: "endpoint \<Rightarrow> http_method \<times> string list" where
  "shape ep = (ep_method ep, split_path (ep_path ep))"

lemma match_segments_apart:
  "apart ss ts \<Longrightarrow> match_segments ss vs acc \<noteq> None \<Longrightarrow> match_segments ts vs acc' \<noteq> None \<Longrightarrow>
   length ss = length vs \<Longrightarrow> length ts = length vs \<Longrightarrow> False"
proof (induction ss ts arbitrary: vs acc acc' rule: apart.induct)
  case (1 s ss t ts)
  then show ?case by (cases vs) (auto split: option.splits if_splits)
qed simp_all

lemma match_exclusive:
  "exclusive (shape a) (shape b) \<Longrightarrow> ep_method a = ep_method b \<Longrightarrow> match_template (ep_path a) segs = Some ps \<Longrightarrow>
   match_template (ep_path b) segs = Some qs \<Longrightarrow> False"
  using match_segments_apart [of "split_path (ep_path a)" "split_path (ep_path b)" segs "[]" "[]"]
  by (auto simp: exclusive_def shape_def match_template_def Let_def split: if_splits)

lemma surface_exclusive: "sorted_wrt exclusive (map shape SURFACE)"
  by code_simp

definition matching :: "endpoint list \<Rightarrow> string list \<Rightarrow> endpoint list" where
  "matching eps segs = filter (\<lambda>ep. match_template (ep_path ep) segs \<noteq> None) eps"

lemma matching_Cons:
  "matching (ep # eps) segs = (if match_template (ep_path ep) segs = None then matching eps segs else ep # matching eps segs)"
  by (simp add: matching_def)

lemma resolve_loop_Found:
  assumes "sorted_wrt exclusive (map shape eps)"
  shows "resolve_loop eps m segs allowed = Found r \<longleftrightarrow>
    rm_endpoint r \<in> set eps \<and> ep_method (rm_endpoint r) = m \<and> match_template (ep_path (rm_endpoint r)) segs = Some (rm_params r)"
  using assms
proof (induction eps arbitrary: allowed)
  case (Cons ep eps)
  have later: "match_template (ep_path ep') segs = None"
    if "match_template (ep_path ep) segs = Some ps" "ep' \<in> set eps" "ep_method ep = ep_method ep'" for ps ep'
    using that Cons.prems match_exclusive [of ep ep' segs ps] by (cases "match_template (ep_path ep') segs") auto
  have IH: "resolve_loop eps m segs a = Found r \<longleftrightarrow> rm_endpoint r \<in> set eps \<and> ep_method (rm_endpoint r) = m \<and>
      match_template (ep_path (rm_endpoint r)) segs = Some (rm_params r)" for a
    using Cons by simp
  show ?case
  proof (cases "match_template (ep_path ep) segs")
    case (Some ps)
    show ?thesis
    proof (cases "ep_method ep = m")
      case True
      with Some later [OF Some] show ?thesis by (cases r) auto
    next
      case False
      with Some IH show ?thesis by auto
    qed
  qed (use IH in auto)
qed simp

lemma resolve_loop_refused:
  "resolve_loop eps m segs allowed = MethodNotAllowed ms \<longleftrightarrow>
     (\<forall>ep\<in>set (matching eps segs). ep_method ep \<noteq> m) \<and> ms \<noteq> [] \<and>
     ms = fold (\<lambda>ep ms. if ep_method ep \<in> set ms then ms else ms @ [ep_method ep]) (matching eps segs) allowed"
proof (induction eps arbitrary: allowed)
  case (Cons ep eps)
  show ?case
    by (cases "match_template (ep_path ep) segs"; cases "ep_method ep = m") (simp_all add: Cons.IH matching_Cons)
qed (auto simp: matching_def)

lemma fold_methods:
  "set (fold (\<lambda>ep ms. if ep_method ep \<in> set ms then ms else ms @ [ep_method ep]) eps ms) = set ms \<union> ep_method ` set eps"
  "distinct ms \<Longrightarrow> distinct (fold (\<lambda>ep ms. if ep_method ep \<in> set ms then ms else ms @ [ep_method ep]) eps ms)"
  by (induction eps arbitrary: ms) auto

lemma resolve_loop_NotFound: "resolve_loop eps m segs allowed = NotFound \<longleftrightarrow> matching eps segs = [] \<and> allowed = []"
  by (induction eps m segs allowed rule: resolve_loop.induct) (auto simp: matching_def split: option.splits)

subsection \<open>Percent-encoded parameters\<close>

text \<open>What a client does: every byte that is not unreserved is written as an escape.\<close>

definition unreserved :: "char \<Rightarrow> bool" where
  "unreserved c \<longleftrightarrow> 48 \<le> ch c \<and> ch c \<le> 57 \<or> 65 \<le> ch c \<and> ch c \<le> 90 \<or> 97 \<le> ch c \<and> ch c \<le> 122 \<or>
     c \<in> {CHR ''-'', CHR ''.'', CHR ''_'', CHR ''~''}"

definition upper_hex :: "nat \<Rightarrow> char" where
  "upper_hex d = char_of (if d < 10 then 48 + d else 55 + d)"

definition percent_encode :: "string \<Rightarrow> string" where
  "percent_encode s =
     concat (map (\<lambda>c. if unreserved c then [c] else [CHR ''%'', upper_hex (ch c div 16), upper_hex (ch c mod 16)]) s)"

definition render_segment :: "(string \<Rightarrow> string) \<Rightarrow> string \<Rightarrow> string" where
  "render_segment vals t = (case template_param t of Some nm \<Rightarrow> percent_encode (vals nm) | None \<Rightarrow> t)"

definition render_target :: "(string \<Rightarrow> string) \<Rightarrow> string \<Rightarrow> string" where
  "render_target vals template = concat (map (\<lambda>t. CHR ''/'' # render_segment vals t) (split_path template))"

lemma hex_byte_upper: "d < 16 \<Longrightarrow> hex_byte (upper_hex d) = Some d"
  by (auto simp: hex_byte_def upper_hex_def)

lemma unreserved_plain: "unreserved c \<Longrightarrow> c \<noteq> CHR ''%'' \<and> c \<noteq> CHR ''/'' \<and> c \<noteq> CHR ''?'' \<and> c \<noteq> CHR ''#''"
  by (auto simp: unreserved_def)

lemma percent_bytes_plain: "c \<noteq> CHR ''%'' \<Longrightarrow> percent_bytes (c # s) = c # percent_bytes s"
  by (auto split: list.splits option.splits)

lemma percent_bytes_escape:
  "percent_bytes (CHR ''%'' # upper_hex (ch c div 16) # upper_hex (ch c mod 16) # s) = c # percent_bytes s"
  by (simp add: hex_byte_upper div_less_iff_less_mult)

lemma percent_bytes_encode: "percent_bytes (percent_encode s @ r) = s @ percent_bytes r"
proof (induction s)
  case (Cons c s)
  then show ?case
    by (cases "unreserved c")
      (simp_all add: percent_encode_def percent_bytes_plain percent_bytes_escape unreserved_plain del: percent_bytes.simps(2))
qed (simp add: percent_encode_def)

lemma percent_decode_encode: "utf8_valid s \<Longrightarrow> percent_decode (percent_encode s) = s"
  using percent_bytes_encode [of s "[]"] by (simp add: percent_decode_def)

lemma upper_hex_unreserved: "d < 16 \<Longrightarrow> unreserved (upper_hex d)"
  by (auto simp: upper_hex_def unreserved_def)

lemma percent_encode_chars: "c \<in> set (percent_encode s) \<Longrightarrow> unreserved c \<or> c = CHR ''%''"
  by (auto simp: percent_encode_def upper_hex_unreserved div_less_iff_less_mult split: if_splits)

lemma split_path_segments:
  assumes "\<forall>s\<in>set segs. s \<noteq> [] \<and> CHR ''/'' \<notin> set s"
  shows "split_path (concat (map (\<lambda>s. CHR ''/'' # s) segs)) = segs"
proof -
  have "split_on (CHR ''/'') (s @ concat (map (\<lambda>s. CHR ''/'' # s) segs)) = s # segs" if "CHR ''/'' \<notin> set s" for s
    using assms that by (induction segs arbitrary: s) (simp_all add: split_on_last)
  from this [of "[]"] assms show ?thesis
    by (simp add: split_path_def filter_id_conv)
qed

lemma match_segments_render:
  assumes "\<forall>nm. utf8_valid (vals nm)"
  shows "\<exists>ps. match_segments ts (map (render_segment vals) ts) acc = Some ps \<and>
    map_of ps = (\<lambda>nm. if Some nm \<in> template_param ` set ts then Some (vals nm) else map_of acc nm)"
proof (induction ts arbitrary: acc)
  case (Cons t ts)
  show ?case
  proof (cases "template_param t")
    case None
    with Cons show ?thesis by (simp add: render_segment_def)
  next
    case (Some nm)
    obtain ps where "match_segments ts (map (render_segment vals) ts) (bt_insert nm (vals nm) acc) = Some ps"
      "map_of ps = (\<lambda>nm'. if Some nm' \<in> template_param ` set ts then Some (vals nm') else map_of (bt_insert nm (vals nm) acc) nm')"
      using Cons.IH by blast
    moreover have "render_segment vals t = percent_encode (vals nm)" using Some by (simp add: render_segment_def)
    ultimately show ?thesis
      using Some assms by (intro exI [where x = ps]) (auto simp: percent_decode_encode fun_eq_iff)
  qed
qed (simp add: fun_eq_iff)

text \<open>The literal segments of the surface's templates contain no separator.\<close>

definition plain_template :: "string \<Rightarrow> bool" where
  "plain_template template = list_all (\<lambda>t. template_param t \<noteq> None \<or>
     t \<noteq> [] \<and> list_all (\<lambda>c. c \<noteq> CHR ''/'' \<and> c \<noteq> CHR ''?'' \<and> c \<noteq> CHR ''#'') t) (split_path template)"

lemma surface_plain: "list_all (\<lambda>ep. plain_template (ep_path ep)) SURFACE"
  by code_simp

lemma render_segment_plain:
  assumes "plain_template template" "t \<in> set (split_path template)" "\<forall>nm. vals nm \<noteq> []"
  shows "render_segment vals t \<noteq> [] \<and> (\<forall>c\<in>set (render_segment vals t). c \<noteq> CHR ''/'' \<and> c \<noteq> CHR ''?'' \<and> c \<noteq> CHR ''#'')"
proof (cases "template_param t")
  case (Some nm)
  have "percent_encode (vals nm) \<noteq> []" using assms(3) by (cases "vals nm") (simp_all add: percent_encode_def)
  with Some show ?thesis
    using percent_encode_chars unreserved_plain by (fastforce simp: render_segment_def)
qed (use assms in \<open>auto simp: plain_template_def list_all_iff render_segment_def\<close>)

subsection \<open>Properties\<close>

text \<open>C19: The surface is unambiguous: a request is routed to an endpoint exactly if that endpoint is on the
  surface, has the request's method and its template matches the path, whatever the order of the
  table; it is refused as unknown exactly if no template matches; and otherwise the methods in
  \<open>Allow\<close> are exactly those, each once, of the endpoints whose template matches.\<close>

theorem routing_exact:
  "(\<forall>r. resolve_route SURFACE m target = Found r \<longleftrightarrow>
      rm_endpoint r \<in> set SURFACE \<and> ep_method (rm_endpoint r) = m \<and>
      match_template (ep_path (rm_endpoint r)) (split_path (target_path target)) = Some (rm_params r)) \<and>
   (resolve_route SURFACE m target = NotFound \<longleftrightarrow> matching SURFACE (split_path (target_path target)) = []) \<and>
   (case resolve_route SURFACE m target of
      MethodNotAllowed ms \<Rightarrow>
        m \<notin> set ms \<and> distinct ms \<and> set ms = ep_method ` set (matching SURFACE (split_path (target_path target)))
    | _ \<Rightarrow> True)"
  unfolding resolve_route_def
  by (auto simp: resolve_loop_Found [OF surface_exclusive] resolve_loop_NotFound resolve_loop_refused fold_methods
      split: route_resolution.split)

text \<open>Every endpoint of the surface is reached with its parameters: a client that fills a template
  with non-empty values, each percent-encoded, is routed to that endpoint and the handler reads back
  exactly those values, also when a query follows.\<close>

theorem endpoint_reached:
  assumes "ep \<in> set SURFACE" "\<forall>nm. vals nm \<noteq> [] \<and> utf8_valid (vals nm)"
  shows "\<exists>r. resolve_route SURFACE (ep_method ep) (render_target vals (ep_path ep) @ CHR ''?'' # query) = Found r \<and>
    rm_endpoint r = ep \<and>
    (\<forall>t\<in>set (split_path (ep_path ep)). \<forall>nm. template_param t = Some nm \<longrightarrow> param r nm = Some (vals nm))"
proof -
  let ?ts = "split_path (ep_path ep)"
  have plain: "render_segment vals t \<noteq> [] \<and> (\<forall>c\<in>set (render_segment vals t). c \<noteq> CHR ''/'' \<and> c \<noteq> CHR ''?'' \<and> c \<noteq> CHR ''#'')"
    if "t \<in> set ?ts" for t
    using surface_plain assms by (intro render_segment_plain [OF _ that]) (simp_all add: list_all_iff)
  have "c \<noteq> CHR ''?'' \<and> c \<noteq> CHR ''#''" if "c \<in> set (render_target vals (ep_path ep))" for c
  proof -
    from that obtain t where t: "t \<in> set ?ts" "c \<in> set (CHR ''/'' # render_segment vals t)"
      unfolding render_target_def set_concat set_map by blast
    then show ?thesis using plain [OF t(1)] by auto
  qed
  then have path: "target_path (render_target vals (ep_path ep) @ CHR ''?'' # query) = render_target vals (ep_path ep)"
    unfolding target_path_def by (subst takeWhile_append2) auto
  have "render_target vals (ep_path ep) = concat (map (\<lambda>s. CHR ''/'' # s) (map (render_segment vals) ?ts))"
    by (simp add: render_target_def comp_def)
  then have segs: "split_path (render_target vals (ep_path ep)) = map (render_segment vals) ?ts"
    using split_path_segments [of "map (render_segment vals) ?ts"] plain by fastforce
  obtain ps where ps: "match_segments ?ts (map (render_segment vals) ?ts) [] = Some ps"
    "map_of ps = (\<lambda>nm. if Some nm \<in> template_param ` set ?ts then Some (vals nm) else map_of [] nm)"
    using match_segments_render [of vals ?ts "[]"] assms(2) by blast
  let ?r = "\<lparr>rm_endpoint = ep, rm_params = ps\<rparr>"
  have "resolve_route SURFACE (ep_method ep) (render_target vals (ep_path ep) @ CHR ''?'' # query) = Found ?r"
    using assms(1) ps(1) by (simp add: resolve_route_def resolve_loop_Found [OF surface_exclusive] path segs match_template_def)
  with ps(2) show ?thesis
    by (intro exI [where x = ?r]) (force simp: param_def)
qed

theorem endpoint_reached_witness:
  "\<exists>r. resolve_route SURFACE Put
       (render_target (\<lambda>_. ''!a/b'') ''/_matrix/client/v3/rooms/{roomId}/send/{eventType}/{txnId}'' @ ''?access_token=t'') = Found r \<and>
     rm_endpoint r = ep_cs Put ''/_matrix/client/v3/rooms/{roomId}/send/{eventType}/{txnId}'' \<and> param r ''roomId'' = Some ''!a/b''"
proof -
  let ?ep = "ep_cs Put ''/_matrix/client/v3/rooms/{roomId}/send/{eventType}/{txnId}''"
  have "?ep \<in> set SURFACE" by (simp add: SURFACE_def)
  moreover have "\<forall>nm::string. ''!a/b'' \<noteq> [] \<and> utf8_valid ''!a/b''" by (simp add: ascii_utf8_valid)
  ultimately obtain r where r: "resolve_route SURFACE (ep_method ?ep) (render_target (\<lambda>_. ''!a/b'') (ep_path ?ep) @ CHR ''?'' # ''access_token=t'') = Found r"
    "rm_endpoint r = ?ep" "\<forall>t\<in>set (split_path (ep_path ?ep)). \<forall>nm. template_param t = Some nm \<longrightarrow> param r nm = Some ''!a/b''"
    using endpoint_reached [of ?ep "\<lambda>_. ''!a/b''" "''access_token=t''"] by blast
  have "''{roomId}'' \<in> set (split_path (ep_path ?ep))" "template_param ''{roomId}'' = Some ''roomId''"
    by (code_simp, code_simp)
  with r(3) have "param r ''roomId'' = Some ''!a/b''" by blast
  with r(1,2) show ?thesis by (intro exI [where x = r]) (simp add: ep_cs_def)
qed

end
