(* ===== verification/Homeserver.thy ===== *)
theory Homeserver
  imports ServerLog
begin

section \<open>The service interface of the ingress (gm-api, server.rs)\<close>

text \<open>
  The capability traits the ingress is generic over, bundled as a record of operations on a state
  \<open>'h\<close>: reads take the state, the other operations return it updated.  The locale says which
  operation each entry runs; it is interpreted on the composed homeserver of \<open>gm-svc\<close> and on
  \<open>NoServer\<close>, which has no state at all.
\<close>

record 'h homeserver =
  hs_user_for :: "'h \<Rightarrow> string \<Rightarrow> user_id option"
  hs_room_state_content :: "'h \<Rightarrow> room_id \<Rightarrow> string \<Rightarrow> string \<Rightarrow> string option"
  hs_room_state :: "'h \<Rightarrow> room_id \<Rightarrow> pdu list"
  hs_room_timeline :: "'h \<Rightarrow> room_id \<Rightarrow> pdu list"
  hs_create_room :: "user_id \<Rightarrow> string option \<Rightarrow> string option \<Rightarrow> 'h \<Rightarrow> 'h \<times> room_id option"
  hs_change_membership :: "user_id \<Rightarrow> room_id \<Rightarrow> user_id \<Rightarrow> string \<Rightarrow> 'h \<Rightarrow> 'h \<times> string option"
  hs_password_login :: "string \<Rightarrow> string \<Rightarrow> 'h \<Rightarrow> 'h \<times> login_grant option"
  hs_send_message :: "user_id \<Rightarrow> room_id \<Rightarrow> string \<Rightarrow> string \<Rightarrow> string \<Rightarrow> 'h \<Rightarrow> 'h \<times> string option"
  hs_set_typing :: "user_id \<Rightarrow> room_id \<Rightarrow> bool \<Rightarrow> u64 \<Rightarrow> 'h \<Rightarrow> 'h \<times> bool"
  hs_set_read_receipt :: "user_id \<Rightarrow> room_id \<Rightarrow> string \<Rightarrow> 'h \<Rightarrow> 'h \<times> bool"
  hs_set_presence :: "user_id \<Rightarrow> string \<Rightarrow> string option \<Rightarrow> 'h \<Rightarrow> 'h \<times> bool"
  hs_presence_for :: "'h \<Rightarrow> user_id \<Rightarrow> presence_update option"
  hs_sync :: "user_id \<Rightarrow> string option \<Rightarrow> 'h \<Rightarrow> 'h \<times> sync_view"
  hs_receive_transaction :: "json \<Rightarrow> 'h \<Rightarrow> 'h \<times> json"
  hs_verify_federation_request :: "string \<Rightarrow> string \<Rightarrow> string option \<Rightarrow> string option \<Rightarrow> 'h \<Rightarrow> 'h \<times> bool"
  hs_server_keys :: "'h \<Rightarrow> 'h \<times> json"
  hs_backfill :: "'h \<Rightarrow> room_id \<Rightarrow> string list \<Rightarrow> nat \<Rightarrow> pdu list"
  hs_event_transaction :: "string \<Rightarrow> 'h \<Rightarrow> 'h \<times> json option"
  hs_state_ids :: "'h \<Rightarrow> room_id \<Rightarrow> json"
  hs_store_device_keys :: "user_id \<Rightarrow> string \<Rightarrow> string \<Rightarrow> 'h \<Rightarrow> 'h"
  hs_store_one_time_keys :: "user_id \<Rightarrow> string \<Rightarrow> (string \<times> string) list \<Rightarrow> 'h \<Rightarrow> 'h \<times> (string \<times> u32) list"
  hs_claim_one_time_key :: "user_id \<Rightarrow> string \<Rightarrow> string \<Rightarrow> 'h \<Rightarrow> 'h \<times> (string \<times> string) option"
  hs_device_keys_of :: "'h \<Rightarrow> user_id \<Rightarrow> (string \<times> string) list"
  hs_store_cross_signing_key :: "user_id \<Rightarrow> string \<Rightarrow> string \<Rightarrow> 'h \<Rightarrow> 'h"
  hs_cross_signing_keys_of :: "'h \<Rightarrow> user_id \<Rightarrow> (string \<times> string) list"

definition gauss_homeserver :: "('s, 'c) server_env \<Rightarrow> ('s, 'c) server homeserver" where
  "gauss_homeserver env =
     \<lparr>hs_user_for = user_for env,
      hs_room_state_content = room_state_content env,
      hs_room_state = room_state env,
      hs_room_timeline = sv_timeline env,
      hs_create_room = create_room env,
      hs_change_membership = change_membership env,
      hs_password_login = password_login env,
      hs_send_message = send_message env,
      hs_set_typing = set_typing env,
      hs_set_read_receipt = set_read_receipt env,
      hs_set_presence = set_presence env,
      hs_presence_for = presence_for env,
      hs_sync = (\<lambda>user since sv. case sync env user since sv of (view, sv) \<Rightarrow> (sv, view)),
      hs_receive_transaction = receive_transaction env,
      hs_verify_federation_request = verify_federation_request env,
      hs_server_keys = server_keys env,
      hs_backfill = backfill env,
      hs_event_transaction = event_transaction env,
      hs_state_ids = state_ids env,
      hs_store_device_keys = store_device_keys env,
      hs_store_one_time_keys = store_one_time_keys env,
      hs_claim_one_time_key = claim_one_time_key env,
      hs_device_keys_of = device_keys_of env,
      hs_store_cross_signing_key = store_cross_signing_key env,
      hs_cross_signing_keys_of = cross_signing_keys_of env\<rparr>"

definition no_server :: "unit homeserver" where
  "no_server =
     \<lparr>hs_user_for = (\<lambda>_ _. None),
      hs_room_state_content = (\<lambda>_ _ _ _. None),
      hs_room_state = (\<lambda>_ _. []),
      hs_room_timeline = (\<lambda>_ _. []),
      hs_create_room = (\<lambda>_ _ _ h. (h, None)),
      hs_change_membership = (\<lambda>_ _ _ _ h. (h, None)),
      hs_password_login = (\<lambda>_ _ h. (h, None)),
      hs_send_message = (\<lambda>_ _ _ _ _ h. (h, None)),
      hs_set_typing = (\<lambda>_ _ _ _ h. (h, False)),
      hs_set_read_receipt = (\<lambda>_ _ _ h. (h, False)),
      hs_set_presence = (\<lambda>_ _ _ h. (h, False)),
      hs_presence_for = (\<lambda>_ _. None),
      hs_sync = (\<lambda>_ _ h. (h, \<lparr>next_batch = ''s0'', joined = [], left = [], sv_presence = []\<rparr>)),
      hs_receive_transaction = (\<lambda>_ h. (h, JObject (bt_insert ''pdus'' (JObject []) []))),
      hs_verify_federation_request = (\<lambda>_ _ _ _ h. (h, False)),
      hs_server_keys =
        (\<lambda>h. (h, JObject (bt_insert ''verify_keys'' (JObject []) (bt_insert ''server_name'' (JString []) [])))),
      hs_backfill = (\<lambda>_ _ _ _. []),
      hs_event_transaction = (\<lambda>_ h. (h, None)),
      hs_state_ids =
        (\<lambda>_ _. JObject (bt_insert ''auth_chain_ids'' (JArray []) (bt_insert ''pdu_ids'' (JArray []) []))),
      hs_store_device_keys = (\<lambda>_ _ _ h. h),
      hs_store_one_time_keys = (\<lambda>_ _ _ h. (h, [])),
      hs_claim_one_time_key = (\<lambda>_ _ _ h. (h, None)),
      hs_device_keys_of = (\<lambda>_ _. []),
      hs_store_cross_signing_key = (\<lambda>_ _ _ h. h),
      hs_cross_signing_keys_of = (\<lambda>_ _. [])\<rparr>"

locale homeserver =
  fixes hs :: "'h homeserver"
    and exec :: "sv_op \<Rightarrow> 'h \<Rightarrow> 'h"
  assumes exec_create: "fst (hs_create_room hs u nm topic h) = exec (OpCreateRoom u nm topic) h"
    and exec_membership: "fst (hs_change_membership hs u room target ms h) = exec (OpMembership u room target ms) h"
    and exec_login: "fst (hs_password_login hs name pw h) = exec (OpLogin name pw) h"
    and exec_send: "fst (hs_send_message hs u room k txn c h) = exec (OpSend u room k txn c) h"
    and exec_typing: "fst (hs_set_typing hs u room b timeout h) = exec (OpTyping u room b timeout) h"
    and exec_receipt: "fst (hs_set_read_receipt hs u room eid h) = exec (OpReceipt u room eid) h"
    and exec_presence: "fst (hs_set_presence hs u ps msg h) = exec (OpPresence u ps msg) h"
    and exec_sync: "fst (hs_sync hs u since h) = exec (OpSync u since) h"
    and exec_transaction: "fst (hs_receive_transaction hs j h) = exec (OpTransaction j) h"
    and exec_verify: "fst (hs_verify_federation_request hs m uri body a h) = exec (OpVerifyRequest m uri body a) h"
    and exec_server_keys: "fst (hs_server_keys hs h) = exec OpServerKeys h"
    and exec_event: "fst (hs_event_transaction hs eid h) = exec (OpEvent eid) h"
    and exec_device_keys: "hs_store_device_keys hs u dev ks h = exec (OpDeviceKeys u dev ks) h"
    and exec_one_time_keys: "fst (hs_store_one_time_keys hs u dev otks h) = exec (OpOneTimeKeys u dev otks) h"
    and exec_claim: "fst (hs_claim_one_time_key hs u dev alg h) = exec (OpClaimKey u dev alg) h"
    and exec_cross_signing: "hs_store_cross_signing_key hs u usage ks h = exec (OpCrossSigning u usage ks) h"

interpretation gauss: homeserver "gauss_homeserver env" "sv_run env" for env :: "('s, 'c) server_env"
  by unfold_locales (simp_all add: gauss_homeserver_def case_prod_unfold)

interpretation nobody: homeserver no_server "\<lambda>_ h. h"
  by unfold_locales simp_all

end
