(* ===== verification/Ingress.thy ===== *)
theory Ingress
  imports Http Homeserver MatrixError
begin

section \<open>Requests, responses and their bodies (gm-http, ingress.rs)\<close>

text \<open>
  The transport-independent requests and responses of the ingress and the JSON bodies it builds.
\<close>

record request =
  rq_method :: http_method
  rq_target :: string
  rq_authorization :: "string option"
  rq_body :: "string option"

definition request_new :: "http_method \<Rightarrow> string \<Rightarrow> request" where
  "request_new m target = \<lparr>rq_method = m, rq_target = target, rq_authorization = None, rq_body = None\<rparr>"

definition with_authorization :: "string \<Rightarrow> request \<Rightarrow> request" where
  "with_authorization value req = req\<lparr>rq_authorization := Some value\<rparr>"

definition with_body :: "string \<Rightarrow> request \<Rightarrow> request" where
  "with_body content req = req\<lparr>rq_body := Some content\<rparr>"

record response =
  rs_status :: nat
  rs_headers :: "(string \<times> string) list"
  rs_body :: string

definition json_headers :: "(string \<times> string) list" where
  "json_headers = [(''Content-Type'', ''application/json'')]"

definition json_ok_response :: "string \<Rightarrow> response" where
  "json_ok_response content = \<lparr>rs_status = 200, rs_headers = json_headers, rs_body = content\<rparr>"

definition error_response :: "nat \<Rightarrow> matrix_error \<Rightarrow> response" where
  "error_response st err = \<lparr>rs_status = st, rs_headers = json_headers, rs_body = me_to_json err\<rparr>"

definition header_value :: "response \<Rightarrow> string \<Rightarrow> string option" where
  "header_value r nm = map_option snd (List.find (\<lambda>(k, _). eq_ignore_ascii_case k nm) (rs_headers r))"

subsection \<open>Small bodies\<close>

definition escape_text_char :: "nat \<Rightarrow> string" where
  "escape_text_char c =
     (if c = 34 then [CHR 0x5C, CHR 0x22]
      else if c = 92 then [CHR 0x5C, CHR 0x5C]
      else if c < 32 then [CHR 0x5C, CHR ''u''] @ hex4 c
      else utf8_encode c)"

definition json_escape :: "string \<Rightarrow> string" where
  "json_escape s = concat (map escape_text_char (str_chars s))"

definition dquoted :: "string \<Rightarrow> string" where
  "dquoted s = [CHR 0x22] @ s @ [CHR 0x22]"

definition versions_body :: string where
  "versions_body =
     ''{'' @ dquoted ''versions'' @ '':['' @
     str_join '','' (map (\<lambda>v. dquoted (json_escape v)) SUPPORTED_SPEC_VERSIONS) @ '']}''"

definition LOGIN_FLOWS :: "string list" where
  "LOGIN_FLOWS = [''m.login.password'', ''m.login.sso'']"

definition login_flows_body :: string where
  "login_flows_body =
     ''{'' @ dquoted ''flows'' @ '':['' @
     str_join '','' (map (\<lambda>t. ''{'' @ dquoted ''type'' @ '':'' @ dquoted (json_escape t) @ ''}'') LOGIN_FLOWS) @ '']}''"

definition whoami_body :: "user_id \<Rightarrow> string" where
  "whoami_body user = ''{'' @ dquoted ''user_id'' @ '':'' @ dquoted (json_escape (user_as_str user)) @ ''}''"

definition event_id_body :: "string \<Rightarrow> string" where
  "event_id_body eid = json_write (JObject (bt_insert ''event_id'' (JString eid) []))"

definition room_id_body :: "string \<Rightarrow> string" where
  "room_id_body room = json_write (JObject (bt_insert ''room_id'' (JString room) []))"

definition messages_body :: "pdu list \<Rightarrow> string" where
  "messages_body tls =
     (let obj = bt_insert ''chunk'' (JArray (map pdu_to_json tls)) [];
          obj = bt_insert ''start'' (JString ''start'') obj
      in json_write (JObject (bt_insert ''end'' (JString ''end'') obj)))"

definition login_response :: "login_grant \<Rightarrow> string" where
  "login_response grant =
     (let obj = bt_insert ''user_id'' (JString (user_as_str (grant_user_id grant))) []
      in json_write (JObject (bt_insert ''access_token'' (JString (grant_access_token grant)) obj)))"

fun method_name :: "http_method \<Rightarrow> string" where
  "method_name Get = ''GET''"
| "method_name Post = ''POST''"
| "method_name Put = ''PUT''"
| "method_name Delete = ''DELETE''"

definition allow_header :: "http_method list \<Rightarrow> string" where
  "allow_header ms = str_join '', '' (map method_name ms)"

subsection \<open>Signed JSON\<close>

definition signature_of :: "json \<Rightarrow> string \<Rightarrow> string \<Rightarrow> json option" where
  "signature_of obj signer key_id =
     Option.bind (Option.bind (json_get obj ''signatures'') (\<lambda>s. json_get s signer)) (\<lambda>k. json_get k key_id)"

definition has_signature :: "json \<Rightarrow> string \<Rightarrow> string \<Rightarrow> bool" where
  "has_signature obj signer key_id \<longleftrightarrow> signature_of obj signer key_id \<noteq> None"

definition unsigned_json :: "json \<Rightarrow> json" where
  "unsigned_json obj = (case obj of JObject m \<Rightarrow> JObject (bt_remove ''unsigned'' (bt_remove ''signatures'' m)) | _ \<Rightarrow> obj)"

definition signed_json_verifies :: "json \<Rightarrow> string \<Rightarrow> string \<Rightarrow> string \<Rightarrow> bool" where
  "signed_json_verifies obj signer key_id pk =
     (case Option.bind (signature_of obj signer key_id) as_str of
        None \<Rightarrow> False
      | Some sg \<Rightarrow> verify_b64 (as_bytes (json_write (unsigned_json obj))) sg pk)"

definition cross_signing_public :: "json \<Rightarrow> string option" where
  "cross_signing_public key =
     Option.bind (Option.bind (json_get key ''keys'') as_object) (\<lambda>ks.
     Option.bind (List.find (\<lambda>(i, _). starts_with i ''ed25519:'') ks) (\<lambda>(_, v). as_str v))"

subsection \<open>The sync body\<close>

definition typing_edu :: "user_id list \<Rightarrow> json" where
  "typing_edu users =
     (let content = bt_insert ''user_ids'' (JArray (map (\<lambda>u. JString (user_as_str u)) users)) [];
          edu = bt_insert ''type'' (JString ''m.typing'') []
      in JObject (bt_insert ''content'' (JObject content) edu))"

text \<open>The receipts of a room, grouped by event.\<close>

definition receipts_by_event :: "read_receipt list \<Rightarrow> (string, (string, json) btree) btree" where
  "receipts_by_event rcs =
     fold (\<lambda>r m.
       let ts = JObject (bt_insert ''ts'' (JNumber (f64_of_nat (unat (rc_ts r)))) []);
           users = (case map_of m (rc_event_id r) of Some us \<Rightarrow> us | None \<Rightarrow> [])
       in bt_insert (rc_event_id r) (bt_insert (user_as_str (rc_user r)) ts users) m) rcs []"

definition receipt_edu :: "read_receipt list \<Rightarrow> json" where
  "receipt_edu rcs =
     (let content = fold (\<lambda>(eid, users). bt_insert eid (JObject (bt_insert ''m.read'' (JObject users) [])))
            (receipts_by_event rcs) [];
          edu = bt_insert ''type'' (JString ''m.receipt'') []
      in JObject (bt_insert ''content'' (JObject content) edu))"

definition ephemeral_obj :: "joined_room \<Rightarrow> (string, json) btree" where
  "ephemeral_obj jr =
     bt_insert ''events''
       (JArray ((if jr_typing jr \<noteq> [] then [typing_edu (jr_typing jr)] else []) @
                (if jr_receipts jr \<noteq> [] then [receipt_edu (jr_receipts jr)] else []))) []"

definition events_obj :: "pdu list \<Rightarrow> (string, json) btree" where
  "events_obj ps = bt_insert ''events'' (JArray (map pdu_to_json ps)) []"

definition timeline_obj :: "pdu list \<Rightarrow> json" where
  "timeline_obj ps = JObject (bt_insert ''limited'' (JBool False) (events_obj ps))"

definition joined_obj :: "joined_room \<Rightarrow> json" where
  "joined_obj jr =
     (let room = bt_insert ''state'' (JObject (events_obj (jr_state jr))) [];
          room = bt_insert ''timeline'' (timeline_obj (jr_timeline jr)) room
      in JObject (bt_insert ''ephemeral'' (JObject (ephemeral_obj jr)) room))"

definition presence_edu :: "presence_update \<Rightarrow> json" where
  "presence_edu p =
     (let content = bt_insert ''presence'' (JString (ps_presence p)) [];
          content = (case ps_status_msg p of Some msg \<Rightarrow> bt_insert ''status_msg'' (JString msg) content | None \<Rightarrow> content);
          edu = bt_insert ''type'' (JString ''m.presence'') [];
          edu = bt_insert ''sender'' (JString (user_as_str (ps_user p))) edu
      in JObject (bt_insert ''content'' (JObject content) edu))"

definition sync_body :: "sync_view \<Rightarrow> string" where
  "sync_body view =
     (let join = fold (\<lambda>jr. bt_insert (room_as_str (jr_room jr)) (joined_obj jr)) (joined view) [];
          leave = fold (\<lambda>lr. bt_insert (room_as_str (lr_room lr))
            (JObject (bt_insert ''timeline'' (timeline_obj (lr_timeline lr)) []))) (ServerSync.left view) [];
          rooms = bt_insert ''leave'' (JObject leave) (bt_insert ''join'' (JObject join) []);
          presence = bt_insert ''events'' (JArray (map presence_edu (sv_presence view))) [];
          top = bt_insert ''next_batch'' (JString (next_batch view)) [];
          top = bt_insert ''rooms'' (JObject rooms) top
      in json_write (JObject (bt_insert ''presence'' (JObject presence) top)))"

end
