(* ===== verification/IngressServe.thy ===== *)
theory IngressServe
  imports Ingress
begin

section \<open>The handlers and the dispatch of a request (gm-http, ingress.rs)\<close>

text \<open>
  One definition per handler.  What many handlers open with is shared: the authenticated user, the
  room of the path, the object of the body.
\<close>

definition with_user :: "user_id option \<Rightarrow> 'h \<Rightarrow> (user_id \<Rightarrow> 'h \<times> response) \<Rightarrow> 'h \<times> response" where
  "with_user user h k =
     (case user of
        None \<Rightarrow> (h, error_response 401 (me_unknown_token ''unrecognized access token''))
      | Some u \<Rightarrow> k u)"

definition invalid_param :: "string \<Rightarrow> response" where
  "invalid_param msg = error_response 400 (matrix_error_new ''M_INVALID_PARAM'' msg)"

definition bad_json :: "string \<Rightarrow> response" where
  "bad_json msg = error_response 400 (matrix_error_new ''M_BAD_JSON'' msg)"

definition not_json :: "string \<Rightarrow> response" where
  "not_json msg = error_response 400 (matrix_error_new ''M_NOT_JSON'' msg)"

definition with_param :: "route_match \<Rightarrow> string \<Rightarrow> 'h \<Rightarrow> (string \<Rightarrow> 'h \<times> response) \<Rightarrow> 'h \<times> response" where
  "with_param m nm h k = (case param m nm of None \<Rightarrow> (h, invalid_param ''missing path parameter'') | Some v \<Rightarrow> k v)"

definition with_room_id :: "string \<Rightarrow> 'h \<Rightarrow> (room_id \<Rightarrow> 'h \<times> response) \<Rightarrow> 'h \<times> response" where
  "with_room_id r h k = (case room_id_parse r of Inl _ \<Rightarrow> (h, invalid_param ''invalid room id'') | Inr room \<Rightarrow> k room)"

definition with_user_id :: "string \<Rightarrow> 'h \<Rightarrow> (user_id \<Rightarrow> 'h \<times> response) \<Rightarrow> 'h \<times> response" where
  "with_user_id s h k = (case user_id_parse s of Inl _ \<Rightarrow> (h, invalid_param ''invalid user id'') | Inr u \<Rightarrow> k u)"

definition with_object :: "string option \<Rightarrow> string \<Rightarrow> 'h \<Rightarrow> ((string, json) btree \<Rightarrow> 'h \<times> response) \<Rightarrow> 'h \<times> response" where
  "with_object content fallback h k =
     (case json_parse (case content of Some c \<Rightarrow> c | None \<Rightarrow> fallback) of
        Inr (JObject m) \<Rightarrow> k m
      | _ \<Rightarrow> (h, bad_json ''body must be an object''))"

definition done_or_forbidden :: "string \<Rightarrow> 'h \<times> bool \<Rightarrow> 'h \<times> response" where
  "done_or_forbidden msg r =
     (fst r, if snd r then json_ok_response ''{}'' else error_response 403 (me_forbidden msg))"

subsection \<open>Rooms\<close>

definition serve_send :: "'h homeserver \<Rightarrow> route_match \<Rightarrow> user_id option \<Rightarrow> request \<Rightarrow> 'h \<Rightarrow> 'h \<times> response" where
  "serve_send hs m user req h =
     with_user user h (\<lambda>u.
     with_param m ''roomId'' h (\<lambda>r. with_param m ''eventType'' h (\<lambda>event_type. with_param m ''txnId'' h (\<lambda>txn_id.
     with_room_id r h (\<lambda>room.
       let content = (case rq_body req of Some b \<Rightarrow> b | None \<Rightarrow> []) in
       case json_parse content of
         Inr (JObject _) \<Rightarrow>
           (case hs_send_message hs u room event_type txn_id content h of
              (h, Some eid) \<Rightarrow> (h, json_ok_response (event_id_body eid))
            | (h, None) \<Rightarrow> (h, error_response 403 (me_forbidden ''not permitted to send in this room'')))
       | Inr _ \<Rightarrow> (h, bad_json ''content must be an object'')
       | Inl _ \<Rightarrow> (h, not_json ''content is not JSON''))))))"

definition serve_typing :: "'h homeserver \<Rightarrow> route_match \<Rightarrow> user_id option \<Rightarrow> request \<Rightarrow> 'h \<Rightarrow> 'h \<times> response" where
  "serve_typing hs m user req h =
     with_user user h (\<lambda>u.
     with_param m ''roomId'' h (\<lambda>r. with_param m ''userId'' h (\<lambda>user_id.
     with_room_id r h (\<lambda>room.
       if user_id \<noteq> user_as_str u then (h, error_response 403 (me_forbidden (''cannot set another user'' @ [CHR 0x27] @ ''s typing state'')))
       else with_object (rq_body req) [] h (\<lambda>content.
         case Option.bind (map_of content ''typing'') as_bool of
           None \<Rightarrow> (h, bad_json (''missing boolean '' @ [CHR 0x60] @ ''typing'' @ [CHR 0x60]))
         | Some typing \<Rightarrow>
             (let timeout_ms = (case Option.bind (map_of content ''timeout'') as_u64 of Some t \<Rightarrow> t | None \<Rightarrow> 30000)
              in done_or_forbidden ''not permitted to set typing in this room''
                   (hs_set_typing hs u room typing timeout_ms h)))))))"

definition serve_receipt :: "'h homeserver \<Rightarrow> route_match \<Rightarrow> user_id option \<Rightarrow> 'h \<Rightarrow> 'h \<times> response" where
  "serve_receipt hs m user h =
     with_user user h (\<lambda>u.
     with_param m ''roomId'' h (\<lambda>r. with_param m ''receiptType'' h (\<lambda>receipt_type. with_param m ''eventId'' h (\<lambda>eid.
     with_room_id r h (\<lambda>room.
       if receipt_type \<noteq> ''m.read'' then (h, json_ok_response ''{}'')
       else done_or_forbidden ''not permitted to post a receipt in this room'' (hs_set_read_receipt hs u room eid h))))))"

definition serve_set_presence :: "'h homeserver \<Rightarrow> route_match \<Rightarrow> user_id option \<Rightarrow> request \<Rightarrow> 'h \<Rightarrow> 'h \<times> response" where
  "serve_set_presence hs m user req h =
     with_user user h (\<lambda>u.
     with_param m ''userId'' h (\<lambda>user_id.
       if user_id \<noteq> user_as_str u then (h, error_response 403 (me_forbidden (''cannot set another user'' @ [CHR 0x27] @ ''s presence'')))
       else with_object (rq_body req) [] h (\<lambda>content.
         case Option.bind (map_of content ''presence'') as_str of
           None \<Rightarrow> (h, bad_json (''missing string '' @ [CHR 0x60] @ ''presence'' @ [CHR 0x60]))
         | Some presence \<Rightarrow>
             done_or_forbidden ''not permitted to set presence''
               (hs_set_presence hs u presence (Option.bind (map_of content ''status_msg'') as_str) h))))"

definition serve_get_presence :: "'h homeserver \<Rightarrow> route_match \<Rightarrow> 'h \<Rightarrow> 'h \<times> response" where
  "serve_get_presence hs m h =
     with_param m ''userId'' h (\<lambda>s. with_user_id s h (\<lambda>user.
       (h, case hs_presence_for hs h user of
             Some p \<Rightarrow>
               (let obj = bt_insert ''presence'' (JString (ps_presence p)) [];
                    obj = (case ps_status_msg p of Some msg \<Rightarrow> bt_insert ''status_msg'' (JString msg) obj | None \<Rightarrow> obj)
                in json_ok_response (json_write (JObject obj)))
           | None \<Rightarrow> error_response 404 (me_not_found ''no presence for this user''))))"

text \<open>The optional name and topic of a new room; a failed response otherwise.\<close>

definition create_room_options :: "string option \<Rightarrow> response + (string option \<times> string option)" where
  "create_room_options content =
     (case content of
        None \<Rightarrow> Inr (None, None)
      | Some b \<Rightarrow>
          if b = [] then Inr (None, None)
          else (case json_parse b of
                  Inr (JObject o') \<Rightarrow>
                    Inr (Option.bind (map_of o' ''name'') as_str, Option.bind (map_of o' ''topic'') as_str)
                | Inr _ \<Rightarrow> Inl (bad_json ''request body must be an object'')
                | Inl _ \<Rightarrow> Inl (not_json ''body is not JSON'')))"

definition serve_create_room :: "'h homeserver \<Rightarrow> user_id option \<Rightarrow> request \<Rightarrow> 'h \<Rightarrow> 'h \<times> response" where
  "serve_create_room hs user req h =
     with_user user h (\<lambda>u.
       case create_room_options (rq_body req) of
         Inl resp \<Rightarrow> (h, resp)
       | Inr (nm, topic) \<Rightarrow>
           (case hs_create_room hs u nm topic h of
              (h, Some room) \<Rightarrow> (h, json_ok_response (room_id_body (room_as_str room)))
            | (h, None) \<Rightarrow> (h, error_response 403 (me_forbidden ''room creation refused''))))"

definition membership_room :: "route_match \<Rightarrow> 'h \<Rightarrow> (room_id \<Rightarrow> 'h \<times> response) \<Rightarrow> 'h \<times> response" where
  "membership_room m h k =
     (case Option.bind (param m ''roomId'') (\<lambda>r. ok (room_id_parse r)) of
        None \<Rightarrow> (h, invalid_param ''invalid room id'')
      | Some room \<Rightarrow> k room)"

definition serve_membership_self ::
  "'h homeserver \<Rightarrow> route_match \<Rightarrow> user_id option \<Rightarrow> string \<Rightarrow> 'h \<Rightarrow> 'h \<times> response" where
  "serve_membership_self hs m user membership h =
     with_user user h (\<lambda>u. membership_room m h (\<lambda>room.
       case hs_change_membership hs u room u membership h of
         (h, Some _) \<Rightarrow> (h, json_ok_response (room_id_body (room_as_str room)))
       | (h, None) \<Rightarrow> (h, error_response 403 (me_forbidden ''membership change not permitted''))))"

definition membership_target :: "string option \<Rightarrow> user_id option" where
  "membership_target content =
     Option.bind content (\<lambda>b. Option.bind (json_parse_ok b) (\<lambda>j.
     Option.bind (Option.bind (json_get j ''user_id'') as_str) (\<lambda>u. ok (user_id_parse u))))"

definition serve_membership_target ::
  "'h homeserver \<Rightarrow> route_match \<Rightarrow> user_id option \<Rightarrow> request \<Rightarrow> string \<Rightarrow> 'h \<Rightarrow> 'h \<times> response" where
  "serve_membership_target hs m user req membership h =
     with_user user h (\<lambda>u. membership_room m h (\<lambda>room.
       case membership_target (rq_body req) of
         None \<Rightarrow> (h, bad_json ''missing or invalid user_id'')
       | Some t \<Rightarrow>
           (case hs_change_membership hs u room t membership h of
              (h, Some _) \<Rightarrow> (h, json_ok_response ''{}'')
            | (h, None) \<Rightarrow> (h, error_response 403 (me_forbidden ''membership change not permitted'')))))"

definition room_of_path :: "route_match \<Rightarrow> 'h \<Rightarrow> (room_id \<Rightarrow> 'h \<times> response) \<Rightarrow> 'h \<times> response" where
  "room_of_path m h k = with_param m ''roomId'' h (\<lambda>r. with_room_id r h k)"

definition serve_messages :: "'h homeserver \<Rightarrow> route_match \<Rightarrow> 'h \<Rightarrow> 'h \<times> response" where
  "serve_messages hs m h = room_of_path m h (\<lambda>room. (h, json_ok_response (messages_body (hs_room_timeline hs h room))))"

definition serve_event :: "'h homeserver \<Rightarrow> route_match \<Rightarrow> 'h \<Rightarrow> 'h \<times> response" where
  "serve_event hs m h =
     with_param m ''roomId'' h (\<lambda>r. with_param m ''eventId'' h (\<lambda>eid. with_room_id r h (\<lambda>room.
       (h, case List.find (\<lambda>p. event_as_str (event_id p) = eid) (hs_room_timeline hs h room) of
             Some p \<Rightarrow> json_ok_response (json_write (pdu_to_json p))
           | None \<Rightarrow> error_response 404 (me_not_found ''event not found'')))))"

definition serve_room_state :: "'h homeserver \<Rightarrow> route_match \<Rightarrow> 'h \<Rightarrow> 'h \<times> response" where
  "serve_room_state hs m h =
     room_of_path m h (\<lambda>room. (h, json_ok_response (json_write (JArray (map pdu_to_json (hs_room_state hs h room))))))"

definition serve_members :: "'h homeserver \<Rightarrow> route_match \<Rightarrow> 'h \<Rightarrow> 'h \<times> response" where
  "serve_members hs m h =
     room_of_path m h (\<lambda>room.
       (h, json_ok_response (json_write (JObject (bt_insert ''chunk''
             (JArray (map pdu_to_json (filter (\<lambda>p. kind p = ROOM_MEMBER) (hs_room_state hs h room)))) [])))))"

definition member_profile :: "json \<Rightarrow> (string, json) btree" where
  "member_profile content =
     fold (\<lambda>field profile. case Option.bind (json_get content field) as_str of
         Some value \<Rightarrow> bt_insert field (JString value) profile
       | None \<Rightarrow> profile) [''displayname'', ''avatar_url''] []"

definition joined_member :: "pdu \<Rightarrow> (string, json) btree \<Rightarrow> (string, json) btree" where
  "joined_member p js =
     (if kind p \<noteq> ROOM_MEMBER then js
      else case state_key p of None \<Rightarrow> js | Some user_id \<Rightarrow>
     (case json_parse_ok (content_json p) of None \<Rightarrow> js | Some content \<Rightarrow>
        if Option.bind (json_get content ''membership'') as_str \<noteq> Some ''join'' then js
        else bt_insert user_id (JObject (member_profile content)) js))"

definition serve_joined_members :: "'h homeserver \<Rightarrow> route_match \<Rightarrow> 'h \<Rightarrow> 'h \<times> response" where
  "serve_joined_members hs m h =
     room_of_path m h (\<lambda>room.
       (h, json_ok_response (json_write (JObject (bt_insert ''joined''
             (JObject (fold joined_member (hs_room_state hs h room) [])) [])))))"

definition serve_state_event :: "'h homeserver \<Rightarrow> route_match \<Rightarrow> 'h \<Rightarrow> 'h \<times> response" where
  "serve_state_event hs m h =
     with_param m ''roomId'' h (\<lambda>r. with_param m ''eventType'' h (\<lambda>event_type.
       let sk = (case param m ''stateKey'' of Some s \<Rightarrow> s | None \<Rightarrow> []) in
       with_room_id r h (\<lambda>room.
         (h, case hs_room_state_content hs h room event_type sk of
               Some content \<Rightarrow> json_ok_response content
             | None \<Rightarrow> error_response 404 (me_not_found ''state event not found'')))))"

definition serve_sync :: "'h homeserver \<Rightarrow> user_id option \<Rightarrow> request \<Rightarrow> 'h \<Rightarrow> 'h \<times> response" where
  "serve_sync hs user req h =
     with_user user h (\<lambda>u.
       case hs_sync hs u (query_param (rq_target req) ''since'') h of (h, view) \<Rightarrow> (h, json_ok_response (sync_body view)))"

subsection \<open>Federation\<close>

definition serve_federation_send :: "'h homeserver \<Rightarrow> request \<Rightarrow> 'h \<Rightarrow> 'h \<times> response" where
  "serve_federation_send hs req h =
     (case json_parse (case rq_body req of Some b \<Rightarrow> b | None \<Rightarrow> []) of
        Inr (JObject o') \<Rightarrow>
          (case hs_receive_transaction hs (JObject o') h of (h, answer) \<Rightarrow> (h, json_ok_response (json_write answer)))
      | Inr _ \<Rightarrow> (h, bad_json ''transaction must be an object'')
      | Inl _ \<Rightarrow> (h, not_json ''body is not JSON''))"

definition serve_federation_state :: "'h homeserver \<Rightarrow> route_match \<Rightarrow> 'h \<Rightarrow> 'h \<times> response" where
  "serve_federation_state hs m h =
     room_of_path m h (\<lambda>room.
       let obj = bt_insert ''pdus'' (JArray (map pdu_to_json (hs_room_state hs h room))) []
       in (h, json_ok_response (json_write (JObject (bt_insert ''auth_chain'' (JArray []) obj)))))"

definition serve_federation_state_ids :: "'h homeserver \<Rightarrow> route_match \<Rightarrow> 'h \<Rightarrow> 'h \<times> response" where
  "serve_federation_state_ids hs m h =
     room_of_path m h (\<lambda>room. (h, json_ok_response (json_write (hs_state_ids hs h room))))"

definition serve_federation_event :: "'h homeserver \<Rightarrow> route_match \<Rightarrow> 'h \<Rightarrow> 'h \<times> response" where
  "serve_federation_event hs m h =
     with_param m ''eventId'' h (\<lambda>eid.
       case hs_event_transaction hs eid h of
         (h, Some txn) \<Rightarrow> (h, json_ok_response (json_write txn))
       | (h, None) \<Rightarrow> (h, error_response 404 (me_not_found ''event not found'')))"

definition serve_federation_backfill :: "'h homeserver \<Rightarrow> route_match \<Rightarrow> request \<Rightarrow> 'h \<Rightarrow> 'h \<times> response" where
  "serve_federation_backfill hs m req h =
     room_of_path m h (\<lambda>room.
       let from_ids = query_params_all (rq_target req) ''v'';
           limit = (case Option.bind (query_param (rq_target req) ''limit'') (parse_uint (2 ^ 64 - 1)) of
                      Some n \<Rightarrow> n | None \<Rightarrow> 10)
       in (h, json_ok_response (json_write (JObject (bt_insert ''pdus''
                (JArray (map pdu_to_json (hs_backfill hs h room from_ids limit))) [])))))"

definition device_obj :: "string \<times> string \<Rightarrow> json" where
  "device_obj dk =
     (let d = bt_insert ''device_id'' (JString (fst dk)) []
      in JObject (bt_insert ''keys'' (case json_parse_ok (snd dk) of Some k \<Rightarrow> k | None \<Rightarrow> JObject []) d))"

definition serve_user_devices :: "'h homeserver \<Rightarrow> route_match \<Rightarrow> 'h \<Rightarrow> 'h \<times> response" where
  "serve_user_devices hs m h =
     with_param m ''userId'' h (\<lambda>s. with_user_id s h (\<lambda>user.
       let obj = bt_insert ''user_id'' (JString (user_as_str user)) [];
           obj = bt_insert ''stream_id'' (JNumber (f64_of_nat 0)) obj
       in (h, json_ok_response (json_write (JObject (bt_insert ''devices''
                (JArray (map device_obj (hs_device_keys_of hs h user))) obj))))))"

end
