(* ===== verification/IngressKeys.thy ===== *)
theory IngressKeys
  imports IngressServe
begin

section \<open>End-to-end key handlers, authentication and dispatch (gm-http, ingress.rs)\<close>

text \<open>
  The relay of device, one-time and cross-signing keys, the login, the authentication of a matched
  route, and \<open>handle\<close>, which resolves, authenticates and dispatches a request.
\<close>

subsection \<open>Keys\<close>

text \<open>Device keys that carry a signature of their own device must be signed by its key.\<close>

definition device_keys_signed :: "json \<Rightarrow> bool" where
  "device_keys_signed device_keys =
     (case (Option.bind (json_get device_keys ''user_id'') as_str, Option.bind (json_get device_keys ''device_id'') as_str) of
        (Some user_id, Some dev) \<Rightarrow>
          (let key_id = ''ed25519:'' @ dev in
           if has_signature device_keys user_id key_id then
             (let pk = (case Option.bind (Option.bind (json_get device_keys ''keys'') (\<lambda>k. json_get k key_id)) as_str of
                          Some k \<Rightarrow> k | None \<Rightarrow> [])
              in signed_json_verifies device_keys user_id key_id pk)
           else True)
      | _ \<Rightarrow> True)"

definition invalid_signature :: "string \<Rightarrow> response" where
  "invalid_signature msg = error_response 400 (matrix_error_new ''M_INVALID_SIGNATURE'' msg)"

definition uploaded_device_id :: "(string, json) btree \<Rightarrow> string" where
  "uploaded_device_id content =
     (case Option.bind (Option.bind (map_of content ''device_keys'') (\<lambda>d. json_get d ''device_id'')) as_str of
        Some d \<Rightarrow> d | None \<Rightarrow> ''default'')"

definition uploaded_one_time_keys :: "(string, json) btree \<Rightarrow> (string \<times> string) list" where
  "uploaded_one_time_keys content =
     (case map_of content ''one_time_keys'' of
        Some (JObject otk) \<Rightarrow> map (\<lambda>(key_id, value). (key_id, json_write value)) otk
      | _ \<Rightarrow> [])"

definition counts_obj :: "(string \<times> u32) list \<Rightarrow> (string, json) btree" where
  "counts_obj totals = bt_of_list (map (\<lambda>(alg, n). (alg, JNumber (f64_of_nat (unat n)))) totals)"

definition serve_keys_upload :: "'h homeserver \<Rightarrow> user_id option \<Rightarrow> request \<Rightarrow> 'h \<Rightarrow> 'h \<times> response" where
  "serve_keys_upload hs user req h =
     with_user user h (\<lambda>u. with_object (rq_body req) ''{}'' h (\<lambda>content.
       let device_id = uploaded_device_id content in
       if (case map_of content ''device_keys'' of Some dk \<Rightarrow> \<not> device_keys_signed dk | None \<Rightarrow> False)
       then (h, invalid_signature ''device key self-signature does not verify'')
       else
         (let h = (case map_of content ''device_keys'' of
                     Some dk \<Rightarrow> hs_store_device_keys hs u device_id (json_write dk) h
                   | None \<Rightarrow> h)
          in case hs_store_one_time_keys hs u device_id (uploaded_one_time_keys content) h of
               (h, totals) \<Rightarrow>
                 (h, json_ok_response (json_write (JObject
                       (bt_insert ''one_time_key_counts'' (JObject (counts_obj totals)) [])))))))"

record key_maps =
  km_device :: "(string, json) btree"
  km_master :: "(string, json) btree"
  km_self_signing :: "(string, json) btree"
  km_user_signing :: "(string, json) btree"

definition parsed_devices :: "(string \<times> string) list \<Rightarrow> (string, json) btree" where
  "parsed_devices dks =
     fold (\<lambda>(device, keys_json) m. case json_parse_ok keys_json of
         Some k \<Rightarrow> bt_insert device k m | None \<Rightarrow> m) dks []"

definition route_signing_key :: "string \<Rightarrow> string \<times> string \<Rightarrow> key_maps \<Rightarrow> key_maps" where
  "route_signing_key user_id uk km =
     (case json_parse_ok (snd uk) of
        None \<Rightarrow> km
      | Some key \<Rightarrow>
          if fst uk = ''master'' then km\<lparr>km_master := bt_insert user_id key (km_master km)\<rparr>
          else if fst uk = ''self_signing'' then km\<lparr>km_self_signing := bt_insert user_id key (km_self_signing km)\<rparr>
          else if fst uk = ''user_signing'' then km\<lparr>km_user_signing := bt_insert user_id key (km_user_signing km)\<rparr>
          else km)"

definition query_user :: "'h homeserver \<Rightarrow> 'h \<Rightarrow> string \<Rightarrow> key_maps \<Rightarrow> key_maps" where
  "query_user hs h user_id km =
     (case user_id_parse user_id of
        Inl _ \<Rightarrow> km
      | Inr user \<Rightarrow>
          fold (route_signing_key user_id) (hs_cross_signing_keys_of hs h user)
            (km\<lparr>km_device := bt_insert user_id (JObject (parsed_devices (hs_device_keys_of hs h user))) (km_device km)\<rparr>))"

definition key_maps_body :: "key_maps \<Rightarrow> string" where
  "key_maps_body km =
     (let obj = bt_insert ''device_keys'' (JObject (km_device km)) [];
          obj = bt_insert ''master_keys'' (JObject (km_master km)) obj;
          obj = bt_insert ''self_signing_keys'' (JObject (km_self_signing km)) obj
      in json_write (JObject (bt_insert ''user_signing_keys'' (JObject (km_user_signing km)) obj)))"

definition serve_keys_query :: "'h homeserver \<Rightarrow> request \<Rightarrow> 'h \<Rightarrow> 'h \<times> response" where
  "serve_keys_query hs req h =
     with_object (rq_body req) ''{}'' h (\<lambda>content.
       let none = \<lparr>km_device = [], km_master = [], km_self_signing = [], km_user_signing = []\<rparr>;
           km = (case map_of content ''device_keys'' of
                   Some (JObject requested) \<Rightarrow> fold (query_user hs h) (map fst requested) none
                 | _ \<Rightarrow> none)
       in (h, json_ok_response (key_maps_body km)))"

text \<open>The loop over the three fields: a bad signature returns early, after the keys stored before it.\<close>

definition signing_fields :: "(string \<times> string) list" where
  "signing_fields = [(''master_key'', ''master''), (''self_signing_key'', ''self_signing''), (''user_signing_key'', ''user_signing'')]"

definition subordinate_refused :: "user_id \<Rightarrow> string option \<Rightarrow> string \<Rightarrow> json \<Rightarrow> bool" where
  "subordinate_refused user master_public fld key =
     (fld \<noteq> ''master_key'' \<and>
      (case master_public of
         None \<Rightarrow> False
       | Some pk \<Rightarrow>
           (let key_id = ''ed25519:'' @ pk
            in has_signature key (user_as_str user) key_id \<and> \<not> signed_json_verifies key (user_as_str user) key_id pk)))"

fun upload_signing_keys ::
  "'h homeserver \<Rightarrow> user_id \<Rightarrow> string option \<Rightarrow> (string, json) btree \<Rightarrow> (string \<times> string) list \<Rightarrow> 'h \<Rightarrow> 'h \<times> response" where
  "upload_signing_keys hs u master_public content [] h = (h, json_ok_response ''{}'')"
| "upload_signing_keys hs u master_public content ((fld, usage) # fs) h =
     (case map_of content fld of
        None \<Rightarrow> upload_signing_keys hs u master_public content fs h
      | Some key \<Rightarrow>
          if subordinate_refused u master_public fld key
          then (h, invalid_signature ''cross-signing key is not validly signed by the master key'')
          else upload_signing_keys hs u master_public content fs (hs_store_cross_signing_key hs u usage (json_write key) h))"

definition serve_device_signing_upload :: "'h homeserver \<Rightarrow> user_id option \<Rightarrow> request \<Rightarrow> 'h \<Rightarrow> 'h \<times> response" where
  "serve_device_signing_upload hs user req h =
     with_user user h (\<lambda>u. with_object (rq_body req) ''{}'' h (\<lambda>content.
       upload_signing_keys hs u (Option.bind (map_of content ''master_key'') cross_signing_public) content signing_fields h))"

fun claim_devices ::
  "'h homeserver \<Rightarrow> user_id \<Rightarrow> (string \<times> json) list \<Rightarrow> (string, json) btree \<Rightarrow> 'h \<Rightarrow> 'h \<times> (string, json) btree" where
  "claim_devices hs user [] acc h = (h, acc)"
| "claim_devices hs user ((device, algorithm) # rest) acc h =
     (case as_str algorithm of
        None \<Rightarrow> claim_devices hs user rest acc h
      | Some alg \<Rightarrow>
          (case hs_claim_one_time_key hs user device alg h of
             (h, None) \<Rightarrow> claim_devices hs user rest acc h
           | (h, Some (key_id, key_json)) \<Rightarrow>
               (case json_parse_ok key_json of
                  None \<Rightarrow> claim_devices hs user rest acc h
                | Some key \<Rightarrow> claim_devices hs user rest (bt_insert device (JObject (bt_insert key_id key [])) acc) h)))"

fun claim_users ::
  "'h homeserver \<Rightarrow> (string \<times> json) list \<Rightarrow> (string, json) btree \<Rightarrow> 'h \<Rightarrow> 'h \<times> (string, json) btree" where
  "claim_users hs [] acc h = (h, acc)"
| "claim_users hs ((user_id, devices) # rest) acc h =
     (case (user_id_parse user_id, devices) of
        (Inr user, JObject ds) \<Rightarrow>
          (case claim_devices hs user ds [] h of
             (h, by_device) \<Rightarrow>
               claim_users hs rest (if by_device = [] then acc else bt_insert user_id (JObject by_device) acc) h)
      | _ \<Rightarrow> claim_users hs rest acc h)"

definition serve_keys_claim :: "'h homeserver \<Rightarrow> request \<Rightarrow> 'h \<Rightarrow> 'h \<times> response" where
  "serve_keys_claim hs req h =
     with_object (rq_body req) ''{}'' h (\<lambda>content.
       case (case map_of content ''one_time_keys'' of
               Some (JObject requested) \<Rightarrow> claim_users hs requested [] h
             | _ \<Rightarrow> (h, [])) of
         (h, claimed) \<Rightarrow>
           (h, json_ok_response (json_write (JObject (bt_insert ''one_time_keys'' (JObject claimed) [])))))"

subsection \<open>Login\<close>

definition login_user :: "json \<Rightarrow> string option" where
  "login_user parsed =
     Option.bind (case Option.bind (json_get parsed ''identifier'') (\<lambda>i. json_get i ''user'') of
         Some u \<Rightarrow> Some u
       | None \<Rightarrow> json_get parsed ''user'') as_str"

definition serve_login :: "'h homeserver \<Rightarrow> request \<Rightarrow> 'h \<Rightarrow> 'h \<times> response" where
  "serve_login hs req h =
     (case rq_body req of
        None \<Rightarrow> (h, not_json ''missing request body'')
      | Some b \<Rightarrow>
     (case json_parse b of
        Inl _ \<Rightarrow> (h, not_json ''request body is not JSON'')
      | Inr parsed \<Rightarrow>
          if Option.bind (json_get parsed ''type'') as_str \<noteq> Some ''m.login.password''
          then (h, error_response 400 (matrix_error_new ''M_UNKNOWN'' ''unsupported login type''))
          else (case (login_user parsed, Option.bind (json_get parsed ''password'') as_str) of
                  (Some user, Some password) \<Rightarrow>
                    (case hs_password_login hs user password h of
                       (h, Some grant) \<Rightarrow> (h, json_ok_response (login_response grant))
                     | (h, None) \<Rightarrow> (h, error_response 403 (me_forbidden ''invalid username or password'')))
                | _ \<Rightarrow> (h, bad_json ''missing user or password''))))"

subsection \<open>Authentication and dispatch\<close>

definition authenticate :: "'h homeserver \<Rightarrow> route_match \<Rightarrow> request \<Rightarrow> 'h \<Rightarrow> 'h \<times> (response + user_id option)" where
  "authenticate hs m req h =
     (case ep_auth (rm_endpoint m) of
        NoAuth \<Rightarrow> (h, Inr None)
      | AppserviceAuth \<Rightarrow> (h, Inr None)
      | AccessToken \<Rightarrow>
          (h, case access_token (rq_authorization req) (rq_target req) of
                None \<Rightarrow> Inl (error_response 401 (me_missing_token ''missing access token''))
              | Some token \<Rightarrow>
                  (case hs_user_for hs h token of
                     Some user \<Rightarrow> Inr (Some user)
                   | None \<Rightarrow> Inl (error_response 401 (me_unknown_token ''unrecognized access token''))))
      | FederationAuth \<Rightarrow>
          (case hs_verify_federation_request hs (method_name (rq_method req)) (rq_target req) (rq_body req)
                  (rq_authorization req) h of
             (h, verified) \<Rightarrow>
               (h, if verified then Inr None
                   else Inl (error_response 401 (matrix_error_new ''M_UNAUTHORIZED'' ''invalid federation signature'')))))"

definition serve :: "'h homeserver \<Rightarrow> route_match \<Rightarrow> user_id option \<Rightarrow> request \<Rightarrow> 'h \<Rightarrow> 'h \<times> response" where
  "serve hs m user req h =
    (let mt = ep_method (rm_endpoint m); path = ep_path (rm_endpoint m) in
     if mt = Get \<and> path = ''/_matrix/client/versions'' then (h, json_ok_response versions_body)
     else if mt = Get \<and> path = ''/_matrix/client/v3/login'' then (h, json_ok_response login_flows_body)
     else if mt = Post \<and> path = ''/_matrix/client/v3/login'' then serve_login hs req h
     else if mt = Get \<and> path = ''/_matrix/client/v3/account/whoami'' then
       with_user user h (\<lambda>u. (h, json_ok_response (whoami_body u)))
     else if mt = Get \<and> path = ''/_matrix/client/v3/rooms/{roomId}/state'' then serve_room_state hs m h
     else if mt = Get \<and> path = ''/_matrix/client/v3/rooms/{roomId}/members'' then serve_members hs m h
     else if mt = Get \<and> path = ''/_matrix/client/v3/rooms/{roomId}/joined_members'' then serve_joined_members hs m h
     else if mt = Get \<and> (path = ''/_matrix/client/v3/rooms/{roomId}/state/{eventType}/{stateKey}'' \<or>
                         path = ''/_matrix/client/v3/rooms/{roomId}/state/{eventType}'') then serve_state_event hs m h
     else if mt = Put \<and> path = ''/_matrix/client/v3/rooms/{roomId}/send/{eventType}/{txnId}'' then serve_send hs m user req h
     else if mt = Put \<and> path = ''/_matrix/client/v3/rooms/{roomId}/typing/{userId}'' then serve_typing hs m user req h
     else if mt = Post \<and> path = ''/_matrix/client/v3/rooms/{roomId}/receipt/{receiptType}/{eventId}'' then
       serve_receipt hs m user h
     else if mt = Put \<and> path = ''/_matrix/client/v3/presence/{userId}/status'' then serve_set_presence hs m user req h
     else if mt = Get \<and> path = ''/_matrix/client/v3/presence/{userId}/status'' then serve_get_presence hs m h
     else if mt = Get \<and> path = ''/_matrix/client/v3/rooms/{roomId}/messages'' then serve_messages hs m h
     else if mt = Get \<and> path = ''/_matrix/client/v3/rooms/{roomId}/event/{eventId}'' then serve_event hs m h
     else if mt = Post \<and> path = ''/_matrix/client/v3/rooms/{roomId}/join'' then serve_membership_self hs m user ''join'' h
     else if mt = Post \<and> path = ''/_matrix/client/v3/rooms/{roomId}/leave'' then serve_membership_self hs m user ''leave'' h
     else if mt = Post \<and> path = ''/_matrix/client/v3/rooms/{roomId}/invite'' then
       serve_membership_target hs m user req ''invite'' h
     else if mt = Post \<and> path = ''/_matrix/client/v3/rooms/{roomId}/kick'' then
       serve_membership_target hs m user req ''leave'' h
     else if mt = Post \<and> path = ''/_matrix/client/v3/rooms/{roomId}/ban'' then
       serve_membership_target hs m user req ''ban'' h
     else if mt = Post \<and> path = ''/_matrix/client/v3/createRoom'' then serve_create_room hs user req h
     else if mt = Post \<and> path = ''/_matrix/client/v3/keys/upload'' then serve_keys_upload hs user req h
     else if mt = Post \<and> path = ''/_matrix/client/v3/keys/query'' then serve_keys_query hs req h
     else if mt = Post \<and> path = ''/_matrix/client/v3/keys/claim'' then serve_keys_claim hs req h
     else if mt = Post \<and> path = ''/_matrix/client/v3/keys/device_signing/upload'' then
       serve_device_signing_upload hs user req h
     else if mt = Get \<and> path = ''/_matrix/client/v3/sync'' then serve_sync hs user req h
     else if mt = Get \<and> path = ''/_matrix/key/v2/server'' then
       (case hs_server_keys hs h of (h, doc) \<Rightarrow> (h, json_ok_response (json_write doc)))
     else if mt = Put \<and> path = ''/_matrix/federation/v1/send/{txnId}'' then serve_federation_send hs req h
     else if mt = Get \<and> path = ''/_matrix/federation/v1/state/{roomId}'' then serve_federation_state hs m h
     else if mt = Get \<and> path = ''/_matrix/federation/v1/state_ids/{roomId}'' then serve_federation_state_ids hs m h
     else if mt = Get \<and> path = ''/_matrix/federation/v1/event/{eventId}'' then serve_federation_event hs m h
     else if mt = Get \<and> path = ''/_matrix/federation/v1/backfill/{roomId}'' then serve_federation_backfill hs m req h
     else if mt = Get \<and> path = ''/_matrix/federation/v1/user/devices/{userId}'' then serve_user_devices hs m h
     else (h, error_response 501 (me_unrecognized ''endpoint not yet implemented'')))"

record 'h ingress =
  ig_router :: "endpoint list"
  ig_server :: "'h homeserver"

definition ingress_new :: "unit ingress" where
  "ingress_new = \<lparr>ig_router = SURFACE, ig_server = no_server\<rparr>"

definition with_server :: "'h homeserver \<Rightarrow> 'h ingress" where
  "with_server hs = \<lparr>ig_router = SURFACE, ig_server = hs\<rparr>"

definition handle :: "'h ingress \<Rightarrow> request \<Rightarrow> 'h \<Rightarrow> 'h \<times> response" where
  "handle ig req h =
     (case resolve_route (ig_router ig) (rq_method req) (rq_target req) of
        Found m \<Rightarrow>
          (case authenticate (ig_server ig) m req h of
             (h, Inl resp) \<Rightarrow> (h, resp)
           | (h, Inr user) \<Rightarrow> serve (ig_server ig) m user req h)
      | MethodNotAllowed allowed \<Rightarrow>
          (let resp = error_response 405 (me_unrecognized ''method not allowed for this endpoint'')
           in (h, resp\<lparr>rs_headers := rs_headers resp @ [(''Allow'', allow_header allowed)]\<rparr>))
      | NotFound \<Rightarrow> (h, error_response 404 (me_unrecognized ''unrecognized request'')))"

definition dispatch :: "'h ingress \<Rightarrow> http_method \<Rightarrow> string \<Rightarrow> 'h \<Rightarrow> 'h \<times> response" where
  "dispatch ig m target h = handle ig (request_new m target) h"

end
