(* ===== verification/Lossy.thy ===== *)
theory Lossy
  imports Utf8
begin

section \<open>Lossy decoding of UTF-8\<close>

text \<open>
  \<open>String::from_utf8_lossy\<close>, by which the transport reads bodies and the file store reads the names of
  its files.  On valid text it is the identity.
\<close>

definition lossy_second :: "nat \<Rightarrow> nat \<Rightarrow> bool" where
  "lossy_second b0 b1 \<longleftrightarrow>
     (if b0 = 224 then 160 \<le> b1 \<and> b1 \<le> 191
      else if b0 = 237 then 128 \<le> b1 \<and> b1 \<le> 159
      else if b0 = 240 then 144 \<le> b1 \<and> b1 \<le> 191
      else if b0 = 244 then 128 \<le> b1 \<and> b1 \<le> 143
      else cont b1)"

text \<open>The length of the character, or of the malformed sequence, at the head of a text.\<close>

definition lossy_step :: "nat \<Rightarrow> nat \<Rightarrow> nat \<Rightarrow> nat \<Rightarrow> nat \<times> bool" where
  "lossy_step b0 b1 b2 b3 =
     (if b0 < 128 then (1, True)
      else if 194 \<le> b0 \<and> b0 < 224 then (if cont b1 then (2, True) else (1, False))
      else if 224 \<le> b0 \<and> b0 < 240 then
        (if \<not> lossy_second b0 b1 then (1, False) else if \<not> cont b2 then (2, False) else (3, True))
      else if 240 \<le> b0 \<and> b0 < 245 then
        (if \<not> lossy_second b0 b1 then (1, False) else if \<not> cont b2 then (2, False)
         else if \<not> cont b3 then (3, False) else (4, True))
      else (1, False))"

definition byte_at :: "string \<Rightarrow> nat \<Rightarrow> nat" where
  "byte_at s i = (if i < length s then ch (s ! i) else 0)"

lemma lossy_step_pos: "0 < fst (lossy_step a b c d)"
  by (simp add: lossy_step_def)

lemma lossy_step_eq_pos: "lossy_step a b c d = (n, valid) \<Longrightarrow> 0 < n"
  using lossy_step_pos [of a b c d] by simp

text \<open>\<open>String::from_utf8_lossy\<close>: a malformed sequence becomes the replacement character.\<close>

function utf8_lossy :: "string \<Rightarrow> string" where
  "utf8_lossy s =
     (if s = [] then []
      else let (n, valid) = lossy_step (byte_at s 0) (byte_at s 1) (byte_at s 2) (byte_at s 3)
           in (if valid then take n s else utf8_encode 0xFFFD) @ utf8_lossy (drop n s))"
  by pat_completeness auto

termination
  by (relation "measure length", simp, drule sym) (auto dest: lossy_step_eq_pos)

declare utf8_lossy.simps [simp del]

subsection \<open>The lossy decoder on valid text\<close>

lemma byte_at_simps [simp]: "byte_at (c # s) 0 = ch c" "byte_at (c # s) (Suc i) = byte_at s i"
  by (simp_all add: byte_at_def)

lemma byte_at_numerals [simp]: "byte_at (c # s) 1 = byte_at s 0" "byte_at (c # s) 2 = byte_at s 1" "byte_at (c # s) 3 = byte_at s 2"
  by (simp_all add: byte_at_def numeral_eq_Suc)

lemma lossy_step_3:
  "p < 16 \<Longrightarrow> q < 64 \<Longrightarrow> r < 64 \<Longrightarrow> c = p * 4096 + q * 64 + r \<Longrightarrow> 2048 \<le> c \<Longrightarrow> scalar c \<Longrightarrow> lossy_step (224 + p) (128 + q) (128 + r) b3 = (3, True)"
  by (auto simp: lossy_step_def lossy_second_def cont_def scalar_def)

lemma lossy_step_4:
  "p < 5 \<Longrightarrow> q < 64 \<Longrightarrow> r < 64 \<Longrightarrow> t < 64 \<Longrightarrow> c = p * 262144 + q * 4096 + r * 64 + t \<Longrightarrow> 65536 \<le> c \<Longrightarrow> scalar c \<Longrightarrow> 
    lossy_step (240 + p) (128 + q) (128 + r) (128 + t) = (4, True)"
  by (auto simp: lossy_step_def lossy_second_def cont_def scalar_def)

lemma lossy_step_encode:
  assumes "scalar c" "s = utf8_encode c @ r"
  shows "lossy_step (byte_at s 0) (byte_at s 1) (byte_at s 2) (byte_at s 3) = (length (utf8_encode c), True)"
proof -
  consider "c < 128" | "128 \<le> c" "c < 2048" | "2048 \<le> c" "c < 65536" | "65536 \<le> c" "c < 1114112"
    using assms(1) unfolding scalar_def by linarith
  then show ?thesis
  proof cases
    case 1
    with assms(2) show ?thesis by (simp add: utf8_encode_def lossy_step_def)
  next
    case 2
    then have "192 + c div 64 < 224" "2 \<le> c div 64" "128 + c mod 64 < 192" by simp_all
    with 2 assms(2) show ?thesis by (simp add: utf8_encode_def lossy_step_def cont_def)
  next
    case 3
    then have b: "c div 4096 < 16" "224 + c div 4096 < 256" "128 + c div 64 mod 64 < 256" "128 + c mod 64 < 256" by simp_all
    have "c = c div 4096 * 4096 + c div 64 mod 64 * 64 + c mod 64" by (rule base64_digits(2) [symmetric])
    from lossy_step_3 [OF b(1) _ _ this 3(1) assms(1)] b 3 assms(2) show ?thesis by (simp add: utf8_encode_def)
  next
    case 4
    then have b: "c div 262144 < 5" "240 + c div 262144 < 256" "128 + c div 4096 mod 64 < 256" "128 + c div 64 mod 64 < 256" "128 + c mod 64 < 256"
      by simp_all
    have "c = c div 262144 * 262144 + c div 4096 mod 64 * 4096 + c div 64 mod 64 * 64 + c mod 64" by (rule base64_digits(3) [symmetric])
    from lossy_step_4 [OF b(1) _ _ _ this 4(1) assms(1)] b 4 assms(2) show ?thesis by (simp add: utf8_encode_def)
  qed
qed

lemma utf8_lossy_valid: 
  assumes "utf8_valid s" shows "utf8_lossy s = s"
proof -
  have "utf8_lossy (utf8_string cs) = utf8_string cs" if "\<forall>c\<in>set cs. scalar c" for cs
    using that
  proof (induction cs)
    case (Cons c cs)
    have "utf8_encode c \<noteq> []" by (simp add: utf8_encode_def)
    with Cons lossy_step_encode [of c _ "utf8_string cs"] show ?case
      by (subst utf8_lossy.simps) (simp add: utf8_string_def)
  qed (simp add: utf8_string_def utf8_lossy.simps)
  with assms show ?thesis by (metis utf8_string_str_chars scalar_str_chars)
qed

end
