(* ===== verification/Transport.thy ===== *)
theory Transport
  imports IngressSafety Lossy
begin

section \<open>The HTTP/1.1 wire format (gm-http, transport.rs)\<close>

text \<open>
  Reading one request off a connection and writing its response, and the client's side: rendering a
  request and parsing the response.  A connection is the list of bytes still to be read; reading it
  fails on a header line that is not UTF-8 and on a body that ends early.  The socket is not modelled; the
  pool of worker threads is theory WorkerPool, whose workers serve a connection by one call of
  \<open>serve_connection\<close>.
\<close>

subsection \<open>Standard-library functions on text\<close>

fun split_where :: "('a \<Rightarrow> bool) \<Rightarrow> 'a list \<Rightarrow> 'a list list" where
  "split_where p [] = [[]]"
| "split_where p (x # xs) =
     (if p x then [] # split_where p xs
      else (case split_where p xs of w # ws \<Rightarrow> (x # w) # ws | [] \<Rightarrow> [[x]]))"

definition split_whitespace :: "string \<Rightarrow> string list" where
  "split_whitespace s = map utf8_string (filter (\<lambda>w. w \<noteq> []) (split_where is_whitespace (str_chars s)))"

definition LF :: char where "LF = CHR 0x0A"
definition CR :: char where "CR = CHR 0x0D"

definition trim_line_end :: "string \<Rightarrow> string" where
  "trim_line_end s = rev (dropWhile (\<lambda>c. c = CR \<or> c = LF) (rev s))"

subsection \<open>Reading a request\<close>

definition MAX_BODY :: nat where
  "MAX_BODY = 1048576"

record parsed_request =
  pr_method :: http_method
  pr_target :: string
  pr_authorization :: "string option"
  pr_body :: string

datatype incoming = Incoming parsed_request | Malformed | Closed

datatype io_error = NotUtf8 | UnexpectedEnd | MalformedStatusLine

definition parse_method :: "string \<Rightarrow> http_method option" where
  "parse_method token =
     (if token = ''GET'' then Some Get
      else if token = ''POST'' then Some Post
      else if token = ''PUT'' then Some Put
      else if token = ''DELETE'' then Some Delete
      else None)"

definition reason :: "nat \<Rightarrow> string" where
  "reason st =
     (if st = 200 then ''OK''
      else if st = 400 then ''Bad Request''
      else if st = 401 then ''Unauthorized''
      else if st = 403 then ''Forbidden''
      else if st = 404 then ''Not Found''
      else if st = 405 then ''Method Not Allowed''
      else if st = 501 then ''Not Implemented''
      else ''OK'')"

text \<open>A line with its terminator, and the rest.\<close>

definition read_line :: "string \<Rightarrow> io_error + string \<times> string" where
  "read_line s =
     (let line = takeWhile (\<lambda>c. c \<noteq> LF) s; rest = dropWhile (\<lambda>c. c \<noteq> LF) s;
          (line, rest) = (case rest of [] \<Rightarrow> (line, []) | c # r \<Rightarrow> (line @ [c], r))
      in if utf8_valid line then Inr (line, rest) else Inl NotUtf8)"

definition header_field :: "string \<Rightarrow> nat \<times> string option \<Rightarrow> nat \<times> string option" where
  "header_field header acc =
     (case split_once (CHR '':'') header of
        None \<Rightarrow> acc
      | Some (name, value) \<Rightarrow>
          (let name = trim name; value = trim value in
           if eq_ignore_ascii_case name ''content-length''
           then (case parse_uint (2 ^ 64 - 1) value of Some n \<Rightarrow> n | None \<Rightarrow> 0, snd acc)
           else if eq_ignore_ascii_case name ''authorization'' then (fst acc, Some value)
           else acc))"

lemma read_line_less: "read_line s = Inr (line, rest) \<Longrightarrow> line \<noteq> [] \<Longrightarrow> length rest < length s"
proof -
  assume "read_line s = Inr (line, rest)" "line \<noteq> []"
  moreover have "length (takeWhile (\<lambda>c. c \<noteq> LF) s) + length (dropWhile (\<lambda>c. c \<noteq> LF) s) = length s"
    by (metis length_append takeWhile_dropWhile_id)
  ultimately show ?thesis by (auto simp: read_line_def Let_def split: list.splits if_splits)
qed

function read_headers :: "string \<Rightarrow> nat \<times> string option \<Rightarrow> io_error + (nat \<times> string option) \<times> string" where
  "read_headers s acc =
     (case read_line s of
        Inl e \<Rightarrow> Inl e
      | Inr (line, rest) \<Rightarrow>
          if line = [] then Inr (acc, rest)
          else (let header = trim_line_end line in
                if header = [] then Inr (acc, rest) else read_headers rest (header_field header acc)))"
  by pat_completeness auto

termination
  by (relation "measure (\<lambda>(s, _). length s)") (auto dest: read_line_less)

declare read_headers.simps [simp del]

definition read_request :: "string \<Rightarrow> io_error + incoming" where
  "read_request s =
     and_then (read_line s) (\<lambda>(request_line, rest).
       if request_line = [] then Inr Closed
       else
         (case split_whitespace request_line of
            method # target # _ \<Rightarrow>
              (case parse_method method of
                 None \<Rightarrow> Inr Malformed
               | Some m \<Rightarrow>
                   and_then (read_headers rest (0, None)) (\<lambda>((content_length, authorization), rest).
                     if MAX_BODY < content_length then Inr Malformed
                     else if length rest < content_length then Inl UnexpectedEnd
                     else Inr (Incoming \<lparr>pr_method = m, pr_target = target, pr_authorization = authorization,
                                 pr_body = utf8_lossy (take content_length rest)\<rparr>)))
          | _ \<Rightarrow> Inr Malformed))"

subsection \<open>Writing a response\<close>

definition CRLF :: string where
  "CRLF = [CR, LF]"

definition header_line :: "string \<times> string \<Rightarrow> string" where
  "header_line h = fst h @ '': '' @ snd h @ CRLF"

definition write_response :: "response \<Rightarrow> string" where
  "write_response r =
     ''HTTP/1.1 '' @ dec (rs_status r) @ '' '' @ reason (rs_status r) @ CRLF @
     concat (map header_line (rs_headers r)) @
     (if list_ex (\<lambda>(name, _). eq_ignore_ascii_case name ''content-length'') (rs_headers r) then []
      else header_line (''Content-Length'', dec (length (rs_body r)))) @
     CRLF @ rs_body r"

definition bad_request :: response where
  "bad_request = \<lparr>rs_status = 400, rs_headers = json_headers,
     rs_body = me_to_json (matrix_error_new ''M_NOT_JSON'' ''malformed HTTP request'')\<rparr>"

definition request_of :: "parsed_request \<Rightarrow> request" where
  "request_of pr =
     \<lparr>rq_method = pr_method pr, rq_target = pr_target pr, rq_authorization = pr_authorization pr,
      rq_body = (if pr_body pr = [] then None else Some (pr_body pr))\<rparr>"

definition respond :: "'h ingress \<Rightarrow> string \<Rightarrow> 'h \<Rightarrow> 'h \<times> string" where
  "respond ig raw h =
     (let (h, r) = (case read_request raw of
          Inr (Incoming pr) \<Rightarrow> handle ig (request_of pr) h
        | _ \<Rightarrow> (h, bad_request))
      in (h, write_response r))"

text \<open>A connection whose request cannot be read is dropped without a response.\<close>

definition serve_connection :: "'h ingress \<Rightarrow> string \<Rightarrow> 'h \<Rightarrow> 'h \<times> (io_error + string)" where
  "serve_connection ig raw h =
     (case read_request raw of
        Inl e \<Rightarrow> (h, Inl e)
      | Inr (Incoming pr) \<Rightarrow> (case handle ig (request_of pr) h of (h, r) \<Rightarrow> (h, Inr (write_response r)))
      | Inr _ \<Rightarrow> (h, Inr (write_response bad_request)))"

subsection \<open>The client\<close>

definition encode_request :: "http_method \<Rightarrow> string \<Rightarrow> string option \<Rightarrow> string option \<Rightarrow> string" where
  "encode_request m target authorization content =
     (let b = (case content of Some b \<Rightarrow> b | None \<Rightarrow> []) in
      method_name m @ '' '' @ target @ '' HTTP/1.1'' @ CRLF @ ''Host: gaussian.tech'' @ CRLF @
      (case authorization of Some a \<Rightarrow> ''Authorization: '' @ a @ CRLF | None \<Rightarrow> []) @
      ''Content-Length: '' @ dec (length b) @ CRLF @ CRLF @ b)"

definition strip_cr :: "string \<Rightarrow> string" where
  "strip_cr s = (if s \<noteq> [] \<and> last s = CR then butlast s else s)"

definition parse_response :: "string \<Rightarrow> io_error + nat \<times> string" where
  "parse_response raw =
     (let text = utf8_lossy raw;
          first_line = strip_cr (takeWhile (\<lambda>c. c \<noteq> LF) text);
          ws = split_whitespace first_line;
          content = (case after_first (CRLF @ CRLF) text of Some r \<Rightarrow> before_first (CRLF @ CRLF) r | None \<Rightarrow> [])
      in case (if length ws < 2 then None else parse_uint 65535 (ws ! 1)) of
           None \<Rightarrow> Inl MalformedStatusLine
         | Some st \<Rightarrow> Inr (st, content))"

definition transaction_target :: "string \<Rightarrow> string" where
  "transaction_target txn_id = ''/_matrix/federation/v1/send/'' @ txn_id"

text \<open>The exchange of \<open>deliver_transaction\<close> with the server at the address.\<close>

definition deliver_transaction :: "'h ingress \<Rightarrow> string \<Rightarrow> string \<Rightarrow> string \<Rightarrow> 'h \<Rightarrow> 'h \<times> (io_error + nat \<times> string)" where
  "deliver_transaction ig txn_id authorization transaction_json h =
     (case serve_connection ig (encode_request Put (transaction_target txn_id) (Some authorization) (Some transaction_json)) h of
        (h, answer) \<Rightarrow> (h, and_then (case answer of Inl _ \<Rightarrow> Inr [] | Inr raw \<Rightarrow> Inr raw) parse_response))"

end
