(* ===== verification/Wire.thy ===== *)
theory Wire
  imports Transport
begin

section \<open>What one side writes, the other side reads\<close>

text \<open>
  A rendered request is read back as it was, and the
  client finds the status and the body of a response, as long as the body contains no empty line of
  its own.
\<close>

subsection \<open>Reading lines and words\<close>

lemma split_where_append:
  "\<forall>x\<in>set w. \<not> p x \<Longrightarrow> p d \<Longrightarrow> split_where p (w @ d # xs) = w # split_where p xs"
  by (induction w) auto

lemma split_where_last: "\<forall>x\<in>set w. \<not> p x \<Longrightarrow> split_where p w = [w]"
  by (induction w) auto

definition word_ok :: "string \<Rightarrow> bool" where
  "word_ok s \<longleftrightarrow> utf8_valid s \<and> s \<noteq> [] \<and> (\<forall>c\<in>set (str_chars s). \<not> is_whitespace c)"

lemma split_whitespace_word:
  assumes "word_ok w" "utf8_valid r"
  shows "split_whitespace (w @ CHR '' '' # r) = w # split_whitespace r"
proof -
  have "str_chars (w @ CHR '' '' # r) = str_chars w @ 32 # str_chars r"
    using assms by (simp add: str_chars_append word_ok_def utf8_valid_Cons_ascii str_chars_Cons_ascii)
  moreover have "str_chars w \<noteq> []" using assms(1) utf8_string_str_chars [of w] by (auto simp: word_ok_def utf8_string_def)
  ultimately show ?thesis
    using assms(1) by (simp add: split_whitespace_def split_where_append word_ok_def is_whitespace_def utf8_string_str_chars)
qed

lemma word_no_space:
  assumes "word_ok w" "ch c < 128" "is_whitespace (ch c)"
  shows "c \<notin> set w"
proof
  assume "c \<in> set w"
  then obtain a b where w: "w = a @ c # b" by (meson split_list)
  then have "utf8_valid a" "utf8_valid b" using assms(1,2) utf8_valid_split [of a c b] by (auto simp: word_ok_def)
  then have "ch c \<in> set (str_chars w)"
    using assms(2) w by (simp add: str_chars_append utf8_valid_Cons_ascii str_chars_Cons_ascii)
  with assms(1,3) show False by (auto simp: word_ok_def)
qed

lemma word_ok_ascii: "ascii s \<Longrightarrow> s \<noteq> [] \<Longrightarrow> list_all (\<lambda>c. \<not> is_whitespace (ch c)) s \<Longrightarrow> word_ok s"
  by (auto simp: word_ok_def ascii_utf8_valid str_chars_ascii list_all_iff)

subsection \<open>Lines\<close>

lemma read_line_LF: "utf8_valid l \<Longrightarrow> LF \<notin> set l \<Longrightarrow> read_line (l @ LF # r) = Inr (l @ [LF], r)"
proof -
  assume l: "utf8_valid l" "LF \<notin> set l"
  then have "\<forall>x\<in>set l. x \<noteq> LF" by auto
  then have "takeWhile (\<lambda>c. c \<noteq> LF) (l @ LF # r) = l" "dropWhile (\<lambda>c. c \<noteq> LF) (l @ LF # r) = LF # r"
    by (simp_all add: takeWhile_append2 dropWhile_append2)
  moreover have "utf8_valid (l @ [LF])" using l by (auto intro!: utf8_valid_append simp: ascii_utf8_valid LF_def)
  ultimately show ?thesis by (simp add: read_line_def)
qed

lemma read_line_CRLF: "utf8_valid l \<Longrightarrow> LF \<notin> set l \<Longrightarrow> read_line (l @ CRLF @ r) = Inr (l @ CRLF, r)"
proof -
  assume "utf8_valid l" "LF \<notin> set l"
  then have "utf8_valid (l @ [CR])" "LF \<notin> set (l @ [CR])"
    by (auto intro!: utf8_valid_append simp: ascii_utf8_valid CR_def LF_def)
  from read_line_LF [OF this, of r] show ?thesis by (simp add: CRLF_def)
qed

lemma trim_line_end_CRLF: "l = [] \<or> last l \<noteq> CR \<and> last l \<noteq> LF \<Longrightarrow> trim_line_end (l @ [CR, LF]) = l"
  by (cases l rule: rev_cases) (auto simp: trim_line_end_def)

lemma read_headers_line:
  assumes "utf8_valid l" "l \<noteq> []" "CR \<notin> set l" "LF \<notin> set l"
  shows "read_headers (l @ CRLF @ r) acc = read_headers r (header_field l acc)"
proof -
  have "read_line (l @ CRLF @ r) = Inr (l @ [CR, LF], r)"
    using read_line_CRLF [OF assms(1,4), of r] by (simp add: CRLF_def)
  moreover have "trim_line_end (l @ [CR, LF]) = l" using assms by (intro trim_line_end_CRLF) (metis last_in_set)
  ultimately show ?thesis using assms(2) by (subst read_headers.simps) simp
qed

lemma read_headers_end: "read_headers (CRLF @ r) acc = Inr (acc, r)"
proof -
  have "read_line (CRLF @ r) = Inr ([CR, LF], r)"
    using read_line_CRLF [of "[]" r] by (simp add: CRLF_def)
  then show ?thesis by (subst read_headers.simps) (simp add: trim_line_end_def)
qed

subsection \<open>The header fields of a rendered request\<close>

definition value_ok :: "string \<Rightarrow> bool" where
  "value_ok a \<longleftrightarrow> utf8_valid a \<and> CR \<notin> set a \<and> LF \<notin> set a \<and> trim a = a"

lemma trim_space: "utf8_valid a \<Longrightarrow> trim (CHR '' '' # a) = trim a"
  by (simp add: trim_def trim_start_def str_chars_Cons_ascii is_whitespace_def)

lemma trim_word: "word_ok w \<Longrightarrow> trim w = w"
  by (rule trim_id) (auto simp: word_ok_def)

lemma word_ok_dec: "word_ok (dec n)"
proof (rule word_ok_ascii)
  have "\<forall>c\<in>set (dec n). 48 \<le> ch c \<and> ch c < 58"
    using dec_digits [of _ n] by blast
  then show "ascii (dec n)" "list_all (\<lambda>c. \<not> is_whitespace (ch c)) (dec n)"
    by (auto simp: ascii_def list_all_iff is_whitespace_def)
qed (rule dec_not_Nil)

lemma field_names_differ:
  "eq_ignore_ascii_case ''Host'' ''content-length'' = False" "eq_ignore_ascii_case ''Host'' ''authorization'' = False"
  "eq_ignore_ascii_case ''Authorization'' ''content-length'' = False" "eq_ignore_ascii_case ''Authorization'' ''authorization'' = True"
  "eq_ignore_ascii_case ''Content-Length'' ''content-length'' = True"
  by code_simp+

lemma trim_names: "trim ''Host'' = ''Host''" "trim ''Authorization'' = ''Authorization''" "trim ''Content-Length'' = ''Content-Length''"
  by (rule trim_word, rule word_ok_ascii, simp_all add: is_whitespace_def)+

lemma header_field_host: "header_field ''Host: gaussian.tech'' acc = acc"
  by (simp add: header_field_def trim_names field_names_differ)

lemma header_field_authorization: "value_ok a \<Longrightarrow> header_field (''Authorization: '' @ a) acc = (fst acc, Some a)"
  by (simp add: header_field_def trim_names field_names_differ trim_space value_ok_def)

lemma header_field_length: "n \<le> MAX_BODY \<Longrightarrow> header_field (''Content-Length: '' @ dec n) acc = (n, snd acc)"
  using word_ok_dec [of n]
  by (simp add: header_field_def trim_names field_names_differ trim_space trim_word MAX_BODY_def word_ok_def)

lemma line_texts:
  "utf8_valid a \<Longrightarrow> CR \<notin> set a \<Longrightarrow> LF \<notin> set a \<Longrightarrow> l \<in> {''Host: gaussian.tech'', ''Authorization: '' @ a, ''Content-Length: '' @ a} \<Longrightarrow>
   utf8_valid l \<and> l \<noteq> [] \<and> CR \<notin> set l \<and> LF \<notin> set l"
  by (auto simp: CR_def LF_def utf8_valid_Cons_ascii)

lemma dec_no_line_end: "CR \<notin> set (dec n)" "LF \<notin> set (dec n)"
  using dec_digits [of CR n] dec_digits [of LF n] by (auto simp: CR_def LF_def)

lemma read_rendered_headers:
  assumes "case authorization of Some a \<Rightarrow> value_ok a | None \<Rightarrow> True" "n \<le> MAX_BODY"
  shows "read_headers (''Host: gaussian.tech'' @ CRLF @
      (case authorization of Some a \<Rightarrow> ''Authorization: '' @ a @ CRLF | None \<Rightarrow> []) @
      ''Content-Length: '' @ dec n @ CRLF @ CRLF @ b) (0, None) = Inr ((n, authorization), b)"
proof -
  have len: "read_headers ((''Content-Length: '' @ dec n) @ CRLF @ CRLF @ b) acc = Inr ((n, snd acc), b)" for acc
    using line_texts [of "dec n" "''Content-Length: '' @ dec n"] word_ok_dec [of n] dec_no_line_end assms(2)
    by (subst read_headers_line) (auto simp: header_field_length read_headers_end word_ok_def simp del: append.simps)
  have auth: "read_headers ((''Authorization: '' @ a) @ CRLF @ r) acc = read_headers r (fst acc, Some a)" if "value_ok a" for a r acc
    using line_texts [of a "''Authorization: '' @ a"] that
    by (subst read_headers_line) (auto simp: header_field_authorization value_ok_def simp del: append.simps)
  have host: "read_headers (''Host: gaussian.tech'' @ CRLF @ r) acc = read_headers r acc" for r acc
    using line_texts [of "[]" "''Host: gaussian.tech''"]
    by (subst read_headers_line) (auto simp: header_field_host simp del: append.simps)
  show ?thesis
    using assms(1) len auth by (cases authorization) (simp_all add: host del: append_Cons)
qed

subsection \<open>The request\<close>

text \<open>A request that the client renders is read back by the server exactly as it was: method, target,
  authorization value and body, for every target without white space, every authorization value
  without white space at its ends or line breaks, and every body of at most a mebibyte.\<close>

theorem request_wire_roundtrip:
  assumes "word_ok target" "case authorization of Some a \<Rightarrow> value_ok a | None \<Rightarrow> True"
    "case content of Some b \<Rightarrow> utf8_valid b \<and> length b \<le> MAX_BODY | None \<Rightarrow> True"
  shows "read_request (encode_request m target authorization content) =
    Inr (Incoming \<lparr>pr_method = m, pr_target = target, pr_authorization = authorization,
      pr_body = (case content of Some b \<Rightarrow> b | None \<Rightarrow> [])\<rparr>)"
proof -
  define b where "b = (case content of Some b \<Rightarrow> b | None \<Rightarrow> [])"
  have b: "utf8_valid b" "length b \<le> MAX_BODY" using assms(3) by (auto simp: b_def split: option.splits)
  let ?line = "method_name m @ '' '' @ target @ '' HTTP/1.1''" and ?tail = "''HTTP/1.1'' @ CRLF"
  let ?rest = "''Host: gaussian.tech'' @ CRLF @
      (case authorization of Some a \<Rightarrow> ''Authorization: '' @ a @ CRLF | None \<Rightarrow> []) @
      ''Content-Length: '' @ dec (length b) @ CRLF @ CRLF @ b"
  have name: "word_ok (method_name m)" "parse_method (method_name m) = Some m"
    by (cases m; auto intro: word_ok_ascii simp: is_whitespace_def parse_method_def)+
  have tail: "utf8_valid ?tail" by (auto intro!: ascii_utf8_valid simp: CRLF_def CR_def LF_def)
  have "LF \<notin> set ?line" using word_no_space [OF assms(1)] word_no_space [OF name(1)] by (auto simp: LF_def is_whitespace_def)
  moreover have "utf8_valid ?line"
    using name(1) assms(1) by (auto intro!: utf8_valid_append simp: word_ok_def ascii_utf8_valid utf8_valid_Cons_ascii)
  ultimately have line: "read_line (?line @ CRLF @ ?rest) = Inr (?line @ CRLF, ?rest)" by (intro read_line_CRLF)
  have "utf8_valid (target @ '' '' @ ?tail)"
    using assms(1) tail by (auto intro!: utf8_valid_append simp: word_ok_def utf8_valid_Cons_ascii)
  then have words: "split_whitespace (?line @ CRLF) = method_name m # target # split_whitespace ?tail"
    using split_whitespace_word [OF name(1), of "target @ '' '' @ ?tail"] split_whitespace_word [OF assms(1) tail] by simp
  show ?thesis
    unfolding encode_request_def Let_def b_def [symmetric]
    using line words name read_rendered_headers [OF assms(2) b(2), of b] b utf8_lossy_valid [OF b(1)]
    by (simp add: read_request_def del: append_Cons)
qed

theorem request_wire_roundtrip_witness:
  "read_request (encode_request Put ''/_matrix/federation/v1/send/t'' (Some ''X-Matrix origin=o'') (Some ''{}'')) =
     Inr (Incoming \<lparr>pr_method = Put, pr_target = ''/_matrix/federation/v1/send/t'', pr_authorization = Some ''X-Matrix origin=o'', pr_body = ''{}''\<rparr>)"
proof -
  have "word_ok ''/_matrix/federation/v1/send/t''" by (rule word_ok_ascii) (simp_all add: is_whitespace_def)
  moreover have "trim ''X-Matrix origin=o'' = ''X-Matrix origin=o''"
    by (rule trim_id) (simp_all add: ascii_utf8_valid str_chars_ascii is_whitespace_def)
  then have "value_ok ''X-Matrix origin=o''" by (simp add: value_ok_def ascii_utf8_valid CR_def LF_def)
  ultimately show ?thesis
    using request_wire_roundtrip [of "''/_matrix/federation/v1/send/t''" "Some ''X-Matrix origin=o''" "Some ''{}''" Put]
    by (simp add: ascii_utf8_valid MAX_BODY_def)
qed

subsection \<open>The response\<close>

abbreviation blank_line :: string where
  "blank_line \<equiv> CRLF @ CRLF"

lemma after_first_skip: "CR \<notin> set l \<Longrightarrow> after_first blank_line (l @ s) = after_first blank_line s"
  by (induction l) (auto simp: CRLF_def)

lemma after_first_line_end: "x \<noteq> CR \<Longrightarrow> after_first blank_line (CRLF @ x # s) = after_first blank_line (x # s)"
  by (simp add: CRLF_def CR_def LF_def)

lemma after_first_blank: "after_first blank_line (blank_line @ s) = Some s"
  by (simp add: CRLF_def)

lemma after_first_lines:
  assumes "ls \<noteq> []" "\<forall>l\<in>set ls. l \<noteq> [] \<and> CR \<notin> set l"
  shows "after_first blank_line (concat (map (\<lambda>l. l @ CRLF) ls) @ CRLF @ b) = Some b"
  using assms
proof (induction ls)
  case (Cons l ls)
  then have l: "CR \<notin> set l" by simp
  show ?case
  proof (cases ls)
    case Nil
    then show ?thesis using after_first_skip [OF l, of "blank_line @ b"] after_first_blank [of b] by simp
  next
    case (Cons l' ls')
    with Cons.prems obtain x w where x: "l' = x # w" "x \<noteq> CR" by (cases l') auto
    let ?more = "w @ CRLF @ concat (map (\<lambda>l. l @ CRLF) ls') @ CRLF @ b"
    have "after_first blank_line (x # ?more) = Some b" using Cons.IH Cons.prems Cons x(1) by simp
    then show ?thesis
      using after_first_skip [OF l, of "CRLF @ x # ?more"] after_first_line_end [OF x(2), of ?more] Cons x(1) by simp
  qed
qed simp

lemma before_first_shorter: "str_contains s blank_line \<Longrightarrow> length (before_first blank_line s) < length s"
  by (induction s) (auto simp: str_contains_def starts_with_def CRLF_def split: option.splits)

lemma before_first_same: "before_first blank_line s = s \<longleftrightarrow> \<not> str_contains s blank_line"
proof
  show "before_first blank_line s = s" if "\<not> str_contains s blank_line"
    using that by (induction s) (auto simp: str_contains_def starts_with_def split: option.splits)
qed (use before_first_shorter [of s] in force)

text \<open>Status and headers that a response line can carry.\<close>

definition response_ok :: "response \<Rightarrow> bool" where
  "response_ok r \<longleftrightarrow> rs_status r < 1000 \<and> utf8_valid (rs_body r) \<and>
     list_all (\<lambda>(nm, value). utf8_valid nm \<and> utf8_valid value \<and> CR \<notin> set nm \<and> CR \<notin> set value) (rs_headers r)"

definition sent_headers :: "response \<Rightarrow> (string \<times> string) list" where
  "sent_headers r = rs_headers r @
     (if list_ex (\<lambda>(name, _). eq_ignore_ascii_case name ''content-length'') (rs_headers r) then []
      else [(''Content-Length'', dec (length (rs_body r)))])"

definition status_line :: "nat \<Rightarrow> string" where
  "status_line st = ''HTTP/1.1 '' @ dec st @ '' '' @ reason st"

definition response_lines :: "response \<Rightarrow> string list" where
  "response_lines r = status_line (rs_status r) # map (\<lambda>h. fst h @ '': '' @ snd h) (sent_headers r)"

lemma write_response_lines:
  "write_response r = concat (map (\<lambda>l. l @ CRLF) (response_lines r)) @ CRLF @ rs_body r"
  by (simp add: write_response_def response_lines_def sent_headers_def status_line_def header_line_def [abs_def] comp_def)

lemma reason_text: "ascii (reason st)" "CR \<notin> set (reason st)" "LF \<notin> set (reason st)"
  by (simp_all add: reason_def CR_def LF_def)

lemma status_line_text: "utf8_valid (status_line st)" "CR \<notin> set (status_line st)" "LF \<notin> set (status_line st)"
  using word_ok_dec [of st] dec_no_line_end [of st] reason_text [of st]
  by (auto simp: status_line_def word_ok_def CR_def LF_def ascii_utf8_valid utf8_valid_Cons_ascii intro!: utf8_valid_append)

lemma status_line_words: "split_whitespace (status_line st) = ''HTTP/1.1'' # dec st # split_whitespace (reason st)"
proof -
  have http: "word_ok ''HTTP/1.1''" by (rule word_ok_ascii) (simp_all add: is_whitespace_def)
  have r: "utf8_valid (reason st)" by (simp add: reason_text ascii_utf8_valid)
  then have "utf8_valid (dec st @ '' '' @ reason st)"
    using word_ok_dec [of st] by (auto intro!: utf8_valid_append simp: word_ok_def utf8_valid_Cons_ascii)
  from split_whitespace_word [OF http this] split_whitespace_word [OF word_ok_dec r]
  show ?thesis by (simp add: status_line_def)
qed

lemma response_lines_text:
  assumes "response_ok r" "l \<in> set (response_lines r)"
  shows "utf8_valid l \<and> l \<noteq> [] \<and> CR \<notin> set l"
proof -
  have "utf8_valid nm \<and> utf8_valid v \<and> CR \<notin> set nm \<and> CR \<notin> set v" if "(nm, v) \<in> set (sent_headers r)" for nm v
    using that assms(1) word_ok_dec dec_no_line_end
    by (auto simp: sent_headers_def response_ok_def list_all_iff word_ok_def CR_def ascii_utf8_valid split: if_splits)
  then show ?thesis
    using assms(2) status_line_text
    by (auto simp: response_lines_def CR_def utf8_valid_Cons_ascii status_line_def intro!: utf8_valid_append)
qed

text \<open>The client reads back the status of every response the server writes, and its body up to the
  first empty line the body itself contains: the whole body exactly if it contains none.\<close>

theorem response_wire_roundtrip:
  assumes "response_ok r"
  shows "parse_response (write_response r) = Inr (rs_status r, before_first blank_line (rs_body r)) \<and>
    (before_first blank_line (rs_body r) = rs_body r \<longleftrightarrow> \<not> str_contains (rs_body r) blank_line)"
proof -
  let ?text = "write_response r" and ?ls = "response_lines r"
  have "utf8_valid (concat (map (\<lambda>l. l @ CRLF) ls))" if "\<forall>l\<in>set ls. utf8_valid l" for ls
    using that by (induction ls) (auto intro!: utf8_valid_append simp: CRLF_def CR_def LF_def utf8_valid_Cons_ascii)
  then have "utf8_valid ?text"
    using response_lines_text [OF assms] assms
    by (auto intro!: utf8_valid_append simp: write_response_lines CRLF_def CR_def LF_def utf8_valid_Cons_ascii response_ok_def)
  then have lossy: "utf8_lossy ?text = ?text" by (rule utf8_lossy_valid)
  have "takeWhile (\<lambda>c. c \<noteq> LF) ((status_line (rs_status r) @ [CR]) @ LF # rest) = status_line (rs_status r) @ [CR]" for rest
    using status_line_text(3) [of "rs_status r"] by (subst takeWhile_append2) (auto simp: CR_def LF_def)
  then have line: "strip_cr (takeWhile (\<lambda>c. c \<noteq> LF) ?text) = status_line (rs_status r)"
    by (simp add: write_response_lines response_lines_def strip_cr_def CRLF_def)
  have "after_first blank_line ?text = Some (rs_body r)"
    unfolding write_response_lines
    using response_lines_text [OF assms] by (intro after_first_lines) (auto simp: response_lines_def)
  with lossy line status_line_words [of "rs_status r"] assms before_first_same show ?thesis
    by (simp add: parse_response_def response_ok_def)
qed

theorem response_wire_roundtrip_witness:
  "parse_response (write_response (json_ok_response ''{}'')) = Inr (200, ''{}'')"
proof -
  have "response_ok (json_ok_response ''{}'')"
    by (simp add: response_ok_def json_ok_response_def json_headers_def ascii_utf8_valid CR_def)
  moreover have "\<not> str_contains ''{}'' blank_line" by (simp add: str_contains_def CRLF_def CR_def)
  ultimately show ?thesis
    using response_wire_roundtrip [of "json_ok_response ''{}''"] by (simp add: json_ok_response_def)
qed

end
