(* ===== verification/Exchange.thy ===== *)
theory Exchange
  imports Wire
begin

section \<open>Responses and whole exchanges\<close>

text \<open>
  Which status codes and headers the ingress answers with, what it refuses before any handler runs,
  and a whole exchange between the client's rendering of a request and its reading of the response.
\<close>

named_theorems served_intro \<open>rules for the responses of the handlers\<close>

definition served :: "response \<Rightarrow> bool" where
  "served r \<longleftrightarrow> rs_status r \<in> {200, 400, 401, 403, 404} \<and> rs_headers r = json_headers"

lemma served_simps [simp]:
  "served (json_ok_response b)" "served (invalid_param msg)" "served (bad_json msg)" "served (not_json msg)"
  "served (invalid_signature msg)" "served (error_response 401 e)" "served (error_response 403 e)" "served (error_response 404 e)"
  "served (error_response 400 e)"
  by (simp_all add: served_def json_ok_response_def error_response_def invalid_param_def bad_json_def not_json_def invalid_signature_def)

lemma served_with [served_intro]:
  "(\<And>u. served (snd (ku u))) \<Longrightarrow> served (snd (with_user user h ku))"
  "(\<And>v. served (snd (kp v))) \<Longrightarrow> served (snd (with_param m nm h kp))"
  "(\<And>room. served (snd (kr room))) \<Longrightarrow> served (snd (with_room_id s h kr))"
  "(\<And>u. served (snd (ku u))) \<Longrightarrow> served (snd (with_user_id s h ku))"
  "(\<And>o'. served (snd (ko o'))) \<Longrightarrow> served (snd (with_object c fb h ko))"
  "(\<And>room. served (snd (kr room))) \<Longrightarrow> served (snd (membership_room m h kr))"
  "(\<And>room. served (snd (kr room))) \<Longrightarrow> served (snd (room_of_path m h kr))"
  by (auto simp: with_user_def with_param_def with_room_id_def with_user_id_def with_object_def membership_room_def
      room_of_path_def split: option.split sum.split json.split)

lemma upload_served: "served (snd (upload_signing_keys hs u mp content fs h))"
  by (induction fs arbitrary: h) (auto split: option.split)

lemma handlers_served:
  "served (snd (serve_send hs m user req h))" "served (snd (serve_typing hs m user req h))"
  "served (snd (serve_receipt hs m user h))" "served (snd (serve_set_presence hs m user req h))"
  "served (snd (serve_create_room hs user req h))" "served (snd (serve_membership_self hs m user ms h))"
  "served (snd (serve_membership_target hs m user req ms h))" "served (snd (serve_sync hs user req h))"
  "served (snd (serve_get_presence hs m h))" "served (snd (serve_messages hs m h))" "served (snd (serve_event hs m h))"
  "served (snd (serve_room_state hs m h))" "served (snd (serve_members hs m h))" "served (snd (serve_joined_members hs m h))"
  "served (snd (serve_state_event hs m h))" "served (snd (serve_federation_send hs req h))"
  "served (snd (serve_federation_state hs m h))" "served (snd (serve_federation_state_ids hs m h))"
  "served (snd (serve_federation_event hs m h))" "served (snd (serve_federation_backfill hs m req h))"
  "served (snd (serve_user_devices hs m h))" "served (snd (serve_keys_query hs req h))"
  "served (snd (serve_keys_upload hs user req h))" "served (snd (serve_device_signing_upload hs user req h))"
  "served (snd (serve_keys_claim hs req h))" "served (snd (serve_login hs req h))"
  unfolding serve_send_def serve_typing_def serve_receipt_def serve_set_presence_def serve_create_room_def
    serve_membership_self_def serve_membership_target_def serve_sync_def serve_get_presence_def serve_messages_def
    serve_event_def serve_room_state_def serve_members_def serve_joined_members_def serve_state_event_def
    serve_federation_send_def serve_federation_state_def serve_federation_state_ids_def serve_federation_event_def
    serve_federation_backfill_def serve_user_devices_def serve_keys_query_def serve_keys_upload_def
    serve_device_signing_upload_def serve_keys_claim_def serve_login_def Let_def done_or_forbidden_def
  by (auto simp: case_prod_unfold upload_served create_room_options_def
      intro!: served_intro split: sum.split json.split option.split)

text \<open>The methods and paths that have a handler, and the endpoints of the surface that have none.\<close>

definition handled :: "http_method \<Rightarrow> string \<Rightarrow> bool" where
  "handled mt path \<longleftrightarrow>
     mt = Get \<and> path = ''/_matrix/client/versions'' \<or>
     mt = Get \<and> path = ''/_matrix/client/v3/login'' \<or>
     mt = Post \<and> path = ''/_matrix/client/v3/login'' \<or>
     mt = Get \<and> path = ''/_matrix/client/v3/account/whoami'' \<or>
     mt = Get \<and> path = ''/_matrix/client/v3/rooms/{roomId}/state'' \<or>
     mt = Get \<and> path = ''/_matrix/client/v3/rooms/{roomId}/members'' \<or>
     mt = Get \<and> path = ''/_matrix/client/v3/rooms/{roomId}/joined_members'' \<or>
     mt = Get \<and> (path = ''/_matrix/client/v3/rooms/{roomId}/state/{eventType}/{stateKey}'' \<or>
       path = ''/_matrix/client/v3/rooms/{roomId}/state/{eventType}'') \<or>
     mt = Put \<and> path = ''/_matrix/client/v3/rooms/{roomId}/send/{eventType}/{txnId}'' \<or>
     mt = Put \<and> path = ''/_matrix/client/v3/rooms/{roomId}/typing/{userId}'' \<or>
     mt = Post \<and> path = ''/_matrix/client/v3/rooms/{roomId}/receipt/{receiptType}/{eventId}'' \<or>
     mt = Put \<and> path = ''/_matrix/client/v3/presence/{userId}/status'' \<or>
     mt = Get \<and> path = ''/_matrix/client/v3/presence/{userId}/status'' \<or>
     mt = Get \<and> path = ''/_matrix/client/v3/rooms/{roomId}/messages'' \<or>
     mt = Get \<and> path = ''/_matrix/client/v3/rooms/{roomId}/event/{eventId}'' \<or>
     mt = Post \<and> path = ''/_matrix/client/v3/rooms/{roomId}/join'' \<or>
     mt = Post \<and> path = ''/_matrix/client/v3/rooms/{roomId}/leave'' \<or>
     mt = Post \<and> path = ''/_matrix/client/v3/rooms/{roomId}/invite'' \<or>
     mt = Post \<and> path = ''/_matrix/client/v3/rooms/{roomId}/kick'' \<or>
     mt = Post \<and> path = ''/_matrix/client/v3/rooms/{roomId}/ban'' \<or>
     mt = Post \<and> path = ''/_matrix/client/v3/createRoom'' \<or>
     mt = Post \<and> path = ''/_matrix/client/v3/keys/upload'' \<or>
     mt = Post \<and> path = ''/_matrix/client/v3/keys/query'' \<or>
     mt = Post \<and> path = ''/_matrix/client/v3/keys/claim'' \<or>
     mt = Post \<and> path = ''/_matrix/client/v3/keys/device_signing/upload'' \<or>
     mt = Get \<and> path = ''/_matrix/client/v3/sync'' \<or>
     mt = Get \<and> path = ''/_matrix/key/v2/server'' \<or>
     mt = Put \<and> path = ''/_matrix/federation/v1/send/{txnId}'' \<or>
     mt = Get \<and> path = ''/_matrix/federation/v1/state/{roomId}'' \<or>
     mt = Get \<and> path = ''/_matrix/federation/v1/state_ids/{roomId}'' \<or>
     mt = Get \<and> path = ''/_matrix/federation/v1/event/{eventId}'' \<or>
     mt = Get \<and> path = ''/_matrix/federation/v1/backfill/{roomId}'' \<or>
     mt = Get \<and> path = ''/_matrix/federation/v1/user/devices/{userId}''"

definition unhandled :: "endpoint list" where
  "unhandled =
     [ep_cs Put ''/_matrix/client/v3/rooms/{roomId}/state/{eventType}/{stateKey}'', ep_as Put ''/_matrix/app/v1/transactions/{txnId}'']"

lemma surface_handled: "ep \<in> set SURFACE \<Longrightarrow> ep \<in> set unhandled \<or> handled (ep_method ep) (ep_path ep)"
proof -
  have "\<forall>ep\<in>set SURFACE. ep \<in> set unhandled \<or> handled (ep_method ep) (ep_path ep)"
    unfolding SURFACE_def list.set ball_simps unhandled_def ep_cs_def ep_cs_public_def ep_ss_def ep_ss_public_def ep_as_def
      endpoint.simps
    apply (intro conjI TrueI)
    apply (unfold handled_def)
    apply ((rule disjI1, rule insertI1) | (rule disjI1, rule insertI2, rule insertI1) |
      (rule disjI1, rule conjI, rule refl, rule refl disjI1 [OF refl] disjI2 [OF refl]) | rule disjI2 | (rule conjI, rule refl, rule refl))+
    done
  then show "ep \<in> set SURFACE \<Longrightarrow> ep \<in> set unhandled \<or> handled (ep_method ep) (ep_path ep)" by blast
qed

lemma served_if: "(b \<Longrightarrow> served (snd x)) \<Longrightarrow> (\<not> b \<Longrightarrow> served (snd y)) \<Longrightarrow> served (snd (if b then x else y))"
  by simp

lemma serve_cases:
  assumes "ep_method (rm_endpoint m) = mt" "ep_path (rm_endpoint m) = path"
  shows "handled mt path \<Longrightarrow> served (snd (serve hs m user req h))"
    and "\<not> handled mt path \<Longrightarrow> serve hs m user req h = (h, error_response 501 (me_unrecognized ''endpoint not yet implemented''))"
proof -
  have ok: "served (snd (h, json_ok_response b))" "served (snd (case hs_server_keys hs h of (h, doc) \<Rightarrow> (h, json_ok_response (json_write doc))))"
    "served (snd (with_user user h (\<lambda>u. (h, json_ok_response (whoami_body u)))))" for b
    by (auto simp: case_prod_unfold intro: served_intro)
  show "served (snd (serve hs m user req h))" if "handled mt path"
    unfolding serve_def Let_def assms
    apply (intro served_if)
    apply (rule ok handlers_served)+
    apply (insert that, unfold handled_def)
    apply (elim disjE)
    apply (erule (1) notE)+
    done
  show "serve hs m user req h = (h, error_response 501 (me_unrecognized ''endpoint not yet implemented''))" if "\<not> handled mt path"
    using that unfolding handled_def serve_def Let_def assms by (simp only: de_Morgan_disj if_False) 
qed

lemma unhandled_not_handled: "ep \<in> set unhandled \<Longrightarrow> \<not> handled (ep_method ep) (ep_path ep)"
  by (auto simp: unhandled_def handled_def ep_cs_def ep_as_def)

subsection \<open>What the ingress answers\<close>

lemma authenticate_responses:
  "authenticate hs m req h = (h', Inl r) \<Longrightarrow> rs_status r = 401 \<and> rs_headers r = json_headers"
  by (auto simp: authenticate_def error_response_def case_prod_unfold split: auth_scheme.splits option.splits if_splits)

lemma handle_response:
  defines "route req \<equiv> resolve_route SURFACE (rq_method req) (rq_target req)"
  shows "(\<exists>m. route req = Found m \<and> served (snd (handle (with_server hs) req h))) \<or>
    (\<exists>m. route req = Found m \<and> rm_endpoint m \<in> set unhandled \<and> (\<exists>user. snd (authenticate hs m req h) = Inr user) \<and>
       snd (handle (with_server hs) req h) = error_response 501 (me_unrecognized ''endpoint not yet implemented'')) \<or>
    (route req = NotFound \<and> snd (handle (with_server hs) req h) = error_response 404 (me_unrecognized ''unrecognized request'')) \<or>
    (\<exists>ms. route req = MethodNotAllowed ms \<and> rs_status (snd (handle (with_server hs) req h)) = 405 \<and>
       rs_headers (snd (handle (with_server hs) req h)) = json_headers @ [(''Allow'', allow_header ms)])"
proof (cases "route req")
  case (Found m)
  then have m: "rm_endpoint m \<in> set SURFACE" unfolding route_def resolve_route_def by (rule resolve_loop_mem)
  obtain h1 a where a: "authenticate hs m req h = (h1, a)" by fastforce
  show ?thesis
  proof (cases a)
    case (Inl r)
    with a authenticate_responses [of hs m req h h1 r] have "served r" by (simp add: served_def)
    with a Inl Found show ?thesis by (simp add: handle_def with_server_def route_def)
  next
    case (Inr user)
    with a Found have serve: "handle (with_server hs) req h = serve hs m user req h1"
      by (simp add: handle_def with_server_def route_def)
    show ?thesis
    proof (cases "handled (ep_method (rm_endpoint m)) (ep_path (rm_endpoint m))")
      case True
      with serve_cases(1) [OF refl refl] Found serve show ?thesis by metis
    next
      case False
      with surface_handled [OF m] serve_cases(2) [OF refl refl False, of hs user req h1] Found serve a Inr show ?thesis by simp
    qed
  qed
qed (simp_all add: handle_def with_server_def route_def Let_def error_response_def)

text \<open>C31: Every request is answered: a request with an unknown path with 404 and the error of an unrecognized
  request, one whose path is known under other methods only with 405 and these methods in the
  \<open>Allow\<close> header, both without touching the server; any other request with 200, 400, 401, 403 or 404
  or, exactly if it passes its authentication and goes to one of the two endpoints of the surface that
  have no handler, with 501.\<close>

theorem every_request_answered:
  "case resolve_route SURFACE (rq_method req) (rq_target req) of
     NotFound \<Rightarrow> handle (with_server hs) req h = (h, error_response 404 (me_unrecognized ''unrecognized request''))
   | MethodNotAllowed ms \<Rightarrow> fst (handle (with_server hs) req h) = h \<and>
       rs_status (snd (handle (with_server hs) req h)) = 405 \<and>
       header_value (snd (handle (with_server hs) req h)) ''Allow'' = Some (allow_header ms) \<and>
       rs_body (snd (handle (with_server hs) req h)) = me_to_json (me_unrecognized ''method not allowed for this endpoint'')
   | Found m \<Rightarrow> rs_status (snd (handle (with_server hs) req h)) \<in> {200, 400, 401, 403, 404, 501} \<and>
       (rs_status (snd (handle (with_server hs) req h)) = 501 \<longleftrightarrow>
          rm_endpoint m \<in> set unhandled \<and> (\<exists>user. snd (authenticate hs m req h) = Inr user))"
proof (cases "resolve_route SURFACE (rq_method req) (rq_target req)")
  case (Found m)
  have "rs_status (snd (handle (with_server hs) req h)) = 501"
    if "rm_endpoint m \<in> set unhandled" "snd (authenticate hs m req h) = Inr user" for user
    using that Found serve_cases(2) [OF refl refl unhandled_not_handled [OF that(1)], of hs user req]
    by (cases "authenticate hs m req h") (simp add: handle_def with_server_def error_response_def)
  with Found show ?thesis
    using handle_response [of req hs h] by (auto simp: served_def error_response_def)
next
  case (MethodNotAllowed ms)
  have ci: "eq_ignore_ascii_case ''Content-Type'' ''Allow'' = False" "eq_ignore_ascii_case ''Allow'' ''Allow'' = True"
    by code_simp+
  from MethodNotAllowed show ?thesis
    by (simp add: handle_def with_server_def error_response_def header_value_def json_headers_def ci Let_def)
qed (simp add: handle_def with_server_def)

subsection \<open>What is refused before a handler runs\<close>

text \<open>C13: A request is gated before any handler runs: an unknown path and a known path under another method
  are answered without touching the server; a client request with no token or an unknown one is
  answered 401 without touching the server; and a federation request whose signature does not verify
  is answered 401 with nothing stored.\<close>

theorem gate_refuses:
  defines "run env req sv \<equiv> handle (gauss_ingress env) req sv"
  shows "(resolve_route SURFACE (rq_method req) (rq_target req) = NotFound \<longrightarrow>
      run env req sv = (sv, error_response 404 (me_unrecognized ''unrecognized request''))) \<and>
    (\<forall>ms. resolve_route SURFACE (rq_method req) (rq_target req) = MethodNotAllowed ms \<longrightarrow>
      fst (run env req sv) = sv \<and> header_value (snd (run env req sv)) ''allow'' = Some (allow_header ms)) \<and>
    (\<forall>m. resolve_route SURFACE (rq_method req) (rq_target req) = Found m \<longrightarrow>
      (ep_auth (rm_endpoint m) = AccessToken \<and> caller (gauss_homeserver env) req sv = None \<longrightarrow>
         run env req sv = (sv, error_response 401
           (if access_token (rq_authorization req) (rq_target req) = None then me_missing_token ''missing access token''
            else me_unknown_token ''unrecognized access token''))) \<and>
      (ep_auth (rm_endpoint m) = FederationAuth \<and> \<not> origin_verified (gauss_homeserver env) req sv \<longrightarrow>
         snd (run env req sv) = error_response 401 (matrix_error_new ''M_UNAUTHORIZED'' ''invalid federation signature'') \<and>
         sv_store (fst (run env req sv)) = sv_store sv))"
proof -
  have ci: "eq_ignore_ascii_case ''Content-Type'' ''allow'' = False" "eq_ignore_ascii_case ''Allow'' ''allow'' = True"
    by code_simp+
  have gs: "hs_verify_federation_request (gauss_homeserver env) = verify_federation_request env" by (simp add: gauss_homeserver_def)
  show ?thesis
    unfolding run_def
    by (auto simp: handle_def gauss_ingress_def with_server_def authenticate_def caller_def origin_verified_def gs
        case_prod_unfold verify_request_store error_response_def header_value_def json_headers_def ci Let_def
        split: option.splits auth_scheme.splits)
qed

theorem gate_refuses_witness:
  "handle (gauss_ingress sample_env) (request_new Get ''/_matrix/client/v3/sync'') (server_new shared_new 0) =
     (server_new shared_new 0, error_response 401 (me_missing_token ''missing access token''))"
proof -
  have t: "access_token None ''/_matrix/client/v3/sync'' = None" by code_simp
  have "resolve_route SURFACE Get ''/_matrix/client/v3/sync'' =
      Found \<lparr>rm_endpoint = ep_cs Get ''/_matrix/client/v3/sync'', rm_params = []\<rparr>"
    by code_simp
  then show ?thesis
    using gate_refuses [of "request_new Get ''/_matrix/client/v3/sync''" sample_env "server_new shared_new 0"] t
    by (simp add: request_new_def caller_def ep_cs_def)
qed

subsection \<open>A whole exchange\<close>

lemma allow_header_text: "ascii (allow_header ms) \<and> CR \<notin> set (allow_header ms)"
proof -
  have m: "ascii (method_name m) \<and> CR \<notin> set (method_name m)" for m
    by (cases m) (simp_all add: CR_def)
  have "ascii (str_join '', '' ws) \<and> CR \<notin> set (str_join '', '' ws)" if "\<forall>w\<in>set ws. ascii w \<and> CR \<notin> set w" for ws
    using that by (induction "'', ''" ws rule: str_join.induct) (auto simp: ascii_def CR_def)
  with m show ?thesis by (simp add: allow_header_def)
qed

lemma handle_response_ok:
  assumes "utf8_valid (rs_body (snd (handle (with_server hs) req h)))"
  shows "response_ok (snd (handle (with_server hs) req h))"
proof -
  have j: "utf8_valid nm \<and> utf8_valid v \<and> CR \<notin> set nm \<and> CR \<notin> set v" if "(nm, v) \<in> set json_headers" for nm v
    using that by (auto simp: json_headers_def ascii_utf8_valid CR_def)
  show ?thesis
    using handle_response [of req hs h] assms j allow_header_text
    by (auto simp: response_ok_def served_def error_response_def list_all_iff ascii_utf8_valid CR_def)
qed

text \<open>C26: A client that renders a request, has it served over a connection and parses the answer gets
  exactly the status and the body the ingress produced for that very request: method, target,
  credentials and body arrive unchanged and the response comes back unchanged.  The target is a word
  without white space, the authorization value is trimmed and of one line, the body of the request is
  within the limit of the server, and the body of the response is UTF-8 and holds no empty line.\<close>

theorem exchange_faithful:
  assumes "word_ok target" "case authorization of Some a \<Rightarrow> value_ok a | None \<Rightarrow> True"
    "case content of Some b \<Rightarrow> utf8_valid b \<and> length b \<le> MAX_BODY | None \<Rightarrow> True"
    "handle (with_server hs) \<lparr>rq_method = m, rq_target = target, rq_authorization = authorization,
       rq_body = (if content = Some [] then None else content)\<rparr> h = (h', r)"
    "utf8_valid (rs_body r)" "\<not> str_contains (rs_body r) blank_line"
  shows "\<exists>raw. serve_connection (with_server hs) (encode_request m target authorization content) h = (h', Inr raw) \<and>
    parse_response raw = Inr (rs_status r, rs_body r)"
proof -
  let ?pr = "\<lparr>pr_method = m, pr_target = target, pr_authorization = authorization,
    pr_body = (case content of Some b \<Rightarrow> b | None \<Rightarrow> [])\<rparr>"
  have "request_of ?pr = \<lparr>rq_method = m, rq_target = target, rq_authorization = authorization,
      rq_body = (if content = Some [] then None else content)\<rparr>"
    by (simp add: request_of_def split: option.split)
  then have "serve_connection (with_server hs) (encode_request m target authorization content) h = (h', Inr (write_response r))"
    using request_wire_roundtrip [OF assms(1-3), of m] assms(4) by (simp add: serve_connection_def)
  moreover have "response_ok r" using handle_response_ok [of hs] assms(4,5) by (metis snd_conv)
  ultimately show ?thesis using response_wire_roundtrip assms(6) by auto
qed

theorem exchange_faithful_witness:
  "\<exists>raw. serve_connection (with_server no_server) (encode_request Get ''/_matrix/client/versions'' None None) () = ((), Inr raw) \<and>
    parse_response raw = Inr (200, versions_body)"
proof -
  have "word_ok ''/_matrix/client/versions''" by (rule word_ok_ascii) (simp_all add: is_whitespace_def)
  moreover have v: "versions_body = ''{'' @ dquoted ''versions'' @ '':['' @ dquoted ''v1.11'' @ '']}''"
    by (simp add: versions_body_def SUPPORTED_SPEC_VERSIONS_def json_escape_def str_chars_ascii escape_text_char_def utf8_encode_def dquoted_def; code_simp)
  have "utf8_valid versions_body" "\<not> str_contains versions_body blank_line"
    unfolding v by (simp_all add: ascii_utf8_valid dquoted_def str_contains_def CRLF_def CR_def)
  moreover have "resolve_route SURFACE Get ''/_matrix/client/versions'' =
      Found \<lparr>rm_endpoint = ep_cs_public Get ''/_matrix/client/versions'', rm_params = []\<rparr>"
    by code_simp
  then have "handle (with_server no_server) \<lparr>rq_method = Get, rq_target = ''/_matrix/client/versions'', rq_authorization = None,
      rq_body = (if None = Some [] then None else None)\<rparr> () = ((), json_ok_response versions_body)"
    by (simp add: handle_def with_server_def authenticate_def ep_cs_public_def serve_def)
  ultimately show ?thesis
    using exchange_faithful [of "''/_matrix/client/versions''" None None no_server Get "()" "()" "json_ok_response versions_body"]
    by (simp add: json_ok_response_def)
qed

end
