(* ===== verification/ServerFrame.thy ===== *)
theory ServerFrame
  imports ServerLog
begin

section \<open>What an operation leaves alone\<close>

text \<open>
  The column families each operation of the server may write; all others keep their contents.  The
  lemmas hold over every store that meets the contract \<open>kv_store\<close>.
\<close>

definition op_families :: "sv_op \<Rightarrow> string set" where
  "op_families op =
     (case op of
        OpRegister _ _ \<Rightarrow> {cf_ACCOUNTS}
      | OpLogin _ _ \<Rightarrow> {cf_ACCESS_TOKENS}
      | OpCreateRoom _ _ _ \<Rightarrow> room_families
      | OpMembership _ _ _ _ \<Rightarrow> room_families
      | OpSend _ _ _ _ _ \<Rightarrow> insert cf_TRANSACTIONS room_families
      | OpTyping _ _ _ _ \<Rightarrow> {cf_TYPING}
      | OpReceipt _ _ _ \<Rightarrow> {cf_RECEIPTS}
      | OpPresence _ _ _ \<Rightarrow> {cf_PRESENCE}
      | OpTransaction _ \<Rightarrow> insert cf_DEVICE_KEYS room_families
      | OpIngestKeys _ \<Rightarrow> {cf_KEY_CACHE}
      | OpSigningKey _ _ \<Rightarrow> {cf_SERVER_KEYS, cf_FEDERATION_KEYS}
      | OpFederationKey _ _ \<Rightarrow> {cf_FEDERATION_KEYS}
      | OpDeviceKeys _ _ _ \<Rightarrow> {cf_DEVICE_KEYS}
      | OpOneTimeKeys _ _ _ \<Rightarrow> {cf_DEVICE_OTK}
      | OpClaimKey _ _ _ \<Rightarrow> {cf_DEVICE_OTK}
      | OpCrossSigning _ _ _ \<Rightarrow> {cf_CROSS_SIGNING}
      | _ \<Rightarrow> {})"

definition frames :: "'s store_ops \<Rightarrow> ('s \<Rightarrow> bool) \<Rightarrow> string set \<Rightarrow> 's \<Rightarrow> 's \<Rightarrow> bool" where
  "frames ops I F s s' \<longleftrightarrow> (I s \<longrightarrow> I s' \<and> (\<forall>cf. cf \<notin> F \<longrightarrow> st_scan ops s' cf = st_scan ops s cf))"

lemma frames_refl [simp]: "frames ops I F s s"
  by (simp add: frames_def)

lemma frames_trans: "frames ops I F s s1 \<Longrightarrow> frames ops I F s1 s2 \<Longrightarrow> frames ops I F s s2"
  by (auto simp: frames_def)

lemma frames_fold:
  "(\<And>x sv. frames ops I F (sv_store sv) (sv_store (f x sv))) \<Longrightarrow> frames ops I F (sv_store sv) (sv_store (fold f xs sv))"
  by (induction xs arbitrary: sv) (auto intro: frames_trans)

context kv_store
begin

lemma frames_put [simp]: "cf \<in> F \<Longrightarrow> frames ops inv F s (fst (st_put ops cf k v s))"
  by (auto simp: frames_def put_inv scan_put)

lemma frames_delete [simp]: "cf \<in> F \<Longrightarrow> frames ops inv F s (fst (st_delete ops cf k s))"
  by (auto simp: frames_def delete_inv scan_delete)

lemma frames_append: "room_families \<subseteq> F \<Longrightarrow> frames ops inv F s (room_append ops p s)"
proof -
  assume F: "room_families \<subseteq> F"
  have "frames ops inv F s' (append_state ops p s')" for s'
    using F by (auto simp: append_state_def room_families_def split: option.split prod.split)
  moreover have "frames ops inv F s' (fst (st_put ops cf_EVENTS k v s'))" "frames ops inv F s' (fst (st_put ops cf_EVENT_STREAM k v s'))" for k v s'
    using F by (simp_all add: room_families_def)
  ultimately show ?thesis
    unfolding room_append_def Let_def by (metis frames_trans)
qed

lemma frames_cong: "frames ops inv F s s1 \<Longrightarrow> s' = s1 \<Longrightarrow> frames ops inv F s s'"
  by simp

lemma submit_event_frames:
  "srv_ops env = ops \<Longrightarrow> room_families \<subseteq> F \<Longrightarrow>
   frames ops inv F (sv_store sv) (sv_store (fst (submit_event env room user k sk content sv)))"
  using submit_event_grows [of env room user k sk content sv] frames_append
  by (cases "submit_event env room user k sk content sv") auto

lemma create_loop_frames:
  "srv_ops env = ops \<Longrightarrow> frames ops inv room_families (sv_store sv) (sv_store (fst (create_loop env room u evs d prev sv)))"
proof (induction evs arbitrary: d prev sv)
  case (Cons e evs)
  obtain k sk content where e: "e = (k, sk, content)" by (cases e)
  obtain now sv1 where n: "now_ms env sv = (now, sv1)" by force
  then have s: "sv_store sv1 = sv_store sv" by simp
  have step: "frames ops inv room_families (sv_store sv) (sv_store (sv_append env p sv1))" for p
    using Cons.prems s frames_append by simp
  show ?case
    unfolding e create_loop.simps n Let_def prod.case
    by (auto simp: s split: option.split intro: frames_trans [OF step Cons.IH [OF Cons.prems]])
qed simp

lemma receive_pdus_frames:
  assumes "srv_ops env = ops" "room_families \<subseteq> F"
  shows "frames ops inv F (sv_store sv) (sv_store (snd (snd (fold (receive_pdu env) ps (results, by_id, sv)))))"
proof (induction ps arbitrary: results by_id sv)
  case (Cons p ps)
  have "frames ops inv F (sv_store sv) (sv_store (sv_append env p sv))"
    using assms frames_append by simp
  from frames_trans [OF this Cons.IH] Cons.IH show ?case
    by (cases "pdu_authorized env by_id p sv") (simp_all add: receive_pdu_simps)
qed simp

lemma receive_edu_frames: "srv_ops env = ops \<Longrightarrow> cf_DEVICE_KEYS \<in> F \<Longrightarrow> frames ops inv F (sv_store sv) (sv_store (receive_edu env e sv))"
  by (auto simp: receive_edu_def store_device_keys_def split: option.splits sum.splits prod.splits)

lemma receive_transaction_frames:
  assumes "srv_ops env = ops"
  shows "frames ops inv (insert cf_DEVICE_KEYS room_families) (sv_store sv) (sv_store (fst (receive_transaction env j sv)))"
proof (cases "transaction_from_json j")
  case (Inr t)
  let ?by_id = "by_id_of (concat (map (\<lambda>p. sv_timeline env sv (room_id p)) (txn_pdus t)))"
  obtain results by_id sv1 where f: "fold (receive_pdu env) (txn_pdus t) ([], ?by_id, sv) = (results, by_id, sv1)"
    by (metis surj_pair)
  have "frames ops inv (insert cf_DEVICE_KEYS room_families) (sv_store sv) (sv_store sv1)"
    using receive_pdus_frames [OF assms, of "insert cf_DEVICE_KEYS room_families" sv "txn_pdus t" "[]" ?by_id] f by auto
  moreover have "frames ops inv (insert cf_DEVICE_KEYS room_families) (sv_store sv1) (sv_store (fold (receive_edu env) (txn_edus t) sv1))"
    by (intro frames_fold receive_edu_frames assms) simp
  ultimately show ?thesis using Inr f by (auto simp: receive_transaction_def Let_def intro: frames_trans)
qed (simp add: receive_transaction_def)

lemma ingest_frames:
  assumes "srv_ops env = ops"
  shows "frames ops inv {cf_KEY_CACHE} (sv_store sv) (sv_store (fst (ingest_key_document env j sv)))"
proof -
  obtain now sv1 where n: "now_ms env sv = (now, sv1)" by force
  then have s: "sv_store sv1 = sv_store sv" by simp
  have "frames ops inv {cf_KEY_CACHE} (sv_store sv1) (sv_store (fold (\<lambda>(key_id, entry) sv.
      case Option.bind (json_get entry ''key'') as_str of None \<Rightarrow> sv | Some pk \<Rightarrow> cache_server_key env nm key_id pk v sv) kvs sv1))"
    for nm v kvs
    by (intro frames_fold) (auto simp: cache_server_key_def assms split: option.split prod.split)
  then show ?thesis unfolding ingest_key_document_def n by (simp add: s split: option.split)
qed

lemma sv_run_frames:
  assumes "srv_ops env = ops"
  shows "frames ops inv (op_families op) (sv_store sv) (sv_store (sv_run env op sv))"
proof (cases op)
  case (OpTransaction j)
  then show ?thesis using receive_transaction_frames [OF assms] by (simp add: op_families_def)
next
  case (OpCreateRoom u nm topic)
  obtain sv1 r where m: "mint_room_id env u sv = (sv1, r)" by force
  then have s: "sv_store sv1 = sv_store sv" by (auto simp: mint_room_id_def Let_def split: prod.splits)
  have "frames ops inv room_families (sv_store sv) (sv_store (fst (create_room env u nm topic sv)))"
  proof (cases r)
    case (Some room)
    have "frames ops inv room_families (sv_store sv)
        (sv_store (fst (create_loop env room u (initial_events u nm topic) 1 [] sv1)))"
      using create_loop_frames [OF assms, of sv1] s by simp
    moreover obtain sv2 x where "create_loop env room u (initial_events u nm topic) 1 [] sv1 = (sv2, x)" by force
    ultimately show ?thesis using m Some by (cases x) (simp_all add: create_room_def)
  qed (use m s in \<open>simp add: create_room_def\<close>)
  then show ?thesis using OpCreateRoom by (simp add: op_families_def)
next
  case (OpMembership u r t m)
  have "frames ops inv room_families (sv_store (room_lock r sv)) (sv_store (fst (change_membership env u r t m sv)))"
    unfolding change_membership_def by (intro submit_event_frames assms) simp
  then show ?thesis using OpMembership by (simp add: op_families_def)
next
  case (OpSend u r k t c)
  let ?F = "insert cf_TRANSACTIONS room_families"
  obtain sv1 x where e: "submit_event env r u k None c (room_lock r sv) = (sv1, x)" by force
  have "frames ops inv ?F (sv_store sv) (sv_store sv1)"
    using submit_event_frames [OF assms, of ?F "room_lock r sv" r u k None c] e by auto
  from this frames_trans [OF this frames_put, of cf_TRANSACTIONS] e
  have "frames ops inv ?F (sv_store sv) (sv_store (fst (send_message env u r k t c sv)))"
    by (auto simp: send_message_def send_commit_def assms split: option.split)
  then show ?thesis using OpSend by (simp add: op_families_def)
next
  case (OpIngestKeys j)
  then show ?thesis using ingest_frames [OF assms] by (simp add: op_families_def)
next
  case (OpSigningKey k sd)
  have "frames ops inv {cf_SERVER_KEYS, cf_FEDERATION_KEYS} (sv_store sv) (sv_store (register_signing_key env k sd sv))"
    by (auto simp: register_signing_key_def Let_def assms intro: frames_trans [OF frames_put frames_put] split: option.split)
  then show ?thesis using OpSigningKey by (simp add: op_families_def)
next
  case (OpOneTimeKeys u dev ks)
  have "frames ops inv {cf_DEVICE_OTK} (sv_store sv) (sv_store (fst (store_one_time_keys env u dev ks sv)))"
    unfolding store_one_time_keys_def Let_def fst_conv by (intro frames_fold) (auto simp: assms)
  then show ?thesis using OpOneTimeKeys by (simp add: op_families_def)
qed (auto simp: op_families_def assms register_account_def account_register_def password_login_def session_create_def Let_def
    set_typing_def set_read_receipt_def set_presence_def register_federation_key_def server_keys_def verify_request_store
    store_device_keys_def claim_one_time_key_def store_cross_signing_key_def event_transaction_def sync_store case_prod_unfold
    split: option.split)

end

end
