(* ===== verification/Sessions.thy ===== *)
theory Sessions
  imports Exchange ServerFrame
begin

section \<open>Credentials and sessions\<close>

text \<open>
  Which requests can change the credentials a server keeps, and how long the token of a login stays good.
\<close>

subsection \<open>Families that no request writes\<close>

definition untouched :: "('s, 'c) server_env \<Rightarrow> ('s, 'c) server \<Rightarrow> ('s, 'c) server \<Rightarrow> string \<Rightarrow> bool" where
  "untouched env sv sv' cf \<longleftrightarrow> st_scan (srv_ops env) (sv_store sv') cf = st_scan (srv_ops env) (sv_store sv) cf"

lemma run_untouched:
  assumes "srv_ops env = shared_ops" "shared_inv (sv_store sv)" "\<forall>op\<in>set ops. cf \<notin> op_families op"
  shows "shared_inv (sv_store (fold (sv_run env) ops sv)) \<and> untouched env sv (fold (sv_run env) ops sv) cf"
  using assms(2,3)
proof (induction ops arbitrary: sv)
  case (Cons op ops)
  have "frames shared_ops shared_inv (op_families op) (sv_store sv) (sv_store (sv_run env op sv))"
    by (rule shared.sv_run_frames [OF assms(1)])
  with Cons.prems assms(1) have "shared_inv (sv_store (sv_run env op sv))" "untouched env sv (sv_run env op sv) cf"
    by (simp_all add: frames_def untouched_def)
  with Cons show ?case by (simp add: untouched_def)
qed (simp add: untouched_def)

lemma families_differ:
  "cf_ACCOUNTS \<notin> room_families" "cf_SERVER_KEYS \<notin> room_families" "cf_FEDERATION_KEYS \<notin> room_families"
  "cf_KEY_CACHE \<notin> room_families" "cf_ACCESS_TOKENS \<notin> room_families" "cf_DEVICE_KEYS \<notin> room_families"
  by (simp_all add: room_families_def cf_defs)

text \<open>The families with the credentials of the server and of its peers.\<close>

definition credential_families :: "string set" where
  "credential_families = {cf_ACCOUNTS, cf_SERVER_KEYS, cf_FEDERATION_KEYS, cf_KEY_CACHE}"

text \<open>The requests that log a user in.\<close>

definition is_login :: "request \<Rightarrow> bool" where
  "is_login req \<longleftrightarrow> route_endpoint req = Some login_endpoint"

lemma permitted_families:
  assumes "request_permits hs req h op" "cf \<in> op_families op"
  shows "cf \<notin> credential_families" and "cf = cf_ACCESS_TOKENS \<Longrightarrow> is_login req"
  using assms
  by (cases op; auto simp: request_permits_def is_login_def op_families_def credential_families_def room_families_def cf_defs)+

text \<open>C20: No request, authenticated or not, changes an account's password, a signing key of this server or a
  key of another server, and only a request to the login endpoint changes the access tokens.\<close>

theorem requests_keep_credentials:
  assumes "srv_ops env = shared_ops" "shared_inv (sv_store sv)"
  shows "(\<forall>cf\<in>credential_families. untouched env sv (request_run env req sv) cf) \<and>
    (\<not> is_login req \<longrightarrow> untouched env sv (request_run env req sv) cf_ACCESS_TOKENS)"
proof -
  obtain ops where ops: "list_all (request_permits (gauss_homeserver env) req sv) ops" "request_run env req sv = fold (sv_run env) ops sv"
    using gauss.handle_performs [of env req sv] by (auto simp: performs_def request_run_def gauss_ingress_def)
  have "cf \<notin> op_families op" if "op \<in> set ops" "cf \<in> credential_families" for op cf
    using permitted_families(1) [of "gauss_homeserver env" req sv op cf] that ops(1) by (auto simp: list_all_iff)
  moreover have "cf_ACCESS_TOKENS \<notin> op_families op" if "op \<in> set ops" "\<not> is_login req" for op
    using permitted_families(2) [of "gauss_homeserver env" req sv op cf_ACCESS_TOKENS] that ops(1) by (auto simp: list_all_iff)
  ultimately show ?thesis unfolding ops(2) using run_untouched [OF assms] by blast
qed

subsection \<open>A login and the requests after it\<close>









subsection \<open>A server with one account\<close>

definition sample_accounts :: "(shared_store, nat) server" where
  "sample_accounts = sv_run sample_env (OpRegister ''a'' ''p'') (server_new shared_new 0)"

lemma sample_accounts_inv: "shared_inv (sv_store sample_accounts)"
proof -
  have "shared_inv (sv_store (server_new shared_new 0))" using holds_log_shared_new by (simp add: holds_log_def server_new_def)
  moreover have e: "srv_ops sample_env = shared_ops" by (simp add: sample_env_def)
  moreover have "sample_accounts = sv_run sample_env (OpRegister ''a'' ''p'') (server_new shared_new 0)"
    by (simp add: sample_accounts_def)
  ultimately show ?thesis
    using shared.sv_run_frames [OF e, of "OpRegister ''a'' ''p''" "server_new shared_new 0"] unfolding frames_def by fastforce
qed

lemma sample_create_route: "\<not> is_login sample_create"
  by code_simp

theorem requests_keep_credentials_witness:
  "untouched sample_env sample_accounts (request_run sample_env sample_create sample_accounts) cf_ACCOUNTS \<and>
   untouched sample_env sample_accounts (request_run sample_env sample_create sample_accounts) cf_ACCESS_TOKENS"
  using requests_keep_credentials [of sample_env sample_accounts sample_create] sample_accounts_inv sample_create_route
  by (simp add: sample_env_def credential_families_def)



end
