(* ===== verification/FileStore.thy ===== *)
theory FileStore
  imports Store Json Lossy
begin

section \<open>The durable store (gm-store, file.rs)\<close>

text \<open>
  A column family is a directory under the root of the store, a key is a file in it whose name is the
  key in hexadecimal, and an in-memory mirror serves the reads.  The file system is a value: the tree of
  its directories, the directory the store is rooted at, the limit on the length of a name and the
  outcomes of the calls to come, each of which works or fails with an error, a failed write leaving a
  part of its data behind.  A family is joined to the root as a path and resolved in the tree, so it may
  name a nested directory, the root itself or a directory outside it; symbolic links, permissions and
  other processes are not modelled (their refusals are outcomes of calls).  A crash in an operation
  leaves the files as the failure of the call that did not return.  Shown is that the mirror is a store
  that keeps the contract whatever the disk does, and that, for families that are plain names, opening
  the directory again yields exactly the writes that were reported as done.
\<close>

subsection \<open>The file system\<close>

datatype fs_node = RegularFile bytes | Directory "(string \<times> fs_node) list"

datatype fs_outcome = Works | Fails string "bytes option"

datatype io_failure = NoEntry | OtherFailure string

record fs =
  fs_top :: fs_node
  fs_root :: "string list"
  fs_name_max :: nat
  fs_outcomes :: "fs_outcome list"

definition fs_call :: "fs \<Rightarrow> fs_outcome \<times> fs" where
  "fs_call d = (case fs_outcomes d of [] \<Rightarrow> (Works, d) | oc # ocs \<Rightarrow> (oc, d\<lparr>fs_outcomes := ocs\<rparr>))"

text \<open>The operator \<open>?\<close> after a call that has no effect on the files.\<close>

definition fs_try :: "fs \<Rightarrow> (fs \<Rightarrow> fs \<times> (io_failure + 'a)) \<Rightarrow> fs \<times> (io_failure + 'a)" where
  "fs_try d k = (case fs_call d of (Works, d) \<Rightarrow> k d | (Fails e _, d) \<Rightarrow> (d, Inl (OtherFailure e)))"

text \<open>Files by the names that lead to them from the top of the tree.\<close>

fun node_at :: "fs_node \<Rightarrow> string list \<Rightarrow> fs_node option" where
  "node_at node [] = Some node"
| "node_at (Directory es) (c # cs) = (case map_of es c of Some node \<Rightarrow> node_at node cs | None \<Rightarrow> None)"
| "node_at (RegularFile v) (c # cs) = None"

fun set_node :: "string list \<Rightarrow> fs_node \<Rightarrow> fs_node \<Rightarrow> fs_node" where
  "set_node [] new node = new"
| "set_node (c # cs) new (Directory es) =
     (case map_of es c of
        Some node \<Rightarrow> Directory (bt_insert c (set_node cs new node) es)
      | None \<Rightarrow> if cs = [] then Directory (bt_insert c new es) else Directory es)"
| "set_node (c # cs) new (RegularFile v) = RegularFile v"

definition put_node :: "string list \<Rightarrow> fs_node \<Rightarrow> fs \<Rightarrow> fs" where
  "put_node path node d = d\<lparr>fs_top := set_node path node (fs_top d)\<rparr>"

definition entries_at :: "fs \<Rightarrow> string list \<Rightarrow> (string, fs_node) btree" where
  "entries_at d path = (case node_at (fs_top d) path of Some (Directory es) \<Rightarrow> es | _ \<Rightarrow> [])"

subsection \<open>Paths\<close>

text \<open>The components of a path, and where the path of a family under the root starts (\<open>Path::join\<close>
  starts again at the top when the second path is absolute).\<close>

definition path_parts :: "string \<Rightarrow> string list" where
  "path_parts s = filter (\<lambda>c. c \<noteq> [] \<and> c \<noteq> ''.'') (split_on (CHR ''/'') s)"

definition join_base :: "string \<Rightarrow> fs \<Rightarrow> string list" where
  "join_base cf d = (if starts_with cf ''/'' then [] else fs_root d)"

fun resolve_parts :: "fs_node \<Rightarrow> nat \<Rightarrow> string list \<Rightarrow> string list \<Rightarrow> io_failure + string list" where
  "resolve_parts tree m [] here = Inr here"
| "resolve_parts tree m (c # cs) here =
     (if c = ''..'' then resolve_parts tree m cs (butlast here)
      else case node_at tree (here @ [c]) of
        Some (Directory _) \<Rightarrow> resolve_parts tree m cs (here @ [c])
      | Some (RegularFile _) \<Rightarrow> Inl (OtherFailure ''Not a directory'')
      | None \<Rightarrow> Inl (if m < length c then OtherFailure ''File name too long'' else NoEntry))"

definition nul_in_path :: io_failure where
  "nul_in_path = OtherFailure ''file name contained an unexpected NUL byte''"

definition resolve_dir :: "string \<Rightarrow> fs \<Rightarrow> io_failure + string list" where
  "resolve_dir cf d =
     (if CHR 0x00 \<in> set cf then Inl nul_in_path
      else resolve_parts (fs_top d) (fs_name_max d) (path_parts cf) (join_base cf d))"

text \<open>\<open>create_dir_all\<close>, \<open>write\<close>, \<open>rename\<close> and \<open>remove_file\<close> of the standard library on these paths:
  each component that \<open>create_dir_all\<close> passes is a call and is created if it is missing.\<close>

fun make_dirs :: "string list \<Rightarrow> string list \<Rightarrow> fs \<Rightarrow> fs \<times> (io_failure + unit)" where
  "make_dirs [] here d = (d, Inr ())"
| "make_dirs (c # cs) here d = fs_try d (\<lambda>d.
     if c = ''..'' then make_dirs cs (butlast here) d
     else case node_at (fs_top d) (here @ [c]) of
       Some (Directory _) \<Rightarrow> make_dirs cs (here @ [c]) d
     | Some (RegularFile _) \<Rightarrow> (d, Inl (OtherFailure (if cs = [] then ''File exists'' else ''Not a directory'')))
     | None \<Rightarrow>
         if fs_name_max d < length c then (d, Inl (OtherFailure ''File name too long''))
         else make_dirs cs (here @ [c]) (put_node (here @ [c]) (Directory []) d))"

definition fs_create_dir :: "string \<Rightarrow> fs \<Rightarrow> fs \<times> (io_failure + unit)" where
  "fs_create_dir cf d =
     (if CHR 0x00 \<in> set cf then (d, Inl nul_in_path)
      else if path_parts cf = [] then fs_try d (\<lambda>d. (d, Inr ()))
      else make_dirs (path_parts cf) (join_base cf d) d)"

definition fs_write :: "string \<Rightarrow> string \<Rightarrow> bytes \<Rightarrow> fs \<Rightarrow> fs \<times> (io_failure + unit)" where
  "fs_write cf name v d =
     (case fs_call d of (oc, d) \<Rightarrow>
        case resolve_dir cf d of
          Inl e \<Rightarrow> (d, Inl e)
        | Inr dir \<Rightarrow>
            let es = entries_at d dir; put = (\<lambda>v. put_node dir (Directory (bt_insert name (RegularFile v) es)) d) in
            if fs_name_max d < length name then (d, Inl (OtherFailure ''File name too long''))
            else case map_of es name of
              Some (Directory _) \<Rightarrow> (d, Inl (OtherFailure ''Is a directory''))
            | _ \<Rightarrow>
                (case oc of
                   Works \<Rightarrow> (put v, Inr ())
                 | Fails e (Some part) \<Rightarrow> (put part, Inl (OtherFailure e))
                 | Fails e None \<Rightarrow> (d, Inl (OtherFailure e))))"

definition is_directory :: "fs_node option \<Rightarrow> bool" where
  "is_directory node = (case node of Some (Directory _) \<Rightarrow> True | _ \<Rightarrow> False)"

definition fs_rename :: "string \<Rightarrow> string \<Rightarrow> string \<Rightarrow> fs \<Rightarrow> fs \<times> (io_failure + unit)" where
  "fs_rename cf tmp name d = fs_try d (\<lambda>d.
     case resolve_dir cf d of
       Inl e \<Rightarrow> (d, Inl e)
     | Inr dir \<Rightarrow>
         let es = entries_at d dir in
         case map_of es tmp of
           None \<Rightarrow> (d, Inl NoEntry)
         | Some node \<Rightarrow>
             if name = [] \<or> is_directory (map_of es name) then (d, Inl (OtherFailure ''Is a directory''))
             else (put_node dir (Directory (bt_insert name node (bt_remove tmp es))) d, Inr ()))"

definition fs_remove :: "string \<Rightarrow> string \<Rightarrow> fs \<Rightarrow> fs \<times> (io_failure + unit)" where
  "fs_remove cf name d = fs_try d (\<lambda>d.
     case resolve_dir cf d of
       Inl e \<Rightarrow> (d, Inl e)
     | Inr dir \<Rightarrow>
         let es = entries_at d dir in
         if fs_name_max d < length name then (d, Inl (OtherFailure ''File name too long''))
         else if name = [] \<or> is_directory (map_of es name) then (d, Inl (OtherFailure ''Is a directory''))
         else case map_of es name of
           None \<Rightarrow> (d, Inl NoEntry)
         | Some _ \<Rightarrow> (put_node dir (Directory (bt_remove name es)) d, Inr ()))"

subsection \<open>File names\<close>

definition hex_encode :: "string \<Rightarrow> string" where
  "hex_encode key = concat (map (\<lambda>b. [hex_digit (ch b div 16), hex_digit (ch b mod 16)]) key)"

text \<open>A single character that is left over is no digit (lemma \<open>hex_leftover\<close>), so the second of a
  pair is there whenever the code looks at it.\<close>

fun hex_pairs :: "nat list \<Rightarrow> string option" where
  "hex_pairs (h # l # rest) =
     Option.bind (hex_val h) (\<lambda>hi. Option.bind (hex_val l) (\<lambda>lo.
     map_option (\<lambda>out. char_of (hi * 16 + lo) # out) (hex_pairs rest)))"
| "hex_pairs [c] = None"
| "hex_pairs [] = Some []"

definition hex_decode :: "string \<Rightarrow> string option" where
  "hex_decode s =
     (if length s mod 2 \<noteq> 0 then None
      else Option.bind (hex_pairs (str_chars s)) (\<lambda>out. if utf8_valid out then Some out else None))"

subsection \<open>The store\<close>

record file_store =
  fs_mem :: memory_store
  fs_disk :: fs

definition tmp_name :: "string \<Rightarrow> string" where
  "tmp_name name = ''.'' @ name @ ''.tmp''"

definition persist_put :: "string \<Rightarrow> string \<Rightarrow> bytes \<Rightarrow> fs \<Rightarrow> fs \<times> (io_failure + unit)" where
  "persist_put cf key v d =
     (let name = hex_encode key in
      case fs_create_dir cf d of
        (d, Inl e) \<Rightarrow> (d, Inl e)
      | (d, Inr _) \<Rightarrow>
          (case fs_write cf (tmp_name name) v d of
             (d, Inl e) \<Rightarrow> (d, Inl e)
           | (d, Inr _) \<Rightarrow> fs_rename cf (tmp_name name) name d))"

definition persist_delete :: "string \<Rightarrow> string \<Rightarrow> fs \<Rightarrow> fs \<times> (io_failure + unit)" where
  "persist_delete cf key d =
     (case fs_remove cf (hex_encode key) d of
        (d, Inl NoEntry) \<Rightarrow> (d, Inr ())
      | (d, r) \<Rightarrow> (d, r))"

fun io_store_error :: "io_failure \<Rightarrow> store_error" where
  "io_store_error NoEntry = StoreError ''No such file or directory''"
| "io_store_error (OtherFailure e) = StoreError e"

definition file_put :: "string \<Rightarrow> string \<Rightarrow> bytes \<Rightarrow> file_store \<Rightarrow> file_store \<times> (store_error + unit)" where
  "file_put cf key v s =
     (case memory_put cf key v (fs_mem s) of
        (m, Inl e) \<Rightarrow> (s\<lparr>fs_mem := m\<rparr>, Inl e)
      | (m, Inr _) \<Rightarrow>
          (case persist_put cf key v (fs_disk s) of
             (d, r) \<Rightarrow> (s\<lparr>fs_mem := m, fs_disk := d\<rparr>, map_err io_store_error r)))"

definition file_delete :: "string \<Rightarrow> string \<Rightarrow> file_store \<Rightarrow> file_store \<times> (store_error + unit)" where
  "file_delete cf key s =
     (case memory_delete cf key (fs_mem s) of
        (m, Inl e) \<Rightarrow> (s\<lparr>fs_mem := m\<rparr>, Inl e)
      | (m, Inr _) \<Rightarrow>
          (case persist_delete cf key (fs_disk s) of
             (d, r) \<Rightarrow> (s\<lparr>fs_mem := m, fs_disk := d\<rparr>, map_err io_store_error r)))"

definition file_ops :: "file_store store_ops" where
  "file_ops =
     \<lparr>st_put = file_put, st_delete = file_delete,
      st_get = (\<lambda>s. memory_get (fs_mem s)),
      st_scan = (\<lambda>s. memory_scan (fs_mem s)),
      st_count = (\<lambda>s. memory_count (fs_mem s)),
      st_scan_paged = (\<lambda>s. memory_scan_paged (fs_mem s))\<rparr>"

subsection \<open>Opening a store\<close>

text \<open>\<open>listing\<close> is the order in which a directory is read.  Each \<open>?\<close> of the loop is a call.\<close>

definition fs_tree :: "fs \<Rightarrow> (string, fs_node) btree" where
  "fs_tree d = entries_at d (fs_root d)"

fun load_keys :: "string \<Rightarrow> (string \<times> fs_node) list \<Rightarrow> memory_store \<Rightarrow> fs \<Rightarrow> fs \<times> (io_failure + memory_store)" where
  "load_keys cf [] mem d = (d, Inr mem)"
| "load_keys cf ((name, node) # es) mem d = fs_try d (\<lambda>d. fs_try d (\<lambda>d.
     case node of
       Directory _ \<Rightarrow> load_keys cf es mem d
     | RegularFile v \<Rightarrow>
         (case hex_decode (utf8_lossy name) of
            None \<Rightarrow> load_keys cf es mem d
          | Some key \<Rightarrow> fs_try d (\<lambda>d. load_keys cf es (fst (memory_put cf key v mem)) d))))"

fun load_families ::
  "((string \<times> fs_node) list \<Rightarrow> (string \<times> fs_node) list) \<Rightarrow> (string \<times> fs_node) list \<Rightarrow> memory_store \<Rightarrow> fs
    \<Rightarrow> fs \<times> (io_failure + memory_store)" where
  "load_families listing [] mem d = (d, Inr mem)"
| "load_families listing ((name, node) # es) mem d = fs_try d (\<lambda>d. fs_try d (\<lambda>d.
     case node of
       RegularFile _ \<Rightarrow> load_families listing es mem d
     | Directory keys \<Rightarrow> fs_try d (\<lambda>d.
         case load_keys (utf8_lossy name) (listing keys) mem d of
           (d, Inl e) \<Rightarrow> (d, Inl e)
         | (d, Inr mem) \<Rightarrow> load_families listing es mem d)))"

definition file_open :: "((string \<times> fs_node) list \<Rightarrow> (string \<times> fs_node) list) \<Rightarrow> fs \<Rightarrow> fs \<times> (io_failure + file_store)" where
  "file_open listing d =
     (case make_dirs (fs_root d) [] d of
        (d, Inl e) \<Rightarrow> (d, Inl e)
      | (d, Inr _) \<Rightarrow> fs_try d (\<lambda>d.
          case load_families listing (listing (fs_tree d)) memory_default d of
            (d, Inl e) \<Rightarrow> (d, Inl e)
          | (d, Inr mem) \<Rightarrow> (d, Inr \<lparr>fs_mem = mem, fs_disk = d\<rparr>)))"

subsection \<open>The mirror is a store\<close>

lemma file_put_mem [simp]: "fs_mem (fst (file_put cf key v s)) = fst (memory_put cf key v (fs_mem s))"
  by (simp add: file_put_def split: prod.split sum.split)

lemma file_delete_mem [simp]: "fs_mem (fst (file_delete cf key s)) = fst (memory_delete cf key (fs_mem s))"
  by (simp add: file_delete_def split: prod.split sum.split)

definition file_inv :: "file_store \<Rightarrow> bool" where
  "file_inv s \<longleftrightarrow> memory_inv (fs_mem s)"

lemma file_sel:
  "st_scan file_ops s cf = st_scan memory_ops (fs_mem s) cf"
  "st_get file_ops s cf k = st_get memory_ops (fs_mem s) cf k"
  "st_count file_ops s cf = st_count memory_ops (fs_mem s) cf"
  "st_scan_paged file_ops s cf after limit = st_scan_paged memory_ops (fs_mem s) cf after limit"
  "fs_mem (fst (st_put file_ops cf k v s)) = fst (st_put memory_ops cf k v (fs_mem s))"
  "fs_mem (fst (st_delete file_ops cf k s)) = fst (st_delete memory_ops cf k (fs_mem s))"
  by (simp_all add: file_ops_def memory_ops_def)

interpretation durable: kv_store file_ops file_inv
  by unfold_locales
    (simp_all add: file_inv_def file_sel mem.put_inv mem.delete_inv mem.scan_sorted mem.scan_put
      mem.scan_delete mem.get_scan mem.count_scan mem.paged_scan default_scan_paged_def)

subsection \<open>File names are keys\<close>

lemma char_hex: "char_of (ch b div 16 * 16 + ch b mod 16) = b"
  by simp

lemma high_nibble: "ch b div 16 < 16"
  by (rule less_mult_imp_div_less) (simp add: ch_less_256)

lemma hex_encode_Cons: "hex_encode (b # key) = hex_digit (ch b div 16) # hex_digit (ch b mod 16) # hex_encode key"
  by (simp add: hex_encode_def)

lemma hex_encode_Nil [simp]: "hex_encode [] = []"
  by (simp add: hex_encode_def)

lemma length_hex_encode: "length (hex_encode key) = 2 * length key"
  by (induction key) (simp_all add: hex_encode_Cons)

lemma hex_encode_empty [simp]: "hex_encode key = [] \<longleftrightarrow> key = []"
  by (cases key) (simp_all add: hex_encode_Cons)

lemma hex_encode_ascii: "ascii (hex_encode key)"
proof (induction key)
  case (Cons b key)
  with high_nibble [of b] show ?case by (simp add: hex_encode_Cons ascii_def ch_hex_digit)
qed simp

lemma hex_pairs_encode: "hex_pairs (map ch (hex_encode key)) = Some key"
proof (induction key)
  case (Cons b key)
  with high_nibble [of b] show ?case by (simp add: hex_encode_Cons hex_val_digit char_hex)
qed simp

lemma hex_decode_encode: "hex_decode (hex_encode key) = (if utf8_valid key then Some key else None)"
  by (simp add: hex_decode_def length_hex_encode str_chars_ascii [OF hex_encode_ascii] hex_pairs_encode)

lemma hex_encode_inj [simp]: "hex_encode k = hex_encode k' \<longleftrightarrow> k = k'"
  by (metis hex_pairs_encode option.inject)

lemma hex_decode_tmp [simp]: "hex_decode (tmp_name (hex_encode key)) = None"
  by (simp add: hex_decode_def tmp_name_def length_hex_encode)

lemma tmp_not_hex [simp]: "tmp_name (hex_encode key) \<noteq> hex_encode key'" "hex_encode key' \<noteq> tmp_name (hex_encode key)"
proof -
  have "length (tmp_name (hex_encode key)) mod 2 \<noteq> length (hex_encode key') mod 2"
    by (simp add: tmp_name_def length_hex_encode)
  then show "tmp_name (hex_encode key) \<noteq> hex_encode key'" "hex_encode key' \<noteq> tmp_name (hex_encode key)" by metis+
qed

text \<open>The character that an odd number of them leaves over is no digit, if the bytes are even in number.\<close>

lemma hex_val_ascii: "hex_val c = Some v \<Longrightarrow> c < 128"
  by (auto simp: hex_val_def split: if_splits)

lemma hex_leftover:
  assumes "length s mod 2 = 0" "utf8_valid s" "str_chars s = cs @ [c]" "even (length cs)" "\<forall>x\<in>set cs. hex_val x \<noteq> None"
  shows "hex_val c = None"
proof (rule ccontr)
  assume "hex_val c \<noteq> None"
  then have "\<forall>x\<in>set (cs @ [c]). x < 128" using assms(5) hex_val_ascii by auto
  then have "length (utf8_string (cs @ [c])) = length (cs @ [c])" by (induction cs) (simp_all add: utf8_string_def utf8_encode_def)
  moreover have "utf8_string (cs @ [c]) = s" using utf8_string_str_chars [OF assms(2)] assms(3) by simp
  ultimately show False using assms(1,4) by simp presburger
qed


subsection \<open>What is on disk\<close>

fun file_bytes :: "fs_node option \<Rightarrow> bytes option" where
  "file_bytes (Some (RegularFile v)) = Some v"
| "file_bytes (Some (Directory es)) = None"
| "file_bytes None = None"

text \<open>A family that is a plain name stands for the directory of this name in the root.\<close>

definition plain_name :: "string \<Rightarrow> bool" where
  "plain_name s \<longleftrightarrow> s \<noteq> [] \<and> s \<noteq> ''.'' \<and> s \<noteq> ''..'' \<and> CHR ''/'' \<notin> set s \<and> CHR 0x00 \<notin> set s"

definition root_there :: "fs \<Rightarrow> bool" where
  "root_there d \<longleftrightarrow> (\<exists>es. node_at (fs_top d) (fs_root d) = Some (Directory es))"

definition dir_entries :: "fs \<Rightarrow> string \<Rightarrow> (string, fs_node) btree" where
  "dir_entries d cf = (case map_of (fs_tree d) cf of Some (Directory es) \<Rightarrow> es | _ \<Rightarrow> [])"

definition set_dir :: "string \<Rightarrow> (string, fs_node) btree \<Rightarrow> fs \<Rightarrow> fs" where
  "set_dir cf es d = put_node (fs_root d @ [cf]) (Directory es) d"

definition on_disk :: "fs \<Rightarrow> string \<Rightarrow> string \<Rightarrow> bytes option" where
  "on_disk d cf key = file_bytes (map_of (dir_entries d cf) (hex_encode key))"

lemma set_bt_remove: "p \<in> set (bt_remove k m) \<Longrightarrow> p \<in> set m"
  by (simp add: bt_remove_def)

text \<open>A directory that only the store writes to: its files are named by keys, or do not read as a key.\<close>

fun entry_ok :: "string \<times> fs_node \<Rightarrow> bool" where
  "entry_ok (name, RegularFile v) \<longleftrightarrow>
     name \<noteq> [] \<and> utf8_valid name \<and> (\<forall>key. hex_decode name = Some key \<longleftrightarrow> name = hex_encode key)"
| "entry_ok (name, Directory es) \<longleftrightarrow> True"

fun family_ok :: "string \<times> fs_node \<Rightarrow> bool" where
  "family_ok (cf, RegularFile v) \<longleftrightarrow> True"
| "family_ok (cf, Directory es) \<longleftrightarrow> utf8_valid cf \<and> bt_ok es \<and> (\<forall>e\<in>set es. entry_ok e)"

definition disk_ok :: "fs \<Rightarrow> bool" where
  "disk_ok d \<longleftrightarrow> bt_ok (fs_tree d) \<and> (\<forall>e\<in>set (fs_tree d). family_ok e) \<and> (\<forall>c\<in>set (fs_root d). plain_name c) \<and>
     is_directory (Some (fs_top d))"

definition disk_live :: "fs \<Rightarrow> bool" where
  "disk_live d \<longleftrightarrow> disk_ok d \<and> root_there d"

lemma node_at_snoc:
  "node_at node (path @ [c]) = (case node_at node path of Some (Directory es) \<Rightarrow> map_of es c | _ \<Rightarrow> None)"
  by (induction node path rule: node_at.induct) (auto split: option.split fs_node.split)

lemma node_at_append:
  "node_at node (path @ rest) = (case node_at node path of Some n \<Rightarrow> node_at n rest | None \<Rightarrow> None)"
  by (induction node path rule: node_at.induct) (auto split: option.split)

lemma node_at_set:
  "node_at node path = Some (Directory es) \<Longrightarrow>
   node_at (set_node (path @ [c]) new node) path = Some (Directory (bt_insert c new es))"
  by (induction node path rule: node_at.induct) (auto split: option.split option.splits)

lemma put_node_sel [simp]:
  "fs_root (put_node path node d) = fs_root d" "fs_name_max (put_node path node d) = fs_name_max d"
  "fs_outcomes (put_node path node d) = fs_outcomes d" "fs_root (set_dir cf es d) = fs_root d"
  by (simp_all add: put_node_def set_dir_def)

lemma fs_tree_set:
  "root_there d \<Longrightarrow> fs_tree (set_dir cf es d) = bt_insert cf (Directory es) (fs_tree d) \<and> root_there (set_dir cf es d)"
  by (auto simp: root_there_def fs_tree_def entries_at_def set_dir_def put_node_def node_at_set)

lemma root_there_top: "root_there d \<Longrightarrow> is_directory (Some (fs_top d))"
  by (cases "fs_top d"; cases "fs_root d") (auto simp: root_there_def is_directory_def)

lemma dir_entries_set [simp]:
  "root_there d \<Longrightarrow> dir_entries (set_dir cf es d) cf' = (if cf' = cf then es else dir_entries d cf')"
  by (simp add: dir_entries_def fs_tree_set)

lemma disk_live_set:
  "disk_live d \<Longrightarrow> utf8_valid cf \<Longrightarrow> bt_ok es \<Longrightarrow> (\<forall>e\<in>set es. entry_ok e) \<Longrightarrow> disk_live (set_dir cf es d)"
  by (auto simp: disk_live_def disk_ok_def fs_tree_set root_there_top dest!: set_bt_insert)

text \<open>Where the calls find a plain family.\<close>

lemma split_on_single: "d \<notin> set s \<Longrightarrow> split_on d s = [s]"
  by (induction s) auto

lemma plain_parts: "plain_name cf \<Longrightarrow> path_parts cf = [cf] \<and> join_base cf d = fs_root d"
  by (cases cf) (auto simp: plain_name_def path_parts_def join_base_def split_on_single starts_with_def)

lemma node_at_family: "root_there d \<Longrightarrow> node_at (fs_top d) (fs_root d @ [cf]) = map_of (fs_tree d) cf"
  by (auto simp: root_there_def node_at_snoc fs_tree_def entries_at_def)

lemma entries_at_family: "root_there d \<Longrightarrow> entries_at d (fs_root d @ [cf]) = dir_entries d cf"
  by (simp add: entries_at_def [of d "fs_root d @ [cf]"] node_at_family dir_entries_def)

lemma resolve_plain:
  "plain_name cf \<Longrightarrow> root_there d \<Longrightarrow> resolve_dir cf d =
     (case map_of (fs_tree d) cf of
        Some (Directory _) \<Rightarrow> Inr (fs_root d @ [cf])
      | Some (RegularFile _) \<Rightarrow> Inl (OtherFailure ''Not a directory'')
      | None \<Rightarrow> Inl (if fs_name_max d < length cf then OtherFailure ''File name too long'' else NoEntry))"
  using plain_parts [of cf d]
  by (simp add: resolve_dir_def node_at_family) (simp add: plain_name_def split: option.split fs_node.split)

lemma resolve_plainD:
  "resolve_dir cf d = Inr dir \<Longrightarrow> plain_name cf \<Longrightarrow> root_there d \<Longrightarrow> dir = fs_root d @ [cf]"
  by (auto simp: resolve_plain split: if_splits option.splits fs_node.splits)

lemma dir_entries_ok:
  assumes "disk_ok d"
  shows "bt_ok (dir_entries d cf) \<and> (\<forall>e\<in>set (dir_entries d cf). entry_ok e)"
proof (cases "map_of (fs_tree d) cf")
  case (Some node)
  then have "family_ok (cf, node)" using assms by (auto simp: disk_ok_def dest: map_of_SomeD)
  with Some show ?thesis by (cases node) (simp_all add: dir_entries_def)
qed (simp add: dir_entries_def)

lemma entry_ok_hex: "utf8_valid key \<Longrightarrow> key \<noteq> [] \<Longrightarrow> entry_ok (hex_encode key, RegularFile v)"
  using hex_decode_encode [of key] by (auto simp: ascii_utf8_valid [OF hex_encode_ascii])

lemma entry_ok_tmp: "entry_ok (tmp_name (hex_encode key), RegularFile v)"
proof -
  have "ascii (tmp_name (hex_encode key))" using hex_encode_ascii by (simp add: tmp_name_def ascii_def)
  then show ?thesis by (simp add: ascii_utf8_valid) (simp add: tmp_name_def)
qed

text \<open>Only the directory tree matters, not the outcomes that are left.\<close>

definition same_tree :: "fs \<Rightarrow> fs \<Rightarrow> bool" where
  "same_tree d d' \<longleftrightarrow> fs_top d' = fs_top d \<and> fs_root d' = fs_root d \<and> fs_name_max d' = fs_name_max d"

lemma same_treeD:
  assumes "same_tree d d'"
  shows "disk_ok d' = disk_ok d" "disk_live d' = disk_live d" "root_there d' = root_there d" "on_disk d' = on_disk d"
    "dir_entries d' = dir_entries d" "fs_tree d' = fs_tree d"
proof -
  have e: "entries_at d' = entries_at d" using assms by (simp add: same_tree_def entries_at_def fun_eq_iff)
  show t: "fs_tree d' = fs_tree d" using assms e by (simp add: same_tree_def fs_tree_def)
  then show de: "dir_entries d' = dir_entries d" by (simp add: dir_entries_def fun_eq_iff)
  then show "on_disk d' = on_disk d" by (simp add: on_disk_def fun_eq_iff)
  show r: "root_there d' = root_there d" using assms by (simp add: same_tree_def root_there_def)
  show "disk_ok d' = disk_ok d" using t assms by (simp add: disk_ok_def same_tree_def)
  with r show "disk_live d' = disk_live d" by (simp add: disk_live_def)
qed

lemma fs_call_same: "fs_call d = (oc, d') \<Longrightarrow> same_tree d d' \<and> (fs_outcomes d = [] \<longrightarrow> d' = d \<and> oc = Works)"
  by (auto simp: fs_call_def same_tree_def split: list.splits)

lemma fs_try_cases:
  assumes "fs_try d k = (d', r)"
  obtains d1 where "same_tree d d1" "fs_outcomes d = [] \<longrightarrow> d1 = d" "k d1 = (d', r)"
  | e where "same_tree d d'" "fs_outcomes d \<noteq> []" "r = Inl (OtherFailure e)"
proof -
  obtain oc d1 where c: "fs_call d = (oc, d1)" by fastforce
  show thesis
    using assms fs_call_same [OF c] c that by (cases oc) (auto simp: fs_try_def)
qed

lemma create_dir_keeps:
  assumes "fs_create_dir cf d = (d', r)" "disk_live d" "plain_name cf" "utf8_valid cf"
  shows "disk_live d' \<and> on_disk d' = on_disk d"
proof -
  have "fs_create_dir cf d = make_dirs [cf] (fs_root d) d"
    using plain_parts [OF assms(3), of d] assms(3) by (simp add: fs_create_dir_def plain_name_def)
  with assms(1) have "make_dirs [cf] (fs_root d) d = (d', r)" by simp
  from this [unfolded make_dirs.simps(2)] show ?thesis
  proof (cases rule: fs_try_cases)
    case (1 d1)
    note s = same_treeD [OF 1(1)]
    have live: "disk_live d1" "root_there d1" "fs_root d = fs_root d1"
      using s assms(2) 1(1) by (simp_all add: disk_live_def same_tree_def)
    have cf: "cf \<noteq> ''..''" using assms(3) by (simp add: plain_name_def)
    show ?thesis
    proof (cases "map_of (fs_tree d1) cf")
      case None
      then have "d' = d1 \<or> d' = set_dir cf [] d1"
        using 1(3) cf live by (auto simp: node_at_family set_dir_def split: if_splits)
      moreover have "on_disk (set_dir cf [] d1) = on_disk d1"
        using None live(2) by (auto simp: on_disk_def [abs_def] dir_entries_def [of d1] fun_eq_iff)
      moreover have "disk_live (set_dir cf [] d1)" by (rule disk_live_set [OF live(1) assms(4)]) simp_all
      ultimately show ?thesis using s live(1) by auto
    next
      case (Some node)
      with 1(3) cf live have "d' = d1" by (auto simp: node_at_family split: if_splits fs_node.splits)
      with s live(1) show ?thesis by simp
    qed
  qed (use same_treeD assms(2) in auto)
qed

lemma on_disk_set:
  "root_there d \<Longrightarrow> on_disk (set_dir cf es d) =
     (\<lambda>cf' key. if cf' = cf then file_bytes (map_of es (hex_encode key)) else on_disk d cf' key)"
  by (simp add: on_disk_def fun_eq_iff)

lemma write_tmp_keeps:
  assumes "fs_write cf (tmp_name (hex_encode key)) v d = (d', r)" "disk_live d" "plain_name cf" "utf8_valid cf"
  shows "disk_live d' \<and> on_disk d' = on_disk d \<and>
    (r = Inr () \<longrightarrow> map_of (dir_entries d' cf) (tmp_name (hex_encode key)) = Some (RegularFile v))"
proof -
  obtain oc d1 where c: "fs_call d = (oc, d1)" by fastforce
  note s = same_treeD [OF conjunct1 [OF fs_call_same [OF c]]]
  have live: "disk_live d1" "disk_ok d1" "root_there d1" using s assms(2) by (simp_all add: disk_live_def)
  let ?new = "\<lambda>x. set_dir cf (bt_insert (tmp_name (hex_encode key)) (RegularFile x) (dir_entries d1 cf)) d1"
  have new: "disk_live (?new x) \<and> on_disk (?new x) = on_disk d" for x
    using dir_entries_ok [OF live(2), of cf] s live assms(4) entry_ok_tmp [of key x]
    by (auto simp: on_disk_set fun_eq_iff on_disk_def [of d cf] intro!: disk_live_set dest!: set_bt_insert)
  have "(d', r) = (d1, r) \<and> r \<noteq> Inr () \<or> (\<exists>x. d' = ?new x \<and> (r = Inr () \<longrightarrow> x = v))"
  proof (cases "resolve_dir cf d1")
    case (Inl e)
    with assms(1) c show ?thesis by (auto simp: fs_write_def)
  next
    case (Inr dir)
    note D = resolve_plainD [OF Inr assms(3) live(3)]
    from assms(1) c Inr D show ?thesis
      by (auto simp: fs_write_def Let_def entries_at_family [OF live(3)] set_dir_def split: if_splits option.splits fs_node.splits fs_outcome.splits)
  qed
  then show ?thesis using new s live by auto
qed

lemma rename_moves:
  assumes "fs_rename cf (tmp_name (hex_encode key)) (hex_encode key) d = (d', r)" "disk_live d" "plain_name cf" "utf8_valid cf"
    "utf8_valid key" "map_of (dir_entries d cf) (tmp_name (hex_encode key)) = Some (RegularFile v)"
  shows "disk_live d' \<and> on_disk d' = (if r = Inr () then (on_disk d)(cf := (on_disk d cf)(key \<mapsto> v)) else on_disk d)"
  using assms(1) unfolding fs_rename_def
proof (cases rule: fs_try_cases)
  case (1 d1)
  note s = same_treeD [OF 1(1)]
  have live: "disk_live d1" "disk_ok d1" "root_there d1" using s assms(2) by (simp_all add: disk_live_def)
  let ?new = "set_dir cf (bt_insert (hex_encode key) (RegularFile v) (bt_remove (tmp_name (hex_encode key)) (dir_entries d1 cf))) d1"
  have new: "disk_live ?new" if "key \<noteq> []"
    using dir_entries_ok [OF live(2), of cf] live assms(4) entry_ok_hex [OF assms(5) that, of v]
    by (intro disk_live_set) (auto dest!: set_bt_insert set_bt_remove)
  have upd: "on_disk ?new = (on_disk d)(cf := (on_disk d cf)(key \<mapsto> v))"
    using s live(3) by (auto simp: on_disk_set fun_eq_iff on_disk_def [of d cf])
  have "d' = d1 \<and> r \<noteq> Inr () \<or> d' = ?new \<and> r = Inr () \<and> key \<noteq> []"
  proof (cases "resolve_dir cf d1")
    case (Inl e)
    with 1(3) show ?thesis by auto
  next
    case (Inr dir)
    note D = resolve_plainD [OF Inr assms(3) live(3)]
    from 1(3) Inr D s(5) assms(6) show ?thesis
      by (auto simp: Let_def entries_at_family [OF live(3)] set_dir_def split: if_splits)
  qed
  then show ?thesis using new upd s live by auto
qed (use same_treeD assms(2) in auto)

lemma persist_put_disk:
  assumes "persist_put cf key v d = (d', r)" "disk_live d" "plain_name cf" "utf8_valid cf" "utf8_valid key"
  shows "disk_live d' \<and> on_disk d' = (if r = Inr () then (on_disk d)(cf := (on_disk d cf)(key \<mapsto> v)) else on_disk d)"
proof -
  obtain d1 r1 where c: "fs_create_dir cf d = (d1, r1)" by fastforce
  note k1 = create_dir_keeps [OF c assms(2-4)]
  obtain d2 r2 where w: "fs_write cf (tmp_name (hex_encode key)) v d1 = (d2, r2)" by fastforce
  note k2 = write_tmp_keeps [OF w conjunct1 [OF k1] assms(3,4)]
  show ?thesis
  proof (cases "isl r1 \<or> isl r2")
    case True
    then have "r \<noteq> Inr () \<and> (d' = d1 \<or> d' = d2)"
      using assms(1) c w by (cases r1; cases r2) (auto simp: persist_put_def Let_def)
    with k1 k2 show ?thesis by auto
  next
    case False
    then have "fs_rename cf (tmp_name (hex_encode key)) (hex_encode key) d2 = (d', r)"
      using assms(1) c w by (cases r1; cases r2) (auto simp: persist_put_def Let_def)
    from rename_moves [OF this conjunct1 [OF k2] assms(3-5)] k1 k2 False show ?thesis by (cases r2) auto
  qed
qed

lemma persist_delete_disk:
  assumes "persist_delete cf key d = (d', r)" "disk_live d" "plain_name cf" "utf8_valid cf"
  shows "disk_live d' \<and> on_disk d' = (if r = Inr () then (on_disk d)(cf := (on_disk d cf)(key := None)) else on_disk d)"
proof -
  obtain r0 where rm: "fs_remove cf (hex_encode key) d = (d', r0)" "r = (if r0 = Inl NoEntry then Inr () else r0)"
    using assms(1) by (auto simp: persist_delete_def split: prod.splits sum.splits io_failure.splits)
  from rm(1) show ?thesis unfolding fs_remove_def
  proof (cases rule: fs_try_cases)
    case (1 d1)
    note s = same_treeD [OF 1(1)]
    have live: "disk_live d1" "disk_ok d1" "root_there d1" using s assms(2) by (simp_all add: disk_live_def)
    let ?new = "set_dir cf (bt_remove (hex_encode key) (dir_entries d1 cf)) d1"
    have new: "disk_live ?new"
      using dir_entries_ok [OF live(2), of cf] live assms(4) by (intro disk_live_set) (auto dest!: set_bt_remove)
    have upd: "on_disk ?new = (on_disk d)(cf := (on_disk d cf)(key := None))"
      using s live(3) by (auto simp: on_disk_set fun_eq_iff on_disk_def [of d cf])
    have absent: "on_disk d = (on_disk d)(cf := (on_disk d cf)(key := None))" if "map_of (dir_entries d1 cf) (hex_encode key) = None"
      using that s by (auto simp: on_disk_def fun_eq_iff)
    have "d' = d1 \<and> r0 \<noteq> Inr () \<and> r0 \<noteq> Inl NoEntry \<or> d' = d1 \<and> r0 = Inl NoEntry \<and> map_of (dir_entries d1 cf) (hex_encode key) = None \<or>
      d' = ?new \<and> r0 = Inr ()"
    proof (cases "resolve_dir cf d1")
      case (Inl e)
      then have "r0 = Inl e" "d' = d1" using 1(3) by auto
      moreover have "map_of (fs_tree d1) cf = None" if "e = NoEntry"
        using Inl that resolve_plain [OF assms(3) live(3)] by (auto split: if_splits option.splits fs_node.splits)
      ultimately show ?thesis by (auto simp: dir_entries_def)
    next
      case (Inr dir)
      note D = resolve_plainD [OF Inr assms(3) live(3)]
      from 1(3) Inr D show ?thesis
        by (auto simp: Let_def entries_at_family [OF live(3)] set_dir_def split: if_splits option.splits)
    qed
    then show ?thesis using new upd absent s live rm(2) by auto
  next
    case (2 e)
    with same_treeD [OF 2(1)] assms(2) rm(2) show ?thesis by simp
  qed
qed


subsection \<open>Opening the directory again\<close>

lemma memory_get_put:
  "memory_inv m \<Longrightarrow> memory_inv (fst (memory_put cf k v m)) \<and>
    memory_get (fst (memory_put cf k v m)) cf' k' = (if cf' = cf \<and> k' = k then Some v else memory_get m cf' k')"
  using mem.get_put [of m cf k v cf' k'] mem.put_inv [of m cf k v] by (simp add: memory_ops_def)

lemma load_keys_reads:
  assumes "load_keys cf es m d = (d', r)" "memory_inv m" "\<forall>e\<in>set es. entry_ok e"
    "\<forall>(name, node)\<in>set es. f name = Some node"
  shows "same_tree d d' \<and> (fs_outcomes d = [] \<longrightarrow> d' = d \<and> \<not> isl r) \<and>
    (\<forall>m'. r = Inr m' \<longrightarrow> memory_inv m' \<and>
      (\<forall>cf' key. memory_get m' cf' key =
         (if cf' = cf \<and> hex_encode key \<in> fst ` set es \<and> file_bytes (f (hex_encode key)) \<noteq> None
          then file_bytes (f (hex_encode key)) else memory_get m cf' key)))"
  using assms
proof (induction es arbitrary: m d)
  case Nil
  then show ?case by (auto simp: same_tree_def)
next
  case (Cons e es)
  obtain name node where e: "e = (name, node)" by fastforce
  have f: "f name = Some node" using Cons.prems(4) e by simp
  have rest: "\<forall>e\<in>set es. entry_ok e" "\<forall>(name, node)\<in>set es. f name = Some node" using Cons.prems(3,4) by auto
  have "load_keys cf ((name, node) # es) m d = (d', r)" using Cons.prems(1) e by simp
  from this [unfolded load_keys.simps] show ?case
  proof (cases rule: fs_try_cases)
    case (1 d1)
    from 1(3) show ?thesis
    proof (cases rule: fs_try_cases)
      case (1 d2)
      have t: "same_tree d d2" "fs_outcomes d = [] \<longrightarrow> d2 = d"
        using \<open>same_tree d d1\<close> \<open>same_tree d1 d2\<close> \<open>fs_outcomes d = [] \<longrightarrow> d1 = d\<close> \<open>fs_outcomes d1 = [] \<longrightarrow> d2 = d1\<close>
        by (auto simp: same_tree_def)
      show ?thesis
      proof (cases node)
        case (Directory sub)
        with 1(3) have l: "load_keys cf es m d2 = (d', r)" by simp
        have "file_bytes (f name) = None" using f Directory by simp
        with Cons.IH [OF l Cons.prems(2) rest] t e show ?thesis by (auto simp: same_tree_def)
      next
        case (RegularFile v)
        have ok: "utf8_valid name" "\<And>key. hex_decode name = Some key \<longleftrightarrow> name = hex_encode key"
          using Cons.prems(3) e RegularFile by auto
        show ?thesis
        proof (cases "hex_decode name")
          case None
          with 1(3) RegularFile ok(1) have l: "load_keys cf es m d2 = (d', r)" by (simp add: utf8_lossy_valid)
          have "\<And>key. name \<noteq> hex_encode key" using ok(2) None by auto
          with Cons.IH [OF l Cons.prems(2) rest] t e show ?thesis by (auto simp: same_tree_def)
        next
          case (Some key)
          with ok have name: "name = hex_encode key" "utf8_lossy name = name" by (auto simp: utf8_lossy_valid)
          from 1(3) RegularFile name Some have "fs_try d2 (\<lambda>d. load_keys cf es (fst (memory_put cf key v m)) d) = (d', r)" by simp
          then show ?thesis
          proof (cases rule: fs_try_cases)
            case (1 d3)
            note p = memory_get_put [OF Cons.prems(2), of cf key v]
            from Cons.IH [OF 1(3) conjunct1 [OF p] rest] t 1(1,2) e p f RegularFile name show ?thesis
              by (auto simp: same_tree_def)
          next
            case (2 e')
            with t show ?thesis by (auto simp: same_tree_def)
          qed
        qed
      qed
    next
      case (2 e')
      with \<open>same_tree d d1\<close> \<open>fs_outcomes d = [] \<longrightarrow> d1 = d\<close> show ?thesis by (auto simp: same_tree_def)
    qed
  next
    case (2 e')
    then show ?thesis by auto
  qed
qed


definition bytes_at :: "fs_node option \<Rightarrow> string \<Rightarrow> bytes option" where
  "bytes_at node key = (case node of Some (Directory es) \<Rightarrow> file_bytes (map_of es (hex_encode key)) | _ \<Rightarrow> None)"

lemma on_disk_tree: "on_disk d cf key = bytes_at (map_of (fs_tree d) cf) key"
  by (simp add: on_disk_def dir_entries_def bytes_at_def split: option.split fs_node.split)

lemma load_families_reads:
  assumes "load_families listing fams m d = (d', r)" "memory_inv m" "\<forall>e\<in>set fams. family_ok e"
    "\<forall>(cf, node)\<in>set fams. g cf = Some node" "\<forall>es. set (listing es) = set es"
  shows "same_tree d d' \<and> (fs_outcomes d = [] \<longrightarrow> d' = d \<and> \<not> isl r) \<and>
    (\<forall>m'. r = Inr m' \<longrightarrow> memory_inv m' \<and>
      (\<forall>cf key. memory_get m' cf key =
         (if cf \<in> fst ` set fams \<and> bytes_at (g cf) key \<noteq> None then bytes_at (g cf) key else memory_get m cf key)))"
  using assms(1-4)
proof (induction fams arbitrary: m d)
  case Nil
  then show ?case by (auto simp: same_tree_def)
next
  case (Cons e fams)
  obtain cf node where e: "e = (cf, node)" by fastforce
  have g: "g cf = Some node" using Cons.prems(4) e by simp
  have rest: "\<forall>e\<in>set fams. family_ok e" "\<forall>(cf, node)\<in>set fams. g cf = Some node" using Cons.prems(3,4) by auto
  have "load_families listing ((cf, node) # fams) m d = (d', r)" using Cons.prems(1) e by simp
  from this [unfolded load_families.simps] show ?case
  proof (cases rule: fs_try_cases)
    case (1 d1)
    from 1(3) show ?thesis
    proof (cases rule: fs_try_cases)
      case (1 d2)
      have t: "same_tree d d2" "fs_outcomes d = [] \<longrightarrow> d2 = d"
        using \<open>same_tree d d1\<close> \<open>same_tree d1 d2\<close> \<open>fs_outcomes d = [] \<longrightarrow> d1 = d\<close> \<open>fs_outcomes d1 = [] \<longrightarrow> d2 = d1\<close>
        by (auto simp: same_tree_def)
      show ?thesis
      proof (cases node)
        case (RegularFile v)
        with 1(3) have l: "load_families listing fams m d2 = (d', r)" by simp
        have "bytes_at (g cf) key = None" for key using g RegularFile by (simp add: bytes_at_def)
        with Cons.IH [OF l Cons.prems(2) rest] t e show ?thesis by (auto simp: same_tree_def)
      next
        case (Directory keys)
        have ok: "utf8_valid cf" "bt_ok keys" "\<forall>e\<in>set (listing keys). entry_ok e"
          using Cons.prems(3) e Directory assms(5) by auto
        have f: "\<forall>(name, node)\<in>set (listing keys). map_of keys name = Some node"
          using assms(5) bt_ok_distinct [OF ok(2)] by auto
        have at: "bytes_at (g cf) key = file_bytes (map_of keys (hex_encode key))" for key using g Directory by (simp add: bytes_at_def)
        have keyed: "hex_encode key \<in> fst ` set (listing keys)" if "file_bytes (map_of keys (hex_encode key)) \<noteq> None" for key
          using that assms(5) by (cases "map_of keys (hex_encode key)") (auto dest!: map_of_SomeD intro: rev_image_eqI)
        from 1(3) Directory have "fs_try d2 (\<lambda>d. case load_keys (utf8_lossy cf) (listing keys) m d of
           (d, Inl e) \<Rightarrow> (d, Inl e) | (d, Inr mem) \<Rightarrow> load_families listing fams mem d) = (d', r)" by simp
        then show ?thesis
        proof (cases rule: fs_try_cases)
          case (1 d3)
          obtain d4 r4 where k: "load_keys cf (listing keys) m d3 = (d4, r4)" by fastforce
          note K = load_keys_reads [OF k Cons.prems(2) ok(3) f]
          show ?thesis
          proof (cases r4)
            case (Inl x)
            with 1(3) k ok(1) have "d' = d4" "r = Inl x" by (simp_all add: utf8_lossy_valid)
            with K Inl t 1(1,2) show ?thesis by (auto simp: same_tree_def)
          next
            case (Inr m4)
            with 1(3) k ok(1) have l: "load_families listing fams m4 d4 = (d', r)" by (simp add: utf8_lossy_valid)
            have m4: "memory_inv m4" "\<And>cf' key. memory_get m4 cf' key =
              (if cf' = cf \<and> bytes_at (g cf) key \<noteq> None then bytes_at (g cf) key else memory_get m cf' key)"
              using K Inr at keyed by auto
            note I = Cons.IH [OF l m4(1) rest]
            have "memory_get m' cf' key = (if cf' \<in> fst ` set (e # fams) \<and> bytes_at (g cf') key \<noteq> None
                then bytes_at (g cf') key else memory_get m cf' key)" if "r = Inr m'" for m' cf' key
              using I that m4(2) [of cf' key] e by (cases "cf' = cf") auto
            moreover have "same_tree d d' \<and> (fs_outcomes d = [] \<longrightarrow> d' = d)"
              using I K t 1(1,2) by (simp add: same_tree_def)
            moreover have "fs_outcomes d = [] \<longrightarrow> \<not> isl r" using I K t(2) 1(2) by simp
            ultimately show ?thesis using I by blast
          qed
        next
          case (2 e')
          with t show ?thesis by (auto simp: same_tree_def)
        qed
      qed
    next
      case (2 e')
      with \<open>same_tree d d1\<close> \<open>fs_outcomes d = [] \<longrightarrow> d1 = d\<close> show ?thesis by (auto simp: same_tree_def)
    qed
  next
    case (2 e')
    then show ?thesis by auto
  qed
qed

text \<open>Making the root leaves its entries, which are none if it is made only now.\<close>

lemma make_dirs_root:
  assumes "make_dirs cs here d = (d', r)" "\<forall>c\<in>set cs. plain_name c" "\<exists>es. node_at (fs_top d) here = Some (Directory es)"
    "fs_root d = here @ cs"
  shows "fs_root d' = fs_root d \<and> fs_tree d' = fs_tree d \<and> (fs_outcomes d = [] \<longrightarrow> fs_outcomes d' = []) \<and>
    (r = Inr () \<longrightarrow> root_there d')"
  using assms
proof (induction cs arbitrary: here d)
  case Nil
  then show ?case by (auto simp: root_there_def)
next
  case (Cons c cs)
  have c: "c \<noteq> ''..''" using Cons.prems(2) by (simp add: plain_name_def)
  from Cons.prems(1) [unfolded make_dirs.simps(2)] show ?case
  proof (cases rule: fs_try_cases)
    case (1 d1)
    note s = same_treeD [OF 1(1)]
    have d1: "fs_top d1 = fs_top d" "fs_root d1 = (here @ [c]) @ cs" "fs_outcomes d = [] \<longrightarrow> fs_outcomes d1 = []"
      using 1(1,2) Cons.prems(4) by (auto simp: same_tree_def)
    have rest: "\<forall>c\<in>set cs. plain_name c" using Cons.prems(2) by simp
    obtain es where es: "node_at (fs_top d1) here = Some (Directory es)" using Cons.prems(3) d1(1) by auto
    show ?thesis
    proof (cases "map_of es c")
      case None
      show ?thesis
      proof (cases "fs_name_max d1 < length c")
        case True
        with 1(3) c d1 s es None show ?thesis using 1(1) by (auto simp: same_tree_def node_at_snoc)
      next
        case False
        let ?d = "put_node (here @ [c]) (Directory []) d1"
        have m: "make_dirs cs (here @ [c]) ?d = (d', r)" using 1(3) c False None es by (simp add: node_at_snoc)
        have at: "node_at (fs_top ?d) (here @ [c]) = Some (Directory [])"
          using node_at_set [OF es, of c "Directory []"] by (simp add: put_node_def node_at_snoc)
        have "fs_tree d1 = []" using None es d1(2) by (simp add: fs_tree_def entries_at_def node_at_append)
        moreover have "fs_tree ?d = []"
        proof (cases cs)
          case Nil
          then show ?thesis using at d1(2) by (simp add: fs_tree_def entries_at_def)
        next
          case (Cons c' cs')
          then have "node_at (fs_top ?d) ((here @ [c]) @ cs) = None"
            using node_at_append [of "fs_top ?d" "here @ [c]" cs] at by simp
          then show ?thesis using d1(2) by (simp add: fs_tree_def entries_at_def)
        qed
        ultimately show ?thesis using Cons.IH [OF m rest] at d1 s Cons.prems(4) by auto
      qed
    next
      case (Some node)
      show ?thesis
      proof (cases node)
        case (RegularFile v)
        with 1(3) c Some es have "d' = d1" "r \<noteq> Inr ()" by (auto simp: node_at_snoc)
        with d1 s Cons.prems(4) show ?thesis by simp
      next
        case (Directory sub)
        with 1(3) c Some es have m: "make_dirs cs (here @ [c]) d1 = (d', r)" by (simp add: node_at_snoc)
        have "\<exists>es. node_at (fs_top d1) (here @ [c]) = Some (Directory es)" using Some Directory es by (simp add: node_at_snoc)
        from Cons.IH [OF m rest this d1(2)] d1 s Cons.prems(4) show ?thesis by auto
      qed
    qed
  next
    case (2 e)
    with same_treeD [OF 2(1)] show ?thesis by (auto simp: same_tree_def)
  qed
qed

lemma make_dirs_there:
  "node_at (fs_top d) (here @ cs) = Some (Directory es) \<Longrightarrow> fs_outcomes d = [] \<Longrightarrow> \<forall>c\<in>set cs. plain_name c \<Longrightarrow>
   make_dirs cs here d = (d, Inr ())"
proof (induction cs arbitrary: here)
  case (Cons c cs)
  obtain sub where sub: "node_at (fs_top d) (here @ [c]) = Some (Directory sub)"
  proof -
    from Cons.prems(1) node_at_append [of "fs_top d" "here @ [c]" cs] obtain n where
      n: "node_at (fs_top d) (here @ [c]) = Some n" "node_at n cs = Some (Directory es)"
      by (auto split: option.splits)
    then obtain sub where "n = Directory sub" by (cases n; cases cs) auto
    with n(1) show thesis using that by simp
  qed
  with Cons.IH [of "here @ [c]"] Cons.prems show ?case by (auto simp: fs_try_def fs_call_def plain_name_def)
qed simp

text \<open>An opened store shows exactly the files, whatever the order they are listed in; without a failing
  call the store is opened.\<close>

lemma file_open_reads:
  assumes "file_open listing d = (d', r)" "disk_ok d" "\<forall>es. set (listing es) = set es"
  shows "(root_there d \<and> fs_outcomes d = [] \<longrightarrow> \<not> isl r) \<and>
    (\<forall>s. r = Inr s \<longrightarrow> file_inv s \<and> disk_live (fs_disk s) \<and> on_disk (fs_disk s) = on_disk d \<and> (\<forall>cf key. st_get file_ops s cf key = on_disk d cf key))"
proof -
  obtain d1 r1 where m: "make_dirs (fs_root d) [] d = (d1, r1)" by fastforce
  have plain: "\<forall>c\<in>set (fs_root d). plain_name c" using assms(2) by (simp add: disk_ok_def)
  have there: "d1 = d \<and> r1 = Inr ()" if "root_there d" "fs_outcomes d = []"
    using make_dirs_there [of d "[]" "fs_root d"] that plain m by (auto simp: root_there_def)
  have top: "\<exists>es. node_at (fs_top d) [] = Some (Directory es)"
    using assms(2) by (cases "fs_top d") (simp_all add: disk_ok_def is_directory_def)
  note M = make_dirs_root [OF m plain top append_Nil [symmetric]]
  have d1: "disk_ok d1" "on_disk d1 = on_disk d" if "r1 = Inr ()"
    using M that assms(2) by (auto simp: disk_ok_def root_there_top on_disk_def fun_eq_iff dir_entries_def)
  show ?thesis
  proof (cases r1)
    case (Inl e)
    with assms(1) m have "r = Inl e" by (simp add: file_open_def)
    with Inl there show ?thesis by auto
  next
    case (Inr u)
    then have r1: "r1 = Inr ()" by simp
    with assms(1) m have "fs_try d1 (\<lambda>d. case load_families listing (listing (fs_tree d)) memory_default d of
        (d, Inl e) \<Rightarrow> (d, Inl e) | (d, Inr mem) \<Rightarrow> (d, Inr \<lparr>fs_mem = mem, fs_disk = d\<rparr>)) = (d', r)"
      by (simp add: file_open_def)
    then show ?thesis
    proof (cases rule: fs_try_cases)
      case (1 d2)
      note t = same_treeD [OF 1(1)]
      have ok2: "disk_ok d2" "disk_live d2" "on_disk d2 = on_disk d" using t d1 [OF r1] M r1 by (simp_all add: disk_live_def)
      obtain d3 r3 where l: "load_families listing (listing (fs_tree d2)) memory_default d2 = (d3, r3)" by fastforce
      have fams: "\<forall>e\<in>set (listing (fs_tree d2)). family_ok e" "\<forall>(cf, node)\<in>set (listing (fs_tree d2)). map_of (fs_tree d2) cf = Some node"
        using ok2(1) assms(3) bt_ok_distinct [of "fs_tree d2"] by (auto simp: disk_ok_def)
      note L = load_families_reads [OF l memory_inv_default fams assms(3)]
      have listed: "cf \<in> fst ` set (listing (fs_tree d2))" if "on_disk d2 cf key \<noteq> None" for cf key
        using that assms(3) by (cases "map_of (fs_tree d2) cf") (auto simp: on_disk_tree bytes_at_def dest!: map_of_SomeD intro: rev_image_eqI)
      have empty: "memory_get memory_default cf key = None" for cf key by (simp add: memory_get_def memory_default_def)
      have reads: "memory_get m cf key = on_disk d2 cf key" if "r3 = Inr m" for m cf key
      proof -
        have "memory_get m cf key = (if cf \<in> fst ` set (listing (fs_tree d2)) \<and> on_disk d2 cf key \<noteq> None then on_disk d2 cf key else None)"
          using L that by (simp add: on_disk_tree empty)
        then show ?thesis using listed [of cf key] by (cases "on_disk d2 cf key") auto
      qed
      show ?thesis
      proof (cases r3)
        case (Inl e)
        with 1(3) l have "r = Inl e" by simp
        with L Inl there 1(2) show ?thesis by auto
      next
        case (Inr m)
        with 1(3) l have r: "r = Inr \<lparr>fs_mem = m, fs_disk = d3\<rparr>" by auto
        have "same_tree d2 d3" using L by simp
        from same_treeD [OF this] r L Inr reads [OF Inr] ok2 show ?thesis by (simp add: file_inv_def file_ops_def)
      qed
    next
      case (2 e)
      with there show ?thesis by auto
    qed
  qed
qed

subsection \<open>Writes that are reported as done are durable\<close>

datatype store_write = WritePut string string bytes | WriteDelete string string

fun file_write :: "store_write \<Rightarrow> file_store \<Rightarrow> file_store \<times> (store_error + unit)" where
  "file_write (WritePut cf key v) s = st_put file_ops cf key v s"
| "file_write (WriteDelete cf key) s = st_delete file_ops cf key s"

fun file_run :: "store_write list \<Rightarrow> file_store \<Rightarrow> file_store \<times> (store_error + unit) list" where
  "file_run [] s = (s, [])"
| "file_run (w # ws) s = (case file_write w s of (s, r) \<Rightarrow> case file_run ws s of (s, rs) \<Rightarrow> (s, r # rs))"

type_synonym contents = "string \<Rightarrow> string \<Rightarrow> bytes option"

fun write_effect :: "store_write \<Rightarrow> contents \<Rightarrow> contents" where
  "write_effect (WritePut cf key v) t = t(cf := (t cf)(key \<mapsto> v))"
| "write_effect (WriteDelete cf key) t = t(cf := (t cf)(key := None))"

text \<open>The writes that were reported as done.\<close>

definition done_writes :: "store_write list \<Rightarrow> (store_error + unit) list \<Rightarrow> store_write list" where
  "done_writes ws rs = map fst (filter (\<lambda>(w, r). r = Inr ()) (zip ws rs))"

fun write_ok :: "store_write \<Rightarrow> bool" where
  "write_ok (WritePut cf key v) \<longleftrightarrow> plain_name cf \<and> utf8_valid cf \<and> utf8_valid key"
| "write_ok (WriteDelete cf key) \<longleftrightarrow> plain_name cf \<and> utf8_valid cf"

lemma file_write_step:
  assumes "file_write w s = (s', r)" "file_inv s" "disk_live (fs_disk s)" "write_ok w"
  shows "file_inv s' \<and> disk_live (fs_disk s') \<and> st_get file_ops s' = write_effect w (st_get file_ops s) \<and>
    on_disk (fs_disk s') = (if r = Inr () then write_effect w (on_disk (fs_disk s)) else on_disk (fs_disk s))"
proof (cases w)
  case (WritePut cf key v)
  obtain d r0 where p: "persist_put cf key v (fs_disk s) = (d, r0)" by fastforce
  have s': "s' = fst (st_put file_ops cf key v s)" "r = snd (st_put file_ops cf key v s)" using assms(1) WritePut by simp_all
  have d: "fs_disk s' = d" "r = map_err io_store_error r0"
    using s' p by (simp_all add: file_ops_def file_put_def memory_put_def split: prod.split)
  have "plain_name cf" "utf8_valid cf" "utf8_valid key" using assms(4) WritePut by simp_all
  from persist_put_disk [OF p assms(3) this] d WritePut s' durable.put_inv [OF assms(2)] durable.get_put [OF assms(2)]
  show ?thesis by (auto simp: fun_eq_iff map_err_Inr)
next
  case (WriteDelete cf key)
  obtain d r0 where p: "persist_delete cf key (fs_disk s) = (d, r0)" by fastforce
  have s': "s' = fst (st_delete file_ops cf key s)" "r = snd (st_delete file_ops cf key s)" using assms(1) WriteDelete by simp_all
  have d: "fs_disk s' = d" "r = map_err io_store_error r0"
    using s' p by (simp_all add: file_ops_def file_delete_def memory_delete_def split: prod.split option.split)
  have "plain_name cf" "utf8_valid cf" using assms(4) WriteDelete by simp_all
  from persist_delete_disk [OF p assms(3) this] d WriteDelete s' durable.delete_inv [OF assms(2)] durable.get_delete [OF assms(2)]
  show ?thesis by (auto simp: fun_eq_iff map_err_Inr)
qed

lemma file_run_step:
  assumes "file_run ws s = (s', rs)" "file_inv s" "disk_live (fs_disk s)" "\<forall>w\<in>set ws. write_ok w"
  shows "file_inv s' \<and> disk_live (fs_disk s') \<and> length rs = length ws \<and> st_get file_ops s' = fold write_effect ws (st_get file_ops s) \<and>
    on_disk (fs_disk s') = fold write_effect (done_writes ws rs) (on_disk (fs_disk s))"
  using assms
proof (induction ws arbitrary: s rs)
  case (Cons w ws)
  obtain s1 r where w: "file_write w s = (s1, r)" by fastforce
  obtain rs' where rs: "file_run ws s1 = (s', rs')" "rs = r # rs'" using Cons.prems(1) w by (auto split: prod.splits)
  have step: "file_inv s1" "disk_live (fs_disk s1)" "st_get file_ops s1 = write_effect w (st_get file_ops s)"
    "on_disk (fs_disk s1) = (if r = Inr () then write_effect w (on_disk (fs_disk s)) else on_disk (fs_disk s))"
    using file_write_step [OF w Cons.prems(2,3)] Cons.prems(4) by simp_all
  from Cons.IH [OF rs(1) step(1,2)] Cons.prems(4) step(3,4) rs(2) show ?case by (simp add: done_writes_def)
qed (simp add: done_writes_def)

lemma reopened_store:
  assumes "\<forall>es. set (listing es) = set es" "disk_ok d0" "file_open listing d0 = (d1, Inr s)"
    "\<forall>w\<in>set ws. write_ok w" "file_run ws s = (s', rs)"
  shows "\<exists>s''. snd (file_open listing ((fs_disk s')\<lparr>fs_outcomes := []\<rparr>)) = Inr s'' \<and>
    st_get file_ops s'' = fold write_effect (done_writes ws rs) (on_disk d0) \<and>
    st_get file_ops s' = fold write_effect ws (on_disk d0) \<and>
    (set rs \<subseteq> {Inr ()} \<longrightarrow> (\<forall>cf. st_scan file_ops s'' cf = st_scan file_ops s' cf))"
proof -
  let ?d = "(fs_disk s')\<lparr>fs_outcomes := []\<rparr>"
  have o: "file_inv s" "disk_live (fs_disk s)" "on_disk (fs_disk s) = on_disk d0" "st_get file_ops s = on_disk d0"
    using file_open_reads [OF assms(3,2,1)] by (auto simp: fun_eq_iff)
  have r: "file_inv s'" "disk_live (fs_disk s')" "length rs = length ws" "st_get file_ops s' = fold write_effect ws (on_disk d0)"
    "on_disk (fs_disk s') = fold write_effect (done_writes ws rs) (on_disk d0)"
    using file_run_step [OF assms(5) o(1,2) assms(4)] o(3,4) by simp_all
  have t: "same_tree (fs_disk s') ?d" by (simp add: same_tree_def)
  obtain d2 r2 where open2: "file_open listing ?d = (d2, r2)" by fastforce
  from file_open_reads [OF open2 _ assms(1)] same_treeD [OF t] r(2) [unfolded disk_live_def] obtain s'' where s'': "r2 = Inr s''" "file_inv s''"
    "st_get file_ops s'' = fold write_effect (done_writes ws rs) (on_disk d0)"
    using r(5) by (cases r2) (auto simp: fun_eq_iff)
  have "st_scan file_ops s'' cf = st_scan file_ops s' cf" if "set rs \<subseteq> {Inr ()}" for cf
  proof -
    have "filter (\<lambda>(w, r). r = Inr ()) (zip ws rs) = zip ws rs"
      using that by (intro filter_True) (auto dest: set_zip_rightD)
    then have "st_get file_ops s'' = st_get file_ops s'" using s''(3) r(3,4) by (simp add: done_writes_def)
    then have "map_of (st_scan file_ops s'' cf) = map_of (st_scan file_ops s' cf)"
      using durable.get_scan [OF s''(2)] durable.get_scan [OF r(1)] by (metis ext)
    then show ?thesis by (intro bt_ext durable.scan_sorted s''(2) r(1))
  qed
  with open2 s'' r(4) show ?thesis by auto
qed

text \<open>C14: The file-backed store is durable for column families whose names are plain (not empty, not a dot or
  two, without slash and NUL), in a root that only stores write to: however the calls of the file
  system fail or the process stops between two operations, opening the directory again - in whatever
  order it is listed - shows for every key exactly what the puts and deletes that were reported as done
  have left, and each other write not even in part.  While the store runs, its reads show all writes; so
  if none was refused, the store that is opened again scans every column family as the store that was
  closed.\<close>

theorem file_store_durable:
  assumes "\<forall>es. set (listing es) = set es" "disk_ok d0" "file_open listing d0 = (d1, Inr s)"
    "\<forall>w\<in>set ws. write_ok w" "file_run ws s = (s', rs)"
  shows "\<exists>s''. snd (file_open listing ((fs_disk s')\<lparr>fs_outcomes := []\<rparr>)) = Inr s'' \<and>
    st_get file_ops s'' = fold write_effect (done_writes ws rs) (on_disk d0) \<and>
    st_get file_ops s' = fold write_effect ws (on_disk d0) \<and>
    (set rs \<subseteq> {Inr ()} \<longrightarrow> (\<forall>cf. st_scan file_ops s'' cf = st_scan file_ops s' cf))"
  by (rule reopened_store [OF assms])

definition sample_disk :: fs where
  "sample_disk = \<lparr>fs_top = Directory [(''data'', Directory [])], fs_root = [''data''], fs_name_max = 255, fs_outcomes = []\<rparr>"

lemma sample_disk_ok: "disk_ok sample_disk"
  by (simp add: disk_ok_def sample_disk_def fs_tree_def entries_at_def plain_name_def is_directory_def bt_ok_def)

theorem file_store_durable_witness:
  "\<exists>s s' s''. file_open id sample_disk = (sample_disk, Inr s) \<and>
    file_run [WritePut ''events'' ''k'' [1], WriteDelete ''events'' ''k'', WritePut ''events'' ''m'' [2]] s = (s', [Inr (), Inr (), Inr ()]) \<and>
    snd (file_open id ((fs_disk s')\<lparr>fs_outcomes := []\<rparr>)) = Inr s'' \<and> st_get file_ops s'' ''events'' ''m'' = Some [2]"
proof -
  let ?ws = "[WritePut ''events'' ''k'' [1], WriteDelete ''events'' ''k'', WritePut ''events'' ''m'' [2]]"
  let ?s = "\<lparr>fs_mem = memory_default, fs_disk = sample_disk\<rparr>"
  have o: "file_open id sample_disk = (sample_disk, Inr ?s)" by code_simp
  have ok: "\<forall>w\<in>set ?ws. write_ok w" by (simp add: ascii_utf8_valid plain_name_def)
  obtain s' where r: "file_run ?ws ?s = (s', [Inr (), Inr (), Inr ()])"
  proof -
    have "snd (file_run ?ws ?s) = [Inr (), Inr (), Inr ()]" by code_simp
    then show thesis by (metis that prod.collapse)
  qed
  from file_store_durable [OF _ sample_disk_ok o ok r] obtain s'' where "snd (file_open id ((fs_disk s')\<lparr>fs_outcomes := []\<rparr>)) = Inr s''"
    "st_get file_ops s'' = fold write_effect (done_writes ?ws [Inr (), Inr (), Inr ()]) (on_disk sample_disk)" by auto
  with o r show ?thesis by (auto simp: done_writes_def)
qed

text \<open>A key of more than 125 bytes needs a name longer than file systems commonly allow: its write is
  refused each time, while the mirror answers reads with it until the store is opened again.\<close>

lemma make_dirs_name_max: "fs_name_max (fst (make_dirs cs here d)) = fs_name_max d"
  by (induction cs arbitrary: here d)
    (auto simp: fs_try_def fs_call_def split: list.splits fs_outcome.splits option.splits fs_node.splits)

lemma create_dir_name_max: "fs_name_max (fst (fs_create_dir cf d)) = fs_name_max d"
  by (auto simp: fs_create_dir_def make_dirs_name_max fs_try_def fs_call_def split: list.splits fs_outcome.splits)

lemma long_key_refused:
  assumes "fs_name_max (fs_disk s) < 2 * length key + 5" "file_inv s" "disk_live (fs_disk s)" "plain_name cf" "utf8_valid cf" "utf8_valid key"
  shows "isl (snd (st_put file_ops cf key v s)) \<and> st_get file_ops (fst (st_put file_ops cf key v s)) cf key = Some v \<and>
    on_disk (fs_disk (fst (st_put file_ops cf key v s))) = on_disk (fs_disk s)"
proof -
  obtain d1 r1 where c: "fs_create_dir cf (fs_disk s) = (d1, r1)" by fastforce
  obtain d2 r2 where w: "fs_write cf (tmp_name (hex_encode key)) v d1 = (d2, r2)" by fastforce
  have "fs_name_max d1 < length (tmp_name (hex_encode key))"
    using assms(1) create_dir_name_max [of cf "fs_disk s"] c by (simp add: tmp_name_def length_hex_encode)
  moreover obtain oc d where "fs_call d1 = (oc, d)" by fastforce
  moreover from this have "fs_name_max d = fs_name_max d1" by (auto simp: fs_call_def split: list.splits)
  ultimately have "isl r2" using w by (auto simp: fs_write_def Let_def split: sum.splits)
  then have "isl (snd (persist_put cf key v (fs_disk s)))"
    using c w by (cases r1; cases r2) (simp_all add: persist_put_def Let_def)
  then have l: "isl (snd (st_put file_ops cf key v s))"
    by (auto simp: file_ops_def file_put_def memory_put_def isl_def split: prod.splits)
  obtain s' r where p: "file_write (WritePut cf key v) s = (s', r)" by fastforce
  from file_write_step [OF p assms(2,3)] assms(4-6) l p durable.get_put [OF assms(2)] show ?thesis by auto
qed

text \<open>A family whose name is a path is written below its first component, where opening does not look: the
  write is reported as done, but a store that is opened again does not have it.\<close>

lemma nested_family_lost:
  "case file_put ''a/b'' ''k'' [1] \<lparr>fs_mem = memory_default, fs_disk = sample_disk\<rparr> of (s, r) \<Rightarrow>
     r = Inr () \<and> st_get file_ops s ''a/b'' ''k'' = Some [1] \<and>
     (case file_open id (fs_disk s) of (_, Inr s') \<Rightarrow> st_get file_ops s' ''a/b'' ''k'' = None | _ \<Rightarrow> False)"
  by code_simp

end
