(* ===== verification/Boot.thy ===== *)
theory Boot
  imports Sessions FileStore
begin

section \<open>Starting the server (gm-server)\<close>

text \<open>
  What the binary does before it listens: the composed server over the store, an account for a first
  use if the environment names one, and the ingress around it.  The environment variables and the
  socket are not modelled.  Over the file-backed store the account is there again after a restart.
\<close>

definition boot :: "('s, 'c) server_env \<Rightarrow> string option \<Rightarrow> 's \<Rightarrow> 'c \<Rightarrow> ('s, 'c) server" where
  "boot env demo store clock =
     (let server = server_new store clock in
      case Option.bind demo (split_once (CHR '':'')) of
        Some (localpart, password) \<Rightarrow> fst (register_account env localpart password server)
      | None \<Rightarrow> server)"

definition boot_ingress :: "('s, 'c) server_env \<Rightarrow> ('s, 'c) server ingress" where
  "boot_ingress env = with_server (gauss_homeserver env)"

lemma boot_account:
  assumes "CHR '':'' \<notin> set localpart" "full_user_id env localpart = Some u"
  shows "boot env (Some (localpart @ CHR '':'' # password)) s c =
    server_new (account_register (srv_ops env) (srv_sip env) u password s) c"
  using assms split_once_append [of "CHR '':''" localpart password] by (simp add: boot_def register_account_def server_new_def)

text \<open>The account a server was started with survives a restart: if the file system took its write, a
  server over the directory opened again, whatever the order of its listing, logs the user in with the
  same password.\<close>

theorem boot_account_survives:
  assumes "srv_ops env = file_ops" "\<forall>es. set (listing es) = set es" "disk_ok d0" "file_open listing d0 = (d1, Inr s)"
    "CHR '':'' \<notin> set localpart" "full_user_id env localpart = Some u" "utf8_valid (user_as_str u)"
    "snd (st_put file_ops cf_ACCOUNTS (user_as_str u) (as_bytes (verifier (srv_sip env) u password)) s) = Inr ()"
  shows "\<exists>s'. snd (file_open listing ((fs_disk (sv_store (boot env (Some (localpart @ CHR '':'' # password)) s c)))\<lparr>fs_outcomes := []\<rparr>)) = Inr s' \<and>
    (\<exists>sv grant. password_login env localpart password (server_new s' c') = (sv, Some grant) \<and> grant_user_id grant = u)"
proof -
  let ?w = "WritePut cf_ACCOUNTS (user_as_str u) (as_bytes (verifier (srv_sip env) u password))"
  have "plain_name cf_ACCOUNTS" "utf8_valid cf_ACCOUNTS" by (simp_all add: cf_ACCOUNTS_def ascii_utf8_valid plain_name_def)
  then have ok: "\<forall>w\<in>set [?w]. write_ok w" using assms(7) by simp
  have store: "sv_store (boot env (Some (localpart @ CHR '':'' # password)) s c) = fst (file_write ?w s)"
    by (simp add: boot_account [OF assms(5,6)] server_new_def account_register_def assms(1))
  have run: "file_run [?w] s = (fst (file_write ?w s), [Inr ()])" using assms(8) by (simp add: prod_eq_iff split: prod.split)
  from reopened_store [OF assms(2-4) ok run] obtain s' where s':
    "snd (file_open listing ((fs_disk (fst (file_write ?w s)))\<lparr>fs_outcomes := []\<rparr>)) = Inr s'"
    "st_get file_ops s' = write_effect ?w (on_disk d0)" by (auto simp: done_writes_def)
  have "account_verify file_ops (srv_sip env) u password s'" by (simp add: account_verify_def s'(2))
  then have "\<exists>sv grant. password_login env localpart password (server_new s' c') = (sv, Some grant) \<and> grant_user_id grant = u"
    by (simp add: password_login_def assms(1,6) server_new_def split: prod.split)
  with s'(1) store show ?thesis by auto
qed

definition sample_file_env :: "(file_store, nat) server_env" where
  "sample_file_env = \<lparr>srv_ops = file_ops, srv_sip = (\<lambda>_. 7), srv_now = (\<lambda>c. (of_nat c, Suc c)), srv_name = ''x''\<rparr>"

lemma sample_accounts_put:
  "snd (persist_put cf_ACCOUNTS (user_as_str (UserId ''@a:x'')) v sample_disk) = Inr ()"
proof -
  have "cf_ACCOUNTS \<noteq> ''..''" "CHR 0x00 \<notin> set cf_ACCOUNTS" "length cf_ACCOUNTS < 100" by (simp_all add: cf_ACCOUNTS_def)
  moreover have "path_parts cf_ACCOUNTS = [cf_ACCOUNTS]" "join_base cf_ACCOUNTS d = fs_root d" for d
    using plain_parts [of cf_ACCOUNTS d] by (simp_all add: cf_ACCOUNTS_def plain_name_def)
  ultimately show ?thesis
    by (simp add: persist_put_def fs_create_dir_def fs_try_def fs_call_def fs_write_def fs_rename_def sample_disk_def
        is_directory_def put_node_def entries_at_def resolve_dir_def tmp_name_def length_hex_encode Let_def)
qed

theorem boot_account_survives_witness:
  "\<exists>s'. snd (file_open id ((fs_disk (sv_store (boot sample_file_env (Some ''a:p'') \<lparr>fs_mem = memory_default, fs_disk = sample_disk\<rparr> 0)))
      \<lparr>fs_outcomes := []\<rparr>)) = Inr s' \<and>
    (\<exists>sv grant. password_login sample_file_env ''a'' ''p'' (server_new s' 5) = (sv, Some grant) \<and> grant_user_id grant = UserId ''@a:x'')"
proof -
  have "file_open id sample_disk = (sample_disk, Inr \<lparr>fs_mem = memory_default, fs_disk = sample_disk\<rparr>)" by code_simp
  moreover note sample_disk_ok
  moreover have "full_user_id sample_file_env ''a'' = Some (UserId ''@a:x'')" by code_simp
  moreover have "snd (st_put file_ops cf_ACCOUNTS (user_as_str (UserId ''@a:x'')) v \<lparr>fs_mem = memory_default, fs_disk = sample_disk\<rparr>) = Inr ()" for v
    using sample_accounts_put [of v]
    by (simp add: file_ops_def file_put_def memory_put_def map_err_Inr case_prod_unfold)
  ultimately show ?thesis
    using boot_account_survives [of sample_file_env id sample_disk sample_disk
        "\<lparr>fs_mem = memory_default, fs_disk = sample_disk\<rparr>" "''a''" "UserId ''@a:x''" "''p''" 0 5]
    by (simp add: sample_file_env_def ascii_utf8_valid)
qed

end
