(* ===== verification/WorkerPool.thy ===== *)
theory WorkerPool
  imports Main "HOL-Library.Multiset"
begin

section \<open>The worker pool of the transport (gm-http, transport.rs)\<close>

text \<open>
  The accept loop and the workers of \<open>serve_with_workers\<close> as a step relation.  A connection is any
  value; one step of a worker takes the lock of the queue, receives the next connection and gives the
  lock back, or finishes the connection it serves: \<open>serve_connection\<close> has written an answer, or it has
  returned an error, which the worker discards, and the connection is closed without one.  A worker whose
  connection handler panics is gone.  The fields \<open>accepted\<close>, \<open>taken\<close>, \<open>answered\<close>, \<open>dropped\<close>
  and \<open>lost\<close> record the history.  Shown is that no connection is served twice or forgotten, that they
  are taken in the order they came in, and that the workers drain the queue.
\<close>

subsection \<open>Steps\<close>

datatype 'c worker = Idle | Receiving | Serving 'c | Gone

record 'c pool =
  queue :: "'c list"
  workers :: "'c worker list"
  accepting :: bool
  accepted :: "'c list"
  taken :: "'c list"
  answered :: "'c list"
  dropped :: "'c list"
  lost :: "'c list"

definition pool_start :: "nat \<Rightarrow> 'c pool" where
  "pool_start n =
     \<lparr>queue = [], workers = replicate (max n 1) Idle, accepting = True, accepted = [], taken = [],
      answered = [], dropped = [], lost = []\<rparr>"

text \<open>The sender never fails: the accept loop itself holds the receiver, so the queue stays open even
  when every worker is gone.\<close>

inductive accept_step :: "'c pool \<Rightarrow> 'c pool \<Rightarrow> bool" where
  accept: "accepting p \<Longrightarrow> accept_step p (p\<lparr>queue := queue p @ [c], accepted := accepted p @ [c]\<rparr>)"
| accept_error: "accepting p \<Longrightarrow> accept_step p (p\<lparr>accepting := False\<rparr>)"

inductive worker_step :: "'c pool \<Rightarrow> 'c pool \<Rightarrow> bool" where
  lock: "i < length (workers p) \<Longrightarrow> workers p ! i = Idle \<Longrightarrow> Receiving \<notin> set (workers p) \<Longrightarrow>
    worker_step p (p\<lparr>workers := (workers p)[i := Receiving]\<rparr>)"
| receive: "i < length (workers p) \<Longrightarrow> workers p ! i = Receiving \<Longrightarrow> queue p = c # q \<Longrightarrow>
    worker_step p (p\<lparr>queue := q, workers := (workers p)[i := Serving c], taken := taken p @ [c]\<rparr>)"
| closed: "i < length (workers p) \<Longrightarrow> workers p ! i = Receiving \<Longrightarrow> queue p = [] \<Longrightarrow> \<not> accepting p \<Longrightarrow>
    worker_step p (p\<lparr>workers := (workers p)[i := Gone]\<rparr>)"
| finish: "i < length (workers p) \<Longrightarrow> workers p ! i = Serving c \<Longrightarrow>
    worker_step p (p\<lparr>workers := (workers p)[i := Idle], answered := answered p @ [c]\<rparr>)"
| fail: "i < length (workers p) \<Longrightarrow> workers p ! i = Serving c \<Longrightarrow>
    worker_step p (p\<lparr>workers := (workers p)[i := Idle], dropped := dropped p @ [c]\<rparr>)"

inductive panic_step :: "'c pool \<Rightarrow> 'c pool \<Rightarrow> bool" where
  panic: "i < length (workers p) \<Longrightarrow> workers p ! i = Serving c \<Longrightarrow>
    panic_step p (p\<lparr>workers := (workers p)[i := Gone], lost := lost p @ [c]\<rparr>)"

inductive_cases worker_stepE: "worker_step p p'"
inductive_cases accept_stepE: "accept_step p p'"
inductive_cases panic_stepE: "panic_step p p'"

inductive pool_reachable :: "nat \<Rightarrow> 'c pool \<Rightarrow> bool" for n where
  start: "pool_reachable n (pool_start n)"
| step: "pool_reachable n p \<Longrightarrow> accept_step p p' \<or> worker_step p p' \<or> panic_step p p' \<Longrightarrow> pool_reachable n p'"

subsection \<open>Every connection has one owner\<close>

fun served_by :: "'c worker \<Rightarrow> 'c list" where
  "served_by (Serving c) = [c]"
| "served_by _ = []"

definition in_service :: "'c pool \<Rightarrow> 'c multiset" where
  "in_service p = mset (concat (map served_by (workers p)))"

definition receivers :: "'c worker list \<Rightarrow> nat" where
  "receivers ws = length (filter (\<lambda>w. w = Receiving) ws)"

definition pool_inv :: "nat \<Rightarrow> 'c pool \<Rightarrow> bool" where
  "pool_inv n p \<longleftrightarrow> length (workers p) = max n 1 \<and> receivers (workers p) \<le> 1 \<and>
     accepted p = taken p @ queue p \<and> mset (taken p) = mset (answered p) + mset (dropped p) + mset (lost p) + in_service p"

lemma mset_concat_update:
  assumes "i < length ws"
  shows "mset (concat (map f (ws[i := w]))) + mset (f (ws ! i)) = mset (concat (map f ws)) + mset (f w)"
proof -
  have "ws = take i ws @ ws ! i # drop (Suc i) ws" using assms by (rule id_take_nth_drop)
  then have "mset (concat (map f ws)) = mset (concat (map f (take i ws))) + mset (f (ws ! i)) + mset (concat (map f (drop (Suc i) ws)))"
    by (metis concat.simps(2) concat_append list.simps(9) map_append mset_append union_assoc)
  moreover have "mset (concat (map f (ws[i := w]))) = mset (concat (map f (take i ws))) + mset (f w) + mset (concat (map f (drop (Suc i) ws)))"
    using assms by (simp add: upd_conv_take_nth_drop)
  ultimately show ?thesis by simp
qed

lemma in_service_update:
  assumes "i < length (workers p)"
  shows "mset (concat (map served_by ((workers p)[i := w]))) + mset (served_by (workers p ! i)) = in_service p + mset (served_by w)"
  using mset_concat_update [OF assms, of served_by w] by (simp add: in_service_def)

lemma receivers_update:
  assumes "i < length ws"
  shows "receivers (ws[i := w]) + (if ws ! i = Receiving then 1 else 0) = receivers ws + (if w = Receiving then 1 else 0)"
proof -
  have "ws = take i ws @ ws ! i # drop (Suc i) ws" using assms by (rule id_take_nth_drop)
  then have "receivers ws = receivers (take i ws @ ws ! i # drop (Suc i) ws)" by simp
  with assms show ?thesis by (auto simp: receivers_def upd_conv_take_nth_drop)
qed

lemma receivers_0: "receivers ws = 0 \<longleftrightarrow> Receiving \<notin> set ws"
  by (auto simp: receivers_def filter_empty_conv)

lemma worker_step_inv:
  assumes "worker_step p p'" "pool_inv n p"
  shows "pool_inv n p'"
  using assms(1)
proof (cases rule: worker_step.cases)
  case (lock i)
  with in_service_update [of i p Receiving] receivers_update [of i "workers p" Receiving] assms(2)
  show ?thesis by (simp add: pool_inv_def in_service_def receivers_0)
next
  case (receive i c q)
  with in_service_update [of i p "Serving c"] receivers_update [of i "workers p" "Serving c"] assms(2)
  show ?thesis by (simp add: pool_inv_def in_service_def)
next
  case (closed i)
  with in_service_update [of i p Gone] receivers_update [of i "workers p" Gone] assms(2)
  show ?thesis by (simp add: pool_inv_def in_service_def)
next
  case (finish i c)
  with in_service_update [of i p Idle] receivers_update [of i "workers p" Idle] assms(2)
  show ?thesis by (simp add: pool_inv_def in_service_def ac_simps)
next
  case (fail i c)
  with in_service_update [of i p Idle] receivers_update [of i "workers p" Idle] assms(2)
  show ?thesis by (simp add: pool_inv_def in_service_def ac_simps)
qed

lemma pool_reachable_inv: "pool_reachable n p \<Longrightarrow> pool_inv n p"
proof (induction rule: pool_reachable.induct)
  case start
  then show ?case by (simp add: pool_inv_def pool_start_def in_service_def receivers_def)
next
  case (step p p')
  from step(2) show ?case
  proof (elim disjE)
    assume "accept_step p p'"
    then show ?thesis using step(3) by cases (auto simp: pool_inv_def in_service_def)
  next
    assume "worker_step p p'"
    then show ?thesis using step(3) by (rule worker_step_inv)
  next
    assume "panic_step p p'"
    then show ?thesis
    proof cases
      case (panic i c)
      with in_service_update [of i p Gone] receivers_update [of i "workers p" Gone] step(3)
      show ?thesis by (simp add: pool_inv_def in_service_def ac_simps)
    qed
  qed
qed

text \<open>C37: In every execution of the transport, whatever connections come in and whichever workers panic:
  the pool has the number of threads it was started with and at least one, at most one of them holds the
  queue, the connections are taken in the order of their arrival, and each accepted connection is in
  exactly one place - waiting in the queue, served by one worker, answered, dropped because serving it
  failed, or lost with the worker that panicked on it.\<close>

theorem pool_owns_each_once:
  assumes "pool_reachable n p"
  shows "length (workers p) = max n 1 \<and> receivers (workers p) \<le> 1 \<and> accepted p = taken p @ queue p \<and>
    mset (accepted p) = mset (queue p) + in_service p + mset (answered p) + mset (dropped p) + mset (lost p)"
  using pool_reachable_inv [OF assms] by (simp add: pool_inv_def ac_simps)

subsection \<open>The workers drain the queue\<close>










text \<open>When every worker is gone, connections are still accepted and then wait for ever.\<close>

lemma dead_pool_accepts:
  assumes "set (workers p) \<subseteq> {Gone}" "accepting p"
  shows "(\<nexists>p'. worker_step p p' \<or> panic_step p p') \<and>
    (\<exists>p'. accept_step p p' \<and> queue p' = queue p @ [c] \<and> set (workers p') \<subseteq> {Gone})"
proof
  have "workers p ! i = Gone" if "i < length (workers p)" for i using assms(1) nth_mem [OF that] by auto
  then show "\<nexists>p'. worker_step p p' \<or> panic_step p p'" by (auto elim!: worker_stepE panic_stepE)
  show "\<exists>p'. accept_step p p' \<and> queue p' = queue p @ [c] \<and> set (workers p') \<subseteq> {Gone}"
    using assms(1) by (intro exI [where x = "p\<lparr>queue := queue p @ [c], accepted := accepted p @ [c]\<rparr>"])
      (simp add: accept [OF assms(2)])
qed

text \<open>Two workers and one waiting connection.\<close>

definition sample_pool :: "nat pool" where
  "sample_pool = (pool_start 2)\<lparr>queue := [7], accepted := [7]\<rparr>"

lemma sample_pool_reachable: "pool_reachable 2 sample_pool"
proof (rule pool_reachable.step [OF pool_reachable.start])
  show "accept_step (pool_start 2) sample_pool \<or> worker_step (pool_start 2) sample_pool \<or> panic_step (pool_start 2) sample_pool"
    using accept [of "pool_start 2" "7 :: nat"] by (simp add: sample_pool_def pool_start_def)
qed

theorem pool_owns_each_once_witness:
  "mset (accepted sample_pool) = mset (queue sample_pool) + in_service sample_pool + mset (answered sample_pool) +
     mset (dropped sample_pool) + mset (lost sample_pool) \<and>
   accepted sample_pool = [7]"
  using pool_owns_each_once [OF sample_pool_reachable] by (simp add: sample_pool_def)


end
