(* ===== verification/ClientCore.thy ===== *)
theory ClientCore
  imports AuditLog
begin

section \<open>The client core (gauss-core)\<close>

text \<open>
  The Rust core of the client: its errors, the namespaced agent events and the capability grant, the
  session, the cache of timelines, the sync window, the placeholder for encryption, and the agent
  surface with its approvals and its audit log.  The crate has types of its own for what the server
  crates also name; they carry the prefix \<open>core_\<close>.  The audit entries and the digest are written as in
  the server's \<open>audit.rs\<close>, so the entry type and the check of a chain are those of theory AuditLog, with
  \<open>actor\<close> for the field \<open>agent\<close>.  Shown is that the surface accounts for every approval.
\<close>

subsection \<open>Errors, sessions and timelines\<close>

datatype core_error =
    NotAuthenticated
  | Authentication string
  | Network string
  | StoreFailure string
  | Crypto string
  | AgentDenied string
  | AuditIntegrity string
  | Unimplemented string

fun core_error_display :: "core_error \<Rightarrow> string" where
  "core_error_display NotAuthenticated = ''no active session''"
| "core_error_display (Authentication m) = ''authentication failed: '' @ m"
| "core_error_display (Network m) = ''network error: '' @ m"
| "core_error_display (StoreFailure m) = ''store error: '' @ m"
| "core_error_display (Crypto m) = ''crypto error: '' @ m"
| "core_error_display (AgentDenied m) = ''agent action denied: '' @ m"
| "core_error_display (AuditIntegrity m) = ''audit integrity error: '' @ m"
| "core_error_display (Unimplemented what) = ''not yet implemented: '' @ what"

datatype login_method = Password | Oidc | Restore

record core_session =
  cs_homeserver :: string
  cs_user_id :: string
  cs_device_id :: string
  cs_method :: login_method
  cs_key_backup_enabled :: bool

definition core_session_new :: "string \<Rightarrow> string \<Rightarrow> string \<Rightarrow> login_method \<Rightarrow> core_session" where
  "core_session_new hs user device m =
     \<lparr>cs_homeserver = hs, cs_user_id = user, cs_device_id = device, cs_method = m, cs_key_backup_enabled = False\<rparr>"

datatype timeline_kind =
    Message string
  | AgentToolCall string string
  | AgentToolResult string string
  | ApprovalPrompt u64 string

record timeline_item =
  ti_sender :: string
  ti_kind :: timeline_kind

definition timeline_message :: "string \<Rightarrow> string \<Rightarrow> timeline_item" where
  "timeline_message author body = \<lparr>ti_sender = author, ti_kind = Message body\<rparr>"

definition is_agentic :: "timeline_item \<Rightarrow> bool" where
  "is_agentic item = (case ti_kind item of Message _ \<Rightarrow> False | _ \<Rightarrow> True)"

text \<open>The cache of timelines; the order of the hash map is never observed.\<close>

type_synonym core_store = "(string, timeline_item list) btree"

definition core_append :: "string \<Rightarrow> timeline_item \<Rightarrow> core_store \<Rightarrow> core_store" where
  "core_append room item st = bt_insert room ((case map_of st room of Some items \<Rightarrow> items | None \<Rightarrow> []) @ [item]) st"

definition core_timeline :: "core_store \<Rightarrow> string \<Rightarrow> timeline_item list" where
  "core_timeline st room = (case map_of st room of Some items \<Rightarrow> items | None \<Rightarrow> [])"

definition core_room_count :: "core_store \<Rightarrow> nat" where
  "core_room_count st = length st"

text \<open>The window of rooms; the length wraps at the width of \<open>usize\<close> in a release build.\<close>

record sync_window =
  win_start :: u64
  win_end :: u64

definition sync_window_new :: "u64 \<Rightarrow> u64 \<Rightarrow> sync_window" where
  "sync_window_new a b = (if a \<le> b then \<lparr>win_start = a, win_end = b\<rparr> else \<lparr>win_start = b, win_end = a\<rparr>)"

definition sync_window_len :: "sync_window \<Rightarrow> u64" where
  "sync_window_len w = win_end w - win_start w + 1"

definition sync_window_is_empty :: "sync_window \<Rightarrow> bool" where
  "sync_window_is_empty w = False"

subsection \<open>Encryption\<close>

text \<open>The trait is a record of operations; the only provider refuses every operation.\<close>

record crypto_provider =
  cp_is_cross_signed :: bool
  cp_key_backup_active :: bool
  cp_encrypt :: "string \<Rightarrow> bytes \<Rightarrow> core_error + bytes"
  cp_decrypt :: "string \<Rightarrow> bytes \<Rightarrow> core_error + bytes"
  cp_share_room_key :: "string \<Rightarrow> string \<Rightarrow> core_error + unit"

definition vodozemac_provider :: crypto_provider where
  "vodozemac_provider =
     \<lparr>cp_is_cross_signed = False, cp_key_backup_active = False,
      cp_encrypt = (\<lambda>_ _. Inl (Unimplemented ''e2ee.encrypt (vodozemac)'')),
      cp_decrypt = (\<lambda>_ _. Inl (Unimplemented ''e2ee.decrypt (vodozemac)'')),
      cp_share_room_key = (\<lambda>_ _. Inl (Unimplemented ''e2ee.share_room_key''))\<rparr>"

subsection \<open>Agent events and grants\<close>

definition TYPE_TOOL_CALL :: string where "TYPE_TOOL_CALL = ''m.gauss.agent.tool_call''"
definition TYPE_TOOL_RESULT :: string where "TYPE_TOOL_RESULT = ''m.gauss.agent.tool_result''"
definition TYPE_CAPABILITY :: string where "TYPE_CAPABILITY = ''m.gauss.agent.capability''"
definition TYPE_APPROVAL :: string where "TYPE_APPROVAL = ''m.gauss.agent.approval''"

datatype core_class = CoreAuto | CoreReview | CoreForbidden

record core_tool_call =
  tc_call_id :: string
  tc_tool :: string
  tc_args_summary :: string

record core_tool_result =
  tr_call_id :: string
  tr_tool :: string
  tr_ok :: bool
  tr_summary :: string

record approval_receipt =
  ar_call_id :: string
  ar_decided_by :: string
  ar_approved :: bool

record core_grant =
  cg_agent :: string
  cg_allowed_tools :: "string list"
  cg_accessible_rooms :: "string list"
  cg_rate_limit_per_min :: u32
  cg_default_class :: core_class
  cg_overrides :: "(string \<times> core_class) list"

datatype agent_event =
  ToolCallEvent core_tool_call | ToolResultEvent core_tool_result | ApprovalEvent approval_receipt | CapabilityEvent core_grant

fun agent_event_type :: "agent_event \<Rightarrow> string" where
  "agent_event_type (ToolCallEvent _) = TYPE_TOOL_CALL"
| "agent_event_type (ToolResultEvent _) = TYPE_TOOL_RESULT"
| "agent_event_type (ApprovalEvent _) = TYPE_APPROVAL"
| "agent_event_type (CapabilityEvent _) = TYPE_CAPABILITY"

definition core_deny_all :: "string \<Rightarrow> core_grant" where
  "core_deny_all a =
     \<lparr>cg_agent = a, cg_allowed_tools = [], cg_accessible_rooms = [], cg_rate_limit_per_min = 0,
      cg_default_class = CoreForbidden, cg_overrides = []\<rparr>"

definition core_permits_tool :: "core_grant \<Rightarrow> string \<Rightarrow> bool" where
  "core_permits_tool g tool \<longleftrightarrow> tool \<in> set (cg_allowed_tools g)"

definition core_permits_room :: "core_grant \<Rightarrow> string \<Rightarrow> bool" where
  "core_permits_room g room \<longleftrightarrow> room \<in> set (cg_accessible_rooms g)"

definition core_classify :: "core_grant \<Rightarrow> string \<Rightarrow> string \<Rightarrow> core_class" where
  "core_classify g tool room =
     (if \<not> core_permits_room g room \<or> \<not> core_permits_tool g tool then CoreForbidden
      else case List.find (\<lambda>(t, _). t = tool) (cg_overrides g) of Some (_, c) \<Rightarrow> c | None \<Rightarrow> cg_default_class g)"

subsection \<open>The agent surface\<close>

datatype core_gate = Allow | NeedsApproval u64 | Denied core_error

datatype approval_decision = Approve | Deny

record approval_request =
  rq_id :: u64
  rq_agent :: string
  rq_tool :: string
  rq_proposed_action :: string

definition core_audit_append :: "(bytes \<Rightarrow> u64) \<Rightarrow> string \<Rightarrow> string \<Rightarrow> audit_entry list \<Rightarrow> audit_entry list" where
  "core_audit_append sip a ev es =
     (let prev = (if es = [] then 0 else hash (last es))
      in es @ [\<lparr>actor = a, event = ev, prev_hash = prev, hash = digest sip a ev prev\<rparr>])"

definition core_audit_verify :: "(bytes \<Rightarrow> u64) \<Rightarrow> audit_entry list \<Rightarrow> nat + unit" where
  "core_audit_verify sip es = verify_from sip 0 0 es"

record agent_surface =
  as_next_id :: u64
  as_pending :: "approval_request list"
  as_audit :: "audit_entry list"

definition agent_surface_new :: agent_surface where
  "agent_surface_new = \<lparr>as_next_id = 0, as_pending = [], as_audit = []\<rparr>"

definition core_request_approval ::
  "(bytes \<Rightarrow> u64) \<Rightarrow> string \<Rightarrow> string \<Rightarrow> string \<Rightarrow> agent_surface \<Rightarrow> agent_surface \<times> u64" where
  "core_request_approval sip a tool proposed s =
     (let i = as_next_id s;
          s = s\<lparr>as_next_id := i + 1\<rparr>;
          s = s\<lparr>as_audit := core_audit_append sip a (''approval_requested: '' @ tool) (as_audit s)\<rparr>;
          s = s\<lparr>as_pending := as_pending s @ [\<lparr>rq_id = i, rq_agent = a, rq_tool = tool, rq_proposed_action = proposed\<rparr>]\<rparr>
      in (s, i))"

definition core_evaluate ::
  "(bytes \<Rightarrow> u64) \<Rightarrow> core_grant \<Rightarrow> string \<Rightarrow> string \<Rightarrow> string \<Rightarrow> agent_surface \<Rightarrow> agent_surface \<times> core_gate" where
  "core_evaluate sip g room tool proposed s =
     (case core_classify g tool room of
        CoreForbidden \<Rightarrow>
          (s\<lparr>as_audit := core_audit_append sip (cg_agent g) (''denied_by_scope: '' @ tool) (as_audit s)\<rparr>,
           Denied (AgentDenied (tool @ '' is not permitted in '' @ room)))
      | CoreAuto \<Rightarrow>
          (s\<lparr>as_audit := core_audit_append sip (cg_agent g) (''auto_allowed: '' @ tool) (as_audit s)\<rparr>, Allow)
      | CoreReview \<Rightarrow>
          (case core_request_approval sip (cg_agent g) tool proposed s of (s, i) \<Rightarrow> (s, NeedsApproval i)))"

text \<open>The position of the first pending request with an id splits the list.\<close>

definition core_resolve :: "(bytes \<Rightarrow> u64) \<Rightarrow> u64 \<Rightarrow> approval_decision \<Rightarrow> agent_surface \<Rightarrow> agent_surface \<times> bool" where
  "core_resolve sip i decision s =
     (let prior = takeWhile (\<lambda>r. rq_id r \<noteq> i) (as_pending s) in
      case dropWhile (\<lambda>r. rq_id r \<noteq> i) (as_pending s) of
        [] \<Rightarrow> (s, False)
      | req # later \<Rightarrow>
          (let s = s\<lparr>as_pending := prior @ later\<rparr>;
               verb = (case decision of Approve \<Rightarrow> ''approved'' | Deny \<Rightarrow> ''denied'')
           in (s\<lparr>as_audit := core_audit_append sip (rq_agent req) (verb @ '': '' @ rq_tool req) (as_audit s)\<rparr>, True)))"

subsection \<open>The entry point\<close>

record gauss_core =
  gc_session :: "core_session option"
  gc_store :: core_store
  gc_agents :: agent_surface

definition gauss_core_new :: gauss_core where
  "gauss_core_new = \<lparr>gc_session = None, gc_store = [], gc_agents = agent_surface_new\<rparr>"

definition gc_is_authenticated :: "gauss_core \<Rightarrow> bool" where
  "gc_is_authenticated c \<longleftrightarrow> gc_session c \<noteq> None"

definition gc_set_session :: "core_session \<Rightarrow> gauss_core \<Rightarrow> gauss_core" where
  "gc_set_session s c = c\<lparr>gc_session := Some s\<rparr>"

subsection \<open>Executions of the surface\<close>

datatype core_op =
    RequestApproval string string string
  | Evaluate core_grant string string string
  | Resolve u64 approval_decision

datatype core_outcome = Issued u64 | Gated core_gate | Resolved bool

fun core_step :: "(bytes \<Rightarrow> u64) \<Rightarrow> core_op \<Rightarrow> agent_surface \<Rightarrow> agent_surface \<times> core_outcome" where
  "core_step sip (RequestApproval a tool proposed) s = apsnd Issued (core_request_approval sip a tool proposed s)"
| "core_step sip (Evaluate g room tool proposed) s = apsnd Gated (core_evaluate sip g room tool proposed s)"
| "core_step sip (Resolve i decision) s = apsnd Resolved (core_resolve sip i decision s)"

fun core_run :: "(bytes \<Rightarrow> u64) \<Rightarrow> core_op list \<Rightarrow> agent_surface \<Rightarrow> agent_surface \<times> (core_op \<times> core_outcome) list" where
  "core_run sip [] s = (s, [])"
| "core_run sip (op # ops) s =
     (case core_step sip op s of (s, oc) \<Rightarrow> case core_run sip ops s of (s, tr) \<Rightarrow> (s, (op, oc) # tr))"

fun issued_id :: "core_op \<times> core_outcome \<Rightarrow> u64 option" where
  "issued_id (_, Issued i) = Some i"
| "issued_id (_, Gated (NeedsApproval i)) = Some i"
| "issued_id _ = None"

fun resolved_id :: "core_op \<times> core_outcome \<Rightarrow> u64 option" where
  "resolved_id (Resolve i _, Resolved True) = Some i"
| "resolved_id _ = None"

abbreviation issued :: "(core_op \<times> core_outcome) list \<Rightarrow> u64 list" where
  "issued tr \<equiv> List.map_filter issued_id tr"

abbreviation resolved :: "(core_op \<times> core_outcome) list \<Rightarrow> u64 list" where
  "resolved tr \<equiv> List.map_filter resolved_id tr"

text \<open>An action is let through at once only if the grant names its tool and its room and classes it as
  automatic.\<close>

fun allowed_by_grant :: "core_op \<times> core_outcome \<Rightarrow> bool" where
  "allowed_by_grant (Evaluate g room tool _, Gated Allow) \<longleftrightarrow>
     tool \<in> set (cg_allowed_tools g) \<and> room \<in> set (cg_accessible_rooms g) \<and> core_classify g tool room = CoreAuto"
| "allowed_by_grant (_, Gated Allow) \<longleftrightarrow> False"
| "allowed_by_grant _ \<longleftrightarrow> True"

lemma core_audit_chain:
  "es = audit_chain sip 0 xs \<Longrightarrow> core_audit_append sip a ev es = audit_chain sip 0 (xs @ [(a, ev)])"
  by (simp add: core_audit_append_def audit_chain_append last_hash_def Let_def)

lemma core_run_append:
  "core_run sip (ops @ [op]) s =
     (case core_run sip ops s of (s, tr) \<Rightarrow> case core_step sip op s of (s, oc) \<Rightarrow> (s, tr @ [(op, oc)]))"
  by (induction ops arbitrary: s) (simp_all split: prod.split)

definition surface_inv :: "(bytes \<Rightarrow> u64) \<Rightarrow> agent_surface \<Rightarrow> (core_op \<times> core_outcome) list \<Rightarrow> bool" where
  "surface_inv sip s tr \<longleftrightarrow>
     issued tr = map of_nat [0..<length (issued tr)] \<and> as_next_id s = of_nat (length (issued tr)) \<and>
     distinct (resolved tr) \<and> set (resolved tr) \<subseteq> set (issued tr) \<and>
     map rq_id (as_pending s) = filter (\<lambda>i. i \<notin> set (resolved tr)) (issued tr) \<and>
     (\<exists>xs. as_audit s = audit_chain sip 0 xs) \<and>
     length (as_audit s) = length (filter (\<lambda>(_, oc). oc \<noteq> Resolved False) tr) \<and>
     list_all allowed_by_grant tr"

lemma u64_of_nat_inj: "m < 2 ^ 64 \<Longrightarrow> n < 2 ^ 64 \<Longrightarrow> (of_nat m :: u64) = of_nat n \<longleftrightarrow> m = n"
  by (simp add: word_of_nat_eq_iff take_bit_nat_eq_self)

lemma length_core_audit_append [simp]: "length (core_audit_append sip a ev es) = Suc (length es)"
  by (simp add: core_audit_append_def Let_def)

lemma issued_distinct:
  assumes "surface_inv sip s tr" "length tr \<le> 2 ^ 64"
  shows "distinct (issued tr)"
proof -
  have "length (issued tr) \<le> length tr" by (simp add: List.map_filter_def length_filter_le)
  then have "inj_on (of_nat :: nat \<Rightarrow> u64) (set [0..<length (issued tr)])"
    using assms(2) by (auto intro!: inj_onI simp: u64_of_nat_inj)
  moreover have "issued tr = map of_nat [0..<length (issued tr)]" using assms(1) by (simp add: surface_inv_def)
  ultimately show ?thesis by (metis distinct_map distinct_upt)
qed

lemma map_filter_snoc: "List.map_filter f (xs @ [x]) = List.map_filter f xs @ (case f x of Some y \<Rightarrow> [y] | None \<Rightarrow> [])"
  by (simp add: List.map_filter_def split: option.split)


lemma fresh_id:
  assumes "surface_inv sip s tr" "length tr < 2 ^ 64"
  shows "as_next_id s \<notin> set (issued tr)"
proof
  have l: "length (issued tr) < 2 ^ 64" using assms(2) by (simp add: List.map_filter_def le_less_trans [OF length_filter_le])
  assume "as_next_id s \<in> set (issued tr)"
  moreover have "issued tr = map of_nat [0..<length (issued tr)]" "as_next_id s = of_nat (length (issued tr))"
    using assms(1) by (simp_all add: surface_inv_def)
  ultimately obtain k where "k < length (issued tr)" "(of_nat (length (issued tr)) :: u64) = of_nat k"
    by (metis (no_types, lifting) atLeastLessThan_iff image_iff list.set_map set_upt)
  with l show False by (simp add: u64_of_nat_inj)
qed

lemma inv_issue:
  assumes "surface_inv sip s tr" "length tr < 2 ^ 64" "core_request_approval sip a tool proposed s = (s', i)"
    "issued_id e = Some i" "resolved_id e = None" "snd e \<noteq> Resolved False" "allowed_by_grant e"
  shows "surface_inv sip s' (tr @ [e])"
proof -
  have i: "i = as_next_id s" "i \<notin> set (issued tr)"
    using assms(3) fresh_id [OF assms(1,2)] by (auto simp: core_request_approval_def Let_def)
  obtain xs where xs: "as_audit s = audit_chain sip 0 xs" using assms(1) by (auto simp: surface_inv_def)
  have "as_audit s' = audit_chain sip 0 (xs @ [(a, ''approval_requested: '' @ tool)])"
    using assms(3) core_audit_chain [OF xs] by (auto simp: core_request_approval_def Let_def)
  moreover have "as_next_id s' = i + 1" "map rq_id (as_pending s') = map rq_id (as_pending s) @ [i]"
    using assms(3) by (auto simp: core_request_approval_def Let_def)
  moreover have "length (as_audit s') = Suc (length (as_audit s))"
    using assms(3) by (auto simp: core_request_approval_def Let_def)
  moreover have "issued (tr @ [e]) = issued tr @ [i]" "resolved (tr @ [e]) = resolved tr"
    using assms(4,5) by (simp_all add: map_filter_snoc)
  moreover have "i \<notin> set (resolved tr)" "i = of_nat (length (issued tr))" using assms(1) i by (auto simp: surface_inv_def)
  ultimately show ?thesis using assms(1,6,7) by (cases e) (auto simp: surface_inv_def)
qed

lemma inv_log:
  assumes "surface_inv sip s tr" "issued_id e = None" "resolved_id e = None" "snd e \<noteq> Resolved False" "allowed_by_grant e"
  shows "surface_inv sip (s\<lparr>as_audit := core_audit_append sip a ev (as_audit s)\<rparr>) (tr @ [e])"
proof -
  obtain xs where xs: "as_audit s = audit_chain sip 0 xs" using assms(1) by (auto simp: surface_inv_def)
  have "issued (tr @ [e]) = issued tr" "resolved (tr @ [e]) = resolved tr"
    using assms(2,3) by (simp_all add: map_filter_snoc)
  moreover have "length xs = length (as_audit s)" by (simp add: xs)
  ultimately show ?thesis using core_audit_chain [OF xs] assms(1,4,5) by (cases e) (auto simp: surface_inv_def)
qed

lemma filter_split:
  assumes "distinct (map f xs)" "dropWhile (\<lambda>r. f r \<noteq> i) xs = x # later"
  shows "map f (takeWhile (\<lambda>r. f r \<noteq> i) xs @ later) = filter (\<lambda>j. j \<noteq> i) (map f xs) \<and> i \<in> set (map f xs)"
proof -
  define ys where "ys = takeWhile (\<lambda>r. f r \<noteq> i) xs"
  have xs: "xs = ys @ x # later" using assms(2) takeWhile_dropWhile_id [of "\<lambda>r. f r \<noteq> i" xs] by (simp add: ys_def)
  have x: "f x = i" using assms(2) by (metis (mono_tags, lifting) dropWhile_eq_Cons_conv)
  have "\<forall>r\<in>set ys. f r \<noteq> i" by (auto simp: ys_def dest: set_takeWhileD)
  moreover have "i \<notin> f ` set later" using assms(1) x by (auto simp: xs)
  then have "\<forall>r\<in>set later. f r \<noteq> i" by (auto simp: image_iff)
  ultimately have "filter (\<lambda>j. j \<noteq> i) (map f xs) = map f ys @ map f later"
    by (simp add: xs x filter_map comp_def filter_id_conv)
  moreover have "i \<in> set (map f xs)" using x by (simp add: xs)
  ultimately show ?thesis by (simp add: ys_def)
qed

lemma inv_resolve:
  assumes "surface_inv sip s tr" "length tr \<le> 2 ^ 64" "core_resolve sip i decision s = (s', found)"
  shows "surface_inv sip s' (tr @ [(Resolve i decision, Resolved found)])"
proof (cases "dropWhile (\<lambda>r. rq_id r \<noteq> i) (as_pending s)")
  case Nil
  with assms(3) have "s' = s" "\<not> found" by (simp_all add: core_resolve_def)
  with assms(1) show ?thesis by (simp add: surface_inv_def map_filter_snoc)
next
  case (Cons req later)
  let ?s = "s\<lparr>as_pending := takeWhile (\<lambda>r. rq_id r \<noteq> i) (as_pending s) @ later\<rparr>"
  obtain ev where s': "s' = ?s\<lparr>as_audit := core_audit_append sip (rq_agent req) ev (as_audit ?s)\<rparr>" "found"
    using assms(3) Cons by (auto simp: core_resolve_def Let_def)
  obtain xs where xs: "as_audit s = audit_chain sip 0 xs" using assms(1) by (auto simp: surface_inv_def)
  have "distinct (map rq_id (as_pending s))"
    using issued_distinct [OF assms(1,2)] assms(1) by (simp add: surface_inv_def)
  from filter_split [OF this Cons] have p: "map rq_id (as_pending ?s) = filter (\<lambda>j. j \<noteq> i) (map rq_id (as_pending s))"
    "i \<in> set (map rq_id (as_pending s))" by simp_all
  let ?tr = "tr @ [(Resolve i decision, Resolved found)]"
  have "issued ?tr = issued tr" "resolved ?tr = resolved tr @ [i]" using s'(2) by (simp_all add: map_filter_snoc)
  moreover have "i \<in> set (issued tr)" "i \<notin> set (resolved tr)"
    using p(2) assms(1) by (metis (no_types, lifting) surface_inv_def mem_Collect_eq set_filter)+
  moreover have "as_audit s' = audit_chain sip 0 (xs @ [(rq_agent req, ev)])" using s'(1) core_audit_chain [OF xs] by simp
  moreover have "map rq_id (as_pending s') = filter (\<lambda>j. j \<notin> set (resolved tr @ [i])) (issued tr)"
    using s'(1) p(1) assms(1) by (simp add: surface_inv_def conj_commute cong: conj_cong)
  moreover have "length xs = length (as_audit s)" by (simp add: xs)
  ultimately show ?thesis using assms(1) s' by (auto simp: surface_inv_def)
qed

lemma core_step_inv:
  assumes "surface_inv sip s tr" "length tr < 2 ^ 64" "core_step sip op s = (s', oc)"
  shows "surface_inv sip s' (tr @ [(op, oc)])"
proof (cases op)
  case (RequestApproval a tool proposed)
  obtain s1 i where "core_request_approval sip a tool proposed s = (s1, i)" by fastforce
  with inv_issue [OF assms(1,2) this, of "(op, oc)"] assms(3) RequestApproval show ?thesis by auto
next
  case (Evaluate g room tool proposed)
  show ?thesis
  proof (cases "core_classify g tool room")
    case CoreReview
    obtain s1 i where "core_request_approval sip (cg_agent g) tool proposed s = (s1, i)" by fastforce
    with inv_issue [OF assms(1,2) this, of "(op, oc)"] assms(3) Evaluate CoreReview show ?thesis by (auto simp: core_evaluate_def)
  next
    case CoreAuto
    then have "tool \<in> set (cg_allowed_tools g) \<and> room \<in> set (cg_accessible_rooms g)"
      by (auto simp: core_classify_def core_permits_tool_def core_permits_room_def split: if_splits)
    with inv_log [OF assms(1), of "(op, oc)"] assms(3) Evaluate CoreAuto show ?thesis by (auto simp: core_evaluate_def)
  next
    case CoreForbidden
    with inv_log [OF assms(1), of "(op, oc)"] assms(3) Evaluate show ?thesis by (auto simp: core_evaluate_def)
  qed
next
  case (Resolve i decision)
  obtain s1 found where "core_resolve sip i decision s = (s1, found)" by fastforce
  with inv_resolve [OF assms(1) _ this] assms(2,3) Resolve show ?thesis by simp
qed

lemma core_run_inv:
  assumes "core_run sip ops agent_surface_new = (s, tr)" "length ops \<le> 2 ^ 64"
  shows "surface_inv sip s tr \<and> length tr = length ops"
  using assms
proof (induction ops arbitrary: s tr rule: rev_induct)
  case Nil
  then show ?case by (auto simp: surface_inv_def agent_surface_new_def List.map_filter_def intro!: exI [where x = "[]"])
next
  case (snoc op ops)
  obtain s1 tr1 where r: "core_run sip ops agent_surface_new = (s1, tr1)" by fastforce
  obtain s2 oc where st: "core_step sip op s1 = (s2, oc)" by fastforce
  from snoc.prems r st have "s = s2" "tr = tr1 @ [(op, oc)]" by (simp_all add: core_run_append)
  with snoc.IH [OF r] snoc.prems(2) core_step_inv [OF _ _ st, of tr1] show ?case by simp
qed

text \<open>C38: The client's agent surface accounts for every approval, in any sequence of requests, evaluations and
  decisions that starts empty and is no longer than the ids can count: each request gets an id of its
  own, the pending prompts are exactly the issued ones that were not decided, in their order, each is
  decided at most once, nothing passes the gate without the grant, and the audit log verifies and
  holds one entry for everything but a decision on an unknown id.\<close>

theorem core_accounts_for_approvals:
  assumes "core_run sip ops agent_surface_new = (s, tr)" "length ops \<le> 2 ^ 64"
  shows "distinct (issued tr) \<and> distinct (resolved tr) \<and> set (resolved tr) \<subseteq> set (issued tr) \<and>
    map rq_id (as_pending s) = filter (\<lambda>i. i \<notin> set (resolved tr)) (issued tr) \<and>
    core_audit_verify sip (as_audit s) = Inr () \<and>
    length (as_audit s) = length (filter (\<lambda>(_, oc). oc \<noteq> Resolved False) tr) \<and> list_all allowed_by_grant tr"
  using core_run_inv [OF assms] issued_distinct [of sip s tr] assms(2)
  by (auto simp: surface_inv_def core_audit_verify_def)

definition sample_core_ops :: "core_op list" where
  "sample_core_ops =
     [RequestApproval ''@a:x'' ''mail'' ''send'', Resolve 0 Approve, Resolve 0 Deny,
      Evaluate (core_deny_all ''@a:x'') ''!r:x'' ''rm'' ''all'', RequestApproval ''@a:x'' ''mail'' ''send'']"

theorem core_accounts_for_approvals_witness:
  "let (s, tr) = core_run (\<lambda>_. 7) sample_core_ops agent_surface_new in
     issued tr = [0, 1] \<and> resolved tr = [0] \<and> map rq_id (as_pending s) = [1] \<and>
     core_audit_verify (\<lambda>_. 7) (as_audit s) = Inr () \<and> length (as_audit s) = 4"
proof -
  obtain s tr where r: "core_run (\<lambda>_. 7) sample_core_ops agent_surface_new = (s, tr)" by fastforce
  have "map snd (snd (core_run (\<lambda>_. 7) sample_core_ops agent_surface_new)) =
      [Issued 0, Resolved True, Resolved False, Gated (Denied (AgentDenied ''rm is not permitted in !r:x'')), Issued 1]"
    "map fst (snd (core_run (\<lambda>_. 7) sample_core_ops agent_surface_new)) = sample_core_ops"
    by (code_simp, code_simp)
  then have "tr = zip sample_core_ops [Issued 0, Resolved True, Resolved False, Gated (Denied (AgentDenied ''rm is not permitted in !r:x'')), Issued 1]"
    using r by (metis snd_conv zip_map_fst_snd)
  then have "issued tr = [0, 1]" "resolved tr = [0]" "length (filter (\<lambda>(_, oc). oc \<noteq> Resolved False) tr) = 4"
    by (simp_all add: sample_core_ops_def List.map_filter_simps)
  moreover have "length sample_core_ops \<le> 2 ^ 64" by (simp add: sample_core_ops_def)
  ultimately show ?thesis using core_accounts_for_approvals [OF r] r by simp
qed

end
