(* ===== verification/KeyRelay.thy ===== *)
theory KeyRelay
  imports Ids
begin

section \<open>Relayed key material (gm-e2ee)\<close>

text \<open>
  The crate declares the envelopes of the key material a client publishes and has no operation on them;
  the relay itself is part of the server (theories ServerKeys and IngressKeys).  The maps are ordered.
\<close>

record relayed_device_keys =
  dk_user_id :: user_id
  dk_device_id :: string
  dk_algorithms :: "string list"
  dk_keys :: "(string, string) btree"
  dk_signatures :: "(string, (string, string) btree) btree"

record one_time_key_counts_envelope =
  otk_counts :: "(string, u32) btree"

datatype cross_signing_usage = Master | SelfSigning | UserSigning

record cross_signing_key =
  xs_user_id :: user_id
  xs_usage :: cross_signing_usage
  xs_keys :: "(string, string) btree"

record key_backup_version =
  kb_version :: string
  kb_algorithm :: string
  kb_auth_data_json :: string

end
