(* ===== verification/Spec2Isabelle.thy ===== *)
theory Spec2Isabelle
  imports MatrixError ResolverCache GatewayBudgets GatewaySessions GatewayMemory ServerTrust ServerViews ServerRooms Shard HttpRoutes
    Exchange Wire Boot WorkerPool ClientCore KeyRelay
begin

text \<open>
  \<^bold>\<open>The program.\<close>  GaussMatrix is a Matrix homeserver with a gateway for AI agents, written in Rust
  (gauss-matrix/crates), and gauss-core is the Rust core of its client.  A request comes in over a
  socket (gm-http, transport.rs), is routed and authenticated (router.rs, auth.rs, ingress.rs) and served
  by one composed server (gm-svc, server.rs) through a set of traits (gm-api, server.rs).  The server
  keeps accounts, sessions, keys and the rooms in one key-value store (gm-store); an event is appended to
  a room only when the authorization rules of its room version accept it (gm-stateres), and its id is the
  hash of its canonical form (gm-api pdu, gm-util).  Other servers send transactions and read rooms over
  the federation endpoints, with requests signed by Ed25519 (gm-fed, gm-util).  The agent gateway
  (gm-agent) mediates the tool calls of agents by capability grants, policies and budgets and writes
  every decision to a hash-chained audit log (gm-store, audit.rs).

  \<^bold>\<open>Conventions.\<close>  A \<open>String\<close> is the list of its UTF-8 bytes, a byte vector a list of 8-bit words, machine
  integers are words and wrap where a release build wraps, \<open>usize\<close> counts of lists are natural numbers, an
  ordered map is a sorted association list (\<open>btree\<close>), \<open>Option\<close> is \<open>option\<close> and \<open>Result\<close> a sum with the
  error on the left.  Every operation takes the state and returns it updated.  A trait is a record of
  operations, and its contract a locale.  The clock is a state-passing function, the standard library's
  \<open>DefaultHasher\<close>, whose algorithm is left open, a parameter \<open>sip\<close>, and tool executors, room contexts and
  sinks are parameters.  Functions keep the names of the source where these are free.

  \<^bold>\<open>Foundations.\<close>
  \<^item> Prelude: sums, ordered maps, splitting and decimal numbers; the text and number lemmas all share.
  \<^item> Utf8, Lossy: decoding and encoding of UTF-8, \<open>str_chars\<close>, \<open>from_utf8\<close>, \<open>from_utf8_lossy\<close>.
  \<^item> F64: IEEE doubles, with the shortest decimal display and the parsing of the standard library.
  \<^item> Store (gm-store lib.rs, memory.rs, shared.rs): the \<open>Store\<close> trait as \<open>store_ops\<close>, its contract as
    the locale \<open>kv_store\<close>, interpreted on the in-memory store and the shared handle; the paging iterator
    yields the scan.  Everything above the store is proved for any interpretation of the contract.
  \<^item> FileStore (gm-store file.rs): the durable store over a tree of directories in which any call may fail
    and a family is resolved as a path; it is an interpretation of \<open>kv_store\<close>, and for families with
    plain names what is opened again is what was reported as written.
  \<^item> AuditLog (gm-store audit.rs): the hash-chained log over any store.

  \<^bold>\<open>Data and cryptography.\<close>
  \<^item> Json, JsonText (gm-api json.rs): the value type, writer and parser, and what a text denotes.
  \<^item> MatrixError, Ids, Redaction, Pdu (gm-api, gm-util ids.rs): error bodies, identifiers, room versions,
    redaction, events with their content hash and reference id.
  \<^item> Hashing, Ed25519 (gm-util): SHA-256, base64, SHA-512, field, scalar and curve arithmetic, signatures.

  \<^bold>\<open>Rooms.\<close>
  \<^item> AuthRules (gm-stateres auth.rs): every authorization rule, the state view, auth chains.
  \<^item> StateRes (gm-stateres lib.rs): partition, power ordering, mainline ordering, iterative
    authorization.  A result \<open>None\<close> stands for a resolution that does not return.
  \<^item> ResolverCache: the cache of resolutions, sequential and shared by worker threads as a step relation.
  \<^item> Codec, Rooms (gm-svc codec.rs, lib.rs): the stored form of events; timeline, state and stream of rooms,
    refined to the list of appended events (\<open>holds_log\<close>).

  \<^bold>\<open>Server.\<close>
  \<^item> Accounts (accounts.rs, session.rs), Federation (gm-fed), Shard (gm-shard).
  \<^item> Server, ServerKeys, ServerSync, ServerFed (gm-svc server.rs): all capabilities of the server as steps.
  \<^item> ServerLog: any sequence of operations keeps the log of authorized events.  ServerRooms: founding a
    room, sending and retrying.  ServerViews: sync, backfill, one-time keys.  ServerTrust: keys of other
    servers and signed requests.  ServerFrame: the families of the store each operation can write.

  \<^bold>\<open>HTTP.\<close>
  \<^item> Http, HttpRoutes (gm-http lib.rs, auth.rs, router.rs): surface, tokens, routing, percent-decoding.
  \<^item> Homeserver (gm-api server.rs): the traits as a record of operations with its locale, interpreted on
    the composed server and on the server without services.
  \<^item> Ingress, IngressServe, IngressKeys (ingress.rs): bodies, handlers, authentication, dispatch.
  \<^item> IngressSafety, Exchange, Sessions: which operations a request can run and for whom, what it is
    answered, what it cannot change (tokens only by the login endpoint), and how long a login lasts.
  \<^item> Transport, Wire (transport.rs): reading and writing HTTP/1.1 on both sides.  WorkerPool: the accept loop
    and the workers as a step relation, with connections answered, dropped after an error or lost in a panic.
  \<^item> Boot (gm-server): starting the server.  KeyRelay (gm-e2ee): data types without operations.

  \<^bold>\<open>Agents and client.\<close>
  \<^item> AgentEvents, Capability, Policy, Mcp, Roster, AgentMemory, Replay (gm-agent), Metrics, Siem (gm-obs).
  \<^item> Gateway (gm-agent lib.rs, clock.rs): the state of the gateway and every method.  GatewayScope,
    GatewayRuns: what runs was authorized, as a refinement of an abstract authority, and each executed
    call traced to the operation that let it run or queued it.  GatewayBudgets: rate windows of 60 seconds
    under a clock after the epoch that never goes back, and daily budgets.  GatewaySessions: audit
    entries and replay.  GatewayMemory: what an agent remembers after a run.
  \<^item> ClientCore (gauss-core): the client's grants, approvals and audit log, timelines and sync window.

  \<^bold>\<open>Interfaces.\<close>  The locales are \<open>kv_store\<close> (a store keeps a sorted map per family; the audit log, the
  rooms, the accounts, the gateway and the server are proved in its context), \<open>homeserver\<close> (each entry of
  the service interface runs one operation of the server) and \<open>steady_clock\<close> (what the budgets need of a
  clock).  Each is interpreted on the model's own definitions in the theory that provides them, and the
  properties use the interpretations.

  \<^bold>\<open>Bounds.\<close>  Loops are structural recursion or have a termination measure.  The JSON parser's depth is the
  limit of the source, the mainline and chain walks are bounded by the known events, and a mainline walk
  that can cycle is an option.  Hypotheses that limit sizes (fewer than \<open>2 ^ 64\<close> operations, counters
  below \<open>10 ^ 20\<close>, time stamps below \<open>2 ^ 53\<close>) are those under which the code's own integers and key
  formats are exact.

  \<^bold>\<open>Not modelled.\<close>  Sockets, threads inside one operation (a request is one step of the server; the points
  where the code gives up its lock are separate steps: \<open>send_lookup\<close> and \<open>send_commit\<close>, the cache and the
  worker pool; operations that take no lock in the source, such as founding a room, a federation
  transaction or the claim of a one-time key, are covered one after the other only), symbolic links and
  other users of the directory of a file store, environment variables and standard error (gm-server), memory exhaustion, the RocksDB
  backend (a third-party crate behind a feature), the trait \<open>SyncEngine\<close> of gauss-core, which has no
  implementation, and the client written in Dart with its platform code.
\<close>

end
